(* ===== verification/Ax_Prelude.thy ===== *)
theory Ax_Prelude
  imports Complex_Main "HOL-Library.AList" "HOL-Library.Multiset" "HOL-Library.Word"
    "HOL-Library.Sublist" "HOL-Library.Char_ord" "HOL-Library.List_Lexorder"
begin

text \<open>
  Shared vocabulary of the development: JavaScript numbers and optional values, the error type
  of the kernel (\<^verbatim>\<open>packages/core/src/errors.ts\<close>), JavaScript's insertion-ordered
  \<^verbatim>\<open>Map\<close> and \<^verbatim>\<open>Set\<close> as an interface with laws and as
  association lists, and the string helpers the components share.
\<close>

named_theorems session_simps \<open>equations of the session operations\<close>
named_theorems proxy_simps \<open>equations of the credential proxy operations\<close>

section \<open>Numbers\<close>

text \<open>
  A JavaScript number as the code tests it: \<^verbatim>\<open>NaN\<close>, the two infinities, or a finite
  value. Finite values are exact rationals: no operation of the model rounds.
\<close>

datatype jsnum = NaN | PosInf | NegInf | Fin rat

fun js_is_finite :: "jsnum \<Rightarrow> bool" where
  "js_is_finite (Fin _) = True"
| "js_is_finite _ = False"

fun js_nonneg :: "jsnum \<Rightarrow> bool" where
  "js_nonneg (Fin q) = (0 \<le> q)"
| "js_nonneg PosInf = True"
| "js_nonneg _ = False"

text \<open>
  The delay \<^verbatim>\<open>setTimeout\<close> really waits: Node truncates it to an integer, and takes 1 for a
  delay below 1 or above 2147483647. \<open>beyond t d\<close>: an event at \<open>t\<close> comes strictly after a timer
  set with the delay \<open>d\<close> fires; the code sets no timer for a delay that is no finite number.
\<close>

definition TIMEOUT_MAX :: rat where
  "TIMEOUT_MAX = 2147483647"

definition timer_ms :: "rat \<Rightarrow> rat" where
  "timer_ms d = (if 1 \<le> d \<and> d \<le> TIMEOUT_MAX then of_int \<lfloor>d\<rfloor> else 1)"

fun beyond :: "rat option \<Rightarrow> jsnum \<Rightarrow> bool" where
  "beyond None (Fin _) = True"
| "beyond (Some t) (Fin d) = (timer_ms d < t)"
| "beyond _ _ = False"

lemma beyond_not_finite [simp]: "\<not> js_is_finite d \<Longrightarrow> \<not> beyond t d"
  by (cases d; cases t) auto

section \<open>Errors\<close>

text \<open>
  \<^verbatim>\<open>PluginError\<close>: code, plugin and the optional hook name. The human message is not
  modelled; nothing in the code branches on it.
\<close>

record plugin_error =
  pe_code :: string
  pe_plugin :: string
  pe_hook :: "string option"

definition plugin_err :: "string \<Rightarrow> string \<Rightarrow> plugin_error" where
  "plugin_err c p = \<lparr>pe_code = c, pe_plugin = p, pe_hook = None\<rparr>"

definition hook_err :: "string \<Rightarrow> string \<Rightarrow> string \<Rightarrow> plugin_error" where
  "hook_err c p h = \<lparr>pe_code = c, pe_plugin = p, pe_hook = Some h\<rparr>"

lemma plugin_err_sel [simp]:
  "pe_code (plugin_err c p) = c" "pe_plugin (plugin_err c p) = p" "pe_hook (plugin_err c p) = None"
  by (simp_all add: plugin_err_def)

lemma hook_err_sel [simp]:
  "pe_code (hook_err c p h) = c" "pe_plugin (hook_err c p h) = p" "pe_hook (hook_err c p h) = Some h"
  by (simp_all add: hook_err_def)

section \<open>Object literals\<close>

text \<open>An object literal used as a dictionary also answers for what it inherits from
  \<^verbatim>\<open>Object.prototype\<close>.\<close>

definition OBJECT_PROTOTYPE_NAMES :: "string list" where
  "OBJECT_PROTOTYPE_NAMES =
     [''constructor'', ''hasOwnProperty'', ''isPrototypeOf'', ''propertyIsEnumerable'',
      ''toLocaleString'', ''toString'', ''valueOf'', ''__proto__'', ''__defineGetter__'',
      ''__defineSetter__'', ''__lookupGetter__'', ''__lookupSetter__'']"

section \<open>Insertion-ordered maps\<close>

text \<open>
  The interface of JavaScript's \<^verbatim>\<open>Map\<close> as the components use it: \<open>get\<close> returns
  \<^verbatim>\<open>undefined\<close> (\<open>None\<close>) for an absent key, \<open>set\<close> keeps the position of a present
  key and appends a new one, \<open>delete\<close> removes the key and keeps the order of the others.
\<close>

locale js_map =
  fixes get :: "'m \<Rightarrow> 'k \<Rightarrow> 'v option"
    and set_key :: "'k \<Rightarrow> 'v \<Rightarrow> 'm \<Rightarrow> 'm"
    and del_key :: "'k \<Rightarrow> 'm \<Rightarrow> 'm"
    and key_list :: "'m \<Rightarrow> 'k list"
    and wf :: "'m \<Rightarrow> bool"
  assumes get_set: "get (set_key k v m) k' = (if k' = k then Some v else get m k')"
    and get_del: "get (del_key k m) k' = (if k' = k then None else get m k')"
    and keys_get: "k \<in> set (key_list m) \<longleftrightarrow> get m k \<noteq> None"
    and keys_set: "key_list (set_key k v m) =
      (if get m k = None then key_list m @ [k] else key_list m)"
    and keys_del: "key_list (del_key k m) = [k' \<leftarrow> key_list m. k' \<noteq> k]"
    and wf_distinct: "wf m \<longleftrightarrow> distinct (key_list m)"
begin

lemma get_set_same: "get (set_key k v m) k = Some v"
  by (simp add: get_set)

lemma get_set_other: "k' \<noteq> k \<Longrightarrow> get (set_key k v m) k' = get m k'"
  by (simp add: get_set)

lemma get_del_same: "get (del_key k m) k = None"
  by (simp add: get_del)

lemma wf_set: "wf m \<Longrightarrow> wf (set_key k v m)"
  using keys_get by (auto simp: wf_distinct keys_set)

lemma wf_del: "wf m \<Longrightarrow> wf (del_key k m)"
  by (simp add: wf_distinct keys_del)

lemma get_del_set: "get m k = None \<Longrightarrow> get (del_key k (set_key k v m)) k' = get m k'"
  by (simp add: get_set get_del)

lemma keys_del_set: "get m k = None \<Longrightarrow> key_list (del_key k (set_key k v m)) = key_list m"
proof -
  assume none: "get m k = None"
  then have "k \<notin> set (key_list m)" by (simp add: keys_get)
  then have "[k' \<leftarrow> key_list m. k' \<noteq> k] = key_list m" by (auto intro: filter_True)
  with none show ?thesis by (simp add: keys_set keys_del)
qed

lemma length_keys_set:
  "length (key_list (set_key k v m)) =
    (if get m k = None then Suc (length (key_list m)) else length (key_list m))"
  by (simp add: keys_set)

end

text \<open>The model of \<^verbatim>\<open>Map\<close>: an association list, \<^verbatim>\<open>AList.update\<close> and deletion.\<close>

type_synonym ('k, 'v) jsmap = "('k \<times> 'v) list"

abbreviation js_get :: "('k, 'v) jsmap \<Rightarrow> 'k \<Rightarrow> 'v option" where
  "js_get \<equiv> map_of"

abbreviation js_set :: "'k \<Rightarrow> 'v \<Rightarrow> ('k, 'v) jsmap \<Rightarrow> ('k, 'v) jsmap" where
  "js_set \<equiv> AList.update"

abbreviation js_delete :: "'k \<Rightarrow> ('k, 'v) jsmap \<Rightarrow> ('k, 'v) jsmap" where
  "js_delete \<equiv> AList.delete"

abbreviation js_keys :: "('k, 'v) jsmap \<Rightarrow> 'k list" where
  "js_keys m \<equiv> List.map fst m"

abbreviation js_wf :: "('k, 'v) jsmap \<Rightarrow> bool" where
  "js_wf m \<equiv> distinct (js_keys m)"

lemma js_get_set [simp]: "js_get (js_set k v m) k' = (if k' = k then Some v else js_get m k')"
  by (simp add: update_conv')

lemma js_get_delete [simp]: "js_get (js_delete k m) k' = (if k' = k then None else js_get m k')"
  by (simp add: delete_conv')

lemma js_keys_set: "js_keys (js_set k v m) = (if js_get m k = None then js_keys m @ [k] else js_keys m)"
  by (induction m) auto

lemma js_keys_delete: "js_keys (js_delete k m) = [k' \<leftarrow> js_keys m. k' \<noteq> k]"
  by (induction m) (auto simp: AList.delete_eq)

interpretation jm: js_map js_get js_set js_delete js_keys js_wf
  by unfold_locales
    (auto simp: js_keys_set js_keys_delete map_of_eq_None_iff map_of_is_SomeI
      weak_map_of_SomeI dest: map_of_SomeD)

lemmas js_map_wf = jm.wf_set jm.wf_del

lemma js_get_wf_mem: "js_wf m \<Longrightarrow> js_get m k = Some v \<longleftrightarrow> (k, v) \<in> set m"
  by simp

text \<open>Facts about a map are stated with \<^const>\<open>js_get\<close>, not with membership.\<close>

declare map_of_eq_Some_iff [simp del]

section \<open>Answers of a state machine\<close>

text \<open>What a machine answers to a list of operations; two machines in a simulation answer alike.\<close>

fun answers :: "('op \<Rightarrow> 's \<Rightarrow> 'a \<times> 's) \<Rightarrow> 'op list \<Rightarrow> 's \<Rightarrow> 'a list" where
  "answers step [] s = []"
| "answers step (q # qs) s = (case step q s of (a, s) \<Rightarrow> a # answers step qs s)"

lemma answers_sim:
  assumes "R s t" and "\<And>q s t. R s t \<Longrightarrow> fst (step q s) = fst (step' q t) \<and> R (snd (step q s)) (snd (step' q t))"
  shows "answers step qs s = answers step' qs t"
  using assms(1)
proof (induction qs arbitrary: s t)
  case (Cons q qs)
  show ?case using Cons.IH assms(2)[OF Cons.prems, of q] by (simp add: case_prod_beta)
qed simp

section \<open>Strings\<close>

definition starts_with :: "string \<Rightarrow> string \<Rightarrow> bool" where
  "starts_with p s \<longleftrightarrow> take (length p) s = p"

text \<open>\<^verbatim>\<open>s.indexOf(c)\<close> for one character; \<open>None\<close> is \<^verbatim>\<open>-1\<close>.\<close>

fun index_of :: "'a \<Rightarrow> 'a list \<Rightarrow> nat option" where
  "index_of c [] = None"
| "index_of c (x # xs) = (if x = c then Some 0 else map_option Suc (index_of c xs))"

lemma index_of_None: "index_of c xs = None \<longleftrightarrow> c \<notin> set xs"
  by (induction xs) auto

lemma index_of_Some:
  "index_of c xs = Some i \<Longrightarrow> i < length xs \<and> xs ! i = c \<and> c \<notin> set (take i xs)"
  by (induction xs arbitrary: i) (auto split: if_splits)

lemma index_of_append: "c \<notin> set xs \<Longrightarrow> index_of c (xs @ c # ys) = Some (length xs)"
  by (induction xs) auto

lemma index_of_split:
  "index_of c xs = Some i \<Longrightarrow> xs = take i xs @ c # drop (Suc i) xs"
  using index_of_Some id_take_nth_drop by metis

lemma starts_with_append [simp]: "starts_with p (p @ s)"
  by (simp add: starts_with_def)

lemma starts_with_drop: "starts_with p s \<Longrightarrow> s = p @ drop (length p) s"
  by (metis append_take_drop_id starts_with_def)

definition is_digit :: "char \<Rightarrow> bool" where
  "is_digit c \<longleftrightarrow> 48 \<le> (of_char c :: nat) \<and> (of_char c :: nat) \<le> 57"

definition is_lower :: "char \<Rightarrow> bool" where
  "is_lower c \<longleftrightarrow> 97 \<le> (of_char c :: nat) \<and> (of_char c :: nat) \<le> 122"

definition is_upper :: "char \<Rightarrow> bool" where
  "is_upper c \<longleftrightarrow> 65 \<le> (of_char c :: nat) \<and> (of_char c :: nat) \<le> 90"

definition is_alnum :: "char \<Rightarrow> bool" where
  "is_alnum c \<longleftrightarrow> is_digit c \<or> is_lower c \<or> is_upper c"

definition is_hex :: "char \<Rightarrow> bool" where
  "is_hex c \<longleftrightarrow> is_digit c \<or> c \<in> {CHR ''a'', CHR ''b'', CHR ''c'', CHR ''d'', CHR ''e'', CHR ''f''}"

definition lower_char :: "char \<Rightarrow> char" where
  "lower_char c = (if is_upper c then char_of (of_char c + 32 :: nat) else c)"

text \<open>\<^verbatim>\<open>s.trim()\<close>.\<close>

definition is_space :: "char \<Rightarrow> bool" where
  "is_space c \<longleftrightarrow> (of_char c :: nat) \<in> {9, 10, 11, 12, 13, 32, 160}"

definition trim :: "string \<Rightarrow> string" where
  "trim s = rev (dropWhile is_space (rev (dropWhile is_space s)))"

end
