(* ===== verification/Hook_Bus.thy ===== *)
theory Hook_Bus
  imports Ax_Prelude
begin

text \<open>
  The kernel's hook bus, \<^verbatim>\<open>packages/core/src/hook-bus.ts\<close>: service hooks (one
  handler each, called with a timeout) and subscriber hooks (a priority-ordered list fired in
  turn). A handler is an identity whose behaviour is a parameter \<open>sem\<close>: from the bus, the rest
  of the world and the argument it gives the bus and the world it leaves and a \<open>run\<close>, the instant
  at which its promise settles (\<open>None\<close>: never) and how. Handlers may therefore register and
  unsubscribe while they run. The state change of a handler is one step, at its start.
  Time is counted in milliseconds from the start of the handler. A timer loses against a promise
  that settles at the same instant. \<^verbatim>\<open>callJoined\<close> is not modelled.
\<close>

section \<open>Handlers, registrations, the bus\<close>

text \<open>What a promise is rejected with: a \<^verbatim>\<open>PluginError\<close>, the abort reason of the
  subscriber's own signal, or anything else.\<close>

datatype thrown = ThrownPlugin plugin_error | ThrownAbort | ThrownOther string

datatype 'a settlement = Resolved 'a | Rejected thrown

record 'a run =
  run_at :: "rat option"
  run_end :: "'a settlement"

type_synonym ('h, 'b, 'w, 'i, 'o) behaviour = "'h \<Rightarrow> 'b \<Rightarrow> 'w \<Rightarrow> 'i \<Rightarrow> 'b \<times> 'w \<times> 'o run"

record ('h, 'o) service =
  sv_plugin :: string
  sv_handler :: 'h
  sv_returns :: "('o \<Rightarrow> 'o option) option"
  sv_timeout :: "jsnum option"
  sv_stall :: "jsnum option"

record 'h subscriber =
  sub_plugin :: string
  sub_handler :: 'h
  sub_priority :: int

record ('h, 'o) hook_bus =
  services :: "(string, ('h, 'o) service) jsmap"
  subscribers :: "(string, 'h subscriber list) jsmap"
  default_timeout :: jsnum
  stall_warn :: jsnum

text \<open>A veto, \<^verbatim>\<open>Rejection\<close> of \<^verbatim>\<open>errors.ts\<close>, with the field its subtype
  \<^verbatim>\<open>Hold\<close> adds (decision id and note).\<close>

record rejection =
  rj_reason :: string
  rj_source :: "string option"
  rj_code :: "string option"
  rj_hold :: "(string \<times> string) option"

datatype 'p sub_result = Undefined | Payload 'p | Veto rejection

datatype bus_log =
    Stalled string string string rat
  | Slow string string string rat
  | TimedOutLog string string rat
  | FailedLog string string bool
  | AbortedLog string string

definition isValidTimeoutMs :: "jsnum \<Rightarrow> bool" where
  "isValidTimeoutMs v \<longleftrightarrow> v = PosInf \<or> (js_is_finite v \<and> js_nonneg v)"

definition DEFAULT_SERVICE_TIMEOUT_MS :: jsnum where
  "DEFAULT_SERVICE_TIMEOUT_MS = Fin 120000"

definition DEFAULT_STALL_WARN_MS :: jsnum where
  "DEFAULT_STALL_WARN_MS = Fin 15000"

text \<open>\<^verbatim>\<open>a ?? b\<close>.\<close>

abbreviation nullish :: "'a option \<Rightarrow> 'a \<Rightarrow> 'a" where
  "nullish a b \<equiv> case_option b (\<lambda>x. x) a"

definition new_hook_bus :: "jsnum option \<Rightarrow> jsnum option \<Rightarrow> plugin_error + ('h, 'o) hook_bus" where
  "new_hook_bus dflt stall =
     (let configured = nullish dflt DEFAULT_SERVICE_TIMEOUT_MS;
          st = nullish stall DEFAULT_STALL_WARN_MS
      in if \<not> isValidTimeoutMs configured then Inl (plugin_err ''invalid-payload'' ''core'')
         else if \<not> isValidTimeoutMs st then Inl (plugin_err ''invalid-payload'' ''core'')
         else Inr \<lparr>services = [], subscribers = [], default_timeout = configured, stall_warn = st\<rparr>)"

section \<open>Registration\<close>

definition timeout_ok :: "jsnum option \<Rightarrow> bool" where
  "timeout_ok t \<longleftrightarrow> (case t of None \<Rightarrow> True | Some v \<Rightarrow> isValidTimeoutMs v)"

definition registerService ::
  "string \<Rightarrow> ('h, 'o) service \<Rightarrow> ('h, 'o) hook_bus \<Rightarrow> plugin_error + ('h, 'o) hook_bus" where
  "registerService hook s b =
     (case js_get (services b) hook of
        Some _ \<Rightarrow> Inl (plugin_err ''duplicate-service'' (sv_plugin s))
      | None \<Rightarrow>
          if \<not> timeout_ok (sv_timeout s) then Inl (hook_err ''invalid-payload'' (sv_plugin s) hook)
          else if \<not> timeout_ok (sv_stall s) then Inl (hook_err ''invalid-payload'' (sv_plugin s) hook)
          else Inr (b\<lparr>services := js_set hook s (services b)\<rparr>))"

definition hasService :: "('h, 'o) hook_bus \<Rightarrow> string \<Rightarrow> bool" where
  "hasService b hook \<longleftrightarrow> js_get (services b) hook \<noteq> None"

definition listServices :: "('h, 'o) hook_bus \<Rightarrow> string list" where
  "listServices b = js_keys (services b)"

definition MAX_SAFE_INTEGER :: int where
  "MAX_SAFE_INTEGER = 9007199254740991"

fun js_safe_integer :: "jsnum \<Rightarrow> int option" where
  "js_safe_integer (Fin q) =
     (if of_int \<lfloor>q\<rfloor> = q \<and> \<bar>\<lfloor>q\<rfloor>\<bar> \<le> MAX_SAFE_INTEGER then Some \<lfloor>q\<rfloor> else None)"
| "js_safe_integer _ = None"

abbreviation subs_of :: "('h, 'o) hook_bus \<Rightarrow> string \<Rightarrow> 'h subscriber list" where
  "subs_of b hook \<equiv> nullish (js_get (subscribers b) hook) []"

text \<open>\<^verbatim>\<open>Array.prototype.sort\<close> is stable, as \<^const>\<open>sort_key\<close> is.\<close>

definition subscribe ::
  "string \<Rightarrow> string \<Rightarrow> 'h \<Rightarrow> jsnum option \<Rightarrow> ('h, 'o) hook_bus \<Rightarrow> thrown + ('h, 'o) hook_bus" where
  "subscribe hook plugin h prio b =
     (case js_safe_integer (nullish prio (Fin 0)) of
        None \<Rightarrow> Inl (ThrownOther ''subscriber priority must be a safe integer'')
      | Some pr \<Rightarrow>
          let xs = subs_of b hook @ [\<lparr>sub_plugin = plugin, sub_handler = h, sub_priority = pr\<rparr>]
          in Inr (b\<lparr>subscribers := js_set hook (sort_key sub_priority xs) (subscribers b)\<rparr>))"

definition unsubscribe :: "string \<Rightarrow> string \<Rightarrow> ('h, 'o) hook_bus \<Rightarrow> nat \<times> ('h, 'o) hook_bus" where
  "unsubscribe hook plugin b =
     (case js_get (subscribers b) hook of
        None \<Rightarrow> (0, b)
      | Some xs \<Rightarrow>
          let filtered = [s \<leftarrow> xs. sub_plugin s \<noteq> plugin] in
          if length filtered = length xs then (0, b)
          else (length xs - length filtered,
                b\<lparr>subscribers := (if filtered = [] then js_delete hook (subscribers b)
                                 else js_set hook filtered (subscribers b))\<rparr>))"

section \<open>Service calls\<close>

text \<open>
  \<^verbatim>\<open>watchStall\<close>: nothing without a finite threshold; \<open>Stalled\<close> when the watched work is
  still running at the threshold, and \<open>Slow\<close> with its duration when it then settles.
\<close>

definition watchStall :: "string \<Rightarrow> string \<Rightarrow> string \<Rightarrow> jsnum \<Rightarrow> rat option \<Rightarrow> bus_log list" where
  "watchStall kind hook plugin warn tm =
     (case warn of
        Fin d \<Rightarrow> if beyond tm warn
                 then Stalled kind hook plugin (timer_ms d)
                      # (case tm of None \<Rightarrow> [] | Some t \<Rightarrow> [Slow kind hook plugin t])
                 else []
      | _ \<Rightarrow> [])"

definition withTimeout :: "'a run \<Rightarrow> jsnum \<Rightarrow> thrown \<Rightarrow> 'a run" where
  "withTimeout r ms e =
     (case ms of
        Fin d \<Rightarrow> if beyond (run_at r) ms then \<lparr>run_at = Some (timer_ms d), run_end = Rejected e\<rparr> else r
      | _ \<Rightarrow> r)"

datatype 'o call_result = CallOk 'o | CallErr plugin_error | CallHangs

definition finish_call :: "string \<Rightarrow> ('h, 'o) service \<Rightarrow> 'o settlement \<Rightarrow> 'o call_result" where
  "finish_call hook s e =
     (case e of
        Resolved v \<Rightarrow>
          (case sv_returns s of
             None \<Rightarrow> CallOk v
           | Some parse \<Rightarrow>
               (case parse v of
                  None \<Rightarrow> CallErr (hook_err ''invalid-return'' (sv_plugin s) hook)
                | Some v' \<Rightarrow> CallOk v'))
      | Rejected (ThrownPlugin err) \<Rightarrow> CallErr err
      | Rejected _ \<Rightarrow> CallErr (hook_err ''unknown'' (sv_plugin s) hook))"

definition call ::
  "('h, ('h, 'o) hook_bus, 'w, 'i, 'o) behaviour \<Rightarrow> string \<Rightarrow> ('h, 'o) hook_bus \<Rightarrow> 'w \<Rightarrow> 'i
     \<Rightarrow> 'o call_result \<times> ('h, 'o) hook_bus \<times> 'w \<times> bus_log list" where
  "call sem hook b w input =
     (case js_get (services b) hook of
        None \<Rightarrow> (CallErr (hook_err ''no-service'' ''core'' hook), b, w, [])
      | Some s \<Rightarrow>
          let timeoutMs = nullish (sv_timeout s) (default_timeout b);
              warn = nullish (sv_stall s) (stall_warn b);
              (b', w', r) = sem (sv_handler s) b w input;
              r' = withTimeout r timeoutMs (ThrownPlugin (hook_err ''timeout'' (sv_plugin s) hook));
              lg = watchStall ''hook_call'' hook (sv_plugin s) warn (run_at r')
          in (if run_at r' = None then CallHangs else finish_call hook s (run_end r'), b', w', lg))"

section \<open>Firing\<close>

datatype 'p sub_outcome = Settled "'p sub_result" | FailedOut | TimedOutOut | NeverOut

text \<open>A subscriber under a finite bound: \<^verbatim>\<open>runBoundedSubscriber\<close>.\<close>

definition bounded_outcome ::
  "string \<Rightarrow> string \<Rightarrow> jsnum \<Rightarrow> rat \<Rightarrow> 'p sub_result run \<Rightarrow> 'p sub_outcome \<times> bus_log list" where
  "bounded_outcome hook plugin warn d r =
     (let watch = watchStall ''hook_subscriber'' hook plugin warn (run_at r) in
      if beyond (run_at r) (Fin d) then
        (TimedOutOut,
         TimedOutLog hook plugin d
         # (if run_at r = None then []
            else case run_end r of
                   Rejected ThrownAbort \<Rightarrow> [AbortedLog hook plugin]
                 | Rejected _ \<Rightarrow> [FailedLog hook plugin True]
                 | Resolved _ \<Rightarrow> [])
         @ watch)
      else (case run_end r of
              Resolved v \<Rightarrow> (Settled v, watch)
            | Rejected _ \<Rightarrow> (FailedOut, FailedLog hook plugin False # watch)))"

text \<open>A subscriber without a bound: the loop body of \<^verbatim>\<open>fire\<close>.\<close>

definition unbounded_outcome ::
  "string \<Rightarrow> string \<Rightarrow> jsnum \<Rightarrow> 'p sub_result run \<Rightarrow> 'p sub_outcome \<times> bus_log list" where
  "unbounded_outcome hook plugin warn r =
     (let watch = watchStall ''hook_subscriber'' hook plugin warn (run_at r) in
      if run_at r = None then (NeverOut, watch)
      else (case run_end r of
              Resolved v \<Rightarrow> (Settled v, watch)
            | Rejected _ \<Rightarrow> (FailedOut, FailedLog hook plugin False # watch)))"

definition sub_outcome_of ::
  "string \<Rightarrow> string \<Rightarrow> jsnum \<Rightarrow> jsnum \<Rightarrow> 'p sub_result run \<Rightarrow> 'p sub_outcome \<times> bus_log list" where
  "sub_outcome_of hook plugin warn timeoutMs r =
     (case timeoutMs of
        Fin d \<Rightarrow> bounded_outcome hook plugin warn d r
      | _ \<Rightarrow> unbounded_outcome hook plugin warn r)"

datatype 'p fire_result = Fired 'p | Vetoed rejection | FireThrew plugin_error | FireHangs string

definition attribute_veto :: "string \<Rightarrow> rejection \<Rightarrow> rejection" where
  "attribute_veto plugin rj = rj\<lparr>rj_source := Some (nullish (rj_source rj) plugin)\<rparr>"

type_synonym ('h, 'o, 'w, 'p) sub_behaviour =
  "('h, ('h, 'o) hook_bus, 'w, 'p, 'p sub_result) behaviour"

definition add_log :: "bus_log list \<Rightarrow> 'r \<times> 'b \<times> 'w \<times> bus_log list \<Rightarrow> 'r \<times> 'b \<times> 'w \<times> bus_log list" where
  "add_log lg x = (case x of (res, b, w, lg2) \<Rightarrow> (res, b, w, lg @ lg2))"

fun fire_subs ::
  "('h, 'o, 'w, 'p) sub_behaviour \<Rightarrow> string \<Rightarrow> jsnum \<Rightarrow> 'h subscriber list \<Rightarrow>
     ('h, 'o) hook_bus \<Rightarrow> 'w \<Rightarrow> 'p \<Rightarrow> 'p fire_result \<times> ('h, 'o) hook_bus \<times> 'w \<times> bus_log list" where
  "fire_subs sem hook timeoutMs [] b w current = (Fired current, b, w, [])"
| "fire_subs sem hook timeoutMs (s # ss) b w current =
     (let (b', w', r) = sem (sub_handler s) b w current;
          (out, lg) = sub_outcome_of hook (sub_plugin s) (stall_warn b) timeoutMs r
      in case out of
           Settled (Veto rj) \<Rightarrow> (Vetoed (attribute_veto (sub_plugin s) rj), b', w', lg)
         | Settled (Payload p) \<Rightarrow> add_log lg (fire_subs sem hook timeoutMs ss b' w' p)
         | Settled Undefined \<Rightarrow> add_log lg (fire_subs sem hook timeoutMs ss b' w' current)
         | FailedOut \<Rightarrow> add_log lg (fire_subs sem hook timeoutMs ss b' w' current)
         | TimedOutOut \<Rightarrow> add_log lg (fire_subs sem hook timeoutMs ss b' w' current)
         | NeverOut \<Rightarrow> (FireHangs (sub_plugin s), b', w', lg))"

definition fire ::
  "('h, 'o, 'w, 'p) sub_behaviour \<Rightarrow> string \<Rightarrow> jsnum option \<Rightarrow>
     ('h, 'o) hook_bus \<Rightarrow> 'w \<Rightarrow> 'p \<Rightarrow> 'p fire_result \<times> ('h, 'o) hook_bus \<times> 'w \<times> bus_log list" where
  "fire sem hook opt b w payload =
     (let timeoutMs = nullish opt PosInf in
      if \<not> isValidTimeoutMs timeoutMs
      then (FireThrew (hook_err ''invalid-payload'' ''core'' hook), b, w, [])
      else fire_subs sem hook timeoutMs (subs_of b hook) b w payload)"

section \<open>The bus as a registry of services\<close>

text \<open>
  What bootstrap relies on: plugins register services while they initialise, and afterwards the
  kernel asks which hooks have a handler.
\<close>

locale service_registry =
  fixes has :: "'b \<Rightarrow> string \<Rightarrow> bool"
    and register :: "string \<Rightarrow> 's \<Rightarrow> 'b \<Rightarrow> 'e + 'b"
  assumes register_has: "register hook s b = Inr b' \<Longrightarrow> has b' h \<longleftrightarrow> h = hook \<or> has b h"
    and register_dup: "has b hook \<Longrightarrow> \<exists>e. register hook s b = Inl e"
begin

lemma register_fresh: "register hook s b = Inr b' \<Longrightarrow> \<not> has b hook"
  using register_dup[of b hook s] by auto

lemma register_mono: "register hook s b = Inr b' \<Longrightarrow> has b h \<Longrightarrow> has b' h"
  by (simp add: register_has)

lemma register_new: "register hook s b = Inr b' \<Longrightarrow> has b' hook"
  by (simp add: register_has)

lemma register_twice:
  assumes "register hook s b = Inr b'"
  shows "\<exists>e. register hook s' b' = Inl e"
  using register_dup[OF register_new[OF assms]] .

end

interpretation bus_reg: service_registry hasService registerService
  by unfold_locales (auto simp: registerService_def hasService_def split: option.splits if_splits)

section \<open>The invariant of the bus\<close>

definition service_ok :: "('h, 'o) service \<Rightarrow> bool" where
  "service_ok s \<longleftrightarrow> timeout_ok (sv_timeout s) \<and> timeout_ok (sv_stall s)"

definition sub_list_ok :: "'h subscriber list \<Rightarrow> bool" where
  "sub_list_ok xs \<longleftrightarrow> xs \<noteq> [] \<and> sorted (List.map sub_priority xs)"

definition bus_inv :: "('h, 'o) hook_bus \<Rightarrow> bool" where
  "bus_inv b \<longleftrightarrow>
     js_wf (services b) \<and> js_wf (subscribers b) \<and>
     (\<forall>hook s. js_get (services b) hook = Some s \<longrightarrow> service_ok s) \<and>
     (\<forall>hook xs. js_get (subscribers b) hook = Some xs \<longrightarrow> sub_list_ok xs) \<and>
     isValidTimeoutMs (default_timeout b) \<and> isValidTimeoutMs (stall_warn b)"

datatype ('h, 'o) bus_op =
    OpRegister string "('h, 'o) service"
  | OpSubscribe string string 'h "jsnum option"
  | OpUnsubscribe string string

text \<open>An operation that throws leaves the bus as it was.\<close>

fun apply_bus_op :: "('h, 'o) hook_bus \<Rightarrow> ('h, 'o) bus_op \<Rightarrow> ('h, 'o) hook_bus" where
  "apply_bus_op b (OpRegister hook s) = (case registerService hook s b of Inl _ \<Rightarrow> b | Inr b' \<Rightarrow> b')"
| "apply_bus_op b (OpSubscribe hook p h pr) = (case subscribe hook p h pr b of Inl _ \<Rightarrow> b | Inr b' \<Rightarrow> b')"
| "apply_bus_op b (OpUnsubscribe hook p) = snd (unsubscribe hook p b)"

lemma sort_key_Nil_iff [simp]: "sort_key f xs = [] \<longleftrightarrow> xs = []"
  by (metis length_0_conv length_sort)

lemma new_hook_bus_inv: "new_hook_bus d st = Inr b \<Longrightarrow> bus_inv b"
  by (auto simp: new_hook_bus_def bus_inv_def Let_def split: if_splits option.splits)

lemma sub_list_ok_sort: "xs \<noteq> [] \<Longrightarrow> sub_list_ok (sort_key sub_priority xs)"
  by (simp add: sub_list_ok_def)

lemma sub_list_ok_filter: "sub_list_ok xs \<Longrightarrow> filter P xs \<noteq> [] \<Longrightarrow> sub_list_ok (filter P xs)"
  by (simp add: sub_list_ok_def sorted_filter)

lemma registerService_inv: "bus_inv b \<Longrightarrow> registerService hook s b = Inr b' \<Longrightarrow> bus_inv b'"
  by (auto simp: registerService_def bus_inv_def service_ok_def js_map_wf split: option.splits if_splits)

lemma subscribe_inv: "bus_inv b \<Longrightarrow> subscribe hook p h pr b = Inr b' \<Longrightarrow> bus_inv b'"
  by (auto simp: subscribe_def bus_inv_def js_map_wf Let_def sub_list_ok_sort
      simp del: sort_key_simps js_safe_integer.simps split: option.splits if_splits)

lemma unsubscribe_inv: "bus_inv b \<Longrightarrow> bus_inv (snd (unsubscribe hook p b))"
  by (auto simp: unsubscribe_def bus_inv_def js_map_wf Let_def sub_list_ok_filter split: option.splits)

lemma apply_bus_op_inv: "bus_inv b \<Longrightarrow> bus_inv (apply_bus_op b x)"
  by (cases x) (auto split: sum.splits intro: registerService_inv subscribe_inv unsubscribe_inv)

lemma bus_ops_inv: "bus_inv b \<Longrightarrow> bus_inv (foldl apply_bus_op b xs)"
  by (induction xs arbitrary: b) (auto intro: apply_bus_op_inv)

section \<open>Subscriber order\<close>

text \<open>
  The abstract specification of the subscriber lists: per hook, the live subscribers in the
  order they were registered.
\<close>

fun spec_bus_op :: "string \<Rightarrow> 'h subscriber list \<Rightarrow> ('h, 'o) bus_op \<Rightarrow> 'h subscriber list" where
  "spec_bus_op hook xs (OpRegister _ _) = xs"
| "spec_bus_op hook xs (OpSubscribe hk p h pr) =
     (case js_safe_integer (nullish pr (Fin 0)) of
        None \<Rightarrow> xs
      | Some q \<Rightarrow> if hk = hook then xs @ [\<lparr>sub_plugin = p, sub_handler = h, sub_priority = q\<rparr>] else xs)"
| "spec_bus_op hook xs (OpUnsubscribe hk p) = (if hk = hook then [s \<leftarrow> xs. sub_plugin s \<noteq> p] else xs)"

lemma sort_key_sort_key_append: "sort_key f (sort_key f xs @ ys) = sort_key f (xs @ ys)"
proof (rule properties_for_sort_key)
  show "mset (sort_key f (xs @ ys)) = mset (sort_key f xs @ ys)" by simp
  show "sorted (List.map f (sort_key f (xs @ ys)))" by simp
  show "[x \<leftarrow> sort_key f (xs @ ys). f k = f x] = [x \<leftarrow> sort_key f xs @ ys. f k = f x]" for k
  proof -
    have eq: "(\<lambda>x. f k = f x) = (\<lambda>x. f x = f k)" by auto
    show ?thesis unfolding eq by (simp only: sort_key_stable filter_append)
  qed
qed

lemma filter_length_eq: "length (filter P xs) = length xs \<Longrightarrow> filter P xs = xs"
  by (metis filter_id_conv length_filter_less nat_less_le)

lemma unsubscribe_subs:
  "subs_of (snd (unsubscribe hook p b)) hk =
     (if hk = hook then [s \<leftarrow> subs_of b hook. sub_plugin s \<noteq> p] else subs_of b hk)"
proof (cases "js_get (subscribers b) hook")
  case None
  then show ?thesis by (simp add: unsubscribe_def)
next
  case (Some xs)
  let ?f = "[s \<leftarrow> xs. sub_plugin s \<noteq> p]"
  show ?thesis
  proof (cases "length ?f = length xs")
    case True
    from filter_length_eq[OF this] Some True show ?thesis by (simp add: unsubscribe_def Let_def)
  next
    case False
    with Some show ?thesis by (simp add: unsubscribe_def Let_def)
  qed
qed

lemma subscribe_subs:
  "subscribe hook p h pr b = Inr b' \<Longrightarrow>
     subs_of b' hk =
       (if hk = hook
        then sort_key sub_priority (subs_of b hook @ [\<lparr>sub_plugin = p, sub_handler = h,
               sub_priority = the (js_safe_integer (nullish pr (Fin 0)))\<rparr>])
        else subs_of b hk)"
  by (auto simp: subscribe_def Let_def split: option.splits)

lemma registerService_subs: "registerService hook s b = Inr b' \<Longrightarrow> subscribers b' = subscribers b"
  by (auto simp: registerService_def split: option.splits if_splits)

lemma apply_bus_op_subs:
  assumes "subs_of b hook = sort_key sub_priority xs"
  shows "subs_of (apply_bus_op b x) hook = sort_key sub_priority (spec_bus_op hook xs x)"
proof (cases x)
  case (OpRegister hk s)
  with assms show ?thesis by (auto dest: registerService_subs split: sum.splits)
next
  case (OpSubscribe hk p h pr)
  show ?thesis
  proof (cases "subscribe hk p h pr b")
    case (Inl e)
    then have "js_safe_integer (nullish pr (Fin 0)) = None"
      by (auto simp: subscribe_def Let_def split: option.splits)
    with Inl OpSubscribe assms show ?thesis by simp
  next
    case (Inr b')
    then obtain q where "js_safe_integer (nullish pr (Fin 0)) = Some q"
      by (auto simp: subscribe_def split: option.splits)
    with Inr OpSubscribe assms show ?thesis
      by (cases "hk = hook") (simp_all add: subscribe_subs sort_key_sort_key_append)
  qed
next
  case (OpUnsubscribe hk p)
  with assms show ?thesis by (cases "hk = hook") (simp_all add: unsubscribe_subs filter_sort)
qed

lemma bus_ops_subs:
  "subs_of b hook = sort_key sub_priority xs \<Longrightarrow>
   subs_of (foldl apply_bus_op b ops) hook = sort_key sub_priority (foldl (spec_bus_op hook) xs ops)"
  by (induction ops arbitrary: b xs) (auto dest: apply_bus_op_subs)

lemma new_hook_bus_subs: "new_hook_bus d st = Inr b \<Longrightarrow> subs_of b hook = []"
  by (auto simp: new_hook_bus_def Let_def split: if_splits)

section \<open>Properties of firing\<close>

lemma fst_add_log [simp]: "fst (add_log lg x) = fst x"
  by (simp add: add_log_def split: prod.split)

lemma snd_add_log [simp]:
  "fst (snd (add_log lg x)) = fst (snd x)" "fst (snd (snd (add_log lg x))) = fst (snd (snd x))"
  by (simp_all add: add_log_def split: prod.split)

lemmas fire_splits = prod.splits sub_outcome.splits sub_result.splits settlement.splits if_splits

lemma bounded_never_hangs: "fst (bounded_outcome hook pl warn d r) \<noteq> NeverOut"
  by (auto simp: bounded_outcome_def Let_def split: settlement.splits)

lemma fire_subs_bounded: "fst (fire_subs sem hook (Fin d) ss b w p) \<noteq> FireHangs q"
proof (induction ss arbitrary: b w p)
  case Nil
  then show ?case by simp
next
  case (Cons s ss)
  obtain b' w' r where sem: "sem (sub_handler s) b w p = (b', w', r)" by (metis prod_cases3)
  have "fst (sub_outcome_of hook (sub_plugin s) (stall_warn b) (Fin d) r) \<noteq> NeverOut"
    by (simp add: sub_outcome_of_def bounded_never_hangs)
  then show ?case using Cons.IH by (auto simp: sem split: fire_splits)
qed

lemma fire_subs_never_throws: "fst (fire_subs sem hook t ss b w p) \<noteq> FireThrew e"
  by (induction ss arbitrary: b w p) (auto split: fire_splits)

text \<open>A subscriber list behaves as its first part followed by the rest, when the first part
  lets the fire go on.\<close>

lemma fire_subs_append:
  "fire_subs sem hook t (xs @ ys) b w p =
     (case fire_subs sem hook t xs b w p of
        (Fired q, b', w', lg) \<Rightarrow> add_log lg (fire_subs sem hook t ys b' w' q)
      | other \<Rightarrow> other)"
  by (induction xs arbitrary: b w p)
    (auto simp: add_log_def split: fire_splits fire_result.splits)




text \<open>A subscriber that can only fail or overrun, and leaves bus and world alone.\<close>

definition harmless_failure ::
  "('h, 'o, 'w, 'p) sub_behaviour \<Rightarrow> string \<Rightarrow> jsnum \<Rightarrow> 'h subscriber \<Rightarrow> bool" where
  "harmless_failure sem hook t s \<longleftrightarrow>
     (\<forall>b w p. \<exists>r. sem (sub_handler s) b w p = (b, w, r) \<and>
        fst (sub_outcome_of hook (sub_plugin s) (stall_warn b) t r) \<in> {FailedOut, TimedOutOut})"

lemma fire_subs_isolation:
  assumes "\<And>s. s \<in> set ss \<Longrightarrow> bad s \<Longrightarrow> harmless_failure sem hook t s"
  shows "fst (fire_subs sem hook t ss b w p) = fst (fire_subs sem hook t [s \<leftarrow> ss. \<not> bad s] b w p)"
  using assms
proof (induction ss arbitrary: b w p)
  case Nil
  then show ?case by simp
next
  case (Cons s ss)
  have ih: "fst (fire_subs sem hook t ss b w p) = fst (fire_subs sem hook t [s \<leftarrow> ss. \<not> bad s] b w p)"
    for b w p using Cons.IH Cons.prems by (meson list.set_intros(2))
  show ?case
  proof (cases "bad s")
    case True
    with Cons.prems obtain r where "sem (sub_handler s) b w p = (b, w, r)"
      "fst (sub_outcome_of hook (sub_plugin s) (stall_warn b) t r) \<in> {FailedOut, TimedOutOut}"
      unfolding harmless_failure_def by (meson list.set_intros(1))
    with True ih show ?thesis by (auto split: fire_splits)
  next
    case False
    with ih show ?thesis by (auto split: fire_splits)
  qed
qed

text \<open>Handlers that also record, in the world, that they ran.\<close>

definition recording ::
  "('h, 'o, 'w, 'p) sub_behaviour \<Rightarrow> ('h, 'o, 'h list \<times> 'w, 'p) sub_behaviour" where
  "recording sem h b tw p = (case sem h b (snd tw) p of (b', w', r) \<Rightarrow> (b', (fst tw @ [h], w'), r))"

lemma fire_subs_recording:
  "\<exists>n. fst (fst (snd (snd (fire_subs (recording sem) hook t ss b (tr, w) p)))) =
        tr @ List.map sub_handler (take n ss)
     \<and> (\<forall>q. fst (fire_subs (recording sem) hook t ss b (tr, w) p) = Fired q \<longrightarrow> n = length ss)"
proof (induction ss arbitrary: b tr w p)
  case Nil
  then show ?case by simp
next
  case (Cons s ss)
  obtain b' w' r where sem: "recording sem (sub_handler s) b (tr, w) p = (b', (tr @ [sub_handler s], w'), r)"
    by (cases "sem (sub_handler s) b w p") (auto simp: recording_def)
  have step: "\<exists>n. fst (fst (snd (snd (fire_subs (recording sem) hook t (s # ss) b (tr, w) p)))) =
        tr @ List.map sub_handler (take n (s # ss))
     \<and> (\<forall>q. fst (fire_subs (recording sem) hook t (s # ss) b (tr, w) p) = Fired q \<longrightarrow> n = length (s # ss))"
    if "fire_subs (recording sem) hook t (s # ss) b (tr, w) p =
      add_log lg (fire_subs (recording sem) hook t ss b' (tr @ [sub_handler s], w') q)" for lg q
  proof -
    obtain n where "fst (fst (snd (snd (fire_subs (recording sem) hook t ss b' (tr @ [sub_handler s], w') q)))) =
        (tr @ [sub_handler s]) @ List.map sub_handler (take n ss)"
      "\<forall>q'. fst (fire_subs (recording sem) hook t ss b' (tr @ [sub_handler s], w') q) = Fired q' \<longrightarrow> n = length ss"
      using Cons.IH by blast
    then show ?thesis unfolding that by (intro exI[of _ "Suc n"]) auto
  qed
  obtain out lg where out: "sub_outcome_of hook (sub_plugin s) (stall_warn b) t r = (out, lg)"
    by (metis surj_pair)
  show ?case
  proof (cases "out = NeverOut \<or> (\<exists>v. out = Settled (Veto v))")
    case True
    with sem out show ?thesis by (intro exI[of _ 1]) auto
  next
    case False
    with sem out have "\<exists>lg q. fire_subs (recording sem) hook t (s # ss) b (tr, w) p =
      add_log lg (fire_subs (recording sem) hook t ss b' (tr @ [sub_handler s], w') q)"
      by (auto split: fire_splits)
    with step show ?thesis by blast
  qed
qed

section \<open>The properties of the bus\<close>

text \<open>Whatever sequence of registrations, subscriptions and unsubscriptions runs on a new
  bus (each one throwing or not), the bus stays well formed: service hooks are unique, every
  stored timeout and stall threshold is valid, every stored subscriber list is non-empty and
  sorted by priority.\<close>

theorem hook_bus_invariant:
  "new_hook_bus d st = Inr b \<Longrightarrow> bus_inv (foldl apply_bus_op b ops)"
  by (rule bus_ops_inv[OF new_hook_bus_inv])

theorem hook_bus_invariant_witness:
  "bus_inv (foldl apply_bus_op
     (\<lparr>services = [], subscribers = [], default_timeout = Fin 10, stall_warn = PosInf\<rparr>
        :: (nat, nat) hook_bus)
     [OpSubscribe ''h'' ''p'' 1 None, OpSubscribe ''h'' ''q'' 2 (Some (Fin (-1)))])"
  by (rule hook_bus_invariant[of "Some (Fin 10)" "Some PosInf"])
    (simp add: new_hook_bus_def Let_def isValidTimeoutMs_def)

text \<open>The subscriber list of a hook refines the plain registration history: after any
  sequence of operations on a new bus it is the stable sort by priority of the subscribers
  registered on that hook, in registration order, without those unsubscribed since.\<close>

theorem hook_bus_subscriber_order:
  assumes "new_hook_bus d st = Inr b"
  shows "subs_of (foldl apply_bus_op b ops) hook =
           sort_key sub_priority (foldl (spec_bus_op hook) [] ops)"
  using new_hook_bus_subs[OF assms] by (intro bus_ops_subs) simp

theorem hook_bus_subscriber_order_witness:
  "List.map sub_plugin (subs_of (foldl apply_bus_op
     (\<lparr>services = [], subscribers = [], default_timeout = Fin 10, stall_warn = PosInf\<rparr>
        :: (nat, nat) hook_bus)
     [OpSubscribe ''h'' ''p'' 1 (Some (Fin 2)), OpSubscribe ''h'' ''q'' 2 None,
      OpSubscribe ''h'' ''r'' 3 (Some (Fin 1)), OpSubscribe ''h'' ''s'' 4 (Some (Fin 2)), OpUnsubscribe ''h'' ''r'']) ''h'')
   = [''q'', ''p'', ''s'']"
  by (subst hook_bus_subscriber_order[of "Some (Fin 10)" "Some PosInf"])
    (simp_all add: new_hook_bus_def Let_def isValidTimeoutMs_def MAX_SAFE_INTEGER_def)

text \<open>\<^verbatim>\<open>unsubscribe\<close> removes exactly the plugin's subscribers on that hook,
  keeps the others in order, touches no other hook, and returns how many it removed.\<close>

theorem unsubscribe_exact:
  "fst (unsubscribe hook p b) = length [s \<leftarrow> subs_of b hook. sub_plugin s = p] \<and>
   subs_of (snd (unsubscribe hook p b)) hk =
     (if hk = hook then [s \<leftarrow> subs_of b hook. sub_plugin s \<noteq> p] else subs_of b hk)"
proof -
  have count: "length xs - length [s \<leftarrow> xs. sub_plugin s \<noteq> p] = length [s \<leftarrow> xs. sub_plugin s = p]"
    for xs :: "'a subscriber list"
    using sum_length_filter_compl[of "\<lambda>s. sub_plugin s = p" xs] by simp
  have "fst (unsubscribe hook p b) =
      length (subs_of b hook) - length [s \<leftarrow> subs_of b hook. sub_plugin s \<noteq> p]"
    by (auto simp: unsubscribe_def Let_def split: option.splits)
  then show ?thesis by (simp add: unsubscribe_subs count)
qed

text \<open>C32. A fire with a finite non-negative bound on its subscribers always completes: with a
  payload or with a veto, never hanging on a subscriber and never throwing, whatever the
  subscribers do.\<close>

theorem fire_bounded_completes:
  assumes "0 \<le> d"
  shows "(\<exists>q. fst (fire sem hook (Some (Fin d)) b w p) = Fired q) \<or>
         (\<exists>rj. fst (fire sem hook (Some (Fin d)) b w p) = Vetoed rj)"
  using assms fire_subs_bounded[of sem hook d "subs_of b hook" b w p]
    fire_subs_never_throws[of sem hook "Fin d" "subs_of b hook" b w p]
  by (cases "fst (fire_subs sem hook (Fin d) (subs_of b hook) b w p)")
    (auto simp: fire_def isValidTimeoutMs_def)

definition demo_bus :: "(nat, nat) hook_bus" where
  "demo_bus = \<lparr>services = [(''svc'', \<lparr>sv_plugin = ''p'', sv_handler = 0, sv_returns = None,
                  sv_timeout = None, sv_stall = None\<rparr>)],
     subscribers = [(''h'', [\<lparr>sub_plugin = ''p'', sub_handler = 0, sub_priority = 0\<rparr>,
                             \<lparr>sub_plugin = ''q'', sub_handler = 1, sub_priority = 0\<rparr>,
                             \<lparr>sub_plugin = ''r'', sub_handler = 2, sub_priority = 0\<rparr>])],
     default_timeout = Fin 120000, stall_warn = Fin 15000\<rparr>"

text \<open>Handler 0 never settles, handler 1 adds one, any other vetoes.\<close>

definition demo_sem :: "(nat, nat, unit, nat) sub_behaviour" where
  "demo_sem h b w p =
     (if h = 0 then (b, w, \<lparr>run_at = None, run_end = Resolved Undefined\<rparr>)
      else if h = 1 then (b, w, \<lparr>run_at = Some 1, run_end = Resolved (Payload (p + 1))\<rparr>)
      else (b, w, \<lparr>run_at = Some 2, run_end = Resolved (Veto \<lparr>rj_reason = ''no'',
              rj_source = None, rj_code = None, rj_hold = None\<rparr>)\<rparr>))"

lemmas demo_eval = demo_bus_def demo_sem_def fire_def sub_outcome_of_def bounded_outcome_def
  unbounded_outcome_def Let_def isValidTimeoutMs_def watchStall_def add_log_def attribute_veto_def
  timer_ms_def TIMEOUT_MAX_def

theorem fire_bounded_completes_witness:
  "(\<exists>q. fst (fire demo_sem ''h'' (Some (Fin 10)) demo_bus () 5) = Fired q) \<or>
   (\<exists>rj. fst (fire demo_sem ''h'' (Some (Fin 10)) demo_bus () 5) = Vetoed rj)"
  by (rule fire_bounded_completes) simp



text \<open>Isolation: subscribers that only throw or overrun their bound (and change nothing)
  leave the outcome of a fire exactly what it would be had they not been subscribed.\<close>

theorem fire_isolation:
  assumes "\<And>s. s \<in> set (subs_of b hook) \<Longrightarrow> bad s \<Longrightarrow> harmless_failure sem hook (nullish opt PosInf) s"
    and "isValidTimeoutMs (nullish opt PosInf)"
  shows "fst (fire sem hook opt b w p) =
         fst (fire_subs sem hook (nullish opt PosInf) [s \<leftarrow> subs_of b hook. \<not> bad s] b w p)"
  using fire_subs_isolation[of "subs_of b hook" bad sem hook "nullish opt PosInf" b w p] assms
  by (simp add: fire_def)

theorem fire_isolation_witness:
  "fst (fire demo_sem ''h'' (Some (Fin 10)) demo_bus () 5) =
   fst (fire_subs demo_sem ''h'' (Fin 10)
          [s \<leftarrow> subs_of demo_bus ''h''. sub_handler s \<noteq> 0] demo_bus () 5)"
  using fire_isolation[of demo_bus "''h''" "\<lambda>s. sub_handler s = 0" demo_sem "Some (Fin 10)" "()" 5]
  by (auto simp: harmless_failure_def demo_sem_def sub_outcome_of_def bounded_outcome_def Let_def
      isValidTimeoutMs_def)

text \<open>An active fire owns the list it captured: whatever the handlers do to the bus while
  they run, the handlers invoked are a prefix of the subscribers registered when the fire began,
  in that order, and all of them when the fire completes with a payload.\<close>

theorem fire_captures_list:
  assumes "isValidTimeoutMs (nullish opt PosInf)"
  shows "\<exists>n. fst (fst (snd (snd (fire (recording sem) hook opt b ([], w) p)))) =
               List.map sub_handler (take n (subs_of b hook))
           \<and> (\<forall>q. fst (fire (recording sem) hook opt b ([], w) p) = Fired q
                  \<longrightarrow> n = length (subs_of b hook))"
  using assms fire_subs_recording[of sem hook "nullish opt PosInf" "subs_of b hook" b "[]" w p]
  by (simp add: fire_def)

text \<open>A handler that subscribes another one to the hook it runs for.\<close>

definition subscribing_sem :: "(nat, nat, unit, nat) sub_behaviour" where
  "subscribing_sem h b w p =
     (case subscribe ''h'' ''late'' 9 None b of
        Inl _ \<Rightarrow> (b, w, \<lparr>run_at = Some 0, run_end = Resolved Undefined\<rparr>)
      | Inr b' \<Rightarrow> (b', w, \<lparr>run_at = Some 0, run_end = Resolved Undefined\<rparr>))"

theorem fire_captures_list_witness:
  "fst (fst (snd (snd (fire (recording subscribing_sem) ''h'' None demo_bus ([], ()) 5)))) = [0, 1, 2]"
proof -
  have "isValidTimeoutMs (nullish None PosInf)" by (simp add: isValidTimeoutMs_def)
  from fire_captures_list[OF this, of subscribing_sem "''h''" demo_bus "()" 5]
  obtain n where n: "fst (fst (snd (snd (fire (recording subscribing_sem) ''h'' None demo_bus ([], ()) 5))))
      = List.map sub_handler (take n (subs_of demo_bus ''h''))"
    "\<forall>q. fst (fire (recording subscribing_sem) ''h'' None demo_bus ([], ()) 5) = Fired q
       \<longrightarrow> n = length (subs_of demo_bus ''h'')" by auto
  have "fst (fire (recording subscribing_sem) ''h'' None demo_bus ([], ()) 5) = Fired 5"
    by (simp add: recording_def subscribing_sem_def demo_eval subscribe_def MAX_SAFE_INTEGER_def)
  with n show ?thesis by (simp add: demo_bus_def)
qed

text \<open>A service call under a finite deadline always settles; if the handler has not settled
  by the deadline the caller gets the \<^verbatim>\<open>timeout\<close> error naming the hook and its plugin,
  and otherwise what the handler settled with.\<close>

theorem call_deadline:
  assumes "js_get (services b) hook = Some s"
    and "nullish (sv_timeout s) (default_timeout b) = Fin d"
  shows "fst (call sem hook b w i) =
    (let r = snd (snd (sem (sv_handler s) b w i)) in
     if beyond (run_at r) (Fin d) then CallErr (hook_err ''timeout'' (sv_plugin s) hook)
     else finish_call hook s (run_end r))
    \<and> fst (call sem hook b w i) \<noteq> CallHangs"
proof -
  have total: "finish_call hook s e \<noteq> CallHangs" for e
    by (auto simp: finish_call_def split: settlement.splits option.splits thrown.splits)
  show ?thesis
  proof (cases "sem (sv_handler s) b w i")
    case (fields b' w' r)
    with assms total show ?thesis
      by (cases "run_at r") (auto simp: call_def withTimeout_def finish_call_def Let_def)
  qed
qed

theorem call_deadline_witness:
  "fst (call (\<lambda>h b w i. (b, w, \<lparr>run_at = None, run_end = Resolved (i + 1)\<rparr>)) ''svc'' demo_bus () 4)
     = CallErr (hook_err ''timeout'' ''p'' ''svc'')"
  by (subst call_deadline[of demo_bus "''svc''"
      "\<lparr>sv_plugin = ''p'', sv_handler = 0, sv_returns = None, sv_timeout = None, sv_stall = None\<rparr>"
      120000, THEN conjunct1])
    (simp_all add: demo_bus_def)

text \<open>A caller only ever sees a \<^verbatim>\<open>PluginError\<close>: an error is the handler's own
  plugin error passed through unchanged, or one the bus minted, and then its code says which:
  no such service, deadline passed, result refused by the declared schema, or anything else the
  handler threw.\<close>

theorem call_error_origin:
  assumes "fst (call sem hook b w i) = CallErr e"
  shows "(\<not> hasService b hook \<and> e = hook_err ''no-service'' ''core'' hook) \<or>
    (\<exists>s. js_get (services b) hook = Some s \<and>
       (run_end (snd (snd (sem (sv_handler s) b w i))) = Rejected (ThrownPlugin e) \<or>
        (\<exists>c \<in> {''timeout'', ''invalid-return'', ''unknown''}. e = hook_err c (sv_plugin s) hook)))"
proof (cases "js_get (services b) hook")
  case None
  with assms show ?thesis by (simp add: call_def hasService_def)
next
  case (Some s)
  obtain b' w' r where sem: "sem (sv_handler s) b w i = (b', w', r)" by (metis prod_cases3)
  have fin: "run_end r = Rejected (ThrownPlugin e) \<or>
      (\<exists>c \<in> {''timeout'', ''invalid-return'', ''unknown''}. e = hook_err c (sv_plugin s) hook)"
    if "finish_call hook s (run_end r) = CallErr e"
    using that by (auto simp: finish_call_def split: settlement.splits option.splits thrown.splits)
  from assms Some sem fin show ?thesis
    by (auto simp: call_def withTimeout_def Let_def finish_call_def[of _ _ "Rejected (ThrownPlugin _)"]
        split: if_splits jsnum.splits)
qed

theorem call_error_origin_witness:
  "(\<not> hasService demo_bus ''svc'' \<and>
      hook_err ''unknown'' ''p'' ''svc'' = hook_err ''no-service'' ''core'' ''svc'') \<or>
    (\<exists>s. js_get (services demo_bus) ''svc'' = Some s \<and>
       ((Rejected (ThrownOther ''boom'') :: nat settlement)
           = Rejected (ThrownPlugin (hook_err ''unknown'' ''p'' ''svc'')) \<or>
        (\<exists>c \<in> {''timeout'', ''invalid-return'', ''unknown''}.
           hook_err ''unknown'' ''p'' ''svc'' = hook_err c (sv_plugin s) ''svc'')))"
  using call_error_origin[of "\<lambda>h b w i. (b, w, \<lparr>run_at = Some 1, run_end = Rejected (ThrownOther ''boom'')\<rparr>)"
      "''svc''" demo_bus "()" "0::nat" "hook_err ''unknown'' ''p'' ''svc''"]
  by (simp add: call_def demo_bus_def withTimeout_def finish_call_def Let_def watchStall_def)

text \<open>A stall report without its matching slow report is a hang: for a watched run with a
  finite threshold, \<open>Stalled\<close> is logged exactly when the run goes past the threshold, and it has
  no \<open>Slow\<close> partner exactly when the run never settles.\<close>

theorem stall_without_slow_is_a_hang:
  "((\<exists>d. Stalled kind hook plugin d \<in> set (watchStall kind hook plugin (Fin q) tm))
      \<longleftrightarrow> beyond tm (Fin q)) \<and>
   ((\<exists>d. Stalled kind hook plugin d \<in> set (watchStall kind hook plugin (Fin q) tm)) \<and>
      (\<forall>d. Slow kind hook plugin d \<notin> set (watchStall kind hook plugin (Fin q) tm))
      \<longleftrightarrow> tm = None)"
  by (cases tm) (auto simp: watchStall_def)

text \<open>A deadline that is too long is no deadline at all but an immediate one: the bus accepts
  any finite non-negative timeout, but a timer set to more than 2147483647 ms fires after one
  millisecond, so every call of that service that takes longer fails with \<^verbatim>\<open>timeout\<close>.\<close>

theorem oversized_timeout_fires_at_once:
  assumes "TIMEOUT_MAX < d" and "js_get (services b) hook = Some s" and "sv_timeout s = Some (Fin d)"
    and "run_at (snd (snd (sem (sv_handler s) b w i))) = Some t" and "1 < t"
  shows "isValidTimeoutMs (Fin d) \<and>
    fst (call sem hook b w i) = CallErr (hook_err ''timeout'' (sv_plugin s) hook)"
proof -
  obtain b' w' r where sem: "sem (sv_handler s) b w i = (b', w', r)" by (metis prod_cases3)
  have "timer_ms d = 1" "0 \<le> d" using assms(1) by (simp_all add: timer_ms_def TIMEOUT_MAX_def)
  with assms sem show ?thesis
    by (simp add: call_def withTimeout_def finish_call_def isValidTimeoutMs_def Let_def)
qed

definition patient_service :: "(nat, nat) service" where
  "patient_service = \<lparr>sv_plugin = ''p'', sv_handler = 0, sv_returns = None,
     sv_timeout = Some (Fin 2592000000), sv_stall = None\<rparr>"

theorem oversized_timeout_fires_at_once_witness:
  "fst (call (\<lambda>h b w i. (b, w, \<lparr>run_at = Some 5, run_end = Resolved i\<rparr>)) ''svc''
     (demo_bus\<lparr>services := [(''svc'', patient_service)]\<rparr>) () 4) = CallErr (hook_err ''timeout'' ''p'' ''svc'')"
  using oversized_timeout_fires_at_once[of 2592000000 "demo_bus\<lparr>services := [(''svc'', patient_service)]\<rparr>"
      "''svc''" patient_service "\<lambda>h b w i. (b, w, \<lparr>run_at = Some 5, run_end = Resolved i\<rparr>)" "()" 4 5]
  by (simp add: TIMEOUT_MAX_def patient_service_def)

text \<open>Service hooks have one owner: a hook that was registered is known from then on, the
  other hooks are as before, it was unknown until then, and registering it again is an error
  that says so.\<close>

theorem register_once:
  assumes "registerService hook s b = Inr b'"
  shows "\<not> hasService b hook \<and> (\<forall>h. hasService b' h \<longleftrightarrow> h = hook \<or> hasService b h) \<and>
         registerService hook s' b' = Inl (plugin_err ''duplicate-service'' (sv_plugin s'))"
proof -
  have known: "\<exists>x. js_get (services b') hook = Some x"
    using bus_reg.register_new[OF assms] by (simp add: hasService_def)
  then have "registerService hook s' b' = Inl (plugin_err ''duplicate-service'' (sv_plugin s'))"
    by (auto simp: registerService_def)
  with bus_reg.register_fresh[OF assms] bus_reg.register_has[OF assms] show ?thesis by simp
qed

theorem register_once_witness:
  "\<not> hasService demo_bus ''other'' \<and>
   (\<exists>b'. registerService ''other'' \<lparr>sv_plugin = ''p'', sv_handler = 3, sv_returns = None,
                  sv_timeout = None, sv_stall = None\<rparr> demo_bus = Inr b' \<and> hasService b' ''svc'')"
proof -
  let ?s = "\<lparr>sv_plugin = ''p'', sv_handler = 3, sv_returns = None, sv_timeout = None,
              sv_stall = None\<rparr> :: (nat, nat) service"
  obtain b' where b': "registerService ''other'' ?s demo_bus = Inr b'"
    by (simp add: registerService_def demo_bus_def timeout_ok_def)
  from register_once[OF b'] have "\<not> hasService demo_bus ''other''"
    "hasService b' ''svc''" by (auto simp: hasService_def demo_bus_def)
  with b' show ?thesis by blast
qed

end
