(* ===== verification/Call_Graph.thy ===== *)
theory Call_Graph
  imports Ax_Prelude
begin

text \<open>
  The plugin call graph of \<^verbatim>\<open>packages/core/src/bootstrap.ts\<close>: building it from the
  manifests, the cycle check and the initialisation order. A graph maps a plugin name to the
  plugins whose services it calls. The recursive \<^verbatim>\<open>visit\<close> closures and the loop over a
  node's successors are one function over a list of nodes; the \<^verbatim>\<open>visiting\<close> set of the
  cycle check is always the set of its \<^verbatim>\<open>stack\<close>, so only the stack is kept.
\<close>

section \<open>Manifests and the graph\<close>

record manifest =
  mf_name :: string
  mf_version :: string
  mf_registers :: "string list"
  mf_calls :: "string list"
  mf_optionalCalls :: "(string \<times> string) list option"
  mf_subscribes :: "string list"

text \<open>\<^verbatim>\<open>PluginManifestSchema\<close>: the strings that must not be empty, and no hook both
  required and optional.\<close>

definition manifest_ok :: "manifest \<Rightarrow> bool" where
  "manifest_ok m \<longleftrightarrow>
     mf_name m \<noteq> [] \<and> mf_version m \<noteq> [] \<and>
     (case mf_optionalCalls m of None \<Rightarrow> True | Some ocs \<Rightarrow>
        \<forall>oc \<in> set ocs. fst oc \<noteq> [] \<and> snd oc \<noteq> [] \<and> fst oc \<notin> set (mf_calls m))"

type_synonym graph = "(string, string list) jsmap"

definition succs :: "graph \<Rightarrow> string \<Rightarrow> string list" where
  "succs g n = (case js_get g n of None \<Rightarrow> [] | Some xs \<Rightarrow> xs)"

fun checkDuplicatePluginNames :: "string list \<Rightarrow> manifest list \<Rightarrow> plugin_error option" where
  "checkDuplicatePluginNames seen [] = None"
| "checkDuplicatePluginNames seen (m # ms) =
     (if mf_name m \<in> set seen then Some (plugin_err ''duplicate-plugin'' (mf_name m))
      else checkDuplicatePluginNames (seen @ [mf_name m]) ms)"

fun register_hooks ::
  "string \<Rightarrow> string list \<Rightarrow> (string, string) jsmap \<Rightarrow> plugin_error + (string, string) jsmap" where
  "register_hooks name [] producers = Inr producers"
| "register_hooks name (r # rs) producers =
     (case js_get producers r of
        Some existing \<Rightarrow>
          if existing \<noteq> name then Inl (hook_err ''duplicate-service'' name r)
          else register_hooks name rs (js_set r name producers)
      | None \<Rightarrow> register_hooks name rs (js_set r name producers))"

fun checkDuplicateRegisters ::
  "(string, string) jsmap \<Rightarrow> manifest list \<Rightarrow> plugin_error + (string, string) jsmap" where
  "checkDuplicateRegisters producers [] = Inr producers"
| "checkDuplicateRegisters producers (m # ms) =
     (case register_hooks (mf_name m) (mf_registers m) producers of
        Inl e \<Rightarrow> Inl e
      | Inr producers' \<Rightarrow> checkDuplicateRegisters producers' ms)"

text \<open>The hooks a plugin calls, required first, then optional.\<close>

definition called_hooks :: "manifest \<Rightarrow> string list" where
  "called_hooks m =
     mf_calls m @ (case mf_optionalCalls m of None \<Rightarrow> [] | Some ocs \<Rightarrow> List.map fst ocs)"

definition call_edges :: "(string, string) jsmap \<Rightarrow> manifest \<Rightarrow> string list" where
  "call_edges producers m =
     [the (js_get producers c). c \<leftarrow> called_hooks m,
        js_get producers c \<noteq> None \<and> js_get producers c \<noteq> Some (mf_name m)]"

lemma set_call_edges:
  "set (call_edges pr m) = {n. n \<noteq> mf_name m \<and> (\<exists>c \<in> set (called_hooks m). js_get pr c = Some n)}"
  by (force simp: call_edges_def)

fun buildCallGraph :: "(string, string) jsmap \<Rightarrow> graph \<Rightarrow> manifest list \<Rightarrow> graph" where
  "buildCallGraph producers g [] = g"
| "buildCallGraph producers g (m # ms) =
     buildCallGraph producers (js_set (mf_name m) (call_edges producers m) g) ms"

section \<open>The cycle check\<close>

text \<open>An error is the node and the cycle the message prints.\<close>

function visit_all ::
  "graph \<Rightarrow> string list \<Rightarrow> string list \<Rightarrow> string list \<Rightarrow> (string \<times> string list) + string list" where
  "visit_all g stack dn [] = Inr dn"
| "visit_all g stack dn (node # nodes) =
     (if node \<in> set dn then visit_all g stack dn nodes
      else if node \<in> set stack then
        Inl (node, drop (the (index_of node stack)) stack @ [node])
      else case visit_all g (stack @ [node]) dn (succs g node) of
             Inl e \<Rightarrow> Inl e
           | Inr dn' \<Rightarrow> visit_all g stack (dn' @ [node]) nodes)"
  by pat_completeness auto

text \<open>Both searches terminate because a node is expanded only while it is unvisited: the unvisited
  keys shrink, and a node that is no key has no successors.\<close>

lemma expand_less:
  assumes "n \<notin> set v"
  shows "((g, v @ [n], succs g n), (g, v, n # ns)) \<in>
    measures [\<lambda>(g, v, ns). card (set (js_keys g) - set v), \<lambda>(g, v, ns). length ns]"
proof (cases "js_get g n")
  case None
  then have "n \<notin> set (js_keys g)" by (metis jm.keys_get)
  then have "set (js_keys g) - set (v @ [n]) = set (js_keys g) - set v" by auto
  with None show ?thesis by (simp only: in_measures prod.case succs_def option.case list.size) simp
next
  case (Some xs)
  then have "n \<in> set (js_keys g)" by (metis jm.keys_get option.distinct(1))
  with assms have "set (js_keys g) - set (v @ [n]) \<subset> set (js_keys g) - set v" by auto
  then have "card (set (js_keys g) - set (v @ [n])) < card (set (js_keys g) - set v)"
    by (intro psubset_card_mono) auto
  then show ?thesis by (simp only: in_measures prod.case) simp
qed

lemma skip_less:
  assumes "set v \<subseteq> set v'"
  shows "((g, v', ns), (g, v, n # ns)) \<in>
    measures [\<lambda>(g, v, ns). card (set (js_keys g) - set v), \<lambda>(g, v, ns). length ns]"
proof -
  have "card (set (js_keys g) - set v') \<le> card (set (js_keys g) - set v)"
    using assms by (intro card_mono) auto
  then show ?thesis by (simp only: in_measures prod.case) auto
qed

abbreviation dfs_rel :: "((graph \<times> string list \<times> string list) \<times> graph \<times> string list \<times> string list) set" where
  "dfs_rel \<equiv> measures [\<lambda>(g, v, ns). card (set (js_keys g) - set v), \<lambda>(g, v, ns). length ns]"

termination visit_all
proof (relation "inv_image dfs_rel (\<lambda>(g, st, dn, ns). (g, st, ns))", goal_cases)
  case 1
  show ?case by simp
next
  case (2 g st dn n ns)
  show ?case unfolding in_inv_image prod.case by (rule skip_less) simp
next
  case (3 g st dn n ns)
  then show ?case unfolding in_inv_image prod.case by (intro expand_less)
next
  case (4 g st dn n ns dn')
  show ?case unfolding in_inv_image prod.case by (rule skip_less) simp
qed

definition assertAcyclic :: "graph \<Rightarrow> (string \<times> string list) + string list" where
  "assertAcyclic g = visit_all g [] [] (js_keys g)"

section \<open>The initialisation order\<close>

function topo_all ::
  "graph \<Rightarrow> string list \<Rightarrow> string list \<Rightarrow> string list \<Rightarrow> string list \<times> string list" where
  "topo_all g visited order [] = (visited, order)"
| "topo_all g visited order (name # names) =
     (if name \<in> set visited then topo_all g visited order names
      else let (visited', order') = topo_all g (visited @ [name]) order (succs g name)
           in topo_all g visited' (order' @ [name]) names)"
  by pat_completeness auto

lemma topo_all_visited:
  "topo_all_dom (g, v, ord, ns) \<Longrightarrow> set v \<subseteq> set (fst (topo_all g v ord ns))"
  by (induction g v ord ns rule: topo_all.pinduct) (fastforce simp: topo_all.psimps split: prod.splits)+

termination topo_all
proof (relation "inv_image dfs_rel (\<lambda>(g, v, ord, ns). (g, v, ns))", goal_cases)
  case 1
  show ?case by simp
next
  case (2 g v ord n ns)
  show ?case unfolding in_inv_image prod.case by (rule skip_less) simp
next
  case (3 g v ord n ns)
  then show ?case unfolding in_inv_image prod.case by (intro expand_less)
next
  case (4 g v ord n ns x v' ord')
  then have "set v \<subseteq> set v'"
    using topo_all_visited[of g "v @ [n]" ord "succs g n"] by (metis fst_conv le_supE set_append)
  then show ?case unfolding in_inv_image prod.case by (rule skip_less)
qed

definition topologicalOrder :: "manifest list \<Rightarrow> graph \<Rightarrow> string list" where
  "topologicalOrder ms g =
     [n \<leftarrow> snd (topo_all g [] [] (List.map mf_name ms)). n \<in> mf_name ` set ms]"

section \<open>Correctness of the cycle check\<close>

definition edges :: "graph \<Rightarrow> (string \<times> string) set" where
  "edges g = {(a, b). b \<in> set (succs g a)}"

text \<open>Every element's successors come before it.\<close>

fun deps_first :: "graph \<Rightarrow> string list \<Rightarrow> bool" where
  "deps_first g [] = True"
| "deps_first g (x # xs) = (set (succs g x) \<subseteq> set xs \<and> x \<notin> set xs \<and> deps_first g xs)"

text \<open>The list is built by appending, so the order is read from its end.\<close>

definition topo_ordered :: "graph \<Rightarrow> string list \<Rightarrow> bool" where
  "topo_ordered g xs \<longleftrightarrow> deps_first g (rev xs)"

lemma topo_ordered_Nil [simp]: "topo_ordered g []"
  by (simp add: topo_ordered_def)

lemma topo_ordered_snoc [simp]:
  "topo_ordered g (xs @ [x]) \<longleftrightarrow> set (succs g x) \<subseteq> set xs \<and> x \<notin> set xs \<and> topo_ordered g xs"
  by (simp add: topo_ordered_def)

lemma topo_ordered_distinct: "topo_ordered g xs \<Longrightarrow> distinct xs"
  by (induction xs rule: rev_induct) auto

lemma topo_ordered_before:
  "topo_ordered g (xs @ x # ys) \<Longrightarrow> set (succs g x) \<subseteq> set xs"
proof (induction ys rule: rev_induct)
  case Nil
  then show ?case by simp
next
  case (snoc y ys)
  then show ?case using topo_ordered_snoc[of g "xs @ x # ys" y] by simp
qed

lemma topo_ordered_closed: "topo_ordered g xs \<Longrightarrow> x \<in> set xs \<Longrightarrow> (x, y) \<in> (edges g)\<^sup>* \<Longrightarrow> y \<in> set xs"
proof (rotate_tac 2, induction rule: rtrancl_induct)
  case base
  then show ?case by simp
next
  case (step y z)
  then have "y \<in> set xs" by blast
  then obtain us vs where "xs = us @ y # vs" by (meson split_list)
  with step topo_ordered_before show ?case by (fastforce simp: edges_def)
qed

lemma topo_ordered_no_cycle: "topo_ordered g xs \<Longrightarrow> x \<in> set xs \<Longrightarrow> (x, x) \<notin> (edges g)\<^sup>+"
proof (induction xs rule: rev_induct)
  case Nil
  then show ?case by simp
next
  case (snoc z xs)
  show ?case
  proof
    assume "(x, x) \<in> (edges g)\<^sup>+"
    show False
    proof (cases "x \<in> set xs")
      case True
      with snoc \<open>(x, x) \<in> (edges g)\<^sup>+\<close> show False by simp
    next
      case False
      with snoc.prems have "x = z" by simp
      from \<open>(x, x) \<in> (edges g)\<^sup>+\<close> obtain y where "(x, y) \<in> edges g" "(y, x) \<in> (edges g)\<^sup>*"
        by (meson tranclD)
      moreover from this(1) \<open>x = z\<close> snoc.prems(1) have "y \<in> set xs" by (auto simp: edges_def)
      ultimately have "x \<in> set xs"
        using topo_ordered_closed snoc.prems(1) by (metis topo_ordered_snoc)
      with False show False ..
    qed
  qed
qed

lemma visit_all_ok:
  assumes "visit_all g st dn ns = Inr dn'" and "topo_ordered g dn" and "set st \<inter> set dn = {}"
  shows "topo_ordered g dn' \<and> set ns \<subseteq> set dn' \<and> prefix dn dn' \<and> set st \<inter> set dn' = {}"
  using assms
proof (induction g st dn ns arbitrary: dn' rule: visit_all.induct)
  case (1 g st dn)
  then show ?case by simp
next
  case (2 g st dn n ns)
  consider "n \<in> set dn" | "n \<notin> set dn" "n \<notin> set st" using "2.prems"(1) by fastforce
  then show ?case
  proof cases
    case 1
    with "2.IH"(1)[of dn'] "2.prems" show ?thesis
      by (auto dest: set_mono_prefix)
  next
    case 2
    with "2.prems"(1) obtain mid where mid: "visit_all g (st @ [n]) dn (succs g n) = Inr mid"
      "visit_all g st (mid @ [n]) ns = Inr dn'"
      by (auto split: sum.splits)
    with 2 "2.IH"(2)[of mid] "2.prems" have m: "topo_ordered g mid" "set (succs g n) \<subseteq> set mid"
      "prefix dn mid" "set (st @ [n]) \<inter> set mid = {}" by auto
    with 2 mid "2.IH"(3)[of mid dn'] "2.prems"(3) have r: "topo_ordered g dn'" "set ns \<subseteq> set dn'"
      "prefix (mid @ [n]) dn'" "set st \<inter> set dn' = {}" by auto
    from r(3) have "n \<in> set dn'" using set_mono_prefix by fastforce
    moreover from r(3) m(3) have "prefix dn dn'" by (meson append_prefixD prefix_order.trans)
    ultimately show ?thesis using r by simp
  qed
qed

text \<open>A path of the graph, as a list of nodes.\<close>

fun path :: "graph \<Rightarrow> string list \<Rightarrow> bool" where
  "path g (a # b # xs) = (b \<in> set (succs g a) \<and> path g (b # xs))"
| "path g _ = True"

lemma path_snoc: "path g (xs @ [a, b]) \<longleftrightarrow> path g (xs @ [a]) \<and> b \<in> set (succs g a)"
proof (induction xs)
  case (Cons x xs)
  then show ?case by (cases xs) auto
qed simp

lemma path_drop: "path g xs \<Longrightarrow> path g (drop n xs)"
proof (induction n arbitrary: xs)
  case (Suc n)
  show ?case
  proof (cases xs)
    case (Cons x ys)
    then have "path g ys" using Suc.prems by (cases ys) auto
    then show ?thesis using Cons Suc.IH by simp
  qed simp
qed simp

lemma path_trancl: "path g (xs @ [a]) \<Longrightarrow> xs \<noteq> [] \<Longrightarrow> (hd xs, a) \<in> (edges g)\<^sup>+"
proof (induction xs)
  case (Cons x xs)
  then show ?case
  proof (cases xs)
    case Nil
    with Cons.prems show ?thesis by (auto simp: edges_def)
  next
    case (Cons y ys)
    with Cons.IH Cons.prems have "(y, a) \<in> (edges g)\<^sup>+" "(x, y) \<in> edges g"
      by (auto simp: edges_def)
    with Cons show ?thesis by (simp add: trancl_into_trancl2)
  qed
qed simp

text \<open>A closed walk: at least one edge, back to where it began.\<close>

definition is_cycle :: "graph \<Rightarrow> string list \<Rightarrow> bool" where
  "is_cycle g c \<longleftrightarrow> 2 \<le> length c \<and> path g c \<and> hd c = last c"

lemma is_cycle_trancl: "is_cycle g c \<Longrightarrow> (last c, last c) \<in> (edges g)\<^sup>+"
proof -
  assume c: "is_cycle g c"
  then have "c \<noteq> []" "butlast c \<noteq> []" by (cases c; auto simp: is_cycle_def)+
  then obtain xs where xs: "c = xs @ [last c]" "xs \<noteq> []" by (metis append_butlast_last_id)
  with c have "hd xs = last c" "path g (xs @ [last c])"
    by (metis hd_append2 is_cycle_def, metis is_cycle_def)
  with path_trancl xs(2) show ?thesis by metis
qed

lemma visit_all_cycle:
  assumes "visit_all g st dn ns = Inl (n, c)" and "path g st"
    and "st \<noteq> [] \<Longrightarrow> set ns \<subseteq> set (succs g (last st))"
  shows "is_cycle g c \<and> last c = n"
  using assms
proof (induction g st dn ns rule: visit_all.induct)
  case (1 g st dn)
  then show ?case by simp
next
  case (2 g st dn x ns)
  consider (skip) "x \<in> set dn" | (cyc) "x \<notin> set dn" "x \<in> set st" | (go) "x \<notin> set dn" "x \<notin> set st"
    by blast
  then show ?case
  proof cases
    case skip
    with "2.IH"(1) "2.prems" show ?thesis by simp
  next
    case cyc
    then obtain i where i: "index_of x st = Some i" by (metis index_of_None not_Some_eq)
    with "2.prems"(1) cyc have nc: "n = x" "c = drop i st @ [x]" by auto
    from i have lt: "i < length st" "st ! i = x" using index_of_Some by metis+
    from cyc have "st \<noteq> []" by auto
    then obtain us where us: "st = us @ [last st]" by (metis append_butlast_last_id)
    with \<open>st \<noteq> []\<close> "2.prems"(2,3) have "path g (us @ [last st, x])"
      by (subst path_snoc) simp
    then have "path g (st @ [x])" using us by (metis append.assoc append_Cons append_Nil)
    then have "path g (drop i (st @ [x]))" by (rule path_drop)
    with lt nc show ?thesis by (auto simp: is_cycle_def hd_append hd_drop_conv_nth)
  next
    case go
    show ?thesis
    proof (cases "visit_all g (st @ [x]) dn (succs g x)")
      case (Inl e)
      have "path g (st @ [x])"
      proof (cases "st = []")
        case False
        then obtain us where us: "st = us @ [last st]" by (metis append_butlast_last_id)
        with False "2.prems"(2,3) have "path g (us @ [last st, x])" by (subst path_snoc) simp
        then show ?thesis using us by (metis append.assoc append_Cons append_Nil)
      qed simp
      with Inl go "2.IH"(2) "2.prems"(1) show ?thesis by simp
    next
      case (Inr mid)
      with go "2.IH"(3) "2.prems" show ?thesis by simp
    qed
  qed
qed

section \<open>Correctness of the initialisation order\<close>

text \<open>On a graph that passed the check, the initialisation order is the order in which the
  check finished its nodes.\<close>

lemma topo_all_visit_all:
  assumes "visit_all g st dn ns = Inr dn'" and "set v = set st \<union> set dn"
  shows "\<exists>v'. topo_all g v dn ns = (v', dn') \<and> set v' = set st \<union> set dn'"
  using assms
proof (induction g st dn ns arbitrary: v dn' rule: visit_all.induct)
  case (1 g st dn)
  then show ?case by simp
next
  case (2 g st dn n ns)
  consider "n \<in> set dn" | "n \<notin> set dn" "n \<notin> set st" using "2.prems"(1) by fastforce
  then show ?case
  proof cases
    case 1
    with "2.IH"(1) "2.prems" show ?thesis by simp
  next
    case 2
    with "2.prems"(1) obtain mid where mid: "visit_all g (st @ [n]) dn (succs g n) = Inr mid"
      "visit_all g st (mid @ [n]) ns = Inr dn'"
      by (auto split: sum.splits)
    from 2 mid(1) "2.IH"(2)[of mid "v @ [n]"] "2.prems"(2) obtain v1 where
      v1: "topo_all g (v @ [n]) dn (succs g n) = (v1, mid)" "set v1 = set (st @ [n]) \<union> set mid"
      by auto
    from 2 mid v1(2) "2.IH"(3)[of mid dn' v1] obtain v2 where
      "topo_all g v1 (mid @ [n]) ns = (v2, dn')" "set v2 = set st \<union> set dn'" by auto
    with 2 v1(1) "2.prems"(2) show ?thesis by simp
  qed
qed

section \<open>The graph of a plugin list\<close>

text \<open>\<^verbatim>\<open>validateDependencyGraph\<close>. A cycle is reported as the error of the plugin that
  closes it.\<close>

definition validateDependencyGraph :: "manifest list \<Rightarrow> plugin_error + graph" where
  "validateDependencyGraph ms =
     (case checkDuplicateRegisters [] ms of
        Inl e \<Rightarrow> Inl e
      | Inr producers \<Rightarrow>
          let g = buildCallGraph producers [] ms in
          (case assertAcyclic g of
             Inl (n, c) \<Rightarrow> Inl (plugin_err ''cycle'' n)
           | Inr _ \<Rightarrow> Inr g))"

lemma checkDuplicatePluginNames_None:
  "checkDuplicatePluginNames seen ms = None \<longleftrightarrow>
     distinct (List.map mf_name ms) \<and> set seen \<inter> mf_name ` set ms = {}"
  by (induction ms arbitrary: seen) auto

lemma register_hooks_ok:
  "register_hooks name rs pr = Inr pr' \<Longrightarrow>
     js_get pr' c = (if c \<in> set rs then Some name else js_get pr c) \<and>
     (\<forall>r \<in> set rs. js_get pr r = None \<or> js_get pr r = Some name)"
proof (induction rs arbitrary: pr)
  case Nil
  then show ?case by simp
next
  case (Cons r rs)
  then have "register_hooks name rs (js_set r name pr) = Inr pr'" "js_get pr r = None \<or> js_get pr r = Some name"
    by (auto split: option.splits if_splits)
  with Cons.IH[of "js_set r name pr"] show ?case by (auto split: if_splits)
qed

text \<open>Every registered hook keeps the plugin that registered it as its producer.\<close>

lemma checkDuplicateRegisters_mono:
  "checkDuplicateRegisters pr ms = Inr pr' \<Longrightarrow> js_get pr c = Some n \<Longrightarrow> js_get pr' c = Some n"
proof (induction ms arbitrary: pr)
  case Nil
  then show ?case by simp
next
  case (Cons m ms)
  then obtain pr1 where pr1: "register_hooks (mf_name m) (mf_registers m) pr = Inr pr1"
    "checkDuplicateRegisters pr1 ms = Inr pr'" by (auto split: sum.splits)
  have "js_get pr1 c = Some n"
    using register_hooks_ok[OF pr1(1), of c] Cons.prems(2) by (auto split: if_splits)
  with pr1(2) Cons.IH show ?case by blast
qed

lemma checkDuplicateRegisters_producer:
  "checkDuplicateRegisters pr ms = Inr pr' \<Longrightarrow> m \<in> set ms \<Longrightarrow> c \<in> set (mf_registers m) \<Longrightarrow>
     js_get pr' c = Some (mf_name m)"
proof (induction ms arbitrary: pr)
  case Nil
  then show ?case by simp
next
  case (Cons m' ms)
  then obtain pr1 where pr1: "register_hooks (mf_name m') (mf_registers m') pr = Inr pr1"
    "checkDuplicateRegisters pr1 ms = Inr pr'" by (auto split: sum.splits)
  show ?case
  proof (cases "m = m'")
    case True
    then have "js_get pr1 c = Some (mf_name m)"
      using register_hooks_ok[OF pr1(1), of c] Cons.prems(3) by simp
    with pr1(2) show ?thesis by (rule checkDuplicateRegisters_mono)
  next
    case False
    with Cons pr1(2) show ?thesis by simp
  qed
qed

lemma checkDuplicateRegisters_names:
  "checkDuplicateRegisters pr ms = Inr pr' \<Longrightarrow> js_get pr' c = Some n \<Longrightarrow>
     n \<in> mf_name ` set ms \<or> js_get pr c = Some n"
proof (induction ms arbitrary: pr)
  case Nil
  then show ?case by simp
next
  case (Cons m ms)
  then obtain pr1 where pr1: "register_hooks (mf_name m) (mf_registers m) pr = Inr pr1"
    "checkDuplicateRegisters pr1 ms = Inr pr'" by (auto split: sum.splits)
  then have "n \<in> mf_name ` set ms \<or> js_get pr1 c = Some n" using Cons by blast
  then show ?case using register_hooks_ok[OF pr1(1), of c] by (auto split: if_splits)
qed

lemma buildCallGraph_values:
  "js_get (buildCallGraph pr g ms) n = Some xs \<Longrightarrow>
     (\<exists>m \<in> set ms. xs = call_edges pr m) \<or> js_get g n = Some xs"
proof (induction ms arbitrary: g)
  case Nil
  then show ?case by simp
next
  case (Cons m ms)
  from Cons.prems have "(\<exists>m \<in> set ms. xs = call_edges pr m) \<or>
      js_get (js_set (mf_name m) (call_edges pr m) g) n = Some xs"
    by (intro Cons.IH) (simp only: buildCallGraph.simps)
  then show ?case by (auto split: if_splits)
qed

lemma call_edges_producer: "n \<in> set (call_edges pr m) \<Longrightarrow> \<exists>c. js_get pr c = Some n"
  by (auto simp: set_call_edges)

lemma buildCallGraph_keys:
  "distinct (List.map mf_name ms) \<Longrightarrow> set (js_keys g) \<inter> mf_name ` set ms = {} \<Longrightarrow>
     js_keys (buildCallGraph pr g ms) = js_keys g @ List.map mf_name ms"
proof (induction ms arbitrary: g)
  case Nil
  then show ?case by simp
next
  case (Cons m ms)
  then have "js_get g (mf_name m) = None" by (auto simp: map_of_eq_None_iff)
  then have k: "js_keys (js_set (mf_name m) (call_edges pr m) g) = js_keys g @ [mf_name m]"
    by (simp add: js_keys_set)
  have "js_keys (buildCallGraph pr (js_set (mf_name m) (call_edges pr m) g) ms) =
      js_keys (js_set (mf_name m) (call_edges pr m) g) @ List.map mf_name ms"
    by (rule Cons.IH) (use Cons.prems k in auto)
  with k show ?case by simp
qed

lemma buildCallGraph_get:
  "distinct (List.map mf_name ms) \<Longrightarrow> m \<in> set ms \<Longrightarrow>
     js_get (buildCallGraph pr g ms) (mf_name m) = Some (call_edges pr m)"
proof -
  have keep: "n \<notin> mf_name ` set ms \<Longrightarrow> js_get (buildCallGraph pr g ms) n = js_get g n" for n g ms
    by (induction ms arbitrary: g) auto
  show "distinct (List.map mf_name ms) \<Longrightarrow> m \<in> set ms \<Longrightarrow>
     js_get (buildCallGraph pr g ms) (mf_name m) = Some (call_edges pr m)"
    by (induction ms arbitrary: g) (auto simp: keep)
qed

lemma topologicalOrder_checked:
  assumes "assertAcyclic g = Inr dn" and "js_keys g = List.map mf_name ms"
    and "\<And>n. n \<in> set dn \<Longrightarrow> n \<in> mf_name ` set ms"
  shows "topologicalOrder ms g = dn"
proof -
  obtain v' where "topo_all g [] [] (js_keys g) = (v', dn)"
    using topo_all_visit_all[of g "[]" "[]" "js_keys g" dn "[]"] assms(1) by (auto simp: assertAcyclic_def)
  with assms(2,3) show ?thesis by (simp add: topologicalOrder_def filter_id_conv)
qed

lemma visit_all_within:
  "visit_all g st dn ns = Inr dn' \<Longrightarrow> set dn \<subseteq> K \<Longrightarrow> set ns \<subseteq> K \<Longrightarrow>
     (\<And>n. n \<in> K \<Longrightarrow> set (succs g n) \<subseteq> K) \<Longrightarrow> set dn' \<subseteq> K"
proof (induction g st dn ns arbitrary: dn' rule: visit_all.induct)
  case (1 g st dn)
  then show ?case by simp
next
  case (2 g st dn n ns)
  consider "n \<in> set dn" | "n \<notin> set dn" "n \<notin> set st" using "2.prems"(1) by fastforce
  then show ?case
  proof cases
    case 1
    with "2.IH"(1) "2.prems" show ?thesis by simp
  next
    case 2
    with "2.prems"(1) obtain mid where mid: "visit_all g (st @ [n]) dn (succs g n) = Inr mid"
      "visit_all g st (mid @ [n]) ns = Inr dn'" by (auto split: sum.splits)
    have "set mid \<subseteq> K" using 2 mid(1) "2.IH"(2) "2.prems" by simp
    with 2 mid "2.IH"(3) "2.prems" show ?thesis by simp
  qed
qed

section \<open>The properties of the graph\<close>

text \<open>C34. The cycle check is exact: when it accepts, the call graph has no cycle, and when it
  refuses, the cycle its message prints is one, a closed walk along call edges that ends at the
  plugin the error names.\<close>

theorem assertAcyclic_exact:
  "case assertAcyclic g of
     Inr dn \<Rightarrow> (\<forall>x. (x, x) \<notin> (edges g)\<^sup>+)
   | Inl (n, c) \<Rightarrow> is_cycle g c \<and> last c = n \<and> (n, n) \<in> (edges g)\<^sup>+"
proof (cases "assertAcyclic g")
  case (Inl e)
  obtain n c where e: "e = (n, c)" by (cases e)
  with Inl have "visit_all g [] [] (js_keys g) = Inl (n, c)" by (simp add: assertAcyclic_def)
  from visit_all_cycle[OF this] have "is_cycle g c \<and> last c = n" by simp
  with is_cycle_trancl[of g c] Inl e show ?thesis by auto
next
  case (Inr dn)
  have ok: "topo_ordered g dn" "set (js_keys g) \<subseteq> set dn"
    using visit_all_ok[of g "[]" "[]" "js_keys g" dn] Inr by (auto simp: assertAcyclic_def)
  have "(x, x) \<notin> (edges g)\<^sup>+" for x
  proof (cases "x \<in> set (js_keys g)")
    case True
    with ok show ?thesis using topo_ordered_no_cycle by blast
  next
    case False
    then have "js_get g x = None" by (metis jm.keys_get)
    then have "(x, y) \<notin> edges g" for y by (simp add: edges_def succs_def)
    then show ?thesis by (meson tranclD)
  qed
  with Inr show ?thesis by simp
qed

lemma topologicalOrder_sound:
  assumes "validateDependencyGraph ms = Inr g" and "checkDuplicatePluginNames [] ms = None"
  shows "distinct (topologicalOrder ms g)
    \<and> set (topologicalOrder ms g) = mf_name ` set ms
    \<and> (\<forall>m \<in> set ms. \<forall>m' \<in> set ms. \<forall>c \<in> set (called_hooks m).
         c \<in> set (mf_registers m') \<and> m' \<noteq> m \<longrightarrow>
         (\<exists>us vs. topologicalOrder ms g = us @ mf_name m # vs \<and> mf_name m' \<in> set us))"
proof -
  from assms(2) have dist: "distinct (List.map mf_name ms)"
    by (simp add: checkDuplicatePluginNames_None)
  from assms(1) obtain pr dn where pr: "checkDuplicateRegisters [] ms = Inr pr"
    and g: "g = buildCallGraph pr [] ms" and dn: "assertAcyclic g = Inr dn"
    by (auto simp: validateDependencyGraph_def Let_def split: sum.splits)
  have keys: "js_keys g = List.map mf_name ms" using buildCallGraph_keys[OF dist, of "[]" pr] g by simp
  have ok: "topo_ordered g dn" "set (js_keys g) \<subseteq> set dn"
    using visit_all_ok[of g "[]" "[]" "js_keys g" dn] dn by (auto simp: assertAcyclic_def)
  have edge: "mf_name m' \<in> set (succs g (mf_name m))"
    if "m \<in> set ms" "m' \<in> set ms" "m' \<noteq> m" "c \<in> set (mf_registers m')"
      "c \<in> set (called_hooks m)" for m m' c
  proof -
    have "js_get pr c = Some (mf_name m')" using checkDuplicateRegisters_producer pr that by blast
    moreover have "mf_name m' \<noteq> mf_name m" using dist that by (auto simp: distinct_map dest: inj_onD)
    ultimately have "mf_name m' \<in> set (call_edges pr m)"
      using that(5) by (auto simp: set_call_edges)
    with buildCallGraph_get[OF dist that(1), of pr "[]"] g show ?thesis by (simp add: succs_def)
  qed
  have producers: "n \<in> mf_name ` set ms" if "n \<in> set (succs g x)" for n x
  proof -
    from that obtain xs where "js_get g x = Some xs" "n \<in> set xs"
      by (cases "js_get g x") (auto simp: succs_def)
    with g buildCallGraph_values[of pr "[]" ms x xs] call_edges_producer[of n pr] obtain c
      where "js_get pr c = Some n" by auto
    with checkDuplicateRegisters_names[OF pr] show ?thesis by auto
  qed
  have within: "set dn \<subseteq> mf_name ` set ms"
    using visit_all_within[of g "[]" "[]" "js_keys g" dn "mf_name ` set ms"] dn keys producers
    by (auto simp: assertAcyclic_def)
  have order: "topologicalOrder ms g = dn"
    using topologicalOrder_checked[OF dn keys] within by auto
  have "\<exists>us vs. dn = us @ mf_name m # vs \<and> mf_name m' \<in> set us"
    if "m \<in> set ms" "mf_name m' \<in> set (succs g (mf_name m))" for m m'
  proof -
    have "mf_name m \<in> set dn" using ok(2) keys that(1) by auto
    then obtain us vs where "dn = us @ mf_name m # vs" by (meson split_list)
    with topo_ordered_before ok(1) that(2) show ?thesis by blast
  qed
  with edge have before: "\<exists>us vs. dn = us @ mf_name m # vs \<and> mf_name m' \<in> set us"
    if "m \<in> set ms" "m' \<in> set ms" "m' \<noteq> m" "c \<in> set (mf_registers m')"
      "c \<in> set (called_hooks m)" for m m' c
    using that by blast
  have "set dn = mf_name ` set ms" using within ok(2) keys by auto
  with topo_ordered_distinct[OF ok(1)] show ?thesis
    unfolding order using before by (intro conjI ballI impI) (simp_all only:, blast)
qed

text \<open>The initialisation order of a validated plugin list runs every plugin exactly once,
  and a plugin comes after every other plugin that registers a hook it calls, required or
  optional.\<close>

theorem initialisation_order:
  assumes "validateDependencyGraph ms = Inr g" and "checkDuplicatePluginNames [] ms = None"
  shows "distinct (topologicalOrder ms g)
    \<and> set (topologicalOrder ms g) = mf_name ` set ms
    \<and> (\<forall>m \<in> set ms. \<forall>m' \<in> set ms. \<forall>c \<in> set (called_hooks m).
         c \<in> set (mf_registers m') \<and> m' \<noteq> m \<longrightarrow>
         (\<exists>us vs. topologicalOrder ms g = us @ mf_name m # vs \<and> mf_name m' \<in> set us))"
  using assms by (rule topologicalOrder_sound)

definition demo_manifests :: "manifest list" where
  "demo_manifests =
     [\<lparr>mf_name = ''a'', mf_version = ''1'', mf_registers = [''x''], mf_calls = [''y''],
        mf_optionalCalls = None, mf_subscribes = []\<rparr>,
      \<lparr>mf_name = ''b'', mf_version = ''1'', mf_registers = [''y''], mf_calls = [],
        mf_optionalCalls = Some [(''z'', ''none'')], mf_subscribes = []\<rparr>]"

lemma demo_manifests_valid:
  "validateDependencyGraph demo_manifests = Inr [(''a'', [''b'']), (''b'', [])]"
  by (simp add: validateDependencyGraph_def demo_manifests_def call_edges_def called_hooks_def assertAcyclic_def
      succs_def Let_def)

theorem initialisation_order_witness:
  "\<exists>us vs. topologicalOrder demo_manifests [(''a'', [''b'']), (''b'', [])] = us @ ''a'' # vs
     \<and> ''b'' \<in> set us"
proof -
  have "checkDuplicatePluginNames [] demo_manifests = None" by (simp add: demo_manifests_def)
  from initialisation_order[OF demo_manifests_valid this] show ?thesis
    by (auto simp: demo_manifests_def called_hooks_def)
qed

end
