(* ===== verification/Bootstrap.thy ===== *)
theory Bootstrap
  imports Hook_Bus Call_Graph
begin

text \<open>
  The boot and shutdown sequences of \<^verbatim>\<open>packages/core/src/bootstrap.ts\<close>. A plugin's
  methods are state transformers over a state \<open>'s\<close> that includes the bus; \<open>has\<close> reads from the
  state which service hooks have a handler (\<^verbatim>\<open>bus.hasService\<close>). A method's promise settles
  at some instant or never. The kernel's own steps are recorded as a trace: the methods it calls, the
  plugins it adds to \<^verbatim>\<open>initialized\<close> and \<^verbatim>\<open>admitted\<close>, and the failures it
  reports. The shutdown timeout is taken as non-negative.
\<close>

section \<open>Plugins and the trace\<close>

type_synonym 's plugin_method = "'s \<Rightarrow> 's \<times> unit run"

record 's plugin =
  pl_manifest :: manifest
  pl_init :: "'s plugin_method"
  pl_startAdmission :: "'s plugin_method option"
  pl_stopAdmission :: "'s plugin_method option"
  pl_shutdown :: "'s plugin_method option"
  pl_joined :: bool

abbreviation pl_name :: "'s plugin \<Rightarrow> string" where
  "pl_name p \<equiv> mf_name (pl_manifest p)"

datatype boot_event =
    CallInit string | PushInitialized string
  | CallStart string | PushAdmitted string
  | CallStop string | CallShutdown string | ReportError string

definition is_rejected :: "unit run \<Rightarrow> bool" where
  "is_rejected r = (case run_end r of Rejected _ \<Rightarrow> True | Resolved _ \<Rightarrow> False)"

definition init_error :: "string \<Rightarrow> thrown \<Rightarrow> plugin_error" where
  "init_error name e =
     (case e of ThrownPlugin err \<Rightarrow> err | _ \<Rightarrow> plugin_err ''init-failed'' name)"

section \<open>Shutdown loops\<close>

text \<open>
  Both loops walk the plugins in reverse; the functions take the reversed list. The flag says
  whether the loop came to its end (a wait that never settles stops it).
\<close>

fun stop_loop :: "jsnum \<Rightarrow> 's plugin list \<Rightarrow> 's \<Rightarrow> 's \<times> boot_event list \<times> bool" where
  "stop_loop ms [] s = (s, [], True)"
| "stop_loop ms (p # ps) s =
     (case pl_stopAdmission p of
        None \<Rightarrow> stop_loop ms ps s
      | Some f \<Rightarrow>
          let (s', r) = f s; r' = withTimeout r ms (ThrownOther ''stopAdmission exceeded'') in
          if run_at r' = None then (s', [CallStop (pl_name p)], False)
          else let (s2, tr, ok) = stop_loop ms ps s' in
               (s2, CallStop (pl_name p) # (if is_rejected r' then [ReportError (pl_name p)] else []) @ tr, ok))"

fun shutdown_loop :: "jsnum \<Rightarrow> 's plugin list \<Rightarrow> 's \<Rightarrow> 's \<times> boot_event list \<times> bool" where
  "shutdown_loop ms [] s = (s, [], True)"
| "shutdown_loop ms (p # ps) s =
     (case pl_shutdown p of
        None \<Rightarrow> shutdown_loop ms ps s
      | Some f \<Rightarrow>
          let (s', r) = f s; r' = withTimeout r ms (ThrownOther ''shutdown exceeded'');
              rep = (if is_rejected r' then [ReportError (pl_name p)] else []) in
          if run_at r' = None then (s', [CallShutdown (pl_name p)], False)
          else if pl_joined p \<and> run_at r = None then (s', CallShutdown (pl_name p) # rep, False)
          else let (s2, tr, ok) = shutdown_loop ms ps s' in
               (s2, CallShutdown (pl_name p) # rep @ tr, ok))"

abbreviation runStopAdmissionLoop :: "jsnum \<Rightarrow> 's plugin list \<Rightarrow> 's \<Rightarrow> 's \<times> boot_event list \<times> bool" where
  "runStopAdmissionLoop ms ps s \<equiv> stop_loop ms (rev ps) s"

abbreviation runShutdownLoop :: "jsnum \<Rightarrow> 's plugin list \<Rightarrow> 's \<Rightarrow> 's \<times> boot_event list \<times> bool" where
  "runShutdownLoop ms ps s \<equiv> shutdown_loop ms (rev ps) s"

section \<open>Boot\<close>

text \<open>How a boot ends: a handle (with the lists its shutdown uses), an error, or a wait that
  never settles.\<close>

datatype 's boot_outcome =
    Booted "'s plugin list" "'s plugin list"
  | BootFailed plugin_error
  | BootHangs

text \<open>\<open>after ms stops ps\<close>: the roll-back, then the error.\<close>

definition roll_back ::
  "jsnum \<Rightarrow> 's plugin list \<Rightarrow> 's plugin list \<Rightarrow> plugin_error \<Rightarrow> 's \<Rightarrow> 's boot_outcome \<times> 's \<times> boot_event list" where
  "roll_back ms admitted initialized e s =
     (let (s1, tr1, ok1) = runStopAdmissionLoop ms admitted s in
      if \<not> ok1 then (BootHangs, s1, tr1)
      else let (s2, tr2, ok2) = runShutdownLoop ms initialized s1 in
           (if ok2 then BootFailed e else BootHangs, s2, tr1 @ tr2))"

fun verifyCalls :: "('s \<Rightarrow> string \<Rightarrow> bool) \<Rightarrow> 's plugin list \<Rightarrow> 's \<Rightarrow> plugin_error option" where
  "verifyCalls has [] s = None"
| "verifyCalls has (p # ps) s =
     (case find (\<lambda>hook. \<not> has s hook) (mf_calls (pl_manifest p)) of
        Some hook \<Rightarrow> Some (hook_err ''missing-service'' (pl_name p) hook)
      | None \<Rightarrow> verifyCalls has ps s)"

fun admission_loop ::
  "jsnum \<Rightarrow> 's plugin list \<Rightarrow> 's plugin list \<Rightarrow> 's plugin list \<Rightarrow> 's
     \<Rightarrow> 's boot_outcome \<times> 's \<times> boot_event list" where
  "admission_loop ms initialized admitted [] s = (Booted initialized admitted, s, [])"
| "admission_loop ms initialized admitted (p # ps) s =
     (case pl_startAdmission p of
        None \<Rightarrow>
          let (out, s2, tr) = admission_loop ms initialized (admitted @ [p]) ps s in
          (out, s2, PushAdmitted (pl_name p) # tr)
      | Some f \<Rightarrow>
          let (s', r) = f s in
          if run_at r = None then (BootHangs, s', [CallStart (pl_name p)])
          else case run_end r of
                 Resolved _ \<Rightarrow>
                   let (out, s2, tr) = admission_loop ms initialized (admitted @ [p]) ps s' in
                   (out, s2, CallStart (pl_name p) # PushAdmitted (pl_name p) # tr)
               | Rejected e \<Rightarrow>
                   let (out, s2, tr) = roll_back ms admitted initialized (init_error (pl_name p) e) s' in
                   (out, s2, CallStart (pl_name p) # tr))"

text \<open>The list given to \<open>init_loop\<close> is what is left of the initialisation order; at its end
  come \<^verbatim>\<open>verifyCalls\<close> over all plugins and the admission loop.\<close>

fun init_loop ::
  "('s \<Rightarrow> string \<Rightarrow> bool) \<Rightarrow> jsnum \<Rightarrow> 's plugin list \<Rightarrow> 's plugin list \<Rightarrow> 's plugin list \<Rightarrow> 's
     \<Rightarrow> 's boot_outcome \<times> 's \<times> boot_event list" where
  "init_loop has ms plugins initialized [] s =
     (case verifyCalls has plugins s of
        Some e \<Rightarrow> roll_back ms [] initialized e s
      | None \<Rightarrow> admission_loop ms initialized [] initialized s)"
| "init_loop has ms plugins initialized (p # ps) s =
     (let (s', r) = pl_init p s in
      if run_at r = None then (BootHangs, s', [CallInit (pl_name p)])
      else case run_end r of
             Resolved _ \<Rightarrow>
               let (out, s2, tr) = init_loop has ms plugins (initialized @ [p]) ps s' in
               (out, s2, CallInit (pl_name p) # PushInitialized (pl_name p) # tr)
           | Rejected e \<Rightarrow>
               let (out, s2, tr) = roll_back ms [] initialized (init_error (pl_name p) e) s' in
               (out, s2, CallInit (pl_name p) # tr))"

definition DEFAULT_SHUTDOWN_TIMEOUT_MS :: jsnum where
  "DEFAULT_SHUTDOWN_TIMEOUT_MS = Fin 10000"

definition boot_order :: "'s plugin list \<Rightarrow> graph \<Rightarrow> 's plugin list" where
  "boot_order plugins g =
     List.map (\<lambda>n. the (map_of (List.map (\<lambda>p. (pl_name p, p)) plugins) n))
       (topologicalOrder (List.map pl_manifest plugins) g)"

definition bootstrap ::
  "('s \<Rightarrow> string \<Rightarrow> bool) \<Rightarrow> jsnum option \<Rightarrow> 's plugin list \<Rightarrow> 's \<Rightarrow> 's boot_outcome \<times> 's \<times> boot_event list" where
  "bootstrap has opt plugins s =
     (let ms = nullish opt DEFAULT_SHUTDOWN_TIMEOUT_MS;
          manifests = List.map pl_manifest plugins in
      case find (\<lambda>m. \<not> manifest_ok m) manifests of
        Some m \<Rightarrow> (BootFailed (plugin_err ''invalid-manifest'' (mf_name m)), s, [])
      | None \<Rightarrow>
          (case checkDuplicatePluginNames [] manifests of
             Some e \<Rightarrow> (BootFailed e, s, [])
           | None \<Rightarrow>
               (case validateDependencyGraph manifests of
                  Inl e \<Rightarrow> (BootFailed e, s, [])
                | Inr g \<Rightarrow> init_loop has ms plugins [] (boot_order plugins g) s)))"

text \<open>The handle: its first \<^verbatim>\<open>shutdown()\<close> runs the loops, any later call returns the
  cached promise.\<close>

record 's kernel_handle =
  kh_initialized :: "'s plugin list"
  kh_admitted :: "'s plugin list"
  kh_started :: bool

definition kernel_shutdown ::
  "jsnum \<Rightarrow> 's kernel_handle \<Rightarrow> 's \<Rightarrow> 's kernel_handle \<times> 's \<times> boot_event list \<times> bool" where
  "kernel_shutdown ms h s =
     (if kh_started h then (h, s, [], True)
      else let (s1, tr1, ok1) = runStopAdmissionLoop ms (kh_admitted h) s in
           if \<not> ok1 then (h\<lparr>kh_started := True\<rparr>, s1, tr1, False)
           else let (s2, tr2, ok2) = runShutdownLoop ms (kh_initialized h) s1 in
                (h\<lparr>kh_started := True\<rparr>, s2, tr1 @ tr2, ok2))"

section \<open>Reading the trace\<close>

fun is_report :: "boot_event \<Rightarrow> bool" where
  "is_report (ReportError _) = True"
| "is_report _ = False"

fun is_push :: "boot_event \<Rightarrow> bool" where
  "is_push (PushInitialized _) = True"
| "is_push (PushAdmitted _) = True"
| "is_push _ = False"

text \<open>The plugin methods the kernel called, in order.\<close>

definition calls_of :: "boot_event list \<Rightarrow> boot_event list" where
  "calls_of tr = [e \<leftarrow> tr. \<not> is_report e \<and> \<not> is_push e]"

lemma calls_of_simps [simp]:
  "calls_of [] = []"
  "calls_of (e # tr) = (if is_report e \<or> is_push e then calls_of tr else e # calls_of tr)"
  "calls_of (xs @ ys) = calls_of xs @ calls_of ys"
  by (auto simp: calls_of_def)

definition stops :: "'s plugin list \<Rightarrow> boot_event list" where
  "stops ps = [CallStop (pl_name p). p \<leftarrow> rev ps, pl_stopAdmission p \<noteq> None]"

definition shutdowns :: "'s plugin list \<Rightarrow> boot_event list" where
  "shutdowns ps = [CallShutdown (pl_name p). p \<leftarrow> rev ps, pl_shutdown p \<noteq> None]"

definition starts :: "'s plugin list \<Rightarrow> boot_event list" where
  "starts ps = [CallStart (pl_name p). p \<leftarrow> ps, pl_startAdmission p \<noteq> None]"

definition inits :: "'s plugin list \<Rightarrow> boot_event list" where
  "inits ps = List.map (\<lambda>p. CallInit (pl_name p)) ps"

lemma starts_simps [simp]:
  "starts [] = []"
  "starts (p # ps) = (if pl_startAdmission p = None then starts ps else CallStart (pl_name p) # starts ps)"
  "starts (ps @ qs) = starts ps @ starts qs"
  by (auto simp: starts_def)

lemma inits_simps [simp]:
  "inits [] = []" "inits (p # ps) = CallInit (pl_name p) # inits ps" "inits (ps @ qs) = inits ps @ inits qs"
  by (auto simp: inits_def)

lemma stop_loop_calls:
  "stop_loop ms (rev ps) s = (s', tr, True) \<Longrightarrow> calls_of tr = stops ps"
  unfolding stops_def
proof (induction "rev ps" arbitrary: ps s s' tr rule: list.induct)
  case Nil
  then show ?case by simp
next
  case (Cons p qs)
  then have ps: "rev ps = p # qs" by simp
  then have "qs = rev (rev qs)" by simp
  from Cons.hyps(1)[OF this] have ih: "stop_loop ms qs s = (s', tr, True) \<Longrightarrow>
      calls_of tr = [CallStop (pl_name p). p \<leftarrow> qs, pl_stopAdmission p \<noteq> None]" for s s' tr by simp
  from Cons.prems show ?case unfolding ps
    by (auto simp: Let_def split: option.splits prod.splits if_splits dest!: ih)
qed

lemma shutdown_loop_calls:
  "shutdown_loop ms (rev ps) s = (s', tr, True) \<Longrightarrow> calls_of tr = shutdowns ps"
  unfolding shutdowns_def
proof (induction "rev ps" arbitrary: ps s s' tr rule: list.induct)
  case Nil
  then show ?case by simp
next
  case (Cons p qs)
  then have ps: "rev ps = p # qs" by simp
  then have "qs = rev (rev qs)" by simp
  from Cons.hyps(1)[OF this] have ih: "shutdown_loop ms qs s = (s', tr, True) \<Longrightarrow>
      calls_of tr = [CallShutdown (pl_name p). p \<leftarrow> qs, pl_shutdown p \<noteq> None]" for s s' tr by simp
  from Cons.prems show ?case unfolding ps
    by (auto simp: Let_def split: option.splits prod.splits if_splits dest!: ih)
qed

lemma roll_back_failed:
  assumes "roll_back ms adm ini e s = (BootFailed e', s', tr)"
  shows "e' = e \<and> calls_of tr = stops adm @ shutdowns ini"
  using assms
  by (auto simp: roll_back_def Let_def split: prod.splits if_splits
      dest!: stop_loop_calls shutdown_loop_calls)

lemma roll_back_not_booted [simp]: "roll_back ms adm ini e s \<noteq> (Booted i a, x)"
  by (auto simp: roll_back_def Let_def split: prod.splits)

text \<open>A finite timeout bounds the loops.\<close>

lemma stop_loop_ends: "snd (snd (stop_loop (Fin d) ps s))"
proof (induction ps arbitrary: s)
  case (Cons p ps)
  show ?case
  proof (cases "pl_stopAdmission p")
    case None
    with Cons.IH show ?thesis by simp
  next
    case (Some f)
    obtain s' r where f: "f s = (s', r)" by force
    have "run_at (withTimeout r (Fin d) e) \<noteq> None" for e
      by (cases "run_at r") (auto simp: withTimeout_def)
    with Some f Cons.IH[of s'] show ?thesis by (auto simp: Let_def split: prod.splits)
  qed
qed simp

lemma shutdown_loop_ends:
  "(\<And>p. p \<in> set ps \<Longrightarrow> \<not> pl_joined p) \<Longrightarrow> snd (snd (shutdown_loop (Fin d) ps s))"
proof (induction ps arbitrary: s)
  case (Cons p ps)
  show ?case
  proof (cases "pl_shutdown p")
    case None
    with Cons show ?thesis by simp
  next
    case (Some f)
    obtain s' r where f: "f s = (s', r)" by force
    have "run_at (withTimeout r (Fin d) e) \<noteq> None" for e
      by (cases "run_at r") (auto simp: withTimeout_def)
    with Some f Cons.IH[of s'] Cons.prems show ?thesis by (auto simp: Let_def split: prod.splits)
  qed
qed simp

section \<open>What a boot does\<close>

lemma admission_loop_booted:
  "admission_loop ms ini adm ps s = (Booted i a, s', tr) \<Longrightarrow>
     i = ini \<and> a = adm @ ps \<and> calls_of tr = starts ps"
proof (induction ps arbitrary: adm s tr)
  case Nil
  then show ?case by simp
next
  case (Cons p ps)
  show ?case
  proof (cases "pl_startAdmission p")
    case None
    with Cons.prems obtain tr' where "admission_loop ms ini (adm @ [p]) ps s = (Booted i a, s', tr')"
      "tr = PushAdmitted (pl_name p) # tr'" by (auto split: prod.splits)
    with Cons.IH None show ?thesis by fastforce
  next
    case (Some f)
    obtain s1 r where f: "f s = (s1, r)" by force
    from Cons.prems Some f obtain tr' where "admission_loop ms ini (adm @ [p]) ps s1 = (Booted i a, s', tr')"
      "tr = CallStart (pl_name p) # PushAdmitted (pl_name p) # tr'"
      by (auto split: prod.splits if_splits settlement.splits)
    with Cons.IH Some show ?thesis by fastforce
  qed
qed

lemma admission_loop_failed:
  "admission_loop ms ini adm ps s = (BootFailed e, s', tr) \<Longrightarrow>
     \<exists>us p vs. ps = us @ p # vs \<and>
       calls_of tr = starts us @ [CallStart (pl_name p)] @ stops (adm @ us) @ shutdowns ini"
proof (induction ps arbitrary: adm s tr)
  case Nil
  then show ?case by simp
next
  case (Cons p ps)
  have go: "\<exists>us q vs. p # ps = us @ q # vs \<and>
      calls_of tr = starts us @ [CallStart (pl_name q)] @ stops (adm @ us) @ shutdowns ini"
    if "admission_loop ms ini (adm @ [p]) ps s1 = (BootFailed e, s', tr')"
      "calls_of tr = starts [p] @ calls_of tr'" for s1 tr'
  proof -
    from Cons.IH[OF that(1)] obtain us q vs where "ps = us @ q # vs"
      "calls_of tr' = starts us @ [CallStart (pl_name q)] @ stops ((adm @ [p]) @ us) @ shutdowns ini" by blast
    with that(2) show ?thesis
      by - (rule exI[of _ "p # us"], rule exI[of _ q], rule exI[of _ vs], simp)
  qed
  show ?case
  proof (cases "pl_startAdmission p")
    case None
    with Cons.prems obtain tr' where "admission_loop ms ini (adm @ [p]) ps s = (BootFailed e, s', tr')"
      "tr = PushAdmitted (pl_name p) # tr'" by (auto split: prod.splits)
    with None go show ?thesis by simp
  next
    case (Some f)
    obtain s1 r where f: "f s = (s1, r)" by force
    show ?thesis
    proof (cases "run_end r")
      case (Resolved u)
      with Some f Cons.prems obtain tr' where
        "admission_loop ms ini (adm @ [p]) ps s1 = (BootFailed e, s', tr')"
        "tr = CallStart (pl_name p) # PushAdmitted (pl_name p) # tr'"
        by (auto split: prod.splits if_splits)
      with Some go show ?thesis by simp
    next
      case (Rejected x)
      with Some f Cons.prems obtain tr' where
        "roll_back ms adm ini (init_error (pl_name p) x) s1 = (BootFailed e, s', tr')"
        "tr = CallStart (pl_name p) # tr'" by (auto split: prod.splits if_splits)
      with roll_back_failed have "calls_of tr = CallStart (pl_name p) # stops adm @ shutdowns ini"
        by fastforce
      then show ?thesis by - (rule exI[of _ "[]"], rule exI[of _ p], rule exI[of _ ps], simp)
    qed
  qed
qed

lemma init_loop_booted:
  "init_loop has ms pls ini ps s = (Booted i a, s', tr) \<Longrightarrow>
     i = ini @ ps \<and> a = ini @ ps \<and> calls_of tr = inits ps @ starts (ini @ ps)"
proof (induction ps arbitrary: ini s tr)
  case Nil
  then show ?case by (auto split: option.splits dest!: admission_loop_booted)
next
  case (Cons p ps)
  obtain s1 r where f: "pl_init p s = (s1, r)" by force
  from Cons.prems f obtain tr' where "init_loop has ms pls (ini @ [p]) ps s1 = (Booted i a, s', tr')"
    "tr = CallInit (pl_name p) # PushInitialized (pl_name p) # tr'"
    by (auto split: prod.splits if_splits settlement.splits)
  with Cons.IH show ?case by fastforce
qed

text \<open>The three ways a validated boot fails, with the methods called in each.\<close>

definition failed_in_init :: "'s plugin list \<Rightarrow> 's plugin list \<Rightarrow> boot_event list \<Rightarrow> bool" where
  "failed_in_init ini ps tr \<longleftrightarrow>
     (\<exists>us p vs. ps = us @ p # vs \<and> calls_of tr = inits us @ [CallInit (pl_name p)] @ shutdowns (ini @ us))"

definition failed_in_verify :: "'s plugin list \<Rightarrow> 's plugin list \<Rightarrow> boot_event list \<Rightarrow> bool" where
  "failed_in_verify ini ps tr \<longleftrightarrow> calls_of tr = inits ps @ shutdowns (ini @ ps)"

definition failed_in_admission :: "'s plugin list \<Rightarrow> 's plugin list \<Rightarrow> boot_event list \<Rightarrow> bool" where
  "failed_in_admission ini ps tr \<longleftrightarrow>
     (\<exists>us p vs. ini @ ps = us @ p # vs \<and>
        calls_of tr = inits ps @ starts us @ [CallStart (pl_name p)] @ stops us @ shutdowns (ini @ ps))"

lemma stops_Nil [simp]: "stops [] = []"
  by (simp add: stops_def)

lemma init_loop_failed:
  "init_loop has ms pls ini ps s = (BootFailed e, s', tr) \<Longrightarrow>
     failed_in_init ini ps tr \<or> failed_in_verify ini ps tr \<or> failed_in_admission ini ps tr"
proof (induction ps arbitrary: ini s tr)
  case Nil
  show ?case
  proof (cases "verifyCalls has pls s")
    case None
    with Nil have "admission_loop ms ini [] ini s = (BootFailed e, s', tr)" by simp
    from admission_loop_failed[OF this] show ?thesis by (auto simp: failed_in_admission_def)
  next
    case (Some x)
    with Nil have "roll_back ms [] ini x s = (BootFailed e, s', tr)" by simp
    from roll_back_failed[OF this] show ?thesis by (simp add: failed_in_verify_def)
  qed
next
  case (Cons p ps)
  obtain s1 r where f: "pl_init p s = (s1, r)" by force
  show ?case
  proof (cases "run_end r")
    case (Resolved u)
    with f Cons.prems obtain tr' where
      rest: "init_loop has ms pls (ini @ [p]) ps s1 = (BootFailed e, s', tr')"
      and tr: "tr = CallInit (pl_name p) # PushInitialized (pl_name p) # tr'"
      by (auto split: prod.splits if_splits)
    from Cons.IH[OF rest] show ?thesis
    proof (elim disjE)
      assume "failed_in_init (ini @ [p]) ps tr'"
      then obtain us q vs where "ps = us @ q # vs"
        "calls_of tr' = inits us @ [CallInit (pl_name q)] @ shutdowns ((ini @ [p]) @ us)"
        by (auto simp: failed_in_init_def)
      with tr have "failed_in_init ini (p # ps) tr"
        unfolding failed_in_init_def
        by - (rule exI[of _ "p # us"], rule exI[of _ q], rule exI[of _ vs], simp)
      then show ?thesis ..
    qed (use tr in \<open>auto simp: failed_in_verify_def failed_in_admission_def\<close>)
  next
    case (Rejected x)
    with f Cons.prems obtain tr' where
      "roll_back ms [] ini (init_error (pl_name p) x) s1 = (BootFailed e, s', tr')"
      "tr = CallInit (pl_name p) # tr'" by (auto split: prod.splits if_splits)
    then have "failed_in_init ini (p # ps) tr" unfolding failed_in_init_def
      by - (rule exI[of _ "[]"], rule exI[of _ p], rule exI[of _ ps], auto dest!: roll_back_failed)
    then show ?thesis ..
  qed
qed

lemma verifyCalls_None:
  "verifyCalls has ps s = None \<longleftrightarrow> (\<forall>p \<in> set ps. \<forall>hook \<in> set (mf_calls (pl_manifest p)). has s hook)"
  by (induction ps) (auto split: option.splits simp: find_None_iff find_Some_iff)

lemma admission_loop_keeps:
  assumes "\<And>p f s c. p \<in> set ps \<Longrightarrow> pl_startAdmission p = Some f \<Longrightarrow> has s c \<Longrightarrow> has (fst (f s)) c"
    and "admission_loop ms ini adm ps s = (Booted i a, s', tr)" and "has s c"
  shows "has s' c"
  using assms
proof (induction ps arbitrary: adm s tr)
  case Nil
  then show ?case by simp
next
  case (Cons p ps)
  show ?case
  proof (cases "pl_startAdmission p")
    case None
    with Cons.prems(2) obtain tr' where "admission_loop ms ini (adm @ [p]) ps s = (Booted i a, s', tr')"
      by (auto split: prod.splits)
    with Cons show ?thesis by (meson list.set_intros(2))
  next
    case (Some f)
    obtain s1 r where f: "f s = (s1, r)" by force
    from Cons.prems(2) Some f obtain tr' where
      "admission_loop ms ini (adm @ [p]) ps s1 = (Booted i a, s', tr')"
      by (auto split: prod.splits if_splits settlement.splits)
    moreover have "has s1 c" using Cons.prems(1)[of p f s c] Some f Cons.prems(3) by simp
    ultimately show ?thesis using Cons.IH Cons.prems(1) by (meson list.set_intros(2))
  qed
qed

lemma init_loop_wired:
  assumes "\<And>p f s c. p \<in> set (ini @ ps) \<Longrightarrow> pl_startAdmission p = Some f \<Longrightarrow> has s c \<Longrightarrow> has (fst (f s)) c"
    and "init_loop has ms pls ini ps s = (Booted i a, s', tr)"
    and "p \<in> set pls" and "c \<in> set (mf_calls (pl_manifest p))"
  shows "has s' c"
  using assms(1,2)
proof (induction ps arbitrary: ini s tr)
  case Nil
  then have "verifyCalls has pls s = None" "admission_loop ms ini [] ini s = (Booted i a, s', tr)"
    by (auto split: option.splits)
  with assms(3,4) Nil.prems(1) show ?case
    using admission_loop_keeps[of ini has ms ini "[]" s i a s' tr c] by (auto simp: verifyCalls_None)
next
  case (Cons q ps)
  obtain s1 r where f: "pl_init q s = (s1, r)" by force
  from Cons.prems(2) f obtain tr' where "init_loop has ms pls (ini @ [q]) ps s1 = (Booted i a, s', tr')"
    by (auto split: prod.splits if_splits settlement.splits)
  moreover have "\<And>p f s c. p \<in> set ((ini @ [q]) @ ps) \<Longrightarrow> pl_startAdmission p = Some f \<Longrightarrow> has s c \<Longrightarrow> has (fst (f s)) c"
    using Cons.prems(1) by simp
  ultimately show ?case using Cons.IH by blast
qed

lemma bootstrap_validated:
  assumes "bootstrap has opt pls s = (out, s', tr)"
  shows "(\<exists>e. out = BootFailed e \<and> s' = s \<and> tr = []) \<or>
    (\<exists>g. checkDuplicatePluginNames [] (List.map pl_manifest pls) = None \<and>
         validateDependencyGraph (List.map pl_manifest pls) = Inr g \<and>
         init_loop has (nullish opt DEFAULT_SHUTDOWN_TIMEOUT_MS) pls [] (boot_order pls g) s = (out, s', tr))"
  using assms by (auto simp: bootstrap_def Let_def split: option.splits sum.splits)

lemma map_of_named:
  "distinct (List.map pl_name pls) \<Longrightarrow> p \<in> set pls \<Longrightarrow> map_of (List.map (\<lambda>p. (pl_name p, p)) pls) (pl_name p) = Some p"
  by (intro map_of_is_SomeI) (auto simp: comp_def)

lemma boot_order_plugins:
  assumes "validateDependencyGraph (List.map pl_manifest pls) = Inr g"
    and "checkDuplicatePluginNames [] (List.map pl_manifest pls) = None"
  shows "List.map pl_name (boot_order pls g) = topologicalOrder (List.map pl_manifest pls) g \<and>
         set (boot_order pls g) \<subseteq> set pls"
proof -
  have dist: "distinct (List.map pl_name pls)"
    using assms(2) by (simp add: checkDuplicatePluginNames_None comp_def)
  have elems: "set (topologicalOrder (List.map pl_manifest pls) g) = pl_name ` set pls"
    using topologicalOrder_sound[OF assms] by (simp add: image_image)
  have "the (map_of (List.map (\<lambda>p. (pl_name p, p)) pls) n) \<in> set pls \<and>
        pl_name (the (map_of (List.map (\<lambda>p. (pl_name p, p)) pls) n)) = n"
    if "n \<in> pl_name ` set pls" for n
    using that map_of_named[OF dist] by auto
  with elems show ?thesis by (auto simp: boot_order_def comp_def intro!: map_idI)
qed

section \<open>The properties of boot and shutdown\<close>

text \<open>A successful boot calls every \<^verbatim>\<open>init\<close> in the initialisation order and only then
  every \<^verbatim>\<open>startAdmission\<close> in the same order, calls nothing else, and hands both lists to
  the shutdown handle.\<close>

theorem boot_sequence:
  assumes "bootstrap has opt pls s = (Booted ini adm, s', tr)"
  shows "\<exists>g. validateDependencyGraph (List.map pl_manifest pls) = Inr g \<and>
             List.map pl_name ini = topologicalOrder (List.map pl_manifest pls) g \<and> adm = ini \<and>
             calls_of tr = inits ini @ starts ini"
proof -
  from bootstrap_validated[OF assms] obtain g where
    g: "checkDuplicatePluginNames [] (List.map pl_manifest pls) = None"
      "validateDependencyGraph (List.map pl_manifest pls) = Inr g"
      "init_loop has (nullish opt DEFAULT_SHUTDOWN_TIMEOUT_MS) pls [] (boot_order pls g) s = (Booted ini adm, s', tr)"
    by auto
  from init_loop_booted[OF g(3)] boot_order_plugins[OF g(2,1)] g(2) show ?thesis by auto
qed

text \<open>C35. A boot that fails after validation leaves nothing running: whichever step failed, the
  plugins whose admission had started are told to stop, in reverse, and then every plugin whose
  \<^verbatim>\<open>init\<close> had completed is shut down, in reverse; the plugin whose \<^verbatim>\<open>init\<close> threw is
  not shut down. A boot that fails in validation calls no plugin at all.\<close>

theorem boot_failure_rolls_back:
  assumes "bootstrap has opt pls s = (BootFailed e, s', tr)"
  shows "(s' = s \<and> tr = []) \<or>
    (\<exists>g. validateDependencyGraph (List.map pl_manifest pls) = Inr g \<and>
       (failed_in_init [] (boot_order pls g) tr \<or> failed_in_verify [] (boot_order pls g) tr \<or>
        failed_in_admission [] (boot_order pls g) tr))"
  using bootstrap_validated[OF assms] by (elim disjE exE conjE) (simp, blast dest: init_loop_failed)

text \<open>After a successful boot every required call of every plugin has a handler on the bus,
  provided no \<^verbatim>\<open>startAdmission\<close> takes one away (the bus has no operation that does).\<close>

theorem boot_calls_wired:
  assumes "\<And>p f s c. p \<in> set pls \<Longrightarrow> pl_startAdmission p = Some f \<Longrightarrow> has s c \<Longrightarrow> has (fst (f s)) c"
    and "bootstrap has opt pls s = (Booted ini adm, s', tr)"
    and "p \<in> set pls" and "c \<in> set (mf_calls (pl_manifest p))"
  shows "has s' c"
proof -
  from bootstrap_validated[OF assms(2)] obtain g where
    g: "checkDuplicatePluginNames [] (List.map pl_manifest pls) = None"
      "validateDependencyGraph (List.map pl_manifest pls) = Inr g"
      "init_loop has (nullish opt DEFAULT_SHUTDOWN_TIMEOUT_MS) pls [] (boot_order pls g) s = (Booted ini adm, s', tr)"
    by auto
  have "p \<in> set pls" if "p \<in> set ([] @ boot_order pls g)" for p
    using boot_order_plugins[OF g(2,1)] that by auto
  with assms(1) init_loop_wired[OF _ g(3) assms(3,4)] show ?thesis by blast
qed

text \<open>Shutdown, whatever the plugins' methods do: when it comes to its end, every plugin that
  has a \<^verbatim>\<open>stopAdmission\<close> was called in reverse order, and only then every plugin that has
  a \<^verbatim>\<open>shutdown\<close>, in reverse order, each exactly once and a failing one never hiding the
  next; a second shutdown of the handle calls nothing.\<close>

theorem shutdown_sequence:
  assumes "\<not> kh_started h" and "kernel_shutdown ms h s = (h', s', tr, True)"
  shows "calls_of tr = stops (kh_admitted h) @ shutdowns (kh_initialized h) \<and>
         kernel_shutdown ms h' s2 = (h', s2, [], True)"
  using assms
  by (auto simp: kernel_shutdown_def Let_def split: prod.splits if_splits
      dest!: stop_loop_calls shutdown_loop_calls)

text \<open>With a finite timeout and no plugin in joined mode, shutdown always comes to its end,
  even when methods never settle.\<close>

theorem shutdown_ends:
  assumes "\<forall>p \<in> set (kh_initialized h). \<not> pl_joined p"
  shows "snd (snd (snd (kernel_shutdown (Fin d) h s)))"
proof (cases "kh_started h")
  case True
  then show ?thesis by (simp add: kernel_shutdown_def)
next
  case False
  obtain s1 tr1 ok1 where st: "runStopAdmissionLoop (Fin d) (kh_admitted h) s = (s1, tr1, ok1)"
    by (metis prod_cases3)
  obtain s2 tr2 ok2 where sh: "runShutdownLoop (Fin d) (kh_initialized h) s1 = (s2, tr2, ok2)"
    by (metis prod_cases3)
  have "ok1" using stop_loop_ends[of d "rev (kh_admitted h)" s] st by simp
  moreover have "ok2" using shutdown_loop_ends[of "rev (kh_initialized h)" d s1] sh assms by simp
  ultimately show ?thesis using False st sh by (simp add: kernel_shutdown_def)
qed

section \<open>Witnesses\<close>

text \<open>Two plugins over the state of registered hooks: \<open>b\<close> registers \<open>y\<close>, \<open>a\<close> calls it; the
  shutdown of \<open>a\<close> never settles.\<close>

definition demo_plugin :: "nat \<Rightarrow> bool \<Rightarrow> string list plugin" where
  "demo_plugin i fails =
     \<lparr>pl_manifest = demo_manifests ! i,
      pl_init = (\<lambda>s. (mf_registers (demo_manifests ! i) @ s,
        \<lparr>run_at = Some 1, run_end = (if fails then Rejected (ThrownOther ''x'') else Resolved ())\<rparr>)),
      pl_startAdmission = (if i = 0 then Some (\<lambda>s. (s, \<lparr>run_at = Some 0, run_end = Resolved ()\<rparr>)) else None),
      pl_stopAdmission = (if i = 0 then Some (\<lambda>s. (s, \<lparr>run_at = Some 0, run_end = Resolved ()\<rparr>)) else None),
      pl_shutdown = Some (\<lambda>s. (s, \<lparr>run_at = (if i = 0 then None else Some 3), run_end = Resolved ()\<rparr>)),
      pl_joined = False\<rparr>"

definition demo_has :: "string list \<Rightarrow> string \<Rightarrow> bool" where
  "demo_has s c \<longleftrightarrow> c \<in> set s"

definition demo_boot :: "bool \<Rightarrow> string list boot_outcome \<times> string list \<times> boot_event list" where
  "demo_boot fails = bootstrap demo_has None [demo_plugin 0 fails, demo_plugin 1 False] []"

lemma demo_boot_order:
  "boot_order [demo_plugin 0 fails, demo_plugin 1 False] [(''a'', [''b'']), (''b'', [])]
     = [demo_plugin 1 False, demo_plugin 0 fails]"
  by (simp add: boot_order_def topologicalOrder_def demo_plugin_def demo_manifests_def succs_def)

lemma demo_manifest_list:
  "[pl_manifest (demo_plugin 0 fails), pl_manifest (demo_plugin 1 False)] = demo_manifests"
  by (simp add: demo_plugin_def demo_manifests_def)

lemma demo_boot_loop:
  "demo_boot fails = init_loop demo_has (Fin 10000) [demo_plugin 0 fails, demo_plugin 1 False] []
     [demo_plugin 1 False, demo_plugin 0 fails] []"
proof -
  have "find (\<lambda>m. \<not> manifest_ok m) demo_manifests = None"
    "checkDuplicatePluginNames [] demo_manifests = None"
    by (simp_all add: demo_manifests_def manifest_ok_def)
  then show ?thesis
    unfolding demo_boot_def bootstrap_def Let_def list.map demo_manifest_list
    by (simp only: option.case sum.case demo_manifests_valid demo_boot_order DEFAULT_SHUTDOWN_TIMEOUT_MS_def)
qed

lemmas demo_boot_eval = demo_boot_loop demo_plugin_def demo_manifests_def demo_has_def Let_def
  roll_back_def withTimeout_def is_rejected_def

lemma demo_boot_ok:
  "\<exists>s' tr. demo_boot False = (Booted [demo_plugin 1 False, demo_plugin 0 False]
      [demo_plugin 1 False, demo_plugin 0 False], s', tr)"
  by (simp add: demo_boot_eval)

lemma demo_boot_fails: "\<exists>e s' tr. demo_boot True = (BootFailed e, s', tr) \<and> tr \<noteq> []"
  by (simp add: demo_boot_eval)

theorem boot_sequence_witness:
  "\<exists>ini s' tr. demo_boot False = (Booted ini ini, s', tr) \<and>
     calls_of tr = [CallInit ''b'', CallInit ''a'', CallStart ''a'']"
proof -
  from demo_boot_ok obtain s' tr where b: "bootstrap demo_has None [demo_plugin 0 False, demo_plugin 1 False] []
     = (Booted [demo_plugin 1 False, demo_plugin 0 False] [demo_plugin 1 False, demo_plugin 0 False], s', tr)"
    by (auto simp: demo_boot_def)
  from boot_sequence[OF b] have "calls_of tr = inits [demo_plugin 1 False, demo_plugin 0 False]
      @ starts [demo_plugin 1 False, demo_plugin 0 False]" by blast
  then have "calls_of tr = [CallInit ''b'', CallInit ''a'', CallStart ''a'']"
    by (simp add: demo_plugin_def demo_manifests_def)
  with b show ?thesis by (auto simp: demo_boot_def)
qed

theorem boot_failure_rolls_back_witness:
  "\<exists>e s' tr. \<exists>order :: string list plugin list. demo_boot True = (BootFailed e, s', tr) \<and>
     (failed_in_init [] order tr \<or> failed_in_verify [] order tr \<or> failed_in_admission [] order tr)"
proof -
  from demo_boot_fails obtain e s' tr where b: "demo_boot True = (BootFailed e, s', tr)" "tr \<noteq> []" by blast
  from boot_failure_rolls_back[OF b(1)[unfolded demo_boot_def]] b(2)
  have "\<exists>order :: string list plugin list. failed_in_init [] order tr \<or>
      failed_in_verify [] order tr \<or> failed_in_admission [] order tr" by blast
  with b(1) show ?thesis by blast
qed

theorem boot_calls_wired_witness: "demo_has (fst (snd (demo_boot False))) ''y''"
proof -
  from demo_boot_ok obtain s' tr where b: "bootstrap demo_has None [demo_plugin 0 False, demo_plugin 1 False] []
     = (Booted [demo_plugin 1 False, demo_plugin 0 False] [demo_plugin 1 False, demo_plugin 0 False], s', tr)"
    by (auto simp: demo_boot_def)
  have "demo_has s' ''y''"
    by (rule boot_calls_wired[OF _ b, of "demo_plugin 0 False"])
      (auto simp: demo_plugin_def demo_manifests_def split: if_splits)
  with b show ?thesis by (simp add: demo_boot_def)
qed

definition demo_handle :: "string list kernel_handle" where
  "demo_handle = \<lparr>kh_initialized = [demo_plugin 1 False, demo_plugin 0 False],
     kh_admitted = [demo_plugin 1 False, demo_plugin 0 False], kh_started = False\<rparr>"

theorem shutdown_sequence_witness:
  "\<exists>h' s' tr. kernel_shutdown (Fin 10) demo_handle [] = (h', s', tr, True) \<and>
     calls_of tr = [CallStop ''a'', CallShutdown ''a'', CallShutdown ''b'']"
proof -
  have "\<exists>h' s' tr. kernel_shutdown (Fin 10) demo_handle [] = (h', s', tr, True)"
    by (simp add: kernel_shutdown_def demo_handle_def demo_plugin_def Let_def withTimeout_def is_rejected_def)
  then obtain h' s' tr where k: "kernel_shutdown (Fin 10) demo_handle [] = (h', s', tr, True)" by blast
  have "\<not> kh_started demo_handle" by (simp add: demo_handle_def)
  from shutdown_sequence[OF this k] have "calls_of tr = stops (kh_admitted demo_handle) @ shutdowns (kh_initialized demo_handle)" by blast
  with k show ?thesis
    by (auto simp: demo_handle_def demo_plugin_def demo_manifests_def stops_def shutdowns_def)
qed

theorem shutdown_ends_witness: "snd (snd (snd (kernel_shutdown (Fin 10) demo_handle [])))"
  by (rule shutdown_ends) (simp add: demo_handle_def demo_plugin_def)

end
