(* ===== verification/Js_Value.thy ===== *)
theory Js_Value
  imports Ax_Prelude
begin

text \<open>
  Untyped JavaScript values, as the handlers receive them from the bus: \<^verbatim>\<open>unknown\<close> inputs
  that a validator inspects with \<^verbatim>\<open>typeof\<close>, \<^verbatim>\<open>=== null\<close>, \<^verbatim>\<open>Array.isArray\<close> and optional
  property reads. A validator that throws is a function into \<open>plugin_error + 'a\<close>; the
  sequence of its checks is \<open>andThen\<close>.
\<close>

section \<open>Values\<close>

datatype jsval =
    JUndef
  | JNull
  | JBool bool
  | JNum jsnum
  | JStr string
  | JArr "jsval list"
  | JObj "(string \<times> jsval) list"

text \<open>\<^verbatim>\<open>v?.name\<close>, for a name that is no property of the built-in prototypes.\<close>

fun js_field :: "jsval \<Rightarrow> string \<Rightarrow> jsval" where
  "js_field (JObj fs) n = (case js_get fs n of None \<Rightarrow> JUndef | Some v \<Rightarrow> v)"
| "js_field _ _ = JUndef"

text \<open>\<^verbatim>\<open>typeof v === 'object' && v !== null\<close>: objects and arrays.\<close>

fun is_object :: "jsval \<Rightarrow> bool" where
  "is_object (JObj _) = True"
| "is_object (JArr _) = True"
| "is_object _ = False"

fun as_string :: "jsval \<Rightarrow> string option" where
  "as_string (JStr s) = Some s"
| "as_string _ = None"

fun as_bool :: "jsval \<Rightarrow> bool option" where
  "as_bool (JBool b) = Some b"
| "as_bool _ = None"

text \<open>\<^verbatim>\<open>Array.isArray(v) && v.every((t) => typeof t === 'string')\<close>.\<close>

fun as_string_list :: "jsval \<Rightarrow> string list option" where
  "as_string_list (JArr vs) =
     (if list_all (\<lambda>v. as_string v \<noteq> None) vs then Some (List.map (\<lambda>v. the (as_string v)) vs) else None)"
| "as_string_list _ = None"

text \<open>\<^verbatim>\<open>typeof v === 'number' && Number.isInteger(v) && v >= 0\<close>, with the integer.\<close>

fun as_nonneg_int :: "jsval \<Rightarrow> nat option" where
  "as_nonneg_int (JNum (Fin q)) = (if q \<in> \<int> \<and> 0 \<le> q then Some (nat \<lfloor>q\<rfloor>) else None)"
| "as_nonneg_int _ = None"

lemma as_string_Some [simp]: "as_string v = Some s \<longleftrightarrow> v = JStr s"
  by (cases v) auto

lemma as_nonneg_int_of_nat [simp]: "as_nonneg_int (JNum (Fin (of_nat n))) = Some n"
  by simp

lemma as_string_list_strings [simp]: "as_string_list (JArr (List.map JStr ss)) = Some ss"
  by (simp add: list_all_iff comp_def)

section \<open>Checks in sequence\<close>

fun andThen :: "'e + 'a \<Rightarrow> ('a \<Rightarrow> 'e + 'b) \<Rightarrow> 'e + 'b" where
  "andThen (Inl e) f = Inl e"
| "andThen (Inr x) f = f x"

lemma andThen_Inr [simp]: "andThen r f = Inr y \<longleftrightarrow> (\<exists>x. r = Inr x \<and> f x = Inr y)"
  by (cases r) auto

lemma andThen_Inl: "andThen r f = Inl e \<longleftrightarrow> r = Inl e \<or> (\<exists>x. r = Inr x \<and> f x = Inl e)"
  by (cases r) auto

lemma andThen_assoc: "andThen (andThen r f) g = andThen r (\<lambda>x. andThen (f x) g)"
  by (cases r) auto

text \<open>\<open>check b e\<close>: the guard \<^verbatim>\<open>if (!b) throw e\<close>.\<close>

definition check :: "bool \<Rightarrow> 'e \<Rightarrow> 'e + unit" where
  "check b e = (if b then Inr () else Inl e)"

lemma check_Inr [simp]: "check b e = Inr u \<longleftrightarrow> b"
  by (simp add: check_def)

lemma check_Inl [simp]: "check b e = Inl e' \<longleftrightarrow> \<not> b \<and> e' = e"
  by (auto simp: check_def)

text \<open>\<^verbatim>\<open>opt\<close> or the error.\<close>

fun orThrow :: "'a option \<Rightarrow> 'e \<Rightarrow> 'e + 'a" where
  "orThrow None e = Inl e"
| "orThrow (Some x) e = Inr x"

lemma orThrow_Inr [simp]: "orThrow r e = Inr x \<longleftrightarrow> r = Some x"
  by (cases r) auto

lemma orThrow_Inl [simp]: "orThrow r e = Inl e' \<longleftrightarrow> r = None \<and> e' = e"
  by (cases r) auto

end
