(* ===== verification/Session_Store.thy ===== *)
theory Session_Store
  imports Js_Value
begin

text \<open>
  The session store of \<^verbatim>\<open>packages/session-inmemory/src/store.ts\<close>: sessions by id, a reverse map
  from token to session id, and a termination flag that is never cleared. The token is drawn by
  \<^verbatim>\<open>node:crypto\<close> and is an argument of \<open>store_create\<close>.
\<close>

section \<open>Data\<close>

record agent_identity =
  ai_identity :: string
  ai_soul :: string
  ai_instructions :: string
  ai_bootstrapMode :: bool

record agent_config =
  ac_displayName :: string
  ac_systemPromptAugment :: string
  ac_systemPromptBootstrapAugment :: "string option"
  ac_allowedTools :: "string list"
  ac_disallowedTools :: "string list option"
  ac_mcpConfigIds :: "string list"
  ac_model :: string
  ac_runner :: string
  ac_identity :: "agent_identity option"

datatype session_source = SrcRoutine | SrcUser

record session_owner =
  so_userId :: string
  so_agentId :: string
  so_agentConfig :: agent_config
  so_conversationId :: "string option"
  so_source :: "session_source option"

record session_record =
  sr_sessionId :: string
  sr_workspaceRoot :: string
  sr_token :: string
  sr_userId :: "string option"
  sr_agentId :: "string option"
  sr_agentConfig :: "agent_config option"
  sr_conversationId :: "string option"
  sr_source :: "session_source option"
  sr_terminated :: bool

record resolved_token =
  rt_sessionId :: string
  rt_workspaceRoot :: string
  rt_userId :: "string option"
  rt_agentId :: "string option"
  rt_conversationId :: "string option"
  rt_source :: "session_source option"

record session_store =
  bySessionId :: "(string, session_record) jsmap"
  byToken :: "(string, string) jsmap"

abbreviation SESSION_PLUGIN :: string where
  "SESSION_PLUGIN \<equiv> ''@ax/session-inmemory''"

abbreviation DUPLICATE_SESSION :: string where
  "DUPLICATE_SESSION \<equiv> ''duplicate-session''"

abbreviation UNKNOWN_SESSION :: string where
  "UNKNOWN_SESSION \<equiv> ''unknown-session''"

section \<open>Operations\<close>

definition createSessionStore :: session_store where
  "createSessionStore = \<lparr>bySessionId = [], byToken = []\<rparr>"

definition session_record_of :: "string \<Rightarrow> string \<Rightarrow> string \<Rightarrow> session_owner option \<Rightarrow> session_record" where
  "session_record_of token sessionId workspaceRoot ow =
     \<lparr>sr_sessionId = sessionId, sr_workspaceRoot = workspaceRoot, sr_token = token,
      sr_userId = map_option so_userId ow,
      sr_agentId = map_option so_agentId ow,
      sr_agentConfig = map_option so_agentConfig ow,
      sr_conversationId = Option.bind ow so_conversationId,
      sr_source = Option.bind ow so_source,
      sr_terminated = False\<rparr>"

definition store_create ::
  "string \<Rightarrow> string \<Rightarrow> string \<Rightarrow> session_owner option \<Rightarrow> session_store \<Rightarrow>
     plugin_error + session_record \<times> session_store" where
  "store_create token sessionId workspaceRoot ow st =
     (if js_get (bySessionId st) sessionId \<noteq> None
      then Inl (hook_err DUPLICATE_SESSION SESSION_PLUGIN ''session:create'')
      else let r = session_record_of token sessionId workspaceRoot ow in
        Inr (r, \<lparr>bySessionId = js_set sessionId r (bySessionId st),
                 byToken = js_set token sessionId (byToken st)\<rparr>))"

definition store_resolveToken :: "session_store \<Rightarrow> string \<Rightarrow> resolved_token option" where
  "store_resolveToken st token =
     (case js_get (byToken st) token of
        None \<Rightarrow> None
      | Some sessionId \<Rightarrow>
          (case js_get (bySessionId st) sessionId of
             None \<Rightarrow> None
           | Some r \<Rightarrow>
               if sr_terminated r then None
               else Some \<lparr>rt_sessionId = sr_sessionId r, rt_workspaceRoot = sr_workspaceRoot r,
                      rt_userId = sr_userId r, rt_agentId = sr_agentId r,
                      rt_conversationId = sr_conversationId r, rt_source = sr_source r\<rparr>))"

definition store_get :: "session_store \<Rightarrow> string \<Rightarrow> session_record option" where
  "store_get st sessionId = js_get (bySessionId st) sessionId"

definition store_terminate :: "string \<Rightarrow> session_store \<Rightarrow> session_store" where
  "store_terminate sessionId st =
     (case js_get (bySessionId st) sessionId of
        None \<Rightarrow> st
      | Some r \<Rightarrow> st\<lparr>bySessionId := js_set sessionId (r\<lparr>sr_terminated := True\<rparr>) (bySessionId st)\<rparr>)"

section \<open>The two maps agree\<close>

text \<open>Every record is filed under its own id, its token leads back to it, and every token leads
  to a record that carries it.\<close>

definition store_inv :: "session_store \<Rightarrow> bool" where
  "store_inv st \<longleftrightarrow>
     js_wf (bySessionId st) \<and> js_wf (byToken st) \<and>
     (\<forall>sid r. js_get (bySessionId st) sid = Some r \<longrightarrow>
        sr_sessionId r = sid \<and> js_get (byToken st) (sr_token r) = Some sid) \<and>
     (\<forall>t sid. js_get (byToken st) t = Some sid \<longrightarrow>
        (\<exists>r. js_get (bySessionId st) sid = Some r \<and> sr_token r = t))"

lemma session_record_of_sel [session_simps]:
  "sr_sessionId (session_record_of t s w ow) = s"
  "sr_token (session_record_of t s w ow) = t"
  "sr_workspaceRoot (session_record_of t s w ow) = w"
  "sr_terminated (session_record_of t s w ow) = False"
  "sr_userId (session_record_of t s w ow) = map_option so_userId ow"
  by (simp_all add: session_record_of_def)

lemma store_inv_init [simp]: "store_inv createSessionStore"
  by (simp add: store_inv_def createSessionStore_def)

lemma store_create_Inr:
  "store_create t sid w ow st = Inr (r, st') \<longleftrightarrow>
     js_get (bySessionId st) sid = None \<and> r = session_record_of t sid w ow \<and>
     st' = \<lparr>bySessionId = js_set sid r (bySessionId st), byToken = js_set t sid (byToken st)\<rparr>"
  by (auto simp: store_create_def Let_def)

lemma store_inv_create:
  assumes "store_inv st" and "js_get (byToken st) t = None"
    and c: "store_create t sid w ow st = Inr (r, st')"
  shows "store_inv st'"
proof -
  have new: "js_get (bySessionId st) sid = None" and r: "r = session_record_of t sid w ow"
    and st': "st' = \<lparr>bySessionId = js_set sid r (bySessionId st), byToken = js_set t sid (byToken st)\<rparr>"
    using c by (auto simp: store_create_Inr)
  have "sr_token q \<noteq> t" if "js_get (bySessionId st) s = Some q" for s q
    using assms(1,2) that by (auto simp: store_inv_def)
  moreover have "js_get (byToken st) t' \<noteq> Some sid" for t'
    using assms(1) new unfolding store_inv_def by force
  ultimately show ?thesis
    using assms(1,2) new unfolding st' r store_inv_def
    by (auto simp: session_simps intro: js_map_wf)
qed

lemma store_inv_terminate: "store_inv st \<Longrightarrow> store_inv (store_terminate sid st)"
  by (fastforce simp: store_inv_def store_terminate_def intro: js_map_wf split: option.splits)

lemma byToken_terminate [simp]: "byToken (store_terminate sid st) = byToken st"
  by (simp add: store_terminate_def split: option.splits)

lemma store_get_terminate [session_simps]:
  "store_get (store_terminate sid st) s =
     (if s = sid then map_option (\<lambda>r. r\<lparr>sr_terminated := True\<rparr>) (store_get st s) else store_get st s)"
  by (auto simp: store_terminate_def store_get_def split: option.splits)

lemma store_get_create [session_simps]:
  "store_create t sid w ow st = Inr (r, st') \<Longrightarrow>
     store_get st' s = (if s = sid then Some r else store_get st s)"
  by (auto simp: store_create_Inr store_get_def)

lemma store_get_init [simp]: "store_get createSessionStore s = None"
  by (simp add: store_get_def createSessionStore_def)

definition resolved_of :: "session_record \<Rightarrow> resolved_token" where
  "resolved_of r = \<lparr>rt_sessionId = sr_sessionId r, rt_workspaceRoot = sr_workspaceRoot r,
     rt_userId = sr_userId r, rt_agentId = sr_agentId r,
     rt_conversationId = sr_conversationId r, rt_source = sr_source r\<rparr>"

text \<open>Under the invariant a token resolves exactly when a live record carries it.\<close>

lemma store_resolveToken_iff:
  assumes "store_inv st"
  shows "store_resolveToken st t = Some x \<longleftrightarrow>
    (\<exists>sid r. store_get st sid = Some r \<and> sr_token r = t \<and> \<not> sr_terminated r \<and> x = resolved_of r)"
  using assms
  by (auto simp: store_inv_def store_resolveToken_def store_get_def resolved_of_def split: option.splits if_splits)
    (metis option.inject)+

section \<open>The store as an interface\<close>

text \<open>What the session handlers rely on. Any implementation that satisfies the laws (the
  in-memory one here, a database one elsewhere) gives the client lemmas below.\<close>

locale session_directory =
  fixes create :: "string \<Rightarrow> string \<Rightarrow> string \<Rightarrow> session_owner option \<Rightarrow> 's \<Rightarrow>
      plugin_error + session_record \<times> 's"
    and resolve :: "'s \<Rightarrow> string \<Rightarrow> resolved_token option"
    and get :: "'s \<Rightarrow> string \<Rightarrow> session_record option"
    and terminate :: "string \<Rightarrow> 's \<Rightarrow> 's"
    and inv :: "'s \<Rightarrow> bool"
    and used :: "'s \<Rightarrow> string \<Rightarrow> bool"
  assumes inv_create: "inv s \<Longrightarrow> \<not> used s t \<Longrightarrow> create t sid w ow s = Inr (r, s') \<Longrightarrow> inv s'"
    and inv_terminate: "inv s \<Longrightarrow> inv (terminate sid s)"
    and create_Inl: "create t sid w ow s = Inl e \<longleftrightarrow>
      get s sid \<noteq> None \<and> e = hook_err DUPLICATE_SESSION SESSION_PLUGIN ''session:create''"
    and create_record: "create t sid w ow s = Inr (r, s') \<Longrightarrow> r = session_record_of t sid w ow"
    and get_create: "create t sid w ow s = Inr (r, s') \<Longrightarrow>
      get s' k = (if k = sid then Some r else get s k)"
    and get_terminate: "get (terminate sid s) k =
      (if k = sid then map_option (\<lambda>r. r\<lparr>sr_terminated := True\<rparr>) (get s k) else get s k)"
    and resolve_iff: "inv s \<Longrightarrow> resolve s t = Some rt \<longleftrightarrow>
      (\<exists>sid r. get s sid = Some r \<and> sr_token r = t \<and> \<not> sr_terminated r \<and> rt = resolved_of r)"
    and used_iff: "inv s \<Longrightarrow> used s t \<longleftrightarrow> (\<exists>sid r. get s sid = Some r \<and> sr_token r = t)"
    and token_once: "inv s \<Longrightarrow> get s sid = Some r \<Longrightarrow> get s sid' = Some r' \<Longrightarrow>
      sr_token r = sr_token r' \<Longrightarrow> sid = sid'"
begin

lemma created_token_resolves:
  assumes "inv s" "\<not> used s t" "create t sid w ow s = Inr (r, s')"
  shows "resolve s' t = Some (resolved_of r)"
proof -
  have "get s' sid = Some r" using get_create[OF assms(3)] by simp
  moreover have "sr_token r = t" "\<not> sr_terminated r"
    using create_record[OF assms(3)] by (simp_all add: session_record_of_def)
  ultimately show ?thesis using resolve_iff[OF inv_create[OF assms]] by blast
qed

lemma other_tokens_kept:
  assumes "inv s" "\<not> used s t" "create t sid w ow s = Inr (r, s')" "t' \<noteq> t"
  shows "resolve s' t' = resolve s t'"
proof -
  have rt: "sr_token r = t" using create_record[OF assms(3)] by (simp add: session_record_of_def)
  have none: "get s sid = None" using create_Inl[of t sid w ow s] assms(3) by force
  have "resolve s' t' = Some x \<longleftrightarrow> resolve s t' = Some x" for x
    unfolding resolve_iff[OF assms(1)] resolve_iff[OF inv_create[OF assms(1-3)]] get_create[OF assms(3)]
    using rt none assms(4) by (metis option.distinct(1) option.inject)
  then show ?thesis by (metis option.exhaust)
qed

lemma terminated_token_dead:
  assumes "inv s" "get s sid = Some r"
  shows "resolve (terminate sid s) (sr_token r) = None"
proof (rule ccontr)
  assume "resolve (terminate sid s) (sr_token r) \<noteq> None"
  then obtain sid' r' where r': "get (terminate sid s) sid' = Some r'" "sr_token r' = sr_token r"
      "\<not> sr_terminated r'"
    using resolve_iff[OF inv_terminate[OF assms(1)]] by auto
  have "get (terminate sid s) sid = Some (r\<lparr>sr_terminated := True\<rparr>)"
    using assms(2) by (simp add: get_terminate)
  with token_once[OF inv_terminate[OF assms(1)] r'(1) this] r' show False by auto
qed

lemma terminate_idem_get: "get (terminate sid (terminate sid s)) x = get (terminate sid s) x"
  by (cases "get s x") (auto simp: get_terminate)

end

interpretation mem: session_directory store_create store_resolveToken store_get store_terminate
    store_inv "\<lambda>st t. js_get (byToken st) t \<noteq> None"
proof unfold_locales
  fix s t sid w ow r s'
  assume "store_inv s" "\<not> js_get (byToken s) t \<noteq> None" "store_create t sid w ow s = Inr (r, s')"
  then show "store_inv s'" by (auto intro: store_inv_create)
next
  fix t sid w ow s e
  show "store_create t sid w ow s = Inl e \<longleftrightarrow> store_get s sid \<noteq> None \<and>
      e = hook_err DUPLICATE_SESSION SESSION_PLUGIN ''session:create''"
    by (auto simp: store_create_def store_get_def Let_def)
next
  fix s t
  assume "store_inv s"
  then show "js_get (byToken s) t \<noteq> None \<longleftrightarrow> (\<exists>sid r. store_get s sid = Some r \<and> sr_token r = t)"
    unfolding store_inv_def store_get_def by (metis not_None_eq)
next
  fix s sid r sid' r'
  assume "store_inv s" "store_get s sid = Some r" "store_get s sid' = Some r'" "sr_token r = sr_token r'"
  then show "sid = sid'" unfolding store_inv_def store_get_def by (metis option.inject)
qed (auto simp: store_inv_terminate store_create_Inr session_simps store_get_create store_resolveToken_iff)

end
