(* ===== verification/Session_Inbox.thy ===== *)
theory Session_Inbox
  imports Js_Value
begin

text \<open>
  The long-poll inbox of \<^verbatim>\<open>packages/session-inmemory/src/inbox.ts\<close>. A blocked
  \<^verbatim>\<open>claim\<close> is a waiter: its promise is a number, its timer is the event
  \<open>claim_timeout\<close>. Every operation returns the promises it resolves, in the order in which it
  resolves them.
\<close>

section \<open>Data\<close>

datatype decision_outcome = Approved | Dismissed

datatype inbox_entry =
    UserMessage (ie_payload: jsval) (ie_msgReqId: string)
  | Cancel
  | Interrupt
  | DecisionResolved (ie_decisionId: string) (ie_outcome: decision_outcome) (ie_note: string)
      (ie_reqId: "string option")

datatype claim_result =
    ClaimUserMessage (cr_payload: jsval) (cr_reqId: string) (cr_cursor: nat)
  | ClaimCancel (cr_cursor: nat)
  | ClaimInterrupt (cr_cursor: nat)
  | ClaimDecisionResolved (cr_decisionId: string) (cr_outcome: decision_outcome) (cr_note: string)
      (cr_optReqId: "string option") (cr_cursor: nat)
  | ClaimTimeout (cr_cursor: nat)

text \<open>The closure \<^verbatim>\<open>wake\<close>: the promise it resolves and the cursor it captured.\<close>

record waiter =
  wt_id :: nat
  wt_cursor :: nat

record per_session =
  ps_entries :: "inbox_entry list"
  ps_waiters :: "waiter list"
  ps_terminated :: bool

record inbox =
  ib_sessions :: "(string, per_session) jsmap"
  ib_next :: nat

text \<open>A resolved promise: the session and the waiter of the claim, and the result.\<close>

type_synonym resolution = "string \<times> waiter \<times> claim_result"

section \<open>Operations\<close>

definition createInbox :: inbox where
  "createInbox = \<lparr>ib_sessions = [], ib_next = 0\<rparr>"

definition fresh_session :: per_session where
  "fresh_session = \<lparr>ps_entries = [], ps_waiters = [], ps_terminated = False\<rparr>"

definition getOrCreate :: "string \<Rightarrow> inbox \<Rightarrow> per_session \<times> inbox" where
  "getOrCreate sid ib =
     (case js_get (ib_sessions ib) sid of
        Some p \<Rightarrow> (p, ib)
      | None \<Rightarrow> (fresh_session, ib\<lparr>ib_sessions := js_set sid fresh_session (ib_sessions ib)\<rparr>))"

fun deliver :: "inbox_entry \<Rightarrow> nat \<Rightarrow> claim_result" where
  "deliver (UserMessage payload reqId) cursor = ClaimUserMessage payload reqId (cursor + 1)"
| "deliver (DecisionResolved did out note reqId) cursor =
     ClaimDecisionResolved did out note reqId (cursor + 1)"
| "deliver Interrupt cursor = ClaimInterrupt (cursor + 1)"
| "deliver Cancel cursor = ClaimCancel (cursor + 1)"

text \<open>\<^verbatim>\<open>entries[cursor]\<close>, \<^verbatim>\<open>undefined\<close> past the end.\<close>

definition entry_at :: "per_session \<Rightarrow> nat \<Rightarrow> inbox_entry option" where
  "entry_at p cursor = (if cursor < length (ps_entries p) then Some (ps_entries p ! cursor) else None)"

text \<open>\<^verbatim>\<open>finish\<close>: the first settlement counts, and it removes the waiter.\<close>

definition finish :: "waiter \<Rightarrow> claim_result \<Rightarrow> per_session \<Rightarrow> per_session \<times> (waiter \<times> claim_result) list" where
  "finish w res p =
     (if w \<in> set (ps_waiters p)
      then (p\<lparr>ps_waiters := [v \<leftarrow> ps_waiters p. v \<noteq> w]\<rparr>, [(w, res)])
      else (p, []))"

definition wake :: "waiter \<Rightarrow> per_session \<Rightarrow> per_session \<times> (waiter \<times> claim_result) list" where
  "wake w p =
     (case entry_at p (wt_cursor w) of
        Some e \<Rightarrow> finish w (deliver e (wt_cursor w)) p
      | None \<Rightarrow> finish w (ClaimTimeout (wt_cursor w)) p)"

fun wake_all :: "waiter list \<Rightarrow> per_session \<Rightarrow> per_session \<times> (waiter \<times> claim_result) list" where
  "wake_all [] p = (p, [])"
| "wake_all (w # ws) p =
     (let (p1, r1) = wake w p; (p2, r2) = wake_all ws p1 in (p2, r1 @ r2))"

definition put_session :: "string \<Rightarrow> per_session \<Rightarrow> inbox \<Rightarrow> inbox" where
  "put_session sid p ib = ib\<lparr>ib_sessions := js_set sid p (ib_sessions ib)\<rparr>"

definition inbox_queue :: "string \<Rightarrow> inbox_entry \<Rightarrow> inbox \<Rightarrow> inbox \<times> nat \<times> resolution list" where
  "inbox_queue sid entry ib =
     (let (p, ib1) = getOrCreate sid ib;
          cursor = length (ps_entries p);
          p1 = p\<lparr>ps_entries := ps_entries p @ [entry]\<rparr>;
          (p2, woken) = wake_all (ps_waiters p1) p1
      in (put_session sid p2 ib1, cursor, List.map (Pair sid) woken))"

definition inbox_claim :: "string \<Rightarrow> nat \<Rightarrow> inbox \<Rightarrow> inbox \<times> nat \<times> resolution list" where
  "inbox_claim sid cursor ib =
     (let (p, ib1) = getOrCreate sid ib;
          w = \<lparr>wt_id = ib_next ib, wt_cursor = cursor\<rparr>;
          ib2 = ib1\<lparr>ib_next := Suc (ib_next ib)\<rparr>
      in case entry_at p cursor of
           Some e \<Rightarrow> (ib2, wt_id w, [(sid, w, deliver e cursor)])
         | None \<Rightarrow>
             if ps_terminated p then (ib2, wt_id w, [(sid, w, ClaimTimeout cursor)])
             else (put_session sid (p\<lparr>ps_waiters := ps_waiters p @ [w]\<rparr>) ib2, wt_id w, []))"

text \<open>The timer of a blocked claim; a cleared timer is the event that finds no waiter.\<close>

definition claim_timeout :: "string \<Rightarrow> waiter \<Rightarrow> inbox \<Rightarrow> inbox \<times> resolution list" where
  "claim_timeout sid w ib =
     (case js_get (ib_sessions ib) sid of
        None \<Rightarrow> (ib, [])
      | Some p \<Rightarrow>
          let (p1, r) = finish w (ClaimTimeout (wt_cursor w)) p
          in (put_session sid p1 ib, List.map (Pair sid) r))"

definition inbox_terminate :: "string \<Rightarrow> inbox \<Rightarrow> inbox \<times> resolution list" where
  "inbox_terminate sid ib =
     (case js_get (ib_sessions ib) sid of
        None \<Rightarrow> (ib, [])
      | Some p \<Rightarrow>
          let p1 = p\<lparr>ps_terminated := True\<rparr>;
              (p2, r) = wake_all (ps_waiters p1) p1
          in (put_session sid p2 ib, List.map (Pair sid) r))"

section \<open>Waking\<close>

lemma wake_waiters [simp]: "ps_waiters (fst (wake w p)) = [v \<leftarrow> ps_waiters p. v \<noteq> w]"
proof -
  have "w \<notin> set (ps_waiters p) \<Longrightarrow> [v \<leftarrow> ps_waiters p. v \<noteq> w] = ps_waiters p"
    by (auto intro: filter_True)
  then show ?thesis by (simp add: wake_def finish_def split: option.splits)
qed

lemma wake_entries [simp]: "ps_entries (fst (wake w p)) = ps_entries p"
  by (auto simp: wake_def finish_def split: option.splits)

lemma wake_terminated [simp]: "ps_terminated (fst (wake w p)) = ps_terminated p"
  by (auto simp: wake_def finish_def split: option.splits)

lemma entry_at_cong: "ps_entries p = ps_entries q \<Longrightarrow> entry_at p c = entry_at q c"
  by (simp add: entry_at_def)

text \<open>What a waiter of \<open>p\<close> is told when it is woken.\<close>

definition answer :: "per_session \<Rightarrow> nat \<Rightarrow> claim_result" where
  "answer p c = (case entry_at p c of Some e \<Rightarrow> deliver e c | None \<Rightarrow> ClaimTimeout c)"

lemma wake_result: "snd (wake w p) = (if w \<in> set (ps_waiters p) then [(w, answer p (wt_cursor w))] else [])"
  by (auto simp: wake_def finish_def answer_def split: option.splits)

lemma answer_cong: "ps_entries p = ps_entries q \<Longrightarrow> answer p c = answer q c"
  by (simp add: answer_def entry_at_def)

lemma wake_all_spec:
  "distinct ws \<Longrightarrow> set ws \<subseteq> set (ps_waiters p) \<Longrightarrow>
     ps_entries (fst (wake_all ws p)) = ps_entries p \<and>
     ps_terminated (fst (wake_all ws p)) = ps_terminated p \<and>
     ps_waiters (fst (wake_all ws p)) = [v \<leftarrow> ps_waiters p. v \<notin> set ws] \<and>
     snd (wake_all ws p) = List.map (\<lambda>w. (w, answer p (wt_cursor w))) ws"
proof (induction ws arbitrary: p)
  case Nil
  then show ?case by simp
next
  case (Cons w ws)
  obtain p1 r1 where w: "wake w p = (p1, r1)" by force
  have "ps_waiters p1 = [v \<leftarrow> ps_waiters p. v \<noteq> w]" "ps_entries p1 = ps_entries p"
    "ps_terminated p1 = ps_terminated p" "r1 = [(w, answer p (wt_cursor w))]"
    using wake_waiters[of w p] wake_entries[of w p] wake_terminated[of w p] wake_result[of w p] w Cons.prems
    by simp_all
  moreover from this have "answer p1 = answer p" by (auto simp: answer_def entry_at_def)
  moreover have "set ws \<subseteq> set (ps_waiters p1)" using Cons.prems calculation(1) by auto
  moreover have "distinct ws" using Cons.prems by simp
  moreover obtain p2 r2 where rest: "wake_all ws p1 = (p2, r2)" by force
  ultimately have "ps_entries p2 = ps_entries p \<and> ps_terminated p2 = ps_terminated p \<and>
      ps_waiters p2 = [v \<leftarrow> [v \<leftarrow> ps_waiters p. v \<noteq> w]. v \<notin> set ws] \<and>
      r2 = List.map (\<lambda>w. (w, answer p (wt_cursor w))) ws \<and> r1 = [(w, answer p (wt_cursor w))]"
    using Cons.IH[of p1] by simp
  moreover have "[v \<leftarrow> [v \<leftarrow> ps_waiters p. v \<noteq> w]. v \<notin> set ws] = [v \<leftarrow> ps_waiters p. v \<notin> set (w # ws)]"
    unfolding filter_filter by (rule filter_cong) auto
  ultimately show ?case using w rest by simp
qed

lemma wake_all_waiters:
  assumes "distinct (ps_waiters p)"
  shows "wake_all (ps_waiters p) p =
    (p\<lparr>ps_waiters := []\<rparr>, List.map (\<lambda>w. (w, answer p (wt_cursor w))) (ps_waiters p))"
proof -
  have "fst (wake_all (ps_waiters p) p) = p\<lparr>ps_waiters := []\<rparr>"
    using wake_all_spec[OF assms subset_refl] by (intro per_session.equality) simp_all
  with wake_all_spec[OF assms subset_refl] show ?thesis by (metis prod.collapse)
qed

section \<open>Sessions of the inbox\<close>

definition session_of :: "inbox \<Rightarrow> string \<Rightarrow> per_session" where
  "session_of ib sid = (case js_get (ib_sessions ib) sid of Some p \<Rightarrow> p | None \<Rightarrow> fresh_session)"

lemma session_of_put [simp]:
  "session_of (put_session sid p ib) s = (if s = sid then p else session_of ib s)"
  by (simp add: session_of_def put_session_def)

lemma session_of_next [simp]: "session_of (ib\<lparr>ib_next := n\<rparr>) s = session_of ib s"
  by (simp add: session_of_def)

lemma ib_next_put [simp]: "ib_next (put_session sid p ib) = ib_next ib"
  by (simp add: put_session_def)

lemma getOrCreate_session [simp]:
  "fst (getOrCreate sid ib) = session_of ib sid"
  "session_of (snd (getOrCreate sid ib)) s = session_of ib s"
  "ib_next (snd (getOrCreate sid ib)) = ib_next ib"
  by (auto simp: getOrCreate_def session_of_def split: option.splits)

text \<open>The waiters of a session are distinct promises, all older than the next one.\<close>

definition inbox_inv :: "inbox \<Rightarrow> bool" where
  "inbox_inv ib \<longleftrightarrow>
     (\<forall>sid. distinct (List.map wt_id (ps_waiters (session_of ib sid)))) \<and>
     (\<forall>sid. \<forall>w \<in> set (ps_waiters (session_of ib sid)).
        wt_id w < ib_next ib \<and> entry_at (session_of ib sid) (wt_cursor w) = None \<and>
        \<not> ps_terminated (session_of ib sid)) \<and>
     (\<forall>sid sid' w w'. w \<in> set (ps_waiters (session_of ib sid)) \<longrightarrow>
        w' \<in> set (ps_waiters (session_of ib sid')) \<longrightarrow> wt_id w = wt_id w' \<longrightarrow> sid = sid')"

lemma inbox_inv_distinct: "inbox_inv ib \<Longrightarrow> distinct (ps_waiters (session_of ib sid))"
  by (meson distinct_map inbox_inv_def)

lemma inbox_inv_waiter:
  assumes "inbox_inv ib" "w \<in> set (ps_waiters (session_of ib sid))"
  shows "wt_id w < ib_next ib \<and> length (ps_entries (session_of ib sid)) \<le> wt_cursor w \<and>
    \<not> ps_terminated (session_of ib sid)"
proof -
  have "wt_id w < ib_next ib \<and> entry_at (session_of ib sid) (wt_cursor w) = None \<and>
      \<not> ps_terminated (session_of ib sid)" using assms unfolding inbox_inv_def by blast
  then show ?thesis by (auto simp: entry_at_def split: if_splits)
qed

lemma session_of_init [simp]: "session_of createInbox sid = fresh_session"
  by (simp add: session_of_def createInbox_def)

lemma fresh_session_sel [simp]:
  "ps_entries fresh_session = []" "ps_waiters fresh_session = []" "ps_terminated fresh_session = False"
  by (simp_all add: fresh_session_def)

lemma inbox_inv_init [simp]: "inbox_inv createInbox"
  by (simp add: inbox_inv_def)

section \<open>The operations on a session\<close>

lemma session_split:
  "session_of ib s = p \<Longrightarrow> session_of (put_session s p' ib) s = p'"
  by simp

lemma inbox_queue_spec:
  assumes "inbox_inv ib" and "inbox_queue sid e ib = (ib', c, res)"
  shows "c = length (ps_entries (session_of ib sid)) \<and> ib_next ib' = ib_next ib \<and>
    session_of ib' s = (if s = sid
      then (session_of ib sid)\<lparr>ps_entries := ps_entries (session_of ib sid) @ [e], ps_waiters := []\<rparr>
      else session_of ib s) \<and>
    res = List.map (\<lambda>w. (sid, w, if wt_cursor w = c then deliver e c else ClaimTimeout (wt_cursor w)))
      (ps_waiters (session_of ib sid))"
proof -
  let ?p = "session_of ib sid" and ?p1 = "(session_of ib sid)\<lparr>ps_entries := ps_entries (session_of ib sid) @ [e]\<rparr>"
  obtain ib1 where g: "getOrCreate sid ib = (?p, ib1)" by (metis getOrCreate_session(1) prod.collapse)
  have ib1: "session_of ib1 s = session_of ib s" "ib_next ib1 = ib_next ib" for s
    using g by (metis getOrCreate_session(2,3) snd_conv)+
  have "distinct (ps_waiters ?p1)" using inbox_inv_distinct[OF assms(1), of sid] by simp
  from wake_all_waiters[OF this] have wa: "wake_all (ps_waiters ?p) ?p1 =
      (?p1\<lparr>ps_waiters := []\<rparr>, List.map (\<lambda>w. (w, answer ?p1 (wt_cursor w))) (ps_waiters ?p))" by simp
  have "answer ?p1 (wt_cursor w) = (if wt_cursor w = length (ps_entries ?p) then deliver e (wt_cursor w)
      else ClaimTimeout (wt_cursor w))" if "w \<in> set (ps_waiters ?p)" for w
    using inbox_inv_waiter[OF assms(1) that] by (auto simp: answer_def entry_at_def nth_append)
  then have "List.map (Pair sid) (List.map (\<lambda>w. (w, answer ?p1 (wt_cursor w))) (ps_waiters ?p)) =
      List.map (\<lambda>w. (sid, w, if wt_cursor w = length (ps_entries ?p) then deliver e (length (ps_entries ?p))
        else ClaimTimeout (wt_cursor w))) (ps_waiters ?p)" by auto
  with assms(2) show ?thesis unfolding inbox_queue_def g wa by (auto simp: Let_def wa ib1)
qed

lemma inbox_claim_spec:
  assumes "inbox_claim sid cursor ib = (ib', n, res)"
  defines "w \<equiv> \<lparr>wt_id = ib_next ib, wt_cursor = cursor\<rparr>" and "p \<equiv> session_of ib sid"
  shows "n = ib_next ib \<and> ib_next ib' = Suc n \<and>
    session_of ib' s = (if s = sid \<and> entry_at p cursor = None \<and> \<not> ps_terminated p
      then p\<lparr>ps_waiters := ps_waiters p @ [w]\<rparr> else session_of ib s) \<and>
    res = (if entry_at p cursor = None \<and> \<not> ps_terminated p then [] else [(sid, w, answer p cursor)])"
proof -
  obtain ib1 where g: "getOrCreate sid ib = (p, ib1)"
    by (metis getOrCreate_session(1) p_def prod.collapse)
  have ib1: "session_of ib1 s = session_of ib s" for s
    using g by (metis getOrCreate_session(2) snd_conv)
  with assms(1) show ?thesis
    by (auto simp: inbox_claim_def g Let_def answer_def w_def p_def split: option.splits if_splits)
qed

lemma claim_timeout_spec:
  assumes "claim_timeout sid w ib = (ib', res)"
  defines "p \<equiv> session_of ib sid"
  shows "ib_next ib' = ib_next ib \<and>
    session_of ib' s = (if s = sid then p\<lparr>ps_waiters := [v \<leftarrow> ps_waiters p. v \<noteq> w]\<rparr> else session_of ib s) \<and>
    res = (if w \<in> set (ps_waiters p) then [(sid, w, ClaimTimeout (wt_cursor w))] else [])"
proof (cases "js_get (ib_sessions ib) sid")
  case None
  then have "p = fresh_session" by (simp add: p_def session_of_def)
  with None assms(1) show ?thesis by (auto simp: claim_timeout_def session_of_def fresh_session_def)
next
  case (Some q)
  then have q: "p = q" by (simp add: p_def session_of_def)
  have "w \<notin> set (ps_waiters q) \<Longrightarrow> [v \<leftarrow> ps_waiters q. v \<noteq> w] = ps_waiters q"
    by (auto intro: filter_True)
  then show ?thesis using assms(1) Some
    by (auto simp: q claim_timeout_def finish_def Let_def)
qed

lemma inbox_terminate_spec:
  assumes "inbox_inv ib" and "inbox_terminate sid ib = (ib', res)"
  shows "ib_next ib' = ib_next ib \<and>
    session_of ib' s = (if s = sid \<and> js_get (ib_sessions ib) sid \<noteq> None
      then (session_of ib sid)\<lparr>ps_terminated := True, ps_waiters := []\<rparr> else session_of ib s) \<and>
    res = List.map (\<lambda>w. (sid, w, ClaimTimeout (wt_cursor w))) (ps_waiters (session_of ib sid))"
proof (cases "js_get (ib_sessions ib) sid")
  case None
  then have "session_of ib sid = fresh_session" by (simp add: session_of_def)
  with None assms(2) show ?thesis by (simp add: inbox_terminate_def)
next
  case (Some p)
  then have p: "session_of ib sid = p" by (simp add: session_of_def)
  let ?p1 = "p\<lparr>ps_terminated := True\<rparr>"
  have "distinct (ps_waiters ?p1)" using inbox_inv_distinct[OF assms(1), of sid] p by simp
  from wake_all_waiters[OF this] have wa: "wake_all (ps_waiters p) ?p1 =
      (?p1\<lparr>ps_waiters := []\<rparr>, List.map (\<lambda>w. (w, answer ?p1 (wt_cursor w))) (ps_waiters p))" by simp
  have "answer ?p1 (wt_cursor w) = ClaimTimeout (wt_cursor w)" if "w \<in> set (ps_waiters p)" for w
    using inbox_inv_waiter[OF assms(1), of w sid] that p by (simp add: answer_def entry_at_def)
  then have "List.map (Pair sid) (List.map (\<lambda>w. (w, answer ?p1 (wt_cursor w))) (ps_waiters p)) =
      List.map (\<lambda>w. (sid, w, ClaimTimeout (wt_cursor w))) (ps_waiters p)" by auto
  with assms(2) Some p show ?thesis by (auto simp: inbox_terminate_def Let_def wa)
qed

section \<open>Runs\<close>

datatype inbox_op =
    OpQueue string inbox_entry
  | OpClaim string nat
  | OpTimer string waiter
  | OpTerminate string

fun inbox_step :: "inbox_op \<Rightarrow> inbox \<Rightarrow> inbox \<times> resolution list" where
  "inbox_step (OpQueue sid e) ib = (let (ib', _, r) = inbox_queue sid e ib in (ib', r))"
| "inbox_step (OpClaim sid c) ib = (let (ib', _, r) = inbox_claim sid c ib in (ib', r))"
| "inbox_step (OpTimer sid w) ib = claim_timeout sid w ib"
| "inbox_step (OpTerminate sid) ib = inbox_terminate sid ib"

fun inbox_run :: "inbox_op list \<Rightarrow> inbox \<Rightarrow> inbox \<times> resolution list" where
  "inbox_run [] ib = (ib, [])"
| "inbox_run (op # ops) ib =
     (let (ib1, r1) = inbox_step op ib; (ib2, r2) = inbox_run ops ib1 in (ib2, r1 @ r2))"

text \<open>The entries queued to a session, in order: the specification of its log.\<close>

fun queued :: "string \<Rightarrow> inbox_op list \<Rightarrow> inbox_entry list" where
  "queued sid [] = []"
| "queued sid (OpQueue s e # ops) = (if s = sid then e # queued sid ops else queued sid ops)"
| "queued sid (_ # ops) = queued sid ops"

lemma queued_append [simp]: "queued sid (xs @ ys) = queued sid xs @ queued sid ys"
  by (induction sid xs rule: queued.induct) auto

lemma inbox_run_append:
  "inbox_run (xs @ ys) ib =
     (let (ib1, r1) = inbox_run xs ib; (ib2, r2) = inbox_run ys ib1 in (ib2, r1 @ r2))"
  by (induction xs arbitrary: ib) (auto simp: Let_def split: prod.splits)

text \<open>The promises still blocked.\<close>

definition pending :: "inbox \<Rightarrow> nat \<Rightarrow> bool" where
  "pending ib n \<longleftrightarrow> (\<exists>sid. \<exists>w \<in> set (ps_waiters (session_of ib sid)). wt_id w = n)"

lemma inbox_step_entries:
  assumes "inbox_inv ib" "inbox_step op ib = (ib', res)"
  shows "ps_entries (session_of ib' sid) = ps_entries (session_of ib sid) @ queued sid [op]"
proof (cases op)
  case (OpQueue s e)
  then obtain c where "inbox_queue s e ib = (ib', c, res)" using assms(2) by (auto split: prod.splits)
  from inbox_queue_spec[OF assms(1) this, of sid] OpQueue show ?thesis by simp
next
  case (OpClaim s c)
  then obtain n where "inbox_claim s c ib = (ib', n, res)" using assms(2) by (auto split: prod.splits)
  from inbox_claim_spec[OF this, of sid] OpClaim show ?thesis by simp
next
  case (OpTimer s w)
  with assms(2) have "claim_timeout s w ib = (ib', res)" by simp
  from claim_timeout_spec[OF this, of sid] OpTimer show ?thesis by simp
next
  case (OpTerminate s)
  with assms(2) have "inbox_terminate s ib = (ib', res)" by simp
  from inbox_terminate_spec[OF assms(1) this, of sid] OpTerminate show ?thesis by simp
qed

section \<open>Every promise settles at most once\<close>

definition promise_ids :: "resolution list \<Rightarrow> nat list" where
  "promise_ids rs = List.map (\<lambda>(_, w, _). wt_id w) rs"

lemma promise_ids_simps [simp]:
  "promise_ids [] = []" "promise_ids ((s, w, x) # rs) = wt_id w # promise_ids rs"
  "promise_ids (rs @ rs') = promise_ids rs @ promise_ids rs'"
  by (auto simp: promise_ids_def)

lemma promise_ids_waiters [simp]:
  "promise_ids (List.map (\<lambda>w. (s, w, f w)) ws) = List.map wt_id ws"
  by (simp add: promise_ids_def comp_def)

lemma count_list_distinct: "distinct xs \<Longrightarrow> count_list xs x = (if x \<in> set xs then 1 else 0)"
  by (induction xs) auto

definition owed :: "inbox \<Rightarrow> nat \<Rightarrow> nat" where
  "owed ib n = (if pending ib n then 1 else 0)"

text \<open>A session whose waiters are all settled gives up exactly their promises.\<close>

lemma flush_session:
  assumes inv: "inbox_inv ib" and next': "ib_next ib' = ib_next ib"
    and s': "\<And>s. session_of ib' s = (if s = sid then p else session_of ib s)"
    and p: "ps_waiters p = [w \<leftarrow> ps_waiters (session_of ib sid). w \<notin> set gone]"
    and gone: "set gone \<subseteq> set (ps_waiters (session_of ib sid))" "distinct (List.map wt_id gone)"
    and stays: "ps_waiters p \<noteq> [] \<Longrightarrow> ps_entries p = ps_entries (session_of ib sid) \<and> \<not> ps_terminated p"
  shows "inbox_inv ib' \<and> (\<forall>n. count_list (List.map wt_id gone) n + owed ib' n = owed ib n)"
proof -
  have sub: "set (ps_waiters (session_of ib' s)) \<subseteq> set (ps_waiters (session_of ib s))" for s
    using s' p by auto
  have uniq: "s = s'" if "w \<in> set (ps_waiters (session_of ib s))" "w' \<in> set (ps_waiters (session_of ib s'))"
    "wt_id w = wt_id w'" for s s' w w'
    using inv that unfolding inbox_inv_def by blast
  have inj: "w = w'" if "w \<in> set (ps_waiters (session_of ib s))" "w' \<in> set (ps_waiters (session_of ib s))"
    "wt_id w = wt_id w'" for s w w'
    using inv that unfolding inbox_inv_def by (metis distinct_map inj_onD)
  have "distinct (List.map wt_id (ps_waiters (session_of ib' s)))" for s
    using inv s' p by (simp add: inbox_inv_def distinct_map_filter)
  moreover have "wt_id w < ib_next ib' \<and> entry_at (session_of ib' s) (wt_cursor w) = None \<and>
      \<not> ps_terminated (session_of ib' s)" if "w \<in> set (ps_waiters (session_of ib' s))" for s w
  proof -
    have "w \<in> set (ps_waiters (session_of ib s))" using that sub by blast
    moreover from this have "entry_at (session_of ib s) (wt_cursor w) = None"
      using inv by (simp add: inbox_inv_def)
    moreover have "s = sid \<Longrightarrow> ps_waiters p \<noteq> []" using that s' by auto
    ultimately show ?thesis
      using inbox_inv_waiter[OF inv, of w s] stays s' next' by (auto simp: entry_at_def)
  qed
  ultimately have inv': "inbox_inv ib'" unfolding inbox_inv_def using uniq sub by blast
  have kept: "w \<in> set (ps_waiters (session_of ib' s)) \<or> w \<in> set gone"
    if "w \<in> set (ps_waiters (session_of ib s))" for s w
    using that p by (auto simp: s')
  have "pending ib n \<longleftrightarrow> pending ib' n \<or> n \<in> wt_id ` set gone" for n
    using kept gone(1) sub unfolding pending_def by blast
  moreover have "\<not> (pending ib' n \<and> n \<in> wt_id ` set gone)" for n
  proof
    assume "pending ib' n \<and> n \<in> wt_id ` set gone"
    then obtain s w g where w: "w \<in> set (ps_waiters (session_of ib' s))" "wt_id w = n"
      and g: "g \<in> set gone" "wt_id g = n" by (auto simp: pending_def)
    have "s = sid" using uniq[of w s g sid] w g gone(1) sub[of s] by auto
    moreover from this have "w = g" using inj[of w sid g] w g gone(1) sub[of s] by auto
    ultimately show False using w(1) g(1) s' p by simp
  qed
  ultimately have "count_list (List.map wt_id gone) n + owed ib' n = owed ib n" for n
    by (auto simp: owed_def count_list_distinct[OF gone(2)])
  with inv' show ?thesis by blast
qed

text \<open>The settlements an operation reports, in terms of the log after it.\<close>

definition answered_from :: "inbox \<Rightarrow> resolution \<Rightarrow> bool" where
  "answered_from ib r =
     (case r of (sid, w, x) \<Rightarrow>
        x = ClaimTimeout (wt_cursor w) \<or>
        (\<exists>e. entry_at (session_of ib sid) (wt_cursor w) = Some e \<and> x = deliver e (wt_cursor w)))"

lemma filter_none [simp]: "[w \<leftarrow> ws. w \<notin> set ws] = []"
  by (simp add: filter_empty_conv)

lemma inbox_step_sound:
  assumes inv: "inbox_inv ib" and step: "inbox_step op ib = (ib', res)"
  shows "inbox_inv ib' \<and> ib_next ib \<le> ib_next ib' \<and>
    (\<forall>n. count_list (promise_ids res) n + owed ib' n =
       owed ib n + (if ib_next ib \<le> n \<and> n < ib_next ib' then 1 else 0)) \<and>
    (\<forall>r \<in> set res. answered_from ib' r)"
proof (cases op)
  case (OpQueue sid e)
  let ?ws = "ps_waiters (session_of ib sid)"
  obtain c where q: "inbox_queue sid e ib = (ib', c, res)" using step OpQueue by (auto split: prod.splits)
  note s = inbox_queue_spec[OF inv q]
  have dist: "distinct (List.map wt_id ?ws)" using inv by (simp add: inbox_inv_def)
  have "inbox_inv ib' \<and> (\<forall>n. count_list (List.map wt_id ?ws) n + owed ib' n = owed ib n)"
    by (rule flush_session[OF inv, where sid = sid and p = "session_of ib' sid"])
      (use s dist in \<open>auto split: if_splits\<close>)
  moreover have "promise_ids res = List.map wt_id ?ws" using s by (simp only: promise_ids_waiters)
  moreover have "answered_from ib' r" if "r \<in> set res" for r
    using that s[of sid] by (auto simp: answered_from_def entry_at_def split: if_splits)
  ultimately show ?thesis using s by simp
next
  case (OpTerminate sid)
  let ?ws = "ps_waiters (session_of ib sid)"
  have t: "inbox_terminate sid ib = (ib', res)" using step OpTerminate by simp
  note s = inbox_terminate_spec[OF inv t]
  have dist: "distinct (List.map wt_id ?ws)" using inv by (simp add: inbox_inv_def)
  have none: "js_get (ib_sessions ib) sid = None \<Longrightarrow> session_of ib sid = fresh_session"
    by (simp add: session_of_def)
  have "inbox_inv ib' \<and> (\<forall>n. count_list (List.map wt_id ?ws) n + owed ib' n = owed ib n)"
    by (rule flush_session[OF inv, where sid = sid and p = "session_of ib' sid"])
      (use s dist none in \<open>auto split: if_splits\<close>)
  moreover have "promise_ids res = List.map wt_id ?ws" using s by (simp only: promise_ids_waiters)
  moreover have "answered_from ib' r" if "r \<in> set res" for r
    using that s[of sid] by (auto simp: answered_from_def)
  ultimately show ?thesis using s by simp
next
  case (OpTimer sid w)
  let ?gone = "if w \<in> set (ps_waiters (session_of ib sid)) then [w] else []"
  have t: "claim_timeout sid w ib = (ib', res)" using step OpTimer by simp
  note s = claim_timeout_spec[OF t]
  have "[v \<leftarrow> ps_waiters (session_of ib sid). v \<noteq> w] = [v \<leftarrow> ps_waiters (session_of ib sid). v \<notin> set ?gone]"
    by (rule filter_cong) auto
  moreover have "\<not> ps_terminated (session_of ib sid)"
    if "[v \<leftarrow> ps_waiters (session_of ib sid). v \<noteq> w] \<noteq> []"
  proof -
    from that obtain v where "v \<in> set (ps_waiters (session_of ib sid))"
      by (metis filter.simps(1) list.set_intros(1) neq_Nil_conv)
    with inbox_inv_waiter[OF inv] show ?thesis by blast
  qed
  ultimately have "inbox_inv ib' \<and> (\<forall>n. count_list (List.map wt_id ?gone) n + owed ib' n = owed ib n)"
    by (intro flush_session[OF inv, where sid = sid and p = "session_of ib' sid"]) (use s in auto)
  moreover have "promise_ids res = List.map wt_id ?gone" using s by simp
  moreover have "answered_from ib' r" if "r \<in> set res" for r
    using that s[of sid] by (auto simp: answered_from_def split: if_splits)
  ultimately show ?thesis using s by simp
next
  case (OpClaim sid c)
  let ?p = "session_of ib sid" and ?w = "\<lparr>wt_id = ib_next ib, wt_cursor = c\<rparr>"
  obtain n where q: "inbox_claim sid c ib = (ib', n, res)" using step OpClaim by (auto split: prod.splits)
  note s = inbox_claim_spec[OF q]
  have old: "wt_id w < ib_next ib" if "w \<in> set (ps_waiters (session_of ib s))" for s w
    using inbox_inv_waiter[OF inv that] by blast
  then have fresh: "\<not> pending ib m" if "ib_next ib \<le> m" for m
    using that by (fastforce simp: pending_def)
  show ?thesis
  proof (cases "entry_at ?p c = None \<and> \<not> ps_terminated ?p")
    case False
    then have same: "session_of ib' s = session_of ib s" for s using s[of s] by auto
    then have "pending ib' = pending ib" by (simp add: pending_def fun_eq_iff)
    moreover have "inbox_inv ib'" using inv s[of sid] old unfolding inbox_inv_def same by force
    moreover have "answered_from ib' r" if "r \<in> set res" for r
      using that s[of sid] False same by (auto simp: answered_from_def answer_def split: option.splits)
    ultimately show ?thesis using s[of sid] False fresh
      by (auto simp: owed_def)
  next
    case True
    then have new: "session_of ib' s = (if s = sid then ?p\<lparr>ps_waiters := ps_waiters ?p @ [?w]\<rparr>
        else session_of ib s)" for s using s[of s] by auto
    have grows: "set (ps_waiters (session_of ib s)) \<subseteq> set (ps_waiters (session_of ib' s))"
      "?w \<in> set (ps_waiters (session_of ib' sid))" for s
      by (auto simp: new)
    have pend: "pending ib' m \<longleftrightarrow> pending ib m \<or> m = ib_next ib" for m
    proof
      assume "pending ib' m"
      then show "pending ib m \<or> m = ib_next ib" by (auto simp: pending_def new split: if_splits)
    next
      assume "pending ib m \<or> m = ib_next ib"
      moreover have "wt_id ?w = ib_next ib" by simp
      ultimately show "pending ib' m" using grows unfolding pending_def by blast
    qed
    have "inbox_inv ib'"
      unfolding inbox_inv_def
    proof (intro conjI allI ballI impI)
      fix s
      have d: "distinct (List.map wt_id (ps_waiters (session_of ib s)))"
        using inv by (simp add: inbox_inv_def)
      have "ib_next ib \<notin> wt_id ` set (ps_waiters (session_of ib s))" using old by fastforce
      with d show "distinct (List.map wt_id (ps_waiters (session_of ib' s)))" by (auto simp: new)
    next
      fix s w
      assume w: "w \<in> set (ps_waiters (session_of ib' s))"
      show "wt_id w < ib_next ib'" using w old[of w s] s[of sid] by (auto simp: new split: if_splits)
      show "entry_at (session_of ib' s) (wt_cursor w) = None" "\<not> ps_terminated (session_of ib' s)"
        using w inbox_inv_waiter[OF inv, of w s] True by (auto simp: new entry_at_def split: if_splits)
    next
      fix s s' w w'
      assume "w \<in> set (ps_waiters (session_of ib' s))" "w' \<in> set (ps_waiters (session_of ib' s'))"
        "wt_id w = wt_id w'"
      moreover have "s = s'" if "w \<in> set (ps_waiters (session_of ib s))"
        "w' \<in> set (ps_waiters (session_of ib s'))" using inv that calculation(3) unfolding inbox_inv_def by blast
      ultimately show "s = s'" using old[of w s] old[of w' s'] by (auto simp: new split: if_splits)
    qed
    then show ?thesis using s[of sid] True fresh pend by (auto simp: owed_def)
  qed
qed

lemma answered_from_mono:
  assumes "answered_from ib r" and "\<And>s. prefix (ps_entries (session_of ib s)) (ps_entries (session_of ib' s))"
  shows "answered_from ib' r"
proof -
  obtain sid w x where r: "r = (sid, w, x)" by (cases r)
  have "entry_at (session_of ib' sid) c = Some e" if "entry_at (session_of ib sid) c = Some e" for c e
    using assms(2)[of sid] that by (auto simp: entry_at_def prefix_def nth_append split: if_splits)
  with assms(1) r show ?thesis by (auto simp: answered_from_def)
qed

lemma inbox_run_sound:
  "inbox_inv ib \<Longrightarrow> inbox_run ops ib = (ib', res) \<Longrightarrow>
     inbox_inv ib' \<and> ib_next ib \<le> ib_next ib' \<and>
     (\<forall>sid. ps_entries (session_of ib' sid) = ps_entries (session_of ib sid) @ queued sid ops) \<and>
     (\<forall>n. count_list (promise_ids res) n + owed ib' n =
        owed ib n + (if ib_next ib \<le> n \<and> n < ib_next ib' then 1 else 0)) \<and>
     (\<forall>r \<in> set res. answered_from ib' r)"
proof (induction ops arbitrary: ib res)
  case Nil
  then show ?case by simp
next
  case (Cons op ops)
  obtain ib1 r1 where s: "inbox_step op ib = (ib1, r1)" by force
  obtain r2 where rest: "inbox_run ops ib1 = (ib', r2)" and res: "res = r1 @ r2"
    using Cons.prems(2) s by (auto simp: Let_def split: prod.splits)
  note step = inbox_step_sound[OF Cons.prems(1) s]
  then have ih: "inbox_inv ib' \<and> ib_next ib1 \<le> ib_next ib' \<and>
     (\<forall>sid. ps_entries (session_of ib' sid) = ps_entries (session_of ib1 sid) @ queued sid ops) \<and>
     (\<forall>n. count_list (promise_ids r2) n + owed ib' n =
        owed ib1 n + (if ib_next ib1 \<le> n \<and> n < ib_next ib' then 1 else 0)) \<and>
     (\<forall>r \<in> set r2. answered_from ib' r)"
    using Cons.IH[OF _ rest] by blast
  have q: "queued sid (op # ops) = queued sid [op] @ queued sid ops" for sid
    using queued_append[of sid "[op]" ops] by simp
  have entries: "ps_entries (session_of ib' sid) = ps_entries (session_of ib sid) @ queued sid (op # ops)" for sid
    using ih inbox_step_entries[OF Cons.prems(1) s, of sid] by (simp only: q append_assoc)
  have "count_list (promise_ids res) n + owed ib' n =
      owed ib n + (if ib_next ib \<le> n \<and> n < ib_next ib' then 1 else 0)" for n
  proof -
    have "count_list (promise_ids r1) n + owed ib1 n =
        owed ib n + (if ib_next ib \<le> n \<and> n < ib_next ib1 then 1 else 0)" using step by blast
    moreover have "count_list (promise_ids r2) n + owed ib' n =
        owed ib1 n + (if ib_next ib1 \<le> n \<and> n < ib_next ib' then 1 else 0)" using ih by blast
    moreover have "ib_next ib \<le> ib_next ib1" "ib_next ib1 \<le> ib_next ib'" using step ih by blast+
    ultimately show ?thesis by (auto simp: res split: if_splits)
  qed
  moreover have "answered_from ib' r" if "r \<in> set res" for r
  proof (cases "r \<in> set r1")
    case True
    with step have "answered_from ib1 r" by blast
    then show ?thesis by (rule answered_from_mono) (use ih in simp)
  qed (use that ih res in auto)
  ultimately show ?case using ih step entries by auto
qed

section \<open>The properties of the inbox\<close>

text \<open>C36. Whatever sequence of queues, claims, timers and terminations a fresh inbox sees, every
  claim's promise is either still blocked or was resolved exactly once, and no promise is resolved
  that was not handed out by a claim.\<close>

theorem claims_resolve_exactly_once:
  assumes "inbox_run ops createInbox = (ib, res)"
  shows "count_list (promise_ids res) n =
    (if n < ib_next ib \<and> \<not> pending ib n then 1 else 0) \<and> (pending ib n \<longrightarrow> n < ib_next ib)"
proof -
  have "\<not> pending createInbox n" by (simp add: pending_def)
  moreover have "ib_next createInbox = 0" by (simp add: createInbox_def)
  ultimately have acc: "count_list (promise_ids res) n + owed ib n = (if n < ib_next ib then 1 else 0)"
    using inbox_run_sound[OF inbox_inv_init assms] by (simp add: owed_def)
  moreover have "pending ib n \<longrightarrow> n < ib_next ib"
    using inbox_run_sound[OF inbox_inv_init assms] inbox_inv_waiter by (force simp: pending_def)
  ultimately show ?thesis by (auto simp: owed_def split: if_splits)
qed

definition demo_entry :: inbox_entry where
  "demo_entry = UserMessage (JStr ''hi'') ''r1''"

lemmas inbox_eval = createInbox_def inbox_queue_def inbox_claim_def claim_timeout_def inbox_terminate_def
  getOrCreate_def put_session_def finish_def wake_def entry_at_def fresh_session_def Let_def demo_entry_def

theorem claims_resolve_exactly_once_witness:
  "\<exists>ib res. inbox_run [OpClaim ''s'' 0, OpQueue ''s'' demo_entry] createInbox = (ib, res) \<and>
     count_list (promise_ids res) 0 = 1"
proof -
  have "\<exists>ib res. inbox_run [OpClaim ''s'' 0, OpQueue ''s'' demo_entry] createInbox = (ib, res) \<and>
      ib_next ib = 1 \<and> \<not> pending ib 0"
    by (simp add: inbox_eval pending_def session_of_def)
  then obtain ib res where r: "inbox_run [OpClaim ''s'' 0, OpQueue ''s'' demo_entry] createInbox = (ib, res)"
      "ib_next ib = 1" "\<not> pending ib 0" by blast
  from claims_resolve_exactly_once[OF r(1), of 0] r show ?thesis by auto
qed

text \<open>Delivery is by position: a claim that is not a timeout is answered with the entry that
  was queued to its session at its cursor, and advances the cursor by one, whatever
  interleaving of operations came before or after.\<close>

theorem claims_answered_from_the_queue:
  assumes "inbox_run ops createInbox = (ib, res)" and "(sid, w, x) \<in> set res"
  shows "x = ClaimTimeout (wt_cursor w) \<or>
    (wt_cursor w < length (queued sid ops) \<and> x = deliver (queued sid ops ! wt_cursor w) (wt_cursor w))"
proof -
  have "answered_from ib (sid, w, x)" and "ps_entries (session_of ib sid) = queued sid ops"
    using inbox_run_sound[OF inbox_inv_init assms(1)] assms(2) by auto
  then show ?thesis by (auto simp: answered_from_def entry_at_def split: if_splits)
qed

theorem claims_answered_from_the_queue_witness:
  "snd (inbox_run [OpQueue ''s'' Cancel, OpQueue ''s'' demo_entry, OpClaim ''s'' 1] createInbox) =
     [(''s'', \<lparr>wt_id = 0, wt_cursor = 1\<rparr>, ClaimUserMessage (JStr ''hi'') ''r1'' 2)]"
proof -
  let ?ops = "[OpQueue ''s'' Cancel, OpQueue ''s'' demo_entry, OpClaim ''s'' 1]"
  let ?w = "\<lparr>wt_id = 0, wt_cursor = 1\<rparr>"
  have "\<exists>ib x. inbox_run ?ops createInbox = (ib, [(''s'', ?w, x)]) \<and> x \<noteq> ClaimTimeout 1"
    by (simp add: inbox_eval)
  then obtain ib x where r: "inbox_run ?ops createInbox = (ib, [(''s'', ?w, x)])" "x \<noteq> ClaimTimeout 1" by blast
  from claims_answered_from_the_queue[OF r(1), of "''s''" ?w x] r show ?thesis
    by (simp add: demo_entry_def)
qed

text \<open>Waking: queueing an entry answers every blocked claim of the session (the claim at the
  new cursor with the entry, any other with a timeout that keeps its cursor), terminating a
  materialised session answers every blocked claim with a timeout, and both leave no claim of
  that session blocked.\<close>

theorem queue_and_terminate_wake_everyone:
  assumes "inbox_run ops createInbox = (ib, res)"
    and "inbox_queue sid e ib = (ib1, c, woken1)" and "inbox_terminate sid ib = (ib2, woken2)"
  shows "c = length (queued sid ops) \<and>
      ps_waiters (session_of ib1 sid) = [] \<and> ps_waiters (session_of ib2 sid) = [] \<and>
      woken1 = List.map (\<lambda>w. (sid, w, if wt_cursor w = c then deliver e c else ClaimTimeout (wt_cursor w)))
        (ps_waiters (session_of ib sid)) \<and>
      woken2 = List.map (\<lambda>w. (sid, w, ClaimTimeout (wt_cursor w))) (ps_waiters (session_of ib sid))"
proof -
  have inv: "inbox_inv ib" and log: "ps_entries (session_of ib sid) = queued sid ops"
    using inbox_run_sound[OF inbox_inv_init assms(1)] by auto
  have "ps_waiters (session_of ib2 sid) = []"
    using inbox_terminate_spec[OF inv assms(3), of sid] by (auto simp: session_of_def)
  with inbox_queue_spec[OF inv assms(2), of sid] inbox_terminate_spec[OF inv assms(3), of sid] log
  show ?thesis by simp
qed

theorem queue_and_terminate_wake_everyone_witness:
  "\<exists>ib c r. inbox_queue ''s'' demo_entry (fst (inbox_run [OpClaim ''s'' 0, OpClaim ''s'' 5] createInbox)) =
     (ib, c, [(''s'', \<lparr>wt_id = 0, wt_cursor = 0\<rparr>, r), (''s'', \<lparr>wt_id = 1, wt_cursor = 5\<rparr>, ClaimTimeout 5)]) \<and>
     r = ClaimUserMessage (JStr ''hi'') ''r1'' 1"
proof -
  let ?ops = "[OpClaim ''s'' 0, OpClaim ''s'' 5]"
  let ?ib = "fst (inbox_run ?ops createInbox)"
  obtain res where run: "inbox_run ?ops createInbox = (?ib, res)" by (metis prod.collapse)
  obtain ib1 c w1 where q: "inbox_queue ''s'' demo_entry ?ib = (ib1, c, w1)" by (metis prod_cases3)
  obtain ib2 w2 where t: "inbox_terminate ''s'' ?ib = (ib2, w2)" by (metis prod.collapse)
  have "ps_waiters (session_of ?ib ''s'') = [\<lparr>wt_id = 0, wt_cursor = 0\<rparr>, \<lparr>wt_id = 1, wt_cursor = 5\<rparr>]"
    by (simp add: inbox_eval session_of_def)
  with queue_and_terminate_wake_everyone[OF run q t] q show ?thesis by (simp add: demo_entry_def)
qed

section \<open>A session as an append-only log\<close>

text \<open>The contract a consumer relies on: what was pushed is read at the position \<open>push\<close> returned.\<close>

locale work_log =
  fixes push :: "'e \<Rightarrow> 's \<Rightarrow> 's \<times> nat"
    and read :: "'s \<Rightarrow> nat \<Rightarrow> 'r option"
    and reply :: "'e \<Rightarrow> nat \<Rightarrow> 'r"
    and size_of :: "'s \<Rightarrow> nat"
    and inv :: "'s \<Rightarrow> bool"
  assumes push_inv: "inv s \<Longrightarrow> inv (fst (push e s))"
    and push_pos: "inv s \<Longrightarrow> snd (push e s) = size_of s"
    and push_size: "inv s \<Longrightarrow> size_of (fst (push e s)) = Suc (size_of s)"
    and push_read: "inv s \<Longrightarrow> read (fst (push e s)) n =
      (if n = size_of s then Some (reply e n) else read s n)"
    and read_end: "inv s \<Longrightarrow> size_of s \<le> n \<Longrightarrow> read s n = None"
begin

lemma pushes:
  "inv s \<Longrightarrow> inv (fold (\<lambda>e s. fst (push e s)) es s) \<and>
     size_of (fold (\<lambda>e s. fst (push e s)) es s) = size_of s + length es"
  by (induction es arbitrary: s) (simp_all add: push_inv push_size)

lemma read_pushes:
  "inv s \<Longrightarrow> read (fold (\<lambda>e s. fst (push e s)) es s) n =
     (if size_of s \<le> n \<and> n < size_of s + length es then Some (reply (es ! (n - size_of s)) n) else read s n)"
proof (induction es arbitrary: s)
  case Nil
  then show ?case by auto
next
  case (Cons e es)
  then show ?case using push_inv[of s e] push_size[of s e] push_read[of s e n]
    by (auto simp: nth_Cons' not_less_eq_eq)
qed

end

definition inbox_push :: "string \<Rightarrow> inbox_entry \<Rightarrow> inbox \<Rightarrow> inbox \<times> nat" where
  "inbox_push sid e ib = (let (ib', c, _) = inbox_queue sid e ib in (ib', c))"

text \<open>The answer a claim gets at once, when it is an entry.\<close>

definition inbox_read :: "string \<Rightarrow> inbox \<Rightarrow> nat \<Rightarrow> claim_result option" where
  "inbox_read sid ib c =
     (case snd (snd (inbox_claim sid c ib)) of
        [(_, _, x)] \<Rightarrow> if x = ClaimTimeout c then None else Some x
      | _ \<Rightarrow> None)"

lemma deliver_not_timeout [simp]: "deliver e c \<noteq> ClaimTimeout c'"
  by (cases e) auto

lemma inbox_read_entry: "inbox_read sid ib c = map_option (\<lambda>e. deliver e c) (entry_at (session_of ib sid) c)"
proof -
  obtain ib' n res where q: "inbox_claim sid c ib = (ib', n, res)" by (metis prod_cases3)
  from inbox_claim_spec[OF q] q show ?thesis
    by (auto simp: inbox_read_def answer_def split: option.splits)
qed

interpretation wl: work_log "inbox_push sid" "inbox_read sid" deliver
    "\<lambda>ib. length (ps_entries (session_of ib sid))" inbox_inv for sid
proof unfold_locales
  fix ib e n
  assume inv: "inbox_inv ib"
  obtain ib' c res where q: "inbox_queue sid e ib = (ib', c, res)" by (metis prod_cases3)
  then have p: "inbox_push sid e ib = (ib', c)" by (simp add: inbox_push_def)
  have "inbox_step (OpQueue sid e) ib = (ib', res)" using q by simp
  from inbox_step_sound[OF inv this] p show "inbox_inv (fst (inbox_push sid e ib))" by simp
  note s = inbox_queue_spec[OF inv q, of sid]
  show "snd (inbox_push sid e ib) = length (ps_entries (session_of ib sid))"
    "length (ps_entries (session_of (fst (inbox_push sid e ib)) sid)) = Suc (length (ps_entries (session_of ib sid)))"
    "inbox_read sid (fst (inbox_push sid e ib)) n =
       (if n = length (ps_entries (session_of ib sid)) then Some (deliver e n) else inbox_read sid ib n)"
    using s p by (auto simp: inbox_read_entry entry_at_def nth_append)
qed (simp add: inbox_read_entry entry_at_def)

text \<open>First in, first out, without loss or repetition: a consumer that claims at cursors
  0, 1, 2, ... after \<open>es\<close> were queued is answered with the entries of \<open>es\<close> in order, each
  answer carrying the next cursor.\<close>

theorem consumer_reads_in_order:
  "List.map (inbox_read sid (fold (\<lambda>e ib. fst (inbox_push sid e ib)) es createInbox)) [0..<length es] =
     List.map (\<lambda>i. Some (deliver (es ! i) i)) [0..<length es] \<and>
   inbox_read sid (fold (\<lambda>e ib. fst (inbox_push sid e ib)) es createInbox) (length es) = None"
proof -
  have "inbox_read sid createInbox n = None" for n by (simp add: inbox_read_entry entry_at_def)
  then show ?thesis by (simp add: wl.read_pushes)
qed

end
