(* ===== verification/Session_Plugin.thy ===== *)
theory Session_Plugin
  imports Session_Store Session_Inbox
begin

text \<open>
  The session plugin of \<^verbatim>\<open>packages/session-inmemory/src/plugin.ts\<close>: the validators of its
  untyped inputs and the seven service handlers over the store and the inbox. A handler returns
  the new state, the effects it has beyond it (promises resolved, hooks fired) and its result.
\<close>

section \<open>Validators\<close>

definition invalid_payload :: "string \<Rightarrow> plugin_error" where
  "invalid_payload hookName = hook_err ''invalid-payload'' SESSION_PLUGIN hookName"

definition requireString :: "jsval \<Rightarrow> string \<Rightarrow> plugin_error + string" where
  "requireString v hookName =
     (case v of JStr s \<Rightarrow> if s = [] then Inl (invalid_payload hookName) else Inr s
      | _ \<Rightarrow> Inl (invalid_payload hookName))"

definition requireStringAllowEmpty :: "jsval \<Rightarrow> string \<Rightarrow> plugin_error + string" where
  "requireStringAllowEmpty v hookName = orThrow (as_string v) (invalid_payload hookName)"

definition requireOptionalString :: "jsval \<Rightarrow> string \<Rightarrow> plugin_error + string option" where
  "requireOptionalString v hookName =
     (if v = JUndef then Inr None
      else case v of JStr s \<Rightarrow> Inr (Some s) | _ \<Rightarrow> Inl (invalid_payload hookName))"

definition parseOptionalIdentity :: "jsval \<Rightarrow> string \<Rightarrow> plugin_error + agent_identity option" where
  "parseOptionalIdentity raw hookName =
     (if raw = JUndef then Inr None
      else if \<not> is_object raw then Inl (invalid_payload hookName)
      else case (as_string (js_field raw ''identity''), as_string (js_field raw ''soul''),
                 as_string (js_field raw ''instructions''), as_bool (js_field raw ''bootstrapMode'')) of
          (Some i, Some s, Some n, Some b) \<Rightarrow>
            Inr (Some \<lparr>ai_identity = i, ai_soul = s, ai_instructions = n, ai_bootstrapMode = b\<rparr>)
        | _ \<Rightarrow> Inl (invalid_payload hookName))"

definition optionalStringList :: "jsval \<Rightarrow> string \<Rightarrow> plugin_error + string list option" where
  "optionalStringList v hookName =
     (if v = JUndef then Inr None
      else andThen (orThrow (as_string_list v) (invalid_payload hookName)) (\<lambda>l. Inr (Some l)))"

definition validateAgentConfig :: "jsval \<Rightarrow> string \<Rightarrow> plugin_error + agent_config" where
  "validateAgentConfig cfg hookName =
     andThen (requireString (js_field cfg ''displayName'') hookName) (\<lambda>displayName.
     andThen (requireStringAllowEmpty (js_field cfg ''systemPromptAugment'') hookName) (\<lambda>augment.
     andThen (requireOptionalString (js_field cfg ''systemPromptBootstrapAugment'') hookName) (\<lambda>bootAugment.
     andThen (requireString (js_field cfg ''model'') hookName) (\<lambda>model.
     andThen (requireString (js_field cfg ''runner'') hookName) (\<lambda>runner.
     andThen (orThrow (as_string_list (js_field cfg ''allowedTools'')) (invalid_payload hookName)) (\<lambda>allowed.
     andThen (optionalStringList (js_field cfg ''disallowedTools'') hookName) (\<lambda>disallowed.
     andThen (orThrow (as_string_list (js_field cfg ''mcpConfigIds'')) (invalid_payload hookName)) (\<lambda>mcp.
     andThen (parseOptionalIdentity (js_field cfg ''identity'') hookName) (\<lambda>ident.
       Inr \<lparr>ac_displayName = displayName, ac_systemPromptAugment = augment,
            ac_systemPromptBootstrapAugment = bootAugment, ac_allowedTools = allowed,
            ac_disallowedTools = disallowed, ac_mcpConfigIds = mcp, ac_model = model,
            ac_runner = runner, ac_identity = ident\<rparr>)))))))))"

definition validateConversationId :: "jsval \<Rightarrow> string \<Rightarrow> plugin_error + string option" where
  "validateConversationId raw hookName =
     (if raw = JUndef \<or> raw = JNull then Inr None
      else case raw of
          JStr s \<Rightarrow> if s = [] then Inl (invalid_payload hookName)
                    else if 256 < length s then Inl (invalid_payload hookName)
                    else Inr (Some s)
        | _ \<Rightarrow> Inl (invalid_payload hookName))"

definition validateSource :: "jsval \<Rightarrow> string \<Rightarrow> plugin_error + session_source option" where
  "validateSource raw hookName =
     (if raw = JUndef \<or> raw = JNull then Inr None
      else if raw = JStr ''routine'' then Inr (Some SrcRoutine)
      else if raw = JStr ''user'' then Inr (Some SrcUser)
      else Inl (invalid_payload hookName))"

definition validateOwner :: "jsval \<Rightarrow> string \<Rightarrow> plugin_error + session_owner option" where
  "validateOwner raw hookName =
     (if raw = JUndef then Inr None
      else if \<not> is_object raw then Inl (invalid_payload hookName)
      else
        andThen (requireString (js_field raw ''userId'') hookName) (\<lambda>userId.
        andThen (requireString (js_field raw ''agentId'') hookName) (\<lambda>agentId.
        andThen (check (is_object (js_field raw ''agentConfig'')) (invalid_payload hookName)) (\<lambda>_.
        andThen (validateAgentConfig (js_field raw ''agentConfig'') hookName) (\<lambda>agentConfig.
        andThen (validateConversationId (js_field raw ''conversationId'') hookName) (\<lambda>conversationId.
        andThen (validateSource (js_field raw ''source'') hookName) (\<lambda>source.
          Inr (Some \<lparr>so_userId = userId, so_agentId = agentId, so_agentConfig = agentConfig,
                     so_conversationId = conversationId, so_source = source\<rparr>))))))))"

definition requireNonNegativeInt :: "jsval \<Rightarrow> string \<Rightarrow> plugin_error + nat" where
  "requireNonNegativeInt v hookName = orThrow (as_nonneg_int v) (invalid_payload hookName)"

definition VALID_ROLES :: "string list" where
  "VALID_ROLES = [''user'', ''assistant'']"

definition DECISION_NOTE_MAX :: nat where
  "DECISION_NOTE_MAX = 2000"

definition requireUserMessage :: "jsval \<Rightarrow> string \<Rightarrow> plugin_error + inbox_entry" where
  "requireUserMessage v hookName =
     (let payload = js_field v ''payload'' in
      if \<not> is_object payload \<or> as_string (js_field payload ''content'') = None
      then Inl (invalid_payload hookName)
      else case js_field payload ''role'' of
          JStr role \<Rightarrow>
            if role \<notin> set VALID_ROLES then Inl (invalid_payload hookName)
            else andThen (requireString (js_field v ''reqId'') hookName) (\<lambda>reqId.
                 Inr (UserMessage payload reqId))
        | _ \<Rightarrow> Inl (invalid_payload hookName))"

definition requireDecisionResolved :: "jsval \<Rightarrow> string \<Rightarrow> plugin_error + inbox_entry" where
  "requireDecisionResolved v hookName =
     andThen (requireString (js_field v ''decisionId'') hookName) (\<lambda>decisionId.
     andThen (if js_field v ''outcome'' = JStr ''approved'' then Inr Approved
              else if js_field v ''outcome'' = JStr ''dismissed'' then Inr Dismissed
              else Inl (invalid_payload hookName)) (\<lambda>outcome.
     andThen (requireString (js_field v ''note'') hookName) (\<lambda>note.
     andThen (check (length note \<le> DECISION_NOTE_MAX) (invalid_payload hookName)) (\<lambda>_.
     andThen (if js_field v ''reqId'' = JUndef then Inr None
              else andThen (requireString (js_field v ''reqId'') hookName) (\<lambda>r.
                   if 128 < length r then Inl (invalid_payload hookName) else Inr (Some r))) (\<lambda>reqId.
       Inr (DecisionResolved decisionId outcome note reqId))))))"

definition requireInboxEntry :: "jsval \<Rightarrow> string \<Rightarrow> plugin_error + inbox_entry" where
  "requireInboxEntry v hookName =
     (if \<not> is_object v then Inl (invalid_payload hookName)
      else if js_field v ''type'' = JStr ''user-message'' then requireUserMessage v hookName
      else if js_field v ''type'' = JStr ''cancel'' then Inr Cancel
      else if js_field v ''type'' = JStr ''interrupt'' then Inr Interrupt
      else if js_field v ''type'' = JStr ''decision-resolved'' then requireDecisionResolved v hookName
      else Inl (invalid_payload hookName))"

section \<open>Handlers\<close>

record session_plugin =
  sp_store :: session_store
  sp_inbox :: inbox

datatype session_effect =
    Settles resolution
  | Fires string string

definition createSessionInmemoryPlugin :: session_plugin where
  "createSessionInmemoryPlugin = \<lparr>sp_store = createSessionStore, sp_inbox = createInbox\<rparr>"

type_synonym 'a session_result = "session_plugin \<times> session_effect list \<times> (plugin_error + 'a)"

definition session_create :: "string \<Rightarrow> jsval \<Rightarrow> session_plugin \<Rightarrow> (string \<times> string) session_result" where
  "session_create token input st =
     (let hookName = ''session:create'' in
      case andThen (requireString (js_field input ''sessionId'') hookName) (\<lambda>sessionId.
           andThen (requireString (js_field input ''workspaceRoot'') hookName) (\<lambda>workspaceRoot.
           andThen (validateOwner (js_field input ''owner'') hookName) (\<lambda>validated.
             store_create token sessionId workspaceRoot validated (sp_store st)))) of
        Inl e \<Rightarrow> (st, [], Inl e)
      | Inr (r, store') \<Rightarrow> (st\<lparr>sp_store := store'\<rparr>, [], Inr (sr_sessionId r, sr_token r)))"

definition session_resolveToken :: "jsval \<Rightarrow> session_plugin \<Rightarrow> plugin_error + resolved_token option" where
  "session_resolveToken input st =
     andThen (requireString (js_field input ''token'') ''session:resolve-token'') (\<lambda>token.
       Inr (store_resolveToken (sp_store st) token))"

record session_config =
  sc_userId :: string
  sc_agentId :: string
  sc_agentConfig :: agent_config
  sc_conversationId :: "string option"

definition session_getConfig :: "string \<Rightarrow> session_plugin \<Rightarrow> plugin_error + session_config" where
  "session_getConfig ctxSessionId st =
     (let hookName = ''session:get-config'' in
      andThen (requireString (JStr ctxSessionId) hookName) (\<lambda>sessionId.
        case store_get (sp_store st) sessionId of
          None \<Rightarrow> Inl (hook_err UNKNOWN_SESSION SESSION_PLUGIN hookName)
        | Some r \<Rightarrow>
            if sr_terminated r then Inl (hook_err UNKNOWN_SESSION SESSION_PLUGIN hookName)
            else case (sr_userId r, sr_agentId r, sr_agentConfig r) of
                (Some u, Some a, Some c) \<Rightarrow>
                  Inr \<lparr>sc_userId = u, sc_agentId = a, sc_agentConfig = c,
                       sc_conversationId = sr_conversationId r\<rparr>
              | _ \<Rightarrow> Inl (hook_err ''owner-missing'' SESSION_PLUGIN hookName)))"

definition session_queueWork :: "jsval \<Rightarrow> session_plugin \<Rightarrow> nat session_result" where
  "session_queueWork input st =
     (let hookName = ''session:queue-work'' in
      case andThen (requireString (js_field input ''sessionId'') hookName) (\<lambda>sessionId.
           andThen (requireInboxEntry (js_field input ''entry'') hookName) (\<lambda>entry.
             case store_get (sp_store st) sessionId of
               None \<Rightarrow> Inl (hook_err UNKNOWN_SESSION SESSION_PLUGIN hookName)
             | Some r \<Rightarrow>
                 if sr_terminated r then Inl (hook_err UNKNOWN_SESSION SESSION_PLUGIN hookName)
                 else Inr (sessionId, entry))) of
        Inl e \<Rightarrow> (st, [], Inl e)
      | Inr (sessionId, entry) \<Rightarrow>
          let (ib, cursor, woken) = inbox_queue sessionId entry (sp_inbox st)
          in (st\<lparr>sp_inbox := ib\<rparr>, List.map Settles woken, Inr cursor))"

text \<open>The handler returns the promise of the claim, here its number.\<close>

definition session_claimWork :: "jsval \<Rightarrow> session_plugin \<Rightarrow> nat session_result" where
  "session_claimWork input st =
     (let hookName = ''session:claim-work'' in
      case andThen (requireString (js_field input ''sessionId'') hookName) (\<lambda>sessionId.
           andThen (requireNonNegativeInt (js_field input ''cursor'') hookName) (\<lambda>cursor.
           andThen (requireNonNegativeInt (js_field input ''timeoutMs'') hookName) (\<lambda>timeoutMs.
             case store_get (sp_store st) sessionId of
               None \<Rightarrow> Inl (hook_err UNKNOWN_SESSION SESSION_PLUGIN hookName)
             | Some r \<Rightarrow> Inr (sessionId, cursor)))) of
        Inl e \<Rightarrow> (st, [], Inl e)
      | Inr (sessionId, cursor) \<Rightarrow>
          let (ib, promise, settled) = inbox_claim sessionId cursor (sp_inbox st)
          in (st\<lparr>sp_inbox := ib\<rparr>, List.map Settles settled, Inr promise))"

definition session_terminate :: "jsval \<Rightarrow> session_plugin \<Rightarrow> unit session_result" where
  "session_terminate input st =
     (let hookName = ''session:terminate'' in
      case requireString (js_field input ''sessionId'') hookName of
        Inl e \<Rightarrow> (st, [], Inl e)
      | Inr sessionId \<Rightarrow>
          let store' = store_terminate sessionId (sp_store st);
              (ib, woken) = inbox_terminate sessionId (sp_inbox st)
          in (st\<lparr>sp_store := store', sp_inbox := ib\<rparr>,
              List.map Settles woken @ [Fires ''session:terminate'' sessionId], Inr ()))"

definition session_isAlive :: "jsval \<Rightarrow> session_plugin \<Rightarrow> plugin_error + bool" where
  "session_isAlive input st =
     andThen (requireString (js_field input ''sessionId'') ''session:is-alive'') (\<lambda>sessionId.
       Inr (case store_get (sp_store st) sessionId of None \<Rightarrow> False | Some r \<Rightarrow> \<not> sr_terminated r))"

section \<open>The output schema of a claim\<close>

text \<open>\<^verbatim>\<open>AgentMessageSchema\<close> and \<^verbatim>\<open>SessionClaimWorkOutputSchema\<close> of \<^verbatim>\<open>types.ts\<close>, which the bus
  checks every answer of \<^verbatim>\<open>session:claim-work\<close> against.\<close>

definition AgentMessageSchema :: "jsval \<Rightarrow> bool" where
  "AgentMessageSchema v \<longleftrightarrow>
     (case v of
        JObj _ \<Rightarrow>
          js_field v ''role'' \<in> {JStr ''user'', JStr ''assistant''} \<and>
          as_string (js_field v ''content'') \<noteq> None \<and>
          (case js_field v ''contentBlocks'' of JUndef \<Rightarrow> True | JArr _ \<Rightarrow> True | _ \<Rightarrow> False) \<and>
          (case js_field v ''turnId'' of JUndef \<Rightarrow> True | JStr _ \<Rightarrow> True | _ \<Rightarrow> False)
      | _ \<Rightarrow> False)"

fun SessionClaimWorkOutputSchema :: "claim_result \<Rightarrow> bool" where
  "SessionClaimWorkOutputSchema (ClaimUserMessage payload reqId cursor) = AgentMessageSchema payload"
| "SessionClaimWorkOutputSchema (ClaimCancel cursor) = True"
| "SessionClaimWorkOutputSchema (ClaimInterrupt cursor) = True"
| "SessionClaimWorkOutputSchema (ClaimDecisionResolved did outcome note reqId cursor) =
     (case reqId of None \<Rightarrow> True | Some r \<Rightarrow> 1 \<le> length r \<and> length r \<le> 128)"
| "SessionClaimWorkOutputSchema (ClaimTimeout cursor) = True"

text \<open>What the validator does not look at: the optional fields of a user message.\<close>

fun optional_fields_ok :: "inbox_entry \<Rightarrow> bool" where
  "optional_fields_ok (UserMessage payload _) =
     ((case js_field payload ''contentBlocks'' of JUndef \<Rightarrow> True | JArr _ \<Rightarrow> True | _ \<Rightarrow> False) \<and>
      (case js_field payload ''turnId'' of JUndef \<Rightarrow> True | JStr _ \<Rightarrow> True | _ \<Rightarrow> False))"
| "optional_fields_ok _ = True"

fun entry_well_formed :: "inbox_entry \<Rightarrow> bool" where
  "entry_well_formed (UserMessage payload reqId) =
     (reqId \<noteq> [] \<and> (\<exists>fs. payload = JObj fs) \<and>
      js_field payload ''role'' \<in> {JStr ''user'', JStr ''assistant''} \<and>
      as_string (js_field payload ''content'') \<noteq> None)"
| "entry_well_formed (DecisionResolved did outcome note reqId) =
     (did \<noteq> [] \<and> note \<noteq> [] \<and> length note \<le> 2000 \<and>
      (case reqId of None \<Rightarrow> True | Some r \<Rightarrow> r \<noteq> [] \<and> length r \<le> 128))"
| "entry_well_formed _ = True"

section \<open>What the validators accept\<close>

lemma requireString_Inr [simp]: "requireString v h = Inr s \<longleftrightarrow> v = JStr s \<and> s \<noteq> []"
  by (cases v) (auto simp: requireString_def)

lemma requireString_Inl: "requireString v h = Inl e \<Longrightarrow> e = invalid_payload h"
  by (cases v) (auto simp: requireString_def split: if_splits)

lemma js_field_object: "js_field v n \<noteq> JUndef \<Longrightarrow> \<exists>fs. v = JObj fs"
  by (cases v) auto

lemma requireInboxEntry_well_formed:
  assumes "requireInboxEntry v h = Inr e"
  shows "entry_well_formed e"
proof -
  consider (user) "requireUserMessage v h = Inr e" | (other) "e = Cancel \<or> e = Interrupt"
    | (decision) "requireDecisionResolved v h = Inr e"
    using assms by (auto simp: requireInboxEntry_def split: if_splits)
  then show ?thesis
  proof cases
    case user
    then obtain role reqId where "e = UserMessage (js_field v ''payload'') reqId" "reqId \<noteq> []"
      "js_field (js_field v ''payload'') ''role'' = JStr role" "role \<in> set VALID_ROLES"
      "as_string (js_field (js_field v ''payload'') ''content'') \<noteq> None"
      by (auto simp: requireUserMessage_def Let_def split: if_splits jsval.splits)
    then show ?thesis using js_field_object[of "js_field v ''payload''" "''role''"]
      by (auto simp: VALID_ROLES_def)
  next
    case decision
    then show ?thesis
      by (auto simp: requireDecisionResolved_def DECISION_NOTE_MAX_def split: if_splits)
  qed auto
qed

lemma well_formed_schema:
  "entry_well_formed e \<Longrightarrow> optional_fields_ok e \<Longrightarrow> SessionClaimWorkOutputSchema (deliver e c)"
  by (cases e) (auto simp: AgentMessageSchema_def Suc_le_eq split: option.splits)

section \<open>Runs of the plugin\<close>

datatype session_op =
    SCreate string jsval
  | SQueue jsval
  | SClaim jsval
  | STerminate jsval
  | STimer string waiter

fun session_step :: "session_op \<Rightarrow> session_plugin \<Rightarrow> session_plugin \<times> session_effect list" where
  "session_step (SCreate token input) st = (let (st', ef, _) = session_create token input st in (st', ef))"
| "session_step (SQueue input) st = (let (st', ef, _) = session_queueWork input st in (st', ef))"
| "session_step (SClaim input) st = (let (st', ef, _) = session_claimWork input st in (st', ef))"
| "session_step (STerminate input) st = (let (st', ef, _) = session_terminate input st in (st', ef))"
| "session_step (STimer sid w) st =
     (let (ib, res) = claim_timeout sid w (sp_inbox st) in (st\<lparr>sp_inbox := ib\<rparr>, List.map Settles res))"

fun session_run :: "session_op list \<Rightarrow> session_plugin \<Rightarrow> session_plugin \<times> session_effect list" where
  "session_run [] st = (st, [])"
| "session_run (op # ops) st =
     (let (st1, e1) = session_step op st; (st2, e2) = session_run ops st1 in (st2, e1 @ e2))"

fun op_token :: "session_op \<Rightarrow> string list" where
  "op_token (SCreate token _) = [token]"
| "op_token _ = []"

definition op_tokens :: "session_op list \<Rightarrow> string list" where
  "op_tokens ops = concat (List.map op_token ops)"

lemma op_tokens_simps [simp]:
  "op_tokens [] = []" "op_tokens (op # ops) = op_token op @ op_tokens ops"
  "op_tokens (ops @ ops') = op_tokens ops @ op_tokens ops'"
  by (simp_all add: op_tokens_def)

text \<open>\<open>op\<close> asks to terminate session \<open>sid\<close>.\<close>

fun terminates :: "string \<Rightarrow> session_op \<Rightarrow> bool" where
  "terminates sid (STerminate input) = (js_field input ''sessionId'' = JStr sid)"
| "terminates _ _ = False"

text \<open>The store after a step, by the kind of step.\<close>

lemma session_create_cases:
  assumes "session_create token input st = (st', ef, r)"
  shows "ef = [] \<and> ((\<exists>e. r = Inl e \<and> st' = st) \<or>
    (\<exists>sid w ow rec s'. store_create token sid w ow (sp_store st) = Inr (rec, s') \<and> sid \<noteq> [] \<and>
       js_field input ''sessionId'' = JStr sid \<and> js_field input ''workspaceRoot'' = JStr w \<and>
       validateOwner (js_field input ''owner'') ''session:create'' = Inr ow \<and>
       st' = st\<lparr>sp_store := s'\<rparr> \<and> r = Inr (sid, token) \<and> rec = session_record_of token sid w ow))"
  using assms
  by (auto simp: session_create_def Let_def store_create_Inr session_simps split: sum.splits prod.splits)

lemma session_queueWork_cases:
  assumes "session_queueWork input st = (st', ef, r)"
  shows "(\<exists>e. r = Inl e \<and> st' = st \<and> ef = []) \<or>
    (\<exists>sid q entry ib c woken. store_get (sp_store st) sid = Some q \<and> \<not> sr_terminated q \<and>
       js_field input ''sessionId'' = JStr sid \<and>
       requireInboxEntry (js_field input ''entry'') ''session:queue-work'' = Inr entry \<and>
       inbox_queue sid entry (sp_inbox st) = (ib, c, woken) \<and>
       st' = st\<lparr>sp_inbox := ib\<rparr> \<and> ef = List.map Settles woken \<and> r = Inr c)"
  using assms
  by (auto simp: session_queueWork_def Let_def split: sum.splits prod.splits option.splits if_splits)

lemma session_claimWork_cases:
  assumes "session_claimWork input st = (st', ef, r)"
  shows "(\<exists>e. r = Inl e \<and> st' = st \<and> ef = []) \<or>
    (\<exists>sid q c ib p settled. store_get (sp_store st) sid = Some q \<and>
       inbox_claim sid c (sp_inbox st) = (ib, p, settled) \<and>
       st' = st\<lparr>sp_inbox := ib\<rparr> \<and> ef = List.map Settles settled \<and> r = Inr p)"
  using assms
  by (auto simp: session_claimWork_def Let_def split: sum.splits prod.splits option.splits)
    (metis option.distinct(1))+

lemma session_terminate_cases:
  assumes "session_terminate input st = (st', ef, r)"
  shows "(\<exists>e. r = Inl e \<and> st' = st \<and> ef = []) \<or>
    (\<exists>sid ib woken. js_field input ''sessionId'' = JStr sid \<and> sid \<noteq> [] \<and>
       inbox_terminate sid (sp_inbox st) = (ib, woken) \<and>
       st' = st\<lparr>sp_store := store_terminate sid (sp_store st), sp_inbox := ib\<rparr> \<and>
       ef = List.map Settles woken @ [Fires ''session:terminate'' sid] \<and> r = Inr ())"
  using assms
  by (auto simp: session_terminate_def Let_def split: sum.splits prod.splits)

lemma session_step_store:
  assumes "session_step op st = (st', ef)"
  shows "(sp_store st' = sp_store st \<and> (\<forall>sid. sid \<noteq> [] \<longrightarrow> \<not> terminates sid op)) \<or>
    (\<exists>token sid w ow r. op_token op = [token] \<and> sid \<noteq> [] \<and> (\<forall>s. \<not> terminates s op) \<and>
       store_create token sid w ow (sp_store st) = Inr (r, sp_store st')) \<or>
    (\<exists>sid. sid \<noteq> [] \<and> terminates sid op \<and> op_token op = [] \<and>
       sp_store st' = store_terminate sid (sp_store st))"
proof (cases op)
  case (SCreate token input)
  with assms obtain r where "session_create token input st = (st', ef, r)" by (auto split: prod.splits)
  from session_create_cases[OF this] SCreate show ?thesis by (elim conjE disjE exE) (simp, auto)
next
  case (SQueue input)
  with assms obtain r where "session_queueWork input st = (st', ef, r)" by (auto split: prod.splits)
  from session_queueWork_cases[OF this] SQueue show ?thesis by auto
next
  case (SClaim input)
  with assms obtain r where "session_claimWork input st = (st', ef, r)" by (auto split: prod.splits)
  from session_claimWork_cases[OF this] SClaim show ?thesis by auto
next
  case (STerminate input)
  with assms obtain r where t: "session_terminate input st = (st', ef, r)" by (auto split: prod.splits)
  show ?thesis
  proof (cases r)
    case (Inl e)
    with t have "st' = st" "\<And>s. js_field input ''sessionId'' = JStr s \<Longrightarrow> s = []"
      by (auto simp: session_terminate_def Let_def requireString_def split: sum.splits prod.splits jsval.splits if_splits)
    with STerminate show ?thesis by auto
  next
    case (Inr u)
    with session_terminate_cases[OF t] STerminate show ?thesis by auto
  qed
next
  case (STimer sid w)
  with assms show ?thesis by (auto split: prod.splits)
qed

lemma session_step_inbox:
  assumes "session_step op st = (st', ef)"
  shows "(sp_inbox st' = sp_inbox st \<and> (\<forall>r. Settles r \<notin> set ef)) \<or>
    (\<exists>iop res. inbox_step iop (sp_inbox st) = (sp_inbox st', res) \<and>
       (\<forall>r. Settles r \<in> set ef \<longleftrightarrow> r \<in> set res) \<and>
       (\<forall>sid. \<forall>e \<in> set (queued sid [iop]). entry_well_formed e))"
proof (cases op)
  case (SCreate token input)
  with assms obtain r where "session_create token input st = (st', ef, r)" by (auto split: prod.splits)
  from session_create_cases[OF this] show ?thesis by auto
next
  case (SQueue input)
  with assms obtain r where "session_queueWork input st = (st', ef, r)" by (auto split: prod.splits)
  from session_queueWork_cases[OF this] show ?thesis
  proof (elim disjE exE conjE)
    fix sid q entry ib c woken
    assume v: "requireInboxEntry (js_field input ''entry'') ''session:queue-work'' = Inr entry"
      and q: "inbox_queue sid entry (sp_inbox st) = (ib, c, woken)"
      and r: "st' = st\<lparr>sp_inbox := ib\<rparr>" "ef = List.map Settles woken"
    have "inbox_step (OpQueue sid entry) (sp_inbox st) = (sp_inbox st', woken)" using q r by simp
    moreover have "\<forall>s. \<forall>e \<in> set (queued s [OpQueue sid entry]). entry_well_formed e"
      using requireInboxEntry_well_formed[OF v] by simp
    ultimately show ?thesis using r(2) by (intro disjI2 exI[of _ "OpQueue sid entry"] exI[of _ woken]) auto
  qed simp
next
  case (SClaim input)
  with assms obtain r where "session_claimWork input st = (st', ef, r)" by (auto split: prod.splits)
  from session_claimWork_cases[OF this] show ?thesis
  proof (elim disjE exE conjE)
    fix sid q c ib p settled
    assume q: "inbox_claim sid c (sp_inbox st) = (ib, p, settled)"
      and r: "st' = st\<lparr>sp_inbox := ib\<rparr>" "ef = List.map Settles settled"
    then show ?thesis by (intro disjI2 exI[of _ "OpClaim sid c"] exI[of _ settled]) auto
  qed simp
next
  case (STerminate input)
  with assms obtain r where "session_terminate input st = (st', ef, r)" by (auto split: prod.splits)
  from session_terminate_cases[OF this] show ?thesis
  proof (elim disjE exE conjE)
    fix sid ib woken
    assume "inbox_terminate sid (sp_inbox st) = (ib, woken)"
      "st' = st\<lparr>sp_store := store_terminate sid (sp_store st), sp_inbox := ib\<rparr>"
      "ef = List.map Settles woken @ [Fires ''session:terminate'' sid]"
    then show ?thesis by (intro disjI2 exI[of _ "OpTerminate sid"] exI[of _ woken]) auto
  qed simp
next
  case (STimer sid w)
  with assms obtain ib res where "claim_timeout sid w (sp_inbox st) = (ib, res)"
    "st' = st\<lparr>sp_inbox := ib\<rparr>" "ef = List.map Settles res" by (auto split: prod.splits)
  then show ?thesis by (intro disjI2 exI[of _ "OpTimer sid w"] exI[of _ res]) auto
qed

section \<open>The invariant of the plugin\<close>

text \<open>Both components are well formed, every queued entry is one the validator accepts, and only
  the given tokens are in use.\<close>

definition sp_inv :: "string set \<Rightarrow> session_plugin \<Rightarrow> bool" where
  "sp_inv toks st \<longleftrightarrow>
     store_inv (sp_store st) \<and> inbox_inv (sp_inbox st) \<and>
     (\<forall>t. js_get (byToken (sp_store st)) t \<noteq> None \<longrightarrow> t \<in> toks) \<and>
     (\<forall>sid. \<forall>e \<in> set (ps_entries (session_of (sp_inbox st) sid)). entry_well_formed e)"

lemma sp_inv_init [simp]: "sp_inv {} createSessionInmemoryPlugin"
  by (simp add: sp_inv_def createSessionInmemoryPlugin_def) (simp add: createSessionStore_def)

definition settles_well :: "session_effect \<Rightarrow> bool" where
  "settles_well ef =
     (case ef of
        Settles (sid, w, x) \<Rightarrow> x = ClaimTimeout (wt_cursor w) \<or>
          (\<exists>e. x = deliver e (wt_cursor w) \<and> entry_well_formed e)
      | Fires _ _ \<Rightarrow> True)"

lemma session_step_sound:
  assumes inv: "sp_inv toks st" and step: "session_step op st = (st', ef)"
    and fresh: "set (op_token op) \<inter> toks = {}"
  shows "sp_inv (toks \<union> set (op_token op)) st' \<and> (\<forall>x \<in> set ef. settles_well x)"
proof -
  have "store_inv (sp_store st') \<and>
      (\<forall>t. js_get (byToken (sp_store st')) t \<noteq> None \<longrightarrow> t \<in> toks \<union> set (op_token op))"
    using session_step_store[OF step]
  proof (elim disjE exE conjE)
    fix token sid w ow r
    assume c: "store_create token sid w ow (sp_store st) = Inr (r, sp_store st')" and t: "op_token op = [token]"
    have "js_get (byToken (sp_store st)) token = None" using inv fresh t by (auto simp: sp_inv_def)
    from store_inv_create[OF _ this c] inv c t show ?thesis
      by (auto simp: sp_inv_def store_create_Inr split: if_splits)
  qed (use inv in \<open>auto simp: sp_inv_def store_inv_terminate\<close>)
  moreover have "inbox_inv (sp_inbox st') \<and> (\<forall>x \<in> set ef. settles_well x) \<and>
      (\<forall>sid. \<forall>e \<in> set (ps_entries (session_of (sp_inbox st') sid)). entry_well_formed e)"
    using session_step_inbox[OF step]
  proof (elim disjE exE conjE)
    fix iop res
    assume s: "inbox_step iop (sp_inbox st) = (sp_inbox st', res)"
      and ef: "\<forall>r. Settles r \<in> set ef \<longleftrightarrow> r \<in> set res"
      and wf: "\<forall>sid. \<forall>e \<in> set (queued sid [iop]). entry_well_formed e"
    have ib: "inbox_inv (sp_inbox st)" using inv by (simp add: sp_inv_def)
    note snd = inbox_step_sound[OF ib s]
    have all: "\<forall>sid. \<forall>e \<in> set (ps_entries (session_of (sp_inbox st') sid)). entry_well_formed e"
      using inv wf unfolding inbox_step_entries[OF ib s] by (auto simp: sp_inv_def)
    have "settles_well x" if "x \<in> set ef" for x
    proof (cases x)
      case (Settles r)
      obtain sid w y where r: "r = (sid, w, y)" by (cases r)
      have "answered_from (sp_inbox st') r" using snd ef that Settles by blast
      then show ?thesis using all unfolding settles_well_def Settles r
        by (auto simp: answered_from_def entry_at_def split: if_splits) (metis nth_mem)
    qed (simp add: settles_well_def)
    with snd all show ?thesis by blast
  next
    assume "sp_inbox st' = sp_inbox st" "\<forall>r. Settles r \<notin> set ef"
    moreover from this have "settles_well x" if "x \<in> set ef" for x
      using that by (cases x) (auto simp: settles_well_def)
    ultimately show ?thesis using inv by (simp add: sp_inv_def)
  qed
  ultimately show ?thesis by (simp add: sp_inv_def)
qed

lemma session_run_sound:
  "sp_inv toks st \<Longrightarrow> session_run ops st = (st', ef) \<Longrightarrow> distinct (op_tokens ops) \<Longrightarrow>
     set (op_tokens ops) \<inter> toks = {} \<Longrightarrow>
     sp_inv (toks \<union> set (op_tokens ops)) st' \<and> (\<forall>x \<in> set ef. settles_well x)"
proof (induction ops arbitrary: st toks ef)
  case Nil
  then show ?case by simp
next
  case (Cons op ops)
  obtain st1 e1 where s: "session_step op st = (st1, e1)" by force
  obtain e2 where rest: "session_run ops st1 = (st', e2)" and ef: "ef = e1 @ e2"
    using Cons.prems(2) s by (auto simp: Let_def split: prod.splits)
  have "set (op_token op) \<inter> toks = {}" using Cons.prems(4) by auto
  note one = session_step_sound[OF Cons.prems(1) s this]
  have "distinct (op_tokens ops)" "set (op_tokens ops) \<inter> (toks \<union> set (op_token op)) = {}"
    using Cons.prems(3,4) by auto
  from Cons.IH[OF conjunct1[OF one] rest this] one ef show ?case by (auto simp: Un_assoc)
qed

section \<open>The life of a session\<close>

text \<open>A record only ever changes by being terminated, and that is for good.\<close>

definition record_after :: "string \<Rightarrow> session_op list \<Rightarrow> session_record \<Rightarrow> session_record" where
  "record_after sid ops r = (if list_ex (terminates sid) ops then r\<lparr>sr_terminated := True\<rparr> else r)"

lemma session_step_record:
  assumes "store_get (sp_store st) sid = Some r" "sid \<noteq> []" "session_step op st = (st', ef)"
  shows "store_get (sp_store st') sid = Some (record_after sid [op] r)"
  using session_step_store[OF assms(3)]
proof (elim disjE exE conjE)
  fix token s w ow q
  assume c: "store_create token s w ow (sp_store st) = Inr (q, sp_store st')" and n: "\<forall>s. \<not> terminates s op"
  have "s \<noteq> sid" using c assms(1) by (auto simp: store_create_Inr store_get_def)
  with store_get_create[OF c, of sid] assms(1) n show ?thesis by (simp add: record_after_def)
next
  fix s
  assume "terminates s op" "sp_store st' = store_terminate s (sp_store st)"
  moreover from this have "terminates sid op \<longleftrightarrow> s = sid" by (cases op) auto
  ultimately show ?thesis using assms(1) by (auto simp: record_after_def store_get_terminate)
qed (use assms in \<open>simp add: record_after_def\<close>)

lemma session_run_record:
  "store_get (sp_store st) sid = Some r \<Longrightarrow> sid \<noteq> [] \<Longrightarrow> session_run ops st = (st', ef) \<Longrightarrow>
     store_get (sp_store st') sid = Some (record_after sid ops r)"
proof (induction ops arbitrary: st r ef)
  case Nil
  then show ?case by (simp add: record_after_def)
next
  case (Cons op ops)
  obtain st1 e1 where s: "session_step op st = (st1, e1)" by force
  obtain e2 where rest: "session_run ops st1 = (st', e2)"
    using Cons.prems(3) s by (auto simp: Let_def split: prod.splits)
  from Cons.IH[OF session_step_record[OF Cons.prems(1,2) s] Cons.prems(2) rest]
  show ?case by (simp add: record_after_def)
qed

lemma session_create_spec:
  assumes "session_create token input st = (st', ef, Inr (sid, tok))"
  shows "tok = token \<and> sid \<noteq> [] \<and>
    (\<exists>w ow. js_field input ''workspaceRoot'' = JStr w \<and>
       validateOwner (js_field input ''owner'') ''session:create'' = Inr ow \<and>
       store_get (sp_store st') sid = Some (session_record_of token sid w ow))"
proof -
  from session_create_cases[OF assms] obtain w ow s' where
    c: "store_create token sid w ow (sp_store st) = Inr (session_record_of token sid w ow, s')"
    and r: "st' = st\<lparr>sp_store := s'\<rparr>" "tok = token" "sid \<noteq> []"
      "js_field input ''workspaceRoot'' = JStr w"
      "validateOwner (js_field input ''owner'') ''session:create'' = Inr ow"
    by (elim conjE disjE exE) simp_all
  have "store_get (sp_store st') sid = Some (session_record_of token sid w ow)"
    using store_get_create[OF c, of sid] r(1) by simp
  with r show ?thesis by blast
qed

text \<open>A session's token opens that session, and only until the session is terminated: after
  a successful \<^verbatim>\<open>session:create\<close> and any further traffic (other sessions created with
  other tokens, work queued and claimed, timers, terminations), \<^verbatim>\<open>session:resolve-token\<close>
  answers with the session as created, or with null once a \<^verbatim>\<open>session:terminate\<close> for it
  was handled.\<close>

theorem token_resolves_until_terminated:
  assumes "session_run ops1 createSessionInmemoryPlugin = (st, ef)"
    and "session_create token input st = (st1, ef1, Inr (sid, tok))"
    and "session_run ops2 st1 = (st2, ef2)"
    and "distinct (op_tokens (ops1 @ SCreate token input # ops2))" and "token \<noteq> []"
  shows "\<exists>w ow. js_field input ''workspaceRoot'' = JStr w \<and>
    validateOwner (js_field input ''owner'') ''session:create'' = Inr ow \<and>
    session_resolveToken (JObj [(''token'', JStr tok)]) st2 =
    Inr (if list_ex (terminates sid) ops2 then None
         else Some (resolved_of (session_record_of tok sid w ow)))"
proof -
  from session_create_spec[OF assms(2)] obtain w ow where tok: "tok = token" "sid \<noteq> []"
    and input: "js_field input ''workspaceRoot'' = JStr w"
      "validateOwner (js_field input ''owner'') ''session:create'' = Inr ow"
    and get1: "store_get (sp_store st1) sid = Some (session_record_of token sid w ow)" by blast
  let ?r = "session_record_of token sid w ow"
  have run: "session_run (ops1 @ SCreate token input # ops2) createSessionInmemoryPlugin = (st2, ef @ ef1 @ ef2)"
  proof -
    have app: "session_run (xs @ ys) s = (let (s1, e1) = session_run xs s; (s2, e2) = session_run ys s1
        in (s2, e1 @ e2))" for xs ys s
      by (induction xs arbitrary: s) (auto simp: Let_def split: prod.splits)
    show ?thesis using assms(1-3) by (simp add: app)
  qed
  have "sp_inv (set (op_tokens (ops1 @ SCreate token input # ops2))) st2"
    using session_run_sound[OF sp_inv_init run assms(4)] by simp
  then have inv2: "store_inv (sp_store st2)" by (simp add: sp_inv_def)
  have get2: "store_get (sp_store st2) sid = Some (record_after sid ops2 ?r)"
    by (rule session_run_record[OF get1 tok(2) assms(3)])
  have rt: "sr_token (record_after sid ops2 ?r) = token"
    "sr_terminated (record_after sid ops2 ?r) = list_ex (terminates sid) ops2"
    by (simp_all add: record_after_def session_simps)
  have "store_resolveToken (sp_store st2) token =
      (if list_ex (terminates sid) ops2 then None else Some (resolved_of ?r))"
  proof (cases "list_ex (terminates sid) ops2")
    case False
    then have "record_after sid ops2 ?r = ?r" by (simp only: record_after_def if_False)
    with get2 rt False mem.resolve_iff[OF inv2, of token "resolved_of ?r"] show ?thesis by auto
  next
    case True
    have "store_resolveToken (sp_store st2) token \<noteq> Some x" for x
    proof
      assume "store_resolveToken (sp_store st2) token = Some x"
      then obtain s q where q: "store_get (sp_store st2) s = Some q" "sr_token q = token" "\<not> sr_terminated q"
        using mem.resolve_iff[OF inv2] by blast
      have "s = sid" using mem.token_once[OF inv2 q(1) get2] q(2) rt(1) by simp
      with q get2 rt(2) True show False by simp
    qed
    with True show ?thesis by (cases "store_resolveToken (sp_store st2) token") auto
  qed
  then have "session_resolveToken (JObj [(''token'', JStr tok)]) st2 =
      Inr (if list_ex (terminates sid) ops2 then None
         else Some (resolved_of (session_record_of tok sid w ow)))"
    using tok(1) assms(5) by (simp add: session_resolveToken_def)
  with input show ?thesis by blast
qed

text \<open>Termination is final: after \<^verbatim>\<open>session:terminate\<close> of a known session, whatever
  comes later, the session is not alive, its configuration and new work are refused with
  \<^verbatim>\<open>unknown-session\<close> (the refused work changes nothing), and its id cannot be created
  again.\<close>

theorem termination_is_final:
  assumes "store_get (sp_store st) sid = Some r" and "sid \<noteq> []"
    and "js_field input ''sessionId'' = JStr sid"
    and "session_terminate input st = (st1, ef1, res)" and "session_run ops st1 = (st2, ef2)"
    and "js_field q ''sessionId'' = JStr sid"
    and "requireInboxEntry (js_field q ''entry'') ''session:queue-work'' = Inr entry"
  shows "session_isAlive q st2 = Inr False \<and>
    session_getConfig sid st2 = Inl (hook_err UNKNOWN_SESSION SESSION_PLUGIN ''session:get-config'') \<and>
    session_queueWork q st2 = (st2, [], Inl (hook_err UNKNOWN_SESSION SESSION_PLUGIN ''session:queue-work'')) \<and>
    store_create token sid w ow (sp_store st2) =
      Inl (hook_err DUPLICATE_SESSION SESSION_PLUGIN ''session:create'')"
proof -
  have "session_step (STerminate input) st = (st1, ef1)" using assms(4) by simp
  from session_step_record[OF assms(1,2) this] assms(3)
  have "store_get (sp_store st1) sid = Some (r\<lparr>sr_terminated := True\<rparr>)"
    by (simp add: record_after_def)
  from session_run_record[OF this assms(2,5)]
  obtain r2 where r2: "store_get (sp_store st2) sid = Some r2" "sr_terminated r2"
    by (auto simp: record_after_def)
  have nonempty: "requireString (JStr sid) h = Inr sid" for h using assms(2) by simp
  have "store_create token sid w ow (sp_store st2) =
      Inl (hook_err DUPLICATE_SESSION SESSION_PLUGIN ''session:create'')"
    using r2(1) by (simp add: store_create_def store_get_def)
  with r2 show ?thesis
    by (simp add: session_isAlive_def session_getConfig_def session_queueWork_def Let_def assms(6,7) nonempty)
qed

text \<open>Everything a claim is ever answered with was accepted by the validator of
  \<^verbatim>\<open>session:queue-work\<close> and satisfies the output schema the bus checks, as long as the
  optional fields of the queued message do.\<close>

theorem claims_meet_their_schema:
  assumes "session_run ops createSessionInmemoryPlugin = (st, ef)" and "distinct (op_tokens ops)"
    and "Settles (sid, w, x) \<in> set ef"
  shows "x = ClaimTimeout (wt_cursor w) \<or>
    (\<exists>e. x = deliver e (wt_cursor w) \<and> entry_well_formed e \<and>
       (optional_fields_ok e \<longrightarrow> SessionClaimWorkOutputSchema x))"
proof -
  have "settles_well (Settles (sid, w, x))"
    using session_run_sound[OF sp_inv_init assms(1,2)] assms(3) by blast
  then show ?thesis using well_formed_schema by (auto simp: settles_well_def)
qed

section \<open>Two corners of the code\<close>

definition input_of :: "(string \<times> string) list \<Rightarrow> jsval" where
  "input_of fs = JObj (List.map (\<lambda>(k, v). (k, JStr v)) fs)"

definition claim_input :: "string \<Rightarrow> nat \<Rightarrow> nat \<Rightarrow> jsval" where
  "claim_input sid cursor timeoutMs =
     JObj [(''sessionId'', JStr sid), (''cursor'', JNum (Fin (of_nat cursor))),
           (''timeoutMs'', JNum (Fin (of_nat timeoutMs)))]"

lemmas session_eval = session_create_def session_claimWork_def session_terminate_def session_queueWork_def
  createSessionInmemoryPlugin_def createSessionStore_def createInbox_def validateOwner_def
  store_create_def store_get_def store_terminate_def session_record_of_def requireNonNegativeInt_def
  inbox_claim_def inbox_terminate_def inbox_queue_def getOrCreate_def put_session_def entry_at_def
  fresh_session_def input_of_def claim_input_def Let_def

lemma requireString_JStr [simp]: "s \<noteq> [] \<Longrightarrow> requireString (JStr s) h = Inr s"
  by (simp add: requireString_def)

text \<open>A session that is terminated before any work was queued or claimed: its inbox keeps no
  trace of the termination, so a later \<^verbatim>\<open>session:claim-work\<close> of this terminated session is
  not answered at once; it blocks as a waiter until its own timer fires.\<close>

theorem claim_after_early_termination_blocks:
  assumes "sid \<noteq> []" and "wroot \<noteq> []"
  shows "\<exists>st1 st2 ef2 st3.
    session_create token (input_of [(''sessionId'', sid), (''workspaceRoot'', wroot)])
      createSessionInmemoryPlugin = (st1, [], Inr (sid, token)) \<and>
    session_terminate (input_of [(''sessionId'', sid)]) st1 = (st2, ef2, Inr ()) \<and>
    session_isAlive (input_of [(''sessionId'', sid)]) st2 = Inr False \<and>
    session_claimWork (claim_input sid cursor timeoutMs) st2 = (st3, [], Inr 0) \<and>
    pending (sp_inbox st3) 0"
  using assms
  by (simp add: session_eval session_isAlive_def pending_def session_of_def)

theorem claim_after_early_termination_blocks_witness:
  "\<exists>st. session_isAlive (input_of [(''sessionId'', ''s'')]) st = Inr False \<and>
     (\<exists>st'. session_claimWork (claim_input ''s'' 0 30000) st = (st', [], Inr 0))"
  using claim_after_early_termination_blocks[of "''s''" "''/w''" "''t''" 0 30000] by auto

definition bad_message :: jsval where
  "bad_message = JObj [(''type'', JStr ''user-message''), (''reqId'', JStr ''r''),
     (''payload'', JObj [(''role'', JStr ''user''), (''content'', JStr []), (''contentBlocks'', JStr ''x'')])]"

lemma bad_message_accepted:
  "requireInboxEntry bad_message h = Inr (UserMessage (js_field bad_message ''payload'') ''r'')"
  by (simp add: bad_message_def requireInboxEntry_def requireUserMessage_def VALID_ROLES_def Let_def)

text \<open>The validator of \<^verbatim>\<open>session:queue-work\<close> does not look at the optional fields of a
  user message: it accepts one whose \<^verbatim>\<open>contentBlocks\<close> is no array, and the claim at its
  cursor is then answered with a value that fails the claim's output schema.\<close>

theorem queue_accepts_what_claim_cannot_return:
  assumes "sid \<noteq> []" and "store_get (sp_store st) sid = Some r" and "\<not> sr_terminated r"
    and "inbox_inv (sp_inbox st)"
  shows "\<exists>st1 ef1 c st2 p w x.
    session_queueWork (JObj [(''sessionId'', JStr sid), (''entry'', bad_message)]) st = (st1, ef1, Inr c) \<and>
    session_claimWork (claim_input sid c 0) st1 = (st2, [Settles (sid, w, x)], Inr p) \<and>
    \<not> SessionClaimWorkOutputSchema x"
proof -
  let ?e = "UserMessage (js_field bad_message ''payload'') ''r''"
  obtain ib c woken where q: "inbox_queue sid ?e (sp_inbox st) = (ib, c, woken)" by (metis prod_cases3)
  from inbox_queue_spec[OF assms(4) q, of sid]
  have e: "entry_at (session_of ib sid) c = Some ?e" by (simp add: entry_at_def)
  obtain ib' p res where cl: "inbox_claim sid c ib = (ib', p, res)" by (metis prod_cases3)
  from inbox_claim_spec[OF cl, of sid] e
  have res: "res = [(sid, \<lparr>wt_id = ib_next ib, wt_cursor = c\<rparr>, deliver ?e c)]" by (simp add: answer_def)
  have "\<not> SessionClaimWorkOutputSchema (deliver ?e c)"
    by (simp add: bad_message_def AgentMessageSchema_def)
  moreover have "session_queueWork (JObj [(''sessionId'', JStr sid), (''entry'', bad_message)]) st =
      (st\<lparr>sp_inbox := ib\<rparr>, List.map Settles woken, Inr c)"
    using assms q by (simp add: session_queueWork_def Let_def bad_message_accepted)
  moreover have "session_claimWork (claim_input sid c 0) (st\<lparr>sp_inbox := ib\<rparr>) =
      (st\<lparr>sp_inbox := ib'\<rparr>, List.map Settles res, Inr p)"
    using assms cl by (simp add: session_claimWork_def Let_def claim_input_def requireNonNegativeInt_def)
  ultimately show ?thesis using res by auto
qed

section \<open>The properties at concrete inputs\<close>

definition demo_create :: jsval where
  "demo_create = input_of [(''sessionId'', ''s''), (''workspaceRoot'', ''/w'')]"

definition demo_session :: session_plugin where
  "demo_session = fst (session_create ''tok'' demo_create createSessionInmemoryPlugin)"

lemma demo_session_created:
  "session_create ''tok'' demo_create createSessionInmemoryPlugin = (demo_session, [], Inr (''s'', ''tok''))"
  by (simp add: demo_session_def session_eval demo_create_def)

lemma demo_session_get: "store_get (sp_store demo_session) ''s'' = Some (session_record_of ''tok'' ''s'' ''/w'' None)"
  by (simp add: demo_session_def session_eval demo_create_def)

lemma demo_session_inv: "inbox_inv (sp_inbox demo_session)"
  by (simp add: demo_session_def session_create_def demo_create_def input_of_def store_create_def Let_def
      createSessionInmemoryPlugin_def createSessionStore_def validateOwner_def)

theorem token_resolves_until_terminated_witness:
  "session_resolveToken (JObj [(''token'', JStr ''tok'')])
     (fst (session_run [STerminate (input_of [(''sessionId'', ''s'')])] demo_session)) = Inr None"
proof -
  let ?ops = "[STerminate (input_of [(''sessionId'', ''s'')])]"
  obtain st2 ef2 where run: "session_run ?ops demo_session = (st2, ef2)" by force
  have "session_run [] createSessionInmemoryPlugin = (createSessionInmemoryPlugin, [])" by simp
  from token_resolves_until_terminated[OF this demo_session_created run] run
  show ?thesis by (auto simp: input_of_def)
qed

theorem termination_is_final_witness:
  "session_isAlive (JObj [(''sessionId'', JStr ''s''), (''entry'', JObj [(''type'', JStr ''cancel'')])])
     (fst (session_terminate (input_of [(''sessionId'', ''s'')]) demo_session)) = Inr False"
proof -
  let ?q = "JObj [(''sessionId'', JStr ''s''), (''entry'', JObj [(''type'', JStr ''cancel'')])]"
  obtain st1 ef1 res where t: "session_terminate (input_of [(''sessionId'', ''s'')]) demo_session = (st1, ef1, res)"
    by (metis prod_cases3)
  have run: "session_run [] st1 = (st1, [])" by simp
  have e: "requireInboxEntry (js_field ?q ''entry'') ''session:queue-work'' = Inr Cancel"
    by (simp add: requireInboxEntry_def)
  from termination_is_final[OF demo_session_get _ _ t run _ e] t show ?thesis by (simp add: input_of_def)
qed

theorem claims_meet_their_schema_witness:
  "\<exists>st ef x. session_run [SCreate ''tok'' demo_create,
      SQueue (JObj [(''sessionId'', JStr ''s''), (''entry'', JObj [(''type'', JStr ''cancel'')])]),
      SClaim (claim_input ''s'' 0 0)] createSessionInmemoryPlugin =
        (st, [Settles (''s'', \<lparr>wt_id = 0, wt_cursor = 0\<rparr>, x)]) \<and> x = ClaimCancel 1 \<and>
      SessionClaimWorkOutputSchema x"
proof -
  let ?ops = "[SCreate ''tok'' demo_create,
      SQueue (JObj [(''sessionId'', JStr ''s''), (''entry'', JObj [(''type'', JStr ''cancel'')])]),
      SClaim (claim_input ''s'' 0 0)]"
  have "\<exists>st. session_run ?ops createSessionInmemoryPlugin =
      (st, [Settles (''s'', \<lparr>wt_id = 0, wt_cursor = 0\<rparr>, ClaimCancel 1)])"
    by (simp add: session_eval demo_create_def requireInboxEntry_def)
  then obtain st where run: "session_run ?ops createSessionInmemoryPlugin =
      (st, [Settles (''s'', \<lparr>wt_id = 0, wt_cursor = 0\<rparr>, ClaimCancel 1)])" by blast
  from claims_meet_their_schema[OF run, of "''s''" "\<lparr>wt_id = 0, wt_cursor = 0\<rparr>" "ClaimCancel 1"] run
  show ?thesis by auto
qed

theorem queue_accepts_what_claim_cannot_return_witness:
  "\<exists>st1 ef1 c. session_queueWork (JObj [(''sessionId'', JStr ''s''), (''entry'', bad_message)]) demo_session
     = (st1, ef1, Inr c)"
proof -
  have "\<not> sr_terminated (session_record_of ''tok'' ''s'' ''/w'' None)" by (simp add: session_simps)
  from queue_accepts_what_claim_cannot_return[OF _ demo_session_get this demo_session_inv]
  show ?thesis by auto
qed

end
