(* ===== verification/Eventbus.thy ===== *)
theory Eventbus
  imports Ax_Prelude
begin

text \<open>
  The in-process event bus of \<^verbatim>\<open>packages/eventbus-inprocess/src/plugin.ts\<close>: channels of
  handlers, emission over a snapshot with isolated failures, and subscriptions that remove
  exactly themselves. Tokens are \<^verbatim>\<open>Symbol\<close>s, here numbers drawn from a counter; what a
  handler does is a parameter that may change the bus itself.
\<close>

section \<open>Data\<close>

record 'h channel_entry =
  ce_token :: nat
  ce_handler :: 'h

record 'h eventbus =
  eb_channels :: "(string, 'h channel_entry list) jsmap"
  eb_next :: nat

text \<open>The effect of awaiting a handler: the new state, and whether it threw.\<close>

type_synonym ('h, 'p, 'w) handler_sem = "'h \<Rightarrow> 'p \<Rightarrow> 'h eventbus \<times> 'w \<Rightarrow> ('h eventbus \<times> 'w) \<times> bool"

datatype bus_event = Delivered nat | SubscriberFailed string

abbreviation EVENTBUS_PLUGIN :: string where
  "EVENTBUS_PLUGIN \<equiv> ''@ax/eventbus-inprocess''"

section \<open>Operations\<close>

definition new_eventbus :: "'h eventbus" where
  "new_eventbus = \<lparr>eb_channels = [], eb_next = 0\<rparr>"

fun emit_each :: "('h, 'p, 'w) handler_sem \<Rightarrow> string \<Rightarrow> 'p \<Rightarrow> 'h channel_entry list \<Rightarrow>
    'h eventbus \<times> 'w \<Rightarrow> ('h eventbus \<times> 'w) \<times> bus_event list" where
  "emit_each sem channel payload [] s = (s, [])"
| "emit_each sem channel payload (e # es) s =
     (let (s1, threw) = sem (ce_handler e) payload s;
          (s2, evs) = emit_each sem channel payload es s1
      in (s2, Delivered (ce_token e) # (if threw then [SubscriberFailed channel] else []) @ evs))"

definition eventbus_emit :: "('h, 'p, 'w) handler_sem \<Rightarrow> string \<Rightarrow> 'p \<Rightarrow>
    'h eventbus \<times> 'w \<Rightarrow> ('h eventbus \<times> 'w) \<times> bus_event list" where
  "eventbus_emit sem channel payload s =
     (case js_get (eb_channels (fst s)) channel of
        None \<Rightarrow> (s, [])
      | Some entries \<Rightarrow> if entries = [] then (s, []) else emit_each sem channel payload entries s)"

text \<open>A handler argument that is no function is \<open>None\<close>.\<close>

definition eventbus_subscribe :: "string \<Rightarrow> 'h option \<Rightarrow> 'h eventbus \<Rightarrow> plugin_error + nat \<times> 'h eventbus" where
  "eventbus_subscribe channel handler eb =
     (case handler of
        None \<Rightarrow> Inl (hook_err ''invalid-payload'' EVENTBUS_PLUGIN ''eventbus:subscribe'')
      | Some h \<Rightarrow>
          let entry = \<lparr>ce_token = eb_next eb, ce_handler = h\<rparr>;
              list = (case js_get (eb_channels eb) channel of None \<Rightarrow> [] | Some es \<Rightarrow> es)
          in Inr (eb_next eb,
               \<lparr>eb_channels = js_set channel (list @ [entry]) (eb_channels eb), eb_next = Suc (eb_next eb)\<rparr>))"

definition eventbus_unsubscribe :: "string \<Rightarrow> nat \<Rightarrow> 'h eventbus \<Rightarrow> 'h eventbus" where
  "eventbus_unsubscribe channel token eb =
     (case js_get (eb_channels eb) channel of
        None \<Rightarrow> eb
      | Some current \<Rightarrow>
          (case index_of token (List.map ce_token current) of
             None \<Rightarrow> eb
           | Some idx \<Rightarrow>
               let rest = take idx current @ drop (Suc idx) current in
               if rest = [] then eb\<lparr>eb_channels := js_delete channel (eb_channels eb)\<rparr>
               else eb\<lparr>eb_channels := js_set channel rest (eb_channels eb)\<rparr>))"

section \<open>What subscribers see\<close>

definition subscribers :: "'h eventbus \<Rightarrow> string \<Rightarrow> 'h channel_entry list" where
  "subscribers eb channel = (case js_get (eb_channels eb) channel of None \<Rightarrow> [] | Some es \<Rightarrow> es)"

definition eb_inv :: "'h eventbus \<Rightarrow> bool" where
  "eb_inv eb \<longleftrightarrow>
     js_wf (eb_channels eb) \<and>
     (\<forall>c es. js_get (eb_channels eb) c = Some es \<longrightarrow>
        es \<noteq> [] \<and> distinct (List.map ce_token es) \<and> (\<forall>e \<in> set es. ce_token e < eb_next eb))"

lemma eb_inv_init [simp]: "eb_inv new_eventbus"
  by (simp add: eb_inv_def new_eventbus_def)

lemma subscribers_inv:
  "eb_inv eb \<Longrightarrow> distinct (List.map ce_token (subscribers eb c)) \<and> (\<forall>e \<in> set (subscribers eb c). ce_token e < eb_next eb)"
  by (cases "js_get (eb_channels eb) c") (simp_all add: eb_inv_def subscribers_def)

lemma splice_out:
  "distinct (List.map ce_token es) \<Longrightarrow> index_of t (List.map ce_token es) = Some i \<Longrightarrow>
     take i es @ drop (Suc i) es = [e \<leftarrow> es. ce_token e \<noteq> t]"
proof (induction es arbitrary: i)
  case (Cons e es)
  show ?case
  proof (cases "ce_token e = t")
    case True
    with Cons.prems have "i = 0" "t \<notin> set (List.map ce_token es)" by auto
    then have "\<forall>x \<in> set es. ce_token x \<noteq> t" by auto
    then have "[e \<leftarrow> es. ce_token e \<noteq> t] = es" by (rule filter_True)
    with True \<open>i = 0\<close> show ?thesis by simp
  next
    case False
    with Cons.prems obtain j where "index_of t (List.map ce_token es) = Some j" "i = Suc j" by auto
    with Cons False show ?thesis by simp
  qed
qed simp

lemma subscribers_subscribe:
  "eventbus_subscribe c (Some h) eb = Inr (t, eb') \<Longrightarrow>
     t = eb_next eb \<and> eb_next eb' = Suc t \<and>
     subscribers eb' d = (if d = c then subscribers eb c @ [\<lparr>ce_token = t, ce_handler = h\<rparr>] else subscribers eb d)"
  by (auto simp: eventbus_subscribe_def subscribers_def Let_def)

lemma subscribers_unsubscribe:
  assumes "eb_inv eb"
  shows "subscribers (eventbus_unsubscribe c t eb) d =
    (if d = c then [e \<leftarrow> subscribers eb c. ce_token e \<noteq> t] else subscribers eb d)"
proof (cases "js_get (eb_channels eb) c")
  case None
  then show ?thesis by (simp add: eventbus_unsubscribe_def subscribers_def)
next
  case (Some es)
  show ?thesis
  proof (cases "index_of t (List.map ce_token es)")
    case None
    then have "[e \<leftarrow> es. ce_token e \<noteq> t] = es" by (auto simp: index_of_None intro: filter_True)
    with None Some show ?thesis by (simp add: eventbus_unsubscribe_def subscribers_def)
  next
    case (Some i)
    have "distinct (List.map ce_token es)" using assms \<open>js_get _ c = Some es\<close> by (auto simp: eb_inv_def)
    from splice_out[OF this Some] Some \<open>js_get _ c = Some es\<close> show ?thesis
      by (auto simp: eventbus_unsubscribe_def subscribers_def Let_def)
  qed
qed

lemma eb_inv_subscribe:
  assumes "eb_inv eb" "eventbus_subscribe c h eb = Inr (t, eb')"
  shows "eb_inv eb'"
proof -
  obtain h' where h: "h = Some h'" using assms(2) by (cases h) (auto simp: eventbus_subscribe_def)
  let ?new = "subscribers eb c @ [\<lparr>ce_token = eb_next eb, ce_handler = h'\<rparr>]"
  have eb': "eb' = \<lparr>eb_channels = js_set c ?new (eb_channels eb), eb_next = Suc (eb_next eb)\<rparr>"
    using assms(2) h by (auto simp add: eventbus_subscribe_def subscribers_def Let_def)
  have "distinct (List.map ce_token ?new) \<and> (\<forall>e \<in> set ?new. ce_token e < Suc (eb_next eb))"
    using subscribers_inv[OF assms(1), of c] by auto
  with assms(1) show ?thesis unfolding eb' eb_inv_def by (auto intro: js_map_wf less_SucI)
qed

lemma eb_next_unsubscribe [simp]: "eb_next (eventbus_unsubscribe c t eb) = eb_next eb"
  by (auto simp: eventbus_unsubscribe_def Let_def split: option.splits)

lemma eb_inv_unsubscribe:
  assumes "eb_inv eb"
  shows "eb_inv (eventbus_unsubscribe c t eb)"
proof -
  let ?eb' = "eventbus_unsubscribe c t eb"
  have "js_wf (eb_channels ?eb')"
    using assms by (auto simp: eb_inv_def eventbus_unsubscribe_def Let_def intro: js_map_wf split: option.splits)
  moreover have "es \<noteq> []" if "js_get (eb_channels ?eb') d = Some es" for d es
    using assms that by (auto simp: eb_inv_def eventbus_unsubscribe_def Let_def split: option.splits if_splits)
  moreover have "distinct (List.map ce_token es) \<and> (\<forall>e \<in> set es. ce_token e < eb_next ?eb')"
    if "js_get (eb_channels ?eb') d = Some es" for d es
  proof -
    have "es = subscribers ?eb' d" using that by (simp add: subscribers_def)
    then have "es = (if d = c then [e \<leftarrow> subscribers eb c. ce_token e \<noteq> t] else subscribers eb d)"
      by (simp add: subscribers_unsubscribe[OF assms])
    with subscribers_inv[OF assms, of d] show ?thesis by (auto simp: distinct_map_filter)
  qed
  ultimately show ?thesis by (simp add: eb_inv_def)
qed

section \<open>Properties\<close>

definition delivered :: "bus_event list \<Rightarrow> nat list" where
  "delivered evs = concat (List.map (\<lambda>e. case e of Delivered t \<Rightarrow> [t] | SubscriberFailed _ \<Rightarrow> []) evs)"

lemma delivered_simps [simp]:
  "delivered [] = []" "delivered (Delivered t # evs) = t # delivered evs"
  "delivered (SubscriberFailed c # evs) = delivered evs"
  by (simp_all add: delivered_def)

lemma emit_each_delivers: "delivered (snd (emit_each sem c p es s)) = List.map ce_token es"
  by (induction es arbitrary: s) (simp_all add: Let_def split_beta)

text \<open>An emission calls every subscriber the channel had when it started, once each and in
  subscription order, whatever the handlers do: throw, subscribe, unsubscribe themselves or
  others, or emit again.\<close>

theorem emit_reaches_every_subscriber:
  "delivered (snd (eventbus_emit sem channel payload s)) =
     List.map ce_token (subscribers (fst s) channel)"
  by (auto simp: eventbus_emit_def subscribers_def emit_each_delivers split: option.splits)

text \<open>Subscriptions are exact: along any sequence of subscriptions and unsubscriptions the
  bus stays well formed (distinct tokens, no empty channel kept), and unsubscribing removes that
  subscription and nothing else, on its channel or another; doing it twice changes nothing more.\<close>

theorem eventbus_unsubscribe_exact:
  assumes "eb_inv eb" and "eventbus_subscribe c (Some h) eb = Inr (t, eb1)"
  shows "eb_inv eb1 \<and> eb_inv (eventbus_unsubscribe c t eb1) \<and>
    subscribers (eventbus_unsubscribe c t eb1) d = subscribers eb d \<and>
    eventbus_unsubscribe c t (eventbus_unsubscribe c t eb1) = eventbus_unsubscribe c t eb1"
proof -
  note inv1 = eb_inv_subscribe[OF assms]
  note sub = subscribers_subscribe[OF assms(2)]
  have new: "[e \<leftarrow> subscribers eb c. ce_token e \<noteq> t] = subscribers eb c"
    using subscribers_inv[OF assms(1), of c] sub[of c] by (auto intro!: filter_True)
  let ?eb2 = "eventbus_unsubscribe c t eb1"
  have "t \<notin> ce_token ` set (subscribers ?eb2 c)"
    using subscribers_unsubscribe[OF inv1, of c t c] by auto
  then have "eventbus_unsubscribe c t ?eb2 = ?eb2"
    by (auto simp: eventbus_unsubscribe_def[of c t ?eb2] subscribers_def index_of_None[THEN iffD2]
        split: option.splits)
  then show ?thesis
    using inv1 eb_inv_unsubscribe[OF inv1] sub subscribers_unsubscribe[OF inv1, of c t d] new by simp
qed

theorem eventbus_unsubscribe_exact_witness:
  "subscribers (eventbus_unsubscribe ''c'' 0 (snd (projr (eventbus_subscribe ''c'' (Some ()) new_eventbus)))) ''c'' = []"
proof -
  obtain t eb1 where s: "eventbus_subscribe ''c'' (Some ()) new_eventbus = Inr (t, eb1)"
    by (auto simp: eventbus_subscribe_def Let_def)
  moreover from s have "t = 0" by (auto simp: eventbus_subscribe_def Let_def new_eventbus_def)
  ultimately show ?thesis
    using eventbus_unsubscribe_exact[OF eb_inv_init s, of "''c''"] by (simp add: subscribers_def new_eventbus_def)
qed

end
