(* ===== verification/Decision_Machine.thy ===== *)
theory Decision_Machine
  imports Js_Value
begin

text \<open>
  The decision state machine of \<^verbatim>\<open>packages/decisions/src/machine.ts\<close> with the data of
  \<^verbatim>\<open>types.ts\<close>: approving, dismissing and undoing a held action. The functions are pure and
  take the clock as an argument, as in the code. \<^verbatim>\<open>Date.parse\<close> is the parameter
  \<open>parse\<close>, whose value on a string that is no date is \<open>NaN\<close>. The world's \<^verbatim>\<open>freshness\<close> is
  read by its own keys: a kind named like a member of \<^verbatim>\<open>Object.prototype\<close> is left out.
\<close>

section \<open>Data\<close>

datatype attendance = Attended | Unattended

datatype decision_kind = KindAction | KindGrant

datatype execution_path = AgentExecutes | HostReplays

datatype decision_status =
    StPending | StExecuted | StApprovedPendingAgent | StDismissed | StStale | StExpired | StFailed

datatype approval_scope = ScopeOnce | ScopeAgentRoutines

definition OPEN_STATUSES :: "decision_status list" where
  "OPEN_STATUSES = [StPending, StStale]"

definition AUTHORISING_STATUSES :: "decision_status list" where
  "AUTHORISING_STATUSES = [StExecuted, StApprovedPendingAgent]"

record tool_call =
  tc_id :: string
  tc_name :: string
  tc_input :: jsval

record freshness_predicate =
  fp_kind :: string
  fp_value :: string
  fp_label :: "string option"

text \<open>What the card shows; none of it is computed by the machine.\<close>

record decision_card =
  dc_summary :: string
  dc_detail :: string
  dc_preview :: "(string \<times> string) option"
  dc_primaryLabel :: string
  dc_secondaryLabel :: string
  dc_ghostLabel :: string
  dc_approvedText :: string
  dc_dismissedText :: string

text \<open>The columns of replay and delivery, which the machine carries along.\<close>

record decision_replay =
  dr_consumedAt :: "string option"
  dr_replayDueAt :: "string option"
  dr_replayClaimedAt :: "string option"
  dr_replayedAt :: "string option"
  dr_replayAbandonedAt :: "string option"
  dr_replayError :: "string option"
  dr_deliveryDueAt :: "string option"
  dr_deliveredAt :: "string option"

record decision =
  d_id :: string
  d_agentId :: string
  d_ownerUserId :: string
  d_conversationId :: string
  d_kind :: decision_kind
  d_attendance :: attendance
  d_status :: decision_status
  d_call :: tool_call
  d_callFingerprint :: string
  d_ruleId :: "string option"
  d_irreversible :: bool
  d_freshness :: "freshness_predicate option"
  d_card :: decision_card
  d_createdAt :: string
  d_expiresAt :: string
  d_resolvedAt :: "string option"
  d_staleReason :: "string option"
  d_replay :: decision_replay
  d_approvalScope :: approval_scope

datatype activity_kind =
    ActDone | ActHeld | ActApproved | ActDismissed | ActWorking | ActStopped | ActExpired

record activity_event =
  ev_id :: string
  ev_agentId :: string
  ev_at :: string
  ev_text :: string
  ev_kind :: activity_kind
  ev_tag :: "string option"
  ev_decisionId :: "string option"

record approve_world =
  w_now :: string
  w_freshness :: "(string, string) jsmap"
  w_changed :: "(string, string) jsmap option"

record approve_result =
  ar_decision :: decision
  ar_executed :: bool
  ar_path :: "execution_path option"
  ar_replayCall :: "tool_call option"
  ar_event :: "activity_event option"

section \<open>Operations\<close>

abbreviation UNDO_WINDOW_MS :: rat where
  "UNDO_WINDOW_MS \<equiv> 10000"

text \<open>\<^verbatim>\<open>a >= b\<close> and \<^verbatim>\<open>a - b > w\<close> on numbers: false when either side is NaN.\<close>

fun js_ge :: "jsnum \<Rightarrow> jsnum \<Rightarrow> bool" where
  "js_ge (Fin a) (Fin b) = (b \<le> a)"
| "js_ge PosInf (Fin b) = True"
| "js_ge PosInf PosInf = True"
| "js_ge PosInf NegInf = True"
| "js_ge (Fin a) NegInf = True"
| "js_ge NegInf NegInf = True"
| "js_ge _ _ = False"

fun js_later_by_more :: "jsnum \<Rightarrow> jsnum \<Rightarrow> rat \<Rightarrow> bool" where
  "js_later_by_more (Fin a) (Fin b) w = (w < a - b)"
| "js_later_by_more PosInf (Fin b) w = True"
| "js_later_by_more PosInf NegInf w = True"
| "js_later_by_more (Fin a) NegInf w = True"
| "js_later_by_more _ _ w = False"

definition isOpen :: "decision \<Rightarrow> bool" where
  "isOpen d \<longleftrightarrow> d_status d = StPending \<or> d_status d = StStale"

definition expired :: "(string \<Rightarrow> jsnum) \<Rightarrow> decision \<Rightarrow> string \<Rightarrow> bool" where
  "expired parse d now \<longleftrightarrow> js_ge (parse now) (parse (d_expiresAt d))"

definition kind_text :: "activity_kind \<Rightarrow> string" where
  "kind_text k = (case k of ActDone \<Rightarrow> ''done'' | ActHeld \<Rightarrow> ''held'' | ActApproved \<Rightarrow> ''approved''
     | ActDismissed \<Rightarrow> ''dismissed'' | ActWorking \<Rightarrow> ''working'' | ActStopped \<Rightarrow> ''stopped''
     | ActExpired \<Rightarrow> ''expired'')"

definition decision_event :: "decision \<Rightarrow> activity_kind \<Rightarrow> string \<Rightarrow> string option \<Rightarrow> activity_event" where
  "decision_event d kind txt tag =
     \<lparr>ev_id = ''ev-'' @ d_id d @ ''-'' @ kind_text kind, ev_agentId = d_agentId d,
      ev_at = (case d_resolvedAt d of Some t \<Rightarrow> t | None \<Rightarrow> d_createdAt d),
      ev_text = txt, ev_kind = kind, ev_tag = tag, ev_decisionId = Some (d_id d)\<rparr>"

definition inert :: "decision \<Rightarrow> approve_result" where
  "inert d = \<lparr>ar_decision = d, ar_executed = False, ar_path = None, ar_replayCall = None, ar_event = None\<rparr>"

definition stale_reason :: "approve_world \<Rightarrow> string \<Rightarrow> string" where
  "stale_reason world kind =
     (case Option.bind (w_changed world) (\<lambda>m. js_get m kind) of
        Some reason \<Rightarrow> reason
      | None \<Rightarrow> ''The '' @ List.map (\<lambda>c. if c = CHR ''-'' then CHR 0x20 else c) kind @
                '' changed since this was drafted.'')"

definition executed_decision :: "decision \<Rightarrow> string \<Rightarrow> decision" where
  "executed_decision d now = d\<lparr>d_status := StExecuted, d_staleReason := None, d_resolvedAt := Some now\<rparr>"

definition execute :: "decision \<Rightarrow> string \<Rightarrow> approve_result" where
  "execute d now =
     \<lparr>ar_decision = executed_decision d now, ar_executed = True,
      ar_path = Some (if d_attendance d = Attended then AgentExecutes else HostReplays),
      ar_replayCall = Some (d_call d),
      ar_event = Some (decision_event (executed_decision d now) ActApproved
        (dc_approvedText (d_card d)) (Some ''You approved''))\<rparr>"

definition approveDecision :: "(string \<Rightarrow> jsnum) \<Rightarrow> decision \<Rightarrow> approve_world \<Rightarrow> approve_result" where
  "approveDecision parse d world =
     (if \<not> isOpen d then inert d
      else if expired parse d (w_now world) then
        (inert d)\<lparr>ar_decision := d\<lparr>d_status := StExpired, d_resolvedAt := Some (w_now world)\<rparr>\<rparr>
      else case d_freshness d of
          None \<Rightarrow> execute d (w_now world)
        | Some f \<Rightarrow>
            (case js_get (w_freshness world) (fp_kind f) of
               None \<Rightarrow> execute d (w_now world)
             | Some observed \<Rightarrow>
                 if observed \<noteq> fp_value f then
                   (inert d)\<lparr>ar_decision := d\<lparr>d_status := StStale,
                      d_staleReason := Some (stale_reason world (fp_kind f)),
                      d_freshness := Some (f\<lparr>fp_value := observed, fp_label := None\<rparr>)\<rparr>\<rparr>
                 else execute d (w_now world)))"

definition dismissDecision :: "decision \<Rightarrow> string \<Rightarrow> decision \<times> activity_event option" where
  "dismissDecision d now =
     (if \<not> isOpen d then (d, None)
      else let dismissed = d\<lparr>d_status := StDismissed, d_resolvedAt := Some now\<rparr>
           in (dismissed, Some (decision_event dismissed ActDismissed
                (dc_dismissedText (d_card d)) (Some ''You took it over''))))"

definition undoDecision :: "(string \<Rightarrow> jsnum) \<Rightarrow> decision \<Rightarrow> string \<Rightarrow> decision \<times> bool" where
  "undoDecision parse d now =
     (if d_status d \<noteq> StDismissed \<and> d_status d \<notin> set AUTHORISING_STATUSES then (d, False)
      else case d_resolvedAt d of
          None \<Rightarrow> (d, False)
        | Some t \<Rightarrow>
            if js_later_by_more (parse now) (parse t) UNDO_WINDOW_MS then (d, False)
            else (d\<lparr>d_status := StPending, d_resolvedAt := None, d_staleReason := None\<rparr>, True))"

section \<open>The freshness guard\<close>

text \<open>The world still is what it was when the decision was held: nothing was captured, nothing
  was observed, or the observation equals the capture.\<close>

definition still_fresh :: "decision \<Rightarrow> approve_world \<Rightarrow> bool" where
  "still_fresh d world \<longleftrightarrow>
     (\<forall>f. d_freshness d = Some f \<longrightarrow> js_get (w_freshness world) (fp_kind f) \<in> {None, Some (fp_value f)})"

lemma approve_cases:
  "approveDecision parse d world =
     (if \<not> isOpen d then inert d
      else if expired parse d (w_now world) then
        (inert d)\<lparr>ar_decision := d\<lparr>d_status := StExpired, d_resolvedAt := Some (w_now world)\<rparr>\<rparr>
      else if still_fresh d world then execute d (w_now world)
      else (inert d)\<lparr>ar_decision := d\<lparr>d_status := StStale,
             d_staleReason := Some (stale_reason world (fp_kind (the (d_freshness d)))),
             d_freshness := Some ((the (d_freshness d))\<lparr>fp_value :=
               the (js_get (w_freshness world) (fp_kind (the (d_freshness d)))), fp_label := None\<rparr>)\<rparr>\<rparr>)"
  by (auto simp: approveDecision_def still_fresh_def split: option.splits)

lemma execute_sel [simp]:
  "ar_executed (execute d now)" "ar_decision (execute d now) = executed_decision d now"
  "ar_replayCall (execute d now) = Some (d_call d)"
  by (simp_all add: execute_def)

lemma inert_sel [simp]:
  "\<not> ar_executed (inert d)" "ar_decision (inert d) = d" "ar_replayCall (inert d) = None"
  "ar_event (inert d) = None" "ar_path (inert d) = None"
  by (simp_all add: inert_def)

lemma executed_decision_sel [simp]:
  "d_status (executed_decision d now) = StExecuted" "\<not> isOpen (executed_decision d now)"
  "d_card (executed_decision d now) = d_card d" "d_call (executed_decision d now) = d_call d"
  by (simp_all add: executed_decision_def isOpen_def)

section \<open>Properties\<close>

text \<open>Approval executes exactly when it may: the decision is open, not expired at the moment
  of approval, and the world it was drafted against has not moved. Then the recorded call goes
  out verbatim with the authored approval line; otherwise nothing goes out and no event is
  written.\<close>

theorem approve_executes_exactly_when_allowed:
  "ar_executed (approveDecision parse d world) =
     (isOpen d \<and> \<not> expired parse d (w_now world) \<and> still_fresh d world) \<and>
   (if ar_executed (approveDecision parse d world)
    then ar_replayCall (approveDecision parse d world) = Some (d_call d) \<and>
         map_option ev_text (ar_event (approveDecision parse d world)) = Some (dc_approvedText (d_card d)) \<and>
         d_status (ar_decision (approveDecision parse d world)) = StExecuted
    else ar_replayCall (approveDecision parse d world) = None \<and>
         ar_event (approveDecision parse d world) = None \<and> ar_path (approveDecision parse d world) = None)"
  by (auto simp: approve_cases execute_def decision_event_def)

text \<open>A stale decision does not bounce forever: after the guard re-opened it, approving again
  in the same world executes, unless it has expired in between.\<close>

theorem stale_then_approve_executes:
  assumes "isOpen d" and "\<not> expired parse d (w_now world)" and "\<not> still_fresh d world"
    and "w_freshness world2 = w_freshness world" and "\<not> expired parse d (w_now world2)"
  shows "d_status (ar_decision (approveDecision parse d world)) = StStale \<and>
    ar_executed (approveDecision parse (ar_decision (approveDecision parse d world)) world2)"
proof -
  let ?d = "ar_decision (approveDecision parse d world)"
  from assms(3) obtain f v where f: "d_freshness d = Some f" "js_get (w_freshness world) (fp_kind f) = Some v"
    by (auto simp: still_fresh_def)
  have d: "?d = d\<lparr>d_status := StStale, d_staleReason := Some (stale_reason world (fp_kind f)),
      d_freshness := Some (f\<lparr>fp_value := v, fp_label := None\<rparr>)\<rparr>"
    using assms(1-3) f by (simp add: approve_cases)
  have "isOpen ?d" "\<not> expired parse ?d (w_now world2)" "still_fresh ?d world2"
    using assms(4,5) f unfolding d by (simp_all add: isOpen_def expired_def still_fresh_def)
  then show ?thesis using d by (simp add: approve_cases)
qed

text \<open>Any history of one decision, with the clock and the world of each step.\<close>

datatype decision_action =
    Approve approve_world
  | Dismiss string
  | Undo string

text \<open>One action: the decision after it, whether it sent the call, whether it took a resolution back.\<close>

fun decision_step :: "(string \<Rightarrow> jsnum) \<Rightarrow> decision_action \<Rightarrow> decision \<Rightarrow> decision \<times> bool \<times> bool" where
  "decision_step parse (Approve world) d =
     (ar_decision (approveDecision parse d world), ar_executed (approveDecision parse d world), False)"
| "decision_step parse (Dismiss now) d = (fst (dismissDecision d now), False, False)"
| "decision_step parse (Undo now) d = (fst (undoDecision parse d now), False, snd (undoDecision parse d now))"

fun sends_and_undos :: "(string \<Rightarrow> jsnum) \<Rightarrow> decision_action list \<Rightarrow> decision \<Rightarrow> nat \<times> nat" where
  "sends_and_undos parse [] d = (0, 0)"
| "sends_and_undos parse (a # as) d =
     (let (d', sent, undone) = decision_step parse a d; (s, u) = sends_and_undos parse as d'
      in ((if sent then 1 else 0) + s, (if undone then 1 else 0) + u))"

lemma decision_step_open:
  assumes "decision_step parse a d = (d', sent, undone)"
  shows "(sent \<longrightarrow> isOpen d \<and> \<not> isOpen d') \<and> (isOpen d' \<longrightarrow> isOpen d \<or> undone) \<and> \<not> (sent \<and> undone) \<and>
    (undone \<longrightarrow> \<not> isOpen d)"
proof (cases a)
  case (Approve world)
  with assms show ?thesis by (auto simp: approve_cases isOpen_def split: if_splits)
next
  case (Dismiss now)
  with assms show ?thesis by (auto simp: dismissDecision_def isOpen_def Let_def split: if_splits)
next
  case (Undo now)
  with assms show ?thesis
    by (auto simp: undoDecision_def isOpen_def AUTHORISING_STATUSES_def split: if_splits option.splits)
qed

lemma sends_bounded:
  "sends_and_undos parse as d = (s, u) \<Longrightarrow> s \<le> u + (if isOpen d then 1 else 0)"
proof (induction as arbitrary: d s u)
  case Nil
  then show ?case by simp
next
  case (Cons a as)
  obtain d' sent undone where st: "decision_step parse a d = (d', sent, undone)" by (metis prod_cases3)
  obtain s' u' where rest: "sends_and_undos parse as d' = (s', u')" by force
  from Cons.IH[OF rest] Cons.prems st rest decision_step_open[OF st] show ?case
    by (auto split: if_splits)
qed

text \<open>C37. Approving twice sends once: along any sequence of approvals, dismissals and undos (a
  double click, a retried request, two open tabs), at whatever times and in whatever worlds, the
  call is sent at most once more often than a resolution was successfully taken back; a decision
  that is not open sends nothing until then.\<close>

theorem approving_twice_sends_once:
  "fst (sends_and_undos parse as d) \<le> snd (sends_and_undos parse as d) + (if isOpen d then 1 else 0)"
  using sends_bounded[of parse as d "fst (sends_and_undos parse as d)" "snd (sends_and_undos parse as d)"]
  by simp

text \<open>Undo within the window gives back a pending decision that differs from the one that was
  resolved in nothing but its status fields, so it can be approved or dismissed again; later
  than the window, or twice, it does nothing.\<close>

theorem undo_restores_within_the_window:
  assumes "isOpen d" and "parse t0 = Fin a" and "parse t1 = Fin b"
  shows "undoDecision parse (fst (dismissDecision d t0)) t1 =
      (if b - a \<le> UNDO_WINDOW_MS then (d\<lparr>d_status := StPending, d_resolvedAt := None, d_staleReason := None\<rparr>, True)
       else (fst (dismissDecision d t0), False)) \<and>
    undoDecision parse (executed_decision d t0) t1 =
      (if b - a \<le> UNDO_WINDOW_MS then (d\<lparr>d_status := StPending, d_resolvedAt := None, d_staleReason := None\<rparr>, True)
       else (executed_decision d t0, False)) \<and>
    (\<forall>t2. undoDecision parse (d\<lparr>d_status := StPending, d_resolvedAt := None, d_staleReason := None\<rparr>) t2 =
       (d\<lparr>d_status := StPending, d_resolvedAt := None, d_staleReason := None\<rparr>, False))"
  using assms
  by (auto simp: undoDecision_def dismissDecision_def executed_decision_def AUTHORISING_STATUSES_def Let_def)

definition demo_decision :: decision where
  "demo_decision = \<lparr>d_id = ''d1'', d_agentId = ''a'', d_ownerUserId = ''u'', d_conversationId = ''c'',
     d_kind = KindAction, d_attendance = Attended, d_status = StPending,
     d_call = \<lparr>tc_id = ''t'', tc_name = ''send'', tc_input = JNull\<rparr>, d_callFingerprint = ''f'',
     d_ruleId = None, d_irreversible = True,
     d_freshness = Some \<lparr>fp_kind = ''thread'', fp_value = ''v1'', fp_label = Some ''seen''\<rparr>,
     d_card = \<lparr>dc_summary = [], dc_detail = [], dc_preview = None, dc_primaryLabel = [], dc_secondaryLabel = [],
       dc_ghostLabel = [], dc_approvedText = ''sent'', dc_dismissedText = ''not sent''\<rparr>,
     d_createdAt = ''0'', d_expiresAt = ''9'', d_resolvedAt = None, d_staleReason = None,
     d_replay = \<lparr>dr_consumedAt = None, dr_replayDueAt = None, dr_replayClaimedAt = None, dr_replayedAt = None,
       dr_replayAbandonedAt = None, dr_replayError = None, dr_deliveryDueAt = None, dr_deliveredAt = None\<rparr>,
     d_approvalScope = ScopeOnce\<rparr>"

text \<open>A clock for the examples: the time is the length of its name, in seconds.\<close>

definition demo_parse :: "string \<Rightarrow> jsnum" where
  "demo_parse s = Fin (if s = ''9'' then 900000 else of_nat (length s) * 1000)"

theorem stale_then_approve_executes_witness:
  "let world = \<lparr>w_now = ''1'', w_freshness = [(''thread'', ''v2'')], w_changed = None\<rparr> in
   ar_executed (approveDecision demo_parse (ar_decision (approveDecision demo_parse demo_decision world)) world)"
proof -
  let ?world = "\<lparr>w_now = ''1'', w_freshness = [(''thread'', ''v2'')], w_changed = None\<rparr> :: approve_world"
  have "ar_executed (approveDecision demo_parse (ar_decision (approveDecision demo_parse demo_decision ?world)) ?world)"
    by (rule conjunct2[OF stale_then_approve_executes])
      (simp_all add: demo_decision_def isOpen_def expired_def demo_parse_def still_fresh_def)
  then show ?thesis by simp
qed

theorem undo_restores_within_the_window_witness:
  "snd (undoDecision demo_parse (fst (dismissDecision demo_decision ''1'')) ''11'')"
proof -
  have "isOpen demo_decision" by (simp add: demo_decision_def isOpen_def)
  moreover have "demo_parse ''1'' = Fin 1000" "demo_parse ''11'' = Fin 2000" by (simp_all add: demo_parse_def)
  ultimately show ?thesis
    using undo_restores_within_the_window[of demo_decision demo_parse "''1''" 1000 "''11''" 2000] by simp
qed

end
