(* ===== verification/Tool_Verdicts.thy ===== *)
theory Tool_Verdicts
  imports Js_Value
begin

text \<open>
  The pure half of the tool policy: the verdict order and the layering of
  \<^verbatim>\<open>packages/tool-policy/src/verdicts.ts\<close>, and the key syntax of connector tools. A verdict
  that comes from a stored row is \<^verbatim>\<open>unknown\<close> to the type system; it is a \<open>raw_verdict\<close>.
\<close>

section \<open>Verdicts\<close>

datatype policy_verdict = VAllow | VHold | VDeny

datatype raw_verdict = Known policy_verdict | Foreign string

fun severity_of :: "policy_verdict \<Rightarrow> nat" where
  "severity_of VAllow = 0"
| "severity_of VHold = 1"
| "severity_of VDeny = 2"

text \<open>Verdicts are ordered by strictness: allow < hold < deny.\<close>

instantiation policy_verdict :: linorder
begin

definition less_eq_policy_verdict :: "policy_verdict \<Rightarrow> policy_verdict \<Rightarrow> bool" where
  "less_eq_policy_verdict v w \<longleftrightarrow> severity_of v \<le> severity_of w"

definition less_policy_verdict :: "policy_verdict \<Rightarrow> policy_verdict \<Rightarrow> bool" where
  "less_policy_verdict v w \<longleftrightarrow> severity_of v < severity_of w"

instance
proof
  fix v w :: policy_verdict
  assume "v \<le> w" "w \<le> v"
  then show "v = w" by (cases v; cases w) (simp_all add: less_eq_policy_verdict_def)
qed (auto simp: less_eq_policy_verdict_def less_policy_verdict_def)

end

lemma verdict_order [simp]:
  "VAllow \<le> v" "v \<le> VDeny" "v \<le> VAllow \<longleftrightarrow> v = VAllow" "VDeny \<le> v \<longleftrightarrow> v = VDeny"
  "VAllow < VHold" "VHold < VDeny" "\<not> VHold \<le> VAllow"
  by (cases v; simp add: less_eq_policy_verdict_def less_policy_verdict_def)+

text \<open>\<^verbatim>\<open>SEVERITY[v]\<close>: an object literal also answers for the names it inherits from
  \<^verbatim>\<open>Object.prototype\<close>, with a value that is neither undefined nor a number.\<close>

datatype lookup = LkNumber nat | LkUndefined | LkInherited

fun SEVERITY :: "raw_verdict \<Rightarrow> lookup" where
  "SEVERITY (Known v) = LkNumber (severity_of v)"
| "SEVERITY (Foreign s) = (if s \<in> set OBJECT_PROTOTYPE_NAMES then LkInherited else LkUndefined)"

text \<open>The loop of \<^verbatim>\<open>strictest\<close>, with its accumulator \<^verbatim>\<open>out\<close>. Comparing an inherited value with
  a number is false.\<close>

fun strictest_from :: "policy_verdict \<Rightarrow> raw_verdict option list \<Rightarrow> policy_verdict" where
  "strictest_from out [] = out"
| "strictest_from out (None # vs) = strictest_from out vs"
| "strictest_from out (Some v # vs) =
     (case SEVERITY v of
        LkUndefined \<Rightarrow> VDeny
      | LkInherited \<Rightarrow> strictest_from out vs
      | LkNumber s \<Rightarrow>
          if severity_of out < s then (case v of Known w \<Rightarrow> strictest_from w vs | Foreign _ \<Rightarrow> strictest_from out vs)
          else strictest_from out vs)"

definition strictest :: "raw_verdict option list \<Rightarrow> policy_verdict" where
  "strictest vs = strictest_from VAllow vs"

definition isLooserThan :: "policy_verdict \<Rightarrow> policy_verdict \<Rightarrow> bool" where
  "isLooserThan candidate cap \<longleftrightarrow> severity_of candidate < severity_of cap"

text \<open>\<^verbatim>\<open>isPolicyVerdict\<close>, with the verdict it narrows to.\<close>

definition isPolicyVerdict :: "jsval \<Rightarrow> policy_verdict option" where
  "isPolicyVerdict v =
     (if v = JStr ''allow'' then Some VAllow
      else if v = JStr ''hold'' then Some VHold
      else if v = JStr ''deny'' then Some VDeny
      else None)"

section \<open>Keys\<close>

definition ABILITY_TOOLS :: "string list" where
  "ABILITY_TOOLS = [''web_search'', ''web_extract'', ''Bash'']"

definition MAX_TOOL_KEY_CHARS :: nat where
  "MAX_TOOL_KEY_CHARS = 200"

definition CONNECTOR_TOOL_NAMESPACE_RE :: "string \<Rightarrow> bool" where
  "CONNECTOR_TOOL_NAMESPACE_RE s \<longleftrightarrow>
     (case s of [] \<Rightarrow> False | c # r \<Rightarrow> c = CHR ''c'' \<and> length r = 10 \<and> list_all is_hex r)"

definition TOOL_NAME_RE :: "string \<Rightarrow> bool" where
  "TOOL_NAME_RE s \<longleftrightarrow> s \<noteq> [] \<and> list_all (\<lambda>c. 0x21 \<le> (of_char c :: nat) \<and> (of_char c :: nat) \<le> 0x7e) s"

definition parseConnectorToolKey :: "string \<Rightarrow> (string \<times> string) option" where
  "parseConnectorToolKey key =
     (if MAX_TOOL_KEY_CHARS < length key then None
      else if \<not> starts_with ''mcp.'' key then None
      else let rest = drop 4 key in
        case index_of CHR ''.'' rest of
          None \<Rightarrow> None
        | Some dot \<Rightarrow>
            if dot = 0 then None
            else let ns = take dot rest; tool = drop (dot + 1) rest in
              if \<not> CONNECTOR_TOOL_NAMESPACE_RE ns then None
              else if length tool = 0 \<or> \<not> TOOL_NAME_RE tool then None
              else Some (ns, tool))"

definition isMcpToolKey :: "string \<Rightarrow> bool" where
  "isMcpToolKey key \<longleftrightarrow>
     (if MAX_TOOL_KEY_CHARS < length key then False
      else if \<not> starts_with ''mcp.'' key then False
      else let rest = drop 4 key in
        case index_of CHR ''.'' rest of
          None \<Rightarrow> False
        | Some dot \<Rightarrow> if dot = 0 \<or> dot + 1 = length rest then False else TOOL_NAME_RE rest)"

definition isOverridableKey :: "string \<Rightarrow> bool" where
  "isOverridableKey key \<longleftrightarrow> key \<in> set ABILITY_TOOLS \<or> isMcpToolKey key"

definition consultsVerdictStore :: "string \<Rightarrow> bool" where
  "consultsVerdictStore toolName \<longleftrightarrow> isOverridableKey toolName"

definition isMcpSpelled :: "string \<Rightarrow> bool" where
  "isMcpSpelled toolName \<longleftrightarrow> starts_with ''mcp.'' toolName \<or> starts_with ''mcp__'' toolName"

text \<open>\<^verbatim>\<open>toolKeyOf\<close> of \<^verbatim>\<open>verdict-store.ts\<close>.\<close>

definition toolKeyOf :: "string \<Rightarrow> string \<Rightarrow> string" where
  "toolKeyOf toolNamespace tool = ''mcp.'' @ toolNamespace @ ''.'' @ tool"

section \<open>Ceilings and layers\<close>

definition implicitMcpCeiling :: "string \<Rightarrow> raw_verdict option \<Rightarrow> bool \<Rightarrow> raw_verdict option" where
  "implicitMcpCeiling toolName connectorDefault agentSourced =
     (if parseConnectorToolKey toolName \<noteq> None then
        (if agentSourced then None
         else Some (case connectorDefault of Some v \<Rightarrow> v | None \<Rightarrow> Known VHold))
      else if isMcpSpelled toolName then Some (Known VHold) else None)"

definition layeredVerdict ::
  "string \<Rightarrow> policy_verdict \<Rightarrow> raw_verdict option \<Rightarrow> raw_verdict option \<Rightarrow> bool \<Rightarrow> policy_verdict" where
  "layeredVerdict toolName staticVerdict connectorDefault override agentSourced =
     (if agentSourced \<and> parseConnectorToolKey toolName \<noteq> None then
        strictest [Some (Known staticVerdict), Some (case override of Some v \<Rightarrow> v | None \<Rightarrow> Known VHold)]
      else
        strictest [Some (Known staticVerdict), implicitMcpCeiling toolName connectorDefault False, override])"

section \<open>Strictness\<close>

text \<open>What a raw verdict contributes: itself, deny when it is unrecognised, nothing when its name
  is inherited.\<close>

fun reading :: "raw_verdict \<Rightarrow> policy_verdict" where
  "reading (Known v) = v"
| "reading (Foreign s) = (if s \<in> set OBJECT_PROTOTYPE_NAMES then VAllow else VDeny)"

lemma strictest_from_fold:
  "strictest_from out vs = fold max (List.map reading (List.map the [v \<leftarrow> vs. v \<noteq> None])) out"
proof (induction out vs rule: strictest_from.induct)
  case (3 out v vs)
  have deny: "fold max xs VDeny = VDeny" for xs :: "policy_verdict list"
    by (induction xs) (auto simp: max_def)
  show ?case
  proof (cases v)
    case (Known w)
    with 3 show ?thesis
      by (cases "severity_of out < severity_of w")
        (simp_all add: max_def less_eq_policy_verdict_def)
  next
    case (Foreign s)
    with 3 deny show ?thesis by (auto simp: max_absorb1 max_absorb2)
  qed
qed simp_all

lemma fold_max_ge: "(y::'a::linorder) \<le> fold max xs y \<and> (\<forall>x \<in> set xs. x \<le> fold max xs y)"
  by (induction xs arbitrary: y) (auto, (metis max.bounded_iff)+)

lemma fold_max_le: "fold max xs (y::'a::linorder) \<le> z \<longleftrightarrow> y \<le> z \<and> (\<forall>x \<in> set xs. x \<le> z)"
  by (induction xs arbitrary: y) auto

lemma strictest_le: "strictest vs \<le> z \<longleftrightarrow> (\<forall>v. Some v \<in> set vs \<longrightarrow> reading v \<le> z)"
  by (force simp: strictest_def strictest_from_fold fold_max_le)

lemma strictest_ge: "Some v \<in> set vs \<Longrightarrow> reading v \<le> strictest vs"
  using strictest_le by blast

lemma strictest_eqI:
  "\<lbrakk>\<And>v. Some v \<in> set vs \<Longrightarrow> reading v \<le> z; \<exists>v. Some v \<in> set vs \<and> reading v = z\<rbrakk> \<Longrightarrow> strictest vs = z"
  by (metis antisym strictest_ge strictest_le)

lemma isLooserThan_less: "isLooserThan v w \<longleftrightarrow> v < w"
  by (simp add: isLooserThan_def less_policy_verdict_def)

section \<open>Keys are read back\<close>

lemma parseConnectorToolKey_Some:
  assumes "parseConnectorToolKey key = Some (ns, tool)"
  shows "key = toolKeyOf ns tool \<and> CONNECTOR_TOOL_NAMESPACE_RE ns \<and> TOOL_NAME_RE tool"
proof -
  from assms obtain dot where pre: "starts_with ''mcp.'' key" and dot: "index_of CHR ''.'' (drop 4 key) = Some dot"
    and ns: "ns = take dot (drop 4 key)" "tool = drop (Suc dot) (drop 4 key)"
    and ok: "CONNECTOR_TOOL_NAMESPACE_RE ns" "TOOL_NAME_RE tool"
    by (auto simp: parseConnectorToolKey_def Let_def split: if_splits option.splits)
  have "key = ''mcp.'' @ drop 4 key" using starts_with_drop[OF pre] by (simp add: numeral_eq_Suc)
  also have "drop 4 key = ns @ CHR ''.'' # tool" using index_of_split[OF dot] ns by simp
  finally show ?thesis using ok by (simp add: toolKeyOf_def)
qed

lemma namespace_no_dot:
  assumes "CONNECTOR_TOOL_NAMESPACE_RE ns"
  shows "ns \<noteq> [] \<and> CHR ''.'' \<notin> set ns"
proof -
  from assms obtain r where ns: "ns = CHR ''c'' # r" "list_all is_hex r"
    by (auto simp: CONNECTOR_TOOL_NAMESPACE_RE_def split: list.splits)
  have "\<not> is_hex CHR ''.''" by (simp add: is_hex_def is_digit_def)
  with ns show ?thesis by (auto simp: list_all_iff)
qed

lemma parseConnectorToolKey_toolKeyOf:
  assumes "CONNECTOR_TOOL_NAMESPACE_RE ns" "TOOL_NAME_RE tool" "length (toolKeyOf ns tool) \<le> MAX_TOOL_KEY_CHARS"
  shows "parseConnectorToolKey (toolKeyOf ns tool) = Some (ns, tool)"
proof -
  have "index_of CHR ''.'' (ns @ CHR ''.'' # tool) = Some (length ns)"
    using namespace_no_dot[OF assms(1)] by (intro index_of_append) simp
  moreover have "tool \<noteq> []" "ns \<noteq> []" using assms(2) namespace_no_dot[OF assms(1)] by (auto simp: TOOL_NAME_RE_def)
  ultimately show ?thesis using assms
    by (simp add: parseConnectorToolKey_def toolKeyOf_def starts_with_def not_less Let_def)
qed

lemma parseConnectorToolKey_length: "parseConnectorToolKey key = Some p \<Longrightarrow> length key \<le> MAX_TOOL_KEY_CHARS"
  by (auto simp: parseConnectorToolKey_def split: if_splits)

lemma hex_printable: "is_hex c \<Longrightarrow> 0x21 \<le> (of_char c :: nat) \<and> (of_char c :: nat) \<le> 0x7e"
  by (auto simp: is_hex_def is_digit_def)

lemma connector_key_is_mcp_key:
  assumes "parseConnectorToolKey key = Some (ns, tool)"
  shows "isMcpToolKey key \<and> isMcpSpelled key"
proof -
  from parseConnectorToolKey_Some[OF assms] have key: "key = toolKeyOf ns tool"
    and ns: "CONNECTOR_TOOL_NAMESPACE_RE ns" and tool: "TOOL_NAME_RE tool" by auto
  have len: "length key \<le> MAX_TOOL_KEY_CHARS"
    using assms by (auto simp: parseConnectorToolKey_def split: if_splits)
  have ix: "index_of CHR ''.'' (ns @ CHR ''.'' # tool) = Some (length ns)"
    using namespace_no_dot[OF ns] by (intro index_of_append) simp
  from ns obtain r where "ns = CHR ''c'' # r" "list_all is_hex r"
    by (auto simp: CONNECTOR_TOOL_NAMESPACE_RE_def split: list.splits)
  then have "TOOL_NAME_RE (ns @ CHR ''.'' # tool)"
    using tool hex_printable by (auto simp: TOOL_NAME_RE_def list_all_iff)
  moreover have "ns \<noteq> []" "tool \<noteq> []" using tool namespace_no_dot[OF ns] by (auto simp: TOOL_NAME_RE_def)
  ultimately show ?thesis using len ix
    by (simp add: key isMcpToolKey_def isMcpSpelled_def toolKeyOf_def starts_with_def not_less Let_def)
qed

section \<open>Properties\<close>

text \<open>\<^verbatim>\<open>strictest\<close> is the maximum of the verdict order over the recognised verdicts it is
  given, starting from allow, and an unrecognised stored value makes it deny, wherever it
  stands; except that a value spelled like a member of \<^verbatim>\<open>Object.prototype\<close> counts for
  nothing.\<close>

theorem strictest_is_the_maximum:
  "strictest vs = Max (insert VAllow {reading v |v. Some v \<in> set vs})"
proof -
  have fin: "finite {reading v |v. Some v \<in> set vs}"
  proof -
    have "{reading v |v. Some v \<in> set vs} \<subseteq> (reading \<circ> the) ` set vs" by force
    then show ?thesis by (rule finite_subset) simp
  qed
  show ?thesis
  proof (rule antisym)
    show "strictest vs \<le> Max (insert VAllow {reading v |v. Some v \<in> set vs})"
      unfolding strictest_le using fin by (auto intro!: Max_ge)
    show "Max (insert VAllow {reading v |v. Some v \<in> set vs}) \<le> strictest vs"
      using fin strictest_ge by (auto simp: Max_le_iff)
  qed
qed

text \<open>C38. Tighten-only: the effective verdict is never looser than the static verdict of the call,
  nor than the agent's override, nor, for a tool that is not agent-sourced, than the connector's
  default; and an MCP tool nobody chose anything for is at least held.\<close>

theorem layers_only_tighten:
  "sv \<le> layeredVerdict name sv dflt override src \<and>
   (\<forall>v. override = Some v \<longrightarrow> reading v \<le> layeredVerdict name sv dflt override src) \<and>
   (\<forall>v. dflt = Some v \<and> \<not> src \<and> parseConnectorToolKey name \<noteq> None \<longrightarrow>
      reading v \<le> layeredVerdict name sv dflt override src) \<and>
   (isMcpSpelled name \<and> override = None \<and> (dflt = None \<or> src) \<longrightarrow>
      VHold \<le> layeredVerdict name sv dflt override src)"
proof -
  let ?L = "layeredVerdict name sv dflt override src"
  have "sv \<le> ?L"
    using strictest_ge[of "Known sv"] by (auto simp: layeredVerdict_def)
  moreover have "reading v \<le> ?L" if "override = Some v" for v
    using that strictest_ge[of v] by (auto simp: layeredVerdict_def)
  moreover have "reading v \<le> ?L" if "dflt = Some v" "\<not> src" "parseConnectorToolKey name \<noteq> None" for v
    using that strictest_ge[of v] by (auto simp: layeredVerdict_def implicitMcpCeiling_def)
  moreover have "VHold \<le> ?L" if "isMcpSpelled name" "override = None" "dflt = None \<or> src"
    using that strictest_ge[of "Known VHold"]
    by (auto simp: layeredVerdict_def implicitMcpCeiling_def)
  ultimately show ?thesis by blast
qed

theorem layers_only_tighten_witness:
  "VHold \<le> layeredVerdict ''mcp.c0123456789.send'' VAllow None None False"
  using layers_only_tighten[of VAllow "''mcp.c0123456789.send''" None None False]
  by (simp add: isMcpSpelled_def starts_with_def)

text \<open>Connector tool keys round-trip: a namespace and a tool name of the right shape whose key
  fits the limit are read back from it, and whatever is read from a key was what it was built
  from; every such key is one the verdict store is consulted for.\<close>

theorem connector_key_roundtrip:
  "parseConnectorToolKey key = Some (ns, tool) \<longleftrightarrow>
     key = toolKeyOf ns tool \<and> CONNECTOR_TOOL_NAMESPACE_RE ns \<and> TOOL_NAME_RE tool \<and>
     length key \<le> MAX_TOOL_KEY_CHARS"
  using parseConnectorToolKey_Some parseConnectorToolKey_toolKeyOf parseConnectorToolKey_length by blast

end

