(* ===== verification/Tool_Rules.thy ===== *)
theory Tool_Rules
  imports Tool_Verdicts
begin

text \<open>
  The static rule table of \<^verbatim>\<open>packages/tool-policy/src/rules.ts\<close> and the evaluation of a call
  against a table, \<^verbatim>\<open>evaluate.ts\<close>, with the ceilings of \<^verbatim>\<open>verdicts.ts\<close> that read it. The
  host of a URL is the parameter \<open>url_hostname\<close>: \<^verbatim>\<open>new URL(raw).hostname\<close>, \<open>None\<close> where
  the constructor throws.
\<close>

section \<open>Rules\<close>

datatype scalar = ScStr string | ScNum jsnum | ScBool bool

record predicate_spec =
  ps_field :: string
  ps_equals :: scalar

datatype tool_effect = Outward | Spends

datatype rule_provenance = ProvRule | ProvCatalog

datatype provider = ByHost | BySandbox

record policy_rule =
  pr_id :: string
  pr_tool :: string
  pr_when :: "predicate_spec option"
  pr_verdict :: policy_verdict
  pr_capability :: string
  pr_provenance :: "rule_provenance option"
  pr_irreversible :: bool
  pr_routineConsent :: bool
  pr_effect :: "tool_effect list option"
  pr_egress :: "string option"
  pr_providedBy :: "provider option"

definition builtin ::
  "string \<Rightarrow> string \<Rightarrow> provider \<Rightarrow> policy_verdict \<Rightarrow> string \<Rightarrow> rule_provenance \<Rightarrow> policy_rule" where
  "builtin i tool prov v cap pv =
     \<lparr>pr_id = i, pr_tool = tool, pr_when = None, pr_verdict = v, pr_capability = cap,
      pr_provenance = Some pv, pr_irreversible = False, pr_routineConsent = False,
      pr_effect = None, pr_egress = None, pr_providedBy = Some prov\<rparr>"

definition restricted_rules :: "policy_rule list" where
  "restricted_rules =
    [(builtin ''builtins.web-fetch'' ''WebFetch'' BySandbox VDeny ''reach websites outside the recorded connection'' ProvRule),
     (builtin ''builtins.web-search'' ''WebSearch'' BySandbox VDeny ''search the web outside the recorded connection'' ProvRule),
     (builtin ''builtins.task'' ''Task'' BySandbox VDeny ''start a hidden helper agent'' ProvRule),
     (builtin ''builtins.ask-user-question'' ''AskUserQuestion'' BySandbox VDeny ''put a multiple-choice question on your screen'' ProvRule),
     (builtin ''skills.request-capability'' ''request_capability'' ByHost VHold ''gain access to a new service or key'' ProvRule),
     (builtin ''connectors.propose'' ''connector_propose'' ByHost VHold ''request a new connection from your workspace admin'' ProvRule),
     (builtin ''skills.propose'' ''skill_propose'' ByHost VHold ''install a skill it wrote for itself'' ProvRule)]"

definition catalog_rules :: "policy_rule list" where
  "catalog_rules =
    [(builtin ''web.search'' ''web_search'' ByHost VAllow ''search the web'' ProvCatalog)
       \<lparr>pr_effect := Some [Spends]\<rparr>,
     (builtin ''web.extract'' ''web_extract'' ByHost VHold ''read a web page, and remember the site it came from'' ProvRule)
       \<lparr>pr_effect := Some [Spends, Outward], pr_egress := Some ''url''\<rparr>,
     (builtin ''memory.note'' ''memory_note'' ByHost VAllow ''write a note to its own memory'' ProvCatalog),
     (builtin ''memory.recall'' ''memory_recall'' ByHost VAllow ''bring up what it remembers from earlier conversations'' ProvCatalog),
     (builtin ''memory.use'' ''memory_use'' ByHost VAllow ''identify the remembered facts supporting its answer'' ProvCatalog),
     (builtin ''skills.search-catalog'' ''search_catalog'' ByHost VAllow ''look through the skill catalog'' ProvCatalog),
     (builtin ''artifacts.publish'' ''artifact_publish'' ByHost VAllow ''publish a file for you to open'' ProvCatalog),
     (builtin ''visuals.show'' ''show_visual'' ByHost VAllow ''show you charts and visual cards in the chat'' ProvCatalog)]"

definition sandbox_rules :: "policy_rule list" where
  "sandbox_rules =
    [(builtin ''sandbox.bash'' ''Bash'' BySandbox VAllow ''run commands inside its own private workspace'' ProvCatalog),
     (builtin ''sandbox.read'' ''Read'' BySandbox VAllow ''read files in its own workspace'' ProvCatalog),
     (builtin ''sandbox.write'' ''Write'' BySandbox VAllow ''create files in its own workspace'' ProvCatalog),
     (builtin ''sandbox.edit'' ''Edit'' BySandbox VAllow ''change files in its own workspace'' ProvCatalog),
     (builtin ''sandbox.glob'' ''Glob'' BySandbox VAllow ''find files by name in its own workspace'' ProvCatalog),
     (builtin ''sandbox.grep'' ''Grep'' BySandbox VAllow ''search inside files in its own workspace'' ProvCatalog)]"

definition routine_rules :: "policy_rule list" where
  "routine_rules =
    [(builtin ''routines.list'' ''routine_list'' ByHost VAllow ''list routines'' ProvRule),
     (builtin ''routines.get'' ''routine_get'' ByHost VAllow ''read a routine'' ProvRule),
     (builtin ''routines.create'' ''routine_create'' ByHost VHold ''create routines'' ProvRule)
       \<lparr>pr_routineConsent := True\<rparr>,
     (builtin ''routines.update'' ''routine_update'' ByHost VHold ''edit routines'' ProvRule)
       \<lparr>pr_routineConsent := True\<rparr>,
     (builtin ''routines.delete'' ''routine_delete'' ByHost VHold ''delete routines'' ProvRule),
     (builtin ''routines.fire-now'' ''routine_fire_now'' ByHost VHold ''run a routine now'' ProvRule)
       \<lparr>pr_effect := Some [Spends, Outward], pr_irreversible := True\<rparr>,
     (builtin ''routines.report'' ''routine_report'' ByHost VAllow ''report on a task'' ProvRule)]"

definition BUILTIN_RULES :: "policy_rule list" where
  "BUILTIN_RULES = restricted_rules @ catalog_rules @ sandbox_rules @ routine_rules"

section \<open>Matching\<close>

text \<open>Own properties: the keys of an object; the indices and the length of an array.\<close>

fun digits_value :: "string \<Rightarrow> nat" where
  "digits_value s = foldl (\<lambda>n c. 10 * n + (of_char c - 48)) 0 s"

definition array_index :: "string \<Rightarrow> nat option" where
  "array_index s =
     (if s \<noteq> [] \<and> list_all is_digit s \<and> (length s = 1 \<or> hd s \<noteq> CHR ''0'') then Some (digits_value s) else None)"

fun own_property :: "jsval \<Rightarrow> string \<Rightarrow> jsval option" where
  "own_property (JObj fs) n = js_get fs n"
| "own_property (JArr vs) n =
     (if n = ''length'' then Some (JNum (Fin (of_nat (length vs))))
      else case array_index n of
        None \<Rightarrow> None
      | Some i \<Rightarrow> if i < length vs then Some (vs ! i) else None)"
| "own_property _ n = None"

text \<open>\<^verbatim>\<open>===\<close> of a value with a string, a number or a boolean.\<close>

fun strict_equals :: "jsval \<Rightarrow> scalar \<Rightarrow> bool" where
  "strict_equals (JStr s) (ScStr t) = (s = t)"
| "strict_equals (JBool b) (ScBool c) = (b = c)"
| "strict_equals (JNum a) (ScNum b) = (a = b \<and> a \<noteq> NaN)"
| "strict_equals _ _ = False"

fun is_scalar :: "jsval \<Rightarrow> bool" where
  "is_scalar (JStr _) = True"
| "is_scalar (JNum _) = True"
| "is_scalar (JBool _) = True"
| "is_scalar _ = False"

definition matches :: "predicate_spec option \<Rightarrow> jsval \<Rightarrow> bool" where
  "matches when input =
     (case when of
        None \<Rightarrow> True
      | Some w \<Rightarrow>
          if \<not> is_object input then False
          else case own_property input (ps_field w) of
              None \<Rightarrow> False
            | Some actual \<Rightarrow> if \<not> is_scalar actual then False else strict_equals actual (ps_equals w))"

definition strip_brackets :: "string \<Rightarrow> string" where
  "strip_brackets s =
     (let t = (if s \<noteq> [] \<and> hd s = CHR ''['' then tl s else s)
      in if t \<noteq> [] \<and> last t = CHR '']'' then butlast t else t)"

definition egressHost :: "(string \<Rightarrow> string option) \<Rightarrow> jsval \<Rightarrow> string \<Rightarrow> string option" where
  "egressHost url_hostname input urlField =
     (if \<not> is_object input then None
      else case own_property input urlField of
          Some (JStr raw) \<Rightarrow>
            (case url_hostname raw of
               None \<Rightarrow> None
             | Some h \<Rightarrow>
                 let host = List.map lower_char (strip_brackets h)
                 in if host = [] then None else Some host)
        | _ \<Rightarrow> None)"

record evaluate_options =
  eo_allowedHosts :: "string list option"
  eo_routineConsentAllowed :: "bool option"

definition egressAllows :: "(string \<Rightarrow> string option) \<Rightarrow> policy_rule \<Rightarrow> jsval \<Rightarrow> string list option \<Rightarrow> bool" where
  "egressAllows url_hostname rule input allowedHosts =
     (case pr_egress rule of
        None \<Rightarrow> False
      | Some urlField \<Rightarrow>
          (case allowedHosts of
             None \<Rightarrow> False
           | Some hosts \<Rightarrow>
               if hosts = [] then False
               else case egressHost url_hostname input urlField of
                   None \<Rightarrow> False
                 | Some host \<Rightarrow> host \<in> set hosts))"

section \<open>Evaluation\<close>

record evaluate_result =
  er_verdict :: policy_verdict
  er_ruleId :: "string option"
  er_capability :: "string option"
  er_irreversible :: bool
  er_effect :: "tool_effect list"

definition declaredEffectsFor :: "policy_rule list \<Rightarrow> string \<Rightarrow> tool_effect list" where
  "declaredEffectsFor rules tool =
     fold (\<lambda>r union.
        if pr_tool r \<noteq> tool then union
        else fold (\<lambda>e u. if e \<in> set u then u else u @ [e])
               (case pr_effect r of None \<Rightarrow> [] | Some es \<Rightarrow> es) union) rules []"

definition consent_relaxes :: "policy_rule \<Rightarrow> string \<Rightarrow> evaluate_options \<Rightarrow> bool" where
  "consent_relaxes rule name opts \<longleftrightarrow>
     pr_verdict rule = VHold \<and> pr_routineConsent rule \<and>
     (name = ''routine_create'' \<or> name = ''routine_update'') \<and> eo_routineConsentAllowed opts = Some True"

definition rule_result ::
  "(string \<Rightarrow> string option) \<Rightarrow> policy_rule \<Rightarrow> string \<Rightarrow> jsval \<Rightarrow> evaluate_options \<Rightarrow> evaluate_result" where
  "rule_result url_hostname rule name input opts =
     \<lparr>er_verdict = (if consent_relaxes rule name opts \<or>
                       egressAllows url_hostname rule input (eo_allowedHosts opts)
                    then VAllow else pr_verdict rule),
      er_ruleId = Some (pr_id rule), er_capability = Some (pr_capability rule),
      er_irreversible = pr_irreversible rule,
      er_effect = (case pr_effect rule of None \<Rightarrow> [] | Some es \<Rightarrow> es)\<rparr>"

fun evaluate_loop :: "(string \<Rightarrow> string option) \<Rightarrow> policy_rule list \<Rightarrow> string \<Rightarrow> jsval \<Rightarrow>
    evaluate_options \<Rightarrow> evaluate_result option" where
  "evaluate_loop url_hostname [] name input opts = None"
| "evaluate_loop url_hostname (rule # rules) name input opts =
     (if pr_tool rule \<noteq> name then evaluate_loop url_hostname rules name input opts
      else if \<not> matches (pr_when rule) input then evaluate_loop url_hostname rules name input opts
      else Some (rule_result url_hostname rule name input opts))"

definition evaluate :: "(string \<Rightarrow> string option) \<Rightarrow> policy_rule list \<Rightarrow> string \<Rightarrow> jsval \<Rightarrow>
    evaluate_options \<Rightarrow> evaluate_result" where
  "evaluate url_hostname rules name input opts =
     (case evaluate_loop url_hostname rules name input opts of
        Some r \<Rightarrow> r
      | None \<Rightarrow> \<lparr>er_verdict = VAllow, er_ruleId = None, er_capability = None, er_irreversible = False,
                 er_effect = declaredEffectsFor rules name\<rparr>)"

fun staticCeiling :: "policy_rule list \<Rightarrow> string \<Rightarrow> policy_verdict" where
  "staticCeiling [] tool = VAllow"
| "staticCeiling (rule # rules) tool =
     (if pr_tool rule \<noteq> tool then staticCeiling rules tool
      else if pr_when rule \<noteq> None then staticCeiling rules tool
      else pr_verdict rule)"

definition ceilingFor :: "policy_rule list \<Rightarrow> string \<Rightarrow> raw_verdict option \<Rightarrow> bool \<Rightarrow> policy_verdict" where
  "ceilingFor rules toolKey connectorDefault agentSourced =
     strictest [Some (Known (staticCeiling rules toolKey)),
       implicitMcpCeiling toolKey connectorDefault agentSourced]"

section \<open>Evaluation picks the first match\<close>

lemma evaluate_loop_find:
  "evaluate_loop u rules name input opts =
     map_option (\<lambda>r. rule_result u r name input opts)
       (find (\<lambda>r. pr_tool r = name \<and> matches (pr_when r) input) rules)"
  by (induction rules) auto

lemma staticCeiling_find:
  "staticCeiling rules tool =
     (case find (\<lambda>r. pr_tool r = tool \<and> pr_when r = None) rules of None \<Rightarrow> VAllow | Some r \<Rightarrow> pr_verdict r)"
  by (induction rules) auto

lemma add_effects:
  "distinct u \<Longrightarrow> distinct (fold (\<lambda>e u. if e \<in> set u then u else u @ [e]) es u) \<and>
     set (fold (\<lambda>e u. if e \<in> set u then u else u @ [e]) es u) = set u \<union> set es"
  by (induction es arbitrary: u) auto

definition effects_of :: "policy_rule \<Rightarrow> tool_effect list" where
  "effects_of r = (case pr_effect r of None \<Rightarrow> [] | Some es \<Rightarrow> es)"

lemma declaredEffects_from:
  "distinct u \<Longrightarrow>
   distinct (fold (\<lambda>r union. if pr_tool r \<noteq> tool then union
       else fold (\<lambda>e u. if e \<in> set u then u else u @ [e]) (effects_of r) union) rules u) \<and>
   set (fold (\<lambda>r union. if pr_tool r \<noteq> tool then union
       else fold (\<lambda>e u. if e \<in> set u then u else u @ [e]) (effects_of r) union) rules u) =
     set u \<union> (\<Union>r \<in> {r \<in> set rules. pr_tool r = tool}. set (effects_of r))"
proof (induction rules arbitrary: u)
  case Nil
  then show ?case by simp
next
  case (Cons r rules)
  show ?case
  proof (cases "pr_tool r = tool")
    case True
    with Cons.IH[OF conjunct1[OF add_effects[OF Cons.prems]], of "effects_of r"]
      add_effects[OF Cons.prems, of "effects_of r"]
    show ?thesis by auto
  next
    case False
    with Cons.IH[OF Cons.prems] show ?thesis by auto
  qed
qed

lemma declaredEffectsFor_set:
  "distinct (declaredEffectsFor rules tool) \<and>
   set (declaredEffectsFor rules tool) = (\<Union>r \<in> {r \<in> set rules. pr_tool r = tool}. set (effects_of r))"
  using declaredEffects_from[of "[]" tool rules] unfolding declaredEffectsFor_def effects_of_def by simp

section \<open>Properties\<close>

text \<open>First match wins, and silence means allow: a call gets the answer of the first rule that
  names its tool and whose predicate its input satisfies; when no rule matches the call is
  allowed, unattributed, and discloses every effect any rule declares for the tool, each once.\<close>

theorem evaluate_first_match:
  "(\<forall>us r vs. rules = us @ r # vs \<and> pr_tool r = name \<and> matches (pr_when r) input \<and>
      (\<forall>q \<in> set us. pr_tool q \<noteq> name \<or> \<not> matches (pr_when q) input) \<longrightarrow>
      evaluate u rules name input opts = rule_result u r name input opts) \<and>
   ((\<forall>q \<in> set rules. pr_tool q \<noteq> name \<or> \<not> matches (pr_when q) input) \<longrightarrow>
      er_verdict (evaluate u rules name input opts) = VAllow \<and>
      er_ruleId (evaluate u rules name input opts) = None \<and>
      distinct (er_effect (evaluate u rules name input opts)) \<and>
      set (er_effect (evaluate u rules name input opts)) =
        (\<Union>r \<in> {r \<in> set rules. pr_tool r = name}. set (effects_of r)))"
proof (intro conjI allI impI)
  fix us r vs
  assume a: "rules = us @ r # vs \<and> pr_tool r = name \<and> matches (pr_when r) input \<and>
      (\<forall>q \<in> set us. pr_tool q \<noteq> name \<or> \<not> matches (pr_when q) input)"
  have "find (\<lambda>r. pr_tool r = name \<and> matches (pr_when r) input) us = None"
    using a by (auto simp: find_None_iff)
  moreover have "find P (xs @ ys) = (case find P xs of None \<Rightarrow> find P ys | Some x \<Rightarrow> Some x)"
    for P and xs ys :: "policy_rule list" by (induction xs) auto
  ultimately show "evaluate u rules name input opts = rule_result u r name input opts"
    using a by (simp add: evaluate_def evaluate_loop_find)
next
  assume "\<forall>q \<in> set rules. pr_tool q \<noteq> name \<or> \<not> matches (pr_when q) input"
  then have "evaluate_loop u rules name input opts = None"
    by (auto simp: evaluate_loop_find find_None_iff)
  then show "er_verdict (evaluate u rules name input opts) = VAllow"
    "er_ruleId (evaluate u rules name input opts) = None"
    "distinct (er_effect (evaluate u rules name input opts))"
    "set (er_effect (evaluate u rules name input opts)) =
        (\<Union>r \<in> {r \<in> set rules. pr_tool r = name}. set (effects_of r))"
    using declaredEffectsFor_set by (simp_all add: evaluate_def)
qed

text \<open>The built-in table, rule by rule.\<close>

lemma builtin_sel [simp]:
  "pr_when (builtin i tool pb v cap pv) = None" "pr_tool (builtin i tool pb v cap pv) = tool"
  "pr_verdict (builtin i tool pb v cap pv) = v" "pr_egress (builtin i tool pb v cap pv) = None"
  "\<not> pr_routineConsent (builtin i tool pb v cap pv)"
  by (simp_all add: builtin_def)

lemmas builtin_tables = BUILTIN_RULES_def restricted_rules_def catalog_rules_def sandbox_rules_def
  routine_rules_def

lemma builtin_rules_shape:
  "r \<in> set BUILTIN_RULES \<Longrightarrow> pr_when r = None \<and>
     pr_egress r = (if pr_tool r = ''web_extract'' then Some ''url'' else None) \<and>
     (pr_routineConsent r \<longleftrightarrow> pr_tool r \<in> {''routine_create'', ''routine_update''}) \<and>
     (pr_routineConsent r \<longrightarrow> pr_verdict r = VHold)"
  unfolding builtin_tables by (simp only: set_append list.set Un_iff insert_iff empty_iff, elim disjE) simp_all

lemma builtin_find:
  "find (\<lambda>r. pr_tool r = name \<and> matches (pr_when r) input) BUILTIN_RULES =
     find (\<lambda>r. pr_tool r = name \<and> pr_when r = None) BUILTIN_RULES"
  using builtin_rules_shape by (intro find_cong) (auto simp: matches_def)

lemma builtin_relaxed_tools:
  "name \<in> {''web_extract'', ''routine_create'', ''routine_update''} \<Longrightarrow>
     find (\<lambda>r. pr_tool r = name \<and> pr_when r = None) BUILTIN_RULES \<noteq> None"
proof -
  assume "name \<in> {''web_extract'', ''routine_create'', ''routine_update''}"
  moreover have "list_ex (\<lambda>r. pr_tool r = ''web_extract'' \<and> pr_when r = None) BUILTIN_RULES"
    "list_ex (\<lambda>r. pr_tool r = ''routine_create'' \<and> pr_when r = None) BUILTIN_RULES"
    "list_ex (\<lambda>r. pr_tool r = ''routine_update'' \<and> pr_when r = None) BUILTIN_RULES"
    by (simp_all add: builtin_tables)
  ultimately have "list_ex (\<lambda>r. pr_tool r = name \<and> pr_when r = None) BUILTIN_RULES" by blast
  then show ?thesis by (auto simp: find_None_iff list_ex_iff)
qed

text \<open>With the built-in table, a call gets the table's verdict for its tool whatever its input,
  with two relaxations and no other: reading a web page whose host was allowed, and creating or
  updating a routine under a standing consent. In particular no input turns a denied tool into
  an allowed one.\<close>

theorem builtin_verdicts:
  "er_verdict (evaluate u BUILTIN_RULES name input opts) =
     (if (name = ''web_extract'' \<and>
          (\<exists>hosts h. eo_allowedHosts opts = Some hosts \<and> egressHost u input ''url'' = Some h \<and> h \<in> set hosts)) \<or>
         (name \<in> {''routine_create'', ''routine_update''} \<and> eo_routineConsentAllowed opts = Some True)
      then VAllow else staticCeiling BUILTIN_RULES name)"
proof (cases "find (\<lambda>r. pr_tool r = name \<and> pr_when r = None) BUILTIN_RULES")
  case None
  with builtin_relaxed_tools[of name]
  have "name \<notin> {''web_extract'', ''routine_create'', ''routine_update''}" by blast
  with None show ?thesis
    by (simp add: evaluate_def evaluate_loop_find builtin_find staticCeiling_find)
next
  case (Some r)
  then have r: "r \<in> set BUILTIN_RULES" "pr_tool r = name" by (auto simp: find_Some_iff)
  note shape = builtin_rules_shape[OF r(1)]
  have "consent_relaxes r name opts \<longleftrightarrow>
      name \<in> {''routine_create'', ''routine_update''} \<and> eo_routineConsentAllowed opts = Some True"
    using shape r(2) by (auto simp: consent_relaxes_def)
  moreover have "egressAllows u r input (eo_allowedHosts opts) \<longleftrightarrow> name = ''web_extract'' \<and>
      (\<exists>hosts h. eo_allowedHosts opts = Some hosts \<and> egressHost u input ''url'' = Some h \<and> h \<in> set hosts)"
    using shape r(2) by (auto simp: egressAllows_def split: option.splits)
  moreover have "er_verdict (evaluate u BUILTIN_RULES name input opts) =
      (if egressAllows u r input (eo_allowedHosts opts) \<or> consent_relaxes r name opts then VAllow else pr_verdict r)"
    using Some by (simp add: evaluate_def evaluate_loop_find builtin_find rule_result_def disj_commute)
  moreover have "staticCeiling BUILTIN_RULES name = pr_verdict r"
    using Some by (simp add: staticCeiling_find)
  ultimately show ?thesis by (simp only:)
qed

text \<open>What the person is told is what happens: under the verdict the static table gives the
  tool, the effective verdict of an override is the override or the ceiling, whichever is
  stricter; so an override that the write-time check accepts is exactly what a call gets.\<close>

theorem override_effective:
  "layeredVerdict key (staticCeiling rules key) dflt (Some (Known v)) src = max (ceilingFor rules key dflt src) v \<and>
   (\<not> isLooserThan v (ceilingFor rules key dflt src) \<longrightarrow>
      layeredVerdict key (staticCeiling rules key) dflt (Some (Known v)) src = v)"
proof -
  have snoc: "strictest (xs @ [Some (Known v)]) = max (strictest xs) v" for xs
    by (auto simp: strictest_def strictest_from_fold max.commute)
  have "layeredVerdict key (staticCeiling rules key) dflt (Some (Known v)) src = max (ceilingFor rules key dflt src) v"
  proof (cases "src \<and> parseConnectorToolKey key \<noteq> None")
    case True
    have skip: "strictest [a, None] = strictest [a]" for a by (cases a) (simp_all add: strictest_def split: lookup.splits raw_verdict.splits)
    from True show ?thesis using snoc[of "[Some (Known (staticCeiling rules key))]"]
      by (simp add: layeredVerdict_def ceilingFor_def implicitMcpCeiling_def skip)
  next
    case False
    then have "implicitMcpCeiling key dflt False = implicitMcpCeiling key dflt src"
      by (auto simp: implicitMcpCeiling_def)
    with False show ?thesis
      using snoc[of "[Some (Known (staticCeiling rules key)), implicitMcpCeiling key dflt src]"]
      by (auto simp: layeredVerdict_def ceilingFor_def)
  qed
  then show ?thesis by (auto simp: isLooserThan_less max_absorb2)
qed

theorem override_effective_witness:
  "layeredVerdict ''Bash'' (staticCeiling BUILTIN_RULES ''Bash'') None (Some (Known VHold)) False = VHold"
proof -
  have "\<not> isLooserThan VHold (ceilingFor BUILTIN_RULES ''Bash'' None False)"
    by (simp add: isLooserThan_def ceilingFor_def builtin_tables strictest_def implicitMcpCeiling_def
        parseConnectorToolKey_def isMcpSpelled_def starts_with_def MAX_TOOL_KEY_CHARS_def)
  with override_effective[of "''Bash''" BUILTIN_RULES None VHold False] show ?thesis by blast
qed

theorem evaluate_first_match_witness:
  "er_verdict (evaluate (\<lambda>_. None) BUILTIN_RULES ''unknown_tool'' JNull
     \<lparr>eo_allowedHosts = None, eo_routineConsentAllowed = None\<rparr>) = VAllow"
proof -
  have "\<forall>q \<in> set BUILTIN_RULES. pr_tool q \<noteq> ''unknown_tool'' \<or> \<not> matches (pr_when q) JNull"
    by (simp add: builtin_tables)
  with evaluate_first_match[of BUILTIN_RULES "''unknown_tool''" JNull] show ?thesis by blast
qed

end
