(* ===== verification/Egress_Allowlist.thy ===== *)
theory Egress_Allowlist
  imports Js_Value
begin

text \<open>
  The remembered-hosts allowlist of \<^verbatim>\<open>packages/tool-policy/src/egress-allowlist.ts\<close>: the shape
  checks, the database store and the in-memory store, both refining one specification. The
  table of the database store is the list of its rows, and the order in which an unordered
  \<^verbatim>\<open>SELECT\<close> returns them is the parameter \<open>scan\<close>, of which only that it permutes the
  rows is used. Operations are atomic, also \<^verbatim>\<open>remember\<close> of the database store, which is three
  statements without a transaction: two that overlap could together pass the cap. A time is its number of
  milliseconds.
\<close>

section \<open>Shapes\<close>

datatype egress_scope = ScGlobal | ScUser

record egress_entry =
  ee_scope :: egress_scope
  ee_ownerId :: "string option"
  ee_host :: jsval

record egress_site =
  es_host :: string
  es_scope :: egress_scope
  es_rememberedAt :: nat

definition label_char :: "char \<Rightarrow> bool" where
  "label_char c \<longleftrightarrow> is_lower c \<or> is_digit c"

definition label_ok :: "string \<Rightarrow> bool" where
  "label_ok l \<longleftrightarrow> l \<noteq> [] \<and> length l \<le> 63 \<and> label_char (hd l) \<and> label_char (last l) \<and>
     list_all (\<lambda>c. label_char c \<or> c = CHR ''-'') l"

fun split_dots :: "string \<Rightarrow> string list" where
  "split_dots [] = [[]]"
| "split_dots (c # s) =
     (if c = CHR ''.'' then [] # split_dots s
      else case split_dots s of [] \<Rightarrow> [[c]] | l # ls \<Rightarrow> (c # l) # ls)"

definition HOST_RE :: "string \<Rightarrow> bool" where
  "HOST_RE s \<longleftrightarrow> 1 \<le> length s \<and> length s \<le> 253 \<and> list_all label_ok (split_dots s)"

definition USER_ID_RE :: "string \<Rightarrow> bool" where
  "USER_ID_RE s \<longleftrightarrow> s \<noteq> [] \<and> is_alnum (hd s) \<and> length s \<le> 128 \<and>
     list_all (\<lambda>c. is_alnum c \<or> c \<in> set ''_.@-'') (tl s)"

definition RESERVED_OWNER_IDS :: "string list" where
  "RESERVED_OWNER_IDS = [''system'']"

definition normalizeHost :: "jsval \<Rightarrow> string option" where
  "normalizeHost raw =
     (case raw of
        JStr s \<Rightarrow> let host = List.map lower_char (trim s) in if HOST_RE host then Some host else None
      | _ \<Rightarrow> None)"

definition isOwnerId :: "string \<Rightarrow> bool" where
  "isOwnerId raw \<longleftrightarrow> USER_ID_RE raw \<and> raw \<notin> set RESERVED_OWNER_IDS"

definition MAX_USER_HOSTS :: nat where
  "MAX_USER_HOSTS = 512"

definition ownerKey :: "egress_entry \<Rightarrow> string option" where
  "ownerKey entry =
     (if ee_scope entry = ScGlobal then (if ee_ownerId entry = None then Some [] else None)
      else case ee_ownerId entry of None \<Rightarrow> None | Some o' \<Rightarrow> if isOwnerId o' then Some o' else None)"

definition validate :: "egress_entry \<Rightarrow> (string \<times> string) option" where
  "validate entry =
     (case (ownerKey entry, normalizeHost (ee_host entry)) of
        (Some owner, Some host) \<Rightarrow> Some (owner, host)
      | _ \<Rightarrow> None)"

text \<open>\<^verbatim>\<open>dedupeByHost\<close>: one site per host, the global one when there is one, sorted by host.\<close>

definition dedupe_step :: "egress_site \<Rightarrow> (string, egress_site) jsmap \<Rightarrow> (string, egress_site) jsmap" where
  "dedupe_step site best =
     (case js_get best (es_host site) of
        None \<Rightarrow> js_set (es_host site) site best
      | Some seen \<Rightarrow>
          if es_scope seen \<noteq> ScGlobal \<and> es_scope site = ScGlobal then js_set (es_host site) site best
          else best)"

definition dedupeByHost :: "egress_site list \<Rightarrow> egress_site list" where
  "dedupeByHost sites = sort_key es_host (List.map snd (fold dedupe_step sites []))"

section \<open>The database store\<close>

record egress_row =
  rw_scope :: egress_scope
  rw_owner :: string
  rw_host :: string
  rw_created :: nat

type_synonym egress_table = "egress_row list"

definition visible_row :: "string \<Rightarrow> egress_row \<Rightarrow> bool" where
  "visible_row userId r \<longleftrightarrow>
     (rw_scope r = ScGlobal \<and> rw_owner r = []) \<or>
     (isOwnerId userId \<and> rw_scope r = ScUser \<and> rw_owner r = userId)"

definition db_allowedFor :: "(egress_row list \<Rightarrow> egress_row list) \<Rightarrow> string \<Rightarrow> egress_table \<Rightarrow> string set" where
  "db_allowedFor scan userId t = set (List.map rw_host (scan [r \<leftarrow> t. visible_row userId r]))"

definition db_listFor :: "(egress_row list \<Rightarrow> egress_row list) \<Rightarrow> string \<Rightarrow> egress_table \<Rightarrow> egress_site list" where
  "db_listFor scan userId t =
     dedupeByHost (List.map (\<lambda>r. \<lparr>es_host = rw_host r,
         es_scope = (if rw_scope r = ScGlobal then ScGlobal else ScUser), es_rememberedAt = rw_created r\<rparr>)
       (scan [r \<leftarrow> t. visible_row userId r]))"

definition db_revoke :: "string \<Rightarrow> jsval \<Rightarrow> egress_table \<Rightarrow> bool \<times> egress_table" where
  "db_revoke ownerId rawHost t =
     (case normalizeHost rawHost of
        None \<Rightarrow> (False, t)
      | Some host \<Rightarrow>
          if \<not> isOwnerId ownerId then (False, t)
          else let doomed = (\<lambda>r. rw_scope r = ScUser \<and> rw_owner r = ownerId \<and> rw_host r = host) in
            (length [r \<leftarrow> t. doomed r] > 0, [r \<leftarrow> t. \<not> doomed r]))"

definition db_remember :: "nat \<Rightarrow> egress_entry \<Rightarrow> egress_table \<Rightarrow> bool \<times> egress_table" where
  "db_remember now entry t =
     (case validate entry of
        None \<Rightarrow> (False, t)
      | Some (owner, host) \<Rightarrow>
          if list_ex (\<lambda>r. rw_scope r = ee_scope entry \<and> rw_owner r = owner \<and> rw_host r = host) t then (False, t)
          else if ee_scope entry = ScUser \<and>
              MAX_USER_HOSTS \<le> length [r \<leftarrow> t. rw_scope r = ScUser \<and> rw_owner r = owner] then (False, t)
          else (True, t @ [\<lparr>rw_scope = ee_scope entry, rw_owner = owner, rw_host = host, rw_created = now\<rparr>]))"

section \<open>The in-memory store\<close>

text \<open>The key \<^verbatim>\<open>`${scope}:${owner}`\<close>.\<close>

definition owner_map_key :: "egress_scope \<Rightarrow> string \<Rightarrow> string" where
  "owner_map_key sc owner = (if sc = ScGlobal then ''global'' else ''user'') @ '':'' @ owner"

type_synonym egress_memory = "(string, (string, nat) jsmap) jsmap"

definition hosts_of :: "egress_memory \<Rightarrow> egress_scope \<Rightarrow> string \<Rightarrow> (string, nat) jsmap" where
  "hosts_of m sc owner = (case js_get m (owner_map_key sc owner) of None \<Rightarrow> [] | Some h \<Rightarrow> h)"

definition mem_allowedFor :: "string \<Rightarrow> egress_memory \<Rightarrow> string set" where
  "mem_allowedFor userId m =
     set (js_keys (hosts_of m ScGlobal [])) \<union>
     (if isOwnerId userId then set (js_keys (hosts_of m ScUser userId)) else {})"

definition sites_of :: "egress_memory \<Rightarrow> egress_scope \<Rightarrow> string \<Rightarrow> egress_site list" where
  "sites_of m sc owner =
     List.map (\<lambda>(host, tm). \<lparr>es_host = host, es_scope = sc, es_rememberedAt = tm\<rparr>) (hosts_of m sc owner)"

definition mem_listFor :: "string \<Rightarrow> egress_memory \<Rightarrow> egress_site list" where
  "mem_listFor userId m =
     dedupeByHost (sites_of m ScGlobal [] @ (if isOwnerId userId then sites_of m ScUser userId else []))"

definition mem_revoke :: "string \<Rightarrow> jsval \<Rightarrow> egress_memory \<Rightarrow> bool \<times> egress_memory" where
  "mem_revoke ownerId rawHost m =
     (case normalizeHost rawHost of
        None \<Rightarrow> (False, m)
      | Some host \<Rightarrow>
          if \<not> isOwnerId ownerId then (False, m)
          else case js_get m (owner_map_key ScUser ownerId) of
              None \<Rightarrow> (False, m)
            | Some hosts \<Rightarrow>
                (js_get hosts host \<noteq> None,
                 js_set (owner_map_key ScUser ownerId) (js_delete host hosts) m))"

definition mem_remember :: "nat \<Rightarrow> egress_entry \<Rightarrow> egress_memory \<Rightarrow> bool \<times> egress_memory" where
  "mem_remember now entry m =
     (case validate entry of
        None \<Rightarrow> (False, m)
      | Some (owner, host) \<Rightarrow>
          let hosts = hosts_of m (ee_scope entry) owner in
          if js_get hosts host \<noteq> None then (False, m)
          else if ee_scope entry = ScUser \<and> MAX_USER_HOSTS \<le> length (js_keys hosts) then (False, m)
          else (True, js_set (owner_map_key (ee_scope entry) owner) (js_set host now hosts) m))"

section \<open>Deduplication\<close>

lemma dedupe_get:
  "js_get (fold dedupe_step sites []) h =
     (case find (\<lambda>s. es_host s = h \<and> es_scope s = ScGlobal) sites of
        Some s \<Rightarrow> Some s
      | None \<Rightarrow> find (\<lambda>s. es_host s = h) sites)"
proof (induction sites rule: rev_induct)
  case Nil
  then show ?case by simp
next
  case (snoc s sites)
  have app: "find P (xs @ ys) = (case find P xs of None \<Rightarrow> find P ys | Some x \<Rightarrow> Some x)"
    for P and xs ys :: "egress_site list" by (induction xs) auto
  have sc: "x = ScGlobal \<or> x = ScUser" for x by (cases x) auto
  show ?case
  proof (cases "es_host s = h")
    case False
    with snoc show ?thesis
      by (simp add: dedupe_step_def app split: option.splits)
  next
    case True
    show ?thesis
    proof (cases "find (\<lambda>s. es_host s = h \<and> es_scope s = ScGlobal) sites")
      case None
      show ?thesis
      proof (cases "find (\<lambda>s. es_host s = h) sites")
        case None
        with True snoc \<open>find (\<lambda>s. es_host s = h \<and> es_scope s = ScGlobal) sites = None\<close> show ?thesis
          by (simp add: dedupe_step_def app)
      next
        case (Some t)
        then have "es_scope t \<noteq> ScGlobal"
          using \<open>find (\<lambda>s. es_host s = h \<and> es_scope s = ScGlobal) sites = None\<close>
          by (auto simp: find_None_iff find_Some_iff)
        with Some True snoc \<open>find (\<lambda>s. es_host s = h \<and> es_scope s = ScGlobal) sites = None\<close> show ?thesis
          by (simp add: dedupe_step_def app)
      qed
    next
      case (Some t)
      then have "es_scope t = ScGlobal" by (auto simp: find_Some_iff)
      with Some True snoc show ?thesis by (simp add: dedupe_step_def app)
    qed
  qed
qed

lemma dedupe_wf: "js_wf (fold dedupe_step sites [])"
proof (induction sites rule: rev_induct)
  case (snoc s sites)
  then show ?case
    by (auto simp: dedupe_step_def intro: js_map_wf split: option.splits)
qed simp

text \<open>What the list shows, as a function of what is stored: \<open>g (scope, host)\<close> is the time.\<close>

definition site_at :: "(egress_scope \<times> string \<Rightarrow> nat option) \<Rightarrow> string \<Rightarrow> egress_site" where
  "site_at g h =
     (case g (ScGlobal, h) of
        Some t \<Rightarrow> \<lparr>es_host = h, es_scope = ScGlobal, es_rememberedAt = t\<rparr>
      | None \<Rightarrow> \<lparr>es_host = h, es_scope = ScUser, es_rememberedAt = the (g (ScUser, h))\<rparr>)"

lemma site_at_host [simp]: "es_host (site_at g h) = h"
  by (simp add: site_at_def split: option.splits)

lemma find_not_None: "x \<in> set xs \<Longrightarrow> P x \<Longrightarrow> find P xs \<noteq> None"
  by (auto simp: find_None_iff)

lemma dedupeByHost_spec:
  assumes g: "set sites = {\<lparr>es_host = h, es_scope = sc, es_rememberedAt = t\<rparr> | h sc t. g (sc, h) = Some t}"
  shows "dedupeByHost sites = List.map (site_at g) (sorted_list_of_set {h. \<exists>sc. g (sc, h) \<noteq> None})"
proof -
  let ?best = "fold dedupe_step sites []"
  have mem: "s \<in> set sites \<longleftrightarrow> g (es_scope s, es_host s) = Some (es_rememberedAt s)" for s :: egress_site
    unfolding g by (cases s) auto
  have pick: "s = site_at g h" if "s \<in> set sites" "es_host s = h"
    "es_scope s = ScGlobal \<or> g (ScGlobal, h) = None \<and> es_scope s = ScUser" for s h
    using that(2,3) iffD1[OF mem that(1)] by (intro egress_site.equality) (auto simp: site_at_def)
  have get: "js_get ?best h = (if \<exists>sc. g (sc, h) \<noteq> None then Some (site_at g h) else None)" for h
  proof (cases "g (ScGlobal, h)")
    case (Some t)
    have "find (\<lambda>s. es_host s = h \<and> es_scope s = ScGlobal) sites \<noteq> None"
    proof -
      have "\<lparr>es_host = h, es_scope = ScGlobal, es_rememberedAt = t\<rparr> \<in> set sites" using Some by (simp add: mem)
      then show ?thesis by (rule find_not_None) simp
    qed
    then obtain s where s: "find (\<lambda>s. es_host s = h \<and> es_scope s = ScGlobal) sites = Some s" by blast
    then have "s \<in> set sites" "es_host s = h" "es_scope s = ScGlobal" by (auto simp: find_Some_iff)
    then have "s = site_at g h" by (intro pick) auto
    with Some s show ?thesis by (auto simp: dedupe_get)
  next
    case None
    then have no: "find (\<lambda>s. es_host s = h \<and> es_scope s = ScGlobal) sites = None"
      by (auto simp: find_None_iff mem)
    show ?thesis
    proof (cases "g (ScUser, h)")
      case None
      then have "g (sc, h) = None" for sc using \<open>g (ScGlobal, h) = None\<close> by (cases sc) auto
      moreover from this have "find (\<lambda>s. es_host s = h) sites = None" by (auto simp: find_None_iff mem)
      ultimately show ?thesis using no by (simp add: dedupe_get)
    next
      case (Some t)
      have "\<lparr>es_host = h, es_scope = ScUser, es_rememberedAt = t\<rparr> \<in> set sites" using Some by (simp add: mem)
      then have "find (\<lambda>s. es_host s = h) sites \<noteq> None" by (rule find_not_None) simp
      then obtain s where s: "find (\<lambda>s. es_host s = h) sites = Some s" by blast
      then have "s \<in> set sites" "es_host s = h" by (auto simp: find_Some_iff)
      moreover from this have "es_scope s = ScUser"
        using \<open>g (ScGlobal, h) = None\<close> by (cases "es_scope s") (auto simp: mem)
      ultimately have "s = site_at g h" using \<open>g (ScGlobal, h) = None\<close> by (intro pick) auto
      with Some s no show ?thesis by (auto simp: dedupe_get)
    qed
  qed
  have keys: "set (js_keys ?best) = {h. \<exists>sc. g (sc, h) \<noteq> None}"
  proof (intro set_eqI)
    fix h
    have "h \<in> set (js_keys ?best) \<longleftrightarrow> js_get ?best h \<noteq> None" by (rule jm.keys_get)
    also have "\<dots> \<longleftrightarrow> (\<exists>sc. g (sc, h) \<noteq> None)" unfolding get by (rule iffI, rule ccontr, simp_all)
    finally show "h \<in> set (js_keys ?best) \<longleftrightarrow> h \<in> {h. \<exists>sc. g (sc, h) \<noteq> None}" by (simp only: mem_Collect_eq)
  qed
  have vals: "List.map snd ?best = List.map (site_at g) (js_keys ?best)"
  proof -
    have "v = site_at g k" if "(k, v) \<in> set ?best" for k v
    proof -
      have "js_get ?best k = Some v" using that dedupe_wf[of sites] js_get_wf_mem by fastforce
      with get[of k] show ?thesis by (auto split: if_splits)
    qed
    then show ?thesis by (auto intro!: map_cong)
  qed
  let ?l = "dedupeByHost sites"
  have hosts: "List.map es_host ?l = sorted_list_of_set {h. \<exists>sc. g (sc, h) \<noteq> None}"
  proof (rule sorted_distinct_set_unique)
    show "sorted (List.map es_host ?l)" by (simp add: dedupeByHost_def)
    have "mset (List.map es_host ?l) = mset (js_keys ?best)"
      by (simp add: dedupeByHost_def vals image_mset.compositionality comp_def)
    then show "distinct (List.map es_host ?l)"
      using dedupe_wf[of sites] by (metis mset_eq_imp_distinct_iff)
    show "set (List.map es_host ?l) = set (sorted_list_of_set {h. \<exists>sc. g (sc, h) \<noteq> None})"
      using keys[symmetric] by (simp add: dedupeByHost_def vals image_image)
  qed simp_all
  have "s = site_at g (es_host s)" if "s \<in> set ?l" for s
    using that by (auto simp: dedupeByHost_def vals)
  then have "?l = List.map (site_at g) (List.map es_host ?l)" by (simp add: map_idI)
  with hosts show ?thesis by simp
qed

section \<open>The specification both stores refine\<close>

text \<open>The abstract state: when a host was remembered under a scope and an owner.\<close>

type_synonym egress_look = "egress_scope \<times> string \<times> string \<Rightarrow> nat option"

definition spec_visible :: "string \<Rightarrow> egress_look \<Rightarrow> egress_scope \<times> string \<Rightarrow> nat option" where
  "spec_visible userId look p =
     (case p of
        (ScGlobal, h) \<Rightarrow> look (ScGlobal, [], h)
      | (ScUser, h) \<Rightarrow> if isOwnerId userId then look (ScUser, userId, h) else None)"

definition spec_allowed :: "string \<Rightarrow> egress_look \<Rightarrow> string set" where
  "spec_allowed userId look = {h. \<exists>sc. spec_visible userId look (sc, h) \<noteq> None}"

definition spec_list :: "string \<Rightarrow> egress_look \<Rightarrow> egress_site list" where
  "spec_list userId look =
     List.map (site_at (spec_visible userId look)) (sorted_list_of_set (spec_allowed userId look))"

definition spec_revoke :: "string \<Rightarrow> jsval \<Rightarrow> egress_look \<Rightarrow> bool \<times> egress_look" where
  "spec_revoke ownerId rawHost look =
     (case normalizeHost rawHost of
        Some h \<Rightarrow> if isOwnerId ownerId then (look (ScUser, ownerId, h) \<noteq> None, look((ScUser, ownerId, h) := None))
                  else (False, look)
      | None \<Rightarrow> (False, look))"

definition spec_remember :: "nat \<Rightarrow> egress_entry \<Rightarrow> egress_look \<Rightarrow> bool \<times> egress_look" where
  "spec_remember now entry look =
     (case validate entry of
        Some (owner, h) \<Rightarrow>
          if look (ee_scope entry, owner, h) = None \<and>
             (ee_scope entry = ScUser \<longrightarrow> card {h. look (ScUser, owner, h) \<noteq> None} < MAX_USER_HOSTS)
          then (True, look((ee_scope entry, owner, h) \<mapsto> now)) else (False, look)
      | None \<Rightarrow> (False, look))"

datatype egress_op =
    ERemember nat egress_entry
  | ERevoke string jsval
  | EList string
  | EAllowed string

datatype egress_answer = AnsBool bool | AnsSites "egress_site list" | AnsHosts "string set"

fun run_egress ::
  "(string \<Rightarrow> 's \<Rightarrow> string set) \<Rightarrow> (string \<Rightarrow> 's \<Rightarrow> egress_site list) \<Rightarrow>
   (string \<Rightarrow> jsval \<Rightarrow> 's \<Rightarrow> bool \<times> 's) \<Rightarrow> (nat \<Rightarrow> egress_entry \<Rightarrow> 's \<Rightarrow> bool \<times> 's) \<Rightarrow>
   egress_op list \<Rightarrow> 's \<Rightarrow> egress_answer list" where
  "run_egress al ls rv rm [] s = []"
| "run_egress al ls rv rm (ERemember now entry # ops) s =
     AnsBool (fst (rm now entry s)) # run_egress al ls rv rm ops (snd (rm now entry s))"
| "run_egress al ls rv rm (ERevoke owner host # ops) s =
     AnsBool (fst (rv owner host s)) # run_egress al ls rv rm ops (snd (rv owner host s))"
| "run_egress al ls rv rm (EList user # ops) s = AnsSites (ls user s) # run_egress al ls rv rm ops s"
| "run_egress al ls rv rm (EAllowed user # ops) s = AnsHosts (al user s) # run_egress al ls rv rm ops s"

text \<open>The contract of \<^verbatim>\<open>EgressAllowlistStore\<close>, by what \<open>look\<close> sees of the state.\<close>

locale egress_store =
  fixes allowed :: "string \<Rightarrow> 's \<Rightarrow> string set"
    and listing :: "string \<Rightarrow> 's \<Rightarrow> egress_site list"
    and revoke :: "string \<Rightarrow> jsval \<Rightarrow> 's \<Rightarrow> bool \<times> 's"
    and remember :: "nat \<Rightarrow> egress_entry \<Rightarrow> 's \<Rightarrow> bool \<times> 's"
    and look :: "'s \<Rightarrow> egress_look"
    and inv :: "'s \<Rightarrow> bool"
  assumes allowed_spec: "inv s \<Longrightarrow> allowed user s = spec_allowed user (look s)"
    and listing_spec: "inv s \<Longrightarrow> listing user s = spec_list user (look s)"
    and revoke_spec: "inv s \<Longrightarrow> fst (revoke owner host s) = fst (spec_revoke owner host (look s)) \<and>
      look (snd (revoke owner host s)) = snd (spec_revoke owner host (look s))"
    and remember_spec: "inv s \<Longrightarrow> fst (remember now entry s) = fst (spec_remember now entry (look s)) \<and>
      look (snd (remember now entry s)) = snd (spec_remember now entry (look s))"
    and inv_revoke: "inv s \<Longrightarrow> inv (snd (revoke owner host s))"
    and inv_remember: "inv s \<Longrightarrow> inv (snd (remember now entry s))"
begin

lemma run_refines_spec:
  "inv s \<Longrightarrow> run_egress allowed listing revoke remember ops s =
     run_egress spec_allowed spec_list spec_revoke spec_remember ops (look s)"
proof (induction ops arbitrary: s)
  case Nil
  then show ?case by simp
next
  case (Cons op ops)
  then show ?case
    using revoke_spec[OF Cons.prems] remember_spec[OF Cons.prems] allowed_spec[OF Cons.prems]
      listing_spec[OF Cons.prems] inv_revoke[OF Cons.prems] inv_remember[OF Cons.prems]
    by (cases op) simp_all
qed

text \<open>What one user remembers is theirs: another owner's answers do not change.\<close>

lemma revoke_keeps_others:
  assumes "inv s" "user \<noteq> owner"
  shows "allowed user (snd (revoke owner host s)) = allowed user s"
proof -
  have "spec_visible user (snd (spec_revoke owner host (look s))) p = spec_visible user (look s) p" for p
    using assms(2) by (auto simp: spec_visible_def spec_revoke_def split: prod.splits egress_scope.splits option.splits)
  then show ?thesis
    using allowed_spec[OF inv_revoke[OF assms(1)]] allowed_spec[OF assms(1)] revoke_spec[OF assms(1)]
    by (simp add: spec_allowed_def)
qed

end

section \<open>The database store keeps the contract\<close>

definition db_look :: "egress_table \<Rightarrow> egress_look" where
  "db_look t p = map_option rw_created
     (find (\<lambda>r. rw_scope r = fst p \<and> rw_owner r = fst (snd p) \<and> rw_host r = snd (snd p)) t)"

definition row_key :: "egress_row \<Rightarrow> egress_scope \<times> string \<times> string" where
  "row_key r = (rw_scope r, rw_owner r, rw_host r)"

lemma row_key_eq [simp]:
  "row_key r = (sc, ow, h) \<longleftrightarrow> rw_scope r = sc \<and> rw_owner r = ow \<and> rw_host r = h"
  "(sc, ow, h) = row_key r \<longleftrightarrow> rw_scope r = sc \<and> rw_owner r = ow \<and> rw_host r = h"
  by (auto simp add: row_key_def)

text \<open>The primary key.\<close>

definition db_inv :: "egress_table \<Rightarrow> bool" where
  "db_inv t \<longleftrightarrow> distinct (List.map row_key t)"

lemma db_look_Some:
  assumes "db_inv t"
  shows "db_look t p = Some c \<longleftrightarrow> (\<exists>r \<in> set t. row_key r = p \<and> rw_created r = c)"
proof -
  have uniq: "r = r'" if "r \<in> set t" "r' \<in> set t" "row_key r = row_key r'" for r r'
    using assms that unfolding db_inv_def by (auto simp: distinct_map dest: inj_onD)
  obtain sc ow h where p: "p = (sc, ow, h)" by (cases p)
  let ?P = "\<lambda>r. rw_scope r = sc \<and> rw_owner r = ow \<and> rw_host r = h"
  show ?thesis
  proof (cases "find ?P t")
    case None
    then have "\<forall>r \<in> set t. row_key r \<noteq> p" by (auto simp: p find_None_iff)
    moreover have "db_look t p = None" using None by (simp add: p db_look_def)
    ultimately show ?thesis by auto
  next
    case (Some r)
    then have r: "r \<in> set t" "?P r" by (auto simp: find_Some_iff)
    have "db_look t p = Some (rw_created r)" using Some by (simp add: p db_look_def)
    moreover have "r' = r" if "r' \<in> set t" "row_key r' = p" for r'
      using uniq[OF that(1) r(1)] that(2) r(2) p by (simp add: row_key_def)
    moreover have "row_key r = p" using r(2) p by simp
    ultimately show ?thesis using r(1) by (metis option.inject)
  qed
qed

lemma db_look_None: "db_look t p = None \<longleftrightarrow> (\<forall>r \<in> set t. row_key r \<noteq> p)"
proof -
  obtain sc ow h where p: "p = (sc, ow, h)" by (cases p)
  show ?thesis by (auto simp add: p db_look_def find_None_iff)
qed

lemma db_look_mem: "db_look t p \<noteq> None \<longleftrightarrow> (\<exists>r \<in> set t. row_key r = p)"
  unfolding db_look_None by blast

lemma db_look_filter:
  assumes "db_inv t"
  shows "db_look [r \<leftarrow> t. row_key r \<noteq> k] = (db_look t)(k := None)"
proof
  fix p
  let ?t = "[r \<leftarrow> t. row_key r \<noteq> k]"
  have inv': "db_inv ?t" using assms by (simp add: db_inv_def distinct_map_filter)
  have "db_look ?t p = Some c \<longleftrightarrow> p \<noteq> k \<and> db_look t p = Some c" for c
    unfolding db_look_Some[OF inv'] db_look_Some[OF assms] by auto
  then have iff: "\<And>c. db_look ?t p = Some c \<longleftrightarrow> p \<noteq> k \<and> db_look t p = Some c" .
  show "db_look ?t p = ((db_look t)(k := None)) p"
  proof (cases "p = k")
    case True
    then have "db_look ?t p \<noteq> Some c" for c by (metis iff)
    with True show ?thesis by (metis fun_upd_same not_None_eq)
  next
    case False
    then have "db_look ?t p = Some c \<longleftrightarrow> db_look t p = Some c" for c by (metis iff)
    then have "db_look ?t p = db_look t p" by (metis option.exhaust)
    with False show ?thesis by simp
  qed
qed

lemma db_look_snoc:
  assumes "db_look t (row_key r) = None"
  shows "db_look (t @ [r]) = (db_look t)(row_key r \<mapsto> rw_created r)"
proof
  fix p :: "egress_scope \<times> string \<times> string"
  have app: "find P (xs @ ys) = (case find P xs of None \<Rightarrow> find P ys | Some x \<Rightarrow> Some x)"
    for P and xs ys :: egress_table by (induction xs) auto
  obtain sc ow h where p: "p = (sc, ow, h)" by (cases p)
  show "db_look (t @ [r]) p = ((db_look t)(row_key r \<mapsto> rw_created r)) p"
  proof (cases "row_key r = p")
    case True
    with assms show ?thesis by (simp add: p db_look_def app row_key_def)
  next
    case False
    then show ?thesis by (auto simp: p db_look_def app split: option.splits)
  qed
qed

lemma db_sites:
  assumes "db_inv t" and "mset rs = mset [r \<leftarrow> t. visible_row user r]"
  shows "set (List.map (\<lambda>r. \<lparr>es_host = rw_host r,
         es_scope = (if rw_scope r = ScGlobal then ScGlobal else ScUser), es_rememberedAt = rw_created r\<rparr>) rs) =
    {\<lparr>es_host = h, es_scope = sc, es_rememberedAt = c\<rparr> | h sc c. spec_visible user (db_look t) (sc, h) = Some c}"
proof -
  have same: "(if sc = ScGlobal then ScGlobal else ScUser) = sc" for sc by (cases sc) simp_all
  have vis: "spec_visible user (db_look t) (sc, h) = Some c \<longleftrightarrow>
      (\<exists>r \<in> set t. visible_row user r \<and> rw_scope r = sc \<and> rw_host r = h \<and> rw_created r = c)" for sc h c
    by (cases sc) (auto simp: spec_visible_def db_look_Some[OF assms(1)] visible_row_def)
  show ?thesis
    unfolding vis set_map mset_eq_setD[OF assms(2)] set_filter same by auto
qed

lemma db_egress_store:
  assumes scan: "\<And>rs. mset (scan rs) = mset rs"
  shows "egress_store (db_allowedFor scan) (db_listFor scan) db_revoke db_remember db_look db_inv"
proof unfold_locales
  fix t user owner host now entry
  assume inv: "db_inv t"
  show "db_listFor scan user t = spec_list user (db_look t)"
    using dedupeByHost_spec[OF db_sites[OF inv scan[of "[r \<leftarrow> t. visible_row user r]"]]] by (simp add: db_listFor_def spec_list_def spec_allowed_def)
  show "db_allowedFor scan user t = spec_allowed user (db_look t)"
  proof -
    have "set (List.map rw_host (scan [r \<leftarrow> t. visible_row user r])) =
        {h. \<exists>r \<in> set t. visible_row user r \<and> rw_host r = h}"
      using mset_eq_setD[OF scan[of "[r \<leftarrow> t. visible_row user r]"]] by auto
    also have "\<dots> = spec_allowed user (db_look t)"
    proof -
      have "spec_visible user (db_look t) (sc, h) \<noteq> None \<longleftrightarrow>
          (\<exists>r \<in> set t. visible_row user r \<and> rw_scope r = sc \<and> rw_host r = h)" for sc h
        by (cases sc) (auto simp: spec_visible_def db_look_Some[OF inv] visible_row_def)
      then show ?thesis unfolding spec_allowed_def by blast
    qed
    finally show ?thesis by (simp add: db_allowedFor_def)
  qed
  show "db_inv (snd (db_revoke owner host t))"
    using inv by (auto simp: db_inv_def db_revoke_def Let_def distinct_map_filter split: option.splits)
  show "db_inv (snd (db_remember now entry t))"
    using inv by (auto simp: db_inv_def db_remember_def list_ex_iff row_key_def split: option.splits)
  show "fst (db_revoke owner host t) = fst (spec_revoke owner host (db_look t)) \<and>
      db_look (snd (db_revoke owner host t)) = snd (spec_revoke owner host (db_look t))"
  proof (cases "\<exists>h. normalizeHost host = Some h \<and> isOwnerId owner")
    case False
    then show ?thesis by (auto simp: db_revoke_def spec_revoke_def split: option.splits)
  next
    case True
    then obtain h where h: "normalizeHost host = Some h" "isOwnerId owner" by blast
    have "[r \<leftarrow> t. \<not> (rw_scope r = ScUser \<and> rw_owner r = owner \<and> rw_host r = h)] =
        [r \<leftarrow> t. row_key r \<noteq> (ScUser, owner, h)]" by (rule filter_cong) auto
    then have "db_look [r \<leftarrow> t. \<not> (rw_scope r = ScUser \<and> rw_owner r = owner \<and> rw_host r = h)] =
        (db_look t)((ScUser, owner, h) := None)" by (simp only: db_look_filter[OF inv])
    moreover have "(length [r \<leftarrow> t. rw_scope r = ScUser \<and> rw_owner r = owner \<and> rw_host r = h] > 0) =
        (db_look t (ScUser, owner, h) \<noteq> None)"
      by (auto simp: db_look_None filter_empty_conv)
    ultimately show ?thesis using h by (auto simp: db_revoke_def spec_revoke_def Let_def)
  qed
  show "fst (db_remember now entry t) = fst (spec_remember now entry (db_look t)) \<and>
      db_look (snd (db_remember now entry t)) = snd (spec_remember now entry (db_look t))"
  proof (cases "validate entry")
    case None
    then show ?thesis by (simp add: db_remember_def spec_remember_def)
  next
    case (Some v)
    then obtain owner h where v: "validate entry = Some (owner, h)" by (cases v) simp
    let ?sc = "ee_scope entry"
    have ex: "list_ex (\<lambda>r. rw_scope r = ?sc \<and> rw_owner r = owner \<and> rw_host r = h) t \<longleftrightarrow>
        db_look t (?sc, owner, h) \<noteq> None"
      by (auto simp: db_look_None list_ex_iff)
    have count: "length [r \<leftarrow> t. rw_scope r = ScUser \<and> rw_owner r = owner] =
        card {h. db_look t (ScUser, owner, h) \<noteq> None}"
    proof -
      let ?rs = "[r \<leftarrow> t. rw_scope r = ScUser \<and> rw_owner r = owner]"
      have "distinct (List.map row_key ?rs)" using inv by (simp add: db_inv_def distinct_map_filter)
      then have "distinct (List.map rw_host ?rs)" by (auto simp: distinct_map inj_on_def row_key_def)
      then have "length ?rs = card (set (List.map rw_host ?rs))" by (simp only: distinct_card length_map)
      also have "set (List.map rw_host ?rs) = {h. db_look t (ScUser, owner, h) \<noteq> None}"
        unfolding db_look_mem by auto
      finally show ?thesis .
    qed
    let ?row = "\<lparr>rw_scope = ?sc, rw_owner = owner, rw_host = h, rw_created = now\<rparr>"
    have key: "row_key ?row = (?sc, owner, h)" by simp
    have "db_look (t @ [?row]) = (db_look t)((?sc, owner, h) \<mapsto> now)" if "db_look t (?sc, owner, h) = None"
      using db_look_snoc[of t ?row] that unfolding key by simp
    note step = this
    show ?thesis
    proof (cases "db_look t (?sc, owner, h) = None")
      case False
      then show ?thesis using v ex by (simp add: db_remember_def spec_remember_def)
    next
      case True
      with ex step have "\<not> list_ex (\<lambda>r. rw_scope r = ?sc \<and> rw_owner r = owner \<and> rw_host r = h) t"
        "db_look (t @ [?row]) = (db_look t)((?sc, owner, h) \<mapsto> now)" by simp_all
      with v True count show ?thesis
        by (cases "?sc = ScUser") (simp_all add: db_remember_def spec_remember_def not_le)
    qed
  qed
qed

interpretation dbs: egress_store "db_allowedFor (\<lambda>rs. rs)" "db_listFor (\<lambda>rs. rs)" db_revoke db_remember
    db_look db_inv
  by (rule db_egress_store) simp

section \<open>The in-memory store keeps the contract\<close>

definition mem_look :: "egress_memory \<Rightarrow> egress_look" where
  "mem_look m p = js_get (hosts_of m (fst p) (fst (snd p))) (snd (snd p))"

definition mem_inv :: "egress_memory \<Rightarrow> bool" where
  "mem_inv m \<longleftrightarrow> (\<forall>k hosts. js_get m k = Some hosts \<longrightarrow> js_wf hosts)"

lemma owner_map_key_inj [simp]: "owner_map_key sc ow = owner_map_key sc' ow' \<longleftrightarrow> sc = sc' \<and> ow = ow'"
  by (cases sc; cases sc') (auto simp: owner_map_key_def)

lemma hosts_of_set [simp]:
  "hosts_of (js_set (owner_map_key sc ow) hs m) sc' ow' = (if sc' = sc \<and> ow' = ow then hs else hosts_of m sc' ow')"
  by (auto simp: hosts_of_def)

lemma mem_inv_hosts: "mem_inv m \<Longrightarrow> js_wf (hosts_of m sc ow)"
  by (cases "js_get m (owner_map_key sc ow)") (simp_all add: mem_inv_def hosts_of_def)

lemma mem_inv_set: "mem_inv m \<Longrightarrow> js_wf hs \<Longrightarrow> mem_inv (js_set k hs m)"
  by (simp add: mem_inv_def)

lemma mem_look_upd [simp]:
  "mem_look (js_set (owner_map_key sc ow) (js_set h t (hosts_of m sc ow)) m) = (mem_look m)((sc, ow, h) \<mapsto> t)"
  "mem_look (js_set (owner_map_key sc ow) (js_delete h (hosts_of m sc ow)) m) = (mem_look m)((sc, ow, h) := None)"
  by (auto simp: fun_eq_iff mem_look_def)

lemma sites_of_set:
  assumes "mem_inv m"
  shows "set (sites_of m sc ow) =
    {\<lparr>es_host = h, es_scope = sc, es_rememberedAt = t\<rparr> | h t. mem_look m (sc, ow, h) = Some t}"
proof -
  have "(h, t) \<in> set (hosts_of m sc ow) \<longleftrightarrow> mem_look m (sc, ow, h) = Some t" for h t
    using js_get_wf_mem[OF mem_inv_hosts[OF assms, of sc ow]] by (simp add: mem_look_def)
  then show ?thesis by (force simp: sites_of_def)
qed

lemma ex_scope: "(\<exists>sc. P sc) \<longleftrightarrow> P ScGlobal \<or> P ScUser"
  by (metis egress_scope.exhaust)

lemma mem_sites:
  assumes "mem_inv m"
  shows "set (sites_of m ScGlobal [] @ (if isOwnerId user then sites_of m ScUser user else [])) =
    {\<lparr>es_host = h, es_scope = sc, es_rememberedAt = t\<rparr> | h sc t. spec_visible user (mem_look m) (sc, h) = Some t}"
  (is "?l = ?r")
proof -
  have "?r = {\<lparr>es_host = h, es_scope = ScGlobal, es_rememberedAt = t\<rparr> | h t. mem_look m (ScGlobal, [], h) = Some t}
      \<union> (if isOwnerId user then
           {\<lparr>es_host = h, es_scope = ScUser, es_rememberedAt = t\<rparr> | h t. mem_look m (ScUser, user, h) = Some t}
         else {})"
    by (auto simp: spec_visible_def ex_scope)
  then show ?thesis by (simp add: sites_of_set[OF assms])
qed

interpretation mems: egress_store mem_allowedFor mem_listFor mem_revoke mem_remember mem_look mem_inv
proof unfold_locales
  fix m user owner host now entry
  assume inv: "mem_inv m"
  show "mem_listFor user m = spec_list user (mem_look m)"
    using dedupeByHost_spec[OF mem_sites[OF inv, of user]]
    by (simp add: mem_listFor_def spec_list_def spec_allowed_def)
  show "mem_allowedFor user m = spec_allowed user (mem_look m)"
  proof -
    have keys: "h \<in> set (js_keys (hosts_of m sc ow)) \<longleftrightarrow> mem_look m (sc, ow, h) \<noteq> None" for h sc ow
      unfolding jm.keys_get by (simp add: mem_look_def)
    have "h \<in> mem_allowedFor user m \<longleftrightarrow> h \<in> spec_allowed user (mem_look m)" for h
    proof -
      have "h \<in> mem_allowedFor user m \<longleftrightarrow> mem_look m (ScGlobal, [], h) \<noteq> None \<or>
          isOwnerId user \<and> mem_look m (ScUser, user, h) \<noteq> None"
        by (cases "isOwnerId user")
          (simp_all only: mem_allowedFor_def Un_iff keys if_True if_False empty_iff simp_thms)
      also have "\<dots> \<longleftrightarrow> (\<exists>sc. spec_visible user (mem_look m) (sc, h) \<noteq> None)"
        by (auto simp: spec_visible_def ex_scope)
      finally show ?thesis by (simp add: spec_allowed_def)
    qed
    then show ?thesis by blast
  qed
  show "mem_inv (snd (mem_revoke owner host m))"
    using inv by (auto simp: mem_revoke_def mem_inv_def intro: js_map_wf split: option.splits)
  show "mem_inv (snd (mem_remember now entry m))"
    using inv mem_inv_hosts[OF inv]
    by (auto simp: mem_remember_def Let_def intro!: mem_inv_set js_map_wf split: option.splits)
  show "fst (mem_revoke owner host m) = fst (spec_revoke owner host (mem_look m)) \<and>
      mem_look (snd (mem_revoke owner host m)) = snd (spec_revoke owner host (mem_look m))"
  proof (cases "js_get m (owner_map_key ScUser owner)")
    case None
    then have "mem_look m (ScUser, owner, h) = None" for h by (simp add: mem_look_def hosts_of_def)
    moreover from this have "(mem_look m)((ScUser, owner, h) := None) = mem_look m" for h by auto
    ultimately show ?thesis using None
      by (auto simp: mem_revoke_def spec_revoke_def split: option.splits)
  next
    case (Some hosts)
    then have h: "hosts = hosts_of m ScUser owner" by (simp add: hosts_of_def)
    then show ?thesis using Some mem_look_upd(2)[of ScUser owner _ m]
      by (auto simp: mem_revoke_def spec_revoke_def mem_look_def split: option.splits)
  qed
  show "fst (mem_remember now entry m) = fst (spec_remember now entry (mem_look m)) \<and>
      mem_look (snd (mem_remember now entry m)) = snd (spec_remember now entry (mem_look m))"
  proof (cases "validate entry")
    case None
    then show ?thesis by (simp add: mem_remember_def spec_remember_def)
  next
    case (Some v)
    then obtain owner h where v: "validate entry = Some (owner, h)" by (cases v) simp
    have count: "length (js_keys (hosts_of m ScUser owner)) = card {h. mem_look m (ScUser, owner, h) \<noteq> None}"
    proof -
      have "length (js_keys (hosts_of m ScUser owner)) = card (set (js_keys (hosts_of m ScUser owner)))"
        using mem_inv_hosts[OF inv] by (simp only: distinct_card)
      also have "set (js_keys (hosts_of m ScUser owner)) = {h. mem_look m (ScUser, owner, h) \<noteq> None}"
        unfolding set_eq_iff jm.keys_get by (simp add: mem_look_def)
      finally show ?thesis .
    qed
    show ?thesis
    proof (cases "mem_look m (ee_scope entry, owner, h) = None")
      case False
      then show ?thesis using v by (auto simp: mem_remember_def spec_remember_def mem_look_def)
    next
      case True
      then have "js_get (hosts_of m (ee_scope entry) owner) h = None" by (simp add: mem_look_def)
      with v True count show ?thesis
        by (cases "ee_scope entry = ScUser") (simp_all add: mem_remember_def spec_remember_def not_le)
    qed
  qed
qed

section \<open>Properties\<close>

text \<open>C39. The two stores of the allowlist answer alike: whatever sequence of remembers, revokes,
  lists and reads they are given, the database store, in whatever order it returns its rows, and
  the in-memory store give the same answers.\<close>

theorem egress_stores_agree:
  assumes "\<And>rs. mset (scan rs) = mset rs"
  shows "run_egress (db_allowedFor scan) (db_listFor scan) db_revoke db_remember ops [] =
    run_egress mem_allowedFor mem_listFor mem_revoke mem_remember ops []"
proof -
  have "db_look [] = mem_look []" by (auto simp: fun_eq_iff db_look_def mem_look_def hosts_of_def)
  moreover have "db_inv []" "mem_inv []" by (simp_all add: db_inv_def mem_inv_def)
  ultimately show ?thesis
    using egress_store.run_refines_spec[OF db_egress_store[OF assms]] mems.run_refines_spec by metis
qed

theorem egress_stores_agree_witness:
  "run_egress (db_allowedFor rev) (db_listFor rev) db_revoke db_remember
     [ERemember 1 \<lparr>ee_scope = ScUser, ee_ownerId = Some ''u1'', ee_host = JStr ''Example.com''\<rparr>, EList ''u1''] [] =
   [AnsBool True, AnsSites [\<lparr>es_host = ''example.com'', es_scope = ScUser, es_rememberedAt = 1\<rparr>]]"
  by (subst egress_stores_agree) (simp, code_simp)

text \<open>One user's memory is bounded and their own: remembering for a user never changes what
  another user is allowed, is refused at the cap of 512 hosts, and what was remembered is what
  the user is then allowed, until it is revoked.\<close>

theorem remembered_hosts_are_personal:
  assumes "mem_inv m" and "validate \<lparr>ee_scope = ScUser, ee_ownerId = Some owner, ee_host = raw\<rparr> = Some (owner, h)"
    and "mem_remember now \<lparr>ee_scope = ScUser, ee_ownerId = Some owner, ee_host = raw\<rparr> m = (ok, m1)"
    and "mem_revoke owner raw m1 = (gone, m2)"
  shows "(user \<noteq> owner \<longrightarrow> mem_allowedFor user m1 = mem_allowedFor user m) \<and>
    (ok \<longrightarrow> h \<in> mem_allowedFor owner m1 \<and> gone) \<and>
    (ok \<longrightarrow> card {x. mem_look m (ScUser, owner, x) \<noteq> None} < 512) \<and>
    (mem_look m (ScGlobal, [], h) = None \<longrightarrow> h \<notin> mem_allowedFor owner m2)"
proof -
  let ?e = "\<lparr>ee_scope = ScUser, ee_ownerId = Some owner, ee_host = raw\<rparr>"
  have ow: "isOwnerId owner" "normalizeHost raw = Some h"
    using assms(2) by (auto simp: validate_def ownerKey_def split: option.splits if_splits)
  have m1: "mem_inv m1" using mems.inv_remember[OF assms(1), of now ?e] assms(3) by simp
  have m2: "mem_inv m2" using mems.inv_revoke[OF m1, of owner raw] assms(4) by simp
  have rem: "ok = fst (spec_remember now ?e (mem_look m))" "mem_look m1 = snd (spec_remember now ?e (mem_look m))"
    using mems.remember_spec[OF assms(1), of now ?e] assms(3) by simp_all
  have rev: "gone = (mem_look m1 (ScUser, owner, h) \<noteq> None)" "mem_look m2 = (mem_look m1)((ScUser, owner, h) := None)"
    using mems.revoke_spec[OF m1, of owner raw] assms(4) ow by (simp_all add: spec_revoke_def)
  note al = mems.allowed_spec[OF assms(1)] mems.allowed_spec[OF m1] mems.allowed_spec[OF m2]
  have other: "mem_allowedFor user m1 = mem_allowedFor user m" if "user \<noteq> owner"
  proof -
    have "spec_visible user (mem_look m1) p = spec_visible user (mem_look m) p" for p
      using that assms(2) unfolding rem(2)
      by (auto simp: spec_visible_def spec_remember_def split: prod.splits egress_scope.splits)
    then show ?thesis by (simp add: al spec_allowed_def)
  qed
  have mine: "h \<in> mem_allowedFor owner m1 \<and> gone \<and> card {x. mem_look m (ScUser, owner, x) \<noteq> None} < 512" if ok
  proof -
    have look: "mem_look m1 (ScUser, owner, h) = Some now"
      and cap: "card {x. mem_look m (ScUser, owner, x) \<noteq> None} < 512"
      using that assms(2) unfolding rem by (auto simp: spec_remember_def MAX_USER_HOSTS_def split: if_splits)
    then have "spec_visible owner (mem_look m1) (ScUser, h) \<noteq> None" using ow(1) by (simp add: spec_visible_def)
    then have "h \<in> mem_allowedFor owner m1" unfolding al(2) spec_allowed_def by blast
    then show ?thesis using rev(1) look cap by simp
  qed
  have "h \<notin> mem_allowedFor owner m2" if "mem_look m (ScGlobal, [], h) = None"
  proof -
    have "mem_look m1 (ScGlobal, [], h) = None" using that assms(2) unfolding rem(2) by (simp add: spec_remember_def)
    then have "spec_visible owner (mem_look m2) (sc, h) = None" for sc
      by (cases sc) (simp_all add: spec_visible_def rev(2))
    then show ?thesis by (simp add: al(3) spec_allowed_def)
  qed
  with other mine show ?thesis by blast
qed

theorem remembered_hosts_are_personal_witness:
  "''example.com'' \<in> mem_allowedFor ''u1'' (snd (mem_remember 1
     \<lparr>ee_scope = ScUser, ee_ownerId = Some ''u1'', ee_host = JStr ''example.com''\<rparr> []))"
proof -
  let ?e = "\<lparr>ee_scope = ScUser, ee_ownerId = Some ''u1'', ee_host = JStr ''example.com''\<rparr>"
  have v: "validate ?e = Some (''u1'', ''example.com'')"
    by code_simp
  have r: "mem_remember 1 ?e [] = (True, [(''user:u1'', [(''example.com'', 1)])])"
    using v by (simp add: mem_remember_def hosts_of_def MAX_USER_HOSTS_def owner_map_key_def)
  obtain gone m2 where "mem_revoke ''u1'' (JStr ''example.com'') [(''user:u1'', [(''example.com'', 1)])] = (gone, m2)"
    by force
  from remembered_hosts_are_personal[OF _ v r this, of "''x''"] r show ?thesis by (simp add: mem_inv_def)
qed

end
