(* ===== verification/Js_Text.thy ===== *)
theory Js_Text
  imports Ax_Prelude
begin

text \<open>
  Substrings, \<^verbatim>\<open>split\<close> and \<^verbatim>\<open>join\<close>, and the two encodings Node's
  \<^verbatim>\<open>Buffer\<close> offers and the credential proxy uses. A buffer is a list of bytes, written as
  \<^typ>\<open>char\<close>, which is also its \<^verbatim>\<open>latin1\<close> decoding; a decoded text is the list
  of its Unicode code points.
\<close>

type_synonym bytes = string
type_synonym js_text = "nat list"

definition ascii :: "string \<Rightarrow> js_text" where
  "ascii s = List.map of_char s"

section \<open>Substrings\<close>

text \<open>\<^verbatim>\<open>s.indexOf(p)\<close>, \<^verbatim>\<open>s.includes(p)\<close>, \<^verbatim>\<open>s.split(p)\<close> and \<^verbatim>\<open>parts.join(p)\<close>.\<close>

fun find_sub :: "'a list \<Rightarrow> 'a list \<Rightarrow> nat option" where
  "find_sub p [] = (if p = [] then Some 0 else None)"
| "find_sub p (x # xs) = (if prefix p (x # xs) then Some 0 else map_option Suc (find_sub p xs))"

definition has_sub :: "'a list \<Rightarrow> 'a list \<Rightarrow> bool" where
  "has_sub p s \<longleftrightarrow> find_sub p s \<noteq> None"

lemma find_sub_Some:
  "find_sub p s = Some i \<Longrightarrow> i + length p \<le> length s \<and> s = take i s @ p @ drop (i + length p) s"
proof (induction s arbitrary: i)
  case (Cons x xs)
  show ?case
  proof (cases "prefix p (x # xs)")
    case True
    then have "i = 0" using Cons.prems by simp
    moreover obtain ys where "x # xs = p @ ys" using True by (auto simp: prefix_def)
    ultimately show ?thesis by simp
  next
    case False
    then obtain j where "find_sub p xs = Some j" "i = Suc j" using Cons.prems by auto
    then show ?thesis using Cons.IH by auto
  qed
qed (auto split: if_splits)

lemma find_sub_Nil [simp]: "find_sub [] s = Some 0"
  by (cases s) auto

lemma find_sub_prefix: "find_sub p (p @ b) = Some 0"
  by (cases "p @ b") (metis append_is_Nil_conv find_sub.simps(1), metis find_sub.simps(2) prefixI)

lemma find_sub_append: "\<exists>i \<le> length a. find_sub p (a @ p @ b) = Some i"
proof (induction a)
  case Nil
  show ?case by (simp add: find_sub_prefix)
next
  case (Cons x a)
  then show ?case by auto
qed

lemma has_sub_iff: "has_sub p s \<longleftrightarrow> (\<exists>a b. s = a @ p @ b)"
proof
  assume "has_sub p s"
  then obtain i where "find_sub p s = Some i" by (auto simp: has_sub_def)
  then show "\<exists>a b. s = a @ p @ b" using find_sub_Some by blast
next
  assume "\<exists>a b. s = a @ p @ b"
  then show "has_sub p s" using find_sub_append by (fastforce simp: has_sub_def)
qed

lemma has_sub_set: "has_sub p s \<Longrightarrow> set p \<subseteq> set s"
  by (auto simp: has_sub_iff)

text \<open>A match in the longer text is at the same place, or runs over the end of the shorter one.\<close>

lemma find_sub_extend: "find_sub p s = Some i \<Longrightarrow> find_sub p (s @ t) = Some i"
proof (induction s arbitrary: i)
  case (Cons x xs)
  show ?case
  proof (cases "prefix p (x # xs)")
    case True
    then have "prefix p (x # xs @ t)" using prefix_prefix[of p "x # xs" t] by simp
    then show ?thesis using True Cons.prems by simp
  next
    case False
    then obtain j where j: "find_sub p xs = Some j" "i = Suc j" using Cons.prems by auto
    then have len: "length p \<le> length xs" using find_sub_Some by fastforce
    have "\<not> prefix p (x # xs @ t)"
    proof
      assume "prefix p (x # xs @ t)"
      then have "prefix p ((x # xs) @ t)" by simp
      then have "prefix p (x # xs)" using len by (metis le_Suc_eq length_Cons prefix_length_prefix prefixI)
      then show False using False by simp
    qed
    then show ?thesis using j Cons.IH by simp
  qed
qed (auto split: if_splits)

lemma find_sub_less: "p \<noteq> [] \<Longrightarrow> find_sub p s = Some i \<Longrightarrow> length s - (i + length p) < length s"
proof -
  assume "p \<noteq> []" "find_sub p s = Some i"
  then have "0 < length p" "i + length p \<le> length s" using find_sub_Some by auto
  then show ?thesis by arith
qed

function split_text :: "'a list \<Rightarrow> 'a list \<Rightarrow> 'a list list" where
  "split_text p s =
     (if p = [] then List.map (\<lambda>c. [c]) s
      else case find_sub p s of
        None \<Rightarrow> [s]
      | Some i \<Rightarrow> take i s # split_text p (drop (i + length p) s))"
  by pat_completeness auto
termination
  by (relation "measure (length \<circ> snd)") (auto dest: find_sub_less)

declare split_text.simps [simp del]

fun join_with :: "'a list \<Rightarrow> 'a list list \<Rightarrow> 'a list" where
  "join_with p [] = []"
| "join_with p [x] = x"
| "join_with p (x # y # ys) = x @ p @ join_with p (y # ys)"

lemma split_text_none: "p \<noteq> [] \<Longrightarrow> \<not> has_sub p s \<Longrightarrow> split_text p s = [s]"
  by (simp add: split_text.simps has_sub_def)

lemma split_text_some:
  "p \<noteq> [] \<Longrightarrow> find_sub p s = Some i \<Longrightarrow> split_text p s = take i s # split_text p (drop (i + length p) s)"
  by (simp add: split_text.simps)

lemma split_text_not_Nil: "p \<noteq> [] \<Longrightarrow> split_text p s \<noteq> []"
  by (subst split_text.simps) (auto split: option.splits)

lemma join_with_Cons: "ys \<noteq> [] \<Longrightarrow> join_with p (x # ys) = x @ p @ join_with p ys"
  by (cases ys) auto

lemma join_split: "p \<noteq> [] \<Longrightarrow> join_with p (split_text p s) = s"
proof (induction p s rule: split_text.induct)
  case (1 p s)
  show ?case
  proof (cases "find_sub p s")
    case None
    then show ?thesis using 1 by (simp add: split_text_some split_text_none has_sub_def)
  next
    case (Some i)
    have "join_with p (split_text p s) = take i s @ p @ drop (i + length p) s"
      using 1 Some by (simp add: split_text_some join_with_Cons split_text_not_Nil)
    then show ?thesis using find_sub_Some[OF Some] by simp
  qed
qed

lemma filter_join:
  assumes "filter P p = []"
  shows "filter P (join_with p xs) = concat (List.map (filter P) xs)"
  using assms by (induction p xs rule: join_with.induct) auto

text \<open>Replacing text without \<open>P\<close>-characters by text without any keeps the \<open>P\<close>-characters.\<close>

lemma filter_replace:
  assumes "p \<noteq> []" "filter P p = []" "filter P r = []"
  shows "filter P (join_with r (split_text p s)) = filter P s"
proof -
  have "filter P (join_with r (split_text p s)) = filter P (join_with p (split_text p s))"
    using assms by (simp only: filter_join)
  then show ?thesis using assms by (simp add: join_split)
qed

text \<open>Splitting at one character undoes joining with it.\<close>

lemma find_sub_char: "find_sub [c] s = index_of c s"
  by (induction s) auto

lemma split_join_char:
  "\<forall>x \<in> set xs. c \<notin> set x \<Longrightarrow> xs \<noteq> [] \<Longrightarrow> split_text [c] (join_with [c] xs) = xs"
proof (induction xs)
  case (Cons x xs)
  show ?case
  proof (cases "xs = []")
    case True
    then have "\<not> has_sub [c] x" using Cons.prems by (simp add: has_sub_def find_sub_char index_of_None)
    then show ?thesis using True by (simp add: split_text_none)
  next
    case False
    have "find_sub [c] (x @ c # join_with [c] xs) = Some (length x)"
      using Cons.prems by (simp add: find_sub_char index_of_append)
    then have "split_text [c] (x @ c # join_with [c] xs) = x # split_text [c] (join_with [c] xs)"
      by (simp add: split_text_some)
    then show ?thesis using Cons False by (simp add: join_with_Cons)
  qed
qed simp

section \<open>Character classes\<close>

text \<open>\<^verbatim>\<open>\w\<close> and \<^verbatim>\<open>[ \t]\<close>.\<close>

definition is_word :: "char \<Rightarrow> bool" where
  "is_word c \<longleftrightarrow> is_alnum c \<or> c = CHR ''_''"

definition is_blank :: "char \<Rightarrow> bool" where
  "is_blank c \<longleftrightarrow> c = CHR '' '' \<or> c = CHR 0x09"

section \<open>Numerals\<close>

definition hex_value :: "char \<Rightarrow> nat" where
  "hex_value c =
     (if is_digit c then of_char c - 48 else if is_lower c then of_char c - 87 else of_char c - 55)"

definition is_hex_any :: "char \<Rightarrow> bool" where
  "is_hex_any c \<longleftrightarrow> is_hex (lower_char c)"

definition radix_value :: "nat \<Rightarrow> string \<Rightarrow> nat" where
  "radix_value r s = foldl (\<lambda>n c. n * r + hex_value c) 0 s"

section \<open>UTF-8\<close>

text \<open>
  \<^verbatim>\<open>Buffer.toString('utf8')\<close> is the WHATWG decoder: a byte that cannot start or
  continue a sequence ends it with U+FFFD and is read again as the start of the next. The pending
  state holds the bytes still needed, the bits read, and the range of the next byte.
\<close>

datatype utf8_lead = Emit nat | Need nat nat nat nat | Bad

definition utf8_start :: "nat \<Rightarrow> utf8_lead" where
  "utf8_start b =
     (if b < 0x80 then Emit b
      else if 0xC2 \<le> b \<and> b \<le> 0xDF then Need 0 (b - 0xC0) 0x80 0xBF
      else if 0xE0 \<le> b \<and> b \<le> 0xEF then
        Need 1 (b - 0xE0) (if b = 0xE0 then 0xA0 else 0x80) (if b = 0xED then 0x9F else 0xBF)
      else if 0xF0 \<le> b \<and> b \<le> 0xF4 then
        Need 2 (b - 0xF0) (if b = 0xF0 then 0x90 else 0x80) (if b = 0xF4 then 0x8F else 0xBF)
      else Bad)"

type_synonym utf8_pending = "nat \<times> nat \<times> nat \<times> nat"

fun utf8_go :: "utf8_pending option \<Rightarrow> nat list \<Rightarrow> js_text" where
  "utf8_go None [] = []"
| "utf8_go (Some _) [] = [0xFFFD]"
| "utf8_go None (b # bs) =
     (case utf8_start b of
        Emit c \<Rightarrow> c # utf8_go None bs
      | Need n c lo hi \<Rightarrow> utf8_go (Some (n, c, lo, hi)) bs
      | Bad \<Rightarrow> 0xFFFD # utf8_go None bs)"
| "utf8_go (Some (n, c, lo, hi)) (b # bs) =
     (if lo \<le> b \<and> b \<le> hi then
        (case n of
           0 \<Rightarrow> (c * 64 + (b - 0x80)) # utf8_go None bs
         | Suc m \<Rightarrow> utf8_go (Some (m, c * 64 + (b - 0x80), 0x80, 0xBF)) bs)
      else 0xFFFD #
        (case utf8_start b of
           Emit c \<Rightarrow> c # utf8_go None bs
         | Need n c lo hi \<Rightarrow> utf8_go (Some (n, c, lo, hi)) bs
         | Bad \<Rightarrow> 0xFFFD # utf8_go None bs))"

definition utf8_decode :: "bytes \<Rightarrow> js_text" where
  "utf8_decode bs = utf8_go None (List.map of_char bs)"

text \<open>\<^verbatim>\<open>Buffer.from(text, 'utf8')\<close>; a lone surrogate is written as U+FFFD.\<close>

definition is_surrogate :: "nat \<Rightarrow> bool" where
  "is_surrogate c \<longleftrightarrow> 0xD800 \<le> c \<and> c \<le> 0xDFFF"

definition is_scalar_value :: "nat \<Rightarrow> bool" where
  "is_scalar_value c \<longleftrightarrow> c \<le> 0x10FFFF \<and> \<not> is_surrogate c"

definition utf8_point :: "nat \<Rightarrow> nat list" where
  "utf8_point c =
     (if c < 0x80 then [c]
      else if c < 0x800 then [0xC0 + c div 64, 0x80 + c mod 64]
      else if \<not> is_scalar_value c then [0xEF, 0xBF, 0xBD]
      else if c < 0x10000 then [0xE0 + c div 4096, 0x80 + c div 64 mod 64, 0x80 + c mod 64]
      else [0xF0 + c div 262144, 0x80 + c div 4096 mod 64, 0x80 + c div 64 mod 64, 0x80 + c mod 64])"

definition utf8_encode :: "js_text \<Rightarrow> bytes" where
  "utf8_encode t = List.map char_of (concat (List.map utf8_point t))"

text \<open>ASCII bytes and code points correspond, whatever else the input holds.\<close>

fun pending_ok :: "utf8_pending \<Rightarrow> bool" where
  "pending_ok (n, c, lo, hi) \<longleftrightarrow> 0x80 \<le> lo \<and> (if n = 0 then 2 \<le> c else 1 \<le> c \<or> 0x90 \<le> lo)"

lemma utf8_start_Need: "utf8_start b = Need n c lo hi \<Longrightarrow> pending_ok (n, c, lo, hi) \<and> 0x80 \<le> b"
  by (auto simp: utf8_start_def split: if_splits)

lemma utf8_start_Emit: "utf8_start b = Emit c \<Longrightarrow> c = b \<and> b < 0x80"
  by (auto simp: utf8_start_def split: if_splits)

lemma utf8_start_Bad: "utf8_start b = Bad \<Longrightarrow> 0x80 \<le> b"
  by (auto simp: utf8_start_def split: if_splits)

lemma utf8_go_ascii:
  assumes "\<And>c. P c \<Longrightarrow> c < 0x80"
  shows "(\<forall>q. st = Some q \<longrightarrow> pending_ok q) \<Longrightarrow> filter P (utf8_go st bs) = filter P bs"
proof (induction st bs rule: utf8_go.induct)
  case (2 q)
  have "\<not> P 0xFFFD" using assms by fastforce
  then show ?case by simp
next
  case (3 b bs)
  have fffd: "\<not> P 0xFFFD" using assms by fastforce
  show ?case
  proof (cases "utf8_start b")
    case (Emit c)
    then show ?thesis using 3 utf8_start_Emit[OF Emit] by auto
  next
    case (Need n c lo hi)
    then have "\<not> P b" using assms utf8_start_Need[OF Need] by fastforce
    then show ?thesis using 3 Need utf8_start_Need[OF Need] by (simp del: pending_ok.simps)
  next
    case Bad
    then have "\<not> P b" using assms utf8_start_Bad[OF Bad] by fastforce
    then show ?thesis using 3 Bad fffd by simp
  qed
next
  case (4 n c lo hi b bs)
  have fffd: "\<not> P 0xFFFD" using assms by fastforce
  have ok: "pending_ok (n, c, lo, hi)" using 4 by blast
  show ?case
  proof (cases "lo \<le> b \<and> b \<le> hi")
    case True
    then have pb: "\<not> P b" using assms ok by fastforce
    show ?thesis
    proof (cases n)
      case 0
      then have "0x80 \<le> c * 64 + (b - 0x80)" using ok by simp
      then have "\<not> P (c * 64 + (b - 0x80))" using assms by fastforce
      then show ?thesis using 4 True pb 0 by simp
    next
      case (Suc m)
      have "pending_ok (m, c * 64 + (b - 0x80), 0x80, 0xBF)" using ok True Suc by auto
      then show ?thesis using 4 True pb Suc by simp
    qed
  next
    case False
    show ?thesis
    proof (cases "utf8_start b")
      case (Emit c)
      then show ?thesis using 4 False fffd utf8_start_Emit[OF Emit] by auto
    next
      case (Need n c lo hi)
      then have "\<not> P b" using assms utf8_start_Need[OF Need] by fastforce
      then show ?thesis using 4 False Need fffd utf8_start_Need[OF Need] by (auto simp del: pending_ok.simps)
    next
      case Bad
      then have "\<not> P b" using assms utf8_start_Bad[OF Bad] by fastforce
      then show ?thesis using 4 False Bad fffd by auto
    qed
  qed
qed simp

lemma utf8_decode_ascii:
  "(\<And>c. P c \<Longrightarrow> c < 0x80) \<Longrightarrow> filter P (utf8_decode bs) = filter P (List.map of_char bs)"
  unfolding utf8_decode_def by (rule utf8_go_ascii) auto

lemma utf8_point_ascii: "(\<And>c. P c \<Longrightarrow> c < 0x80) \<Longrightarrow> filter P (utf8_point c) = (if P c then [c] else [])"
proof -
  assume ascii: "\<And>c. P c \<Longrightarrow> c < 0x80"
  have high: "\<not> P (0x80 + x)" "\<not> P (0xC0 + x)" "\<not> P (0xE0 + x)" "\<not> P (0xF0 + x)" for x
    using ascii[of "0x80 + x"] ascii[of "0xC0 + x"] ascii[of "0xE0 + x"] ascii[of "0xF0 + x"] by auto
  have fffd: "\<not> P 0xEF" "\<not> P 0xBF" "\<not> P 0xBD" "0x80 \<le> c \<Longrightarrow> \<not> P c"
    using ascii[of "0xEF"] ascii[of "0xBF"] ascii[of "0xBD"] ascii[of c] by auto
  show ?thesis
    by (cases "c < 0x80") (simp_all add: utf8_point_def high fffd del: One_nat_def)
qed

lemma utf8_point_byte: "b \<in> set (utf8_point c) \<Longrightarrow> b < 256"
proof -
  assume b: "b \<in> set (utf8_point c)"
  have low: "c div k mod 64 < 64" "c mod 64 < 64" for k by simp_all
  have high: "c < 0x800 \<Longrightarrow> c div 64 < 32" "c < 0x10000 \<Longrightarrow> c div 4096 < 16" "c \<le> 0x10FFFF \<Longrightarrow> c div 262144 < 5"
    by (simp_all add: less_mult_imp_div_less)
  consider "c < 0x80" | "0x80 \<le> c" "c < 0x800" | "0x800 \<le> c" "\<not> is_scalar_value c"
    | "0x800 \<le> c" "c < 0x10000" "is_scalar_value c" | "0x10000 \<le> c" "is_scalar_value c"
    by fastforce
  then show ?thesis
  proof cases
    case 2
    then have "b = 0xC0 + c div 64 \<or> b = 0x80 + c mod 64" using b by (simp add: utf8_point_def)
    then show ?thesis using low(2) high(1)[OF 2(2)] by (elim disjE; linarith)
  next
    case 4
    then have "b = 0xE0 + c div 4096 \<or> b = 0x80 + c div 64 mod 64 \<or> b = 0x80 + c mod 64"
      using b by (simp add: utf8_point_def)
    then show ?thesis using low(2) low(1)[of 64] high(2)[OF 4(2)] by (elim disjE; linarith)
  next
    case 5
    then have "b = 0xF0 + c div 262144 \<or> b = 0x80 + c div 4096 mod 64 \<or> b = 0x80 + c div 64 mod 64
        \<or> b = 0x80 + c mod 64"
      using b by (simp add: utf8_point_def)
    then show ?thesis using low(2) low(1)[of 64] low(1)[of 4096] high(3) 5(2) unfolding is_scalar_value_def
      by (elim disjE; linarith)
  qed (use b in \<open>auto simp: utf8_point_def\<close>)
qed

lemma utf8_encode_bytes:
  "List.map of_char (utf8_encode t) = concat (List.map utf8_point t)"
  unfolding utf8_encode_def by (induction t) (auto simp: map_idI utf8_point_byte)

lemma utf8_encode_ascii:
  assumes "\<And>c. P c \<Longrightarrow> c < 0x80"
  shows "filter P (List.map of_char (utf8_encode t)) = filter P t"
  unfolding utf8_encode_bytes
  by (induction t) (auto simp: utf8_point_ascii assms filter_concat)

text \<open>Writing and reading again gives the text back, when it has no lone surrogates.\<close>

lemma utf8_start_lead:
  "c < 0x80 \<Longrightarrow> utf8_start c = Emit c"
  "0x80 \<le> c \<Longrightarrow> c < 0x800 \<Longrightarrow> utf8_start (0xC0 + c div 64) = Need 0 (c div 64) 0x80 0xBF"
  "0x800 \<le> c \<Longrightarrow> c < 0x10000 \<Longrightarrow>
    utf8_start (0xE0 + c div 4096) =
      Need 1 (c div 4096) (if c div 4096 = 0 then 0xA0 else 0x80) (if c div 4096 = 13 then 0x9F else 0xBF)"
  "0x10000 \<le> c \<Longrightarrow> c \<le> 0x10FFFF \<Longrightarrow>
    utf8_start (0xF0 + c div 262144) =
      Need 2 (c div 262144) (if c div 262144 = 0 then 0x90 else 0x80) (if c div 262144 = 4 then 0x8F else 0xBF)"
proof -
  show "c < 0x80 \<Longrightarrow> utf8_start c = Emit c" by (simp add: utf8_start_def)
  assume "0x80 \<le> c" "c < 0x800"
  then have "2 \<le> c div 64" "c div 64 < 32" by auto
  then show "utf8_start (0xC0 + c div 64) = Need 0 (c div 64) 0x80 0xBF" by (simp add: utf8_start_def)
next
  assume "0x800 \<le> c" "c < 0x10000"
  then have "c div 4096 < 16" by auto
  then show "utf8_start (0xE0 + c div 4096) =
      Need 1 (c div 4096) (if c div 4096 = 0 then 0xA0 else 0x80) (if c div 4096 = 13 then 0x9F else 0xBF)"
    by (simp add: utf8_start_def)
next
  assume "0x10000 \<le> c" "c \<le> 0x10FFFF"
  then have "c div 262144 \<le> 4" by auto
  then show "utf8_start (0xF0 + c div 262144) =
      Need 2 (c div 262144) (if c div 262144 = 0 then 0x90 else 0x80) (if c div 262144 = 4 then 0x8F else 0xBF)"
    by (simp add: utf8_start_def)
qed

lemma cont_byte: "(0x80::nat) \<le> 0x80 + n mod 64" "0x80 + n mod 64 \<le> 0xBF"
proof -
  have "n mod 64 < 64" by simp
  then show "0x80 + n mod 64 \<le> 0xBF" by linarith
qed simp

lemma utf8_go_point:
  assumes "is_scalar_value c"
  shows "utf8_go None (utf8_point c @ rest) = c # utf8_go None rest"
proof -
  have join: "c div 64 * 64 + c mod 64 = c" "c div 4096 * 64 + c div 64 mod 64 = c div 64"
    "c div 262144 * 64 + c div 4096 mod 64 = c div 4096"
    using div_mult_mod_eq[of "c div 64" 64] div_mult_mod_eq[of "c div 4096" 64]
    by (simp_all add: div_mult2_eq[symmetric] div_mult_mod_eq)
  consider "c < 0x80" | "0x80 \<le> c" "c < 0x800" | "0x800 \<le> c" "c < 0x10000" | "0x10000 \<le> c" by linarith
  then show ?thesis
  proof cases
    case 1
    then show ?thesis by (simp add: utf8_point_def utf8_start_lead(1))
  next
    case 2
    then show ?thesis
      using cont_byte[of c] join(1) by (simp add: utf8_point_def utf8_start_lead(2)[OF 2])
  next
    case 3
    have lo: "c div 4096 = 0 \<Longrightarrow> 0x20 \<le> c div 64 mod 64" using join(2) 3 by auto
    have hi: "c div 4096 = 13 \<Longrightarrow> c div 64 mod 64 \<le> 0x1F"
    proof -
      assume "c div 4096 = 13"
      then have "c < 14 * 4096" "13 * 4096 \<le> c" by (auto simp: div_eq_dividend_iff)
      then have "c < 0xD800" using assms by (simp add: is_scalar_value_def is_surrogate_def)
      then show ?thesis using join(2) \<open>c div 4096 = 13\<close> by auto
    qed
    then show ?thesis
      using 3 cont_byte[of c] cont_byte[of "c div 64"] join lo assms
      by (auto simp: utf8_point_def utf8_start_lead(3)[OF 3])
  next
    case 4
    have top: "c \<le> 0x10FFFF" using assms by (simp add: is_scalar_value_def)
    have lo: "c div 262144 = 0 \<Longrightarrow> 0x10 \<le> c div 4096 mod 64" using join(3) 4 by auto
    have "c div 4096 \<le> 271" using div_le_mono[OF top, of 4096] by simp
    then have hi: "c div 262144 = 4 \<Longrightarrow> c div 4096 mod 64 \<le> 0xF" using join(3) by linarith
    have range: "(if c div 262144 = 0 then 0x90 else 0x80) \<le> 0x80 + c div 4096 mod 64"
      "0x80 + c div 4096 mod 64 \<le> (if c div 262144 = 4 then 0x8F else 0xBF)"
      using lo hi cont_byte[of "c div 4096"] by (simp_all split: if_split)
    show ?thesis
      using 4 range cont_byte[of c] cont_byte[of "c div 64"] join assms
      by (simp add: utf8_point_def utf8_start_lead(4)[OF 4 top] numeral_2_eq_2 del: if_split)
  qed
qed

lemma utf8_roundtrip: "list_all is_scalar_value t \<Longrightarrow> utf8_decode (utf8_encode t) = t"
  unfolding utf8_decode_def utf8_encode_bytes by (induction t) (simp_all add: utf8_go_point)

section \<open>Base64\<close>

text \<open>
  \<^verbatim>\<open>Buffer.from(s, 'base64')\<close> on a text over the alphabet and \<^verbatim>\<open>=\<close>, the only
  text the code decodes: it stops at the first \<^verbatim>\<open>=\<close> and drops an incomplete last byte.
  \<^verbatim>\<open>buf.toString('base64')\<close> pads.
\<close>

definition B64 :: string where
  "B64 = ''ABCDEFGHIJKLMNOPQRSTUVWXYZabcdefghijklmnopqrstuvwxyz0123456789+/''"

definition b64_char :: "nat \<Rightarrow> char" where
  "b64_char n = B64 ! n"

definition b64_value :: "char \<Rightarrow> nat" where
  "b64_value c =
     (if is_upper c then of_char c - 65
      else if is_lower c then of_char c - 71
      else if is_digit c then of_char c + 4
      else if c = CHR ''+'' then 62 else 63)"

fun b64_bytes :: "nat list \<Rightarrow> nat list" where
  "b64_bytes (a # b # c # d # r) =
     (a * 4 + b div 16) # (b mod 16 * 16 + c div 4) # (c mod 4 * 64 + d) # b64_bytes r"
| "b64_bytes [a, b, c] = [a * 4 + b div 16, b mod 16 * 16 + c div 4]"
| "b64_bytes [a, b] = [a * 4 + b div 16]"
| "b64_bytes _ = []"

definition b64_decode :: "string \<Rightarrow> bytes" where
  "b64_decode s = List.map char_of (b64_bytes (List.map b64_value (takeWhile (\<lambda>c. c \<noteq> CHR ''='') s)))"

fun b64_digits :: "nat list \<Rightarrow> string" where
  "b64_digits (a # b # c # r) =
     b64_char (a div 4) # b64_char (a mod 4 * 16 + b div 16) # b64_char (b mod 16 * 4 + c div 64)
       # b64_char (c mod 64) # b64_digits r"
| "b64_digits [a, b] =
     [b64_char (a div 4), b64_char (a mod 4 * 16 + b div 16), b64_char (b mod 16 * 4), CHR ''='']"
| "b64_digits [a] = [b64_char (a div 4), b64_char (a mod 4 * 16), CHR ''='', CHR ''='']"
| "b64_digits [] = []"

definition b64_encode :: "bytes \<Rightarrow> string" where
  "b64_encode bs = b64_digits (List.map of_char bs)"

definition is_b64 :: "char \<Rightarrow> bool" where
  "is_b64 c \<longleftrightarrow> is_alnum c \<or> c \<in> {CHR ''+'', CHR ''/'', CHR ''=''}"

lemma b64_alphabet: "\<forall>n < 64. b64_value (b64_char n) = n \<and> b64_char n \<noteq> CHR ''='' \<and> is_b64 (b64_char n)"
proof -
  have "list_all2 (\<lambda>n c. b64_value c = n \<and> c \<noteq> CHR ''='' \<and> is_b64 c) [0..<64] B64"
    by (simp add: B64_def upt_conv_Cons b64_value_def is_b64_def is_alnum_def is_upper_def is_lower_def is_digit_def)
  then show ?thesis by (auto simp: list_all2_conv_all_nth b64_char_def)
qed

lemma b64_char_simps [simp]:
  "n < 64 \<Longrightarrow> b64_value (b64_char n) = n" "n < 64 \<Longrightarrow> b64_char n \<noteq> CHR ''=''"
  "n < 64 \<Longrightarrow> is_b64 (b64_char n)"
  using b64_alphabet by blast+

lemma byte_parts [simp]:
  assumes "(a::nat) < 256"
  shows "a div 4 < 64" "a mod 4 * 16 < 64" "a mod 16 * 4 < 64" "a div 16 div 16 = 0"
    "a div 16 mod 16 = a div 16" "a div 64 div 4 = 0" "a div 64 mod 4 = a div 64"
proof -
  have "a mod 4 < 4" "a mod 16 < 16" by simp_all
  then show "a mod 4 * 16 < 64" "a mod 16 * 4 < 64" by linarith+
  have "a div 16 < 16" "a div 64 < 4" using assms by (simp_all add: less_mult_imp_div_less)
  then show "a div 16 div 16 = 0" "a div 16 mod 16 = a div 16" "a div 64 div 4 = 0"
    "a div 64 mod 4 = a div 64" by simp_all
  show "a div 4 < 64" using assms by (simp add: less_mult_imp_div_less)
qed

lemma byte_joins [simp]:
  assumes "(a::nat) < 256" "b < 256"
  shows "a mod 4 * 16 + b div 16 < 64" "a mod 16 * 4 + b div 64 < 64"
proof -
  have "a mod 4 < 4" "a mod 16 < 16" by simp_all
  moreover have "b div 16 < 16" "b div 64 < 4" using assms by (simp_all add: less_mult_imp_div_less)
  ultimately show "a mod 4 * 16 + b div 16 < 64" "a mod 16 * 4 + b div 64 < 64" by linarith+
qed

lemma b64_bytes_digits:
  "\<forall>n \<in> set ns. n < 256 \<Longrightarrow>
    b64_bytes (List.map b64_value (takeWhile (\<lambda>c. c \<noteq> CHR ''='') (b64_digits ns))) = ns"
  by (induction ns rule: b64_digits.induct) (simp_all add: div_mult_mod_eq)

lemma b64_roundtrip: "b64_decode (b64_encode bs) = bs"
  using b64_bytes_digits[of "List.map of_char bs"] by (simp add: b64_decode_def b64_encode_def o_def)

lemma b64_digits_chars: "\<forall>n \<in> set ns. n < 256 \<Longrightarrow> \<forall>c \<in> set (b64_digits ns). is_b64 c"
  by (induction ns rule: b64_digits.induct) (auto, simp_all add: is_b64_def)

lemma b64_encode_chars: "c \<in> set (b64_encode bs) \<Longrightarrow> is_b64 c"
  using b64_digits_chars[of "List.map of_char bs"] by (simp add: b64_encode_def)


end
