(* ===== verification/Credential_Registry.thy ===== *)
theory Credential_Registry
  imports Js_Text
begin

text \<open>
  The credential placeholders of \<^verbatim>\<open>packages/credential-proxy/src/registry.ts\<close>. The 32 hexadecimal digits
  drawn by \<^verbatim>\<open>randomBytes\<close> are an argument of \<^verbatim>\<open>register\<close>. A host is a
  \<^typ>\<open>string\<close>, a credential value and a decoded text a list of code points. A
  \<^verbatim>\<open>Replacer\<close> is the pair of its two functions, which may throw.
\<close>

section \<open>Replacers\<close>

text \<open>
  \<^verbatim>\<open>replaceAllBuffer\<close> returns the very buffer it got when nothing is to be replaced, and the
  framer tests that identity; here \<open>None\<close>.
\<close>

datatype proxy_error = CredentialUnusable

record replacer =
  rp_replaceAll :: "js_text \<Rightarrow> proxy_error + js_text"
  rp_replaceAllBuffer :: "bytes \<Rightarrow> proxy_error + bytes option"

definition NOOP_REPLACER :: replacer where
  "NOOP_REPLACER = \<lparr>rp_replaceAll = Inr, rp_replaceAllBuffer = (\<lambda>_. Inr None)\<rparr>"

section \<open>One session's placeholders\<close>

record credential_map =
  placeholderToReal :: "(js_text, js_text) jsmap"
  placeholderToHosts :: "(js_text, string list) jsmap"
  nameToPlaceholder :: "(string, js_text) jsmap"

definition new_credential_map :: credential_map where
  "new_credential_map = \<lparr>placeholderToReal = [], placeholderToHosts = [], nameToPlaceholder = []\<rparr>"

definition normalizeBoundHost :: "string \<Rightarrow> string" where
  "normalizeBoundHost host = List.map lower_char (trim host)"

definition PLACEHOLDER_PREFIX :: string where
  "PLACEHOLDER_PREFIX = ''ax-cred:''"

fun add_hosts :: "string list \<Rightarrow> string list \<Rightarrow> string list" where
  "add_hosts hosts [] = hosts"
| "add_hosts hosts (h # hs) =
     (let n = normalizeBoundHost h in
      add_hosts (if length n > 0 \<and> n \<notin> set hosts then hosts @ [n] else hosts) hs)"

definition register ::
    "string \<Rightarrow> string \<Rightarrow> js_text \<Rightarrow> string list \<Rightarrow> credential_map \<Rightarrow> js_text \<times> credential_map" where
  "register random envName realValue allowedHosts m =
     (let m = (case js_get (nameToPlaceholder m) envName of
          None \<Rightarrow> m
        | Some oldPh \<Rightarrow>
            if oldPh = [] then m
            else m\<lparr>placeholderToReal := js_delete oldPh (placeholderToReal m),
                   placeholderToHosts := js_delete oldPh (placeholderToHosts m)\<rparr>);
        placeholder = ascii (PLACEHOLDER_PREFIX @ random);
        hosts = add_hosts [] allowedHosts
      in (placeholder,
          m\<lparr>placeholderToReal := js_set placeholder realValue (placeholderToReal m),
            placeholderToHosts := js_set placeholder hosts (placeholderToHosts m),
            nameToPlaceholder := js_set envName placeholder (nameToPlaceholder m)\<rparr>))"

definition updateValue :: "string \<Rightarrow> js_text \<Rightarrow> credential_map \<Rightarrow> js_text option \<times> credential_map" where
  "updateValue envName realValue m =
     (case js_get (nameToPlaceholder m) envName of
        None \<Rightarrow> (None, m)
      | Some placeholder \<Rightarrow>
          (Some placeholder, m\<lparr>placeholderToReal := js_set placeholder realValue (placeholderToReal m)\<rparr>))"

definition hasPlaceholders :: "credential_map \<Rightarrow> js_text \<Rightarrow> bool" where
  "hasPlaceholders m input = list_ex (\<lambda>ph. has_sub ph input) (js_keys (placeholderToReal m))"

text \<open>\<^verbatim>\<open>/[\x00-\x1f\x7f]/\<close>.\<close>

definition is_control :: "nat \<Rightarrow> bool" where
  "is_control c \<longleftrightarrow> c \<le> 0x1F \<or> c = 0x7F"

definition eligible :: "credential_map \<Rightarrow> string \<Rightarrow> js_text list" where
  "eligible m h = [ph. (ph, hosts) \<leftarrow> placeholderToHosts m, h \<in> set hosts]"

fun replace_each :: "(js_text, js_text) jsmap \<Rightarrow> js_text list \<Rightarrow> js_text \<Rightarrow> proxy_error + js_text" where
  "replace_each secrets [] result = Inr result"
| "replace_each secrets (ph # phs) result =
     (case js_get secrets ph of
        None \<Rightarrow> replace_each secrets phs result
      | Some secret \<Rightarrow>
          if has_sub ph result \<and> list_ex is_control secret then Inl CredentialUnusable
          else replace_each secrets phs (join_with secret (split_text ph result)))"

definition forHost :: "credential_map \<Rightarrow> string \<Rightarrow> replacer" where
  "forHost m host =
     (let h = normalizeBoundHost host;
          replaceAll = (\<lambda>input. replace_each (placeholderToReal m) (eligible m h) input)
      in \<lparr>rp_replaceAll = replaceAll,
          rp_replaceAllBuffer = (\<lambda>input.
            let str = utf8_decode input in
            if \<not> list_ex (\<lambda>ph. has_sub ph str) (eligible m h) then Inr None
            else map_sum id (\<lambda>out. Some (utf8_encode out)) (replaceAll str))\<rparr>)"

definition toEnvMap :: "credential_map \<Rightarrow> (string, js_text) jsmap" where
  "toEnvMap m = fold (\<lambda>(name, ph) result. js_set name ph result) (nameToPlaceholder m) []"

section \<open>All sessions\<close>

type_synonym credential_registry = "(string, credential_map) jsmap"

definition registry_register :: "string \<Rightarrow> credential_map \<Rightarrow> credential_registry \<Rightarrow> credential_registry" where
  "registry_register sessionId m sessions = js_set sessionId m sessions"

definition registry_deregister :: "string \<Rightarrow> credential_registry \<Rightarrow> credential_registry" where
  "registry_deregister sessionId sessions = js_delete sessionId sessions"

definition registry_get :: "credential_registry \<Rightarrow> string \<Rightarrow> credential_map option" where
  "registry_get sessions sessionId = js_get sessions sessionId"

text \<open>The replacer looks the session up at every use, so it is a function of the current sessions.\<close>

definition replacerFor :: "credential_registry \<Rightarrow> string \<Rightarrow> string \<Rightarrow> replacer" where
  "replacerFor sessions sessionId host =
     (case js_get sessions sessionId of
        None \<Rightarrow> NOOP_REPLACER
      | Some m \<Rightarrow> forHost m host)"

section \<open>Operations as data\<close>

datatype credential_op =
    OpRegister string string js_text "string list"
  | OpUpdateValue string js_text

fun credential_step :: "credential_op \<Rightarrow> credential_map \<Rightarrow> credential_map" where
  "credential_step (OpRegister random n v hs) m = snd (register random n v hs m)"
| "credential_step (OpUpdateValue n v) m = snd (updateValue n v m)"

definition credential_run :: "credential_op list \<Rightarrow> credential_map \<Rightarrow> credential_map" where
  "credential_run ops m = fold credential_step ops m"

section \<open>Reachable placeholders\<close>

text \<open>
  Every bound placeholder has a value and is the prefix followed by what was drawn; a name's
  placeholder is bound.
\<close>

definition credential_inv :: "credential_map \<Rightarrow> bool" where
  "credential_inv m \<longleftrightarrow>
     js_wf (placeholderToReal m) \<and> js_wf (placeholderToHosts m) \<and> js_wf (nameToPlaceholder m) \<and>
     (\<forall>ph hosts. js_get (placeholderToHosts m) ph = Some hosts \<longrightarrow>
        (\<exists>random. ph = ascii (PLACEHOLDER_PREFIX @ random) \<and> list_all is_hex random) \<and>
        js_get (placeholderToReal m) ph \<noteq> None)"

lemma credential_inv_new: "credential_inv new_credential_map"
  by (simp add: credential_inv_def new_credential_map_def)

lemma credential_inv_register:
  assumes "credential_inv m" "list_all is_hex random"
  shows "credential_inv (snd (register random n v hs m))"
  using assms unfolding credential_inv_def register_def Let_def
  by (auto simp: js_map_wf split: option.splits)

lemma credential_inv_updateValue: "credential_inv m \<Longrightarrow> credential_inv (snd (updateValue n v m))"
  unfolding credential_inv_def updateValue_def by (auto simp: js_map_wf split: option.splits)

fun op_random_ok :: "credential_op \<Rightarrow> bool" where
  "op_random_ok (OpRegister random _ _ _) = list_all is_hex random"
| "op_random_ok (OpUpdateValue _ _) = True"

lemma credential_inv_run:
  "list_all op_random_ok ops \<Longrightarrow> credential_inv m \<Longrightarrow> credential_inv (credential_run ops m)"
proof (induction ops arbitrary: m)
  case (Cons op ops)
  then have "credential_inv (credential_step op m)"
    by (cases op) (auto simp: credential_inv_register credential_inv_updateValue)
  then show ?case using Cons by (simp add: credential_run_def)
qed (simp add: credential_run_def)

lemma placeholder_no_control:
  assumes "list_all is_hex random"
  shows "filter is_control (ascii (PLACEHOLDER_PREFIX @ random)) = []"
proof -
  have "\<not> is_control (of_char c)" if "is_hex c" for c
    using that by (auto simp: is_hex_def is_digit_def is_control_def)
  then have "filter is_control (ascii random) = []"
    using assms by (induction random) (auto simp: ascii_def)
  moreover have "filter is_control (ascii PLACEHOLDER_PREFIX) = []"
    by (simp add: ascii_def PLACEHOLDER_PREFIX_def is_control_def)
  ultimately show ?thesis by (simp add: ascii_def)
qed

lemma eligible_bound:
  assumes "credential_inv m" "ph \<in> set (eligible m h)"
  shows "\<exists>random hosts. ph = ascii (PLACEHOLDER_PREFIX @ random) \<and> list_all is_hex random \<and>
    js_get (placeholderToHosts m) ph = Some hosts \<and> h \<in> set hosts"
proof -
  obtain hosts where "(ph, hosts) \<in> set (placeholderToHosts m)" "h \<in> set hosts"
    using assms(2) by (auto simp: eligible_def)
  moreover from this have "js_get (placeholderToHosts m) ph = Some hosts"
    using assms(1) by (simp add: credential_inv_def js_get_wf_mem)
  ultimately show ?thesis using assms(1) unfolding credential_inv_def by blast
qed

lemma eligible_not_empty: "credential_inv m \<Longrightarrow> ph \<in> set (eligible m h) \<Longrightarrow> ph \<noteq> []"
  using eligible_bound[of m ph h] by (auto simp: ascii_def PLACEHOLDER_PREFIX_def)

section \<open>Substitution\<close>

text \<open>No text of a header can gain a control character: line structure is safe from secrets.\<close>

lemma replace_each_control:
  assumes "\<forall>ph \<in> set phs. ph \<noteq> [] \<and> filter is_control ph = []"
    and "replace_each secrets phs t = Inr out"
  shows "filter is_control out = filter is_control t"
  using assms
proof (induction phs arbitrary: t)
  case (Cons ph phs)
  show ?case
  proof (cases "js_get secrets ph")
    case None
    then show ?thesis using Cons by simp
  next
    case (Some secret)
    then have go: "replace_each secrets phs (join_with secret (split_text ph t)) = Inr out"
      and ok: "\<not> (has_sub ph t \<and> list_ex is_control secret)"
      using Cons.prems(2) by (auto split: if_splits)
    have "filter is_control (join_with secret (split_text ph t)) = filter is_control t"
    proof (cases "has_sub ph t")
      case True
      then have "filter is_control secret = []" using ok by (simp add: filter_empty_conv list_ex_iff)
      then show ?thesis using Cons.prems(1) by (simp add: filter_replace)
    next
      case False
      then show ?thesis using Cons.prems(1) by (simp add: split_text_none)
    qed
    then show ?thesis using Cons.IH[OF _ go] Cons.prems(1) by simp
  qed
qed simp

lemma replace_each_inert:
  "\<forall>ph \<in> set phs. ph \<noteq> [] \<and> \<not> has_sub ph t \<Longrightarrow> replace_each secrets phs t = Inr t"
  by (induction phs) (auto simp: split_text_none split: option.splits)

lemma replace_each_cong:
  "\<forall>ph \<in> set phs. js_get secrets ph = js_get secrets' ph \<Longrightarrow> replace_each secrets phs t = replace_each secrets' phs t"
  by (induction phs arbitrary: t) (auto split: option.splits)

lemma replace_each_append:
  "replace_each secrets (phs @ qs) t =
    (case replace_each secrets phs t of Inl e \<Rightarrow> Inl e | Inr u \<Rightarrow> replace_each secrets qs u)"
  by (induction phs arbitrary: t) (auto split: option.splits)

text \<open>Two maps that differ at most in values no placeholder bound to \<open>h\<close> stands for.\<close>

definition same_for_host :: "string \<Rightarrow> credential_map \<Rightarrow> credential_map \<Rightarrow> bool" where
  "same_for_host h m m' \<longleftrightarrow>
     placeholderToHosts m = placeholderToHosts m' \<and> nameToPlaceholder m = nameToPlaceholder m' \<and>
     (\<forall>ph hosts. js_get (placeholderToHosts m) ph = Some hosts \<longrightarrow> h \<in> set hosts \<longrightarrow>
        js_get (placeholderToReal m) ph = js_get (placeholderToReal m') ph)"

lemma same_for_host_forHost:
  assumes same: "same_for_host (normalizeBoundHost host) m m'" and inv: "credential_inv m"
  shows "forHost m host = forHost m' host"
proof -
  let ?h = "normalizeBoundHost host"
  have el: "eligible m ?h = eligible m' ?h" using same by (simp add: same_for_host_def eligible_def)
  have "js_get (placeholderToReal m) ph = js_get (placeholderToReal m') ph"
    if "ph \<in> set (eligible m ?h)" for ph
    using eligible_bound[OF inv that] same unfolding same_for_host_def by blast
  then have "replace_each (placeholderToReal m) (eligible m ?h) t =
      replace_each (placeholderToReal m') (eligible m ?h) t" for t
    by (intro replace_each_cong) simp
  then show ?thesis using el by (simp add: forHost_def Let_def fun_eq_iff)
qed

lemma same_for_host_step: "same_for_host h m m' \<Longrightarrow> same_for_host h (credential_step op m) (credential_step op m')"
  by (cases op) (auto simp: same_for_host_def register_def updateValue_def Let_def split: option.splits)

lemma same_for_host_run: "same_for_host h m m' \<Longrightarrow> same_for_host h (credential_run ops m) (credential_run ops m')"
  by (induction ops arbitrary: m m') (simp_all add: credential_run_def same_for_host_step)

lemma add_hosts_set:
  "set (add_hosts hosts hs) = set hosts \<union> {h \<in> normalizeBoundHost ` set hs. h \<noteq> []}"
  by (induction hosts hs rule: add_hosts.induct) (auto simp: Let_def)

lemma register_same_for_host:
  assumes "h \<notin> normalizeBoundHost ` set hs"
  shows "same_for_host h (snd (register random n v hs m)) (snd (register random n v' hs m))"
  using assms by (auto simp: same_for_host_def register_def Let_def add_hosts_set split: option.splits)

lemma control_ascii: "is_control c \<Longrightarrow> c < 0x80"
  by (auto simp: is_control_def)

lemma forHost_replaceAll [simp]:
  "rp_replaceAll (forHost m host) t =
    replace_each (placeholderToReal m) (eligible m (normalizeBoundHost host)) t"
  by (simp add: forHost_def Let_def)

lemma forHost_buffer:
  "rp_replaceAllBuffer (forHost m host) bs = Inr r \<longleftrightarrow>
    (if \<exists>ph \<in> set (eligible m (normalizeBoundHost host)). has_sub ph (utf8_decode bs)
     then \<exists>out. rp_replaceAll (forHost m host) (utf8_decode bs) = Inr out \<and> r = Some (utf8_encode out)
     else r = None)"
  by (cases "replace_each (placeholderToReal m) (eligible m (normalizeBoundHost host)) (utf8_decode bs)")
    (auto simp: forHost_def Let_def list_ex_iff)

lemma eligible_clean:
  "credential_inv m \<Longrightarrow> \<forall>ph \<in> set (eligible m h). ph \<noteq> [] \<and> filter is_control ph = []"
  using eligible_bound placeholder_no_control eligible_not_empty by blast

lemma reachable_inv: "list_all op_random_ok ops \<Longrightarrow> credential_inv (credential_run ops new_credential_map)"
  by (simp add: credential_inv_run credential_inv_new)

text \<open>C1. A credential reaches its own hosts only: whatever is registered and updated before and
  after, what the replacer of a host makes of any text or buffer does not depend on the value of a
  credential that was registered without that host.\<close>

theorem credential_stays_with_its_hosts:
  assumes "list_all op_random_ok before" "list_all is_hex random" "list_all op_random_ok after"
    and "normalizeBoundHost host \<notin> normalizeBoundHost ` set allowedHosts"
  defines "m \<equiv> credential_run before new_credential_map"
  shows "forHost (credential_run after (snd (register random envName v allowedHosts m))) host =
    forHost (credential_run after (snd (register random envName v' allowedHosts m))) host"
proof (rule same_for_host_forHost)
  show "same_for_host (normalizeBoundHost host)
      (credential_run after (snd (register random envName v allowedHosts m)))
      (credential_run after (snd (register random envName v' allowedHosts m)))"
    using assms(4) by (intro same_for_host_run register_same_for_host)
  show "credential_inv (credential_run after (snd (register random envName v allowedHosts m)))"
    unfolding m_def using assms by (intro credential_inv_run credential_inv_register reachable_inv)
qed

lemma forHost_control:
  assumes "credential_inv m"
  shows "rp_replaceAll (forHost m host) t = Inr u \<Longrightarrow> filter is_control u = filter is_control t"
    and "rp_replaceAllBuffer (forHost m host) bs = Inr (Some out) \<Longrightarrow>
      filter is_control (List.map of_char out) = filter is_control (List.map of_char bs)"
proof -
  have plain: "filter is_control u = filter is_control t" if "rp_replaceAll (forHost m host) t = Inr u" for t u
    using that replace_each_control[OF eligible_clean[OF assms]] unfolding forHost_replaceAll by blast
  then show "rp_replaceAll (forHost m host) t = Inr u \<Longrightarrow> filter is_control u = filter is_control t" .
  assume "rp_replaceAllBuffer (forHost m host) bs = Inr (Some out)"
  then obtain u where "rp_replaceAll (forHost m host) (utf8_decode bs) = Inr u" "out = utf8_encode u"
    unfolding forHost_buffer by (auto split: if_splits)
  then show "filter is_control (List.map of_char out) = filter is_control (List.map of_char bs)"
    using plain utf8_encode_ascii[of is_control, OF control_ascii]
      utf8_decode_ascii[of is_control, OF control_ascii] by simp
qed

text \<open>Substitution cannot split or join header lines: when the replacer of a host returns, the
  control characters of the text, in order, are those it was given, for the decoded text and for the
  bytes of the buffer alike, whatever the secrets hold.\<close>

theorem substitution_keeps_control_characters:
  fixes host :: string
  assumes "list_all op_random_ok ops"
  defines "rep \<equiv> forHost (credential_run ops new_credential_map) host"
  shows "(\<forall>t out. rp_replaceAll rep t = Inr out \<longrightarrow> filter is_control out = filter is_control t) \<and>
    (\<forall>bs out. rp_replaceAllBuffer rep bs = Inr (Some out) \<longrightarrow>
       filter is_control (List.map of_char out) = filter is_control (List.map of_char bs))"
  using forHost_control[OF reachable_inv[OF assms(1)], of host] unfolding rep_def by blast

lemma eligible_register:
  assumes "js_get (placeholderToHosts m) (ascii (PLACEHOLDER_PREFIX @ random)) = None"
    and "js_get (nameToPlaceholder m) n = None" "h \<in> set (add_hosts [] hs)"
  shows "eligible (snd (register random n v hs m)) h = eligible m h @ [ascii (PLACEHOLDER_PREFIX @ random)]"
proof -
  let ?ph = "ascii (PLACEHOLDER_PREFIX @ random)"
  have snoc: "js_set ?ph x xs = xs @ [(?ph, x)]" if "js_get xs ?ph = None" for x and xs :: "(js_text, string list) jsmap"
    using that by (induction xs) (auto split: if_splits)
  show ?thesis using assms by (simp add: eligible_def register_def Let_def snoc)
qed

text \<open>C2. Round trip through the proxy: in a text where the placeholder a fresh \<^verbatim>\<open>register\<close>
  returned occurs once and no other placeholder of the host occurs, the replacer of each of its
  hosts puts the credential in its place and leaves the rest; a value with a control character is
  refused instead.\<close>

theorem bound_placeholder_is_replaced:
  fixes envName :: string and v :: js_text
  assumes "list_all op_random_ok ops" "list_all is_hex random" "host \<in> set allowedHosts"
    and "normalizeBoundHost host \<noteq> []"
  defines "m \<equiv> credential_run ops new_credential_map"
  defines "ph \<equiv> fst (register random envName v allowedHosts m)"
    and "m' \<equiv> snd (register random envName v allowedHosts m)"
  assumes "js_get (nameToPlaceholder m) envName = None" "js_get (placeholderToHosts m) ph = None"
    and "split_text ph (a @ ph @ b) = [a, b]"
    and "\<forall>ph' \<in> set (eligible m (normalizeBoundHost host)). \<not> has_sub ph' (a @ ph @ b)"
  shows "rp_replaceAll (forHost m' host) (a @ ph @ b) =
    (if list_ex is_control v then Inl CredentialUnusable else Inr (a @ v @ b))"
proof -
  have ph: "ph = ascii (PLACEHOLDER_PREFIX @ random)" by (simp add: ph_def register_def Let_def)
  have m: "credential_inv m" unfolding m_def using assms(1) by (rule reachable_inv)
  have "eligible m' (normalizeBoundHost host) = eligible m (normalizeBoundHost host) @ [ph]"
    unfolding m'_def ph using assms(3,4,8,9) ph by (intro eligible_register) (auto simp: add_hosts_set)
  moreover have "replace_each secrets (eligible m (normalizeBoundHost host)) (a @ ph @ b) = Inr (a @ ph @ b)"
    for secrets using assms(11) eligible_not_empty[OF m] by (intro replace_each_inert) blast
  moreover have "js_get (placeholderToReal m') ph = Some v"
    by (simp add: m'_def ph register_def Let_def)
  moreover have "has_sub ph (a @ ph @ b)" by (auto simp: has_sub_iff)
  ultimately show ?thesis using assms(10) by (simp add: replace_each_append)
qed

definition demo_credentials :: "credential_op list" where
  "demo_credentials =
     [OpRegister ''00ff'' ''API_KEY'' (ascii ''sk-1'') [''Api.Example.com''],
      OpRegister ''0a0b'' ''GIT_TOKEN'' (ascii ''ghp'') [''git.example.com'']]"

lemma credential_stays_with_its_hosts_witness:
  "forHost (credential_run [OpUpdateValue ''API_KEY'' (ascii ''new'')] (snd (register ''0e'' ''MAIL'' (ascii ''a'')
      [''mail.example.com''] (credential_run demo_credentials new_credential_map)))) ''api.example.com'' =
   forHost (credential_run [OpUpdateValue ''API_KEY'' (ascii ''new'')] (snd (register ''0e'' ''MAIL'' (ascii ''b'')
      [''mail.example.com''] (credential_run demo_credentials new_credential_map)))) ''api.example.com''"
  by (rule credential_stays_with_its_hosts) code_simp+

lemma substitution_keeps_control_characters_witness:
  "\<exists>out. rp_replaceAll (forHost (credential_run demo_credentials new_credential_map) ''api.example.com'')
      (ascii ''ax-cred:00ff'' @ [13, 10]) = Inr out \<and> filter is_control out = [13, 10]"
proof -
  let ?rep = "forHost (credential_run demo_credentials new_credential_map) ''api.example.com''"
  let ?t = "ascii ''ax-cred:00ff'' @ [13, 10]"
  have ok: "list_all op_random_ok demo_credentials" by code_simp
  have out: "rp_replaceAll ?rep ?t = Inr (ascii ''sk-1'' @ [13, 10])" by code_simp
  have "filter is_control ?t = [13, 10]" by code_simp
  then have "filter is_control (ascii ''sk-1'' @ [13, 10]) = [13, 10]"
    using conjunct1[OF substitution_keeps_control_characters[OF ok, of "''api.example.com''"]] out by metis
  then show ?thesis using out by blast
qed

lemma bound_placeholder_is_replaced_witness:
  "rp_replaceAll (forHost (snd (register ''0e'' ''MAIL'' (ascii ''secret'') [''mail.example.com'']
      (credential_run demo_credentials new_credential_map))) ''mail.example.com'')
      (ascii ''Bearer '' @ fst (register ''0e'' ''MAIL'' (ascii ''secret'') [''mail.example.com'']
        (credential_run demo_credentials new_credential_map)) @ []) =
    Inr (ascii ''Bearer '' @ ascii ''secret'' @ [])"
proof -
  have clean: "\<not> list_ex is_control (ascii ''secret'')" by code_simp
  show ?thesis
    using bound_placeholder_is_replaced[of demo_credentials "''0e''" "''mail.example.com''" "[''mail.example.com'']"
        "''MAIL''" "ascii ''secret''" "ascii ''Bearer ''" "[]"] clean
    by (simp only: if_False) code_simp
qed

end
