(* ===== verification/Private_Ip.thy ===== *)
theory Private_Ip
  imports Js_Text
begin

text \<open>
  The private address guard of \<^verbatim>\<open>packages/credential-proxy/src/private-ip.ts\<close>:
  \<^verbatim>\<open>net.isIPv4\<close> and \<^verbatim>\<open>net.isIPv6\<close> after Node's grammar of the two notations,
  the expansion of an IPv6 text into its eight groups of 16 bits, and the check before a host is
  dialled. DNS resolution is a parameter.
\<close>

unbundle bit_operations_syntax

section \<open>Numerals\<close>

text \<open>
  \<^verbatim>\<open>Number(s)\<close> for a text without a point: white space around is dropped, the empty text is
  0, then a prefixed integer, \<^verbatim>\<open>Infinity\<close>, or decimal digits with an optional exponent.
\<close>

definition js_digits :: "string \<Rightarrow> nat option" where
  "js_digits s = (if s \<noteq> [] \<and> list_all is_digit s then Some (radix_value 10 s) else None)"

definition js_signed :: "string \<Rightarrow> int option" where
  "js_signed s =
     (case s of
        CHR ''+'' # r \<Rightarrow> map_option int (js_digits r)
      | CHR ''-'' # r \<Rightarrow> map_option (\<lambda>n. - int n) (js_digits r)
      | _ \<Rightarrow> map_option int (js_digits s))"

definition js_unsigned_number :: "string \<Rightarrow> jsnum" where
  "js_unsigned_number s =
     (if s = ''Infinity'' then PosInf
      else case index_of CHR ''e'' (List.map lower_char s) of
        None \<Rightarrow> (case js_digits s of None \<Rightarrow> NaN | Some n \<Rightarrow> Fin (of_nat n))
      | Some i \<Rightarrow>
          (case (js_digits (take i s), js_signed (drop (Suc i) s)) of
             (Some n, Some e) \<Rightarrow> Fin (of_nat n * (if 0 \<le> e then 10 ^ nat e else 1 / 10 ^ nat (- e)))
           | _ \<Rightarrow> NaN))"

fun js_negate :: "jsnum \<Rightarrow> jsnum" where
  "js_negate (Fin q) = Fin (- q)"
| "js_negate PosInf = NegInf"
| "js_negate NegInf = PosInf"
| "js_negate NaN = NaN"

definition js_prefixed :: "nat \<Rightarrow> (char \<Rightarrow> bool) \<Rightarrow> string \<Rightarrow> jsnum" where
  "js_prefixed r ok s = (if s \<noteq> [] \<and> list_all ok s then Fin (of_nat (radix_value r s)) else NaN)"

definition js_number :: "string \<Rightarrow> jsnum" where
  "js_number s =
     (let t = trim s in
      if t = [] then Fin 0
      else if hd t = CHR ''+'' then js_unsigned_number (tl t)
      else if hd t = CHR ''-'' then js_negate (js_unsigned_number (tl t))
      else if hd t = CHR ''0'' \<and> length t > 1 \<and> lower_char (t ! 1) = CHR ''x'' then
        js_prefixed 16 is_hex_any (drop 2 t)
      else if hd t = CHR ''0'' \<and> length t > 1 \<and> lower_char (t ! 1) = CHR ''o'' then
        js_prefixed 8 (\<lambda>c. is_digit c \<and> hex_value c < 8) (drop 2 t)
      else if hd t = CHR ''0'' \<and> length t > 1 \<and> lower_char (t ! 1) = CHR ''b'' then
        js_prefixed 2 (\<lambda>c. is_digit c \<and> hex_value c < 2) (drop 2 t)
      else js_unsigned_number t)"

section \<open>Node's address grammar\<close>

text \<open>A decimal octet has no leading zero and is at most 255.\<close>

definition dec_octet :: "string \<Rightarrow> bool" where
  "dec_octet s \<longleftrightarrow> s \<noteq> [] \<and> length s \<le> 3 \<and> list_all is_digit s \<and> (length s = 1 \<or> hd s \<noteq> CHR ''0'') \<and>
     radix_value 10 s \<le> 255"

definition isIPv4 :: "string \<Rightarrow> bool" where
  "isIPv4 s \<longleftrightarrow> (let parts = split_text ''.'' s in length parts = 4 \<and> list_all dec_octet parts)"

definition hex_group :: "string \<Rightarrow> bool" where
  "hex_group s \<longleftrightarrow> s \<noteq> [] \<and> length s \<le> 4 \<and> list_all is_hex_any s"

text \<open>
  A run of groups separated by colons; the last may be a dotted IPv4, which counts two. \<open>None\<close>
  when it is malformed.
\<close>

definition groups_width :: "bool \<Rightarrow> string \<Rightarrow> nat option" where
  "groups_width dotted s =
     (if s = [] then Some 0
      else let parts = split_text '':'' s in
        if list_all hex_group parts then Some (length parts)
        else if dotted \<and> list_all hex_group (butlast parts) \<and> isIPv4 (last parts) then Some (Suc (length parts))
        else None)"

definition zone_ok :: "string \<Rightarrow> bool" where
  "zone_ok z \<longleftrightarrow> z \<noteq> [] \<and> list_all (\<lambda>c. is_alnum c \<or> c \<in> {CHR ''-'', CHR ''.'', CHR '':''}) z"

definition isIPv6_address :: "string \<Rightarrow> bool" where
  "isIPv6_address s \<longleftrightarrow>
     (case split_text ''::'' s of
        [whole] \<Rightarrow> groups_width True whole = Some 8
      | [left, right] \<Rightarrow>
          (case (groups_width False left, groups_width True right) of
             (Some l, Some r) \<Rightarrow> l + r \<le> 7
           | _ \<Rightarrow> False)
      | _ \<Rightarrow> False)"

definition isIPv6 :: "string \<Rightarrow> bool" where
  "isIPv6 s \<longleftrightarrow>
     (case index_of CHR ''%'' s of
        None \<Rightarrow> isIPv6_address s
      | Some i \<Rightarrow> isIPv6_address (take i s) \<and> zone_ok (drop (Suc i) s))"

definition isIP :: "string \<Rightarrow> bool" where
  "isIP s \<longleftrightarrow> isIPv4 s \<or> isIPv6 s"

section \<open>Private ranges\<close>

definition num_is :: "jsnum \<Rightarrow> nat \<Rightarrow> bool" where
  "num_is x n \<longleftrightarrow> x = Fin (of_nat n)"

fun num_between :: "nat \<Rightarrow> jsnum \<Rightarrow> nat \<Rightarrow> bool" where
  "num_between lo (Fin q) hi = (of_nat lo \<le> q \<and> q \<le> of_nat hi)"
| "num_between _ _ _ = False"

definition isPrivateIPv4 :: "string \<Rightarrow> bool" where
  "isPrivateIPv4 ip =
     (let parts = List.map js_number (split_text ''.'' ip) in
      if length parts \<noteq> 4 \<or> NaN \<in> set parts then False
      else let a = parts ! 0; b = parts ! 1 in
        num_is a 127 \<or> num_is a 10 \<or> (num_is a 172 \<and> num_between 16 b 31) \<or>
        (num_is a 192 \<and> num_is b 168) \<or> (num_is a 169 \<and> num_is b 254) \<or>
        (num_is a 168 \<and> num_is b 63) \<or> (num_is a 100 \<and> num_between 64 b 127) \<or> num_is a 0)"

definition DIGITS :: string where
  "DIGITS = ''0123456789abcdef''"

fun to_radix :: "nat \<Rightarrow> nat \<Rightarrow> nat \<Rightarrow> string" where
  "to_radix r 0 n = []"
| "to_radix r (Suc k) n =
     (if n < r then [DIGITS ! n]
      else to_radix r k (n div r) @ [DIGITS ! (n mod r)])"

text \<open>\<^verbatim>\<open>n.toString(16)\<close> and \<^verbatim>\<open>n.toString()\<close> for 16 and for 8 bits.\<close>

definition to_hex :: "16 word \<Rightarrow> string" where
  "to_hex w = to_radix 16 4 (unat w)"

definition to_dec :: "nat \<Rightarrow> string" where
  "to_dec n = to_radix 10 3 n"

definition parse_groups :: "string \<Rightarrow> 16 word list" where
  "parse_groups part = (if part = [] then [] else List.map (\<lambda>h. of_nat (radix_value 16 h)) (split_text '':'' part))"

definition octets :: "string \<Rightarrow> nat list" where
  "octets tail = List.map (radix_value 10) (split_text ''.'' tail)"

definition last_index_of :: "'a \<Rightarrow> 'a list \<Rightarrow> nat option" where
  "last_index_of c s = map_option (\<lambda>i. length s - Suc i) (index_of c (rev s))"

text \<open>The text with a dotted tail rewritten as two groups.\<close>

definition undotted :: "string \<Rightarrow> string" where
  "undotted s =
     (let start = (case last_index_of CHR '':'' s of None \<Rightarrow> 0 | Some i \<Rightarrow> Suc i);
          tail = drop start s
      in if isIPv4 tail then
           (let q = List.map of_nat (octets tail) :: 16 word list in
            take start s @ to_hex (push_bit 8 (q ! 0) OR q ! 1) @ '':'' @ to_hex (push_bit 8 (q ! 2) OR q ! 3))
         else s)"

definition ipv6Groups :: "string \<Rightarrow> 16 word list option" where
  "ipv6Groups ip =
     (if \<not> isIPv6 ip then None
      else let halves = split_text ''::'' (undotted (hd (split_text ''%'' ip)));
               head = parse_groups (halves ! 0);
               tailGroups = (if length halves = 2 then parse_groups (halves ! 1) else []);
               groups = (if length halves = 2
                 then head @ replicate (8 - length head - length tailGroups) 0 @ tailGroups else head)
           in if length groups = 8 then Some groups else None)"

definition dotted_low :: "16 word list \<Rightarrow> string" where
  "dotted_low g = join_with ''.'' (List.map (to_dec \<circ> unat)
     [drop_bit 8 (g ! 6), g ! 6 AND 0xFF, drop_bit 8 (g ! 7), g ! 7 AND 0xFF])"

definition isPrivateIPv6 :: "string \<Rightarrow> bool" where
  "isPrivateIPv6 ip =
     (case ipv6Groups ip of
        None \<Rightarrow> False
      | Some g \<Rightarrow>
          let v4 = dotted_low g; zeroThrough = (\<lambda>n. list_all (\<lambda>x. x = 0) (take n g)) in
          if zeroThrough 6 then isPrivateIPv4 v4
          else if zeroThrough 5 \<and> g ! 5 = 0xFFFF then isPrivateIPv4 v4
          else if g ! 0 = 0x64 \<and> g ! 1 = 0xFF9B \<and> list_all (\<lambda>x. x = 0) (drop 2 (take 6 g))
            then isPrivateIPv4 v4
          else g ! 0 AND 0xFFC0 = 0xFE80 \<or> g ! 0 AND 0xFE00 = 0xFC00)"

datatype ip_error = BlockedIPError string string

text \<open>\<^verbatim>\<open>allowedIPs\<close> and \<^verbatim>\<open>resolver\<close>, which may fail, are arguments.\<close>

definition resolveAndCheck ::
    "string \<Rightarrow> string set \<Rightarrow> (string \<Rightarrow> 'e + string) \<Rightarrow> (ip_error + 'e) + string" where
  "resolveAndCheck hostname allowedIPs resolver =
     (if isIP hostname then
        (if hostname \<notin> allowedIPs \<and> (isPrivateIPv4 hostname \<or> isPrivateIPv6 hostname)
         then Inl (Inl (BlockedIPError hostname hostname))
         else Inr hostname)
      else case resolver hostname of
        Inl e \<Rightarrow> Inl (Inr e)
      | Inr ip \<Rightarrow>
          if ip \<notin> allowedIPs \<and> (isPrivateIPv4 ip \<or> isPrivateIPv6 ip)
          then Inl (Inl (BlockedIPError hostname ip))
          else Inr ip)"

section \<open>Printing and reading numerals\<close>

lemma radix_value_snoc: "radix_value r (s @ [c]) = radix_value r s * r + hex_value c"
  by (simp add: radix_value_def)

lemma digit_chars: "\<forall>d < 16. hex_value (DIGITS ! d) = d \<and> is_hex (DIGITS ! d) \<and>
    (d < 10 \<longrightarrow> is_digit (DIGITS ! d)) \<and> (0 < d \<longrightarrow> DIGITS ! d \<noteq> CHR ''0'')"
proof -
  have "\<forall>d \<in> set [0..<16]. hex_value (DIGITS ! d) = d \<and> is_hex (DIGITS ! d) \<and>
    (d < 10 \<longrightarrow> is_digit (DIGITS ! d)) \<and> (0 < d \<longrightarrow> DIGITS ! d \<noteq> CHR ''0'')" by code_simp
  then show ?thesis by simp
qed

lemma to_radix_digits:
  assumes "1 < r" "r \<le> 16"
  shows "n < r ^ k \<Longrightarrow> 0 < k \<Longrightarrow> to_radix r k n \<noteq> [] \<and> length (to_radix r k n) \<le> k \<and>
    radix_value r (to_radix r k n) = n \<and> (\<forall>c \<in> set (to_radix r k n). \<exists>d < r. c = DIGITS ! d) \<and>
    (length (to_radix r k n) = 1 \<or> hd (to_radix r k n) \<noteq> CHR ''0'')"
proof (induction k arbitrary: n)
  case (Suc k)
  have digit: "hex_value (DIGITS ! d) = d" if "d < r" for d using digit_chars that assms by auto
  show ?case
  proof (cases "n < r")
    case True
    then show ?thesis using digit[OF True] by (auto simp: radix_value_def)
  next
    case False
    then have k: "0 < k" using Suc.prems by (cases k) auto
    have m: "n mod r < r" using assms by simp
    have "n div r < r ^ k" using Suc.prems by (simp add: less_mult_imp_div_less mult.commute)
    from Suc.IH[OF this k] have ih: "to_radix r k (n div r) \<noteq> []" "length (to_radix r k (n div r)) \<le> k"
      "radix_value r (to_radix r k (n div r)) = n div r"
      "\<forall>c \<in> set (to_radix r k (n div r)). \<exists>d < r. c = DIGITS ! d"
      "length (to_radix r k (n div r)) = 1 \<or> hd (to_radix r k (n div r)) \<noteq> CHR ''0''" by auto
    have "hd (to_radix r k (n div r)) \<noteq> CHR ''0''"
    proof (cases "length (to_radix r k (n div r)) = 1")
      case True
      then obtain c where c: "to_radix r k (n div r) = [c]" by (auto simp: length_Suc_conv)
      then obtain d where d: "d < r" "c = DIGITS ! d" using ih(4) by auto
      then have "d = n div r" using ih(3) c digit[OF d(1)] by (simp add: radix_value_def)
      then have "0 < d" using False assms by (simp add: div_greater_zero_iff)
      then show ?thesis using c d digit_chars assms by auto
    qed (use ih(5) in simp)
    then show ?thesis using False ih m digit[OF m]
      by (auto simp: radix_value_snoc div_mult_mod_eq)
  qed
qed simp

lemma to_hex: "to_hex w \<noteq> []" "length (to_hex w) \<le> 4" "list_all is_hex (to_hex w)"
  "radix_value 16 (to_hex w) = unat w"
proof -
  have "unat w < 16 ^ 4" using unsigned_less[of w] by simp
  from to_radix_digits[OF _ _ this] show "to_hex w \<noteq> []" "length (to_hex w) \<le> 4" "list_all is_hex (to_hex w)"
    "radix_value 16 (to_hex w) = unat w"
    unfolding to_hex_def list_all_iff using digit_chars by fastforce+
qed

lemma to_dec_octet:
  assumes "n < 256"
  shows "dec_octet (to_dec n)" "radix_value 10 (to_dec n) = n" "list_all is_digit (to_dec n)"
proof -
  have three: "n < 10 ^ 3" using assms by simp
  show dv: "radix_value 10 (to_dec n) = n" and dg: "list_all is_digit (to_dec n)"
    using to_radix_digits[OF _ _ three] digit_chars unfolding to_dec_def list_all_iff by fastforce+
  show "dec_octet (to_dec n)"
    using to_radix_digits[OF _ _ three] dv dg assms unfolding dec_octet_def to_dec_def by auto
qed

lemma is_hex_facts: "is_hex c \<Longrightarrow> c \<notin> {CHR '':'', CHR ''.'', CHR ''%''} \<and> is_hex_any c"
  by (auto simp: is_hex_def is_digit_def is_hex_any_def lower_char_def is_upper_def)

section \<open>Notations of one address\<close>

definition groups_text :: "16 word list \<Rightarrow> string" where
  "groups_text g = join_with '':'' (List.map to_hex g)"

definition quad_text :: "nat list \<Rightarrow> string" where
  "quad_text q = join_with ''.'' (List.map to_dec q)"

definition plain_group :: "string \<Rightarrow> bool" where
  "plain_group x \<longleftrightarrow> x \<noteq> [] \<and> CHR '':'' \<notin> set x"

lemma to_hex_plain: "plain_group (to_hex w)" "CHR ''.'' \<notin> set (to_hex w)" "CHR ''%'' \<notin> set (to_hex w)"
  using to_hex[of w] is_hex_facts by (auto simp: plain_group_def list_all_iff)

lemma hex_group_to_hex: "hex_group (to_hex w)"
  using to_hex[of w] is_hex_facts by (auto simp: hex_group_def list_all_iff)

lemma set_join: "set (join_with p xs) \<subseteq> set p \<union> \<Union> (set ` set xs)"
  by (induction p xs rule: join_with.induct) auto

lemma find_double_skip: "CHR '':'' \<notin> set x \<Longrightarrow> find_sub ''::'' (x @ t) = map_option ((+) (length x)) (find_sub ''::'' t)"
  by (induction x) (cases "find_sub ''::'' t", auto)+

lemma find_double_join:
  assumes "\<forall>x \<in> set xs. plain_group x" "t = [] \<or> take 2 t = ''::''"
  shows "find_sub ''::'' (join_with '':'' xs @ t) = map_option ((+) (length (join_with '':'' xs))) (find_sub ''::'' t)"
  using assms(1)
proof (induction xs)
  case (Cons x xs)
  show ?case
  proof (cases xs)
    case Nil
    then show ?thesis using Cons.prems by (simp add: find_double_skip plain_group_def)
  next
    case (Cons y ys)
    let ?z = "join_with '':'' xs"
    obtain c z where z: "?z = c # z" "c \<noteq> CHR '':''"
      using Cons Cons.prems by (cases y; cases ys) (auto simp: plain_group_def)
    have "find_sub ''::'' (x @ '':'' @ ?z @ t) = map_option ((+) (length x)) (find_sub ''::'' ('':'' @ ?z @ t))"
      using Cons.prems by (intro find_double_skip) (simp add: plain_group_def)
    also have "find_sub ''::'' ('':'' @ ?z @ t) = map_option Suc (find_sub ''::'' (?z @ t))"
      using z by simp
    finally show ?thesis using Cons.IH Cons.prems Cons
      by (cases "find_sub ''::'' t") (auto simp: join_with_Cons)
  qed
qed (cases "find_sub ''::'' t", auto)

lemma join_with_append:
  "xs \<noteq> [] \<Longrightarrow> ys \<noteq> [] \<Longrightarrow> join_with p (xs @ ys) = join_with p xs @ p @ join_with p ys"
proof (induction xs)
  case (Cons x xs)
  then show ?case by (cases "xs = []") (simp_all add: join_with_Cons)
qed simp

lemma split_single:
  assumes "\<forall>x \<in> set xs. plain_group x"
  shows "split_text ''::'' (join_with '':'' xs) = [join_with '':'' xs]"
  using find_double_join[OF assms, of "[]"] by (simp add: split_text_none has_sub_def)

lemma split_double:
  assumes "\<forall>x \<in> set xs. plain_group x" "\<forall>x \<in> set ys. plain_group x"
  shows "split_text ''::'' (join_with '':'' xs @ ''::'' @ join_with '':'' ys) = [join_with '':'' xs, join_with '':'' ys]"
proof -
  have "find_sub ''::'' (join_with '':'' xs @ ''::'' @ join_with '':'' ys) = Some (length (join_with '':'' xs))"
    using find_double_join[OF assms(1), of "''::'' @ join_with '':'' ys"] find_sub_prefix[of "''::''" "join_with '':'' ys"]
    by simp
  from split_text_some[OF _ this] split_single[OF assms(2)]
  show "split_text ''::'' (join_with '':'' xs @ ''::'' @ join_with '':'' ys) = [join_with '':'' xs, join_with '':'' ys]"
    by simp
qed

lemma split_groups: "g \<noteq> [] \<Longrightarrow> split_text '':'' (groups_text g) = List.map to_hex g"
  unfolding groups_text_def using to_hex_plain by (intro split_join_char) (auto simp: plain_group_def)

lemma groups_text_Nil: "groups_text g = [] \<longleftrightarrow> g = []"
proof (cases g)
  case (Cons w g')
  then show ?thesis using to_hex(1)[of w] by (cases g') (auto simp: groups_text_def)
qed (simp add: groups_text_def)

lemma groups_width_text: "groups_width dotted (groups_text g) = Some (length g)"
proof (cases "g = []")
  case False
  then show ?thesis
    by (auto simp: groups_width_def groups_text_Nil split_groups hex_group_to_hex list_all_iff)
qed (simp add: groups_width_def groups_text_def)

lemma parse_groups_text: "parse_groups (groups_text g) = g"
proof (cases "g = []")
  case False
  then show ?thesis
    by (simp add: parse_groups_def groups_text_Nil split_groups to_hex(4) o_def)
qed (simp add: parse_groups_def groups_text_def)

lemma groups_text_chars: "CHR ''.'' \<notin> set (groups_text g)" "CHR ''%'' \<notin> set (groups_text g)"
proof -
  have "set (groups_text g) \<subseteq> set '':'' \<union> \<Union> (set ` set (List.map to_hex g))"
    unfolding groups_text_def by (rule set_join)
  then show "CHR ''.'' \<notin> set (groups_text g)" "CHR ''%'' \<notin> set (groups_text g)"
    using to_hex_plain by auto
qed

lemma not_isIPv4: "CHR ''.'' \<notin> set s \<Longrightarrow> \<not> isIPv4 s"
  by (simp add: isIPv4_def Let_def split_text_none has_sub_def find_sub_char index_of_None)

lemma undotted_plain:
  assumes "CHR ''.'' \<notin> set s"
  shows "undotted s = s"
proof -
  have "\<not> isIPv4 (drop k s)" for k using assms by (intro not_isIPv4) (auto dest: in_set_dropD)
  then show ?thesis by (simp add: undotted_def Let_def)
qed

lemma no_zone: "CHR ''%'' \<notin> set s \<Longrightarrow> index_of CHR ''%'' s = None \<and> split_text ''%'' s = [s]"
  by (simp add: index_of_None split_text_none has_sub_def find_sub_char)

lemma quad_text_isIPv4:
  assumes "length q = 4" "\<forall>n \<in> set q. n < 256"
  shows "isIPv4 (quad_text q)" "octets (quad_text q) = q" "CHR '':'' \<notin> set (quad_text q)" "CHR ''%'' \<notin> set (quad_text q)"
proof -
  have digits: "c \<notin> {CHR ''.'', CHR '':'', CHR ''%''}" if "n \<in> set q" "c \<in> set (to_dec n)" for n c
    using to_dec_octet(3)[of n] assms(2) that by (auto simp: list_all_iff is_digit_def)
  then have parts: "split_text ''.'' (quad_text q) = List.map to_dec q"
    unfolding quad_text_def using assms(1) by (intro split_join_char) auto
  then show "isIPv4 (quad_text q)" "octets (quad_text q) = q"
    using assms to_dec_octet by (auto simp: isIPv4_def octets_def list_all_iff o_def intro: map_idI)
  have "set (quad_text q) \<subseteq> set ''.'' \<union> \<Union> (set ` set (List.map to_dec q))"
    unfolding quad_text_def by (rule set_join)
  then show "CHR '':'' \<notin> set (quad_text q)" "CHR ''%'' \<notin> set (quad_text q)" using digits by auto
qed

lemma last_index_append: "c \<notin> set t \<Longrightarrow> last_index_of c (s @ c # t) = Some (length s)"
  by (simp add: last_index_of_def index_of_append)

lemma undotted_quad:
  assumes "length q = 4" "\<forall>n \<in> set q. n < 256"
  shows "undotted (s @ '':'' @ quad_text q) =
    s @ '':'' @ groups_text [push_bit 8 (of_nat (q ! 0)) OR of_nat (q ! 1), push_bit 8 (of_nat (q ! 2)) OR of_nat (q ! 3)]"
  using quad_text_isIPv4[OF assms] assms(1)
  by (simp add: undotted_def last_index_append groups_text_def)

lemma groups_text_append:
  "g \<noteq> [] \<Longrightarrow> h \<noteq> [] \<Longrightarrow> groups_text (g @ h) = groups_text g @ '':'' @ groups_text h"
  by (simp add: groups_text_def join_with_append)

lemma dotted_width:
  assumes "length q = 4" "\<forall>n \<in> set q. n < 256" "g \<noteq> []"
  shows "groups_width True (groups_text g @ '':'' @ quad_text q) = Some (length g + 2)"
proof -
  have "groups_text g @ '':'' @ quad_text q = join_with '':'' (List.map to_hex g @ [quad_text q])"
    using assms(3) by (simp add: groups_text_def join_with_append)
  then have parts: "split_text '':'' (groups_text g @ '':'' @ quad_text q) = List.map to_hex g @ [quad_text q]"
    using quad_text_isIPv4[OF assms(1,2)] to_hex_plain
    by (auto simp del: append_Cons append_Nil simp: plain_group_def intro!: split_join_char)
  have "CHR ''.'' \<in> set (quad_text q)"
    using assms(1) by (cases q; cases "tl q") (auto simp: quad_text_def)
  moreover have "CHR ''.'' \<notin> set x" if "hex_group x" for x
    using that by (auto simp: hex_group_def list_all_iff is_hex_any_def is_hex_def is_digit_def lower_char_def is_upper_def)
  ultimately have "\<not> hex_group (quad_text q)" by blast
  then show ?thesis using parts quad_text_isIPv4(1)[OF assms(1,2)]
    by (auto simp: groups_width_def Let_def list_all_iff hex_group_to_hex)
qed

lemma ipv6Groups_full: "length g = 8 \<Longrightarrow> ipv6Groups (groups_text g) = Some g"
proof -
  assume len: "length g = 8"
  have halves: "split_text ''::'' (groups_text g) = [groups_text g]"
    unfolding groups_text_def using to_hex_plain by (intro split_single) auto
  have "isIPv6 (groups_text g)"
    using len by (simp add: isIPv6_def no_zone groups_text_chars isIPv6_address_def halves groups_width_text)
  then show ?thesis
    using len by (simp add: ipv6Groups_def no_zone groups_text_chars undotted_plain halves parse_groups_text)
qed

lemma ipv6Groups_compressed:
  assumes "length g + length h \<le> 7"
  shows "ipv6Groups (groups_text g @ ''::'' @ groups_text h) = Some (g @ replicate (8 - length g - length h) 0 @ h)"
proof -
  let ?t = "groups_text g @ ''::'' @ groups_text h"
  have halves: "split_text ''::'' ?t = [groups_text g, groups_text h]"
    unfolding groups_text_def using to_hex_plain by (intro split_double) auto
  have chars: "CHR ''.'' \<notin> set ?t" "CHR ''%'' \<notin> set ?t" using groups_text_chars by auto
  have "isIPv6 ?t" using assms
    by (simp only: isIPv6_def no_zone[OF chars(2)] isIPv6_address_def halves groups_width_text option.case list.case prod.case)
  then show ?thesis
    using assms by (simp add: ipv6Groups_def no_zone[OF chars(2)] undotted_plain[OF chars(1)] halves parse_groups_text
      del: append_Cons append_Nil append_assoc)
qed

lemma ipv6Groups_dotted:
  assumes "length q = 4" "\<forall>n \<in> set q. n < 256" "length g = 6"
  shows "ipv6Groups (groups_text g @ '':'' @ quad_text q) =
    Some (g @ [push_bit 8 (of_nat (q ! 0)) OR of_nat (q ! 1), push_bit 8 (of_nat (q ! 2)) OR of_nat (q ! 3)])"
proof -
  let ?t = "groups_text g @ '':'' @ quad_text q"
  let ?h = "[push_bit 8 (of_nat (q ! 0)) OR of_nat (q ! 1), push_bit 8 (of_nat (q ! 2)) OR of_nat (q ! 3)] :: 16 word list"
  have g: "g \<noteq> []" using assms(3) by auto
  have t: "?t = join_with '':'' (List.map to_hex g @ [quad_text q])"
    using g by (simp add: groups_text_def join_with_append)
  have q: "plain_group (quad_text q)"
    using quad_text_isIPv4[OF assms(1,2)] by (auto simp: plain_group_def isIPv4_def split_text_none has_sub_def)
  have halves: "split_text ''::'' ?t = [?t]"
    unfolding t using to_hex_plain q by (intro split_single) auto
  have chars: "CHR ''%'' \<notin> set ?t" using groups_text_chars quad_text_isIPv4[OF assms(1,2)] by auto
  have "isIPv6 ?t" using dotted_width[OF assms(1,2) g] assms(3)
    by (simp add: isIPv6_def no_zone[OF chars] isIPv6_address_def halves del: append_Cons append_Nil)
  moreover have "undotted ?t = groups_text (g @ ?h)"
    using undotted_quad[OF assms(1,2)] g by (simp add: groups_text_append)
  moreover have "split_text ''::'' (groups_text (g @ ?h)) = [groups_text (g @ ?h)]"
    unfolding groups_text_def using to_hex_plain by (intro split_single) auto
  ultimately show ?thesis
    using assms(3) by (simp add: ipv6Groups_def no_zone[OF chars] parse_groups_text del: append_Cons append_Nil append_assoc)
qed

section \<open>The blocked IPv4 networks\<close>

lemma js_number_digits:
  assumes "s \<noteq> []" "list_all is_digit s" "length s = 1 \<or> hd s \<noteq> CHR ''0''"
  shows "js_number s = Fin (of_nat (radix_value 10 s))"
proof -
  have plain: "\<not> is_space c \<and> c \<notin> {CHR ''+'', CHR ''-'', CHR ''e'', CHR ''I''} \<and> lower_char c \<noteq> CHR ''e''" if "c \<in> set s" for c
    using assms(2) that by (auto simp: list_all_iff is_digit_def is_space_def lower_char_def is_upper_def)
  obtain c r where s: "s = c # r" using assms(1) by (cases s) auto
  have "trim s = s"
  proof -
    have "dropWhile is_space s = s" using plain s by simp
    moreover have "dropWhile is_space (rev s) = rev s"
      using plain[of "last s"] assms(1) by (cases "rev s") (auto simp: last_conv_nth hd_rev[symmetric] simp flip: hd_rev)
    ultimately show ?thesis by (simp add: trim_def)
  qed
  moreover have "index_of CHR ''e'' (List.map lower_char s) = None"
    using plain unfolding index_of_None set_map by (metis imageE)
  moreover have "s \<noteq> ''Infinity''" using plain s by auto
  ultimately have "js_unsigned_number s = Fin (of_nat (radix_value 10 s))"
    using assms by (simp add: js_unsigned_number_def js_digits_def)
  moreover have "js_number s = js_unsigned_number s"
  proof (cases "c = CHR ''0''")
    case True
    then have "r = []" using assms(3) s by simp
    then show ?thesis using \<open>trim s = s\<close> s True by (simp add: js_number_def)
  next
    case False
    then show ?thesis using \<open>trim s = s\<close> s plain[of c] by (simp add: js_number_def)
  qed
  ultimately show ?thesis by simp
qed

lemma js_number_octet: "n < 256 \<Longrightarrow> js_number (to_dec n) = Fin (of_nat n)"
  using to_dec_octet[of n] js_number_digits[of "to_dec n"] by (auto simp: dec_octet_def)

lemma split_quad: "q \<noteq> [] \<Longrightarrow> \<forall>n \<in> set q. n < 256 \<Longrightarrow> split_text ''.'' (quad_text q) = List.map to_dec q"
proof -
  assume q: "q \<noteq> []" "\<forall>n \<in> set q. n < 256"
  have "c \<noteq> CHR ''.''" if "n \<in> set q" "c \<in> set (to_dec n)" for n c
    using to_dec_octet(3)[of n] q(2) that by (auto simp: list_all_iff is_digit_def)
  then show ?thesis unfolding quad_text_def using q(1) by (intro split_join_char) auto
qed

text \<open>The reference: the blocked networks as prefixes of the 32-bit address.\<close>

definition ipv4_word :: "nat list \<Rightarrow> 32 word" where
  "ipv4_word q = of_nat (foldl (\<lambda>n b. n * 256 + b) 0 q)"

definition in_prefix :: "32 word \<Rightarrow> nat list \<times> nat \<Rightarrow> bool" where
  "in_prefix w p \<longleftrightarrow> drop_bit (32 - snd p) w = drop_bit (32 - snd p) (ipv4_word (fst p))"

definition BLOCKED_NETWORKS :: "(nat list \<times> nat) list" where
  "BLOCKED_NETWORKS =
     [([127, 0, 0, 0], 8), ([10, 0, 0, 0], 8), ([172, 16, 0, 0], 12), ([192, 168, 0, 0], 16),
      ([169, 254, 0, 0], 16), ([168, 63, 0, 0], 16), ([100, 64, 0, 0], 10), ([0, 0, 0, 0], 8)]"

lemma in_prefix_div:
  assumes "n < 2 ^ 32" "m < 2 ^ 32"
  shows "drop_bit k (of_nat n :: 32 word) = drop_bit k (of_nat m) \<longleftrightarrow> n div 2 ^ k = m div 2 ^ k"
proof -
  have "unat (drop_bit k (of_nat n :: 32 word)) = n div 2 ^ k" if "n < 2 ^ 32" for n
    using that by (simp add: unsigned_drop_bit_eq unsigned_of_nat take_bit_nat_eq_self) (simp add: drop_bit_eq_div)
  then show ?thesis using assms by (metis word_unat_eq_iff)
qed

lemma isPrivateIPv4_quad:
  assumes "a < 256" "b < 256" "c < 256" "d < 256"
  shows "isPrivateIPv4 (quad_text [a, b, c, d]) \<longleftrightarrow>
    a = 127 \<or> a = 10 \<or> (a = 172 \<and> 16 \<le> b \<and> b \<le> 31) \<or> (a = 192 \<and> b = 168) \<or> (a = 169 \<and> b = 254) \<or>
    (a = 168 \<and> b = 63) \<or> (a = 100 \<and> 64 \<le> b \<and> b \<le> 127) \<or> a = 0"
  using assms
  by (simp add: isPrivateIPv4_def split_quad js_number_octet num_is_def)

lemma blocked_quad:
  assumes "a < 256" "b < 256" "c < 256" "d < 256"
  shows "list_ex (in_prefix (ipv4_word [a, b, c, d])) BLOCKED_NETWORKS \<longleftrightarrow>
    a = 127 \<or> a = 10 \<or> (a = 172 \<and> 16 \<le> b \<and> b \<le> 31) \<or> (a = 192 \<and> b = 168) \<or> (a = 169 \<and> b = 254) \<or>
    (a = 168 \<and> b = 63) \<or> (a = 100 \<and> 64 \<le> b \<and> b \<le> 127) \<or> a = 0"
proof -
  let ?n = "((a * 256 + b) * 256 + c) * 256 + d"
  have n: "?n < 2 ^ 32" using assms by simp
  have pre: "in_prefix (ipv4_word [a, b, c, d]) ([x, y, 0, 0], k) \<longleftrightarrow>
      ?n div 2 ^ (32 - k) = ((x * 256 + y) * 65536) div 2 ^ (32 - k)" if "x < 256" "y < 256" for x y k
  proof -
    have "ipv4_word [a, b, c, d] = of_nat ?n" "ipv4_word [x, y, 0, 0] = of_nat ((x * 256 + y) * 65536)"
      by (simp_all add: ipv4_word_def)
    moreover have "(x * 256 + y) * 65536 < 2 ^ 32" using that by simp
    ultimately show ?thesis using in_prefix_div[OF n] by (simp only: in_prefix_def fst_conv snd_conv)
  qed
  have shifts: "32 - 8 = (24::nat)" "32 - 12 = (20::nat)" "32 - 16 = (16::nat)" "32 - 10 = (22::nat)"
    by simp_all
  have b: "b div 16 < 16" "b div 64 < 4" using assms by (simp_all add: less_mult_imp_div_less)
  have lead: "a * 16 + q = 2753 \<longleftrightarrow> a = 172 \<and> q = 1" if "q < 16" for q using that by presburger
  have lead': "a * 4 + q = 401 \<longleftrightarrow> a = 100 \<and> q = 1" if "q < 4" for q using that by presburger
  have "x = 1 \<longleftrightarrow> 1 \<le> x \<and> x < 2" for x :: nat by arith
  from this[of "b div 16"] this[of "b div 64"]
  have one: "b div 16 = 1 \<longleftrightarrow> 16 \<le> b \<and> b \<le> 31" and one': "b div 64 = 1 \<longleftrightarrow> 64 \<le> b \<and> b \<le> 127"
    by (auto simp: less_eq_div_iff_mult_less_eq div_less_iff_less_mult)
  have arith12: "a * 16 + b div 16 = 2753 \<longleftrightarrow> a = 172 \<and> 16 \<le> b \<and> b \<le> 31"
    using lead[OF b(1)] one by blast
  have arith10: "a * 4 + b div 64 = 401 \<longleftrightarrow> a = 100 \<and> 64 \<le> b \<and> b \<le> 127"
    using lead'[OF b(2)] one' by blast
  have arith16: "a * 256 + b = x * 256 + y \<longleftrightarrow> a = x \<and> b = y" if "y < 256" for x y
  proof (cases a x rule: linorder_cases)
    case less
    then have "a * 256 + b < x * 256" using assms(2) by linarith
    then show ?thesis using less by simp
  next
    case greater
    then have "x * 256 + y < a * 256" using that by linarith
    then show ?thesis using greater by simp
  qed simp
  have d24: "?n div 2 ^ 24 = a" using assms by simp
  have d16: "?n div 2 ^ 16 = a * 256 + b" using assms by simp
  have d20: "?n div 2 ^ 20 = a * 16 + b div 16" using assms by simp
  have d22: "?n div 2 ^ 22 = a * 4 + b div 64" using assms by simp
  let ?in = "in_prefix (ipv4_word [a, b, c, d])"
  have w8: "?in ([127, 0, 0, 0], 8) \<longleftrightarrow> a = 127" "?in ([10, 0, 0, 0], 8) \<longleftrightarrow> a = 10" "?in ([0, 0, 0, 0], 8) \<longleftrightarrow> a = 0"
    using pre[of 127 0 8] pre[of 10 0 8] pre[of 0 0 8] unfolding shifts d24 by simp_all
  have w12: "?in ([172, 16, 0, 0], 12) \<longleftrightarrow> a = 172 \<and> 16 \<le> b \<and> b \<le> 31"
    using pre[of 172 16 12] unfolding shifts d20 arith12[symmetric] by simp
  have w10: "?in ([100, 64, 0, 0], 10) \<longleftrightarrow> a = 100 \<and> 64 \<le> b \<and> b \<le> 127"
    using pre[of 100 64 10] unfolding shifts d22 arith10[symmetric] by simp
  have w16: "?in ([x, y, 0, 0], 16) \<longleftrightarrow> a = x \<and> b = y" if "x < 256" "y < 256" for x y
    using pre[OF that, of 16] arith16[OF that(2), of x] unfolding shifts d16 by (simp add: mult.commute)
  show ?thesis
    unfolding BLOCKED_NETWORKS_def by (simp add: w8 w12 w10 w16)
qed

section \<open>Properties\<close>

text \<open>C6. The IPv4 test is the blocked list: for every dotted quad of octets,
  \<^verbatim>\<open>isPrivateIPv4\<close> says yes exactly when the 32-bit address lies in one of the eight
  blocked networks, compared by their prefixes.\<close>

theorem private_ipv4_is_the_blocked_networks:
  assumes "length q = 4" "\<forall>n \<in> set q. n < 256"
  shows "isPrivateIPv4 (quad_text q) \<longleftrightarrow> list_ex (in_prefix (ipv4_word q)) BLOCKED_NETWORKS"
proof -
  obtain a b c d where q: "q = [a, b, c, d]"
    using assms(1) by (auto simp: eval_nat_numeral length_Suc_conv)
  then have "a < 256" "b < 256" "c < 256" "d < 256" using assms(2) by auto
  then show ?thesis unfolding q by (simp only: isPrivateIPv4_quad blocked_quad)
qed

definition word_octets :: "16 word list \<Rightarrow> nat list" where
  "word_octets g = List.map unat [drop_bit 8 (g ! 6), g ! 6 AND 0xFF, drop_bit 8 (g ! 7), g ! 7 AND 0xFF]"

lemma dotted_low_quad: "dotted_low g = quad_text (word_octets g)"
  by (simp add: dotted_low_def quad_text_def word_octets_def)

lemma byte_word:
  fixes w :: "16 word"
  shows "unat (w AND 0xFF) < 256" "unat (drop_bit 8 w) < 256"
    "push_bit 8 (drop_bit 8 w) OR (w AND 0xFF) = w"
proof -
  have mask: "w AND 0xFF = take_bit 8 w" by (simp add: take_bit_eq_mask mask_eq_exp_minus_1)
  show "unat (w AND 0xFF) < 256" unfolding mask by (simp add: unsigned_take_bit_eq take_bit_nat_less_exp[of 8, simplified])
  show "unat (drop_bit 8 w) < 256"
  proof -
    have "unat w < 256 * 256" using unsigned_less[of w, where ?'a = nat] by simp
    moreover have "unat (drop_bit 8 w) = unat w div 256"
      by (simp add: unsigned_drop_bit_eq take_bit_nat_eq_self unsigned_less[of w, where ?'a = nat, simplified]) (simp add: drop_bit_eq_div)
    ultimately show ?thesis by (simp add: less_mult_imp_div_less)
  qed
  show "push_bit 8 (drop_bit 8 w) OR (w AND 0xFF) = w"
    unfolding mask by (rule bit_eqI) (auto simp: bit_simps)
qed

lemma word_octets_bytes: "length (word_octets g) = 4" "\<forall>n \<in> set (word_octets g). n < 256"
  using byte_word by (auto simp: word_octets_def)

lemma dotted_same:
  assumes "length g = 8"
  shows "ipv6Groups (groups_text (take 6 g) @ '':'' @ quad_text (word_octets g)) = Some g"
proof -
  have "take 6 g @ [g ! 6, g ! 7] = g"
    using assms by (auto simp: list_eq_iff_nth_eq nth_append less_Suc_eq eval_nat_numeral nth_Cons')
  moreover have "ipv6Groups (groups_text (take 6 g) @ '':'' @ quad_text (word_octets g)) = Some (take 6 g @ [g ! 6, g ! 7])"
    using ipv6Groups_dotted[OF word_octets_bytes, of "take 6 g" g] assms
    by (simp add: word_octets_def byte_word(3) del: append_Cons append_Nil)
  ultimately show ?thesis by simp
qed

lemma compressed_same:
  assumes "length g = 8" "i < j" "j \<le> 8" "\<forall>k. i \<le> k \<longrightarrow> k < j \<longrightarrow> g ! k = 0"
  shows "ipv6Groups (groups_text (take i g) @ ''::'' @ groups_text (drop j g)) = Some g"
proof -
  have "take i g @ replicate (8 - length (take i g) - length (drop j g)) 0 @ drop j g = g"
    using assms by (intro nth_equalityI) (auto simp: nth_append min_def)
  moreover have "length (take i g) + length (drop j g) \<le> 7" using assms by auto
  ultimately show ?thesis using ipv6Groups_compressed by metis
qed

text \<open>The IPv6 test does not depend on the notation: written in full, with any run of zero groups
  compressed to \<^verbatim>\<open>::\<close>, or with its low 32 bits as a dotted quad, an address gets one answer; and
  when it embeds an IPv4 address (mapped, compatible, or behind the NAT64 prefix) the answer is that
  the embedded address is blocked.\<close>

theorem private_ipv6_in_every_notation:
  assumes "length g = 8"
  shows "(\<forall>i j. i < j \<longrightarrow> j \<le> 8 \<longrightarrow> (\<forall>k. i \<le> k \<longrightarrow> k < j \<longrightarrow> g ! k = 0) \<longrightarrow>
      isPrivateIPv6 (groups_text (take i g) @ ''::'' @ groups_text (drop j g)) = isPrivateIPv6 (groups_text g)) \<and>
    isPrivateIPv6 (groups_text (take 6 g) @ '':'' @ quad_text (word_octets g)) = isPrivateIPv6 (groups_text g) \<and>
    (take 6 g \<in> {[0, 0, 0, 0, 0, 0], [0, 0, 0, 0, 0, 0xFFFF], [0x64, 0xFF9B, 0, 0, 0, 0]} \<longrightarrow>
      isPrivateIPv6 (groups_text g) = list_ex (in_prefix (ipv4_word (word_octets g))) BLOCKED_NETWORKS)"
proof -
  have v4: "isPrivateIPv4 (dotted_low g) = list_ex (in_prefix (ipv4_word (word_octets g))) BLOCKED_NETWORKS"
  proof -
    obtain a b c d where q: "word_octets g = [a, b, c, d]" by (simp add: word_octets_def)
    then have "a < 256" "b < 256" "c < 256" "d < 256" using word_octets_bytes(2)[of g] by auto
    then show ?thesis unfolding dotted_low_quad q by (simp only: isPrivateIPv4_quad blocked_quad)
  qed
  obtain a b c d e f h k where g: "g = [a, b, c, d, e, f, h, k]"
    using assms by (auto simp: eval_nat_numeral length_Suc_conv)
  have "isPrivateIPv6 (groups_text g) = isPrivateIPv4 (dotted_low g)"
    if "take 6 g \<in> {[0, 0, 0, 0, 0, 0], [0, 0, 0, 0, 0, 0xFFFF], [0x64, 0xFF9B, 0, 0, 0, 0]}"
    using that ipv6Groups_full[OF assms] unfolding isPrivateIPv6_def g by (auto simp: Let_def)
  then show ?thesis
    using compressed_same[OF assms] dotted_same[OF assms] ipv6Groups_full[OF assms] v4
    by (simp add: isPrivateIPv6_def)
qed

text \<open>C7. What is dialled was checked: the guard returns only the host itself when it is an address, or
  what the resolver gave for it, and what it returns is on the exemption list or is no private
  address in either family; the error names the address it blocked.\<close>

theorem dialled_address_is_not_private:
  shows "(\<forall>ip. resolveAndCheck host allowed resolver = Inr ip \<longrightarrow>
      (ip \<in> allowed \<or> \<not> isPrivateIPv4 ip \<and> \<not> isPrivateIPv6 ip) \<and>
      (if isIP host then ip = host else resolver host = Inr ip)) \<and>
    (\<forall>h ip. resolveAndCheck host allowed resolver = Inl (Inl (BlockedIPError h ip)) \<longrightarrow>
      h = host \<and> ip \<notin> allowed \<and> (isPrivateIPv4 ip \<or> isPrivateIPv6 ip))"
  unfolding resolveAndCheck_def by (auto split: sum.splits)


lemma private_ipv4_is_the_blocked_networks_witness:
  "isPrivateIPv4 ''172.20.0.1'' \<and> \<not> isPrivateIPv4 ''172.32.0.1''"
proof -
  have "isPrivateIPv4 (quad_text [172, 20, 0, 1])" "\<not> isPrivateIPv4 (quad_text [172, 32, 0, 1])"
    using private_ipv4_is_the_blocked_networks[of "[172, 20, 0, 1]"]
      private_ipv4_is_the_blocked_networks[of "[172, 32, 0, 1]"]
    by (simp_all add: blocked_quad)
  moreover have "quad_text [172, 20, 0, 1] = ''172.20.0.1''" "quad_text [172, 32, 0, 1] = ''172.32.0.1''"
    by code_simp+
  ultimately show ?thesis by simp
qed

lemma private_ipv6_in_every_notation_witness:
  "isPrivateIPv6 (groups_text (take 0 [0, 0, 0, 0, 0, 0xFFFF, 0x0A00, 1]) @ ''::'' @
      groups_text (drop 5 [0, 0, 0, 0, 0, 0xFFFF, 0x0A00, 1])) \<and>
   isPrivateIPv6 (groups_text (take 6 [0, 0, 0, 0, 0, 0xFFFF, 0x0A00, 1]) @ '':'' @
      quad_text (word_octets [0, 0, 0, 0, 0, 0xFFFF, 0x0A00, 1]))"
proof -
  let ?g = "[0, 0, 0, 0, 0, 0xFFFF, 0x0A00, 1] :: 16 word list"
  have "word_octets ?g = [10, 0, 0, 1]" by (simp add: word_octets_def)
  then have blocked: "list_ex (in_prefix (ipv4_word (word_octets ?g))) BLOCKED_NETWORKS"
    using blocked_quad[of 10 0 0 1] by (simp del: One_nat_def)
  have zeros: "\<forall>k. 0 \<le> k \<longrightarrow> k < 5 \<longrightarrow> ?g ! k = 0" by (auto simp: less_Suc_eq eval_nat_numeral)
  have len: "length ?g = 8" by simp
  note every = private_ipv6_in_every_notation[OF len]
  have full: "isPrivateIPv6 (groups_text ?g)" using every blocked by simp
  have "isPrivateIPv6 (groups_text (take 0 ?g) @ ''::'' @ groups_text (drop 5 ?g)) = isPrivateIPv6 (groups_text ?g)"
    using conjunct1[OF every, rule_format, of 0 5] zeros by simp
  moreover have "isPrivateIPv6 (groups_text (take 6 ?g) @ '':'' @ quad_text (word_octets ?g)) =
      isPrivateIPv6 (groups_text ?g)" using every by blast
  ultimately show ?thesis using full by blast
qed

lemma dialled_address_is_not_private_witness:
  "resolveAndCheck ''example.com'' {} (\<lambda>_. Inr ''10.0.0.1'' :: unit + string) =
     Inl (Inl (BlockedIPError ''example.com'' ''10.0.0.1'')) \<and>
   resolveAndCheck ''example.com'' {} (\<lambda>_. Inr ''8.8.8.8'' :: unit + string) = Inr ''8.8.8.8'' \<and>
   \<not> isPrivateIPv4 ''8.8.8.8''"
proof -
  have quads: "quad_text [10, 0, 0, 1] = ''10.0.0.1''" "quad_text [8, 8, 8, 8] = ''8.8.8.8''" by code_simp+
  have "isPrivateIPv4 ''10.0.0.1''" "\<not> isPrivateIPv4 ''8.8.8.8''"
    using isPrivateIPv4_quad[of 10 0 0 1] isPrivateIPv4_quad[of 8 8 8 8] unfolding quads by simp_all
  moreover have "\<not> isPrivateIPv6 ''8.8.8.8''" "\<not> isIP ''example.com''" by code_simp+
  ultimately have good: "resolveAndCheck ''example.com'' {} (\<lambda>_. Inr ''8.8.8.8'' :: unit + string) = Inr ''8.8.8.8''"
    and bad: "resolveAndCheck ''example.com'' {} (\<lambda>_. Inr ''10.0.0.1'' :: unit + string) =
      Inl (Inl (BlockedIPError ''example.com'' ''10.0.0.1''))"
    by (simp_all add: resolveAndCheck_def)
  from dialled_address_is_not_private[of "''example.com''" "{}" "\<lambda>_. Inr ''8.8.8.8'' :: unit + string"] good
  have "\<not> isPrivateIPv4 ''8.8.8.8''" by simp
  with good bad show ?thesis by simp
qed

end
