(* ===== verification/Connect_Target.thy ===== *)
theory Connect_Target
  imports Private_Ip
begin

text \<open>
  The target of a \<^verbatim>\<open>CONNECT\<close> request, after
  \<^verbatim>\<open>packages/credential-proxy/src/connect-target.ts\<close>. The URL parser is used for one
  thing, the canonical text of an IPv6 address: its groups in lower case hexadecimal without leading
  zeros, the first longest run of at least two zero groups compressed.
\<close>

section \<open>Canonical IPv6 text\<close>

definition zero_run :: "16 word list \<Rightarrow> nat \<Rightarrow> nat" where
  "zero_run g i = length (takeWhile (\<lambda>x. x = 0) (drop i g))"

definition longest_run :: "16 word list \<Rightarrow> nat" where
  "longest_run g = Max (set (List.map (zero_run g) [0..<Suc (length g)]))"

definition canonical_ipv6 :: "16 word list \<Rightarrow> string" where
  "canonical_ipv6 g =
     (let n = longest_run g in
      if n < 2 then groups_text g
      else case List.find (\<lambda>i. zero_run g i = n) [0..<length g] of
        None \<Rightarrow> groups_text g
      | Some i \<Rightarrow> groups_text (take i g) @ ''::'' @ groups_text (drop (i + n) g))"

section \<open>The parser\<close>

record connect_target =
  ct_hostname :: string
  ct_port :: nat

definition PORT_RE :: "string \<Rightarrow> bool" where
  "PORT_RE s \<longleftrightarrow> list_all is_digit s \<and> 1 \<le> length s \<and> length s \<le> 5"

definition LABEL_RE :: "string \<Rightarrow> bool" where
  "LABEL_RE s \<longleftrightarrow>
     list_all (\<lambda>c. is_alnum c \<or> c = CHR ''_'' \<or> c = CHR ''-'') s \<and> 1 \<le> length s \<and> length s \<le> 63"

definition NUMERIC_LABEL_RE :: "string \<Rightarrow> bool" where
  "NUMERIC_LABEL_RE s \<longleftrightarrow>
     (s \<noteq> [] \<and> list_all is_digit s) \<or>
     (take 2 s \<in> {''0x'', ''0X''} \<and> list_all is_hex_any (drop 2 s))"

definition IPV6_CHARS_RE :: "string \<Rightarrow> bool" where
  "IPV6_CHARS_RE s \<longleftrightarrow> s \<noteq> [] \<and> list_all (\<lambda>c. is_hex_any c \<or> c = CHR '':'' \<or> c = CHR ''.'') s"

definition MAX_NAME_LENGTH :: nat where
  "MAX_NAME_LENGTH = 253"

definition parsePort :: "string \<Rightarrow> nat option" where
  "parsePort portStr =
     (if \<not> PORT_RE portStr then None
      else let port = radix_value 10 portStr in
        if port \<ge> 1 \<and> port \<le> 65535 then Some port else None)"

definition parseRegNameOrIPv4 :: "string \<Rightarrow> string option" where
  "parseRegNameOrIPv4 host =
     (if length host = 0 \<or> length host > MAX_NAME_LENGTH then None
      else let labels = split_text ''.'' host in
        if \<not> list_all LABEL_RE labels then None
        else if NUMERIC_LABEL_RE (last labels) \<and> \<not> isIPv4 host then None
        else Some host)"

definition parseIPv6 :: "string \<Rightarrow> string option" where
  "parseIPv6 inner =
     (if \<not> IPV6_CHARS_RE inner \<or> \<not> isIPv6 inner then None
      else map_option canonical_ipv6 (ipv6Groups inner))"

definition parseConnectTarget :: "string \<Rightarrow> connect_target option" where
  "parseConnectTarget target =
     (let parts = (if take 1 target = ''['' then
            (case index_of CHR '']'' target of
               None \<Rightarrow> None
             | Some close \<Rightarrow> Some (parseIPv6 (drop 1 (take close target)), drop (Suc close) target))
          else
            (case index_of CHR '':'' target of
               None \<Rightarrow> None
             | Some colon \<Rightarrow> Some (parseRegNameOrIPv4 (take colon target), drop colon target)))
      in case parts of
        None \<Rightarrow> None
      | Some (None, rest) \<Rightarrow> None
      | Some (Some hostname, rest) \<Rightarrow>
          if take 1 rest \<noteq> '':'' then None
          else (case parsePort (drop 1 rest) of
              None \<Rightarrow> None
            | Some port \<Rightarrow> Some \<lparr>ct_hostname = hostname, ct_port = port\<rparr>))"

section \<open>The canonical text is the same address\<close>

lemma zero_run_zeros: "k < zero_run g i \<Longrightarrow> g ! (i + k) = 0 \<and> i + k < length g"
proof -
  assume k: "k < zero_run g i"
  have "zero_run g i \<le> length (drop i g)" unfolding zero_run_def by (rule length_takeWhile_le)
  then have len: "i + k < length g" using k by simp
  have "takeWhile (\<lambda>x. x = 0) (drop i g) ! k = 0"
    using k nth_mem[of k "takeWhile (\<lambda>x. x = 0) (drop i g)"] set_takeWhileD unfolding zero_run_def by fastforce
  then show ?thesis using k len by (simp add: zero_run_def takeWhile_nth)
qed

lemma canonical_ipv6_same:
  assumes "length g = 8"
  shows "ipv6Groups (canonical_ipv6 g) = Some g"
proof (cases "longest_run g < 2")
  case True
  then show ?thesis using assms by (simp add: canonical_ipv6_def ipv6Groups_full)
next
  case False
  show ?thesis
  proof (cases "List.find (\<lambda>i. zero_run g i = longest_run g) [0..<length g]")
    case None
    then show ?thesis using False assms by (simp add: canonical_ipv6_def ipv6Groups_full)
  next
    case (Some i)
    then have run: "zero_run g i = longest_run g" "i < length g" by (auto simp: find_Some_iff)
    have "g ! k = 0" if "i \<le> k" "k < i + longest_run g" for k
      using zero_run_zeros[of "k - i" g i] that run by simp
    moreover have "i + longest_run g \<le> 8"
    proof -
      have "longest_run g - 1 < zero_run g i" using run False by simp
      from zero_run_zeros[OF this] have "i + (longest_run g - 1) < 8" using assms by simp
      then show ?thesis using False by linarith
    qed
    ultimately have "ipv6Groups (groups_text (take i g) @ ''::'' @ groups_text (drop (i + longest_run g) g)) = Some g"
      using False assms by (intro compressed_same) auto
    then show ?thesis using False Some by (simp add: canonical_ipv6_def Let_def)
  qed
qed

lemma ipv6Groups_length: "ipv6Groups ip = Some g \<Longrightarrow> length g = 8"
  by (auto simp: ipv6Groups_def Let_def split: if_splits)

lemma parseIPv6_Some:
  "parseIPv6 inner = Some h \<Longrightarrow>
    \<exists>g. ipv6Groups inner = Some g \<and> ipv6Groups h = Some g \<and> h = canonical_ipv6 g"
  using ipv6Groups_length canonical_ipv6_same unfolding parseIPv6_def by (auto split: if_splits)

lemma parsePort_Some: "parsePort s = Some p \<Longrightarrow> 1 \<le> p \<and> p \<le> 65535 \<and> list_all is_digit s \<and> p = radix_value 10 s"
  by (auto simp: parsePort_def PORT_RE_def Let_def split: if_splits)

text \<open>C21. A parsed target has a port from 1 to 65535 read off the digits after the last colon, and one
  spelling per host: a name is the text before the colon, unchanged, of at most 253 characters, and
  one that ends in a number is an IPv4 address in dotted decimals; an IPv6 host is the canonical
  text of the address in the brackets, so two targets for one address are dialled, checked and
  matched under the same text.\<close>

theorem connect_target_sound:
  assumes "parseConnectTarget target = Some t"
  shows "1 \<le> ct_port t \<and> ct_port t \<le> 65535 \<and>
    (\<exists>digits. list_all is_digit digits \<and> ct_port t = radix_value 10 digits \<and>
      (target = ct_hostname t @ '':'' @ digits \<and> length (ct_hostname t) \<le> 253 \<and>
         list_all LABEL_RE (split_text ''.'' (ct_hostname t)) \<and>
         (NUMERIC_LABEL_RE (last (split_text ''.'' (ct_hostname t))) \<longrightarrow> isIPv4 (ct_hostname t)) \<or>
       (\<exists>inner g. target = ''['' @ inner @ '']:'' @ digits \<and> ipv6Groups inner = Some g \<and>
         ipv6Groups (ct_hostname t) = Some g \<and> ct_hostname t = canonical_ipv6 g)))"
proof (cases "take 1 target = ''[''")
  case True
  then obtain close h where close: "index_of CHR '']'' target = Some close"
    and h: "parseIPv6 (drop 1 (take close target)) = Some h" "ct_hostname t = h"
    and rest: "take 1 (drop (Suc close) target) = '':''" "parsePort (drop 1 (drop (Suc close) target)) = Some (ct_port t)"
    using assms unfolding parseConnectTarget_def
    by (auto split: option.splits if_splits)
  let ?digits = "drop 1 (drop (Suc close) target)"
  have "close \<noteq> 0" using True close by (cases target) auto
  then have "target = ''['' @ drop 1 (take close target) @ '']:'' @ ?digits"
    using index_of_split[OF close] rest(1) True by (cases target; cases close; cases "drop (Suc close) target") auto
  then show ?thesis using parsePort_Some[OF rest(2)] parseIPv6_Some[OF h(1)] h(2) by metis
next
  case False
  then obtain colon h where colon: "index_of CHR '':'' target = Some colon"
    and h: "parseRegNameOrIPv4 (take colon target) = Some h" "ct_hostname t = h"
    and rest: "take 1 (drop colon target) = '':''" "parsePort (drop 1 (drop colon target)) = Some (ct_port t)"
    using assms unfolding parseConnectTarget_def
    by (auto split: option.splits if_splits)
  let ?digits = "drop 1 (drop colon target)"
  have "target = take colon target @ '':'' @ ?digits"
    using index_of_split[OF colon] by simp
  moreover have "h = take colon target" "length h \<le> 253" "list_all LABEL_RE (split_text ''.'' h)"
    "NUMERIC_LABEL_RE (last (split_text ''.'' h)) \<longrightarrow> isIPv4 h"
    using h(1) by (auto simp: parseRegNameOrIPv4_def MAX_NAME_LENGTH_def Let_def split: if_splits)
  ultimately show ?thesis using parsePort_Some[OF rest(2)] h(2) by metis
qed

lemma connect_target_sound_witness:
  "parseConnectTarget ''a.io:0443'' = Some \<lparr>ct_hostname = ''a.io'', ct_port = 443\<rparr> \<and> isIPv4 ''a.io'' = False \<and>
   \<not> NUMERIC_LABEL_RE (last (split_text ''.'' ''a.io''))"
proof -
  have port: "parsePort ''0443'' = Some 443"
    by (simp add: parsePort_def PORT_RE_def radix_value_def hex_value_def is_digit_def)
  have name: "parseRegNameOrIPv4 ''a.io'' = Some ''a.io''" by code_simp
  have parsed: "parseConnectTarget ''a.io:0443'' = Some \<lparr>ct_hostname = ''a.io'', ct_port = 443\<rparr>"
    by (simp add: parseConnectTarget_def port name)
  have "\<not> isIPv4 ''a.io''" by code_simp
  with connect_target_sound[OF parsed] parsed show ?thesis by auto
qed

end
