(* ===== verification/Egress_Block_Buffer.thy ===== *)
theory Egress_Block_Buffer
  imports Ax_Prelude
begin

text \<open>
  The buffer of hosts a session was refused, after
  \<^verbatim>\<open>packages/credential-proxy/src/egress-block-buffer.ts\<close>: a set of hosts per session in
  insertion order, capped, read and emptied by \<^verbatim>\<open>drain\<close>.
\<close>

type_synonym block_buffer = "(string, string list) jsmap"

definition DEFAULT_MAX_HOSTS_PER_SESSION :: nat where
  "DEFAULT_MAX_HOSTS_PER_SESSION = 32"

definition buffer_record :: "nat \<Rightarrow> string \<Rightarrow> string \<Rightarrow> block_buffer \<Rightarrow> block_buffer" where
  "buffer_record maxHosts sessionId host bySession =
     (if length sessionId = 0 \<or> length host = 0 then bySession
      else let (hosts, bySession) = (case js_get bySession sessionId of
               None \<Rightarrow> ([], js_set sessionId [] bySession)
             | Some hosts \<Rightarrow> (hosts, bySession))
        in if host \<in> set hosts then bySession
           else if length hosts \<ge> maxHosts then bySession
           else js_set sessionId (hosts @ [host]) bySession)"

definition buffer_drain :: "string \<Rightarrow> block_buffer \<Rightarrow> string list \<times> block_buffer" where
  "buffer_drain sessionId bySession =
     (case js_get bySession sessionId of
        None \<Rightarrow> ([], bySession)
      | Some hosts \<Rightarrow> (hosts, js_delete sessionId bySession))"

definition buffer_forget :: "string \<Rightarrow> block_buffer \<Rightarrow> block_buffer" where
  "buffer_forget sessionId bySession = js_delete sessionId bySession"

datatype buffer_op = BRecord string string | BDrain string | BForget string

fun buffer_step :: "nat \<Rightarrow> buffer_op \<Rightarrow> block_buffer \<Rightarrow> block_buffer" where
  "buffer_step n (BRecord s h) b = buffer_record n s h b"
| "buffer_step n (BDrain s) b = snd (buffer_drain s b)"
| "buffer_step n (BForget s) b = buffer_forget s b"

definition buffer_run :: "nat \<Rightarrow> buffer_op list \<Rightarrow> block_buffer" where
  "buffer_run n ops = fold (buffer_step n) ops []"

text \<open>The specification: the first distinct hosts recorded since the session was last emptied.\<close>

fun firsts :: "'a list \<Rightarrow> 'a list \<Rightarrow> 'a list" where
  "firsts seen [] = []"
| "firsts seen (x # xs) = (if x \<in> set seen then firsts seen xs else x # firsts (x # seen) xs)"

fun recorded :: "string \<Rightarrow> buffer_op list \<Rightarrow> string list \<Rightarrow> string list" where
  "recorded s [] hs = hs"
| "recorded s (BRecord s' h # ops) hs =
     recorded s ops (if s' = s \<and> s \<noteq> [] \<and> h \<noteq> [] then hs @ [h] else hs)"
| "recorded s (BDrain s' # ops) hs = recorded s ops (if s' = s then [] else hs)"
| "recorded s (BForget s' # ops) hs = recorded s ops (if s' = s then [] else hs)"

lemma firsts_snoc:
  "firsts seen (xs @ [x]) = (if x \<in> set seen \<union> set xs then firsts seen xs else firsts seen xs @ [x])"
proof (induction xs arbitrary: seen)
  case (Cons a xs)
  show ?case using Cons.IH[of seen] Cons.IH[of "a # seen"] by auto
qed simp

lemma set_firsts: "set (firsts seen xs) = set xs - set seen"
  by (induction xs arbitrary: seen) auto

lemma distinct_firsts: "distinct (firsts seen xs)"
  by (induction xs arbitrary: seen) (auto simp: set_firsts)

definition buffered :: "block_buffer \<Rightarrow> string \<Rightarrow> string list" where
  "buffered b s = fst (buffer_drain s b)"

lemma buffered_simps [proxy_simps]:
  "buffered (buffer_record n s' h b) s =
    (if s' = s \<and> s \<noteq> [] \<and> h \<noteq> [] \<and> h \<notin> set (buffered b s) \<and> length (buffered b s) < n
     then buffered b s @ [h] else buffered b s)"
  "buffered (snd (buffer_drain s' b)) s = (if s' = s then [] else buffered b s)"
  "buffered (buffer_forget s' b) s = (if s' = s then [] else buffered b s)"
  by (auto simp: buffered_def buffer_record_def buffer_drain_def buffer_forget_def Let_def split: option.splits)

lemma take_firsts_snoc:
  "take n (firsts [] (hs @ [h])) =
    (if h \<notin> set (take n (firsts [] hs)) \<and> length (take n (firsts [] hs)) < n
     then take n (firsts [] hs) @ [h] else take n (firsts [] hs))"
  by (auto simp: firsts_snoc set_firsts min_def dest: in_set_takeD)

lemma buffered_fold:
  "buffered b s = take n (firsts [] hs) \<Longrightarrow>
    buffered (fold (buffer_step n) ops b) s = take n (firsts [] (recorded s ops hs))"
proof (induction ops arbitrary: b hs)
  case (Cons op ops)
  then have "buffered (buffer_step n op b) s = take n (firsts [] (recorded s [op] hs))"
    by (cases op) (simp_all add: proxy_simps take_firsts_snoc)
  from Cons.IH[OF this] show ?case by (cases op) simp_all
qed simp

text \<open>The buffer of a session reports, in order and once each, the first hosts it was refused since
  it was last drained or forgotten, at most the cap of them, whatever other sessions do; draining
  empties it.\<close>

theorem block_buffer_reports_first_refusals:
  shows "fst (buffer_drain s (buffer_run n ops)) = take n (firsts [] (recorded s ops [])) \<and>
    distinct (fst (buffer_drain s (buffer_run n ops))) \<and> length (fst (buffer_drain s (buffer_run n ops))) \<le> n \<and>
    fst (buffer_drain s (snd (buffer_drain s (buffer_run n ops)))) = []"
proof -
  have "buffered [] s = take n (firsts [] [])" by (simp add: buffered_def buffer_drain_def)
  from buffered_fold[OF this] have eq: "fst (buffer_drain s (buffer_run n ops)) = take n (firsts [] (recorded s ops []))"
    by (simp add: buffer_run_def buffered_def)
  have "fst (buffer_drain s (snd (buffer_drain s b))) = []" for b
    by (simp add: buffer_drain_def split: option.splits)
  with eq show ?thesis by (simp add: distinct_firsts)
qed

end
