(* ===== verification/Request_Framer.thy ===== *)
theory Request_Framer
  imports Credential_Registry
begin

text \<open>
  The request framer of \<^verbatim>\<open>packages/credential-proxy/src/request-framer.ts\<close>: it cuts the
  decrypted byte stream of a tunnel into request heads and bodies and substitutes credentials in the
  heads only. The tunnel's replacer and canary tokens are arguments of every call, the policy of a
  metered tunnel is a state transformer. A \<^verbatim>\<open>Content-Length\<close> is an exact natural
  number; the code's \<^verbatim>\<open>Number\<close> rounds above 2^53.
\<close>

section \<open>Lines\<close>

definition CRLF :: bytes where
  "CRLF = [CHR 0x0D, CHR 0x0A]"

definition crlf_lines :: "bytes \<Rightarrow> bytes list" where
  "crlf_lines head = split_text CRLF head"

definition lower :: "bytes \<Rightarrow> bytes" where
  "lower s = List.map lower_char s"

definition findCanaryHit :: "js_text \<Rightarrow> js_text list \<Rightarrow> js_text option" where
  "findCanaryHit data tokens = List.find (\<lambda>token. token \<noteq> [] \<and> has_sub token data) tokens"

text \<open>\<^verbatim>\<open>BASIC_AUTH_LINE_RE\<close>: the header name, the scheme and the base64 text as written.\<close>

definition basic_auth_line :: "bytes \<Rightarrow> (bytes \<times> bytes \<times> bytes) option" where
  "basic_auth_line line =
     (case index_of CHR '':'' line of
        None \<Rightarrow> None
      | Some i \<Rightarrow>
          let name = take i line; rest = dropWhile is_blank (drop (Suc i) line);
              scheme = take 5 rest; after = drop 5 rest; v = dropWhile is_blank after;
              b64 = takeWhile is_b64 v
          in if lower name \<in> {''authorization'', ''proxy-authorization''} \<and> lower scheme = ''basic'' \<and>
               after \<noteq> [] \<and> is_blank (hd after) \<and> b64 \<noteq> [] \<and> list_all is_blank (dropWhile is_b64 v)
             then Some (name, scheme, b64) else None)"

text \<open>
  The loop over the lines: \<open>Inl\<close> a canary found in a decoded value, \<open>Inr\<close> the lines and whether
  one was changed. The head is \<open>None\<close> when it is returned as it came.
\<close>

fun transform_lines ::
    "replacer \<Rightarrow> js_text list \<Rightarrow> bytes list \<Rightarrow> proxy_error + (js_text + bytes list \<times> bool)" where
  "transform_lines rep tokens [] = Inr (Inr ([], False))"
| "transform_lines rep tokens (line # lines) =
     (case basic_auth_line line of
        None \<Rightarrow> map_sum id (map_sum id (\<lambda>(ls, m). (line # ls, m))) (transform_lines rep tokens lines)
      | Some (name, scheme, b64) \<Rightarrow>
          let decoded = utf8_decode (b64_decode b64) in
          (case findCanaryHit decoded tokens of
             Some hit \<Rightarrow> Inr (Inl hit)
           | None \<Rightarrow>
               (case rp_replaceAll rep decoded of
                  Inl e \<Rightarrow> Inl e
                | Inr replaced \<Rightarrow>
                    if replaced \<noteq> decoded then
                      map_sum id (map_sum id (\<lambda>(ls, m).
                          ((name @ '': '' @ scheme @ '' '' @ b64_encode (utf8_encode replaced)) # ls, True)))
                        (transform_lines rep tokens lines)
                    else map_sum id (map_sum id (\<lambda>(ls, m). (line # ls, m)))
                        (transform_lines rep tokens lines))))"

definition transformBasicAuthHead ::
    "bytes \<Rightarrow> replacer \<Rightarrow> js_text list \<Rightarrow> proxy_error + bytes option \<times> js_text option" where
  "transformBasicAuthHead head rep canaryTokens =
     (case transform_lines rep canaryTokens (crlf_lines head) of
        Inl e \<Rightarrow> Inl e
      | Inr (Inl hit) \<Rightarrow> Inr (None, Some hit)
      | Inr (Inr (lines, mutated)) \<Rightarrow>
          if \<not> mutated then Inr (None, None) else Inr (Some (join_with CRLF lines), None))"

section \<open>Reading a head\<close>

record body_framing =
  bf_contentLength :: nat
  bf_chunked :: bool

definition content_length_line :: "bytes \<Rightarrow> nat option" where
  "content_length_line line =
     (let v = dropWhile is_blank (drop 15 line); digits = takeWhile is_digit v in
      if lower (take 15 line) = ''content-length:'' \<and> digits \<noteq> [] \<and> list_all is_blank (dropWhile is_digit v)
      then Some (radix_value 10 digits) else None)"

text \<open>
  \<^verbatim>\<open>/^transfer-encoding:[ \t]*(.+?)[ \t]*$/i\<close>: the value without the blanks around it, one
  blank when there is nothing else; the dot matches no line terminator.
\<close>

definition transfer_encoding_line :: "bytes \<Rightarrow> bytes option" where
  "transfer_encoding_line line =
     (let rest = drop 18 line; v = rev (dropWhile is_blank (rev (dropWhile is_blank rest))) in
      if lower (take 18 line) = ''transfer-encoding:'' \<and> rest \<noteq> [] \<and>
         CHR 0x0D \<notin> set rest \<and> CHR 0x0A \<notin> set rest
      then Some (if v = [] then [last rest] else v) else None)"

text \<open>\<^verbatim>\<open>/\bchunked\b/i\<close>; the flag says whether the character before is a word character.\<close>

fun chunked_word :: "bool \<Rightarrow> bytes \<Rightarrow> bool" where
  "chunked_word prev [] = False"
| "chunked_word prev (c # cs) =
     ((\<not> prev \<and> lower (take 7 (c # cs)) = ''chunked'' \<and>
       (drop 7 (c # cs) = [] \<or> \<not> is_word (hd (drop 7 (c # cs))))) \<or> chunked_word (is_word c) cs)"

definition framing_step :: "bytes \<Rightarrow> body_framing \<Rightarrow> body_framing" where
  "framing_step line f =
     (let f = (case content_length_line line of None \<Rightarrow> f | Some n \<Rightarrow> f\<lparr>bf_contentLength := n\<rparr>) in
      case transfer_encoding_line line of
        None \<Rightarrow> f
      | Some te \<Rightarrow> if chunked_word False te then f\<lparr>bf_chunked := True\<rparr> else f)"

definition parseBodyFraming :: "bytes \<Rightarrow> body_framing" where
  "parseBodyFraming head = fold framing_step (crlf_lines head) \<lparr>bf_contentLength = 0, bf_chunked = False\<rparr>"

record request_head_info =
  rh_method :: bytes
  rh_target :: bytes
  rh_version :: bytes
  rh_contentLength :: "nat option"
  rh_folded :: bool

definition hasFoldedLine :: "bytes list \<Rightarrow> bool" where
  "hasFoldedLine lines = list_ex (\<lambda>l. l \<noteq> [] \<and> is_blank (hd l)) (tl lines)"

definition MAX_TARGET :: nat where
  "MAX_TARGET = 8192"

definition request_line :: "bytes \<Rightarrow> (bytes \<times> bytes \<times> bytes) option" where
  "request_line s =
     (let rmethod = takeWhile is_upper s; r1 = drop (length rmethod) s;
          target = takeWhile (\<lambda>c. \<not> is_space c) (drop 1 r1); r2 = drop (length target) (drop 1 r1)
      in if 1 \<le> length rmethod \<and> length rmethod \<le> 16 \<and> take 1 r1 = '' '' \<and>
           1 \<le> length target \<and> length target \<le> MAX_TARGET \<and> take 1 r2 = '' '' \<and>
           drop 1 r2 \<in> {''HTTP/1.0'', ''HTTP/1.1''}
         then Some (rmethod, target, drop 1 r2) else None)"

definition parseRequestHead :: "bytes \<Rightarrow> request_head_info option" where
  "parseRequestHead head =
     (case request_line (case find_sub CRLF head of None \<Rightarrow> [] | Some eol \<Rightarrow> take eol head) of
        None \<Rightarrow> None
      | Some (rmethod, target, version) \<Rightarrow>
          let f = parseBodyFraming head in
          Some \<lparr>rh_method = rmethod, rh_target = target, rh_version = version,
            rh_contentLength = (if bf_chunked f then None else Some (bf_contentLength f)),
            rh_folded = hasFoldedLine (crlf_lines head)\<rparr>)"

text \<open>\<^verbatim>\<open>/^accept-encoding[ \t]*:/i\<close>.\<close>

definition accept_encoding_line :: "bytes \<Rightarrow> bool" where
  "accept_encoding_line l \<longleftrightarrow>
     lower (take 15 l) = ''accept-encoding'' \<and> take 1 (dropWhile is_blank (drop 15 l)) = '':''"

definition forceIdentityEncoding :: "bytes \<Rightarrow> bytes" where
  "forceIdentityEncoding head =
     (let lines = crlf_lines head; n = length lines in
      if n < 3 \<or> lines ! (n - 1) \<noteq> [] \<or> lines ! (n - 2) \<noteq> [] then head
      else if hasFoldedLine (take (n - 2) lines) then head
      else let kept = hd lines # [l \<leftarrow> tl lines. \<not> accept_encoding_line l] in
        join_with CRLF (take (length kept - 2) kept @ [''Accept-Encoding: identity''] @ drop (length kept - 2) kept))"

section \<open>The framer\<close>

datatype request_verdict = Splice | Plain | Deny nat string

text \<open>The human message of a denial is not modelled.\<close>

type_synonym 'p policy = "'p \<Rightarrow> request_head_info \<Rightarrow> 'p \<times> request_verdict"

record 'p framer_options =
  fo_maxHead :: nat
  fo_metered :: "'p policy option"

definition DEFAULT_MAX_HEAD :: nat where
  "DEFAULT_MAX_HEAD = 64 * 1024"

datatype phase = PHead | PBodyCounted | PPassthrough | PDead

record framer =
  fr_phase :: phase
  fr_headBuf :: bytes
  fr_bodyRemaining :: nat

definition new_framer :: framer where
  "new_framer = \<lparr>fr_phase = PHead, fr_headBuf = [], fr_bodyRemaining = 0\<rparr>"

text \<open>\<open>fw_oversized\<close>: \<^verbatim>\<open>onOversizedHead\<close> was called.\<close>

record framer_output =
  fw_out :: bytes
  fw_canaryToken :: "js_text option"
  fw_injected :: bool
  fw_denied :: "(nat \<times> string) option"
  fw_oversized :: bool

definition plain_output :: "bytes \<Rightarrow> bool \<Rightarrow> framer_output" where
  "plain_output out injected =
     \<lparr>fw_out = out, fw_canaryToken = None, fw_injected = injected, fw_denied = None, fw_oversized = False\<rparr>"

definition HEAD_END :: bytes where
  "HEAD_END = CRLF @ CRLF"

datatype head_outcome =
    HeadSent bytes bool
  | HeadCanary js_text
  | HeadDenied nat string
  | HeadError proxy_error

definition orElse :: "'a option \<Rightarrow> 'a \<Rightarrow> 'a" where
  "orElse x d = (case x of None \<Rightarrow> d | Some y \<Rightarrow> y)"

text \<open>Basic substitution, then verbatim substitution over the whole head.\<close>

definition forward_head :: "replacer \<Rightarrow> bool \<Rightarrow> js_text list \<Rightarrow> bytes \<Rightarrow> head_outcome" where
  "forward_head rep identity tokens head =
     (case transformBasicAuthHead head rep tokens of
        Inl e \<Rightarrow> HeadError e
      | Inr (t, Some hit) \<Rightarrow> HeadCanary hit
      | Inr (t, None) \<Rightarrow>
          (case rp_replaceAllBuffer rep (orElse t head) of
             Inl e \<Rightarrow> HeadError e
           | Inr r \<Rightarrow>
               let sent = orElse r (orElse t head) in
               HeadSent (if identity then forceIdentityEncoding sent else sent) (t \<noteq> None \<or> r \<noteq> None)))"

definition decide_head ::
    "'p policy option \<Rightarrow> replacer \<Rightarrow> js_text list \<Rightarrow> bytes \<Rightarrow> 'p \<Rightarrow> 'p \<times> head_outcome" where
  "decide_head metered rep tokens head p =
     (case metered of
        None \<Rightarrow> (p, forward_head rep False tokens head)
      | Some onRequestHead \<Rightarrow>
          (case transformBasicAuthHead head NOOP_REPLACER tokens of
             Inl e \<Rightarrow> (p, HeadError e)
           | Inr (pre, Some hit) \<Rightarrow> (p, HeadCanary hit)
           | Inr (pre, None) \<Rightarrow>
               (case parseRequestHead head of
                  None \<Rightarrow> (p, HeadDenied 400 ''malformed-request'')
                | Some info \<Rightarrow>
                    (case onRequestHead p info of
                       (p', Deny status reason) \<Rightarrow> (p', HeadDenied status reason)
                     | (p', Plain) \<Rightarrow> (p', forward_head NOOP_REPLACER False tokens head)
                     | (p', Splice) \<Rightarrow> (p', forward_head rep True tokens head)))))"

text \<open>One round of the loop of \<^verbatim>\<open>process\<close>: it goes on with the rest of the bytes, or returns.\<close>

datatype 'p round =
    Again framer 'p bytes bool bytes
  | Return framer 'p "proxy_error + framer_output"

definition head_round ::
    "'p framer_options \<Rightarrow> replacer \<Rightarrow> js_text list \<Rightarrow> framer \<Rightarrow> 'p \<Rightarrow> bytes \<Rightarrow> bool \<Rightarrow> bytes \<Rightarrow> 'p round" where
  "head_round opts rep tokens st p out injected buf =
     (case find_sub HEAD_END buf of
        None \<Rightarrow>
          if length buf > fo_maxHead opts then
            (if fo_metered opts \<noteq> None then
               Return (st\<lparr>fr_phase := PDead, fr_headBuf := []\<rparr>) p
                 (Inr ((plain_output out injected)
                   \<lparr>fw_denied := Some (400, ''malformed-request''), fw_oversized := True\<rparr>))
             else (case rp_replaceAllBuffer rep buf of
                 Inl e \<Rightarrow> Return (st\<lparr>fr_headBuf := buf\<rparr>) p (Inl e)
               | Inr r \<Rightarrow>
                   Return (st\<lparr>fr_phase := PPassthrough, fr_headBuf := []\<rparr>) p
                     (Inr ((plain_output (out @ orElse r buf) (injected \<or> r \<noteq> None))\<lparr>fw_oversized := True\<rparr>))))
          else Return (st\<lparr>fr_headBuf := buf\<rparr>) p (Inr (plain_output out injected))
      | Some idx \<Rightarrow>
          let head = take (idx + 4) buf; rest = drop (idx + 4) buf; st = st\<lparr>fr_headBuf := []\<rparr> in
          (case decide_head (fo_metered opts) rep tokens head p of
             (p, HeadDenied status reason) \<Rightarrow>
               Return (st\<lparr>fr_phase := PDead\<rparr>) p
                 (Inr ((plain_output out injected)\<lparr>fw_denied := Some (status, reason)\<rparr>))
           | (p, HeadCanary hit) \<Rightarrow>
               Return st p (Inr ((plain_output out injected)\<lparr>fw_canaryToken := Some hit\<rparr>))
           | (p, HeadError e) \<Rightarrow> Return st p (Inl e)
           | (p, HeadSent sent spliced) \<Rightarrow>
               let framing = parseBodyFraming head; out = out @ sent; injected = injected \<or> spliced in
               if bf_chunked framing then
                 Return (st\<lparr>fr_phase := PPassthrough\<rparr>) p (Inr (plain_output (out @ rest) injected))
               else if bf_contentLength framing > 0 then
                 Again (st\<lparr>fr_phase := PBodyCounted, fr_bodyRemaining := bf_contentLength framing\<rparr>) p out injected rest
               else if rest = [] then Return (st\<lparr>fr_phase := PHead\<rparr>) p (Inr (plain_output out injected))
               else Again (st\<lparr>fr_phase := PHead\<rparr>) p out injected rest))"

definition body_round :: "framer \<Rightarrow> 'p \<Rightarrow> bytes \<Rightarrow> bool \<Rightarrow> bytes \<Rightarrow> 'p round" where
  "body_round st p out injected working =
     (let n = min (length working) (fr_bodyRemaining st);
          out = out @ take n working; st = st\<lparr>fr_bodyRemaining := fr_bodyRemaining st - n\<rparr>;
          working = drop n working
      in if fr_bodyRemaining st > 0 then Return st p (Inr (plain_output out injected))
         else let st = st\<lparr>fr_phase := PHead\<rparr> in
           if working = [] then Return st p (Inr (plain_output out injected))
           else Again st p out injected working)"

definition framer_round ::
    "'p framer_options \<Rightarrow> replacer \<Rightarrow> js_text list \<Rightarrow> framer \<Rightarrow> 'p \<Rightarrow> bytes \<Rightarrow> bool \<Rightarrow> bytes \<Rightarrow> 'p round" where
  "framer_round opts rep tokens st p out injected working =
     (case fr_phase st of
        PDead \<Rightarrow> Return st p (Inr (plain_output out injected))
      | PPassthrough \<Rightarrow> Return st p (Inr (plain_output (out @ working) injected))
      | PBodyCounted \<Rightarrow> body_round st p out injected working
      | PHead \<Rightarrow> head_round opts rep tokens st p out injected (fr_headBuf st @ working))"

text \<open>Every further round has fewer bytes to read, or as many after leaving a body.\<close>

definition round_measure :: "framer \<Rightarrow> bytes \<Rightarrow> nat" where
  "round_measure st working =
     2 * (length (fr_headBuf st) + length working) + (if fr_phase st = PBodyCounted then 1 else 0)"

lemma head_round_Again:
  assumes "head_round opts rep tokens st p out injected buf = Again st' p' out' injected' working'"
  shows "fr_headBuf st' = [] \<and> length working' + 4 \<le> length buf \<and> fr_phase st' \<in> {PHead, PBodyCounted}"
proof -
  obtain idx where idx: "find_sub HEAD_END buf = Some idx"
    using assms by (auto simp: head_round_def Let_def split: option.splits if_splits sum.splits)
  have "idx + 4 \<le> length buf" using find_sub_Some[OF idx] by (simp add: HEAD_END_def CRLF_def)
  then show ?thesis using assms idx
    by (auto simp: head_round_def Let_def split: option.splits if_splits sum.splits prod.splits head_outcome.splits)
qed

lemma framer_round_Again:
  assumes "framer_round opts rep tokens st p out injected working = Again st' p' out' injected' working'"
  shows "round_measure st' working' < round_measure st working"
proof (cases "fr_phase st")
  case PHead
  then show ?thesis using assms head_round_Again[of opts rep tokens st p out injected "fr_headBuf st @ working"]
    by (fastforce simp: framer_round_def round_measure_def)
next
  case PBodyCounted
  then show ?thesis using assms
    by (auto simp: framer_round_def body_round_def round_measure_def Let_def split: if_splits)
qed (use assms in \<open>auto simp: framer_round_def\<close>)

function framer_loop ::
    "'p framer_options \<Rightarrow> replacer \<Rightarrow> js_text list \<Rightarrow> framer \<Rightarrow> 'p \<Rightarrow> bytes \<Rightarrow> bool \<Rightarrow> bytes \<Rightarrow>
     framer \<times> 'p \<times> (proxy_error + framer_output)" where
  "framer_loop opts rep tokens st p out injected working =
     (case framer_round opts rep tokens st p out injected working of
        Return st p r \<Rightarrow> (st, p, r)
      | Again st p out injected working \<Rightarrow> framer_loop opts rep tokens st p out injected working)"
  by pat_completeness auto
termination
  by (relation "measure (\<lambda>(opts, rep, tokens, st, p, out, injected, working). round_measure st working)")
    (auto dest: framer_round_Again)

declare framer_loop.simps [simp del]

text \<open>\<^verbatim>\<open>process\<close>: one chunk of the stream.\<close>

definition framer_process ::
    "'p framer_options \<Rightarrow> replacer \<Rightarrow> js_text list \<Rightarrow> bytes \<Rightarrow> framer \<times> 'p \<Rightarrow>
     framer \<times> 'p \<times> (proxy_error + framer_output)" where
  "framer_process opts rep tokens chunk s = framer_loop opts rep tokens (fst s) (snd s) [] False chunk"

section \<open>Chunks do not matter\<close>

definition framer_inv :: "framer \<Rightarrow> bool" where
  "framer_inv st \<longleftrightarrow> (fr_phase st \<noteq> PHead \<longrightarrow> fr_headBuf st = [])"

definition normal_output :: "framer_output \<Rightarrow> bool" where
  "normal_output r \<longleftrightarrow> fw_canaryToken r = None \<and> fw_denied r = None \<and> \<not> fw_oversized r"

lemma plain_output_sel [simp]:
  "fw_out (plain_output out i) = out" "fw_injected (plain_output out i) = i"
  "fw_canaryToken (plain_output out i) = None" "fw_denied (plain_output out i) = None"
  "\<not> fw_oversized (plain_output out i)"
  by (simp_all add: plain_output_def)

lemma normal_plain [simp]: "normal_output (plain_output out i)"
  by (simp add: normal_output_def)

lemma normal_output_eq: "normal_output r \<Longrightarrow> r = plain_output (fw_out r) (fw_injected r)"
  by (cases r) (simp add: normal_output_def plain_output_def)

lemma HEAD_END_simps [simp]: "HEAD_END \<noteq> []" "length HEAD_END = 4"
  by (simp_all add: HEAD_END_def CRLF_def)

lemma head_round_Nil: "head_round opts rep tokens st p out i [] = Return (st\<lparr>fr_headBuf := []\<rparr>) p (Inr (plain_output out i))"
  by (simp add: head_round_def)

lemma head_round_headBuf: "head_round opts rep tokens (st\<lparr>fr_headBuf := b\<rparr>) p out i buf = head_round opts rep tokens st p out i buf"
  by (auto simp: head_round_def Let_def split: option.split sum.split prod.split head_outcome.split)

lemma loop_Nil:
  "fr_phase st = PHead \<Longrightarrow> fr_headBuf st = [] \<Longrightarrow>
    framer_loop opts rep tokens st p out i [] = (st, p, Inr (plain_output out i))"
  by (subst framer_loop.simps) (simp add: framer_round_def head_round_Nil)

lemma loop_passthrough:
  "fr_phase st = PPassthrough \<Longrightarrow>
    framer_loop opts rep tokens st p out i w = (st, p, Inr (plain_output (out @ w) i))"
  by (subst framer_loop.simps) (simp add: framer_round_def)

lemma loop_dead:
  "fr_phase st = PDead \<Longrightarrow> framer_loop opts rep tokens st p out i w = (st, p, Inr (plain_output out i))"
  by (subst framer_loop.simps) (simp add: framer_round_def)

text \<open>A round on more bytes does the same, or stops where the rest is read.\<close>

lemma head_round_Again_more:
  assumes "head_round opts rep tokens st p out i buf = Again st' p' out' i' w'"
  shows "head_round opts rep tokens st p out i (buf @ c) = Again st' p' out' i' (w' @ c)"
proof -
  obtain idx where idx: "find_sub HEAD_END buf = Some idx"
    using assms by (auto simp: head_round_def Let_def split: option.splits if_splits sum.splits)
  have len: "idx + 4 \<le> length buf" using find_sub_Some[OF idx] by (simp add: HEAD_END_def CRLF_def)
  show ?thesis
    using assms idx find_sub_extend[OF idx, of c] len
    by (auto simp: head_round_def Let_def split: prod.splits head_outcome.splits if_splits)
qed

lemma head_round_Return_more:
  assumes "head_round opts rep tokens st p out i buf = Return st' p' (Inr r)" "normal_output r" "fr_phase st = PHead"
  shows "framer_loop opts rep tokens (st\<lparr>fr_headBuf := []\<rparr>) p out i (buf @ c) =
    framer_loop opts rep tokens st' p' (fw_out r) (fw_injected r) c"
proof -
  have lhs: "framer_loop opts rep tokens (st\<lparr>fr_headBuf := []\<rparr>) p out i (buf @ c) =
      (case head_round opts rep tokens st p out i (buf @ c) of
        Return st p r \<Rightarrow> (st, p, r)
      | Again st p out injected working \<Rightarrow> framer_loop opts rep tokens st p out injected working)"
    using assms(3) by (subst framer_loop.simps) (simp add: framer_round_def head_round_headBuf)
  show ?thesis
  proof (cases "find_sub HEAD_END buf")
    case None
    then have st': "st' = st\<lparr>fr_headBuf := buf\<rparr>" "p' = p" "r = plain_output out i"
      using assms by (auto simp: head_round_def normal_output_def split: if_splits sum.splits)
    have "framer_loop opts rep tokens st' p' (fw_out r) (fw_injected r) c =
      (case head_round opts rep tokens st p out i (buf @ c) of
        Return st p r \<Rightarrow> (st, p, r)
      | Again st p out injected working \<Rightarrow> framer_loop opts rep tokens st p out injected working)"
      using assms(3) unfolding st' by (subst framer_loop.simps) (simp add: framer_round_def head_round_headBuf)
    then show ?thesis using lhs by simp
  next
    case (Some idx)
    have len: "idx + 4 \<le> length buf" using find_sub_Some[OF Some] by (simp add: HEAD_END_def CRLF_def)
    let ?head = "take (idx + 4) buf"
    obtain sent spliced where sent: "decide_head (fo_metered opts) rep tokens ?head p = (p', HeadSent sent spliced)"
      using assms(1,2) Some
      by (auto simp: head_round_def Let_def normal_output_def split: prod.splits head_outcome.splits if_splits)
    let ?f = "parseBodyFraming ?head"
    show ?thesis
    proof (cases "bf_chunked ?f")
      case True
      then have "st' = st\<lparr>fr_headBuf := [], fr_phase := PPassthrough\<rparr>"
        "r = plain_output (out @ sent @ drop (idx + 4) buf) (i \<or> spliced)"
        using assms(1) Some sent by (auto simp: head_round_def Let_def)
      moreover have "head_round opts rep tokens st p out i (buf @ c) =
          Return (st\<lparr>fr_headBuf := [], fr_phase := PPassthrough\<rparr>) p'
            (Inr (plain_output (out @ sent @ drop (idx + 4) buf @ c) (i \<or> spliced)))"
        using find_sub_extend[OF Some, of c] sent len True by (simp add: head_round_def Let_def)
      ultimately show ?thesis unfolding lhs
        by (simp add: loop_passthrough)
    next
      case False
      then have none: "bf_contentLength ?f = 0" "drop (idx + 4) buf = []"
        and st': "st' = st\<lparr>fr_headBuf := [], fr_phase := PHead\<rparr>" "r = plain_output (out @ sent) (i \<or> spliced)"
        using assms Some sent by (auto simp: head_round_def Let_def split: if_splits)
      have "head_round opts rep tokens st p out i (buf @ c) =
          (if c = [] then Return st' p' (Inr r) else Again st' p' (out @ sent) (i \<or> spliced) c)"
        using find_sub_extend[OF Some, of c] sent len False none st' assms(3)
        by (simp add: head_round_def Let_def)
      then show ?thesis unfolding lhs using st' assms(3) by (simp add: loop_Nil)
    qed
  qed
qed

lemma loop_more:
  assumes "framer_loop opts rep tokens st p out i w = (st', p', Inr r)" "normal_output r" "framer_inv st"
  shows "framer_loop opts rep tokens st p out i (w @ c) =
    framer_loop opts rep tokens st' p' (fw_out r) (fw_injected r) c"
  using assms
proof (induction opts rep tokens st p out i w rule: framer_loop.induct)
  case (1 opts rep tokens st p out i w)
  show ?case
  proof (cases "fr_phase st")
    case PDead
    then show ?thesis using 1 by (auto simp: loop_dead)
  next
    case PPassthrough
    then show ?thesis using 1 by (auto simp: loop_passthrough)
  next
    case PHead
    let ?r = "head_round opts rep tokens st p out i (fr_headBuf st @ w)"
    have round: "framer_round opts rep tokens st p out i w = ?r" using PHead by (simp add: framer_round_def)
    have lhs: "framer_loop opts rep tokens st p out i (w @ c) =
        framer_loop opts rep tokens (st\<lparr>fr_headBuf := []\<rparr>) p out i ((fr_headBuf st @ w) @ c)"
      using PHead by (subst (1 2) framer_loop.simps) (simp add: framer_round_def head_round_headBuf)
    show ?thesis
    proof (cases ?r)
      case (Return a b res)
      then have "res = Inr r" "a = st'" "b = p'" using 1(2) round by (simp_all add: framer_loop.simps[of _ _ _ st])
      then show ?thesis using head_round_Return_more[of opts rep tokens st p out i "fr_headBuf st @ w" st' p' r c]
          Return 1(3) PHead lhs by simp
    next
      case (Again a b out' i' w')
      have more: "head_round opts rep tokens st p out i ((fr_headBuf st @ w) @ c) = Again a b out' i' (w' @ c)"
        using Again by (rule head_round_Again_more)
      have inv: "framer_inv a" using head_round_Again[OF Again] by (simp add: framer_inv_def)
      have "framer_loop opts rep tokens a b out' i' w' = (st', p', Inr r)"
        using 1(2) round Again by (simp add: framer_loop.simps[of _ _ _ st])
      from 1(1)[OF round[unfolded Again] this 1(3) inv]
      show ?thesis using more PHead by (simp add: framer_loop.simps[of _ _ _ st] framer_round_def)
    qed
  next
    case PBodyCounted
    then have hb: "fr_headBuf st = []" using 1(4) by (simp add: framer_inv_def)
    let ?rem = "fr_bodyRemaining st"
    have round: "framer_round opts rep tokens st p out i v = body_round st p out i v" for v
      using PBodyCounted by (simp add: framer_round_def)
    consider "length w < ?rem" | "length w = ?rem" | "?rem < length w" by linarith
    then show ?thesis
    proof cases
      case 1
      let ?st = "st\<lparr>fr_bodyRemaining := ?rem - length w\<rparr>"
      have st': "st' = ?st" "p' = p" "r = plain_output (out @ w) i"
        using "1.prems"(1) 1 round[of w] by (auto simp: framer_loop.simps[of _ _ _ st] body_round_def Let_def)
      have "body_round st p out i (w @ c) = body_round ?st p (out @ w) i c"
        using 1 by (auto simp: body_round_def Let_def min_def)
      then show ?thesis using round[of "w @ c"] PBodyCounted unfolding st'
        by (simp add: framer_loop.simps[of _ _ _ st] framer_loop.simps[of _ _ _ ?st] framer_round_def)
    next
      case 2
      let ?st = "st\<lparr>fr_bodyRemaining := 0, fr_phase := PHead\<rparr>"
      have st': "st' = ?st" "p' = p" "r = plain_output (out @ w) i"
        using "1.prems"(1) 2 round[of w] by (auto simp: framer_loop.simps[of _ _ _ st] body_round_def Let_def)
      have "body_round st p out i (w @ c) =
          (if c = [] then Return ?st p (Inr (plain_output (out @ w) i)) else Again ?st p (out @ w) i c)"
        using 2 by (auto simp: body_round_def Let_def min_def)
      then show ?thesis using round[of "w @ c"] hb unfolding st'
        by (auto simp: framer_loop.simps[of _ _ _ st] loop_Nil)
    next
      case 3
      let ?st = "st\<lparr>fr_bodyRemaining := 0, fr_phase := PHead\<rparr>"
      have now: "body_round st p out i w = Again ?st p (out @ take ?rem w) i (drop ?rem w)"
        and more: "body_round st p out i (w @ c) = Again ?st p (out @ take ?rem w) i (drop ?rem w @ c)"
        using 3 by (auto simp: body_round_def Let_def min_def)
      have "framer_loop opts rep tokens ?st p (out @ take ?rem w) i (drop ?rem w) = (st', p', Inr r)"
        using "1.prems"(1) round[of w] now by (simp add: framer_loop.simps[of _ _ _ st])
      moreover have "framer_inv ?st" using hb by (simp add: framer_inv_def)
      ultimately show ?thesis
        using "1.IH"[OF round[of w, unfolded now] _ "1.prems"(2)] round[of "w @ c"] more
        by (simp add: framer_loop.simps[of _ _ _ st])
    qed
  qed
qed

text \<open>What was sent before is a prefix of the output and decides nothing.\<close>

definition prepend_output :: "bytes \<Rightarrow> bool \<Rightarrow> framer_output \<Rightarrow> framer_output" where
  "prepend_output out i r = r\<lparr>fw_out := out @ fw_out r, fw_injected := i \<or> fw_injected r\<rparr>"

definition prepend_result ::
    "bytes \<Rightarrow> bool \<Rightarrow> framer \<times> 'p \<times> (proxy_error + framer_output) \<Rightarrow> framer \<times> 'p \<times> (proxy_error + framer_output)" where
  "prepend_result out i = map_prod id (map_prod id (map_sum id (prepend_output out i)))"

fun prepend_round :: "bytes \<Rightarrow> bool \<Rightarrow> 'p round \<Rightarrow> 'p round" where
  "prepend_round out i (Return st p r) = Return st p (map_sum id (prepend_output out i) r)"
| "prepend_round out i (Again st p out' i' w) = Again st p (out @ out') (i \<or> i') w"

lemma prepend_plain [simp]: "prepend_output out i (plain_output out' i') = plain_output (out @ out') (i \<or> i')"
  by (simp add: prepend_output_def plain_output_def)

lemma prepend_updates [simp]:
  "prepend_output out i (r\<lparr>fw_canaryToken := c\<rparr>) = (prepend_output out i r)\<lparr>fw_canaryToken := c\<rparr>"
  "prepend_output out i (r\<lparr>fw_denied := d\<rparr>) = (prepend_output out i r)\<lparr>fw_denied := d\<rparr>"
  "prepend_output out i (r\<lparr>fw_oversized := b\<rparr>) = (prepend_output out i r)\<lparr>fw_oversized := b\<rparr>"
  by (simp_all add: prepend_output_def)

lemma head_round_acc:
  "head_round opts rep tokens st p out i buf = prepend_round out i (head_round opts rep tokens st p [] False buf)"
  by (auto simp: head_round_def Let_def split: option.split sum.split prod.split head_outcome.split)

lemma framer_round_acc:
  "framer_round opts rep tokens st p out i w = prepend_round out i (framer_round opts rep tokens st p [] False w)"
  by (cases "fr_phase st")
    (auto simp: framer_round_def body_round_def Let_def head_round_acc[of opts rep tokens st p out i])

lemma prepend_prepend:
  "prepend_result out i (prepend_result out' i' x) = prepend_result (out @ out') (i \<or> i') x"
  by (cases x) (auto simp: prepend_result_def prepend_output_def sum.map_comp o_def map_sum.compositionality
      intro!: sum.map_cong)

lemma loop_acc:
  "framer_loop opts rep tokens st p out i w = prepend_result out i (framer_loop opts rep tokens st p [] False w)"
proof (induction "round_measure st w" arbitrary: st p out i w rule: less_induct)
  case less
  show ?case
  proof (cases "framer_round opts rep tokens st p [] False w")
    case (Return a b r)
    then have "framer_round opts rep tokens st p out i w = Return a b (map_sum id (prepend_output out i) r)"
      using framer_round_acc[of opts rep tokens st p out i w] by simp
    then show ?thesis using Return
      by (simp add: framer_loop.simps[of _ _ _ st] prepend_result_def)
  next
    case (Again a b out' i' w')
    then have round: "framer_round opts rep tokens st p out i w = Again a b (out @ out') (i \<or> i') w'"
      using framer_round_acc[of opts rep tokens st p out i w] by simp
    note ih = less[OF framer_round_Again[OF Again]]
    have "framer_loop opts rep tokens st p out i w =
        prepend_result (out @ out') (i \<or> i') (framer_loop opts rep tokens a b [] False w')"
      using ih[of b "out @ out'" "i \<or> i'"] round by (simp add: framer_loop.simps[of _ _ _ st])
    moreover have "framer_loop opts rep tokens st p [] False w =
        prepend_result out' i' (framer_loop opts rep tokens a b [] False w')"
      using ih[of b out' i'] Again by (simp add: framer_loop.simps[of _ _ _ st])
    ultimately show ?thesis by (simp add: prepend_prepend)
  qed
qed

text \<open>C3. How the stream is cut into chunks does not matter: if a first chunk is processed without an
  error, a canary, a refusal or an oversized head, then processing it together with a second chunk
  gives the final state of processing the two one after the other, and the concatenated output.\<close>

theorem framer_chunking_irrelevant:
  assumes "framer_process opts rep tokens c1 (st, p) = (st1, p1, Inr r1)"
    and "normal_output r1" "framer_inv st"
  shows "framer_process opts rep tokens (c1 @ c2) (st, p) =
    prepend_result (fw_out r1) (fw_injected r1) (framer_process opts rep tokens c2 (st1, p1))"
  using loop_more[OF assms(1)[unfolded framer_process_def] assms(2), of c2] assms(3)
    loop_acc[of opts rep tokens st1 p1 "fw_out r1" "fw_injected r1" c2]
  by (simp add: framer_process_def)

section \<open>Requests\<close>

text \<open>
  The specification over whole requests: each head is decided and forwarded, each body is forwarded
  as it is, in order. \<open>None\<close>: some head is not sent on.
\<close>

fun serve :: "'p policy option \<Rightarrow> replacer \<Rightarrow> js_text list \<Rightarrow> 'p \<Rightarrow> (bytes \<times> bytes) list \<Rightarrow> ('p \<times> bytes \<times> bool) option" where
  "serve metered rep tokens p [] = Some (p, [], False)"
| "serve metered rep tokens p ((head, body) # rs) =
     (case decide_head metered rep tokens head p of
        (p', HeadSent sent spliced) \<Rightarrow>
          map_option (\<lambda>(q, out, i). (q, sent @ body @ out, spliced \<or> i)) (serve metered rep tokens p' rs)
      | _ \<Rightarrow> None)"

definition complete_head :: "bytes \<Rightarrow> bool" where
  "complete_head head \<longleftrightarrow> map_option (\<lambda>i. i + 4) (find_sub HEAD_END head) = Some (length head)"

definition counted_request :: "bytes \<times> bytes \<Rightarrow> bool" where
  "counted_request r \<longleftrightarrow> complete_head (fst r) \<and> \<not> bf_chunked (parseBodyFraming (fst r)) \<and>
     bf_contentLength (parseBodyFraming (fst r)) = length (snd r)"

definition stream :: "(bytes \<times> bytes) list \<Rightarrow> bytes" where
  "stream rs = concat (List.map (\<lambda>(head, body). head @ body) rs)"

lemma complete_head_find:
  assumes "complete_head head"
  shows "\<exists>idx. find_sub HEAD_END (head @ rest) = Some idx \<and> idx + 4 = length head"
proof -
  obtain idx where "find_sub HEAD_END head = Some idx" "idx + 4 = length head"
    using assms by (auto simp: complete_head_def)
  then show ?thesis using find_sub_extend by blast
qed

lemma loop_new: "framer_loop opts rep tokens new_framer p out i [] = (new_framer, p, Inr (plain_output out i))"
  by (simp add: loop_Nil new_framer_def)

lemma loop_request:
  assumes "counted_request (head, body)"
    and "decide_head (fo_metered opts) rep tokens head p = (p', HeadSent sent spliced)"
  shows "framer_loop opts rep tokens new_framer p out i (head @ body @ rest) =
    framer_loop opts rep tokens new_framer p' (out @ sent @ body) (i \<or> spliced) rest"
proof -
  obtain idx where idx: "find_sub HEAD_END (head @ body @ rest) = Some idx" "idx + 4 = length head"
    using complete_head_find[of head "body @ rest"] assms(1) by (auto simp: counted_request_def)
  have f: "\<not> bf_chunked (parseBodyFraming head)" "bf_contentLength (parseBodyFraming head) = length body"
    using assms(1) by (simp_all add: counted_request_def)
  have round: "framer_round opts rep tokens new_framer p out i (head @ body @ rest) =
      (if 0 < length body then
         Again (new_framer\<lparr>fr_phase := PBodyCounted, fr_bodyRemaining := length body\<rparr>) p' (out @ sent) (i \<or> spliced) (body @ rest)
       else if rest = [] then Return new_framer p' (Inr (plain_output (out @ sent) (i \<or> spliced)))
       else Again new_framer p' (out @ sent) (i \<or> spliced) rest)"
    using idx assms(2) f by (auto simp: framer_round_def head_round_def new_framer_def Let_def)
  let ?st = "new_framer\<lparr>fr_phase := PBodyCounted, fr_bodyRemaining := length body\<rparr>"
  have body: "framer_loop opts rep tokens ?st p' (out @ sent) (i \<or> spliced) (body @ rest) =
      framer_loop opts rep tokens new_framer p' (out @ sent @ body) (i \<or> spliced) rest"
  proof -
    have "framer_round opts rep tokens ?st p' (out @ sent) (i \<or> spliced) (body @ rest) =
        (if rest = [] then Return new_framer p' (Inr (plain_output (out @ sent @ body) (i \<or> spliced)))
         else Again new_framer p' (out @ sent @ body) (i \<or> spliced) rest)"
      by (simp add: framer_round_def body_round_def new_framer_def Let_def)
    then show ?thesis by (subst framer_loop.simps) (auto simp: loop_new)
  qed
  show ?thesis
  proof (cases "0 < length body")
    case True
    then show ?thesis using round body by (simp add: framer_loop.simps[of _ _ _ new_framer p])
  next
    case False
    then show ?thesis using round
      by (subst framer_loop.simps) (auto simp: loop_new)
  qed
qed

lemma loop_requests:
  assumes "list_all counted_request rs" "serve (fo_metered opts) rep tokens p rs = Some (p', out, i)"
  shows "framer_loop opts rep tokens new_framer p out0 i0 (stream rs @ rest) =
    framer_loop opts rep tokens new_framer p' (out0 @ out) (i0 \<or> i) rest"
  using assms
proof (induction rs arbitrary: p out i out0 i0)
  case Nil
  then show ?case by (simp add: stream_def)
next
  case (Cons r rs)
  obtain head body where r: "r = (head, body)" by (cases r)
  obtain q sent spliced where d: "decide_head (fo_metered opts) rep tokens head p = (q, HeadSent sent spliced)"
    using Cons.prems(2) r by (auto split: prod.splits head_outcome.splits)
  obtain out' i' where s: "serve (fo_metered opts) rep tokens q rs = Some (p', out', i')"
    "out = sent @ body @ out'" "i = (spliced \<or> i')"
    using Cons.prems(2) r d by auto
  have "framer_loop opts rep tokens new_framer p out0 i0 (head @ body @ stream rs @ rest) =
      framer_loop opts rep tokens new_framer q (out0 @ sent @ body) (i0 \<or> spliced) (stream rs @ rest)"
    using Cons.prems(1) r d by (intro loop_request) auto
  then show ?case
    using Cons.IH[OF _ s(1), of "out0 @ sent @ body" "i0 \<or> spliced"] Cons.prems(1) r s by (simp add: stream_def)
qed

text \<open>C4. The framer refines request-wise forwarding: on the bytes of any sequence of complete requests
  with counted bodies it decides each head once, in order, forwards what was decided and every body
  byte for byte, and is ready for the next request; and after a request with a chunked body it
  forwards the rest of the connection as it is, whatever it contains.\<close>

theorem framer_serves_requests:
  assumes "list_all counted_request rs" "serve (fo_metered opts) rep tokens p rs = Some (p', out, i)"
  shows "framer_process opts rep tokens (stream rs) (new_framer, p) = (new_framer, p', Inr (plain_output out i)) \<and>
    (\<forall>head rest q sent spliced. complete_head head \<longrightarrow> bf_chunked (parseBodyFraming head) \<longrightarrow>
       decide_head (fo_metered opts) rep tokens head p' = (q, HeadSent sent spliced) \<longrightarrow>
       framer_process opts rep tokens (stream rs @ head @ rest) (new_framer, p) =
         (new_framer\<lparr>fr_phase := PPassthrough\<rparr>, q, Inr (plain_output (out @ sent @ rest) (i \<or> spliced))))"
proof (intro conjI allI impI)
  show "framer_process opts rep tokens (stream rs) (new_framer, p) = (new_framer, p', Inr (plain_output out i))"
    using loop_requests[OF assms, of "[]" False "[]"]
    by (simp add: framer_process_def loop_new)
next
  fix head rest q sent spliced
  assume head: "complete_head head" "bf_chunked (parseBodyFraming head)"
    "decide_head (fo_metered opts) rep tokens head p' = (q, HeadSent sent spliced)"
  obtain idx where "find_sub HEAD_END (head @ rest) = Some idx" "idx + 4 = length head"
    using complete_head_find[OF head(1)] by blast
  then have "framer_round opts rep tokens new_framer p' out i (head @ rest) =
      Return (new_framer\<lparr>fr_phase := PPassthrough\<rparr>) q (Inr (plain_output (out @ sent @ rest) (i \<or> spliced)))"
    using head by (simp add: framer_round_def head_round_def new_framer_def Let_def)
  then show "framer_process opts rep tokens (stream rs @ head @ rest) (new_framer, p) =
      (new_framer\<lparr>fr_phase := PPassthrough\<rparr>, q, Inr (plain_output (out @ sent @ rest) (i \<or> spliced)))"
    using loop_requests[OF assms, of "[]" False "head @ rest"]
    by (simp add: framer_process_def framer_loop.simps[of _ _ _ _ p'])
qed

section \<open>What a tunnel cannot do\<close>

lemma noop_simps [simp]: "rp_replaceAll NOOP_REPLACER t = Inr t" "rp_replaceAllBuffer NOOP_REPLACER b = Inr None"
  by (simp_all add: NOOP_REPLACER_def)

lemma transform_lines_noop:
  "transform_lines NOOP_REPLACER tokens ls = Inr (Inr (ls, False)) \<or> (\<exists>hit. transform_lines NOOP_REPLACER tokens ls = Inr (Inl hit))"
proof (induction ls)
  case (Cons l ls)
  show ?case
  proof (cases "basic_auth_line l")
    case None
    then show ?thesis using Cons by auto
  next
    case (Some m)
    obtain a b c where m: "m = (a, b, c)" by (cases m)
    then show ?thesis using Cons Some by (cases "findCanaryHit (utf8_decode (b64_decode c)) tokens") auto
  qed
qed simp

lemma forward_head_noop:
  "forward_head NOOP_REPLACER False tokens head = HeadSent head False \<or> (\<exists>hit. forward_head NOOP_REPLACER False tokens head = HeadCanary hit)"
  using transform_lines_noop[of tokens "crlf_lines head"]
  by (auto simp: forward_head_def transformBasicAuthHead_def orElse_def)

lemma decide_head_unspliced:
  assumes "\<And>q info. snd (f q info) \<noteq> Splice"
  shows "case decide_head (Some f) rep tokens head p of
    (q, HeadSent sent spliced) \<Rightarrow> sent = head \<and> \<not> spliced
  | (q, HeadError e) \<Rightarrow> False
  | _ \<Rightarrow> True"
proof -
  consider (hit) h where "transform_lines NOOP_REPLACER tokens (crlf_lines head) = Inr (Inl h)"
    | (none) "transform_lines NOOP_REPLACER tokens (crlf_lines head) = Inr (Inr (crlf_lines head, False))"
    using transform_lines_noop by blast
  then show ?thesis
  proof cases
    case hit
    then show ?thesis by (simp add: decide_head_def transformBasicAuthHead_def)
  next
    case none
    then have pre: "transformBasicAuthHead head NOOP_REPLACER tokens = Inr (None, None)"
      by (simp add: transformBasicAuthHead_def)
    show ?thesis
    proof (cases "parseRequestHead head")
      case None
      then show ?thesis using pre by (simp add: decide_head_def)
    next
      case (Some info)
      obtain q v where v: "f p info = (q, v)" by (cases "f p info")
      then have "v \<noteq> Splice" using assms[of p info] by simp
      then show ?thesis using pre Some v forward_head_noop[of tokens head]
        by (cases v) (auto simp: decide_head_def)
    qed
  qed
qed

definition wire :: "bytes \<Rightarrow> bytes \<Rightarrow> framer \<Rightarrow> proxy_error + framer_output \<Rightarrow> bool" where
  "wire out w st r \<longleftrightarrow>
     (\<exists>o'. r = Inr o' \<and> \<not> fw_injected o' \<and> prefix (fw_out o') (out @ w) \<and>
       (normal_output o' \<and> fr_phase st \<noteq> PDead \<longrightarrow> out @ w = fw_out o' @ fr_headBuf st))"

lemma head_round_wire:
  assumes "\<And>q info. snd (f q info) \<noteq> Splice" "fo_metered opts = Some f" "fr_phase st = PHead"
  shows "case head_round opts rep tokens st p out False buf of
    Return st' q r \<Rightarrow> wire out buf st' r
  | Again st' q out' i w' \<Rightarrow> \<not> i \<and> out' @ w' = out @ buf \<and> fr_headBuf st' = [] \<and> fr_phase st' \<noteq> PDead"
proof (cases "find_sub HEAD_END buf")
  case None
  then show ?thesis using assms(2,3) by (auto simp: head_round_def wire_def normal_output_def)
next
  case (Some idx)
  let ?head = "take (idx + 4) buf"
  have "case decide_head (Some f) rep tokens ?head p of
      (q, HeadSent sent spliced) \<Rightarrow> sent = ?head \<and> \<not> spliced | (q, HeadError e) \<Rightarrow> False | _ \<Rightarrow> True"
    by (rule decide_head_unspliced) (rule assms(1))
  then show ?thesis using Some assms(2,3)
    by (auto simp: head_round_def Let_def wire_def normal_output_def split: prod.split head_outcome.split)
qed

lemma loop_wire:
  assumes "\<And>q info. snd (f q info) \<noteq> Splice" "fo_metered opts = Some f" "framer_inv st"
    and "framer_loop opts rep tokens st p out False w = (st', q, r)"
  shows "wire out (fr_headBuf st @ (if fr_phase st = PDead then [] else w)) st' r"
  using assms(3,4)
proof (induction "round_measure st w" arbitrary: st p out w rule: less_induct)
  case less
  have hb: "fr_phase st \<noteq> PHead \<Longrightarrow> fr_headBuf st = []" using less.prems(1) by (simp add: framer_inv_def)
  show ?case
  proof (cases "framer_round opts rep tokens st p out False w")
    case (Return a b res)
    then have "a = st'" "res = r" using less.prems(2) by (simp_all add: framer_loop.simps[of _ _ _ st])
    then show ?thesis
      using Return hb head_round_wire[OF assms(1,2), where st = st and rep = rep and tokens = tokens and p = p and out = out
        and buf = "fr_headBuf st @ w"]
      by (cases "fr_phase st") (auto simp: framer_round_def body_round_def Let_def wire_def split: if_splits)
  next
    case (Again a b out' i' w')
    have step: "\<not> i' \<and> out' @ w' = out @ fr_headBuf st @ w \<and> fr_headBuf a = [] \<and> fr_phase a \<noteq> PDead \<and> fr_phase st \<noteq> PDead"
      using Again hb head_round_wire[OF assms(1,2), where st = st and rep = rep and tokens = tokens and p = p and out = out
        and buf = "fr_headBuf st @ w"]
      by (cases "fr_phase st") (auto simp: framer_round_def body_round_def Let_def split: if_splits)
    have inv: "framer_inv a" using step by (simp add: framer_inv_def)
    have "framer_loop opts rep tokens a b out' False w' = (st', q, r)"
      using less.prems(2) Again step by (simp add: framer_loop.simps[of _ _ _ st])
    from less.hyps[OF framer_round_Again[OF Again] inv this] show ?thesis
      using step by (simp add: wire_def)
  qed
qed

text \<open>C5. Only a splice verdict injects: in a metered tunnel whose policy never answers \<^verbatim>\<open>splice\<close>
  no placeholder is substituted, whatever the bytes, the chunks and the registered credentials;
  processing never throws, what goes out is a prefix of what came in, and nothing is lost unless the
  output reports a canary, a refusal or an oversized head, or the tunnel is closed.\<close>

theorem unspliced_tunnel_is_a_wire:
  assumes "\<forall>q info. snd (f q info) \<noteq> Splice" "fo_metered opts = Some f" "framer_inv st"
    and "framer_process opts rep tokens chunk (st, p) = (st', q, r)"
  shows "\<exists>out. r = Inr out \<and> \<not> fw_injected out \<and> prefix (fw_out out) (fr_headBuf st @ chunk) \<and>
    (normal_output out \<and> fr_phase st \<noteq> PDead \<and> fr_phase st' \<noteq> PDead \<longrightarrow>
      fr_headBuf st @ chunk = fw_out out @ fr_headBuf st')"
proof -
  have "wire [] (fr_headBuf st @ (if fr_phase st = PDead then [] else chunk)) st' r"
    using assms by (intro loop_wire[of f opts st rep tokens p "[]" chunk]) (auto simp: framer_process_def)
  then show ?thesis
    by (auto simp: wire_def split: if_splits)
qed

section \<open>Line structure\<close>

definition is_crlf :: "char \<Rightarrow> bool" where
  "is_crlf c \<longleftrightarrow> (of_char c :: nat) \<in> {13, 10}"

lemma filter_join_with: "filter P (join_with p xs) = join_with (filter P p) (List.map (filter P) xs)"
  by (induction p xs rule: join_with.induct) auto

lemma not_crlf:
  "is_blank c \<Longrightarrow> \<not> is_crlf c" "is_b64 c \<Longrightarrow> \<not> is_crlf c"
  unfolding is_blank_def is_crlf_def is_b64_def is_alnum_def is_digit_def is_lower_def is_upper_def
  by (elim disjE; simp)+

lemma lower_not_crlf: "\<forall>c \<in> set (lower s). \<not> is_crlf c \<Longrightarrow> filter is_crlf s = []"
proof -
  assume "\<forall>c \<in> set (lower s). \<not> is_crlf c"
  moreover have "lower_char c = c" if "is_crlf c" for c
    using that by (auto simp: is_crlf_def lower_char_def is_upper_def)
  ultimately show ?thesis by (fastforce simp: lower_def filter_empty_conv)
qed

lemma dropWhile_crlf: "(\<And>c. Q c \<Longrightarrow> \<not> is_crlf c) \<Longrightarrow> filter is_crlf (dropWhile Q s) = filter is_crlf s"
  by (induction s) auto

lemma basic_auth_line_crlf:
  assumes "basic_auth_line line = Some (name, scheme, b64)"
  shows "filter is_crlf line = []" "filter is_crlf (name @ '': '' @ scheme @ '' '' @ b64_encode bs) = []"
proof -
  obtain i where i: "index_of CHR '':'' line = Some i"
    using assms by (auto simp: basic_auth_line_def split: option.splits)
  define rest after v where "rest = dropWhile is_blank (drop (Suc i) line)"
    and "after = drop 5 rest" and "v = dropWhile is_blank after"
  have m: "name = take i line" "scheme = take 5 rest" "lower name \<in> {''authorization'', ''proxy-authorization''}"
    "lower scheme = ''basic''" "list_all is_blank (dropWhile is_b64 v)"
    using assms i by (auto simp: basic_auth_line_def Let_def rest_def after_def v_def split: if_splits)
  have n: "filter is_crlf name = []" using m(3) by (intro lower_not_crlf) (auto simp: is_crlf_def)
  have s: "filter is_crlf scheme = []" using m(4) by (intro lower_not_crlf) (auto simp: is_crlf_def)
  have "filter is_crlf (dropWhile is_b64 v) = []"
    using m(5) not_crlf by (auto simp: filter_empty_conv list_all_iff)
  then have "filter is_crlf after = []" unfolding v_def using not_crlf by (simp add: dropWhile_crlf)
  moreover have "filter is_crlf rest = filter is_crlf scheme @ filter is_crlf after"
    unfolding m(2) after_def by (metis append_take_drop_id filter_append)
  ultimately have "filter is_crlf (drop (Suc i) line) = []"
    using s not_crlf unfolding rest_def by (simp add: dropWhile_crlf)
  then show "filter is_crlf line = []"
    using n m(1) by (subst index_of_split[OF i]) (simp add: is_crlf_def)
  show "filter is_crlf (name @ '': '' @ scheme @ '' '' @ b64_encode bs) = []"
    using n s b64_encode_chars not_crlf by (auto simp: filter_empty_conv is_crlf_def)
qed

lemma transform_lines_crlf:
  "transform_lines rep tokens ls = Inr (Inr (ls', m)) \<Longrightarrow> List.map (filter is_crlf) ls' = List.map (filter is_crlf) ls"
proof (induction ls arbitrary: ls' m)
  case (Cons l ls)
  show ?case
  proof (cases "basic_auth_line l")
    case None
    then obtain ls0 where "transform_lines rep tokens ls = Inr (Inr (ls0, m))" "ls' = l # ls0"
      using Cons.prems by (cases "transform_lines rep tokens ls") (auto split: sum.splits simp: map_sum_def)
    then show ?thesis using Cons.IH by simp
  next
    case (Some x)
    obtain name scheme b64 where x: "x = (name, scheme, b64)" by (cases x)
    obtain ls0 m0 l' where go: "transform_lines rep tokens ls = Inr (Inr (ls0, m0))" "ls' = l' # ls0"
      and l': "l' = l \<or> (\<exists>bs. l' = name @ '': '' @ scheme @ '' '' @ b64_encode bs)"
      using Cons.prems Some x
      by (cases "transform_lines rep tokens ls") (auto simp: Let_def map_sum_def split: option.splits sum.splits if_splits)
    have "filter is_crlf l' = filter is_crlf l"
      using l' basic_auth_line_crlf[OF Some[unfolded x]] by auto
    then show ?thesis using go Cons.IH by simp
  qed
qed simp

lemma transformBasicAuthHead_crlf:
  assumes "transformBasicAuthHead head rep tokens = Inr (t, None)"
  shows "filter is_crlf (orElse t head) = filter is_crlf head"
proof (cases t)
  case (Some h)
  then obtain ls where ls: "transform_lines rep tokens (crlf_lines head) = Inr (Inr (ls, True))" "h = join_with CRLF ls"
    using assms by (auto simp: transformBasicAuthHead_def split: sum.splits if_splits)
  have "filter is_crlf h = filter is_crlf (join_with CRLF (crlf_lines head))"
    unfolding ls(2) filter_join_with using transform_lines_crlf[OF ls(1)] by simp
  then show ?thesis using Some by (simp add: orElse_def crlf_lines_def join_split CRLF_def)
qed (simp add: orElse_def)

lemma crlf_control:
  "filter is_crlf bs = List.map char_of (filter (\<lambda>c. c = 13 \<or> c = 10) (filter is_control (List.map of_char bs)))"
  by (induction bs) (auto simp: is_crlf_def is_control_def, (metis char_of_char)+)

text \<open>Secrets cannot inject headers: whatever credentials a session has registered and however they
  are spelled, the head a tunnel sends has the carriage returns and line feeds of the head it was
  given, in order, before the one \<^verbatim>\<open>Accept-Encoding\<close> line a metered tunnel adds.\<close>

theorem heads_keep_their_lines:
  assumes "list_all op_random_ok ops"
    and "forward_head (forHost (credential_run ops new_credential_map) host) identity tokens head = HeadSent sent spliced"
  shows "\<exists>h. filter is_crlf h = filter is_crlf head \<and> sent = (if identity then forceIdentityEncoding h else h)"
proof -
  let ?rep = "forHost (credential_run ops new_credential_map) host"
  obtain t r where t: "transformBasicAuthHead head ?rep tokens = Inr (t, None)"
    and r: "rp_replaceAllBuffer ?rep (orElse t head) = Inr r"
    and sent: "sent = (if identity then forceIdentityEncoding (orElse r (orElse t head)) else orElse r (orElse t head))"
    using assms(2) by (auto simp: forward_head_def Let_def split: sum.splits option.splits)
  have "filter is_crlf (orElse r (orElse t head)) = filter is_crlf (orElse t head)"
  proof (cases r)
    case (Some out)
    then show ?thesis using r forHost_control(2)[OF reachable_inv[OF assms(1)]]
      by (simp add: orElse_def crlf_control)
  qed (simp add: orElse_def)
  then show ?thesis using transformBasicAuthHead_crlf[OF t] sent by auto
qed

text \<open>The cap on a request head bounds only heads that arrive in pieces: a complete head is decided
  whatever its length when it comes in one chunk, while the same head on a metered tunnel is refused
  as oversized when a first piece of it longer than the cap comes alone.\<close>

theorem complete_head_ignores_the_cap:
  assumes "complete_head head" "head = c1 @ c2" "c2 \<noteq> []"
    and "fo_metered opts = Some f" "fo_maxHead opts < length c1"
  shows "framer_process opts rep tokens head (new_framer, p) =
      framer_process (opts\<lparr>fo_maxHead := length head\<rparr>) rep tokens head (new_framer, p) \<and>
    framer_process opts rep tokens c1 (new_framer, p) =
      (new_framer\<lparr>fr_phase := PDead\<rparr>, p,
       Inr ((plain_output [] False)\<lparr>fw_denied := Some (400, ''malformed-request''), fw_oversized := True\<rparr>))"
proof (rule conjI)
  obtain idx where idx: "find_sub HEAD_END head = Some idx" "idx + 4 = length head"
    using assms(1) by (auto simp: complete_head_def)
  have body: "framer_loop (opts\<lparr>fo_maxHead := n\<rparr>) rep tokens st q out i [] = framer_loop opts rep tokens st q out i []"
    if "fr_headBuf st = []" for st q out i n
    using that by (subst (1 2) framer_loop.simps)
      (cases "fr_phase st"; simp add: framer_round_def body_round_def head_round_Nil Let_def)
  have round: "framer_round (opts\<lparr>fo_maxHead := length head\<rparr>) rep tokens new_framer p [] False head =
      framer_round opts rep tokens new_framer p [] False head"
    using idx by (simp add: framer_round_def head_round_def new_framer_def)
  show "framer_process opts rep tokens head (new_framer, p) =
      framer_process (opts\<lparr>fo_maxHead := length head\<rparr>) rep tokens head (new_framer, p)"
  proof (cases "framer_round opts rep tokens new_framer p [] False head")
    case (Again a b out i w)
    then have "fr_headBuf a = [] \<and> w = []"
      using head_round_Again[of opts rep tokens new_framer p "[]" False head a b out i w] idx
      by (auto simp: framer_round_def new_framer_def head_round_def Let_def
          split: prod.splits head_outcome.splits if_splits)
    then show ?thesis using Again round body
      by (simp add: framer_process_def framer_loop.simps[of _ _ _ new_framer p])
  qed (use round in \<open>simp add: framer_process_def framer_loop.simps[of _ _ _ new_framer p]\<close>)
  have "find_sub HEAD_END c1 = None"
  proof (rule ccontr)
    assume "find_sub HEAD_END c1 \<noteq> None"
    then obtain k where k: "find_sub HEAD_END c1 = Some k" by blast
    have "k + 4 \<le> length c1" using find_sub_Some[OF k] by simp
    moreover have "k = idx" using find_sub_extend[OF k, of c2] idx(1) assms(2) by simp
    ultimately show False using idx(2) assms(2,3) by simp
  qed
  then show "framer_process opts rep tokens c1 (new_framer, p) =
      (new_framer\<lparr>fr_phase := PDead\<rparr>, p,
       Inr ((plain_output [] False)\<lparr>fw_denied := Some (400, ''malformed-request''), fw_oversized := True\<rparr>))"
    using assms(4,5) unfolding framer_process_def fst_conv snd_conv
    by (subst framer_loop.simps) (simp add: framer_round_def head_round_def new_framer_def)
qed

definition demo_options :: "unit framer_options" where
  "demo_options = \<lparr>fo_maxHead = 100, fo_metered = None\<rparr>"

definition demo_head :: bytes where
  "demo_head = ''GET / HTTP/1.1'' @ HEAD_END"

definition demo_post :: bytes where
  "demo_post = ''POST /a HTTP/1.1'' @ CRLF @ ''Content-Length: 2'' @ HEAD_END"

lemma framer_chunking_irrelevant_witness:
  "framer_process demo_options NOOP_REPLACER [] ((''GET / HTTP/1.1'' @ CRLF) @ CRLF) (new_framer, ()) =
    prepend_result [] False (framer_process demo_options NOOP_REPLACER [] CRLF
      (new_framer\<lparr>fr_headBuf := ''GET / HTTP/1.1'' @ CRLF\<rparr>, ()))"
proof -
  have "framer_process demo_options NOOP_REPLACER [] (''GET / HTTP/1.1'' @ CRLF) (new_framer, ()) =
      (new_framer\<lparr>fr_headBuf := ''GET / HTTP/1.1'' @ CRLF\<rparr>, (), Inr (plain_output [] False))"
    by code_simp
  from framer_chunking_irrelevant[OF this, of CRLF] show ?thesis
    by (simp add: framer_inv_def new_framer_def)
qed

lemma framer_serves_requests_witness:
  "framer_process demo_options NOOP_REPLACER [] (stream [(demo_post, ''hi''), (demo_head, [])]) (new_framer, ()) =
    (new_framer, (), Inr (plain_output (demo_post @ ''hi'' @ demo_head) False))"
proof -
  have counted: "list_all counted_request [(demo_post, ''hi''), (demo_head, [])]" by code_simp
  have served: "serve (fo_metered demo_options) NOOP_REPLACER [] () [(demo_post, ''hi''), (demo_head, [])] =
      Some ((), demo_post @ ''hi'' @ demo_head, False)"
    by code_simp
  show ?thesis using framer_serves_requests[OF counted served] by blast
qed

lemma unspliced_tunnel_is_a_wire_witness:
  "case framer_process \<lparr>fo_maxHead = 100, fo_metered = Some (\<lambda>n info. (Suc n, Plain))\<rparr>
      (forHost (credential_run demo_credentials new_credential_map) ''api.example.com'') [] demo_head (new_framer, 0) of
    (st, n, r) \<Rightarrow> \<exists>out. r = Inr out \<and> \<not> fw_injected out \<and> prefix (fw_out out) demo_head"
proof -
  obtain st n r where run: "framer_process \<lparr>fo_maxHead = 100, fo_metered = Some (\<lambda>n info. (Suc n, Plain))\<rparr>
      (forHost (credential_run demo_credentials new_credential_map) ''api.example.com'') [] demo_head (new_framer, 0) =
    (st, n, r)"
    by (metis prod_cases3)
  have "framer_inv new_framer" by (simp add: framer_inv_def new_framer_def)
  from unspliced_tunnel_is_a_wire[OF _ _ this run, of "\<lambda>n info. (Suc n, Plain)"] run show ?thesis
    by (auto simp: new_framer_def)
qed

lemma heads_keep_their_lines_witness:
  "\<exists>sent h. forward_head (forHost (credential_run demo_credentials new_credential_map) ''api.example.com'') False []
      (''x-api-key: ax-cred:00ff'' @ HEAD_END) = HeadSent sent True \<and> sent = ''x-api-key: sk-1'' @ HEAD_END \<and>
    filter is_crlf h = filter is_crlf (''x-api-key: ax-cred:00ff'' @ HEAD_END) \<and> sent = h"
proof -
  have sent: "forward_head (forHost (credential_run demo_credentials new_credential_map) ''api.example.com'') False []
      (''x-api-key: ax-cred:00ff'' @ HEAD_END) = HeadSent (''x-api-key: sk-1'' @ HEAD_END) True"
    by code_simp
  have "list_all op_random_ok demo_credentials" by code_simp
  from heads_keep_their_lines[OF this sent] sent show ?thesis by auto
qed

lemma complete_head_ignores_the_cap_witness:
  "framer_process \<lparr>fo_maxHead = 4, fo_metered = Some (\<lambda>n info. (Suc n, Splice))\<rparr> NOOP_REPLACER [] ''GET / HTTP/1.1'' (new_framer, 0) =
    (new_framer\<lparr>fr_phase := PDead\<rparr>, 0,
     Inr ((plain_output [] False)\<lparr>fw_denied := Some (400, ''malformed-request''), fw_oversized := True\<rparr>))"
proof -
  have "complete_head demo_head" by code_simp
  moreover have "demo_head = ''GET / HTTP/1.1'' @ HEAD_END" by (simp add: demo_head_def)
  ultimately show ?thesis
    using complete_head_ignores_the_cap[of demo_head "''GET / HTTP/1.1''" HEAD_END
        "\<lparr>fo_maxHead = 4, fo_metered = Some (\<lambda>n info. (Suc n, Splice))\<rparr>" "\<lambda>n info. (Suc n, Splice)"]
    by simp
qed

end
