(* ===== verification/Usage_Scan.thy ===== *)
theory Usage_Scan
  imports Js_Text "HOL-Library.Code_Target_Nat"
begin

text \<open>
  Reading token counters and the model name out of a response body, after
  \<^verbatim>\<open>packages/credential-proxy/src/usage-scan.ts\<close>, with the usage record of
  \<^verbatim>\<open>provider-usage.ts\<close>. A body is scanned in pieces of which only the last 256
  characters are carried over. \<open>body_scanner\<close> is the interface the response tap uses: what a
  scanner reports about a body does not depend on how the body was cut.
\<close>

record measured_usage =
  mu_inputTokens :: nat
  mu_outputTokens :: nat
  mu_cacheReadTokens :: nat
  mu_cacheWriteTokens :: nat

record scan_result =
  sr_model :: "bytes option"
  sr_usage :: "measured_usage option"

section \<open>The patterns\<close>

abbreviation QUOTE :: char where
  "QUOTE \<equiv> CHR 0x22"

definition TAIL_CHARS :: nat where
  "TAIL_CHARS = 256"

definition SLICE_BYTES :: nat where
  "SLICE_BYTES = 64 * 1024"

definition CLAMP :: nat where
  "CLAMP = 1000000000"

definition COUNTER_NAMES :: "bytes list" where
  "COUNTER_NAMES =
     [''input_tokens'', ''output_tokens'', ''cache_read_input_tokens'', ''cache_creation_input_tokens'',
      ''prompt_tokens'', ''completion_tokens'', ''cached_tokens'', ''cache_write_tokens'']"

text \<open>The look-behind \<^verbatim>\<open>(?<![\\\w"])\<close> and the blanks \<^verbatim>\<open>[ \t\r\n]\<close>.\<close>

definition key_break :: "char option \<Rightarrow> bool" where
  "key_break prev = (case prev of None \<Rightarrow> True | Some c \<Rightarrow> c \<noteq> CHR 0x5C \<and> \<not> is_word c \<and> c \<noteq> QUOTE)"

definition json_blank :: "char \<Rightarrow> bool" where
  "json_blank c \<longleftrightarrow> is_blank c \<or> c = CHR 0x0D \<or> c = CHR 0x0A"

text \<open>What follows \<^verbatim>\<open>"name"\<close>, a colon and the blanks around it.\<close>

definition key_value :: "bytes \<Rightarrow> bytes \<Rightarrow> bytes option" where
  "key_value name s =
     (let r = dropWhile json_blank (drop (length name + 2) s) in
      if prefix (QUOTE # name @ [QUOTE]) s \<and> take 1 r = '':'' then Some (dropWhile json_blank (drop 1 r)) else None)"

text \<open>
  A match at the start of a text, with the character before it: what was read and the text after
  the match. Digits are read greedily and followed by neither a digit nor a dot.
\<close>

definition counter_match :: "char option \<Rightarrow> bytes \<Rightarrow> ((bytes \<times> nat) \<times> bytes) option" where
  "counter_match prev s =
     (if \<not> key_break prev then None
      else case List.find (\<lambda>name. prefix (QUOTE # name @ [QUOTE]) s) COUNTER_NAMES of
        None \<Rightarrow> None
      | Some name \<Rightarrow>
          (case key_value name s of
             None \<Rightarrow> None
           | Some v \<Rightarrow>
               let digits = takeWhile is_digit v; rest = dropWhile is_digit v in
               if 1 \<le> length digits \<and> length digits \<le> 12 \<and> take 1 rest \<noteq> ''.''
               then Some ((name, min (radix_value 10 digits) CLAMP), rest) else None))"

definition is_model_char :: "char \<Rightarrow> bool" where
  "is_model_char c \<longleftrightarrow> is_alnum c \<or> c \<in> set ''._:/@+-''"

definition model_match :: "char option \<Rightarrow> bytes \<Rightarrow> (bytes \<times> bytes) option" where
  "model_match prev s =
     (if \<not> key_break prev then None
      else case key_value ''model'' s of
        None \<Rightarrow> None
      | Some v \<Rightarrow>
          let name = takeWhile is_model_char (drop 1 v); rest = dropWhile is_model_char (drop 1 v) in
          if take 1 v = [QUOTE] \<and> 1 \<le> length name \<and> length name \<le> 200 \<and> take 1 rest = [QUOTE]
          then Some (name, drop 1 rest) else None)"

text \<open>\<^verbatim>\<open>text.matchAll(re)\<close>: position, what was read, and the text after the match.\<close>

fun match_all ::
    "(char option \<Rightarrow> bytes \<Rightarrow> ('a \<times> bytes) option) \<Rightarrow> nat \<Rightarrow> nat \<Rightarrow> char option \<Rightarrow> bytes \<Rightarrow> (nat \<times> 'a \<times> bytes) list" where
  "match_all f skip pos prev [] = []"
| "match_all f skip pos prev (c # cs) =
     (if skip > 0 then match_all f (skip - 1) (Suc pos) (Some c) cs
      else case f prev (c # cs) of
        None \<Rightarrow> match_all f 0 (Suc pos) (Some c) cs
      | Some (x, rest) \<Rightarrow> (pos, x, rest) # match_all f (length cs - length rest) (Suc pos) (Some c) cs)"

abbreviation matches :: "(char option \<Rightarrow> bytes \<Rightarrow> ('a \<times> bytes) option) \<Rightarrow> bytes \<Rightarrow> (nat \<times> 'a \<times> bytes) list" where
  "matches f text \<equiv> match_all f 0 0 None text"

section \<open>The scanner\<close>

record usage_scanner =
  sc_counters :: "(bytes, nat) jsmap"
  sc_model :: "bytes option"
  sc_tail :: bytes
  sc_cut :: bool

definition new_scanner :: usage_scanner where
  "new_scanner = \<lparr>sc_counters = [], sc_model = None, sc_tail = [], sc_cut = False\<rparr>"

definition bump :: "bytes \<Rightarrow> nat \<Rightarrow> (bytes, nat) jsmap \<Rightarrow> (bytes, nat) jsmap" where
  "bump name v m =
     (case js_get m name of
        None \<Rightarrow> js_set name v m
      | Some p \<Rightarrow> if v > p then js_set name v m else m)"

definition absorb :: "bool \<Rightarrow> bytes \<Rightarrow> bool \<Rightarrow> (bytes, nat) jsmap \<Rightarrow> (bytes, nat) jsmap" where
  "absorb was_cut text at_end m =
     fold (\<lambda>(pos, (name, v), rest) m.
       if (was_cut \<and> pos = 0) \<or> (\<not> at_end \<and> rest = []) then m else bump name v m) (matches counter_match text) m"

definition findModel :: "bool \<Rightarrow> bytes \<Rightarrow> bytes option" where
  "findModel was_cut text =
     (case [x \<leftarrow> matches model_match text. \<not> (was_cut \<and> fst x = 0)] of [] \<Rightarrow> None | (_, m, _) # _ \<Rightarrow> Some m)"

definition feed_slice :: "bytes \<Rightarrow> usage_scanner \<Rightarrow> usage_scanner" where
  "feed_slice piece sc =
     (let text = sc_tail sc @ piece in
      sc\<lparr>sc_counters := absorb (sc_cut sc) text False (sc_counters sc),
         sc_model := (case sc_model sc of None \<Rightarrow> findModel (sc_cut sc) text | Some m \<Rightarrow> Some m),
         sc_tail := drop (length text - TAIL_CHARS) text,
         sc_cut := (sc_cut sc \<or> length text > TAIL_CHARS)\<rparr>)"

function slices :: "nat \<Rightarrow> bytes \<Rightarrow> bytes list" where
  "slices n s = (if s = [] then [] else if n = 0 then [s] else take n s # slices n (drop n s))"
  by pat_completeness auto
termination
  by (relation "measure (length \<circ> snd)") auto

declare slices.simps [simp del]

definition scanner_feed :: "bytes \<Rightarrow> usage_scanner \<Rightarrow> usage_scanner" where
  "scanner_feed chunk sc = fold feed_slice (slices SLICE_BYTES chunk) sc"

definition combine :: "(bytes, nat) jsmap \<Rightarrow> measured_usage option" where
  "combine counters =
     (if counters = [] then None
      else let get = (\<lambda>name. case js_get counters name of None \<Rightarrow> 0 | Some v \<Rightarrow> v);
               cacheRead = max (get ''cache_read_input_tokens'') (get ''cached_tokens'');
               cacheWrite = max (get ''cache_creation_input_tokens'') (get ''cache_write_tokens'');
               input = (case js_get counters ''input_tokens'' of None \<Rightarrow> 0 | Some v \<Rightarrow> v);
               input = (case js_get counters ''prompt_tokens'' of
                   None \<Rightarrow> input | Some p \<Rightarrow> max input (p - cacheRead - cacheWrite))
           in Some \<lparr>mu_inputTokens = input, mu_outputTokens = max (get ''output_tokens'') (get ''completion_tokens''),
                mu_cacheReadTokens = cacheRead, mu_cacheWriteTokens = cacheWrite\<rparr>)"

definition scanner_result :: "usage_scanner \<Rightarrow> scan_result" where
  "scanner_result sc =
     \<lparr>sr_model = sc_model sc, sr_usage = combine (absorb (sc_cut sc) (sc_tail sc) True (sc_counters sc))\<rparr>"

section \<open>Matches of a text and of its parts\<close>

text \<open>The match at a position, with the character really before it.\<close>

definition prev_char :: "char option \<Rightarrow> bytes \<Rightarrow> nat \<Rightarrow> char option" where
  "prev_char prev s i = (if i = 0 then prev else Some (s ! (i - 1)))"

definition match_at :: "(char option \<Rightarrow> bytes \<Rightarrow> ('a \<times> bytes) option) \<Rightarrow> bytes \<Rightarrow> nat \<Rightarrow> ('a \<times> bytes) option" where
  "match_at f s i = f (prev_char None s i) (drop i s)"

lemma prev_char_simps [simp]:
  "prev_char prev s 0 = prev" "prev_char prev (c # s) (Suc i) = prev_char (Some c) s i"
  by (simp_all add: prev_char_def nth_Cons split: nat.split)

lemma match_at_drop:
  "d \<le> length t \<Longrightarrow> 0 < i \<or> d = 0 \<Longrightarrow> match_at f (drop d t) i = match_at f t (d + i)"
  by (auto simp: match_at_def prev_char_def add.commute)

text \<open>Every element of \<^const>\<open>match_all\<close> is a match, and the first one is the first.\<close>

lemma match_all_sound:
  "(p, x, r) \<in> set (match_all f skip pos prev s) \<Longrightarrow>
    \<exists>i < length s. p = pos + i \<and> f (prev_char prev s i) (drop i s) = Some (x, r)"
proof (induction s arbitrary: skip pos prev)
  case (Cons c s)
  have step: ?case if later: "(p, x, r) \<in> set (match_all f k (Suc pos) (Some c) s)" for k
  proof -
    obtain i where "i < length s" "p = Suc pos + i" "f (prev_char (Some c) s i) (drop i s) = Some (x, r)"
      using Cons.IH[OF later] by blast
    then have "Suc i < length (c # s)" "p = pos + Suc i"
      "f (prev_char prev (c # s) (Suc i)) (drop (Suc i) (c # s)) = Some (x, r)" by simp_all
    then show ?thesis by blast
  qed
  show ?case
  proof (cases "skip > 0 \<or> f prev (c # s) = None")
    case True
    then show ?thesis using Cons.prems step by (auto split: if_splits)
  next
    case False
    then obtain y q where "f prev (c # s) = Some (y, q)" by auto
    then show ?thesis using Cons.prems step False by (auto intro: exI[of _ 0])
  qed
qed simp

lemma match_all_first:
  assumes "q < length s" "skip \<le> q" "f (prev_char prev s q) (drop q s) = Some (x, r)"
    and "\<And>j. skip \<le> j \<Longrightarrow> j < q \<Longrightarrow> f (prev_char prev s j) (drop j s) = None"
  shows "\<exists>l. match_all f skip pos prev s = (pos + q, x, r) # l"
  using assms
proof (induction s arbitrary: q skip pos prev)
  case (Cons c s)
  show ?case
  proof (cases q)
    case 0
    then show ?thesis using Cons.prems by simp
  next
    case (Suc k)
    have none: "f prev (c # s) = None" if "skip = 0" using Cons.prems(4)[of 0] that Suc by simp
    have rest: "f (prev_char (Some c) s j) (drop j s) = None" if "skip \<le> Suc j" "j < k" for j
      using Cons.prems(4)[of "Suc j"] that Suc by simp
    have "\<exists>l. match_all f (skip - 1) (Suc pos) (Some c) s = (Suc pos + k, x, r) # l"
      using Cons.prems(1,2,3) Suc rest by (intro Cons.IH) auto
    then show ?thesis using none Suc by (cases "skip = 0") auto
  qed
qed simp

lemma matches_sound: "(p, x, r) \<in> set (matches f s) \<Longrightarrow> p < length s \<and> match_at f s p = Some (x, r)"
  using match_all_sound[where skip = 0 and pos = 0 and prev = None] by (fastforce simp: match_at_def)

lemma matches_first:
  "q < length s \<Longrightarrow> match_at f s q = Some (x, r) \<Longrightarrow> (\<And>j. j < q \<Longrightarrow> match_at f s j = None) \<Longrightarrow>
    \<exists>l. matches f s = (q, x, r) # l"
  using match_all_first[where skip = 0 and pos = 0 and prev = None and q = q and s = s and f = f and x = x and r = r]
  by (simp add: match_at_def)

text \<open>Where no match starts inside another one, every match is found.\<close>

lemma match_all_complete:
  assumes apart: "\<And>prev s x r j. f prev s = Some (x, r) \<Longrightarrow> 0 < j \<Longrightarrow> j < length s - length r \<Longrightarrow>
      f (Some (s ! (j - 1))) (drop j s) = None"
    and "i < length s" "f (prev_char prev s i) (drop i s) = Some (x, r)"
    and "\<And>j. j < skip \<Longrightarrow> j < length s \<Longrightarrow> f (prev_char prev s j) (drop j s) = None"
  shows "(pos + i, x, r) \<in> set (match_all f skip pos prev s)"
  using assms(2-4)
proof (induction s arbitrary: i skip pos prev)
  case (Cons c s)
  show ?case
  proof (cases "skip > 0 \<or> f prev (c # s) = None")
    case True
    then have "i \<noteq> 0" using Cons.prems(2) Cons.prems(3)[of 0] by (intro notI) auto
    then obtain k where k: "i = Suc k" by (cases i) auto
    have "f (prev_char (Some c) s j) (drop j s) = None" if "j < skip - 1" "j < length s" for j
      using Cons.prems(3)[of "Suc j"] that by simp
    then have "(Suc pos + k, x, r) \<in> set (match_all f (skip - 1) (Suc pos) (Some c) s)"
      using Cons.prems(1,2) k by (intro Cons.IH) auto
    then show ?thesis using True k by (cases "skip > 0") auto
  next
    case False
    then obtain y q where yq: "f prev (c # s) = Some (y, q)" by auto
    show ?thesis
    proof (cases i)
      case 0
      then show ?thesis using yq False Cons.prems(2) by simp
    next
      case (Suc k)
      have "f (prev_char (Some c) s j) (drop j s) = None" if "j < length s - length q" "j < length s" for j
        using apart[OF yq, of "Suc j"] that by (cases j) (simp_all add: prev_char_def)
      then have "(Suc pos + k, x, r) \<in> set (match_all f (length s - length q) (Suc pos) (Some c) s)"
        using Cons.prems(1,2) Suc by (intro Cons.IH) auto
      then show ?thesis using yq False Suc by simp
    qed
  qed
qed simp

text \<open>
  What the scanner relies on of a pattern: a match is a prefix of the text, the look-behind only
  rules matches out, and a match that is decided (\<open>dec\<close> of the text after it) does not depend on
  what comes later.
\<close>

locale stream_pattern =
  fixes f :: "char option \<Rightarrow> bytes \<Rightarrow> ('a \<times> bytes) option"
    and dec :: "bytes \<Rightarrow> bool"
  assumes consume: "f prev s = Some (x, r) \<Longrightarrow> \<exists>c pre. s = c # pre @ r"
    and behind: "f prev s = Some y \<Longrightarrow> f None s = Some y"
    and decided: "dec r \<Longrightarrow> f prev (s @ u) = Some (x, r @ u) \<longleftrightarrow> f prev s = Some (x, r)"
    and nonempty: "r \<noteq> [] \<Longrightarrow> dec r"
begin

lemma match_bound: "match_at f s i = Some (x, r) \<Longrightarrow> i < length s \<and> i + length r < length s"
proof -
  assume m: "match_at f s i = Some (x, r)"
  then obtain c pre where "drop i s = c # pre @ r" using consume unfolding match_at_def by blast
  then have "length s - i = Suc (length pre + length r)" by (metis length_drop length_Cons length_append)
  then show ?thesis by arith
qed

lemma match_split:
  assumes "match_at f (t @ c) i = Some (x, r)" "length c \<le> length r"
  shows "\<exists>r'. r = r' @ c \<and> i < length t"
proof -
  obtain b pre where d: "drop i (t @ c) = b # pre @ r" using assms(1) consume unfolding match_at_def by blast
  have i: "i < length t" using match_bound[OF assms(1)] assms(2) by simp
  then have d': "drop i t @ c = (b # pre) @ r" using d by simp
  then obtain us where "drop i t = (b # pre) @ us \<and> us @ c = r \<or> drop i t @ us = b # pre \<and> c = us @ r"
    unfolding append_eq_append_conv2 by blast
  then show ?thesis using i assms(2) by auto
qed

lemma match_extend:
  assumes "i < length t" "dec r"
  shows "match_at f (t @ c) i = Some (x, r @ c) \<longleftrightarrow> match_at f t i = Some (x, r)"
proof -
  have "prev_char None (t @ c) i = prev_char None t i" using assms(1) by (auto simp: prev_char_def nth_append)
  then show ?thesis
    using assms(1) decided[OF assms(2), of "prev_char None t i" "drop i t" c x] by (simp add: match_at_def)
qed

end

text \<open>No match of the body, the look-behind aside, is longer than \<open>n\<close>.\<close>

definition short_matches :: "nat \<Rightarrow> (char option \<Rightarrow> bytes \<Rightarrow> ('a \<times> bytes) option) \<Rightarrow> bytes \<Rightarrow> bool" where
  "short_matches n f s \<longleftrightarrow>
     list_all (\<lambda>i. case f None (drop i s) of None \<Rightarrow> True | Some (x, r) \<Rightarrow> length s \<le> i + n + length r) [0..<length s]"

context stream_pattern
begin

lemma short_unseen:
  assumes "short_matches n f s" "f None (drop i s) = Some (x, r)" "i < length s"
  shows "length s \<le> i + n + length r"
proof -
  have "case f None (drop i s) of None \<Rightarrow> True | Some (x, r) \<Rightarrow> length s \<le> i + n + length r"
    using assms(1,3) unfolding short_matches_def list_all_iff by (elim bspec) simp
  then show ?thesis using assms(2) by simp
qed

lemma short_at:
  assumes "short_matches n f s" "match_at f s i = Some (x, r)"
  shows "length s \<le> i + n + length r"
  using short_unseen[OF assms(1)] behind assms(2) match_bound[OF assms(2)] unfolding match_at_def by blast

lemma short_match:
  assumes "short_matches n f (t @ u)" "match_at f t i = Some (x, r)" "dec r"
  shows "length t \<le> i + n + length r"
proof -
  have i: "i < length t" using match_bound[OF assms(2)] by simp
  then have "match_at f (t @ u) i = Some (x, r @ u)" using match_extend assms(2,3) by blast
  then show ?thesis using short_at[OF assms(1)] by fastforce
qed

text \<open>A match of the longer text is in the window that is scanned, or was decided before.\<close>

lemma match_window:
  assumes "match_at f (t @ c) i = Some (x, r)" "length (t @ c) \<le> i + n + length r" "n < w"
  shows "length t - w = 0 \<or> length t - w < i \<or> (\<exists>r'. r = r' @ c \<and> r' \<noteq> [] \<and> match_at f t i = Some (x, r'))"
proof (rule ccontr)
  assume neg: "\<not> ?thesis"
  then have i: "i + w \<le> length t" by arith
  have bound: "i + length r < length (t @ c)" using match_bound[OF assms(1)] by simp
  have "length c < length r" using assms(2,3) i by simp
  moreover then obtain r' where r': "r = r' @ c" "i < length t" using match_split[OF assms(1)] by auto
  ultimately have "r' \<noteq> []" by auto
  then show False using match_extend[OF r'(2) nonempty, of r' c x] assms(1) r' neg by blast
qed

end

section \<open>The two patterns\<close>

lemma no_quote [simp]:
  "\<not> is_digit QUOTE" "\<not> is_model_char QUOTE" "\<not> json_blank QUOTE" "\<not> json_blank (CHR '':'')"
  by (simp_all add: is_digit_def is_model_char_def is_alnum_def is_lower_def is_upper_def json_blank_def is_blank_def)

lemma digit_not_blank: "is_digit c \<Longrightarrow> \<not> json_blank c"
  by (auto simp: is_digit_def json_blank_def is_blank_def)

lemma key_break_quote: "is_word c \<Longrightarrow> \<not> key_break (Some c)"
  by (simp add: key_break_def)

lemma list_all_takeWhile [simp]: "list_all P (takeWhile P xs)"
  by (induction xs) auto

lemma take_1_eq: "take 1 xs = [c] \<Longrightarrow> xs = c # drop 1 xs"
  by (cases xs) auto

lemma key_value_iff:
  "key_value name s = Some v \<longleftrightarrow>
    (\<exists>w1 w2. s = QUOTE # name @ QUOTE # w1 @ CHR '':'' # w2 @ v \<and> list_all json_blank w1 \<and> list_all json_blank w2 \<and>
      (v = [] \<or> \<not> json_blank (hd v)))" (is "?l \<longleftrightarrow> ?r")
proof
  assume l: ?l
  let ?r = "drop (length name + 2) s"
  let ?q = "dropWhile json_blank ?r"
  have p: "prefix (QUOTE # name @ [QUOTE]) s" "take 1 ?q = '':''" "v = dropWhile json_blank (drop 1 ?q)"
    using l by (auto simp: key_value_def Let_def split: if_splits)
  obtain z where z: "s = QUOTE # name @ QUOTE # z" using p(1) by (auto simp: prefix_def)
  then have r: "?r = z" by simp
  have q: "?q = CHR '':'' # drop 1 ?q" using take_1_eq[OF p(2)] .
  have "z = takeWhile json_blank z @ CHR '':'' # takeWhile json_blank (drop 1 ?q) @ v"
    using q r p(3) by (metis takeWhile_dropWhile_id)
  moreover have "list_all json_blank (takeWhile json_blank z)" "list_all json_blank (takeWhile json_blank (drop 1 ?q))"
    by simp_all
  moreover have "v = [] \<or> \<not> json_blank (hd v)" using p(3) hd_dropWhile[of json_blank "drop 1 ?q"] by auto
  ultimately show "\<exists>w1 w2. s = QUOTE # name @ QUOTE # w1 @ CHR '':'' # w2 @ v \<and> list_all json_blank w1 \<and>
      list_all json_blank w2 \<and> (v = [] \<or> \<not> json_blank (hd v))" using z by blast
next
  assume ?r
  then obtain w1 w2 where s: "s = QUOTE # name @ QUOTE # w1 @ CHR '':'' # w2 @ v"
    and w: "list_all json_blank w1" "list_all json_blank w2" "v = [] \<or> \<not> json_blank (hd v)" by blast
  have "dropWhile json_blank (w1 @ CHR '':'' # w2 @ v) = CHR '':'' # w2 @ v"
    using w(1) by (simp add: list_all_iff dropWhile_append2)
  moreover have "dropWhile json_blank (w2 @ v) = v"
    using w(2,3) by (cases v) (simp_all add: list_all_iff dropWhile_append2)
  ultimately show ?l using s by (simp add: key_value_def prefix_def)
qed

lemma counter_name_chars: "name \<in> set COUNTER_NAMES \<Longrightarrow> name \<noteq> [] \<and> list_all is_word name"
  unfolding COUNTER_NAMES_def by (simp, elim disjE) (simp_all, simp_all add: is_word_def is_alnum_def is_lower_def)

lemma word_no_quote: "list_all is_word name \<Longrightarrow> QUOTE \<notin> set name"
  by (auto simp: list_all_iff is_word_def is_alnum_def is_digit_def is_lower_def is_upper_def)

lemma quoted_name: "QUOTE \<notin> set name \<Longrightarrow> prefix (QUOTE # name @ [QUOTE]) s \<Longrightarrow> takeWhile (\<lambda>c. c \<noteq> QUOTE) (tl s) = name"
proof -
  have "takeWhile (\<lambda>c. c \<noteq> QUOTE) (name @ QUOTE # z) = name" if "QUOTE \<notin> set name" for name z
    using that by (induction name) auto
  then show "QUOTE \<notin> set name \<Longrightarrow> prefix (QUOTE # name @ [QUOTE]) s \<Longrightarrow> ?thesis" by (auto simp: prefix_def)
qed

lemma find_name:
  "List.find (\<lambda>name. prefix (QUOTE # name @ [QUOTE]) s) COUNTER_NAMES = Some name \<longleftrightarrow>
    name \<in> set COUNTER_NAMES \<and> prefix (QUOTE # name @ [QUOTE]) s" (is "?f = _ \<longleftrightarrow> _")
proof -
  have uniq: "n = m" if "n \<in> set COUNTER_NAMES" "m \<in> set COUNTER_NAMES" "prefix (QUOTE # n @ [QUOTE]) s" "prefix (QUOTE # m @ [QUOTE]) s" for n m
    using that counter_name_chars word_no_quote quoted_name by metis
  show ?thesis
  proof (cases ?f)
    case None
    moreover have "\<not> (name \<in> set COUNTER_NAMES \<and> prefix (QUOTE # name @ [QUOTE]) s)" using None by (auto simp: find_None_iff)
    ultimately show ?thesis by simp
  next
    case (Some m)
    then have "m \<in> set COUNTER_NAMES \<and> prefix (QUOTE # m @ [QUOTE]) s" by (auto simp: find_Some_iff)
    then show ?thesis using Some uniq by auto
  qed
qed

definition counter_shape :: "bytes \<Rightarrow> bytes \<Rightarrow> bytes \<Rightarrow> bytes \<Rightarrow> bytes \<Rightarrow> bool" where
  "counter_shape name w1 w2 ds r \<longleftrightarrow>
     name \<in> set COUNTER_NAMES \<and> list_all json_blank w1 \<and> list_all json_blank w2 \<and> list_all is_digit ds \<and>
     1 \<le> length ds \<and> length ds \<le> 12 \<and> (r = [] \<or> \<not> is_digit (hd r) \<and> hd r \<noteq> CHR ''.'')"

lemma counter_match_iff:
  "counter_match prev s = Some (x, r) \<longleftrightarrow>
    key_break prev \<and> (\<exists>name w1 w2 ds. s = QUOTE # name @ QUOTE # w1 @ CHR '':'' # w2 @ ds @ r \<and>
      counter_shape name w1 w2 ds r \<and> x = (name, min (radix_value 10 ds) CLAMP))" (is "?l \<longleftrightarrow> ?r")
proof
  assume l: ?l
  then obtain name v where name: "name \<in> set COUNTER_NAMES" and v: "key_value name s = Some v" and kb: "key_break prev"
    and ds: "1 \<le> length (takeWhile is_digit v)" "length (takeWhile is_digit v) \<le> 12" "take 1 (dropWhile is_digit v) \<noteq> ''.''"
    and x: "x = (name, min (radix_value 10 (takeWhile is_digit v)) CLAMP)" and r: "r = dropWhile is_digit v"
    by (auto simp: counter_match_def Let_def find_name split: if_splits option.splits)
  obtain w1 w2 where s: "s = QUOTE # name @ QUOTE # w1 @ CHR '':'' # w2 @ v" and w: "list_all json_blank w1" "list_all json_blank w2"
    using v unfolding key_value_iff by blast
  have "counter_shape name w1 w2 (takeWhile is_digit v) r"
    using name w ds hd_dropWhile[of is_digit v] unfolding counter_shape_def r list_all_iff
    by (cases "dropWhile is_digit v") (auto dest: set_takeWhileD)
  moreover have "v = takeWhile is_digit v @ r" using r by simp
  ultimately show ?r using s kb x by metis
next
  assume ?r
  then obtain name w1 w2 ds where kb: "key_break prev" and s: "s = QUOTE # name @ QUOTE # w1 @ CHR '':'' # w2 @ ds @ r"
    and sh: "counter_shape name w1 w2 ds r" and x: "x = (name, min (radix_value 10 ds) CLAMP)" by blast
  have v: "key_value name s = Some (ds @ r)"
    using s sh digit_not_blank unfolding key_value_iff counter_shape_def
    by (cases ds) auto
  have "List.find (\<lambda>name. prefix (QUOTE # name @ [QUOTE]) s) COUNTER_NAMES = Some name"
    unfolding find_name using sh s by (simp add: counter_shape_def prefix_def)
  moreover have tw: "takeWhile is_digit (ds @ r) = ds" "dropWhile is_digit (ds @ r) = r"
    using sh by (cases r; simp add: counter_shape_def list_all_iff takeWhile_append2 dropWhile_append2)+
  moreover have "take 1 r \<noteq> ''.''" using sh by (cases r) (auto simp: counter_shape_def)
  ultimately show ?l using kb v x sh by (simp add: counter_match_def counter_shape_def)
qed

definition model_shape :: "bytes \<Rightarrow> bytes \<Rightarrow> bytes \<Rightarrow> bool" where
  "model_shape w1 w2 m \<longleftrightarrow>
     list_all json_blank w1 \<and> list_all json_blank w2 \<and> list_all is_model_char m \<and> 1 \<le> length m \<and> length m \<le> 200"

lemma model_match_iff:
  "model_match prev s = Some (m, r) \<longleftrightarrow>
    key_break prev \<and> (\<exists>w1 w2. s = QUOTE # ''model'' @ QUOTE # w1 @ CHR '':'' # w2 @ QUOTE # m @ QUOTE # r \<and> model_shape w1 w2 m)"
  (is "?l \<longleftrightarrow> ?r")
proof
  assume l: ?l
  then obtain v where v: "key_value ''model'' s = Some v" and kb: "key_break prev"
    and m: "m = takeWhile is_model_char (drop 1 v)" "1 \<le> length m" "length m \<le> 200"
    and q: "take 1 v = [QUOTE]" "take 1 (dropWhile is_model_char (drop 1 v)) = [QUOTE]"
    and r: "r = drop 1 (dropWhile is_model_char (drop 1 v))"
    by (auto simp: model_match_def Let_def split: if_splits option.splits)
  obtain w1 w2 where s: "s = QUOTE # ''model'' @ QUOTE # w1 @ CHR '':'' # w2 @ v" and w: "list_all json_blank w1" "list_all json_blank w2"
    using v unfolding key_value_iff by blast
  have "v = QUOTE # drop 1 v" using q(1) by (cases v) auto
  moreover have "drop 1 v = m @ dropWhile is_model_char (drop 1 v)" using m(1) by simp
  moreover have "dropWhile is_model_char (drop 1 v) = QUOTE # r" using take_1_eq[OF q(2)] r by simp
  moreover have "model_shape w1 w2 m" using w m by (auto simp: model_shape_def list_all_iff dest: set_takeWhileD)
  ultimately show ?r using s kb by metis
next
  assume ?r
  then obtain w1 w2 where kb: "key_break prev" and sh: "model_shape w1 w2 m"
    and s: "s = QUOTE # ''model'' @ QUOTE # w1 @ CHR '':'' # w2 @ QUOTE # m @ QUOTE # r" by blast
  have "key_value ''model'' s = Some (QUOTE # m @ QUOTE # r)"
    unfolding key_value_iff using s sh by (intro exI[of _ w1] exI[of _ w2]) (simp add: model_shape_def)
  moreover have "takeWhile is_model_char (m @ QUOTE # r) = m" "dropWhile is_model_char (m @ QUOTE # r) = QUOTE # r"
    using sh by (simp_all add: model_shape_def list_all_iff takeWhile_append2 dropWhile_append2)
  ultimately show ?l using kb sh by (simp add: model_match_def model_shape_def)
qed

text \<open>A quote in \<open>a @ QUOTE # b\<close> is the one shown, or in \<open>b\<close>.\<close>

lemma drop_to_quote:
  assumes "drop k (a @ QUOTE # b) = QUOTE # z" "QUOTE \<notin> set a"
  shows "k = length a \<and> z = b \<or> length a < k \<and> drop (k - Suc (length a)) b = QUOTE # z"
proof (cases "k < length a")
  case True
  then have "drop k a @ QUOTE # b = QUOTE # z" using assms(1) by simp
  then have "hd (drop k a) = QUOTE" using True by (cases "drop k a") auto
  then show ?thesis using True assms(2) by (metis hd_drop_conv_nth nth_mem)
next
  case False
  then show ?thesis using assms(1) by (cases "k = length a") (auto simp: drop_Cons' Suc_diff_le)
qed

lemma shape_no_quote:
  "list_all json_blank w \<Longrightarrow> QUOTE \<notin> set w" "list_all is_model_char w \<Longrightarrow> QUOTE \<notin> set w" "list_all is_digit w \<Longrightarrow> QUOTE \<notin> set w"
  by (auto simp: list_all_iff)

interpretation counters: stream_pattern counter_match "\<lambda>r. r \<noteq> []"
proof
  show "\<exists>c pre. s = c # pre @ r" if m: "counter_match prev s = Some (x, r)" for prev s x r
  proof -
    obtain name w1 w2 ds where "s = QUOTE # name @ QUOTE # w1 @ CHR '':'' # w2 @ ds @ r"
      using m unfolding counter_match_iff by blast
    then have "s = QUOTE # (name @ QUOTE # w1 @ CHR '':'' # w2 @ ds) @ r" by simp
    then show ?thesis by blast
  qed
  show "counter_match None s = Some y" if "counter_match prev s = Some y" for prev s y
    using that by (cases y) (auto simp: counter_match_iff key_break_def)
  show "counter_match prev (s @ u) = Some (x, r @ u) \<longleftrightarrow> counter_match prev s = Some (x, r)" if "r \<noteq> []" for prev s u x r
  proof -
    have "counter_shape name w1 w2 ds (r @ u) = counter_shape name w1 w2 ds r" for name w1 w2 ds
      using that by (cases r) (auto simp: counter_shape_def)
    moreover have "s @ u = QUOTE # name @ QUOTE # w1 @ CHR '':'' # w2 @ ds @ r @ u \<longleftrightarrow>
        s = QUOTE # name @ QUOTE # w1 @ CHR '':'' # w2 @ ds @ r" for name w1 w2 ds
      using append_same_eq[of s u "QUOTE # name @ QUOTE # w1 @ CHR '':'' # w2 @ ds @ r"] by simp
    ultimately show ?thesis unfolding counter_match_iff by simp
  qed
qed

interpretation models: stream_pattern model_match "\<lambda>_. True"
proof
  show "\<exists>c pre. s = c # pre @ r" if m: "model_match prev s = Some (x, r)" for prev s x r
  proof -
    obtain w1 w2 where "s = QUOTE # ''model'' @ QUOTE # w1 @ CHR '':'' # w2 @ QUOTE # x @ QUOTE # r"
      using m unfolding model_match_iff by blast
    then have "s = QUOTE # (''model'' @ QUOTE # w1 @ CHR '':'' # w2 @ QUOTE # x @ [QUOTE]) @ r" by simp
    then show ?thesis by blast
  qed
  show "model_match None s = Some y" if "model_match prev s = Some y" for prev s y
    using that by (cases y) (auto simp: model_match_iff key_break_def)
  show "model_match prev (s @ u) = Some (x, r @ u) \<longleftrightarrow> model_match prev s = Some (x, r)" for prev s u x r
  proof -
    have "s @ u = QUOTE # ''model'' @ QUOTE # w1 @ CHR '':'' # w2 @ QUOTE # x @ QUOTE # r @ u \<longleftrightarrow>
        s = QUOTE # ''model'' @ QUOTE # w1 @ CHR '':'' # w2 @ QUOTE # x @ QUOTE # r" for w1 w2
      using append_same_eq[of s u "QUOTE # ''model'' @ QUOTE # w1 @ CHR '':'' # w2 @ QUOTE # x @ QUOTE # r"] by simp
    then show ?thesis unfolding model_match_iff by simp
  qed
qed simp

lemma counters_apart:
  assumes "counter_match prev s = Some (x, r)" "0 < j" "j < length s - length r"
  shows "counter_match (Some (s ! (j - 1))) (drop j s) = None"
proof (rule ccontr)
  assume "counter_match (Some (s ! (j - 1))) (drop j s) \<noteq> None"
  then obtain y r' where j: "counter_match (Some (s ! (j - 1))) (drop j s) = Some (y, r')" by auto
  then obtain z where z: "drop j s = QUOTE # z" and kb: "key_break (Some (s ! (j - 1)))"
    unfolding counter_match_iff by auto
  obtain name w1 w2 ds where s: "s = QUOTE # name @ QUOTE # w1 @ CHR '':'' # w2 @ ds @ r" and sh: "counter_shape name w1 w2 ds r"
    using assms(1) unfolding counter_match_iff by blast
  have name: "name \<noteq> []" "list_all is_word name" using sh counter_name_chars by (simp_all add: counter_shape_def)
  have "drop (j - 1) (name @ QUOTE # w1 @ CHR '':'' # w2 @ ds @ r) = QUOTE # z" using z s assms(2) by (cases j) auto
  from drop_to_quote[OF this word_no_quote[OF name(2)]]
  show False
  proof
    assume "j - 1 = length name \<and> z = w1 @ CHR '':'' # w2 @ ds @ r"
    then have "s ! (j - 1) = last name" using s name(1) assms(2) by (simp add: nth_Cons' nth_append last_conv_nth)
    then show False using kb key_break_quote name by (metis last_in_set list_all_iff)
  next
    assume l: "length name < j - 1 \<and> drop (j - 1 - Suc (length name)) (w1 @ CHR '':'' # w2 @ ds @ r) = QUOTE # z"
    let ?k = "j - 1 - Suc (length name)" let ?a = "w1 @ CHR '':'' # w2 @ ds"
    have "?k < length ?a" using assms(3) s l by simp
    moreover have "drop ?k (?a @ r) = QUOTE # z" using l by simp
    ultimately have "?a ! ?k = QUOTE" by (metis hd_drop_conv_nth length_append list.sel(1) nth_append trans_less_add1)
    then have "QUOTE \<in> set ?a" using \<open>?k < length ?a\<close> nth_mem by metis
    then show False using sh by (simp add: counter_shape_def shape_no_quote)
  qed
qed

text \<open>A model match that starts inside another one ends after it.\<close>

lemma models_nested:
  assumes "model_match prev s = Some (x, r)" "0 < j" "j < length s - length r" "model_match None (drop j s) = Some (y, r')"
  shows "length r' < length r"
proof -
  obtain w1 w2 where s: "s = QUOTE # ''model'' @ QUOTE # w1 @ CHR '':'' # w2 @ QUOTE # x @ QUOTE # r" and sh: "model_shape w1 w2 x"
    using assms(1) unfolding model_match_iff by blast
  obtain v1 v2 where d: "drop j s = QUOTE # ''model'' @ QUOTE # v1 @ CHR '':'' # v2 @ QUOTE # y @ QUOTE # r'"
    using assms(4) unfolding model_match_iff by blast
  let ?z = "''model'' @ QUOTE # v1 @ CHR '':'' # v2 @ QUOTE # y @ QUOTE # r'"
  have nq: "QUOTE \<notin> set ''model''" "QUOTE \<notin> set (w1 @ CHR '':'' # w2)" "QUOTE \<notin> set x"
    using sh by (simp_all add: model_shape_def shape_no_quote)
  have "drop (j - 1) (''model'' @ QUOTE # w1 @ CHR '':'' # w2 @ QUOTE # x @ QUOTE # r) = QUOTE # ?z"
    using d s assms(2) by (cases j) auto
  from drop_to_quote[OF this nq(1)] show ?thesis
  proof (elim disjE conjE)
    assume "?z = w1 @ CHR '':'' # w2 @ QUOTE # x @ QUOTE # r"
    then have "hd (w1 @ CHR '':'' # w2 @ QUOTE # x @ QUOTE # r) = CHR ''m''" by (metis append_Cons list.sel(1))
    then show ?thesis using sh by (cases w1) (auto simp: model_shape_def json_blank_def is_blank_def)
  next
    let ?k = "j - 1 - Suc (length ''model'')"
    assume l1: "length ''model'' < j - 1" and "drop ?k (w1 @ CHR '':'' # w2 @ QUOTE # x @ QUOTE # r) = QUOTE # ?z"
    then have "drop ?k ((w1 @ CHR '':'' # w2) @ QUOTE # x @ QUOTE # r) = QUOTE # ?z" by simp
    from drop_to_quote[OF this nq(2)] show ?thesis
    proof (elim disjE conjE)
      assume z: "?z = x @ QUOTE # r"
      have "takeWhile (\<lambda>c. c \<noteq> QUOTE) (a @ QUOTE # b) = a" if "QUOTE \<notin> set a" for a b
        using that by (induction a) auto
      from this[OF nq(1)] this[OF nq(3)] z have "x = ''model''" by metis
      then have "length r = length (v1 @ CHR '':'' # v2 @ QUOTE # y @ QUOTE # r')" using z by auto
      then show ?thesis by simp
    next
      let ?k2 = "?k - Suc (length (w1 @ CHR '':'' # w2))"
      assume l2: "length (w1 @ CHR '':'' # w2) < ?k" and "drop ?k2 (x @ QUOTE # r) = QUOTE # ?z"
      from drop_to_quote[OF this(2) nq(3)] show ?thesis
      proof (elim disjE conjE)
        assume "?z = r"
        then show ?thesis by auto
      next
        assume "length x < ?k2"
        then show ?thesis using assms(3) s l1 l2 by simp
      qed
    qed
  qed
qed

section \<open>What the scanner reports\<close>

text \<open>A map of counters holds, for each name, the largest value that was read.\<close>

fun best :: "nat option \<Rightarrow> nat set \<Rightarrow> bool" where
  "best None V \<longleftrightarrow> V = {}"
| "best (Some v) V \<longleftrightarrow> v \<in> V \<and> (\<forall>w \<in> V. w \<le> v)"

definition tallies :: "(bytes, nat) jsmap \<Rightarrow> (bytes \<times> nat) set \<Rightarrow> bool" where
  "tallies m S \<longleftrightarrow> (\<forall>n. best (js_get m n) {v. (n, v) \<in> S})"

lemma best_unique: "best a V \<Longrightarrow> best b V \<Longrightarrow> a = b"
  by (cases a; cases b) (auto intro: antisym)

lemma best_insert:
  "best a V \<Longrightarrow> best (case a of None \<Rightarrow> Some v | Some p \<Rightarrow> if v > p then Some v else Some p) (insert v V)"
  by (cases a) (auto dest: bspec)

lemma tallies_Nil: "tallies [] {}"
  by (simp add: tallies_def)

lemma tallies_bump: "tallies m S \<Longrightarrow> tallies (bump n v m) (insert (n, v) S)"
proof -
  assume m: "tallies m S"
  have "best (js_get (bump n v m) k) {w. (k, w) \<in> insert (n, v) S}" for k
  proof (cases "k = n")
    case True
    then have "{w. (k, w) \<in> insert (n, v) S} = insert v {w. (n, w) \<in> S}" by auto
    moreover have "js_get (bump n v m) k = (case js_get m n of None \<Rightarrow> Some v | Some p \<Rightarrow> if v > p then Some v else Some p)"
      using True by (simp add: bump_def split: option.split)
    ultimately show ?thesis using m best_insert unfolding tallies_def by simp
  next
    case False
    then have "{w. (k, w) \<in> insert (n, v) S} = {w. (k, w) \<in> S}" by auto
    moreover have "js_get (bump n v m) k = js_get m k" using False by (simp add: bump_def split: option.split)
    ultimately show ?thesis using m unfolding tallies_def by simp
  qed
  then show ?thesis by (simp add: tallies_def)
qed

lemma tallies_unique: "tallies m S \<Longrightarrow> tallies m' S \<Longrightarrow> js_get m n = js_get m' n"
  unfolding tallies_def using best_unique by blast

lemma combine_cong: "(\<And>n. js_get m n = js_get m' n) \<Longrightarrow> combine m = combine m'"
proof -
  assume eq: "\<And>n. js_get m n = js_get m' n"
  then have "m = [] \<longleftrightarrow> m' = []" by (cases m; cases m') (auto, (metis option.simps(3))+)
  then show ?thesis by (simp add: combine_def eq Let_def)
qed

text \<open>What is read in a text: the matches, those that touch the end only when nothing can follow.\<close>

definition read_counters :: "bool \<Rightarrow> bool \<Rightarrow> bytes \<Rightarrow> (bytes \<times> nat) set" where
  "read_counters was_cut at_end s =
     {x. \<exists>i r. match_at counter_match s i = Some (x, r) \<and> \<not> (was_cut \<and> i = 0) \<and> (at_end \<or> r \<noteq> [])}"

lemma counter_matches: "(p, x, r) \<in> set (matches counter_match s) \<longleftrightarrow> match_at counter_match s p = Some (x, r)"
proof
  assume "match_at counter_match s p = Some (x, r)"
  moreover then have "p < length s" using counters.match_bound by blast
  ultimately show "(p, x, r) \<in> set (matches counter_match s)"
    using match_all_complete[where f = counter_match and i = p and s = s and pos = 0 and skip = 0 and prev = None, OF counters_apart]
    by (simp add: match_at_def)
next
  assume "(p, x, r) \<in> set (matches counter_match s)"
  then show "match_at counter_match s p = Some (x, r)" using matches_sound[of p x r counter_match s] by simp
qed

lemma absorb_tallies: "tallies m S \<Longrightarrow> tallies (absorb was_cut s at_end m) (S \<union> read_counters was_cut at_end s)"
proof -
  let ?F = "\<lambda>(pos, (name, v), rest) m. if (was_cut \<and> pos = 0) \<or> (\<not> at_end \<and> rest = []) then m else bump name v m"
  have fold: "tallies (fold ?F l m)
      (S \<union> {x. \<exists>p r. (p, x, r) \<in> set l \<and> \<not> (was_cut \<and> p = 0) \<and> (at_end \<or> r \<noteq> [])})" if "tallies m S" for l m S
    using that
  proof (induction l arbitrary: m S)
    case (Cons e l)
    obtain p n v r where e: "e = (p, (n, v), r)" by (cases e) auto
    have loop: "fold ?F (e # l) m = fold ?F l (?F e m)" by simp
    let ?rest = "{x. \<exists>p r. (p, x, r) \<in> set l \<and> \<not> (was_cut \<and> p = 0) \<and> (at_end \<or> r \<noteq> [])}"
    show ?case
    proof (cases "(was_cut \<and> p = 0) \<or> (\<not> at_end \<and> r = [])")
      case True
      then have "{x. \<exists>p r. (p, x, r) \<in> set (e # l) \<and> \<not> (was_cut \<and> p = 0) \<and> (at_end \<or> r \<noteq> [])} = ?rest"
        using e by auto
      moreover have "?F e m = m" using e True by simp
      ultimately show ?thesis unfolding loop using Cons.IH[OF Cons.prems] by (simp only:)
    next
      case False
      then have "S \<union> {x. \<exists>p r. (p, x, r) \<in> set (e # l) \<and> \<not> (was_cut \<and> p = 0) \<and> (at_end \<or> r \<noteq> [])} =
          insert (n, v) S \<union> ?rest"
        using e False by auto
      moreover have "?F e m = bump n v m" using False by (auto simp: e)
      ultimately show ?thesis unfolding loop using Cons.IH[OF tallies_bump[OF Cons.prems]] by (simp only:)
    qed
  qed simp
  assume "tallies m S"
  from fold[OF this] show ?thesis unfolding absorb_def read_counters_def counter_matches[symmetric] .
qed

text \<open>A text read in two parts: what the first part had decided, and what its end and the rest show.\<close>

lemma read_counters_window:
  assumes "short_matches (TAIL_CHARS - 1) counter_match (t @ c @ u)" "u = [] \<or> \<not> at_end"
    and d: "d = length t - TAIL_CHARS"
  shows "read_counters False False t \<union> read_counters (0 < d) at_end (drop d (t @ c)) = read_counters False at_end (t @ c)"
proof -
  have step: "x \<in> read_counters False at_end (t @ c)" if x: "x \<in> read_counters False False t" for x
  proof -
    obtain i r where m: "match_at counter_match t i = Some (x, r)" "r \<noteq> []"
      using x by (auto simp: read_counters_def)
    then have "match_at counter_match (t @ c) i = Some (x, r @ c)"
      using counters.match_extend counters.match_bound by blast
    then show ?thesis using m(2) by (auto simp: read_counters_def)
  qed
  have tail: "match_at counter_match (drop d (t @ c)) i = match_at counter_match (t @ c) (d + i)" if "0 < i \<or> d = 0" for i
    using that d by (intro match_at_drop) auto
  have new: "x \<in> read_counters False at_end (t @ c)" if x: "x \<in> read_counters (0 < d) at_end (drop d (t @ c))" for x
  proof -
    obtain i r where m: "match_at counter_match (drop d (t @ c)) i = Some (x, r)" "0 < i \<or> d = 0" "at_end \<or> r \<noteq> []"
      using x by (auto simp: read_counters_def)
    then have "match_at counter_match (t @ c) (d + i) = Some (x, r)" using tail by simp
    then show ?thesis using m(3) by (auto simp: read_counters_def)
  qed
  have old: "x \<in> read_counters False False t \<or> x \<in> read_counters (0 < d) at_end (drop d (t @ c))"
    if x: "x \<in> read_counters False at_end (t @ c)" for x
  proof -
    obtain i r where m: "match_at counter_match (t @ c) i = Some (x, r)" "at_end \<or> r \<noteq> []"
      using x by (auto simp: read_counters_def)
    have "length (t @ c) \<le> i + (TAIL_CHARS - 1) + length r"
    proof (cases "r = []")
      case True
      then have "short_matches (TAIL_CHARS - 1) counter_match (t @ c)" "u = []" using m(2) assms(1,2) by simp_all
      then show ?thesis using counters.short_at[OF _ m(1)] by blast
    next
      case False
      then show ?thesis using counters.short_match[of _ "t @ c" u, OF _ m(1)] assms(1) by simp
    qed
    then have "d = 0 \<or> d < i \<or> (\<exists>r'. r = r' @ c \<and> r' \<noteq> [] \<and> match_at counter_match t i = Some (x, r'))"
      using counters.match_window[OF m(1), of "TAIL_CHARS - 1" TAIL_CHARS] d by (simp add: TAIL_CHARS_def)
    then show ?thesis
    proof (elim disjE)
      assume "d < i"
      then have "match_at counter_match (drop d (t @ c)) (i - d) = Some (x, r)" using tail[of "i - d"] m(1) by simp
      then show ?thesis using m(2) \<open>d < i\<close> unfolding read_counters_def by fastforce
    qed (use m tail in \<open>auto simp: read_counters_def\<close>)
  qed
  show ?thesis using step new old by blast
qed

lemma first_model:
  "match_at model_match s q = Some (m, r) \<Longrightarrow> (\<And>j. j < q \<Longrightarrow> match_at model_match s j = None) \<Longrightarrow> findModel False s = Some m"
  using matches_first[of q s model_match m r] models.match_bound[of s q m r] by (fastforce simp: findModel_def)

lemma first_match:
  "match_at f s q \<noteq> None \<Longrightarrow> \<exists>q m r. match_at f s q = Some (m, r) \<and> (\<forall>j < q. match_at f s j = None)"
proof -
  assume "match_at f s q \<noteq> None"
  then obtain k where "match_at f s k \<noteq> None" "\<forall>j < k. match_at f s j = None"
    using exists_least_iff[of "\<lambda>k. match_at f s k \<noteq> None"] by blast
  then show ?thesis by auto
qed

lemma no_model: "findModel False s = None \<longleftrightarrow> (\<forall>j. match_at model_match s j = None)"
proof
  show "\<forall>j. match_at model_match s j = None" if none: "findModel False s = None"
    using first_match[of model_match s] first_model[of s] none by (metis option.distinct(1))
  show "findModel False s = None" if none: "\<forall>j. match_at model_match s j = None"
  proof -
    have "matches model_match s = []"
    proof (rule ccontr)
      assume "matches model_match s \<noteq> []"
      then obtain p x r where "(p, x, r) \<in> set (matches model_match s)" by (metis list.set_sel(1) prod_cases3)
      then show False using matches_sound[of p x r model_match s] none by simp
    qed
    then show ?thesis by (simp add: findModel_def)
  qed
qed

text \<open>A model that was read stays the first one.\<close>

lemma findModel_keeps:
  assumes "findModel False t = Some m"
  shows "findModel False (t @ c) = Some m"
proof -
  obtain q where "match_at model_match t q \<noteq> None" using no_model[of t] assms by auto
  then obtain q m' r where q: "match_at model_match t q = Some (m', r)" "\<forall>j < q. match_at model_match t j = None"
    using first_match by blast
  then have m: "m' = m" using first_model[of t q m' r] assms by simp
  have qc: "match_at model_match (t @ c) q = Some (m', r @ c)"
    using q(1) models.match_extend[where i = q and t = t and r = r and c = c and x = m'] models.match_bound[OF q(1)] by simp
  have "match_at model_match (t @ c) j = None" if j: "j < q" for j
  proof (rule ccontr)
    assume "match_at model_match (t @ c) j \<noteq> None"
    then obtain y s where y: "match_at model_match (t @ c) j = Some (y, s)" by auto
    show False
    proof (cases "length c \<le> length s")
      case True
      then obtain s' where "s = s' @ c" "j < length t" using models.match_split[OF y] by blast
      then have "match_at model_match t j = Some (y, s')"
        using models.match_extend[where i = j and t = t and r = s' and c = c and x = y] y by simp
      then show False using q(2) j by simp
    next
      case False
      have "length (r @ c) < length s"
      proof (rule models_nested)
        show "model_match (prev_char None (t @ c) j) (drop j (t @ c)) = Some (y, s)" using y by (simp add: match_at_def)
        show "0 < q - j" "q - j < length (drop j (t @ c)) - length s"
          using j False models.match_bound[OF q(1)] by auto
        show "model_match None (drop (q - j) (drop j (t @ c))) = Some (m', r @ c)"
          using models.behind[OF qc[unfolded match_at_def]] j by (simp del: drop_append)
      qed
      then show False using False by simp
    qed
  qed
  then show ?thesis using first_model[OF qc] m by simp
qed

text \<open>
  The first match of a window counts unless it is the one at the start of the window; if that one is
  passed over, and is short, what follows is found.
\<close>

lemma findModel_skips:
  assumes "match_at model_match s q = Some (m, r)" "\<And>j. 0 < j \<Longrightarrow> j < q \<Longrightarrow> match_at model_match s j = None"
    and "was_cut \<Longrightarrow> 0 < q" "\<not> was_cut \<Longrightarrow> match_at model_match s 0 = None \<or> q = 0"
    and short: "\<And>y z. model_match None s = Some (y, z) \<Longrightarrow> was_cut \<Longrightarrow> length s \<le> q + length z"
  shows "findModel was_cut s = Some m"
proof (cases "match_at model_match s 0 = None \<or> q = 0")
  case True
  then have "match_at model_match s j = None" if "j < q" for j using assms(2)[OF _ that] that by (cases "j = 0") auto
  then obtain l where "matches model_match s = (q, m, r) # l"
    using matches_first[OF conjunct1[OF models.match_bound[OF assms(1)]] assms(1)] by blast
  then show ?thesis using assms(3) by (auto simp: findModel_def)
next
  case False
  then obtain y z where y: "model_match None s = Some (y, z)" and cut_off: was_cut
    using assms(4) by (cases was_cut) (auto simp: match_at_def)
  have q: "0 < q" "q < length s" using False models.match_bound[OF assms(1)] by auto
  then obtain b rest where s: "s = b # rest" by (cases s) auto
  have skip: "length rest - length z \<le> q - 1" using short[OF y cut_off] s by simp
  have prev: "prev_char (Some b) rest j = prev_char None s (Suc j)" "drop j rest = drop (Suc j) s" for j
    unfolding s by simp_all
  have "\<exists>l. match_all model_match (length rest - length z) (Suc 0) (Some b) rest = (Suc 0 + (q - 1), m, r) # l"
  proof (rule match_all_first[OF _ skip])
    show "q - 1 < length rest" using q unfolding s by simp
    show "model_match (prev_char (Some b) rest (q - 1)) (drop (q - 1) rest) = Some (m, r)"
      using assms(1) q unfolding prev match_at_def by simp
    show "model_match (prev_char (Some b) rest j) (drop j rest) = None" if "j < q - 1" for j
      using assms(2)[of "Suc j"] that unfolding prev match_at_def by simp
  qed
  moreover have "matches model_match s = (0, y, z) # match_all model_match (length rest - length z) (Suc 0) (Some b) rest"
    using y unfolding s by simp
  ultimately show ?thesis using cut_off by (auto simp: findModel_def)
qed

lemma findModel_window:
  assumes short: "short_matches 127 model_match (t @ c @ u)" and d: "d = length t - TAIL_CHARS"
    and none: "findModel False t = None"
  shows "findModel False (t @ c) = findModel (0 < d) (drop d (t @ c))"
proof (cases "findModel False (t @ c)")
  let ?s = "drop d (t @ c)"
  have tail: "match_at model_match ?s i = match_at model_match (t @ c) (d + i)" if "0 < i \<or> d = 0" for i
    using that d by (intro match_at_drop) auto
  {
    case None
    have "[x \<leftarrow> matches model_match ?s. \<not> (0 < d \<and> fst x = 0)] = []"
    proof (rule ccontr)
      assume "\<not> ?thesis"
      then obtain p x r where "(p, x, r) \<in> set (matches model_match ?s)" "0 < p \<or> d = 0"
        by (auto simp: filter_empty_conv)
      then have "match_at model_match (t @ c) (d + p) = Some (x, r)"
        using matches_sound[of p x r model_match ?s] tail by simp
      then show False using None no_model by (metis option.distinct(1))
    qed
    then show ?thesis using None by (simp add: findModel_def)
  next
    case (Some m)
    then obtain q where "match_at model_match (t @ c) q \<noteq> None" using no_model[of "t @ c"] by auto
    then obtain q m' r where q: "match_at model_match (t @ c) q = Some (m', r)" "\<forall>j < q. match_at model_match (t @ c) j = None"
      using first_match by blast
    then have m: "m' = m" using first_model[of "t @ c" q m' r] Some by simp
    have ends: "length r < length c"
    proof (rule ccontr)
      assume "\<not> ?thesis"
      then obtain r' where "r = r' @ c" "q < length t" using models.match_split[OF q(1)] by auto
      then show False using models.match_extend[where i = q and t = t and r = r' and c = c and x = m'] q(1) none no_model by simp
    qed
    have "length (t @ c) \<le> q + 127 + length r"
      using models.short_match[of 127 "t @ c" u] short q(1) by simp
    then have dq: "d = 0 \<or> d + 128 < q" using ends d by (simp add: TAIL_CHARS_def) arith
    have "findModel (0 < d) ?s = Some m'"
    proof (rule findModel_skips)
      show "match_at model_match ?s (q - d) = Some (m', r)" using tail[of "q - d"] dq q(1) by fastforce
      show "match_at model_match ?s j = None" if "0 < j" "j < q - d" for j using tail[of j] that q(2) by simp
      show "0 < q - d" if "0 < d" using that dq by simp
      show "match_at model_match ?s 0 = None \<or> q - d = 0" if "\<not> 0 < d" using tail[of 0] that q(2) by auto
      show "length ?s \<le> q - d + length z" if y: "model_match None ?s = Some (y, z)" and pos: "0 < d" for y z
      proof -
        have "model_match None (drop d (t @ c @ u)) = Some (y, z @ u)"
          using models.decided[where r = z and prev = None and s = ?s and u = u and x = y] y pos d by simp
        moreover have "d < length (t @ c @ u)" using pos d by (simp add: TAIL_CHARS_def)
        ultimately have "length (t @ c @ u) \<le> d + 127 + length (z @ u)" by (rule models.short_unseen[OF short])
        then show ?thesis using dq pos by simp
      qed
    qed
    then show ?thesis using Some m by simp
  }
qed

section \<open>The scanner as a whole\<close>

text \<open>What a scanner that reads the whole body at once reports.\<close>

definition scan_body :: "bytes \<Rightarrow> scan_result" where
  "scan_body body = \<lparr>sr_model = findModel False body, sr_usage = combine (absorb False body True [])\<rparr>"

text \<open>
  The bodies on which the 256 characters that are carried over suffice: no counter, blanks and all,
  is longer than 255 characters, and no model entry than 127.
\<close>

definition scannable :: "bytes \<Rightarrow> bool" where
  "scannable body \<longleftrightarrow> short_matches (TAIL_CHARS - 1) counter_match body \<and> short_matches 127 model_match body"

definition scan_inv :: "bytes \<Rightarrow> usage_scanner \<Rightarrow> bool" where
  "scan_inv t sc \<longleftrightarrow>
     tallies (sc_counters sc) (read_counters False False t) \<and> sc_model sc = findModel False t \<and>
     sc_tail sc = drop (length t - TAIL_CHARS) t \<and> (sc_cut sc \<longleftrightarrow> TAIL_CHARS < length t)"

lemma scan_inv_new: "scan_inv [] new_scanner"
  by (auto simp: scan_inv_def new_scanner_def read_counters_def match_at_def findModel_def counter_match_iff
      tallies_Nil TAIL_CHARS_def intro: ext)

lemma scan_inv_slice:
  assumes inv: "scan_inv t sc" and ok: "scannable (t @ c @ u)"
  shows "scan_inv (t @ c) (feed_slice c sc)"
proof -
  let ?d = "length t - TAIL_CHARS"
  have window: "sc_tail sc @ c = drop ?d (t @ c)" and was: "sc_cut sc \<longleftrightarrow> 0 < ?d"
    using inv by (auto simp: scan_inv_def)
  have "tallies (absorb (0 < ?d) (drop ?d (t @ c)) False (sc_counters sc)) (read_counters False False (t @ c))"
    using absorb_tallies[of "sc_counters sc" "read_counters False False t" "0 < ?d" "drop ?d (t @ c)" False]
      read_counters_window[of t c u False ?d] inv ok by (simp add: scan_inv_def scannable_def)
  moreover have "(case sc_model sc of None \<Rightarrow> findModel (0 < ?d) (drop ?d (t @ c)) | Some m \<Rightarrow> Some m) = findModel False (t @ c)"
    using inv ok findModel_keeps findModel_window[of t c u ?d]
    by (cases "findModel False t") (auto simp: scan_inv_def scannable_def)
  moreover have "drop (length (drop ?d (t @ c)) - TAIL_CHARS) (drop ?d (t @ c)) = drop (length (t @ c) - TAIL_CHARS) (t @ c)"
    by (simp add: drop_drop del: drop_append) (rule arg_cong[where f = "\<lambda>n. drop n (t @ c)"], arith)
  moreover have "0 < ?d \<or> TAIL_CHARS < length (drop ?d (t @ c)) \<longleftrightarrow> TAIL_CHARS < length (t @ c)" by auto
  ultimately show ?thesis unfolding scan_inv_def feed_slice_def Let_def window was by simp
qed

lemma concat_slices: "concat (slices n s) = s"
  by (induction n s rule: slices.induct) (subst slices.simps, auto)

lemma scan_inv_slices:
  "scan_inv t sc \<Longrightarrow> scannable (t @ concat cs @ u) \<Longrightarrow> scan_inv (t @ concat cs) (fold feed_slice cs sc)"
proof (induction cs arbitrary: t sc)
  case (Cons c cs)
  have "scan_inv (t @ c) (feed_slice c sc)" using scan_inv_slice[OF Cons.prems(1), of c "concat cs @ u"] Cons.prems(2) by simp
  then show ?case using Cons.IH[of "t @ c"] Cons.prems(2) by simp
qed simp

lemma scan_inv_feed:
  "scan_inv t sc \<Longrightarrow> scannable (t @ c @ u) \<Longrightarrow> scan_inv (t @ c) (scanner_feed c sc)"
  using scan_inv_slices[of t sc "slices SLICE_BYTES c" u] by (simp add: scanner_feed_def concat_slices)

lemma scan_inv_result:
  assumes inv: "scan_inv t sc" and ok: "scannable t"
  shows "scanner_result sc = scan_body t"
proof -
  let ?d = "length t - TAIL_CHARS"
  have "tallies (absorb (0 < ?d) (drop ?d t) True (sc_counters sc)) (read_counters False True t)"
    using absorb_tallies[of "sc_counters sc" "read_counters False False t" "0 < ?d" "drop ?d t" True]
      read_counters_window[of t "[]" "[]" True ?d] inv ok by (simp add: scan_inv_def scannable_def)
  moreover have "tallies (absorb False t True []) (read_counters False True t)"
    using absorb_tallies[OF tallies_Nil, of False t True] by simp
  ultimately have "combine (absorb (0 < ?d) (drop ?d t) True (sc_counters sc)) = combine (absorb False t True [])"
    by (intro combine_cong) (rule tallies_unique)
  then show ?thesis using inv by (simp add: scanner_result_def scan_body_def scan_inv_def)
qed

text \<open>
  The interface of a scanner as the response tap uses it: how a body was cut does not show in the
  result, for the bodies that are \<open>ok\<close>.
\<close>

locale body_scanner =
  fixes new_sc :: 's
    and feed :: "bytes \<Rightarrow> 's \<Rightarrow> 's"
    and result :: "'s \<Rightarrow> 'r"
    and whole :: "bytes \<Rightarrow> 'r"
    and ok :: "bytes \<Rightarrow> bool"
  assumes cuts_do_not_show: "ok (concat cs) \<Longrightarrow> result (fold feed cs new_sc) = whole (concat cs)"

lemma scanner_reads:
  "scannable (concat cs) \<Longrightarrow> scanner_result (fold scanner_feed cs new_scanner) = scan_body (concat cs)"
proof -
  assume ok: "scannable (concat cs)"
  have "scan_inv t sc \<Longrightarrow> scannable (t @ concat cs) \<Longrightarrow> scan_inv (t @ concat cs) (fold scanner_feed cs sc)" for t sc
  proof (induction cs arbitrary: t sc)
    case (Cons c cs)
    have "scan_inv (t @ c) (scanner_feed c sc)" using scan_inv_feed[OF Cons.prems(1), of c "concat cs"] Cons.prems(2) by simp
    then show ?case using Cons.IH[of "t @ c"] Cons.prems(2) by simp
  qed simp
  from this[OF scan_inv_new] show ?thesis using ok scan_inv_result by simp
qed

interpretation us: body_scanner new_scanner scanner_feed scanner_result scan_body scannable
  by unfold_locales (rule scanner_reads)

text \<open>C26. How a response body is cut into pieces does not show in what the scanner reports, as long
  as no counter with its blanks is longer than 255 characters and no model entry than 127: it is the
  first model of the whole body and, for every counter name, the largest value at any place of it.\<close>

theorem scanner_reads_the_body:
  assumes "scannable (concat cs)"
  shows "scanner_result (fold scanner_feed cs new_scanner) = scan_body (concat cs) \<and>
    (\<exists>m. sr_usage (scan_body (concat cs)) = combine m \<and>
      (\<forall>n. best (js_get m n) {v. \<exists>i r. match_at counter_match (concat cs) i = Some ((n, v), r)}))"
proof -
  have "tallies (absorb False (concat cs) True []) (read_counters False True (concat cs))"
    using absorb_tallies[OF tallies_Nil, of False "concat cs" True] by simp
  then show ?thesis using us.cuts_do_not_show[OF assms]
    unfolding tallies_def read_counters_def scan_body_def by auto
qed

lemma slices_small: "s \<noteq> [] \<Longrightarrow> length s \<le> n \<Longrightarrow> slices n s = [s]"
  by (simp add: slices.simps[of n s] slices.simps[of n "[]"])

lemma scanner_feed_small: "s \<noteq> [] \<Longrightarrow> length s \<le> 65536 \<Longrightarrow> scanner_feed s sc = feed_slice s sc"
  by (simp add: scanner_feed_def SLICE_BYTES_def slices_small)

lemma scanner_reads_the_body_witness:
  "scanner_result (fold scanner_feed [''{\"output_to'', ''kens\": 12'', ''3}''] new_scanner) =
    \<lparr>sr_model = None, sr_usage = Some \<lparr>mu_inputTokens = 0, mu_outputTokens = 123, mu_cacheReadTokens = 0, mu_cacheWriteTokens = 0\<rparr>\<rparr>"
proof -
  let ?cs = "[''{\"output_to'', ''kens\": 12'', ''3}'']"
  have "scannable (concat ?cs)" by code_simp
  moreover have "scan_body (concat ?cs) = \<lparr>sr_model = None, sr_usage = Some
      \<lparr>mu_inputTokens = 0, mu_outputTokens = 123, mu_cacheReadTokens = 0, mu_cacheWriteTokens = 0\<rparr>\<rparr>" by code_simp
  ultimately show ?thesis using scanner_reads_the_body[of ?cs] by metis
qed

text \<open>Evaluation on a text with few quotes.\<close>

lemma no_counter: "s = [] \<or> hd s \<noteq> QUOTE \<or> \<not> key_break prev \<Longrightarrow> counter_match prev s = None"
proof (cases "counter_match prev s")
  case (Some y)
  then show "s = [] \<or> hd s \<noteq> QUOTE \<or> \<not> key_break prev \<Longrightarrow> ?thesis"
    by (cases y) (auto simp: counter_match_iff)
qed

lemma match_all_plain:
  "QUOTE \<notin> set a \<Longrightarrow> match_all counter_match 0 pos prev (a @ s) =
    match_all counter_match 0 (pos + length a) (if a = [] then prev else Some (last a)) s"
  by (induction a arbitrary: pos prev) (auto simp: no_counter)

lemma match_all_skip:
  "match_all f (length a) pos prev (a @ s) = match_all f 0 (pos + length a) (if a = [] then prev else Some (last a)) s"
  by (induction a arbitrary: pos prev) auto

definition padded_counter :: bytes where
  "padded_counter = ''\"output_tokens\":'' @ replicate 256 (CHR '' '')"

lemma padded_counter_split: "padded_counter @ s = QUOTE # ''output_tokens'' @ QUOTE # [] @ CHR '':'' # replicate 256 (CHR '' '') @ s"
  by (simp add: padded_counter_def)

lemma blanks: "list_all json_blank (replicate n (CHR '' ''))" "QUOTE \<notin> set (replicate n (CHR '' ''))"
  by (simp_all add: list_all_iff json_blank_def is_blank_def)

lemma output_tokens_name: "''output_tokens'' \<in> set COUNTER_NAMES"
  by (simp add: COUNTER_NAMES_def)

lemma matches_padded:
  "matches counter_match (padded_counter @ ''7,'') = [(0, (''output_tokens'', 7), '','')]"
  "matches counter_match padded_counter = []"
proof -
  let ?b = "replicate 256 (CHR '' '')"
  have "counter_match None (padded_counter @ ''7,'') = Some ((''output_tokens'', 7), '','')"
    unfolding counter_match_iff padded_counter_split
    by (intro conjI exI[of _ "''output_tokens''"] exI[of _ "[]"] exI[of _ ?b] exI[of _ "''7''"])
      (simp_all add: key_break_def counter_shape_def output_tokens_name blanks is_digit_def radix_value_def hex_value_def CLAMP_def)
  moreover have "padded_counter @ ''7,'' = QUOTE # (''output_tokens\":'' @ ?b @ ''7'') @ '',''"
    by (simp add: padded_counter_def)
  moreover have "length ((''output_tokens\":'' @ ?b @ ''7'') @ '','') - length '','' = length (''output_tokens\":'' @ ?b @ ''7'')"
    by simp
  ultimately show "matches counter_match (padded_counter @ ''7,'') = [(0, (''output_tokens'', 7), '','')]"
    using match_all_skip[of counter_match "''output_tokens\":'' @ ?b @ ''7''" 1 "Some QUOTE" "'',''"] no_counter[of "'',''"]
    by (simp only: match_all.simps) (simp add: no_counter)
  have none: "counter_match None padded_counter = None"
  proof (rule ccontr)
    assume "counter_match None padded_counter \<noteq> None"
    then obtain x r where "counter_match None padded_counter = Some (x, r)" by auto
    then obtain name w1 w2 ds where s: "padded_counter = QUOTE # name @ QUOTE # w1 @ CHR '':'' # w2 @ ds @ r" and sh: "counter_shape name w1 w2 ds r"
      unfolding counter_match_iff by blast
    obtain c where c: "c \<in> set ds" "is_digit c" using sh by (cases ds) (auto simp: counter_shape_def)
    then have "c \<in> set padded_counter" unfolding s by simp
    then show False using c(2) by (auto simp: padded_counter_def is_digit_def)
  qed
  have word: "\<not> key_break (Some (CHR ''s''))" by (simp add: key_break_def is_word_def is_alnum_def is_lower_def)
  have rest: "match_all counter_match 0 pos prev ?b = []" for pos prev
    using match_all_plain[of ?b pos prev "[]"] blanks(2)[of 256] by simp
  have split: "padded_counter = QUOTE # (''output_tokens'' @ QUOTE # ('':'' @ ?b) @ [])" by (simp add: padded_counter_def)
  have later: "match_all counter_match 0 (Suc 0) (Some QUOTE) (''output_tokens'' @ QUOTE # ('':'' @ ?b) @ []) = []"
    by (simp add: no_counter word rest)
  have first: "matches counter_match (c # cs) = match_all counter_match 0 (Suc 0) (Some c) cs" if "counter_match None (c # cs) = None" for c cs
    using that by simp
  show "matches counter_match padded_counter = []"
    unfolding split using first[OF none[unfolded split]] later by (simp only:)
qed

text \<open>A counter with 256 blanks after its colon is found in a body that comes in one piece and lost in
  one that is cut before the number: the scanner keeps only 256 characters, so how the body was cut
  does show.\<close>

theorem padded_counter_depends_on_the_cut:
  "map_option mu_outputTokens (sr_usage (scanner_result (fold scanner_feed [padded_counter @ ''7,''] new_scanner))) = Some 7 \<and>
   sr_usage (scanner_result (fold scanner_feed [padded_counter, ''7,''] new_scanner)) = None"
proof -
  let ?b = "replicate 256 (CHR '' '')"
  have len: "length padded_counter = 272" by (simp add: padded_counter_def)
  then have "padded_counter \<noteq> []" by auto
  then have feeds: "scanner_feed padded_counter sc = feed_slice padded_counter sc"
    "scanner_feed (padded_counter @ ''7,'') sc = feed_slice (padded_counter @ ''7,'') sc"
    "scanner_feed ''7,'' sc = feed_slice ''7,'' sc" for sc
    using len by (simp_all add: scanner_feed_small)
  have drops: "drop 18 padded_counter = replicate 254 (CHR '' '')" "drop 16 padded_counter = ?b"
    by (simp_all add: padded_counter_def numeral_eq_Suc)
  have plain: "matches counter_match (replicate n (CHR '' '') @ ''7,'') = []" "matches counter_match (replicate n (CHR '' '')) = []" for n
    using match_all_plain[of "replicate n (CHR '' '') @ ''7,''" 0 None "[]"] match_all_plain[of "replicate n (CHR '' '')" 0 None "[]"]
      blanks(2)[of n] by simp_all
  show ?thesis
    unfolding fold.simps comp_def id_def feeds
    by (simp add: scanner_result_def feed_slice_def Let_def new_scanner_def TAIL_CHARS_def absorb_def
        matches_padded drops plain len bump_def combine_def)
qed

end
