(* ===== verification/Response_Tap.thy ===== *)
theory Response_Tap
  imports Usage_Scan Private_Ip Request_Framer
begin

text \<open>
  The passive tap on the responses of one tunnel, after
  \<^verbatim>\<open>packages/credential-proxy/src/response-tap.ts\<close>. The scanner and the listener are
  arguments: the tap is run with the usage scanner, and compared with a run whose scanner keeps the
  body. Byte positions of a buffer become the rest of the buffer; the parts of a head that were
  buffered are kept joined; \<^verbatim>\<open>lineReady\<close> is set and read inside one call, so it is part of
  what \<open>takeLine\<close> returns. Nothing the tap calls throws in the model.
\<close>

section \<open>State\<close>

record ('s, 'r) scanner_ops =
  so_new :: 's
  so_feed :: "bytes \<Rightarrow> 's \<Rightarrow> 's"
  so_result :: "'s \<Rightarrow> 'r"

text \<open>\<^verbatim>\<open>usage\<close> and \<^verbatim>\<open>model\<close> of a response are what its scanner reports;
  \<open>None\<close> is a response without a scanner.\<close>

record 'r tap_response =
  tr_status :: nat
  tr_complete :: bool
  tr_encoded :: bool
  tr_scanned :: "'r option"

record response_meta =
  rm_bodyBytes :: nat
  rm_streamed :: bool

record ('r, 'q) tap_client =
  tc_peek :: "'q \<Rightarrow> bytes option"
  tc_onResponse :: "'r tap_response \<Rightarrow> response_meta \<Rightarrow> 'q \<Rightarrow> 'q"

definition MAX_HEAD_BYTES :: nat where
  "MAX_HEAD_BYTES = 64 * 1024"

definition MAX_LINE_CHARS :: nat where
  "MAX_LINE_CHARS = 8 * 1024"

definition MAX_TRAILER_BYTES :: nat where
  "MAX_TRAILER_BYTES = 64 * 1024"

definition MAX_CHUNK_HEX_DIGITS :: nat where
  "MAX_CHUNK_HEX_DIGITS = 12"

abbreviation CR :: char where
  "CR \<equiv> CHR 0x0D"

abbreviation LF :: char where
  "LF \<equiv> CHR 0x0A"

datatype tap_state = THead | TBodyLength | TBodyClose | TChunkSize | TChunkData | TChunkCrlf | TTrailer | TDead

record 's tap =
  tp_state :: tap_state
  tp_head :: bytes
  tp_crlfMatch :: nat
  tp_status :: nat
  tp_encoded :: bool
  tp_streamed :: bool
  tp_bodyBytes :: nat
  tp_scanner :: "'s option"
  tp_remaining :: nat
  tp_line :: bytes
  tp_trailerBytes :: nat
  tp_crlfSeen :: nat

text \<open>\<^verbatim>\<open>resetResponse\<close> and \<^verbatim>\<open>kill\<close>.\<close>

definition new_tap :: "'s tap" where
  "new_tap =
     \<lparr>tp_state = THead, tp_head = [], tp_crlfMatch = 0, tp_status = 0, tp_encoded = False, tp_streamed = False,
      tp_bodyBytes = 0, tp_scanner = None, tp_remaining = 0, tp_line = [], tp_trailerBytes = 0, tp_crlfSeen = 0\<rparr>"

definition dead_tap :: "'s tap" where
  "dead_tap = new_tap\<lparr>tp_state := TDead\<rparr>"

section \<open>Framing headers\<close>

record tap_framing =
  tf_contentLength :: "nat option"
  tf_chunked :: bool
  tf_encoded :: bool
  tf_streamed :: bool

text \<open>\<^verbatim>\<open>/^HTTP\/1\.\d (\d{3})(?: .*)?$/\<close>; zero when it does not match.\<close>

definition status_line :: "bytes \<Rightarrow> nat" where
  "status_line s =
     (let code = take 3 (drop 9 s); rest = drop 12 s in
      if take 7 s = ''HTTP/1.'' \<and> length s \<ge> 12 \<and> is_digit (s ! 7) \<and> s ! 8 = CHR '' '' \<and> list_all is_digit code \<and>
         (rest = [] \<or> hd rest = CHR '' '' \<and> CR \<notin> set rest \<and> LF \<notin> set rest)
      then radix_value 10 code else 0)"

definition header_name_char :: "char \<Rightarrow> bool" where
  "header_name_char c \<longleftrightarrow> is_alnum c \<or> c \<in> set ''!#$%&*+.^_`|~-'' \<or> c = CHR 0x27"

definition trim_blanks :: "bytes \<Rightarrow> bytes" where
  "trim_blanks s = rev (dropWhile is_blank (rev (dropWhile is_blank s)))"

definition pushTokens :: "bytes list \<Rightarrow> bytes \<Rightarrow> bytes list" where
  "pushTokens toks value = toks @ [t \<leftarrow> List.map (lower \<circ> trim) (split_text '','' value). t \<noteq> []]"

text \<open>One header line: the framing so far, the transfer codings and the content codings.\<close>

type_synonym header_state = "nat option \<times> bytes list \<times> bytes list \<times> bool"

definition header_line :: "bytes \<Rightarrow> header_state \<Rightarrow> header_state option" where
  "header_line line st =
     (case (index_of (CHR '':'') line, st) of
        (None, _) \<Rightarrow> None
      | (Some colon, contentLength, transferCodings, contentCodings, streamed) \<Rightarrow>
          let name = take colon line; value = trim_blanks (drop (Suc colon) line) in
          if colon = 0 \<or> \<not> list_all header_name_char name then None
          else if lower name = ''content-length'' then
            (if 1 \<le> length value \<and> length value \<le> 15 \<and> list_all is_digit value \<and>
                (contentLength = None \<or> contentLength = Some (radix_value 10 value))
             then Some (Some (radix_value 10 value), transferCodings, contentCodings, streamed) else None)
          else if lower name = ''transfer-encoding'' then
            Some (contentLength, pushTokens transferCodings value, contentCodings, streamed)
          else if lower name = ''content-encoding'' then
            Some (contentLength, transferCodings, pushTokens contentCodings value, streamed)
          else if lower name = ''content-type'' then
            Some (contentLength, transferCodings, contentCodings, prefix ''text/event-stream'' (lower value))
          else Some st)"

fun header_lines :: "bytes list \<Rightarrow> header_state \<Rightarrow> header_state option" where
  "header_lines [] st = Some st"
| "header_lines (line # ls) st = (case header_line line st of None \<Rightarrow> None | Some st \<Rightarrow> header_lines ls st)"

definition parseFraming :: "bytes list \<Rightarrow> tap_framing option" where
  "parseFraming lines =
     (case header_lines (tl lines) (None, [], [], False) of
        None \<Rightarrow> None
      | Some (contentLength, transferCodings, contentCodings, streamed) \<Rightarrow>
          let encoded = list_ex (\<lambda>t. t \<noteq> ''identity'') contentCodings in
          if transferCodings = [] then
            Some \<lparr>tf_contentLength = contentLength, tf_chunked = False, tf_encoded = encoded, tf_streamed = streamed\<rparr>
          else if last transferCodings \<noteq> ''chunked'' then None
          else if ''chunked'' \<in> set (butlast transferCodings) then None
          else Some \<lparr>tf_contentLength = None, tf_chunked = True,
                 tf_encoded = (encoded \<or> list_ex (\<lambda>t. t \<noteq> ''identity'') (butlast transferCodings)), tf_streamed = streamed\<rparr>)"

definition parseChunkSize :: "bytes \<Rightarrow> nat option" where
  "parseChunkSize line =
     (let hex = rev (dropWhile is_blank (rev (takeWhile (\<lambda>c. c \<noteq> CHR '';'') line)));
          stripped = dropWhile (\<lambda>c. c = CHR ''0'') hex;
          significant = (if stripped = [] then ''0'' else stripped)
      in if hex = [] \<or> \<not> list_all is_hex_any hex then None
         else if length significant > MAX_CHUNK_HEX_DIGITS then None
         else Some (radix_value 16 significant))"

section \<open>Reports\<close>

definition tap_snapshot :: "('s, 'r) scanner_ops \<Rightarrow> bool \<Rightarrow> 's tap \<Rightarrow> 'r tap_response" where
  "tap_snapshot ops done_all t =
     \<lparr>tr_status = tp_status t, tr_complete = done_all, tr_encoded = tp_encoded t,
      tr_scanned = map_option (so_result ops) (tp_scanner t)\<rparr>"

definition tap_meta :: "'s tap \<Rightarrow> response_meta" where
  "tap_meta t = \<lparr>rm_bodyBytes = tp_bodyBytes t, rm_streamed = tp_streamed t\<rparr>"

definition tap_finish :: "('s, 'r) scanner_ops \<Rightarrow> ('r, 'q) tap_client \<Rightarrow> bool \<Rightarrow> 's tap \<Rightarrow> 'q \<Rightarrow> 's tap \<times> 'q" where
  "tap_finish ops cl done_all t q = (new_tap, tc_onResponse cl (tap_snapshot ops done_all t) (tap_meta t) q)"

definition tap_lose :: "('s, 'r) scanner_ops \<Rightarrow> ('r, 'q) tap_client \<Rightarrow> 's tap \<Rightarrow> 'q \<Rightarrow> 's tap \<times> 'q" where
  "tap_lose ops cl t q =
     (if tp_state t = TDead then (t, q)
      else (dead_tap, tc_onResponse cl ((tap_snapshot ops False t)\<lparr>tr_encoded := False\<rparr>) (tap_meta t) q))"

definition tap_scan :: "('s, 'r) scanner_ops \<Rightarrow> bytes \<Rightarrow> 's tap \<Rightarrow> 's tap" where
  "tap_scan ops piece t =
     (if piece = [] then t
      else t\<lparr>tp_bodyBytes := tp_bodyBytes t + length piece, tp_scanner := map_option (so_feed ops piece) (tp_scanner t)\<rparr>)"

definition peekIsHead :: "('r, 'q) tap_client \<Rightarrow> 'q \<Rightarrow> bool" where
  "peekIsHead cl q = (case tc_peek cl q of None \<Rightarrow> False | Some m \<Rightarrow> lower m = ''head'')"

section \<open>The state machine\<close>

text \<open>The end of \<^verbatim>\<open>onHead\<close>: what state the framing of a final head leads to.\<close>

definition startBody :: "('s, 'r) scanner_ops \<Rightarrow> ('r, 'q) tap_client \<Rightarrow> tap_framing \<Rightarrow> 's tap \<Rightarrow> 'q \<Rightarrow> 's tap \<times> 'q" where
  "startBody ops cl f t q =
     (let t = t\<lparr>tp_encoded := tf_encoded f, tp_streamed := tf_streamed f\<rparr> in
      if peekIsHead cl q \<or> tp_status t = 204 \<or> tp_status t = 304 then tap_finish ops cl True t q
      else let t = (if tf_encoded f then t else t\<lparr>tp_scanner := Some (so_new ops)\<rparr>) in
        if tf_chunked f then (t\<lparr>tp_state := TChunkSize, tp_line := []\<rparr>, q)
        else (case tf_contentLength f of
          Some n \<Rightarrow>
            if n = 0 then tap_finish ops cl True t q
            else (t\<lparr>tp_state := TBodyLength, tp_remaining := n\<rparr>, q)
        | None \<Rightarrow> (t\<lparr>tp_state := TBodyClose\<rparr>, q)))"

definition onHead :: "('s, 'r) scanner_ops \<Rightarrow> ('r, 'q) tap_client \<Rightarrow> bytes \<Rightarrow> 's tap \<Rightarrow> 'q \<Rightarrow> 's tap \<times> 'q" where
  "onHead ops cl head t q =
     (let lines = crlf_lines (take (length head - 4) head); status = status_line (hd lines) in
      if status < 100 then tap_lose ops cl t q
      else if status \<le> 199 \<and> status \<noteq> 101 then (t, q)
      else let t = t\<lparr>tp_status := status\<rparr> in
        if status = 101 then
          (dead_tap, tc_onResponse cl \<lparr>tr_status = status, tr_complete = False, tr_encoded = False, tr_scanned = None\<rparr>
             \<lparr>rm_bodyBytes = 0, rm_streamed = False\<rparr> q)
        else if list_ex (\<lambda>l. CR \<in> set l \<or> LF \<in> set l) lines then tap_lose ops cl t q
        else (case parseFraming lines of
          None \<Rightarrow> tap_lose ops cl t q
        | Some f \<Rightarrow> startBody ops cl f t q))"

text \<open>The loop of \<^verbatim>\<open>readHead\<close>: \<open>m\<close> bytes of the terminator were just read.\<close>

datatype head_scan = HeadTooLong | HeadMore bytes nat | HeadFound bytes bytes

definition next_match :: "char \<Rightarrow> nat \<Rightarrow> nat" where
  "next_match b m =
     (if b = CR then (if m = 2 then 3 else 1)
      else if b = LF then (if m = 1 then 2 else if m = 3 then 4 else 0) else 0)"

fun scan_head :: "bytes \<Rightarrow> nat \<Rightarrow> bytes \<Rightarrow> head_scan" where
  "scan_head acc m [] = HeadMore acc m"
| "scan_head acc m (b # bs) =
     (if length acc + 1 > MAX_HEAD_BYTES then HeadTooLong
      else if next_match b m = 4 then HeadFound (acc @ [b]) bs
      else scan_head (acc @ [b]) (next_match b m) bs)"

definition readHead ::
    "('s, 'r) scanner_ops \<Rightarrow> ('r, 'q) tap_client \<Rightarrow> 's tap \<Rightarrow> 'q \<Rightarrow> bytes \<Rightarrow> ('s tap \<times> 'q) \<times> bytes" where
  "readHead ops cl t q buf =
     (case scan_head (tp_head t) (tp_crlfMatch t) buf of
        HeadTooLong \<Rightarrow> (tap_lose ops cl t q, [])
      | HeadMore h m \<Rightarrow> ((t\<lparr>tp_head := h, tp_crlfMatch := m\<rparr>, q), [])
      | HeadFound h rest \<Rightarrow> (onHead ops cl h (t\<lparr>tp_head := [], tp_crlfMatch := 0\<rparr>) q, rest))"

datatype line_read = LineBad | LineMore bytes | LineDone bytes bytes

definition takeLine :: "bytes \<Rightarrow> bytes \<Rightarrow> line_read" where
  "takeLine line buf =
     (let part = (case index_of LF buf of None \<Rightarrow> buf | Some nl \<Rightarrow> take nl buf); line' = line @ part in
      if length line' > MAX_LINE_CHARS then LineBad
      else (case index_of LF buf of
          None \<Rightarrow> LineMore line'
        | Some nl \<Rightarrow>
            if line' = [] \<or> last line' \<noteq> CR then LineBad else LineDone (butlast line') (drop (Suc nl) buf)))"

definition readChunkSize ::
    "('s, 'r) scanner_ops \<Rightarrow> ('r, 'q) tap_client \<Rightarrow> 's tap \<Rightarrow> 'q \<Rightarrow> bytes \<Rightarrow> ('s tap \<times> 'q) \<times> bytes" where
  "readChunkSize ops cl t q buf =
     (case takeLine (tp_line t) buf of
        LineBad \<Rightarrow> (tap_lose ops cl t q, [])
      | LineMore l \<Rightarrow> ((t\<lparr>tp_line := l\<rparr>, q), [])
      | LineDone l rest \<Rightarrow>
          (case parseChunkSize l of
             None \<Rightarrow> (tap_lose ops cl (t\<lparr>tp_line := []\<rparr>) q, [])
           | Some n \<Rightarrow>
               if n = 0 then ((t\<lparr>tp_line := [], tp_state := TTrailer, tp_trailerBytes := 0\<rparr>, q), rest)
               else ((t\<lparr>tp_line := [], tp_state := TChunkData, tp_remaining := n\<rparr>, q), rest)))"

definition readChunkCrlf ::
    "('s, 'r) scanner_ops \<Rightarrow> ('r, 'q) tap_client \<Rightarrow> 's tap \<Rightarrow> 'q \<Rightarrow> bytes \<Rightarrow> ('s tap \<times> 'q) \<times> bytes" where
  "readChunkCrlf ops cl t q buf =
     (if tp_crlfSeen t = 0 then
        (if hd buf \<noteq> CR then (tap_lose ops cl t q, []) else ((t\<lparr>tp_crlfSeen := 1\<rparr>, q), tl buf))
      else if hd buf \<noteq> LF then (tap_lose ops cl t q, [])
      else ((t\<lparr>tp_state := TChunkSize, tp_line := []\<rparr>, q), tl buf))"

definition readTrailer ::
    "('s, 'r) scanner_ops \<Rightarrow> ('r, 'q) tap_client \<Rightarrow> 's tap \<Rightarrow> 'q \<Rightarrow> bytes \<Rightarrow> ('s tap \<times> 'q) \<times> bytes" where
  "readTrailer ops cl t q buf =
     (case takeLine (tp_line t) buf of
        LineBad \<Rightarrow> (tap_lose ops cl t q, [])
      | LineMore l \<Rightarrow> ((t\<lparr>tp_line := l\<rparr>, q), [])
      | LineDone l rest \<Rightarrow>
          let t = t\<lparr>tp_trailerBytes := tp_trailerBytes t + length l + 2, tp_line := []\<rparr> in
          if l = [] then (tap_finish ops cl True t q, rest)
          else if tp_trailerBytes t > MAX_TRAILER_BYTES then (tap_lose ops cl t q, [])
          else ((t, q), rest))"

text \<open>What the two length-counted states do with the buffer.\<close>

definition tap_take :: "('s, 'r) scanner_ops \<Rightarrow> bytes \<Rightarrow> 's tap \<Rightarrow> 's tap \<times> bytes" where
  "tap_take ops buf t =
     (let n = min (tp_remaining t) (length buf); t = tap_scan ops (take n buf) t in
      (t\<lparr>tp_remaining := tp_remaining t - n\<rparr>, drop n buf))"

text \<open>One turn of the loop of \<^verbatim>\<open>run\<close> on a non-empty rest of the buffer.\<close>

definition tap_turn ::
    "('s, 'r) scanner_ops \<Rightarrow> ('r, 'q) tap_client \<Rightarrow> 's tap \<Rightarrow> 'q \<Rightarrow> bytes \<Rightarrow> ('s tap \<times> 'q) \<times> bytes" where
  "tap_turn ops cl t q buf =
     (case tp_state t of
        THead \<Rightarrow> readHead ops cl t q buf
      | TBodyLength \<Rightarrow>
          (case tap_take ops buf t of
             (t, rest) \<Rightarrow> (if tp_remaining t = 0 then tap_finish ops cl True t q else (t, q), rest))
      | TBodyClose \<Rightarrow> ((tap_scan ops buf t, q), [])
      | TChunkSize \<Rightarrow> readChunkSize ops cl t q buf
      | TChunkData \<Rightarrow>
          (case tap_take ops buf t of
             (t, rest) \<Rightarrow> ((if tp_remaining t = 0 then t\<lparr>tp_state := TChunkCrlf, tp_crlfSeen := 0\<rparr> else t, q), rest))
      | TChunkCrlf \<Rightarrow> readChunkCrlf ops cl t q buf
      | TTrailer \<Rightarrow> readTrailer ops cl t q buf
      | TDead \<Rightarrow> ((t, q), []))"

definition turn_measure :: "'s tap \<Rightarrow> bytes \<Rightarrow> nat" where
  "turn_measure t buf = 2 * length buf + (if tp_state t \<in> {TBodyLength, TChunkData} then 1 else 0)"

lemma scan_head_rest: "scan_head acc m buf = HeadFound h rest \<Longrightarrow> length rest < length buf"
  by (induction acc m buf rule: scan_head.induct) (auto split: if_splits)

lemma takeLine_rest: "takeLine line buf = LineDone l rest \<Longrightarrow> length rest < length buf"
  by (auto simp: takeLine_def Let_def split: option.splits if_splits dest: index_of_Some)

lemma tap_scan_sel [simp]:
  "tp_state (tap_scan ops p t) = tp_state t" "tp_remaining (tap_scan ops p t) = tp_remaining t"
  by (simp_all add: tap_scan_def)

lemma tap_take_rest:
  assumes "buf \<noteq> []"
  shows "length (snd (tap_take ops buf t)) < length buf \<or> snd (tap_take ops buf t) = buf \<and> tp_remaining (fst (tap_take ops buf t)) = 0"
  using assms by (cases "tp_remaining t = 0") (auto simp: tap_take_def Let_def)

lemma tap_turn_measure:
  assumes "buf \<noteq> []" "tap_turn ops cl t q buf = ((t', q'), rest)"
  shows "turn_measure t' rest < turn_measure t buf"
proof -
  have len: "2 * length rest + 1 < 2 * length buf" if "length rest < length buf" for rest :: bytes using that by arith
  have small: "turn_measure t' rest < turn_measure t buf" if "length rest < length buf"
    using len[OF that] by (auto simp: turn_measure_def)
  show ?thesis
  proof (cases "tp_state t")
    case THead
    then show ?thesis using assms scan_head_rest small by (auto simp: tap_turn_def readHead_def split: head_scan.splits)
  next
    case TChunkSize
    then show ?thesis using assms takeLine_rest small
      by (auto simp: tap_turn_def readChunkSize_def split: line_read.splits option.splits if_splits)
  next
    case TTrailer
    then show ?thesis using assms takeLine_rest small
      by (auto simp: tap_turn_def readTrailer_def Let_def split: line_read.splits if_splits)
  next
    case TChunkCrlf
    then show ?thesis using assms small
      by (cases buf) (auto simp: tap_turn_def readChunkCrlf_def split: if_splits)
  next
    case TBodyLength
    have "length (snd (tap_take ops buf t)) < length buf \<or> snd (tap_take ops buf t) = buf \<and> tp_remaining (fst (tap_take ops buf t)) = 0"
      using tap_take_rest[OF assms(1)] .
    then show ?thesis using assms TBodyLength small
      by (auto simp: tap_turn_def turn_measure_def tap_finish_def new_tap_def split: prod.splits if_splits)
  next
    case TChunkData
    have "length (snd (tap_take ops buf t)) < length buf \<or> snd (tap_take ops buf t) = buf \<and> tp_remaining (fst (tap_take ops buf t)) = 0"
      using tap_take_rest[OF assms(1)] .
    then show ?thesis using assms TChunkData small
      by (auto simp: tap_turn_def turn_measure_def split: prod.splits if_splits)
  qed (use assms small in \<open>auto simp: tap_turn_def\<close>)
qed

function tap_run ::
    "('s, 'r) scanner_ops \<Rightarrow> ('r, 'q) tap_client \<Rightarrow> 's tap \<Rightarrow> 'q \<Rightarrow> bytes \<Rightarrow> 's tap \<times> 'q" where
  "tap_run ops cl t q buf =
     (if buf = [] then (t, q)
      else case tap_turn ops cl t q buf of ((t, q), rest) \<Rightarrow> tap_run ops cl t q rest)"
  by pat_completeness auto
termination
  by (relation "measure (\<lambda>(ops, cl, t, q, buf). turn_measure t buf)") (auto dest: tap_turn_measure[OF _ sym])

declare tap_run.simps [simp del]

text \<open>\<^verbatim>\<open>push\<close> and \<^verbatim>\<open>end\<close>.\<close>

definition tap_push ::
    "('s, 'r) scanner_ops \<Rightarrow> ('r, 'q) tap_client \<Rightarrow> bytes \<Rightarrow> 's tap \<times> 'q \<Rightarrow> 's tap \<times> 'q" where
  "tap_push ops cl chunk s = (if tp_state (fst s) = TDead then s else tap_run ops cl (fst s) (snd s) chunk)"

definition tap_end :: "('s, 'r) scanner_ops \<Rightarrow> ('r, 'q) tap_client \<Rightarrow> 's tap \<times> 'q \<Rightarrow> 's tap \<times> 'q" where
  "tap_end ops cl s =
     (let t = fst s; q = snd s in
      if tp_state t = TDead then s
      else if tp_state t = THead then
        (dead_tap,
         if tp_head t \<noteq> [] then
           tc_onResponse cl \<lparr>tr_status = 0, tr_complete = False, tr_encoded = False, tr_scanned = None\<rparr> (tap_meta t) q
         else q)
      else (dead_tap, tc_onResponse cl (tap_snapshot ops (tp_state t = TBodyClose) t) (tap_meta t) q))"

section \<open>Cuts of the stream do not matter\<close>

lemma tap_run_Nil [simp]: "tap_run ops cl t q [] = (t, q)"
  by (subst tap_run.simps) simp

lemma tap_run_step: "buf \<noteq> [] \<Longrightarrow> tap_turn ops cl t q buf = ((t', q'), rest) \<Longrightarrow> tap_run ops cl t q buf = tap_run ops cl t' q' rest"
  by (subst tap_run.simps) simp

lemma tap_state_fresh [simp]: "tp_state new_tap = THead" "tp_state dead_tap = TDead"
  by (simp_all add: new_tap_def dead_tap_def)

lemma tap_turn_dead [simp]: "tp_state t = TDead \<Longrightarrow> tap_turn ops cl t q buf = ((t, q), [])"
  by (simp add: tap_turn_def)

lemma tap_lose_dead: "tap_lose ops cl t q = (t', q') \<Longrightarrow> tp_state t' = TDead"
  by (auto simp: tap_lose_def split: if_splits)

lemma tap_lose_fields [simp]:
  "tap_lose ops cl (t\<lparr>tp_head := h, tp_crlfMatch := m\<rparr>) q =
    (if tp_state t = TDead then (t\<lparr>tp_head := h, tp_crlfMatch := m\<rparr>, q) else tap_lose ops cl t q)"
  "tap_lose ops cl (t\<lparr>tp_line := l\<rparr>) q = (if tp_state t = TDead then (t\<lparr>tp_line := l\<rparr>, q) else tap_lose ops cl t q)"
  by (simp_all add: tap_lose_def tap_snapshot_def tap_meta_def)

lemma scan_head_append:
  "scan_head acc m (a @ b) =
    (case scan_head acc m a of
       HeadTooLong \<Rightarrow> HeadTooLong | HeadMore acc' m' \<Rightarrow> scan_head acc' m' b | HeadFound h r \<Rightarrow> HeadFound h (r @ b))"
  by (induction acc m a rule: scan_head.induct) auto

lemma index_of_append_Some: "index_of c a = Some i \<Longrightarrow> index_of c (a @ b) = Some i"
  by (induction a arbitrary: i) (auto split: if_splits)

lemma index_of_append_None:
  "index_of c a = None \<Longrightarrow> index_of c (a @ b) = (case index_of c b of None \<Rightarrow> None | Some i \<Rightarrow> Some (length a + i))"
  by (induction a) (auto split: option.splits if_splits)

lemma takeLine_append:
  "takeLine line (a @ b) =
    (case takeLine line a of
       LineBad \<Rightarrow> LineBad | LineMore l \<Rightarrow> takeLine l b | LineDone l r \<Rightarrow> LineDone l (r @ b))"
proof (cases "index_of LF a")
  case None
  show ?thesis
    using index_of_append_None[OF None, of b] None
    by (cases "index_of LF b") (auto simp: takeLine_def Let_def)
next
  case (Some i)
  have i: "i < length a" using index_of_Some[OF Some] by simp
  have cuts: "take i (a @ b) = take i a" "drop (Suc i) (a @ b) = drop (Suc i) a @ b" using i by simp_all
  have cases: "(if c then LineBad else if d then LineBad else LineDone l (r @ b)) =
      (case (if c then LineBad else if d then LineBad else LineDone l r) of
         LineBad \<Rightarrow> LineBad | LineMore l \<Rightarrow> takeLine l b | LineDone l r \<Rightarrow> LineDone l (r @ b))" for c d l r
    by simp
  show ?thesis
    unfolding takeLine_def Let_def Some index_of_append_Some[OF Some] option.case cuts by (rule cases[unfolded takeLine_def Let_def])
qed

text \<open>A scanner that cannot see how a body is cut.\<close>

definition seamless :: "('s, 'r) scanner_ops \<Rightarrow> bool" where
  "seamless ops \<longleftrightarrow> (\<forall>a b s. so_feed ops (a @ b) s = so_feed ops b (so_feed ops a s))"

lemma tap_scan_append: "seamless ops \<Longrightarrow> tap_scan ops (a @ b) t = tap_scan ops b (tap_scan ops a t)"
  by (cases "a = []"; cases "b = []"; cases "tp_scanner t") (simp_all add: tap_scan_def seamless_def)

lemma tap_scan_remaining: "tap_scan ops p (t\<lparr>tp_remaining := n\<rparr>) = (tap_scan ops p t)\<lparr>tp_remaining := n\<rparr>"
  by (simp add: tap_scan_def)

lemma tap_take_inside:
  "tp_remaining t \<le> length a \<Longrightarrow> tap_take ops (a @ b) t = (fst (tap_take ops a t), snd (tap_take ops a t) @ b)"
  by (simp add: tap_take_def Let_def min_def)

lemma tap_take_over:
  assumes "seamless ops" "length a < tp_remaining t"
  shows "tap_take ops (a @ b) t = tap_take ops b (fst (tap_take ops a t)) \<and> snd (tap_take ops a t) = [] \<and>
    0 < tp_remaining (fst (tap_take ops a t)) \<and> tp_state (fst (tap_take ops a t)) = tp_state t"
proof -
  have n: "min (tp_remaining t) (length a + length b) = length a + min (tp_remaining t - length a) (length b)" using assms(2) by auto
  have t': "tap_take ops a t = ((tap_scan ops a t)\<lparr>tp_remaining := tp_remaining t - length a\<rparr>, [])"
    using assms(2) by (simp add: tap_take_def Let_def)
  show ?thesis
    unfolding t' fst_conv snd_conv using assms(2)
    by (simp add: tap_take_def Let_def n tap_scan_append[OF assms(1)] tap_scan_remaining)
qed

definition tap_ready :: "'s tap \<Rightarrow> bool" where
  "tap_ready t \<longleftrightarrow> (tp_state t \<in> {TBodyLength, TChunkData} \<longrightarrow> 0 < tp_remaining t)"

lemma tap_turn_append:
  assumes "seamless ops" "tap_ready t" "a \<noteq> []" "tap_turn ops cl t q a = ((t', q'), rest)"
  shows "tap_turn ops cl t q (a @ b) = ((t', q'), rest @ b) \<or> (rest = [] \<and> tap_turn ops cl t q (a @ b) = tap_turn ops cl t' q' b)"
proof (cases "tp_state t")
  case THead
  then show ?thesis using assms(4)
    by (cases "scan_head (tp_head t) (tp_crlfMatch t) a")
      (auto simp: tap_turn_def readHead_def scan_head_append split: head_scan.split dest: tap_lose_dead)
next
  case TChunkSize
  then show ?thesis using assms(4)
    by (cases "takeLine (tp_line t) a")
      (auto simp: tap_turn_def readChunkSize_def takeLine_append split: line_read.split option.splits if_splits dest: tap_lose_dead)
next
  case TTrailer
  show ?thesis
  proof (cases "takeLine (tp_line t) a")
    case (LineDone l r)
    then show ?thesis using assms(4) TTrailer
      by (auto simp: tap_turn_def readTrailer_def takeLine_append Let_def split: if_splits dest: tap_lose_dead)
  qed (use assms(4) TTrailer in \<open>auto simp: tap_turn_def readTrailer_def takeLine_append Let_def
      split: line_read.split dest: tap_lose_dead\<close>)
next
  case TChunkCrlf
  then show ?thesis using assms(3,4)
    by (auto simp: tap_turn_def readChunkCrlf_def split: if_splits dest: tap_lose_dead)
next
  case TBodyClose
  then show ?thesis using assms(1,4) by (auto simp: tap_turn_def tap_scan_append)
next
  case TBodyLength
  then show ?thesis
    using assms(4) tap_take_inside[of t a ops b] tap_take_over[OF assms(1), of a t b]
    by (cases "tp_remaining t \<le> length a") (auto simp: tap_turn_def split: prod.splits if_splits)
next
  case TChunkData
  then show ?thesis
    using assms(4) tap_take_inside[of t a ops b] tap_take_over[OF assms(1), of a t b]
    by (cases "tp_remaining t \<le> length a") (auto simp: tap_turn_def split: prod.splits if_splits)
next
  case TDead
  then show ?thesis using assms(4) by auto
qed

lemma tap_ready_fresh [simp]: "tap_ready new_tap" "tap_ready dead_tap"
  by (simp_all add: tap_ready_def)

lemma tap_ready_updates [simp]:
  "tap_ready (t\<lparr>tp_line := l\<rparr>) = tap_ready t" "tap_ready (t\<lparr>tp_head := h, tp_crlfMatch := m\<rparr>) = tap_ready t"
  "tap_ready (t\<lparr>tp_crlfSeen := n\<rparr>) = tap_ready t" "tap_ready (t\<lparr>tp_trailerBytes := n\<rparr>) = tap_ready t"
  by (simp_all add: tap_ready_def)

lemma tap_ready_lose: "tap_ready t \<Longrightarrow> tap_lose ops cl t q = (t', q') \<Longrightarrow> tap_ready t'"
  by (auto simp: tap_lose_def split: if_splits)

lemma tap_ready_finish: "tap_finish ops cl d t q = (t', q') \<Longrightarrow> tap_ready t'"
  by (auto simp: tap_finish_def)

lemma ready_idle: "tp_state t \<notin> {TBodyLength, TChunkData} \<Longrightarrow> tap_ready t"
  by (simp add: tap_ready_def)

lemma ready_lose: "tp_state t = THead \<Longrightarrow> tap_ready (fst (tap_lose ops cl t q))"
  by (simp add: tap_lose_def)

lemma ready_startBody: "tp_state t = THead \<Longrightarrow> tap_ready (fst (startBody ops cl f t q))"
  by (cases "tf_contentLength f") (simp_all add: startBody_def Let_def tap_finish_def tap_ready_def new_tap_def)

lemma tap_ready_onHead: "tp_state t = THead \<Longrightarrow> tap_ready (fst (onHead ops cl h t q))"
proof -
  assume t: "tp_state t = THead"
  then have "tap_ready t" "tap_ready (fst (tap_lose ops cl t q))" "\<And>n. tap_ready (fst (tap_lose ops cl (t\<lparr>tp_status := n\<rparr>) q))"
    "\<And>n f. tap_ready (fst (startBody ops cl f (t\<lparr>tp_status := n\<rparr>) q))"
    by (simp_all add: ready_lose ready_startBody ready_idle)
  then show ?thesis unfolding onHead_def Let_def by (simp split: option.split)
qed

lemma tap_ready_dead: "tp_state t = TDead \<Longrightarrow> tap_ready t"
  by (simp add: tap_ready_def)

lemma tap_ready_turn:
  assumes "tap_ready t" "tap_turn ops cl t q buf = ((t', q'), rest)"
  shows "tap_ready t'"
proof (cases "tp_state t")
  case THead
  show ?thesis
  proof (cases "scan_head (tp_head t) (tp_crlfMatch t) buf")
    case (HeadFound h r)
    then have "onHead ops cl h (t\<lparr>tp_head := [], tp_crlfMatch := 0\<rparr>) q = (t', q')"
      using assms(2) THead by (simp add: tap_turn_def readHead_def)
    then show ?thesis using tap_ready_onHead[of "t\<lparr>tp_head := [], tp_crlfMatch := 0\<rparr>" ops cl h q] THead by simp
  qed (use assms THead tap_ready_lose in \<open>auto simp: tap_turn_def readHead_def\<close>)
next
  case TChunkSize
  show ?thesis
  proof (cases "takeLine (tp_line t) buf")
    case (LineDone l r)
    then show ?thesis using assms TChunkSize
      by (auto simp: tap_turn_def readChunkSize_def split: option.splits if_splits dest!: tap_lose_dead tap_ready_dead)
        (auto simp: tap_ready_def)
  qed (use assms TChunkSize tap_ready_lose in \<open>auto simp: tap_turn_def readChunkSize_def\<close>)
next
  case TTrailer
  show ?thesis
  proof (cases "takeLine (tp_line t) buf")
    case (LineDone l r)
    let ?t = "t\<lparr>tp_trailerBytes := tp_trailerBytes t + length l + 2, tp_line := []\<rparr>"
    have "(t', q') = (if l = [] then tap_finish ops cl True ?t q
        else if tp_trailerBytes ?t > MAX_TRAILER_BYTES then tap_lose ops cl ?t q else (?t, q))"
      using assms(2) TTrailer LineDone by (auto simp: tap_turn_def readTrailer_def Let_def split: if_splits)
    moreover have "tap_ready ?t" using assms(1) by simp
    ultimately show ?thesis using tap_ready_finish tap_ready_lose by (metis prod.inject)
  qed (use assms TTrailer tap_ready_lose in \<open>auto simp: tap_turn_def readTrailer_def\<close>)
next
  case TChunkCrlf
  then show ?thesis using assms tap_ready_lose[OF assms(1)]
    by (auto simp: tap_turn_def readChunkCrlf_def split: if_splits) (simp_all add: tap_ready_def)
next
  case TBodyLength
  obtain t1 r1 where take: "tap_take ops buf t = (t1, r1)" by (metis surj_pair)
  then have "(t', q') = (if tp_remaining t1 = 0 then tap_finish ops cl True t1 q else (t1, q))"
    using assms(2) TBodyLength by (simp add: tap_turn_def)
  then show ?thesis using tap_ready_finish[of ops cl True t1 q t' q'] by (simp add: tap_ready_def split: if_splits)
next
  case TChunkData
  obtain t1 r1 where take: "tap_take ops buf t = (t1, r1)" by (metis surj_pair)
  then have "t' = (if tp_remaining t1 = 0 then t1\<lparr>tp_state := TChunkCrlf, tp_crlfSeen := 0\<rparr> else t1)"
    using assms(2) TChunkData by (simp add: tap_turn_def)
  then show ?thesis by (simp add: tap_ready_def)
qed (use assms in \<open>auto simp: tap_turn_def tap_ready_def\<close>)

lemma tap_run_append:
  "seamless ops \<Longrightarrow> tap_ready t \<Longrightarrow>
    tap_run ops cl t q (a @ b) = (case tap_run ops cl t q a of (t, q) \<Rightarrow> tap_run ops cl t q b)"
proof (induction ops cl t q a rule: tap_run.induct)
  case (1 ops cl t q a)
  show ?case
  proof (cases "a = [] \<or> b = []")
    case True
    then show ?thesis by (auto split: prod.split)
  next
    case False
    obtain t' q' rest where turn: "tap_turn ops cl t q a = ((t', q'), rest)" by (metis surj_pair)
    note run = tap_run_step[OF _ turn]
    have ready: "tap_ready t'" using tap_ready_turn[OF 1(3) turn] .
    have IH: "tap_run ops cl t' q' (rest @ b) = (case tap_run ops cl t' q' rest of (t, q) \<Rightarrow> tap_run ops cl t q b)"
      using 1(1)[OF _ turn[symmetric]] False 1(2) ready by simp
    from tap_turn_append[OF 1(2,3) _ turn, of b] False
    consider "tap_turn ops cl t q (a @ b) = ((t', q'), rest @ b)"
      | "rest = []" "tap_turn ops cl t q (a @ b) = tap_turn ops cl t' q' b" by blast
    then show ?thesis
    proof cases
      case 1
      then show ?thesis using IH run False tap_run_step[OF _ 1] by simp
    next
      case 2
      obtain t2 q2 r2 where turn2: "tap_turn ops cl t' q' b = ((t2, q2), r2)" by (metis surj_pair)
      then have "tap_turn ops cl t q (a @ b) = ((t2, q2), r2)" using 2(2) by simp
      then have "tap_run ops cl t q (a @ b) = tap_run ops cl t2 q2 r2" by (rule tap_run_step[rotated]) (use False in simp)
      also have "\<dots> = tap_run ops cl t' q' b" using tap_run_step[OF _ turn2] False by simp
      finally show ?thesis using run False 2(1) by simp
    qed
  qed
qed

lemma tap_ready_run: "tap_ready t \<Longrightarrow> tap_ready (fst (tap_run ops cl t q buf))"
proof (induction ops cl t q buf rule: tap_run.induct)
  case (1 ops cl t q buf)
  show ?case
  proof (cases "buf = []")
    case False
    obtain t' q' rest where turn: "tap_turn ops cl t q buf = ((t', q'), rest)" by (metis surj_pair)
    then show ?thesis using 1(1)[OF False turn[symmetric] refl] tap_ready_turn[OF 1(2) turn] tap_run_step[OF False turn] by simp
  qed (use 1 in simp)
qed

lemma tap_run_dead: "tp_state t = TDead \<Longrightarrow> tap_run ops cl t q buf = (t, q)"
  by (cases "buf = []") (simp_all add: tap_run_step[where t' = t and q' = q and rest = "[]"])

lemma tap_push_run: "tap_push ops cl chunk (t, q) = tap_run ops cl t q chunk"
  by (simp add: tap_push_def tap_run_dead)

section \<open>The run that keeps the bodies\<close>

definition body_ops :: "(bytes, bytes) scanner_ops" where
  "body_ops = \<lparr>so_new = [], so_feed = (\<lambda>c s. s @ c), so_result = (\<lambda>s. s)\<rparr>"

lemma body_ops_sel [simp]:
  "so_new body_ops = []" "so_feed body_ops = (\<lambda>c s. s @ c)" "so_result body_ops = (\<lambda>s. s)"
  by (simp_all add: body_ops_def)

lemma seamless_body_ops: "seamless body_ops"
  by (simp add: seamless_def body_ops_def)

text \<open>Its listener hands on what the whole body says, and notes whether every body was fit for it.\<close>

definition judged_client :: "(bytes \<Rightarrow> 'r) \<Rightarrow> (bytes \<Rightarrow> bool) \<Rightarrow> ('r, 'q) tap_client \<Rightarrow> (bytes, 'q \<times> bool) tap_client" where
  "judged_client whole ok cl =
     \<lparr>tc_peek = tc_peek cl \<circ> fst,
      tc_onResponse = (\<lambda>r m (q, good).
        (tc_onResponse cl \<lparr>tr_status = tr_status r, tr_complete = tr_complete r, tr_encoded = tr_encoded r,
             tr_scanned = map_option whole (tr_scanned r)\<rparr> m q,
         good \<and> (case tr_scanned r of None \<Rightarrow> True | Some body \<Rightarrow> ok body)))\<rparr>"

definition tap_rel :: "'s \<Rightarrow> (bytes \<Rightarrow> 's \<Rightarrow> 's) \<Rightarrow> 's tap \<Rightarrow> bytes tap \<Rightarrow> bool" where
  "tap_rel new_sc feed t u \<longleftrightarrow>
     tp_state t = tp_state u \<and> tp_head t = tp_head u \<and> tp_crlfMatch t = tp_crlfMatch u \<and> tp_status t = tp_status u \<and>
     tp_encoded t = tp_encoded u \<and> tp_streamed t = tp_streamed u \<and> tp_bodyBytes t = tp_bodyBytes u \<and>
     tp_remaining t = tp_remaining u \<and> tp_line t = tp_line u \<and> tp_trailerBytes t = tp_trailerBytes u \<and>
     tp_crlfSeen t = tp_crlfSeen u \<and>
     rel_option (\<lambda>s body. \<exists>cs. concat cs = body \<and> s = fold feed cs new_sc) (tp_scanner t) (tp_scanner u)"

text \<open>Until a body is unfit, the two runs agree.\<close>

definition runs_agree :: "'s \<Rightarrow> (bytes \<Rightarrow> 's \<Rightarrow> 's) \<Rightarrow> bool \<Rightarrow> 's tap \<times> 'q \<Rightarrow> bytes tap \<times> 'q \<times> bool \<Rightarrow> bool" where
  "runs_agree new_sc feed good s u \<longleftrightarrow>
     (snd (snd u) \<longrightarrow> good \<and> fst (snd u) = snd s \<and> tap_rel new_sc feed (fst s) (fst u))"

context body_scanner
begin

abbreviation ops :: "('s, 'r) scanner_ops" where
  "ops \<equiv> \<lparr>so_new = new_sc, so_feed = feed, so_result = result\<rparr>"

abbreviation agree :: "bool \<Rightarrow> 's tap \<times> 'q \<Rightarrow> bytes tap \<times> 'q \<times> bool \<Rightarrow> bool" where
  "agree \<equiv> runs_agree new_sc feed"

lemma rel_fresh: "tap_rel new_sc feed new_tap new_tap" "tap_rel new_sc feed dead_tap dead_tap"
  by (simp_all add: tap_rel_def new_tap_def dead_tap_def)

lemma rel_results:
  assumes "rel_option (\<lambda>s body. \<exists>cs. concat cs = body \<and> s = fold feed cs new_sc) x y" "case y of None \<Rightarrow> True | Some b \<Rightarrow> ok b"
  shows "map_option result x = map_option whole y"
  using assms cuts_do_not_show by (cases x; cases y) auto

lemma agree_finish:
  "tap_rel new_sc feed t u \<Longrightarrow> agree g (tap_finish ops cl d t q) (tap_finish body_ops (judged_client whole ok cl) d u (q, g))"
  using rel_results[of "tp_scanner t" "tp_scanner u"] rel_fresh
  by (auto simp: runs_agree_def tap_finish_def judged_client_def tap_snapshot_def tap_meta_def body_ops_def tap_rel_def
      option.map_ident)

lemma agree_lose:
  "tap_rel new_sc feed t u \<Longrightarrow> agree g (tap_lose ops cl t q) (tap_lose body_ops (judged_client whole ok cl) u (q, g))"
  using rel_results[of "tp_scanner t" "tp_scanner u"] rel_fresh
  by (auto simp: runs_agree_def tap_lose_def judged_client_def tap_snapshot_def tap_meta_def body_ops_def tap_rel_def
      option.map_ident)

lemma rel_scan: "tap_rel new_sc feed t u \<Longrightarrow> tap_rel new_sc feed (tap_scan ops p t) (tap_scan body_ops p u)"
proof -
  assume rel: "tap_rel new_sc feed t u"
  have "\<exists>cs'. concat cs' = concat cs @ p \<and> feed p (fold feed cs new_sc) = fold feed cs' new_sc" for cs
    by (rule exI[of _ "cs @ [p]"]) simp
  then have "rel_option (\<lambda>s body. \<exists>cs. concat cs = body \<and> s = fold feed cs new_sc)
      (map_option (feed p) (tp_scanner t)) (map_option (\<lambda>s. s @ p) (tp_scanner u))"
    using rel unfolding tap_rel_def by (cases "tp_scanner t"; cases "tp_scanner u") auto
  then show ?thesis using rel by (auto simp: tap_rel_def tap_scan_def body_ops_def)
qed

lemma rel_take:
  "tap_rel new_sc feed t u \<Longrightarrow>
    tap_rel new_sc feed (fst (tap_take ops buf t)) (fst (tap_take body_ops buf u)) \<and>
    snd (tap_take ops buf t) = snd (tap_take body_ops buf u)"
  using rel_scan[of t u] by (auto simp: tap_take_def Let_def tap_rel_def)

lemma peek_judged: "peekIsHead (judged_client whole ok cl) (q, g) = peekIsHead cl q"
  by (simp add: peekIsHead_def judged_client_def)

lemma agree_same: "tap_rel new_sc feed t u \<Longrightarrow> agree g (t, q) (u, q, g)"
  by (simp add: runs_agree_def)

end

context body_scanner
begin

abbreviation judged :: "('r, 'q) tap_client \<Rightarrow> (bytes, 'q \<times> bool) tap_client" where
  "judged cl \<equiv> judged_client whole ok cl"

lemma rel_state: "tap_rel new_sc feed t u \<Longrightarrow> tp_state t = tp_state u"
  by (simp add: tap_rel_def)

lemma rel_updates:
  assumes "tap_rel new_sc feed t u"
  shows "tap_rel new_sc feed (t\<lparr>tp_status := n\<rparr>) (u\<lparr>tp_status := n\<rparr>)"
    "tap_rel new_sc feed (t\<lparr>tp_encoded := b, tp_streamed := c\<rparr>) (u\<lparr>tp_encoded := b, tp_streamed := c\<rparr>)"
    "tap_rel new_sc feed (t\<lparr>tp_scanner := Some new_sc\<rparr>) (u\<lparr>tp_scanner := Some []\<rparr>)"
    "tap_rel new_sc feed (t\<lparr>tp_state := s\<rparr>) (u\<lparr>tp_state := s\<rparr>)"
    "tap_rel new_sc feed (t\<lparr>tp_line := l\<rparr>) (u\<lparr>tp_line := l\<rparr>)"
    "tap_rel new_sc feed (t\<lparr>tp_remaining := n\<rparr>) (u\<lparr>tp_remaining := n\<rparr>)"
    "tap_rel new_sc feed (t\<lparr>tp_crlfSeen := n\<rparr>) (u\<lparr>tp_crlfSeen := n\<rparr>)"
    "tap_rel new_sc feed (t\<lparr>tp_trailerBytes := n\<rparr>) (u\<lparr>tp_trailerBytes := n\<rparr>)"
    "tap_rel new_sc feed (t\<lparr>tp_head := h, tp_crlfMatch := n\<rparr>) (u\<lparr>tp_head := h, tp_crlfMatch := n\<rparr>)"
  using assms by (simp_all add: tap_rel_def exI[of _ "[]"])

lemma agree_startBody:
  assumes rel: "tap_rel new_sc feed t u"
  shows "agree g (startBody ops cl f t q) (startBody body_ops (judged cl) f u (q, g))"
proof -
  define t1 u1 where "t1 = t\<lparr>tp_encoded := tf_encoded f, tp_streamed := tf_streamed f\<rparr>"
    and "u1 = u\<lparr>tp_encoded := tf_encoded f, tp_streamed := tf_streamed f\<rparr>"
  define t2 u2 where "t2 = (if tf_encoded f then t1 else t1\<lparr>tp_scanner := Some (so_new ops)\<rparr>)"
    and "u2 = (if tf_encoded f then u1 else u1\<lparr>tp_scanner := Some (so_new body_ops)\<rparr>)"
  have rel1: "tap_rel new_sc feed t1 u1" unfolding t1_def u1_def by (rule rel_updates[OF rel])
  then have rel2: "tap_rel new_sc feed t2 u2"
    using rel_updates(3)[OF rel1] by (simp add: t2_def u2_def body_ops_def)
  have "agree g (tap_finish ops cl True t1 q) (tap_finish body_ops (judged cl) True u1 (q, g))"
    "agree g (tap_finish ops cl True t2 q) (tap_finish body_ops (judged cl) True u2 (q, g))"
    by (intro agree_finish rel1 rel2)+
  moreover have "agree g (t2\<lparr>tp_state := TChunkSize, tp_line := []\<rparr>, q) (u2\<lparr>tp_state := TChunkSize, tp_line := []\<rparr>, q, g)"
    "agree g (t2\<lparr>tp_state := TBodyLength, tp_remaining := n\<rparr>, q) (u2\<lparr>tp_state := TBodyLength, tp_remaining := n\<rparr>, q, g)"
    "agree g (t2\<lparr>tp_state := TBodyClose\<rparr>, q) (u2\<lparr>tp_state := TBodyClose\<rparr>, q, g)" for n
    by (intro agree_same rel_updates rel2)+
  moreover have "tp_status t1 = tp_status u1" using rel1 by (simp add: tap_rel_def)
  ultimately show ?thesis
    unfolding startBody_def Let_def peek_judged t1_def[symmetric] u1_def[symmetric]
    unfolding t2_def[symmetric] u2_def[symmetric] by (simp split: option.split)
qed

end

context body_scanner
begin

lemma agree_onHead:
  assumes rel: "tap_rel new_sc feed t u"
  shows "agree g (onHead ops cl h t q) (onHead body_ops (judged cl) h u (q, g))"
proof -
  have st: "tap_rel new_sc feed (t\<lparr>tp_status := n\<rparr>) (u\<lparr>tp_status := n\<rparr>)" for n by (rule rel_updates[OF rel])
  have "agree g (tap_lose ops cl t q) (tap_lose body_ops (judged cl) u (q, g))"
    "agree g (tap_lose ops cl (t\<lparr>tp_status := n\<rparr>) q) (tap_lose body_ops (judged cl) (u\<lparr>tp_status := n\<rparr>) (q, g))"
    "agree g (startBody ops cl f (t\<lparr>tp_status := n\<rparr>) q) (startBody body_ops (judged cl) f (u\<lparr>tp_status := n\<rparr>) (q, g))"
    "agree g (t, q) (u, q, g)" for n f
    by (intro agree_lose agree_startBody agree_same rel st)+
  moreover have "agree g
      (dead_tap, tc_onResponse cl \<lparr>tr_status = n, tr_complete = False, tr_encoded = False, tr_scanned = None\<rparr>
         \<lparr>rm_bodyBytes = 0, rm_streamed = False\<rparr> q)
      (dead_tap, tc_onResponse (judged cl) \<lparr>tr_status = n, tr_complete = False, tr_encoded = False, tr_scanned = None\<rparr>
         \<lparr>rm_bodyBytes = 0, rm_streamed = False\<rparr> (q, g))" for n
    using rel_fresh by (simp add: runs_agree_def judged_client_def)
  ultimately show ?thesis unfolding onHead_def Let_def by (simp split: option.split)
qed

text \<open>A turn of both runs leaves the same rest.\<close>

abbreviation agree_turn :: "bool \<Rightarrow> ('s tap \<times> 'q) \<times> bytes \<Rightarrow> (bytes tap \<times> 'q \<times> bool) \<times> bytes \<Rightarrow> bool" where
  "agree_turn g x y \<equiv> agree g (fst x) (fst y) \<and> snd x = snd y"

lemma agree_readHead:
  assumes rel: "tap_rel new_sc feed t u"
  shows "agree_turn g (readHead ops cl t q buf) (readHead body_ops (judged cl) u (q, g) buf)"
proof -
  have "tp_head t = tp_head u" "tp_crlfMatch t = tp_crlfMatch u" using rel by (simp_all add: tap_rel_def)
  moreover have "agree g (t\<lparr>tp_head := h, tp_crlfMatch := n\<rparr>, q) (u\<lparr>tp_head := h, tp_crlfMatch := n\<rparr>, q, g)"
    "agree g (onHead ops cl h' (t\<lparr>tp_head := h, tp_crlfMatch := n\<rparr>) q) (onHead body_ops (judged cl) h' (u\<lparr>tp_head := h, tp_crlfMatch := n\<rparr>) (q, g))"
    "agree g (tap_lose ops cl t q) (tap_lose body_ops (judged cl) u (q, g))" for h n h'
    by (intro agree_same agree_onHead agree_lose rel rel_updates(9)[OF rel])+
  ultimately show ?thesis unfolding readHead_def by (simp split: head_scan.split del: tap_lose_fields)
qed

lemma agree_readChunkSize:
  assumes rel: "tap_rel new_sc feed t u"
  shows "agree_turn g (readChunkSize ops cl t q buf) (readChunkSize body_ops (judged cl) u (q, g) buf)"
proof -
  have "tp_line t = tp_line u" using rel by (simp add: tap_rel_def)
  moreover have "agree g (t\<lparr>tp_line := l\<rparr>, q) (u\<lparr>tp_line := l\<rparr>, q, g)"
    "agree g (tap_lose ops cl t q) (tap_lose body_ops (judged cl) u (q, g))"
    "agree g (tap_lose ops cl (t\<lparr>tp_line := l\<rparr>) q) (tap_lose body_ops (judged cl) (u\<lparr>tp_line := l\<rparr>) (q, g))"
    "agree g (t\<lparr>tp_line := l, tp_state := s, tp_trailerBytes := n\<rparr>, q) (u\<lparr>tp_line := l, tp_state := s, tp_trailerBytes := n\<rparr>, q, g)"
    "agree g (t\<lparr>tp_line := l, tp_state := s, tp_remaining := n\<rparr>, q) (u\<lparr>tp_line := l, tp_state := s, tp_remaining := n\<rparr>, q, g)" for l s n
    by (intro agree_same agree_lose rel_updates rel)+
  ultimately show ?thesis unfolding readChunkSize_def by (simp split: line_read.split option.split del: tap_lose_fields)
qed

lemma agree_readChunkCrlf:
  assumes rel: "tap_rel new_sc feed t u"
  shows "agree_turn g (readChunkCrlf ops cl t q buf) (readChunkCrlf body_ops (judged cl) u (q, g) buf)"
proof -
  have "tp_crlfSeen t = tp_crlfSeen u" using rel by (simp add: tap_rel_def)
  moreover have "agree g (t\<lparr>tp_crlfSeen := n\<rparr>, q) (u\<lparr>tp_crlfSeen := n\<rparr>, q, g)"
    "agree g (tap_lose ops cl t q) (tap_lose body_ops (judged cl) u (q, g))"
    "agree g (t\<lparr>tp_state := s, tp_line := l\<rparr>, q) (u\<lparr>tp_state := s, tp_line := l\<rparr>, q, g)" for l s n
    by (intro agree_same agree_lose rel_updates rel)+
  ultimately show ?thesis unfolding readChunkCrlf_def by simp
qed

lemma agree_readTrailer:
  assumes rel: "tap_rel new_sc feed t u"
  shows "agree_turn g (readTrailer ops cl t q buf) (readTrailer body_ops (judged cl) u (q, g) buf)"
proof -
  have same: "tp_line t = tp_line u" "tp_trailerBytes t = tp_trailerBytes u" using rel by (simp_all add: tap_rel_def)
  have upd: "tap_rel new_sc feed (t\<lparr>tp_trailerBytes := n, tp_line := l\<rparr>) (u\<lparr>tp_trailerBytes := n, tp_line := l\<rparr>)" for n l
    by (intro rel_updates rel)
  have "agree g (t\<lparr>tp_line := l\<rparr>, q) (u\<lparr>tp_line := l\<rparr>, q, g)"
    "agree g (tap_lose ops cl t q) (tap_lose body_ops (judged cl) u (q, g))" for l
    by (intro agree_same agree_lose rel_updates rel)+
  moreover have "agree g (tap_finish ops cl True (t\<lparr>tp_trailerBytes := n, tp_line := l\<rparr>) q)
      (tap_finish body_ops (judged cl) True (u\<lparr>tp_trailerBytes := n, tp_line := l\<rparr>) (q, g))"
    "agree g (tap_lose ops cl (t\<lparr>tp_trailerBytes := n, tp_line := l\<rparr>) q)
      (tap_lose body_ops (judged cl) (u\<lparr>tp_trailerBytes := n, tp_line := l\<rparr>) (q, g))"
    "agree g (t\<lparr>tp_trailerBytes := n, tp_line := l\<rparr>, q) (u\<lparr>tp_trailerBytes := n, tp_line := l\<rparr>, q, g)" for n l
    by (intro agree_finish agree_lose agree_same upd)+
  ultimately show ?thesis
    unfolding readTrailer_def Let_def same by (simp split: line_read.split del: tap_lose_fields)
qed

lemma agree_tap_turn:
  assumes rel: "tap_rel new_sc feed t u"
  shows "agree_turn g (tap_turn ops cl t q buf) (tap_turn body_ops (judged cl) u (q, g) buf)"
proof -
  obtain t1 r1 u1 r2 where take: "tap_take ops buf t = (t1, r1)" "tap_take body_ops buf u = (u1, r2)" by (metis surj_pair)
  then have rel1: "tap_rel new_sc feed t1 u1" and r: "r1 = r2" using rel_take[OF rel, of buf] by auto
  then have left: "tp_remaining t1 = tp_remaining u1" by (simp add: tap_rel_def)
  have "agree g (tap_finish ops cl True t1 q) (tap_finish body_ops (judged cl) True u1 (q, g))"
    "agree g (t1, q) (u1, q, g)" "agree g (t, q) (u, q, g)"
    "agree g (t1\<lparr>tp_state := TChunkCrlf, tp_crlfSeen := 0\<rparr>, q) (u1\<lparr>tp_state := TChunkCrlf, tp_crlfSeen := 0\<rparr>, q, g)"
    "agree g (tap_scan ops buf t, q) (tap_scan body_ops buf u, q, g)"
    by (intro agree_finish agree_same rel_updates rel_scan rel1 rel)+
  then show ?thesis
    using agree_readHead[OF rel, of g cl q buf] agree_readChunkSize[OF rel, of g cl q buf]
      agree_readChunkCrlf[OF rel, of g cl q buf] agree_readTrailer[OF rel, of g cl q buf]
    unfolding tap_turn_def rel_state[OF rel] take by (simp add: r left split: tap_state.split)
qed

end

text \<open>What every report keeps of the listener's state, the tap keeps.\<close>

definition reports_keep :: "('q \<Rightarrow> bool) \<Rightarrow> ('r, 'q) tap_client \<Rightarrow> bool" where
  "reports_keep P cl \<longleftrightarrow> (\<forall>r m q. P q \<longrightarrow> P (tc_onResponse cl r m q))"

lemma keep_report: "reports_keep P cl \<Longrightarrow> P q \<Longrightarrow> P (tc_onResponse cl r m q)"
  by (simp add: reports_keep_def)

lemma keep_finish: "reports_keep P cl \<Longrightarrow> P q \<Longrightarrow> P (snd (tap_finish ops cl d t q))"
  by (simp add: tap_finish_def keep_report)

lemma keep_lose: "reports_keep P cl \<Longrightarrow> P q \<Longrightarrow> P (snd (tap_lose ops cl t q))"
  by (simp add: tap_lose_def keep_report)

lemma keep_startBody: "reports_keep P cl \<Longrightarrow> P q \<Longrightarrow> P (snd (startBody ops cl f t q))"
  unfolding startBody_def Let_def by (simp add: keep_finish split: option.split)

lemma keep_onHead: "reports_keep P cl \<Longrightarrow> P q \<Longrightarrow> P (snd (onHead ops cl h t q))"
  unfolding onHead_def Let_def by (simp add: keep_lose keep_startBody keep_report split: option.split)

lemma keep_turn:
  assumes "reports_keep P cl" "P q"
  shows "P (snd (fst (tap_turn ops cl t q buf)))"
proof (cases "tp_state t")
  case THead
  then show ?thesis using assms
    by (simp add: tap_turn_def readHead_def keep_lose keep_onHead split: head_scan.split)
next
  case TBodyLength
  then show ?thesis using assms
    by (cases "tap_take ops buf t") (simp add: tap_turn_def keep_finish)
next
  case TChunkSize
  then show ?thesis using assms
    by (simp add: tap_turn_def readChunkSize_def keep_lose split: line_read.split option.split)
next
  case TChunkData
  then show ?thesis using assms
    by (cases "tap_take ops buf t") (simp add: tap_turn_def)
next
  case TChunkCrlf
  then show ?thesis using assms by (simp add: tap_turn_def readChunkCrlf_def keep_lose)
next
  case TTrailer
  then show ?thesis using assms
    by (simp add: tap_turn_def readTrailer_def Let_def keep_lose keep_finish split: line_read.split)
qed (use assms in \<open>simp_all add: tap_turn_def\<close>)

lemma keep_run: "reports_keep P cl \<Longrightarrow> P q \<Longrightarrow> P (snd (tap_run ops cl t q buf))"
proof (induction ops cl t q buf rule: tap_run.induct)
  case (1 ops cl t q buf)
  show ?case
  proof (cases "buf = []")
    case False
    obtain t' q' rest where turn: "tap_turn ops cl t q buf = ((t', q'), rest)" by (metis surj_pair)
    then have "P q'" using keep_turn[OF 1(2,3), of ops t buf] by simp
    then show ?thesis using 1(1)[OF False turn[symmetric] refl] 1(2) tap_run_step[OF False turn] by simp
  qed (use 1 in simp)
qed

lemma judged_keeps_bad: "reports_keep (\<lambda>s. \<not> snd s) (judged_client whole ok cl)"
  by (auto simp: reports_keep_def judged_client_def)

context body_scanner
begin

lemma agree_run:
  "tap_rel new_sc feed t u \<Longrightarrow> agree g (tap_run ops cl t q buf) (tap_run body_ops (judged cl) u (q, g) buf)"
proof (induction "turn_measure t buf" arbitrary: t u q g buf rule: less_induct)
  case less
  show ?case
  proof (cases "buf = []")
    case True
    then show ?thesis using agree_same[OF less.prems] by simp
  next
    case False
    obtain t' q' rest where turn: "tap_turn ops cl t q buf = ((t', q'), rest)" by (metis surj_pair)
    obtain u' q2 g' rest2 where turn2: "tap_turn body_ops (judged cl) u (q, g) buf = ((u', q2, g'), rest2)" by (metis surj_pair)
    have ag: "agree g (t', q') (u', q2, g')" "rest = rest2"
      using agree_tap_turn[OF less.prems, of g cl q buf] turn turn2 by auto
    note runs = tap_run_step[OF False turn] tap_run_step[OF False turn2]
    show ?thesis
    proof (cases g')
      case True
      then have rel: "tap_rel new_sc feed t' u'" "q2 = q'" "g" using ag by (simp_all add: runs_agree_def)
      have "agree True (tap_run ops cl t' q' rest) (tap_run body_ops (judged cl) u' (q', True) rest)"
        using less.hyps[OF tap_turn_measure[OF False turn] rel(1)] .
      then show ?thesis using runs rel True ag(2) by (simp add: runs_agree_def)
    next
      case False
      then have "\<not> snd (snd (tap_run body_ops (judged cl) u' (q2, g') rest2))"
        using keep_run[OF judged_keeps_bad, of "(q2, g')"] by simp
      then show ?thesis using runs by (simp add: runs_agree_def)
    qed
  qed
qed

text \<open>Any cut of the stream is read like the whole, with the bodies judged whole.\<close>

lemma tap_reads_any_cut:
  assumes "snd (snd (tap_run body_ops (judged cl) new_tap (q, True) (concat cs)))"
  shows "snd (fold (tap_push ops cl) cs (new_tap, q)) = fst (snd (tap_run body_ops (judged cl) new_tap (q, True) (concat cs)))"
proof -
  have "agree g (fold (tap_push ops cl) cs (t, q)) (tap_run body_ops (judged cl) u (q, g) (concat cs))"
    if "tap_rel new_sc feed t u" "tap_ready u" for t u q g
    using that
  proof (induction cs arbitrary: t u q g)
    case Nil
    then show ?case using agree_same by simp
  next
    case (Cons c cs)
    obtain t' q' where t': "tap_run ops cl t q c = (t', q')" by (metis surj_pair)
    obtain u' q2 g' where u': "tap_run body_ops (judged cl) u (q, g) c = (u', q2, g')" by (metis surj_pair)
    have ag: "agree g (t', q') (u', q2, g')" using agree_run[OF Cons.prems(1), of g cl q c] t' u' by simp
    have ready: "tap_ready u'"
      using tap_ready_run[OF Cons.prems(2), of body_ops "judged cl" "(q, g)" c] u' by simp
    have run: "tap_run body_ops (judged cl) u (q, g) (concat (c # cs)) = tap_run body_ops (judged cl) u' (q2, g') (concat cs)"
      using tap_run_append[OF seamless_body_ops Cons.prems(2), of "judged cl" "(q, g)" c "concat cs"] u' by simp
    have push: "fold (tap_push ops cl) (c # cs) (t, q) = fold (tap_push ops cl) cs (t', q')"
      using t' by (simp add: tap_push_run)
    show ?case
    proof (cases g')
      case True
      then have rel: "tap_rel new_sc feed t' u'" and q: "q2 = q'" g using ag by (simp_all add: runs_agree_def)
      have "agree g' (fold (tap_push ops cl) cs (t', q')) (tap_run body_ops (judged cl) u' (q', g') (concat cs))"
        by (rule Cons.IH[OF rel ready])
      then show ?thesis using q True unfolding run push by (simp add: runs_agree_def)
    next
      case False
      then have "\<not> snd (snd (tap_run body_ops (judged cl) u' (q2, g') (concat cs)))"
        using keep_run[OF judged_keeps_bad, of "(q2, g')"] by simp
      then show ?thesis unfolding run by (simp add: runs_agree_def)
    qed
  qed
  then have "agree True (fold (tap_push ops cl) cs (new_tap, q)) (tap_run body_ops (judged cl) new_tap (q, True) (concat cs))"
    using rel_fresh(1) by simp
  then show ?thesis using assms by (simp add: runs_agree_def)
qed

end

section \<open>Responses on the wire\<close>

text \<open>A response as a server writes it: the lines of its head, and its body counted or in chunks.\<close>

datatype wire_body = WireCounted bytes | WireChunked "bytes list"

record wire_response =
  wr_lines :: "bytes list"
  wr_body :: wire_body

fun wire_payload :: "wire_body \<Rightarrow> bytes" where
  "wire_payload (WireCounted b) = b"
| "wire_payload (WireChunked cs) = concat cs"

definition head_bytes :: "bytes list \<Rightarrow> bytes" where
  "head_bytes ls = concat (List.map (\<lambda>l. l @ CRLF) ls) @ CRLF"

definition chunk_bytes :: "bytes \<Rightarrow> bytes" where
  "chunk_bytes c = to_radix 16 12 (length c) @ CRLF @ c @ CRLF"

fun body_bytes :: "wire_body \<Rightarrow> bytes" where
  "body_bytes (WireCounted b) = b"
| "body_bytes (WireChunked cs) = concat (List.map chunk_bytes cs) @ ''0'' @ CRLF @ CRLF"

definition wire_bytes :: "wire_response \<Rightarrow> bytes" where
  "wire_bytes r = head_bytes (wr_lines r) @ body_bytes (wr_body r)"

definition wire_ok :: "wire_response \<Rightarrow> bool" where
  "wire_ok r \<longleftrightarrow>
     wr_lines r \<noteq> [] \<and> list_all (\<lambda>l. l \<noteq> [] \<and> CR \<notin> set l \<and> LF \<notin> set l) (wr_lines r) \<and>
     length (head_bytes (wr_lines r)) \<le> MAX_HEAD_BYTES \<and>
     200 \<le> status_line (hd (wr_lines r)) \<and> status_line (hd (wr_lines r)) \<notin> {204, 304} \<and>
     (case (parseFraming (wr_lines r), wr_body r) of
        (None, _) \<Rightarrow> False
      | (Some f, WireCounted b) \<Rightarrow> \<not> tf_chunked f \<and> tf_contentLength f = Some (length b)
      | (Some f, WireChunked cs) \<Rightarrow> tf_chunked f \<and> list_all (\<lambda>c. c \<noteq> [] \<and> length c < 16 ^ 12) cs)"

text \<open>What the tap is to report of it.\<close>

definition wire_report :: "(bytes \<Rightarrow> 'r) \<Rightarrow> wire_response \<Rightarrow> 'r tap_response \<times> response_meta" where
  "wire_report whole r =
     (let f = the (parseFraming (wr_lines r)) in
      (\<lparr>tr_status = status_line (hd (wr_lines r)), tr_complete = True, tr_encoded = tf_encoded f,
        tr_scanned = (if tf_encoded f then None else Some (whole (wire_payload (wr_body r))))\<rparr>,
       \<lparr>rm_bodyBytes = length (wire_payload (wr_body r)), rm_streamed = tf_streamed f\<rparr>))"

lemma CRLF_eq: "CRLF = [CR, LF]"
  by (simp add: CRLF_def)

lemma scan_plain:
  "CR \<notin> set l \<Longrightarrow> LF \<notin> set l \<Longrightarrow> length acc + length l \<le> MAX_HEAD_BYTES \<Longrightarrow> l \<noteq> [] \<Longrightarrow>
    scan_head acc m (l @ s) = scan_head (acc @ l) 0 s"
proof (induction l arbitrary: acc m)
  case (Cons c l)
  have "c \<noteq> CR" "c \<noteq> LF" using Cons.prems(1,2) by auto
  then have "scan_head acc m ((c # l) @ s) = scan_head (acc @ [c]) 0 (l @ s)"
    using Cons.prems(3) by (simp add: next_match_def)
  then show ?case using Cons.IH[of "acc @ [c]" 0] Cons.prems by (cases "l = []") auto
qed simp

lemma scan_crlf:
  "length acc + 2 \<le> MAX_HEAD_BYTES \<Longrightarrow> scan_head acc 0 (CRLF @ s) = scan_head (acc @ CRLF) 2 s"
  "length acc + 2 \<le> MAX_HEAD_BYTES \<Longrightarrow> scan_head acc 2 (CRLF @ s) = HeadFound (acc @ CRLF) s"
  by (simp_all add: CRLF_eq next_match_def)

lemma scan_head_lines:
  "list_all (\<lambda>l. l \<noteq> [] \<and> CR \<notin> set l \<and> LF \<notin> set l) ls \<Longrightarrow> length acc + length (head_bytes ls) \<le> MAX_HEAD_BYTES \<Longrightarrow>
    ls \<noteq> [] \<or> m = 2 \<Longrightarrow> scan_head acc m (head_bytes ls @ s) = HeadFound (acc @ head_bytes ls) s"
proof (induction ls arbitrary: acc m)
  case Nil
  then show ?case using scan_crlf(2)[of acc s] by (simp add: head_bytes_def CRLF_eq)
next
  case (Cons l ls)
  have len: "length acc + length l + 2 \<le> MAX_HEAD_BYTES" using Cons.prems(2) by (simp add: head_bytes_def CRLF_eq)
  have bytes: "head_bytes (l # ls) = l @ CRLF @ head_bytes ls" by (simp add: head_bytes_def)
  have "scan_head acc m (head_bytes (l # ls) @ s) = scan_head (acc @ l @ CRLF) 2 (head_bytes ls @ s)"
    using scan_plain[of l acc m "CRLF @ head_bytes ls @ s"] scan_crlf(1)[of "acc @ l" "head_bytes ls @ s"] Cons.prems(1) len
    by (simp add: bytes)
  then show ?case using Cons.IH[of "acc @ l @ CRLF" 2] Cons.prems by (simp add: bytes)
qed

lemma split_crlf: "CR \<notin> set l \<Longrightarrow> split_text CRLF (l @ CRLF @ s) = l # split_text CRLF s"
proof -
  assume "CR \<notin> set l"
  then have "find_sub CRLF (l @ CRLF @ s) = Some (length l)"
  proof (induction l)
    case Nil
    then show ?case using find_sub_prefix[of CRLF s] by simp
  next
    case (Cons c l)
    then show ?case by (simp add: CRLF_eq)
  qed
  from split_text_some[OF _ this] show ?thesis by (simp add: CRLF_eq)
qed

lemma head_lines:
  assumes "list_all (\<lambda>l. l \<noteq> [] \<and> CR \<notin> set l \<and> LF \<notin> set l) ls" "ls \<noteq> []"
  shows "crlf_lines (take (length (head_bytes ls) - 4) (head_bytes ls)) = ls"
proof -
  have split: "split_text CRLF (concat (List.map (\<lambda>l. l @ CRLF) xs) @ l) = xs @ [l]"
    if "list_all (\<lambda>l. CR \<notin> set l) xs" "CR \<notin> set l" for xs l
    using that
  proof (induction xs)
    case Nil
    then have "\<not> has_sub CRLF l" using has_sub_set[of CRLF l] by (auto simp: CRLF_eq)
    then show ?case by (simp add: split_text_none CRLF_eq)
  next
    case (Cons x xs)
    then show ?case using split_crlf[of x "concat (List.map (\<lambda>l. l @ CRLF) xs) @ l"] by simp
  qed
  obtain xs l where ls: "ls = xs @ [l]" using assms(2) by (metis append_butlast_last_id)
  have "head_bytes ls = (concat (List.map (\<lambda>l. l @ CRLF) xs) @ l) @ CRLF @ CRLF" by (simp add: ls head_bytes_def)
  then have "take (length (head_bytes ls) - 4) (head_bytes ls) = concat (List.map (\<lambda>l. l @ CRLF) xs) @ l"
    by (simp add: CRLF_eq)
  then show ?thesis using split[of xs l] assms(1) unfolding crlf_lines_def ls by (auto simp: list_all_iff)
qed

lemma chunk_size_line:
  assumes "0 < n" "n < 16 ^ 12"
  shows "takeLine [] (to_radix 16 12 n @ CRLF @ s) = LineDone (to_radix 16 12 n) s"
    and "parseChunkSize (to_radix 16 12 n) = Some n"
proof -
  let ?h = "to_radix 16 12 n"
  have h: "?h \<noteq> []" "length ?h \<le> 12" "radix_value 16 ?h = n" "\<forall>c \<in> set ?h. \<exists>d < 16. c = DIGITS ! d"
    "length ?h = 1 \<or> hd ?h \<noteq> CHR ''0''"
    using to_radix_digits[of 16 n 12] assms(2) by auto
  have digit: "is_hex_any c \<and> c \<notin> {CHR '';'', LF, CR} \<and> \<not> is_blank c" if "c \<in> set ?h" for c
  proof -
    obtain d where "d < 16" "c = DIGITS ! d" using h(4) \<open>c \<in> set ?h\<close> by blast
    then show ?thesis
      by (simp add: DIGITS_def less_Suc_eq numeral_eq_Suc)
        (elim disjE; simp add: is_hex_any_def is_hex_def lower_char_def is_upper_def is_digit_def is_blank_def)
  qed
  have "hd ?h \<noteq> CHR ''0''"
  proof
    assume zero: "hd ?h = CHR ''0''"
    then have "length ?h = 1" using h(5) by simp
    then have "?h = ''0''" using zero by (cases ?h) auto
    then show False using h(3) assms(1) by (simp add: radix_value_def hex_value_def is_digit_def)
  qed
  then have zeros: "dropWhile (\<lambda>c. c = CHR ''0'') ?h = ?h" using h(1) by (cases ?h) auto
  have semi: "takeWhile (\<lambda>c. c \<noteq> CHR '';'') ?h = ?h" using digit by (auto simp: takeWhile_eq_all_conv)
  have "dropWhile is_blank (rev ?h) = rev ?h"
    using digit[of "last ?h"] h(1) by (simp add: dropWhile_eq_self_iff hd_rev)
  then have blanks: "rev (dropWhile is_blank (rev ?h)) = ?h" by simp
  have "list_all is_hex_any ?h" using digit by (simp add: list_all_iff)
  then show "parseChunkSize ?h = Some n"
    unfolding parseChunkSize_def semi blanks Let_def zeros using h(1-3) by (simp add: MAX_CHUNK_HEX_DIGITS_def)
  have "index_of LF (?h @ CR # LF # s) = Some (Suc (length ?h))"
    using index_of_append[of LF "?h @ [CR]" s] digit by auto
  then show "takeLine [] (?h @ CRLF @ s) = LineDone ?h s"
    using h(2) by (simp add: takeLine_def Let_def CRLF_eq MAX_LINE_CHARS_def)
qed

text \<open>One chunk, and the whole chunked body, in the state the head left.\<close>

lemma body_scan:
  "tap_scan body_ops p t = t\<lparr>tp_bodyBytes := tp_bodyBytes t + length p, tp_scanner := map_option (\<lambda>s. s @ p) (tp_scanner t)\<rparr>"
  by (cases "p = []") (simp_all add: tap_scan_def option.map_ident)

definition chunk_read :: "bytes \<Rightarrow> bytes tap \<Rightarrow> bytes tap" where
  "chunk_read c t = t\<lparr>tp_bodyBytes := tp_bodyBytes t + length c, tp_scanner := map_option (\<lambda>s. s @ c) (tp_scanner t),
     tp_remaining := 0, tp_crlfSeen := 1\<rparr>"

lemma run_chunk:
  assumes "tp_state t = TChunkSize" "tp_line t = []" "c \<noteq> []" "length c < 16 ^ 12"
  shows "tap_run body_ops cl t q (chunk_bytes c @ rest) = tap_run body_ops cl (chunk_read c t) q rest"
proof -
  let ?h = "to_radix 16 12 (length c)"
  let ?t1 = "t\<lparr>tp_line := [], tp_state := TChunkData, tp_remaining := length c\<rparr>"
  let ?t2 = "(tap_scan body_ops c ?t1)\<lparr>tp_remaining := 0, tp_state := TChunkCrlf, tp_crlfSeen := 0\<rparr>"
  have n: "0 < length c" using assms(3) by simp
  have h: "?h \<noteq> []" using to_radix_digits[of 16 "length c" 12] assms(4) by simp
  have "tap_turn body_ops cl t q (chunk_bytes c @ rest) = ((?t1, q), c @ CRLF @ rest)"
    using assms(1,2) chunk_size_line[OF n assms(4)] n by (simp add: tap_turn_def readChunkSize_def chunk_bytes_def)
  moreover have "tap_turn body_ops cl ?t1 q (c @ CRLF @ rest) = ((?t2, q), CRLF @ rest)"
    by (simp add: tap_turn_def tap_take_def Let_def)
  moreover have "tap_turn body_ops cl ?t2 q (CRLF @ rest) = ((?t2\<lparr>tp_crlfSeen := 1\<rparr>, q), LF # rest)"
    by (simp add: tap_turn_def readChunkCrlf_def CRLF_eq)
  moreover have "tap_turn body_ops cl (?t2\<lparr>tp_crlfSeen := 1\<rparr>) q (LF # rest) = ((chunk_read c t, q), rest)"
    using assms(1,2) by (simp add: tap_turn_def readChunkCrlf_def chunk_read_def body_scan)
  ultimately show ?thesis
    using h by (simp add: tap_run_step chunk_bytes_def CRLF_eq)
qed

lemma run_chunks:
  assumes "tp_state t = TChunkSize" "tp_line t = []" "list_all (\<lambda>c. c \<noteq> [] \<and> length c < 16 ^ 12) cs"
  shows "tap_run body_ops cl t q (body_bytes (WireChunked cs) @ rest) =
    tap_run body_ops cl new_tap
      (tc_onResponse cl
        \<lparr>tr_status = tp_status t, tr_complete = True, tr_encoded = tp_encoded t,
          tr_scanned = map_option (\<lambda>s. s @ concat cs) (tp_scanner t)\<rparr>
        \<lparr>rm_bodyBytes = tp_bodyBytes t + length (concat cs), rm_streamed = tp_streamed t\<rparr> q) rest"
  using assms
proof (induction cs arbitrary: t)
  case Nil
  let ?t1 = "t\<lparr>tp_line := [], tp_state := TTrailer, tp_trailerBytes := 0\<rparr>"
  have "takeLine [] (''0'' @ CRLF @ CRLF @ rest) = LineDone ''0'' (CRLF @ rest)" "takeLine [] (CRLF @ rest) = LineDone [] rest"
    by (simp_all add: takeLine_def CRLF_eq MAX_LINE_CHARS_def)
  moreover have "parseChunkSize ''0'' = Some 0" by code_simp
  ultimately have "tap_turn body_ops cl t q (''0'' @ CRLF @ CRLF @ rest) = ((?t1, q), CRLF @ rest)"
    "tap_turn body_ops cl ?t1 q (CRLF @ rest) =
      (tap_finish body_ops cl True (?t1\<lparr>tp_trailerBytes := 2, tp_line := []\<rparr>) q, rest)"
    using Nil(1,2) by (simp_all add: tap_turn_def readChunkSize_def readTrailer_def numeral_2_eq_2)
  then show ?case
    by (simp add: tap_run_step CRLF_eq tap_finish_def tap_snapshot_def tap_meta_def option.map_ident)
next
  case (Cons c cs)
  have "tap_run body_ops cl t q (body_bytes (WireChunked (c # cs)) @ rest) =
      tap_run body_ops cl (chunk_read c t) q (body_bytes (WireChunked cs) @ rest)"
    using run_chunk[of t c cl q "body_bytes (WireChunked cs) @ rest"] Cons.prems by simp
  then show ?case
    using Cons.IH[of "chunk_read c t"] Cons.prems
    by (simp add: chunk_read_def option.map_comp comp_def add.assoc)
qed

lemma run_response:
  assumes ok: "wire_ok r" and get: "\<not> peekIsHead cl q"
  shows "tap_run body_ops cl new_tap q (wire_bytes r @ rest) =
    tap_run body_ops cl new_tap (case wire_report (\<lambda>b. b) r of (resp, meta) \<Rightarrow> tc_onResponse cl resp meta q) rest"
proof -
  let ?ls = "wr_lines r"
  obtain f where f: "parseFraming ?ls = Some f" using ok by (auto simp: wire_ok_def split: option.splits)
  have lines: "list_all (\<lambda>l. l \<noteq> [] \<and> CR \<notin> set l \<and> LF \<notin> set l) ?ls" "?ls \<noteq> []"
    and len: "length (head_bytes ?ls) \<le> MAX_HEAD_BYTES" and status: "200 \<le> status_line (hd ?ls)" "status_line (hd ?ls) \<notin> {204, 304}"
    using ok by (auto simp: wire_ok_def)
  let ?s = "new_tap\<lparr>tp_status := status_line (hd ?ls)\<rparr> :: bytes tap"
  have fresh: "tp_head new_tap = []" "tp_crlfMatch new_tap = 0" "new_tap\<lparr>tp_head := [], tp_crlfMatch := 0\<rparr> = new_tap"
    by (simp_all add: new_tap_def)
  have "tap_turn body_ops cl new_tap q (wire_bytes r @ rest) =
      (onHead body_ops cl (head_bytes ?ls) new_tap q, body_bytes (wr_body r) @ rest)"
    using scan_head_lines[OF lines(1), of "[]" 0 "body_bytes (wr_body r) @ rest"] lines(2) len
    by (simp add: tap_turn_def readHead_def fresh wire_bytes_def)
  moreover have "onHead body_ops cl (head_bytes ?ls) new_tap q = startBody body_ops cl f ?s q"
  proof -
    have clean: "\<not> list_ex (\<lambda>l. CR \<in> set l \<or> LF \<in> set l) ?ls" using lines(1) by (simp add: list_ex_iff list_all_iff)
    show ?thesis unfolding onHead_def Let_def head_lines[OF lines] using clean f status by simp
  qed
  moreover have "wire_bytes r @ rest \<noteq> []" by (simp add: wire_bytes_def head_bytes_def CRLF_eq)
  ultimately have run: "tap_run body_ops cl new_tap q (wire_bytes r @ rest) =
      (case startBody body_ops cl f ?s q of (t, q) \<Rightarrow> tap_run body_ops cl t q (body_bytes (wr_body r) @ rest))"
    by (cases "startBody body_ops cl f ?s q") (simp add: tap_run_step)
  let ?t = "?s\<lparr>tp_encoded := tf_encoded f, tp_streamed := tf_streamed f\<rparr>"
  define t where "t = (if tf_encoded f then ?t else ?t\<lparr>tp_scanner := Some []\<rparr>)"
  have t: "tp_status t = status_line (hd ?ls)" "tp_encoded t = tf_encoded f" "tp_streamed t = tf_streamed f" "tp_bodyBytes t = 0"
    "tp_scanner t = (if tf_encoded f then None else Some [])" by (auto simp: t_def new_tap_def)
  show ?thesis
  proof (cases "wr_body r")
    case (WireChunked cs)
    then have c: "tf_chunked f" "list_all (\<lambda>c. c \<noteq> [] \<and> length c < 16 ^ 12) cs" using ok f by (auto simp: wire_ok_def)
    have "startBody body_ops cl f ?s q = (t\<lparr>tp_state := TChunkSize, tp_line := []\<rparr>, q)"
      using c(1) get status(2) by (simp add: startBody_def Let_def t_def)
    then show ?thesis
      using run run_chunks[of "t\<lparr>tp_state := TChunkSize, tp_line := []\<rparr>" cs cl q rest] c(2) t f WireChunked
      by (simp add: wire_report_def Let_def)
  next
    case (WireCounted b)
    then have c: "\<not> tf_chunked f" "tf_contentLength f = Some (length b)" using ok f by (auto simp: wire_ok_def)
    show ?thesis
    proof (cases "b = []")
      case True
      have "startBody body_ops cl f ?s q = tap_finish body_ops cl True t q"
        using c True get status(2) by (simp add: startBody_def Let_def t_def)
      then show ?thesis
        using run t f True WireCounted
        by (simp add: tap_finish_def tap_snapshot_def tap_meta_def wire_report_def Let_def)
    next
      case False
      let ?b = "t\<lparr>tp_state := TBodyLength, tp_remaining := length b\<rparr>"
      have start: "startBody body_ops cl f ?s q = (?b, q)"
        using c False get status(2) by (simp add: startBody_def Let_def t_def)
      have "tap_turn body_ops cl ?b q (b @ rest) =
          (tap_finish body_ops cl True ((tap_scan body_ops b ?b)\<lparr>tp_remaining := 0\<rparr>) q, rest)"
        by (simp add: tap_turn_def tap_take_def Let_def)
      then show ?thesis
        using run start t f False WireCounted
        by (simp add: tap_run_step tap_finish_def tap_snapshot_def tap_meta_def wire_report_def Let_def body_scan option.map_ident)
    qed
  qed
qed

lemma run_responses:
  assumes "list_all wire_ok rs" "reports_keep P cl" "\<And>q. P q \<Longrightarrow> \<not> peekIsHead cl q" "P q"
  shows "tap_run body_ops cl new_tap q (concat (List.map wire_bytes rs)) =
    (new_tap, fold (\<lambda>r q. case wire_report (\<lambda>b. b) r of (resp, meta) \<Rightarrow> tc_onResponse cl resp meta q) rs q)"
  using assms(1,4)
proof (induction rs arbitrary: q)
  case (Cons r rs)
  define q' where "q' = (case wire_report (\<lambda>b. b) r of (resp, meta) \<Rightarrow> tc_onResponse cl resp meta q)"
  have "P q'" using keep_report[OF assms(2) Cons.prems(2)] by (simp add: q'_def split: prod.split)
  then show ?case
    using Cons.IH[of q'] run_response[of r cl q "concat (List.map wire_bytes rs)"] assms(3)[OF Cons.prems(2)] Cons.prems(1)
    by (simp add: q'_def)
qed simp

lemma judged_report:
  "(case wire_report (\<lambda>b. b) r of (resp, meta) \<Rightarrow> tc_onResponse (judged_client whole ok cl) resp meta (q, good)) =
    (case wire_report whole r of (resp, meta) \<Rightarrow> tc_onResponse cl resp meta q,
     good \<and> (tf_encoded (the (parseFraming (wr_lines r))) \<or> ok (wire_payload (wr_body r))))"
  by (simp add: wire_report_def Let_def judged_client_def)

lemma judged_reports:
  "list_all (\<lambda>r. ok (wire_payload (wr_body r))) rs \<Longrightarrow>
    fold (\<lambda>r q. case wire_report (\<lambda>b. b) r of (resp, meta) \<Rightarrow> tc_onResponse (judged_client whole ok cl) resp meta q) rs (q, True) =
    (fold (\<lambda>r q. case wire_report whole r of (resp, meta) \<Rightarrow> tc_onResponse cl resp meta q) rs q, True)"
  by (induction rs arbitrary: q) (simp_all add: judged_report)

section \<open>What the tap promises\<close>

definition usage_ops :: "(usage_scanner, scan_result) scanner_ops" where
  "usage_ops = \<lparr>so_new = new_scanner, so_feed = scanner_feed, so_result = scanner_result\<rparr>"

text \<open>A listener that keeps what it is told, and two responses.\<close>

definition report_log :: "('r, 'r tap_response list) tap_client" where
  "report_log = \<lparr>tc_peek = (\<lambda>_. None), tc_onResponse = (\<lambda>r m q. q @ [r])\<rparr>"

definition demo_counted :: wire_response where
  "demo_counted = \<lparr>wr_lines = [''HTTP/1.1 200 OK'', ''Content-Length: 21''], wr_body = WireCounted ''{\"output_tokens\": 12}''\<rparr>"

definition demo_chunked :: wire_response where
  "demo_chunked = \<lparr>wr_lines = [''HTTP/1.1 429 Slow'', ''transfer-encoding: chunked''], wr_body = WireChunked [''{\"output_tok'', ''ens\": 3}'']\<rparr>"

lemma tap_responses:
  assumes "list_all wire_ok rs" "list_all (\<lambda>r. scannable (wire_payload (wr_body r))) rs"
    and "reports_keep P cl" "\<And>q. P q \<Longrightarrow> \<not> peekIsHead cl q" "P q"
    and "concat cs = concat (List.map wire_bytes rs)"
  shows "snd (fold (tap_push usage_ops cl) cs (new_tap, q)) =
    fold (\<lambda>r q. case wire_report scan_body r of (resp, meta) \<Rightarrow> tc_onResponse cl resp meta q) rs q"
proof -
  let ?cl = "judged_client scan_body scannable cl"
  let ?P = "\<lambda>s. P (fst s)"
  have keep: "reports_keep ?P ?cl" using assms(3) by (auto simp: reports_keep_def judged_client_def)
  have get: "\<not> peekIsHead ?cl s" if "?P s" for s using assms(4) that us.peek_judged[of cl "fst s" "snd s"] by simp
  have run: "tap_run body_ops ?cl new_tap (q, True) (concat cs) =
      (new_tap, fold (\<lambda>r q. case wire_report scan_body r of (resp, meta) \<Rightarrow> tc_onResponse cl resp meta q) rs q, True)"
    unfolding assms(6) using run_responses[OF assms(1) keep get, of "(q, True)"] assms(5) judged_reports[OF assms(2)] by simp
  show ?thesis using us.tap_reads_any_cut[of cl q cs] run by (simp add: usage_ops_def)
qed

text \<open>C25. The tap reports every response of a connection, once and in order, with its status, the size of
  its body and what the scanner reads in the whole body, however the bytes are cut into buffers. This is
  for responses of the kind \<open>wire_ok\<close> describes: the head is complete and within the cap, the status is
  neither below 200 nor 204 or 304, and the body is counted with the right \<^verbatim>\<open>Content-Length\<close> or
  chunked with plain lower-case
  hexadecimal sizes, without extensions and trailers; in whose bodies no counter or model entry is longer than the
  scanner carries over (\<open>scannable\<close>; without that the cut does matter, see
  \<open>padded_counter_depends_on_the_cut\<close>); and none of which answers a HEAD request (\<open>P\<close> is what the
  listener's state keeps of that).\<close>

theorem tap_reports_responses:
  assumes "list_all wire_ok rs" "list_all (\<lambda>r. scannable (wire_payload (wr_body r))) rs"
    and "reports_keep P cl" "\<And>q. P q \<Longrightarrow> \<not> peekIsHead cl q" "P q"
    and "concat cs = concat (List.map wire_bytes rs)"
  shows "snd (fold (tap_push usage_ops cl) cs (new_tap, q)) =
    fold (\<lambda>r q. case wire_report scan_body r of (resp, meta) \<Rightarrow> tc_onResponse cl resp meta q) rs q"
  by (rule tap_responses[OF assms])

lemma tap_reports_responses_witness:
  "List.map tr_status (snd (fold (tap_push usage_ops report_log)
      [take 40 (wire_bytes demo_counted @ wire_bytes demo_chunked), drop 40 (wire_bytes demo_counted @ wire_bytes demo_chunked)]
      (new_tap, []))) = [200, 429]"
proof -
  let ?rs = "[demo_counted, demo_chunked]"
  have ok: "list_all wire_ok ?rs" by code_simp
  have fit: "list_all (\<lambda>r. scannable (wire_payload (wr_body r))) ?rs" by code_simp
  have keep: "reports_keep (\<lambda>_. True) report_log" "\<And>q. True \<Longrightarrow> \<not> peekIsHead report_log q"
    by (simp_all add: reports_keep_def peekIsHead_def report_log_def)
  have got: "snd (fold (tap_push usage_ops report_log)
      [take 40 (wire_bytes demo_counted @ wire_bytes demo_chunked), drop 40 (wire_bytes demo_counted @ wire_bytes demo_chunked)]
      (new_tap, [])) =
    fold (\<lambda>r q. case wire_report scan_body r of (resp, meta) \<Rightarrow> tc_onResponse report_log resp meta q) ?rs []"
    by (rule tap_reports_responses[OF ok fit keep(1) keep(2) TrueI]) (simp_all only: concat.simps append_Nil2 append_take_drop_id list.map)
  have "status_line (hd (wr_lines demo_counted)) = 200" "status_line (hd (wr_lines demo_chunked)) = 429" by code_simp+
  then show ?thesis unfolding got by (simp add: wire_report_def Let_def report_log_def)
qed

text \<open>Reports that keep \<open>P\<close> when they are complete and lead from \<open>P\<close> to \<open>Q\<close> when not.\<close>

definition tap_kept :: "('q \<Rightarrow> bool) \<Rightarrow> ('q \<Rightarrow> bool) \<Rightarrow> 's tap \<times> 'q \<Rightarrow> bool" where
  "tap_kept P Q s \<longleftrightarrow> (if tp_state (fst s) = TDead then Q (snd s) else P (snd s))"

definition reports_end :: "('q \<Rightarrow> bool) \<Rightarrow> ('q \<Rightarrow> bool) \<Rightarrow> ('r, 'q) tap_client \<Rightarrow> bool" where
  "reports_end P Q cl \<longleftrightarrow>
     (\<forall>r m q. P q \<longrightarrow> Q (tc_onResponse cl r m q) \<and> (tr_complete r \<longrightarrow> P (tc_onResponse cl r m q))) \<and> (\<forall>q. P q \<longrightarrow> Q q)"

lemma kept_finish: "reports_end P Q cl \<Longrightarrow> P q \<Longrightarrow> tap_kept P Q (tap_finish ops cl True t q)"
  by (simp add: tap_kept_def tap_finish_def tap_snapshot_def reports_end_def)

lemma kept_lose: "reports_end P Q cl \<Longrightarrow> P q \<Longrightarrow> tap_kept P Q (tap_lose ops cl t q)"
  by (simp add: tap_kept_def tap_lose_def reports_end_def)

lemma kept_same: "P q \<Longrightarrow> tp_state t \<noteq> TDead \<Longrightarrow> tap_kept P Q (t, q)"
  by (simp add: tap_kept_def)

lemma kept_startBody:
  "reports_end P Q cl \<Longrightarrow> P q \<Longrightarrow> tp_state t \<noteq> TDead \<Longrightarrow> tap_kept P Q (startBody ops cl f t q)"
  unfolding startBody_def Let_def by (simp add: kept_finish kept_same split: option.split)

lemma kept_dead: "reports_end P Q cl \<Longrightarrow> P q \<Longrightarrow> tap_kept P Q (dead_tap, tc_onResponse cl r m q)"
  by (simp add: tap_kept_def reports_end_def)

lemma kept_onHead:
  "reports_end P Q cl \<Longrightarrow> P q \<Longrightarrow> tp_state t \<noteq> TDead \<Longrightarrow> tap_kept P Q (onHead ops cl h t q)"
  unfolding onHead_def Let_def by (simp add: kept_startBody kept_lose kept_dead kept_same split: option.split)

lemma kept_turn:
  assumes "reports_end P Q cl" "P q" "tp_state t \<noteq> TDead"
  shows "tap_kept P Q (fst (tap_turn ops cl t q buf))"
proof -
  obtain t1 r1 where take: "tap_take ops buf t = (t1, r1)" by (metis surj_pair)
  then have "tp_state t1 = tp_state t" by (auto simp: tap_take_def Let_def)
  then show ?thesis
    using assms take unfolding tap_turn_def
    by (cases "tp_state t")
      (simp_all add: readHead_def readChunkSize_def readChunkCrlf_def readTrailer_def Let_def kept_lose kept_onHead
        kept_finish kept_same split: head_scan.split line_read.split option.split)
qed

lemma kept_run: "reports_end P Q cl \<Longrightarrow> tap_kept P Q (t, q) \<Longrightarrow> tap_kept P Q (tap_run ops cl t q buf)"
proof (induction ops cl t q buf rule: tap_run.induct)
  case (1 ops cl t q buf)
  show ?case
  proof (cases "buf = [] \<or> tp_state t = TDead")
    case True
    then show ?thesis using 1(3) by (auto simp: tap_run_dead)
  next
    case False
    obtain t' q' rest where turn: "tap_turn ops cl t q buf = ((t', q'), rest)" by (metis surj_pair)
    then have "tap_kept P Q (t', q')" using kept_turn[OF 1(2), of q t ops buf] 1(3) False by (simp add: tap_kept_def)
    then show ?thesis using 1(1)[OF _ turn[symmetric] refl 1(2)] tap_run_step[OF _ turn] False by simp
  qed
qed

lemma kept_end:
  assumes "reports_end P Q cl" "tap_kept P Q s"
  shows "Q (snd (tap_end ops cl s))"
  using assms by (auto simp: tap_end_def tap_kept_def reports_end_def Let_def)

text \<open>Doubt is told once: of all that the tap reports of a connection, whatever bytes come and however
  it ends, only the last report can be one of a response that was not read to its end.\<close>

theorem only_the_last_report_is_incomplete:
  "list_all tr_complete (butlast (snd (tap_end usage_ops report_log (fold (tap_push usage_ops report_log) cs (new_tap, [])))))"
proof -
  have ends: "reports_end (list_all tr_complete) (\<lambda>q. list_all tr_complete (butlast q)) report_log"
    by (auto simp: reports_end_def report_log_def list_all_iff dest: in_set_butlastD)
  have "tap_kept (list_all tr_complete) (\<lambda>q. list_all tr_complete (butlast q)) (fold (tap_push usage_ops report_log) cs s)"
    if "tap_kept (list_all tr_complete) (\<lambda>q. list_all tr_complete (butlast q)) s" for s
    using that
  proof (induction cs arbitrary: s)
    case (Cons c cs)
    obtain t q where s: "s = (t, q)" by (cases s)
    then show ?case using Cons.IH[OF kept_run[OF ends Cons.prems[unfolded s], of usage_ops c]] by (simp add: tap_push_run)
  qed simp
  from this[of "(new_tap, [])"] show ?thesis
    using kept_end[OF ends] by (simp add: tap_kept_def)
qed

end
