(* ===== verification/Provider_Meter.thy ===== *)
theory Provider_Meter
  imports Usage_Scan Credential_Registry
begin

text \<open>
  The per-user gate on model calls, after
  \<^verbatim>\<open>packages/credential-proxy/src/provider-meter.ts\<close>. The hub's user states are objects
  that meters and running checks keep hold of after the hub has forgotten them, so they live in a
  list and are named by position. The ledger's answers come back as later operations, in any order;
  \<open>None\<close> is a call that threw. Times are milliseconds. The meter of \<^verbatim>\<open>forSession\<close> is
  handed out when the check it started has come back; log lines and messages are not modelled.
\<close>

section \<open>Settlements\<close>

record settlement =
  pc_billable :: bool
  pc_model :: "string option"
  pc_usage :: "measured_usage option"
  pc_requestBytes :: "nat option"
  pc_partial :: "(nat \<times> bool) option"

datatype admit_result = AdmitOk | AdmitRefused string

datatype usage_verdict = NotBlocked | BlockedFor string

section \<open>The hub\<close>

record user_state =
  us_userId :: string
  us_sessions :: "string list"
  us_inFlight :: nat
  us_ledger :: bool
  us_blocked :: "string option"
  us_checkedAt :: nat
  us_checking :: bool
  us_seq :: nat
  us_appliedSeq :: nat

record meter =
  mt_state :: nat
  mt_session :: string
  mt_hosts :: "string list"
  mt_requests :: "string list"
  mt_closed :: bool

record hub =
  hb_users :: "(string, nat) jsmap"
  hb_states :: "user_state list"
  hb_meters :: "meter list"

record hub_options =
  ho_maxInFlight :: nat
  ho_refreshMs :: nat
  ho_probeMs :: nat

definition DEFAULT_HUB_OPTIONS :: hub_options where
  "DEFAULT_HUB_OPTIONS = \<lparr>ho_maxInFlight = 8, ho_refreshMs = 15000, ho_probeMs = 5000\<rparr>"

definition new_hub :: hub where
  "new_hub = \<lparr>hb_users = [], hb_states = [], hb_meters = []\<rparr>"

text \<open>Calls the hub starts on the ledger: the state, the number of the call, what is recorded.\<close>

datatype ledger_call = StatusCall nat nat | RecordCall nat nat settlement

definition state_of :: "hub \<Rightarrow> nat \<Rightarrow> user_state" where
  "state_of h i = hb_states h ! i"

definition put_state :: "nat \<Rightarrow> user_state \<Rightarrow> hub \<Rightarrow> hub" where
  "put_state i st h = h\<lparr>hb_states := (hb_states h)[i := st]\<rparr>"

definition new_user_state :: "string \<Rightarrow> user_state" where
  "new_user_state userId =
     \<lparr>us_userId = userId, us_sessions = [], us_inFlight = 0, us_ledger = False, us_blocked = None,
      us_checkedAt = 0, us_checking = False, us_seq = 0, us_appliedSeq = 0\<rparr>"

definition stateFor :: "string \<Rightarrow> hub \<Rightarrow> nat \<times> hub" where
  "stateFor userId h =
     (case js_get (hb_users h) userId of
        Some i \<Rightarrow> (i, h)
      | None \<Rightarrow>
          let i = length (hb_states h) in
          (i, h\<lparr>hb_users := js_set userId i (hb_users h), hb_states := hb_states h @ [new_user_state userId]\<rparr>))"

definition maybeEvict :: "nat \<Rightarrow> hub \<Rightarrow> hub" where
  "maybeEvict i h =
     (let st = state_of h i in
      if length (us_sessions st) = 0 \<and> us_inFlight st = 0 \<and> \<not> us_checking st then
        (if js_get (hb_users h) (us_userId st) = Some i
         then h\<lparr>hb_users := js_delete (us_userId st) (hb_users h)\<rparr> else h)
      else h)"

definition apply_verdict :: "nat \<Rightarrow> nat \<Rightarrow> usage_verdict option \<Rightarrow> user_state \<Rightarrow> user_state" where
  "apply_verdict now seq answer st =
     (if seq < us_appliedSeq st then st
      else st\<lparr>us_appliedSeq := seq, us_checkedAt := now,
        us_blocked := (case answer of
            None \<Rightarrow> Some ''usage-check-unavailable''
          | Some NotBlocked \<Rightarrow> None
          | Some (BlockedFor reason) \<Rightarrow> Some reason)\<rparr>)"

text \<open>\<^verbatim>\<open>check\<close> and \<^verbatim>\<open>record\<close> up to their \<^verbatim>\<open>await\<close>, and after it.\<close>

definition check_begin :: "nat \<Rightarrow> hub \<Rightarrow> hub \<times> ledger_call list" where
  "check_begin i h =
     (let st = state_of h i in
      if \<not> us_ledger st then (h, [])
      else (put_state i (st\<lparr>us_seq := Suc (us_seq st), us_checking := True\<rparr>) h, [StatusCall i (Suc (us_seq st))]))"

definition check_end :: "nat \<Rightarrow> nat \<Rightarrow> nat \<Rightarrow> usage_verdict option \<Rightarrow> hub \<Rightarrow> hub" where
  "check_end now i seq answer h =
     maybeEvict i (put_state i ((apply_verdict now seq answer (state_of h i))\<lparr>us_checking := False\<rparr>) h)"

definition record_begin :: "nat \<Rightarrow> settlement \<Rightarrow> hub \<Rightarrow> hub \<times> ledger_call list" where
  "record_begin i s h =
     (let st = state_of h i in
      if \<not> us_ledger st then (h, [])
      else (put_state i (st\<lparr>us_seq := Suc (us_seq st)\<rparr>) h, [RecordCall i (Suc (us_seq st)) s]))"

definition record_end :: "nat \<Rightarrow> nat \<Rightarrow> nat \<Rightarrow> usage_verdict option \<Rightarrow> hub \<Rightarrow> hub" where
  "record_end now i seq answer h = maybeEvict i (put_state i (apply_verdict now seq answer (state_of h i)) h)"

definition refreshIfStale :: "hub_options \<Rightarrow> nat \<Rightarrow> nat \<Rightarrow> hub \<Rightarrow> hub \<times> ledger_call list" where
  "refreshIfStale opts now i h =
     (let st = state_of h i;
          limit = (if us_blocked st \<noteq> None then ho_probeMs opts else ho_refreshMs opts)
      in if us_checking st \<or> int now - int (us_checkedAt st) < int limit then (h, []) else check_begin i h)"

text \<open>\<^verbatim>\<open>forSession\<close> with the hosts and requests of the session; \<open>ledger\<close> is whether \<^verbatim>\<open>resolveLedger\<close> finds one.\<close>

definition forSession :: "bool \<Rightarrow> string \<Rightarrow> string \<Rightarrow> string list \<Rightarrow> string list \<Rightarrow> hub \<Rightarrow> hub \<times> ledger_call list" where
  "forSession ledger sessionId userId hosts requests h =
     (let (i, h) = stateFor userId h;
          st = state_of h i;
          h = put_state i (st\<lparr>us_sessions := (if sessionId \<in> set (us_sessions st) then us_sessions st
                else us_sessions st @ [sessionId]), us_ledger := ledger\<rparr>) h;
          (h, calls) = (if ledger then check_begin i h else (h, []))
      in (h\<lparr>hb_meters := hb_meters h @ [\<lparr>mt_state = i, mt_session = sessionId,
           mt_hosts = rev (remdups (rev (List.map normalizeBoundHost hosts))), mt_requests = requests, mt_closed = False\<rparr>]\<rparr>, calls))"

definition meter_admit :: "hub_options \<Rightarrow> nat \<Rightarrow> nat \<Rightarrow> hub \<Rightarrow> admit_result \<times> hub \<times> ledger_call list" where
  "meter_admit opts now k h =
     (let m = hb_meters h ! k; i = mt_state m in
      if \<not> us_ledger (state_of h i) then (AdmitOk, h, [])
      else if mt_closed m then (AdmitRefused ''session-closed'', h, [])
      else let (h, calls) = refreshIfStale opts now i h; st = state_of h i in
        (case us_blocked st of
           Some reason \<Rightarrow> (AdmitRefused reason, h, calls)
         | None \<Rightarrow>
             if us_inFlight st \<ge> ho_maxInFlight opts then (AdmitRefused ''busy'', h, calls)
             else (AdmitOk, put_state i (st\<lparr>us_inFlight := Suc (us_inFlight st)\<rparr>) h, calls)))"

definition meter_settle :: "nat \<Rightarrow> settlement \<Rightarrow> hub \<Rightarrow> hub \<times> ledger_call list" where
  "meter_settle k s h =
     (let i = mt_state (hb_meters h ! k); st = state_of h i;
          h = put_state i (st\<lparr>us_inFlight := us_inFlight st - 1\<rparr>) h
      in if \<not> us_ledger st then (h, [])
         else if pc_billable s then record_begin i s h
         else (maybeEvict i h, []))"

definition meter_close :: "nat \<Rightarrow> hub \<Rightarrow> hub" where
  "meter_close k h =
     (let m = hb_meters h ! k; i = mt_state m; st = state_of h i in
      maybeEvict i (put_state i (st\<lparr>us_sessions := [s \<leftarrow> us_sessions st. s \<noteq> mt_session m]\<rparr>)
        (h\<lparr>hb_meters := (hb_meters h)[k := m\<lparr>mt_closed := True\<rparr>]\<rparr>)))"

definition hub_peek :: "string \<Rightarrow> hub \<Rightarrow> (nat \<times> string option) option" where
  "hub_peek userId h = map_option (\<lambda>i. (us_inFlight (state_of h i), us_blocked (state_of h i))) (js_get (hb_users h) userId)"

section \<open>Runs\<close>

datatype hub_op =
    HForSession bool string string "string list" "string list"
  | HCheckEnd nat nat nat "usage_verdict option"
  | HRecordEnd nat nat nat "usage_verdict option"
  | HAdmit nat nat
  | HSettle nat settlement
  | HClose nat

text \<open>
  The second component counts, for each meter, the calls it admitted and has not settled: what the
  meter's user owes. It is not part of the code's state.
\<close>

type_synonym metered_world = "hub \<times> (nat \<Rightarrow> nat)"

fun hub_step :: "hub_options \<Rightarrow> hub_op \<Rightarrow> metered_world \<Rightarrow> metered_world" where
  "hub_step opts (HForSession l s u hs rs) (h, owed) = (fst (forSession l s u hs rs h), owed)"
| "hub_step opts (HCheckEnd now i seq a) (h, owed) = (check_end now i seq a h, owed)"
| "hub_step opts (HRecordEnd now i seq a) (h, owed) = (record_end now i seq a h, owed)"
| "hub_step opts (HAdmit now k) (h, owed) =
     (case meter_admit opts now k h of
        (AdmitOk, h', _) \<Rightarrow> (h', owed(k := Suc (owed k)))
      | (AdmitRefused _, h', _) \<Rightarrow> (h', owed))"
| "hub_step opts (HSettle k s) (h, owed) = (fst (meter_settle k s h), owed(k := owed k - 1))"
| "hub_step opts (HClose k) (h, owed) = (meter_close k h, owed)"

text \<open>
  What the callers keep to: a ledger is there from the start, a session is re-opened only after its
  meter was closed, a meter is closed once, meters and states are those handed out, an answer answers a call that was started, and only an admitted call is settled.
\<close>

fun hub_legal :: "hub_op \<Rightarrow> metered_world \<Rightarrow> bool" where
  "hub_legal (HForSession l s u hs rs) (h, owed) = (l \<and> list_all (\<lambda>m. mt_closed m \<or> mt_session m \<noteq> s) (hb_meters h))"
| "hub_legal (HCheckEnd now i seq a) (h, owed) = (i < length (hb_states h) \<and> seq \<le> us_seq (state_of h i))"
| "hub_legal (HRecordEnd now i seq a) (h, owed) = (i < length (hb_states h) \<and> seq \<le> us_seq (state_of h i))"
| "hub_legal (HAdmit now k) (h, owed) = (k < length (hb_meters h))"
| "hub_legal (HSettle k s) (h, owed) = (k < length (hb_meters h) \<and> 0 < owed k)"
| "hub_legal (HClose k) (h, owed) = (k < length (hb_meters h) \<and> \<not> mt_closed (hb_meters h ! k))"

fun hub_run :: "hub_options \<Rightarrow> hub_op list \<Rightarrow> metered_world \<Rightarrow> metered_world option" where
  "hub_run opts [] w = Some w"
| "hub_run opts (op # ops) w = (if hub_legal op w then hub_run opts ops (hub_step opts op w) else None)"

definition owed_on :: "metered_world \<Rightarrow> nat \<Rightarrow> nat" where
  "owed_on w i = (\<Sum>k < length (hb_meters (fst w)). if mt_state (hb_meters (fst w) ! k) = i then snd w k else 0)"

definition owed_by :: "metered_world \<Rightarrow> string \<Rightarrow> nat" where
  "owed_by w u = (\<Sum>k < length (hb_meters (fst w)).
     if us_userId (state_of (fst w) (mt_state (hb_meters (fst w) ! k))) = u then snd w k else 0)"

definition hub_inv :: "hub_options \<Rightarrow> metered_world \<Rightarrow> bool" where
  "hub_inv opts w \<longleftrightarrow>
     js_wf (hb_users (fst w)) \<and>
     (\<forall>k < length (hb_meters (fst w)). mt_state (hb_meters (fst w) ! k) < length (hb_states (fst w))) \<and>
     (\<forall>k \<ge> length (hb_meters (fst w)). snd w k = 0) \<and>
     (\<forall>u i. js_get (hb_users (fst w)) u = Some i \<longrightarrow>
        i < length (hb_states (fst w)) \<and> us_userId (state_of (fst w) i) = u) \<and>
     (\<forall>k < length (hb_meters (fst w)). us_ledger (state_of (fst w) (mt_state (hb_meters (fst w) ! k)))) \<and>
     (\<forall>k < length (hb_meters (fst w)). \<not> mt_closed (hb_meters (fst w) ! k) \<longrightarrow>
        mt_session (hb_meters (fst w) ! k) \<in> set (us_sessions (state_of (fst w) (mt_state (hb_meters (fst w) ! k))))) \<and>
     (\<forall>k j. k < length (hb_meters (fst w)) \<longrightarrow> j < length (hb_meters (fst w)) \<longrightarrow> k \<noteq> j \<longrightarrow>
        mt_closed (hb_meters (fst w) ! k) \<or> mt_closed (hb_meters (fst w) ! j) \<or>
        mt_session (hb_meters (fst w) ! k) \<noteq> mt_session (hb_meters (fst w) ! j)) \<and>
     (\<forall>i < length (hb_states (fst w)). owed_on w i = us_inFlight (state_of (fst w) i) \<and>
        us_inFlight (state_of (fst w) i) \<le> ho_maxInFlight opts \<and>
        us_appliedSeq (state_of (fst w) i) \<le> us_seq (state_of (fst w) i)) \<and>
     (\<forall>i < length (hb_states (fst w)).
        us_sessions (state_of (fst w) i) \<noteq> [] \<or> us_inFlight (state_of (fst w) i) > 0 \<longrightarrow>
        js_get (hb_users (fst w)) (us_userId (state_of (fst w) i)) = Some i)"

lemma hub_inv_new: "hub_inv opts (new_hub, \<lambda>_. 0)"
  by (simp add: hub_inv_def new_hub_def)

lemma put_state_simps [simp]:
  "hb_users (put_state i st h) = hb_users h" "hb_meters (put_state i st h) = hb_meters h"
  "length (hb_states (put_state i st h)) = length (hb_states h)"
  "i < length (hb_states h) \<Longrightarrow> state_of (put_state i st h) j = (if j = i then st else state_of h j)"
  by (simp_all add: put_state_def state_of_def)

lemma owed_on_meters:
  "List.map mt_state (hb_meters h') = List.map mt_state (hb_meters h) \<Longrightarrow> owed_on (h', g) i = owed_on (h, g) i"
proof -
  assume same: "List.map mt_state (hb_meters h') = List.map mt_state (hb_meters h)"
  then have len: "length (hb_meters h') = length (hb_meters h)" by (rule map_eq_imp_length_eq)
  have "mt_state (hb_meters h' ! k) = mt_state (hb_meters h ! k)" if "k < length (hb_meters h)" for k
    using same that len by (metis nth_map)
  then show ?thesis unfolding owed_on_def fst_conv snd_conv len by (intro sum.cong) auto
qed

lemma sum_upd:
  assumes "k < (n::nat)"
  shows "(\<Sum>j < n. if P j then (g(k := v)) j else 0) + (if P k then g k else 0) =
    (\<Sum>j < n. if P j then g j else 0) + (if P k then v else (0::nat))"
proof -
  have "(\<Sum>j < n. if P j then (g(k := v)) j else 0) = (if P k then v else 0) + (\<Sum>j \<in> {..<n} - {k}. if P j then g j else 0)"
  proof -
    have "(\<Sum>j \<in> {..<n} - {k}. if P j then (g(k := v)) j else 0) = (\<Sum>j \<in> {..<n} - {k}. if P j then g j else 0)"
      by (intro sum.cong) auto
    then show ?thesis using assms by (simp add: sum.remove[of "{..<n}" k])
  qed
  moreover have "(\<Sum>j < n. if P j then g j else 0) = (if P k then g k else 0) + (\<Sum>j \<in> {..<n} - {k}. if P j then g j else 0)"
    using assms by (simp add: sum.remove[of "{..<n}" k])
  ultimately show ?thesis by simp
qed

lemma owed_on_upd:
  "k < length (hb_meters h) \<Longrightarrow>
    owed_on (h, g(k := v)) i + (if mt_state (hb_meters h ! k) = i then g k else 0) =
    owed_on (h, g) i + (if mt_state (hb_meters h ! k) = i then v else 0)"
  unfolding owed_on_def fst_conv snd_conv by (rule sum_upd)

text \<open>Changing a state in the ledger's fields only.\<close>

lemma hub_inv_put:
  assumes "hub_inv opts (h, g)" "i < length (hb_states h)"
    and "us_userId st = us_userId (state_of h i)" "us_sessions st = us_sessions (state_of h i)"
    and "us_inFlight st = us_inFlight (state_of h i)" "us_ledger st = us_ledger (state_of h i)"
    and "us_appliedSeq st \<le> us_seq st"
  shows "hub_inv opts (put_state i st h, g)"
  using assms owed_on_meters[of "put_state i st h" h g] unfolding hub_inv_def fst_conv snd_conv
  by auto

lemma hub_inv_evict:
  assumes "hub_inv opts (h, g)" "i < length (hb_states h)"
  shows "hub_inv opts (maybeEvict i h, g)"
proof (cases "us_sessions (state_of h i) = [] \<and> us_inFlight (state_of h i) = 0 \<and> \<not> us_checking (state_of h i) \<and>
    js_get (hb_users h) (us_userId (state_of h i)) = Some i")
  case True
  let ?h = "h\<lparr>hb_users := js_delete (us_userId (state_of h i)) (hb_users h)\<rparr>"
  have ev: "maybeEvict i h = ?h" using True by (simp add: maybeEvict_def Let_def)
  have same: "state_of ?h = state_of h" "hb_meters ?h = hb_meters h" "hb_states ?h = hb_states h"
    "owed_on (?h, g) = owed_on (h, g)"
    using owed_on_meters[of ?h h g] by (simp_all add: state_of_def fun_eq_iff)
  have "js_get (hb_users ?h) (us_userId (state_of h j)) = Some j"
    if "j < length (hb_states h)" "us_sessions (state_of h j) \<noteq> [] \<or> us_inFlight (state_of h j) > 0" for j
  proof -
    have "js_get (hb_users h) (us_userId (state_of h j)) = Some j" using assms(1) that by (simp add: hub_inv_def)
    moreover have "j \<noteq> i" using True that by auto
    ultimately show ?thesis using True by auto
  qed
  then show ?thesis unfolding ev using assms(1) unfolding hub_inv_def fst_conv snd_conv same
    by (simp add: js_map_wf)
next
  case False
  then have "maybeEvict i h = h" by (auto simp: maybeEvict_def Let_def)
  then show ?thesis using assms by simp
qed

lemma hub_inv_apply:
  assumes "hub_inv opts (h, g)" "i < length (hb_states h)" "seq \<le> us_seq (state_of h i)"
  shows "hub_inv opts (check_end now i seq a h, g)" "hub_inv opts (record_end now i seq a h, g)"
proof -
  let ?st = "apply_verdict now seq a (state_of h i)"
  have applied: "us_appliedSeq (state_of h i) \<le> us_seq (state_of h i)" using assms by (simp add: hub_inv_def)
  have st: "us_userId ?st = us_userId (state_of h i)" "us_sessions ?st = us_sessions (state_of h i)"
    "us_inFlight ?st = us_inFlight (state_of h i)" "us_ledger ?st = us_ledger (state_of h i)"
    "us_appliedSeq ?st \<le> us_seq ?st"
    using assms(3) applied by (auto simp: apply_verdict_def)
  show "hub_inv opts (check_end now i seq a h, g)" unfolding check_end_def
    using assms st by (intro hub_inv_evict hub_inv_put) auto
  show "hub_inv opts (record_end now i seq a h, g)" unfolding record_end_def
    using assms st by (intro hub_inv_evict hub_inv_put) auto
qed

lemma begin_spec:
  assumes "hub_inv opts (h, g)" "i < length (hb_states h)"
  shows "hub_inv opts (fst (check_begin i h), g)" "hub_inv opts (fst (record_begin i s h), g)"
    "hub_inv opts (fst (refreshIfStale opts' now i h), g)"
proof -
  have applied: "us_appliedSeq (state_of h i) \<le> us_seq (state_of h i)" using assms by (simp add: hub_inv_def)
  show c: "hub_inv opts (fst (check_begin i h), g)" and "hub_inv opts (fst (record_begin i s h), g)"
    using assms applied by (auto simp: check_begin_def record_begin_def Let_def intro!: hub_inv_put)
  show "hub_inv opts (fst (refreshIfStale opts' now i h), g)"
    using c assms by (auto simp: refreshIfStale_def Let_def)
qed


lemma begin_meters [simp]:
  "hb_meters (fst (check_begin i h)) = hb_meters h" "hb_meters (fst (record_begin i s h)) = hb_meters h"
  "hb_meters (fst (refreshIfStale opts now i h)) = hb_meters h"
  "length (hb_states (fst (check_begin i h))) = length (hb_states h)"
  "length (hb_states (fst (refreshIfStale opts now i h))) = length (hb_states h)"
  by (simp_all add: check_begin_def record_begin_def refreshIfStale_def Let_def)

lemma inv_meter:
  "hub_inv opts (h, g) \<Longrightarrow> k < length (hb_meters h) \<Longrightarrow>
    mt_state (hb_meters h ! k) < length (hb_states h) \<and> us_ledger (state_of h (mt_state (hb_meters h ! k)))"
  by (simp add: hub_inv_def)

lemma inv_take:
  assumes "hub_inv opts (h, g)" "k < length (hb_meters h)" "\<not> mt_closed (hb_meters h ! k)"
    and "i = mt_state (hb_meters h ! k)" "us_inFlight (state_of h i) < ho_maxInFlight opts"
  shows "hub_inv opts (put_state i ((state_of h i)\<lparr>us_inFlight := Suc (us_inFlight (state_of h i))\<rparr>) h, g(k := Suc (g k)))"
proof -
  let ?h = "put_state i ((state_of h i)\<lparr>us_inFlight := Suc (us_inFlight (state_of h i))\<rparr>) h"
  have i: "i < length (hb_states h)" using inv_meter[OF assms(1,2)] assms(4) by simp
  have "owed_on (?h, g(k := Suc (g k))) j = (if j = i then Suc (owed_on (h, g) j) else owed_on (h, g) j)" for j
    using owed_on_upd[OF assms(2), of g "Suc (g k)" j] owed_on_meters[of ?h h "g(k := Suc (g k))" j] assms(4)
    by (auto split: if_splits)
  moreover have "us_sessions (state_of h i) \<noteq> []"
    using assms unfolding hub_inv_def by auto
  ultimately show ?thesis using assms(1,2,5) i unfolding hub_inv_def fst_conv snd_conv by auto
qed

lemma inv_release:
  assumes "hub_inv opts (h, g)" "k < length (hb_meters h)" "0 < g k" "i = mt_state (hb_meters h ! k)"
  shows "hub_inv opts (put_state i ((state_of h i)\<lparr>us_inFlight := us_inFlight (state_of h i) - 1\<rparr>) h, g(k := g k - 1))"
proof -
  let ?h = "put_state i ((state_of h i)\<lparr>us_inFlight := us_inFlight (state_of h i) - 1\<rparr>) h"
  have i: "i < length (hb_states h)" using inv_meter[OF assms(1,2)] assms(4) by simp
  have "owed_on (?h, g(k := g k - 1)) j = (if j = i then owed_on (h, g) j - 1 else owed_on (h, g) j)" for j
    using owed_on_upd[OF assms(2), of g "g k - 1" j] owed_on_meters[of ?h h "g(k := g k - 1)" j] assms(3,4)
    by (auto split: if_splits)
  then show ?thesis using assms(1,2) i unfolding hub_inv_def fst_conv snd_conv by auto
qed

lemma inv_close:
  assumes "hub_inv opts (h, g)" "k < length (hb_meters h)" "\<not> mt_closed (hb_meters h ! k)"
  shows "hub_inv opts (meter_close k h, g)"
proof -
  let ?m = "hb_meters h ! k"
  let ?i = "mt_state ?m"
  let ?hm = "h\<lparr>hb_meters := (hb_meters h)[k := ?m\<lparr>mt_closed := True\<rparr>]\<rparr>"
  let ?st = "(state_of h ?i)\<lparr>us_sessions := [s \<leftarrow> us_sessions (state_of h ?i). s \<noteq> mt_session ?m]\<rparr>"
  have i: "?i < length (hb_states h)" using inv_meter[OF assms(1,2)] by simp
  have same: "state_of ?hm = state_of h" by (simp add: state_of_def fun_eq_iff)
  define h2 where "h2 = put_state ?i ?st ?hm"
  have h2: "hb_users h2 = hb_users h" "length (hb_meters h2) = length (hb_meters h)" "length (hb_states h2) = length (hb_states h)"
    by (simp_all add: h2_def)
  have ms: "mt_state (hb_meters h2 ! j) = mt_state (hb_meters h ! j)" "mt_session (hb_meters h2 ! j) = mt_session (hb_meters h ! j)"
    "mt_closed (hb_meters h2 ! j) \<longleftrightarrow> mt_closed (hb_meters h ! j) \<or> j = k" if "j < length (hb_meters h)" for j
    using that assms(2) by (auto simp: h2_def nth_list_update)
  have states: "state_of h2 j = (if j = ?i then ?st else state_of h j)" for j
    using i by (simp add: h2_def same)
  have st: "us_userId (state_of h2 j) = us_userId (state_of h j)" "us_inFlight (state_of h2 j) = us_inFlight (state_of h j)"
    "us_seq (state_of h2 j) = us_seq (state_of h j)" "us_appliedSeq (state_of h2 j) = us_appliedSeq (state_of h j)"
    "us_ledger (state_of h2 j) = us_ledger (state_of h j)" "us_sessions (state_of h2 j) \<noteq> [] \<Longrightarrow> us_sessions (state_of h j) \<noteq> []"
    "s \<in> set (us_sessions (state_of h j)) \<Longrightarrow> s \<noteq> mt_session ?m \<Longrightarrow> s \<in> set (us_sessions (state_of h2 j))" for j s
    by (auto simp: states split: if_splits)
  have "List.map mt_state (hb_meters h2) = List.map mt_state (hb_meters h)"
    by (rule nth_equalityI) (simp_all add: h2 ms(1))
  then have owed: "owed_on (h2, g) j = owed_on (h, g) j" for j by (rule owed_on_meters)
  note olds = assms(1)[unfolded hub_inv_def fst_conv snd_conv]
  have "mt_session (hb_meters h2 ! j) \<in> set (us_sessions (state_of h2 (mt_state (hb_meters h2 ! j))))"
    if "j < length (hb_meters h)" "\<not> mt_closed (hb_meters h2 ! j)" for j
  proof -
    have j: "\<not> mt_closed (hb_meters h ! j)" "j \<noteq> k" using that ms by auto
    then have "mt_session (hb_meters h ! j) \<noteq> mt_session ?m" using olds that(1) assms(2,3) by blast
    moreover have "mt_session (hb_meters h ! j) \<in> set (us_sessions (state_of h (mt_state (hb_meters h ! j))))"
      using olds that(1) j(1) by blast
    ultimately show ?thesis unfolding ms(1,2)[OF that(1)] by (intro st(7))
  qed
  then have c6: "\<forall>j < length (hb_meters h). \<not> mt_closed (hb_meters h2 ! j) \<longrightarrow>
      mt_session (hb_meters h2 ! j) \<in> set (us_sessions (state_of h2 (mt_state (hb_meters h2 ! j))))" by blast
  have c7: "\<forall>a b. a < length (hb_meters h) \<longrightarrow> b < length (hb_meters h) \<longrightarrow> a \<noteq> b \<longrightarrow> mt_closed (hb_meters h2 ! a) \<or>
      mt_closed (hb_meters h2 ! b) \<or> mt_session (hb_meters h2 ! a) \<noteq> mt_session (hb_meters h2 ! b)"
    using olds ms by metis
  have c2: "\<forall>j < length (hb_meters h). mt_state (hb_meters h2 ! j) < length (hb_states h)"
    and c5: "\<forall>j < length (hb_meters h). us_ledger (state_of h2 (mt_state (hb_meters h2 ! j)))"
    using olds ms st(5) by simp_all
  have c9: "\<forall>j < length (hb_states h). us_sessions (state_of h2 j) \<noteq> [] \<or> us_inFlight (state_of h j) > 0 \<longrightarrow>
      js_get (hb_users h) (us_userId (state_of h j)) = Some j"
    using olds st(6) by blast
  have "hub_inv opts (h2, g)"
    unfolding hub_inv_def fst_conv snd_conv owed h2 st(1-4)
    by (intro conjI c2 c5 c6 c7 c9) (use olds in simp_all)
  then have "hub_inv opts (put_state ?i ?st ?hm, g)" by (simp add: h2_def)
  then show ?thesis unfolding meter_close_def Let_def using i by (intro hub_inv_evict) auto
qed

lemma inv_stateFor:
  assumes "hub_inv opts (h, g)" "stateFor u h = (i, h')"
  shows "hub_inv opts (h', g) \<and> i < length (hb_states h') \<and> js_get (hb_users h') u = Some i \<and>
    us_userId (state_of h' i) = u \<and> hb_meters h' = hb_meters h"
proof (cases "js_get (hb_users h) u")
  case None
  then have h': "h' = h\<lparr>hb_users := js_set u i (hb_users h), hb_states := hb_states h @ [new_user_state u]\<rparr>"
    and i: "i = length (hb_states h)"
    using assms(2) by (auto simp: stateFor_def Let_def)
  have states: "state_of h' j = (if j = i then new_user_state u else state_of h j)" if "j \<le> i" for j
    using that by (simp add: h' i state_of_def nth_append)
  have owed: "owed_on (h', g) j = owed_on (h, g) j" for j by (rule owed_on_meters) (simp add: h')
  have meters: "mt_state (hb_meters h ! k) < i" if "k < length (hb_meters h)" for k
    using inv_meter[OF assms(1) that] i by simp
  have "owed_on (h, g) i = 0"
    unfolding owed_on_def using meters by (intro sum.neutral) force
  moreover have "us_userId (state_of h j) \<noteq> u"
    if "j < i" "us_sessions (state_of h j) \<noteq> [] \<or> us_inFlight (state_of h j) > 0" for j
    using assms(1) that None unfolding hub_inv_def i fst_conv by fastforce
  ultimately have "hub_inv opts (h', g)"
    using assms(1) meters unfolding hub_inv_def fst_conv snd_conv owed
    by (auto simp: h' i states js_map_wf less_Suc_eq new_user_state_def state_of_def nth_append)
  then show ?thesis using states[of i] by (simp add: h' i new_user_state_def)
next
  case (Some j)
  then show ?thesis using assms by (auto simp: stateFor_def hub_inv_def)
qed


lemma inv_add_meter:
  assumes inv: "hub_inv opts (h, g)" and i: "i < length (hb_states h)" "s \<in> set (us_sessions (state_of h i))"
    "us_ledger (state_of h i)" and fresh: "\<forall>k < length (hb_meters h). mt_closed (hb_meters h ! k) \<or> mt_session (hb_meters h ! k) \<noteq> s"
  shows "hub_inv opts (h\<lparr>hb_meters := hb_meters h @ [\<lparr>mt_state = i, mt_session = s, mt_hosts = hl, mt_requests = rl, mt_closed = False\<rparr>]\<rparr>, g)"
proof -
  let ?m = "\<lparr>mt_state = i, mt_session = s, mt_hosts = hl, mt_requests = rl, mt_closed = False\<rparr>"
  let ?h = "h\<lparr>hb_meters := hb_meters h @ [?m]\<rparr>"
  let ?n = "length (hb_meters h)"
  have states: "state_of ?h = state_of h" by (simp add: state_of_def fun_eq_iff)
  have nth: "hb_meters ?h ! k = (if k < ?n then hb_meters h ! k else ?m)" if "k < Suc ?n" for k
    using that by (auto simp: nth_append less_Suc_eq)
  have zero: "g k = 0" if "?n \<le> k" for k using inv that by (simp add: hub_inv_def)
  have owed: "owed_on (?h, g) j = owed_on (h, g) j" for j
  proof -
    have "(\<Sum>k < Suc ?n. if mt_state (hb_meters ?h ! k) = j then g k else 0) = (\<Sum>k < ?n. if mt_state (hb_meters h ! k) = j then g k else 0)"
      using zero[of ?n] by (auto simp: nth_append intro!: sum.cong)
    then show ?thesis unfolding owed_on_def fst_conv snd_conv by simp
  qed
  have old: "mt_closed (hb_meters h ! k) \<or> mt_closed (hb_meters h ! j) \<or> mt_session (hb_meters h ! k) \<noteq> mt_session (hb_meters h ! j)"
    if "k < ?n" "j < ?n" "k \<noteq> j" for k j
    using inv that unfolding hub_inv_def fst_conv by blast
  have open_ones: "mt_closed (hb_meters ?h ! k) \<or> mt_closed (hb_meters ?h ! j) \<or>
      mt_session (hb_meters ?h ! k) \<noteq> mt_session (hb_meters ?h ! j)" if "k < Suc ?n" "j < Suc ?n" "k \<noteq> j" for k j
  proof -
    have "hb_meters ?h ! k = (if k < ?n then hb_meters h ! k else ?m)" "hb_meters ?h ! j = (if j < ?n then hb_meters h ! j else ?m)"
      using nth that(1,2) by blast+
    moreover have "k < ?n \<or> j < ?n" using that by linarith
    ultimately show ?thesis using old[of k j] that(3) fresh by (cases "k < ?n"; cases "j < ?n") (metis meter.select_convs(2) meter.select_convs(5))+
  qed
  have len: "length (hb_meters ?h) = Suc ?n" and users: "hb_users ?h = hb_users h" and sts: "hb_states ?h = hb_states h" by simp_all
  have all: "P (hb_meters ?h ! k)" if "k < Suc ?n" "\<And>k. k < ?n \<Longrightarrow> P (hb_meters h ! k)" "P ?m" for P k
    using nth[OF that(1)] that(2)[of k] that(3) by (cases "k < ?n") simp_all
  note olds = inv[unfolded hub_inv_def fst_conv snd_conv]
  have "mt_state (hb_meters ?h ! k) < length (hb_states h)" if "k < Suc ?n" for k
    by (rule all[OF that]) (use olds i in auto)
  then have c2: "\<forall>k < Suc ?n. mt_state (hb_meters ?h ! k) < length (hb_states h)" by blast
  have "us_ledger (state_of h (mt_state (hb_meters ?h ! k)))" if "k < Suc ?n" for k
    by (rule all[OF that, of "\<lambda>m. us_ledger (state_of h (mt_state m))"]) (use olds i in auto)
  then have c5: "\<forall>k < Suc ?n. us_ledger (state_of h (mt_state (hb_meters ?h ! k)))" by blast
  have "\<not> mt_closed (hb_meters ?h ! k) \<longrightarrow> mt_session (hb_meters ?h ! k) \<in> set (us_sessions (state_of h (mt_state (hb_meters ?h ! k))))"
    if "k < Suc ?n" for k
    by (rule all[OF that, of "\<lambda>m. \<not> mt_closed m \<longrightarrow> mt_session m \<in> set (us_sessions (state_of h (mt_state m)))"]) (use olds i in auto)
  then have c6: "\<forall>k < Suc ?n. \<not> mt_closed (hb_meters ?h ! k) \<longrightarrow>
      mt_session (hb_meters ?h ! k) \<in> set (us_sessions (state_of h (mt_state (hb_meters ?h ! k))))" by blast
  have c3: "\<forall>k \<ge> Suc ?n. g k = 0" using zero by simp
  have c7: "\<forall>k j. k < Suc ?n \<longrightarrow> j < Suc ?n \<longrightarrow> k \<noteq> j \<longrightarrow> mt_closed (hb_meters ?h ! k) \<or> mt_closed (hb_meters ?h ! j) \<or>
      mt_session (hb_meters ?h ! k) \<noteq> mt_session (hb_meters ?h ! j)" using open_ones by blast
  have c1: "js_wf (hb_users h)"
    and c4: "\<forall>u i. js_get (hb_users h) u = Some i \<longrightarrow> i < length (hb_states h) \<and> us_userId (state_of h i) = u"
    and c8: "\<forall>i < length (hb_states h). owed_on (h, g) i = us_inFlight (state_of h i) \<and>
        us_inFlight (state_of h i) \<le> ho_maxInFlight opts \<and> us_appliedSeq (state_of h i) \<le> us_seq (state_of h i)"
    and c9: "\<forall>i < length (hb_states h). us_sessions (state_of h i) \<noteq> [] \<or> us_inFlight (state_of h i) > 0 \<longrightarrow>
        js_get (hb_users h) (us_userId (state_of h i)) = Some i"
    using olds by simp_all
  show ?thesis
    unfolding hub_inv_def fst_conv snd_conv states owed len users sts
    by (intro conjI c1 c2 c3 c4 c5 c6 c7 c8 c9)
qed

lemma inv_forSession:
  assumes "hub_inv opts (h, g)" "list_all (\<lambda>m. mt_closed m \<or> mt_session m \<noteq> s) (hb_meters h)"
  shows "hub_inv opts (fst (forSession True s u hs rs h), g)"
proof -
  obtain i h1 where h1: "stateFor u h = (i, h1)" by (cases "stateFor u h")
  note sf = inv_stateFor[OF assms(1) h1]
  let ?st = "(state_of h1 i)\<lparr>us_sessions := (if s \<in> set (us_sessions (state_of h1 i)) then us_sessions (state_of h1 i)
      else us_sessions (state_of h1 i) @ [s]), us_ledger := True\<rparr>"
  define h2 where "h2 = put_state i ?st h1"
  have i: "i < length (hb_states h1)" and inv1: "hub_inv opts (h1, g)" and cur: "js_get (hb_users h1) u = Some i"
    and uid: "us_userId (state_of h1 i) = u" and ms: "hb_meters h1 = hb_meters h"
    using sf by auto
  have h2: "hb_users h2 = hb_users h1" "hb_meters h2 = hb_meters h1" "length (hb_states h2) = length (hb_states h1)"
    "state_of h2 i = ?st"
    using i by (simp_all add: h2_def)
  have st: "us_userId (state_of h2 j) = us_userId (state_of h1 j)" "us_inFlight (state_of h2 j) = us_inFlight (state_of h1 j)"
    "us_seq (state_of h2 j) = us_seq (state_of h1 j)" "us_appliedSeq (state_of h2 j) = us_appliedSeq (state_of h1 j)"
    "us_ledger (state_of h1 j) \<Longrightarrow> us_ledger (state_of h2 j)"
    "set (us_sessions (state_of h1 j)) \<subseteq> set (us_sessions (state_of h2 j))"
    "j \<noteq> i \<Longrightarrow> us_sessions (state_of h2 j) = us_sessions (state_of h1 j)" for j
    using i by (auto simp: h2_def)
  have owed: "owed_on (h2, g) j = owed_on (h1, g) j" for j by (rule owed_on_meters) (simp add: h2)
  have inv2: "hub_inv opts (h2, g)"
  proof -
    note olds = inv1[unfolded hub_inv_def fst_conv snd_conv]
    have c9: "\<forall>j < length (hb_states h1). us_sessions (state_of h2 j) \<noteq> [] \<or> us_inFlight (state_of h1 j) > 0 \<longrightarrow>
        js_get (hb_users h1) (us_userId (state_of h1 j)) = Some j"
    proof (intro allI impI)
      fix j assume j: "j < length (hb_states h1)" "us_sessions (state_of h2 j) \<noteq> [] \<or> us_inFlight (state_of h1 j) > 0"
      show "js_get (hb_users h1) (us_userId (state_of h1 j)) = Some j"
      proof (cases "j = i")
        case False
        with j st(7)[of j] have "us_sessions (state_of h1 j) \<noteq> [] \<or> us_inFlight (state_of h1 j) > 0" by simp
        then show ?thesis using olds j(1) by simp
      qed (simp add: cur uid)
    qed
    have c5: "\<forall>k < length (hb_meters h1). us_ledger (state_of h2 (mt_state (hb_meters h1 ! k)))"
      using olds by (simp add: st(5))
    have "\<forall>k < length (hb_meters h1). \<not> mt_closed (hb_meters h1 ! k) \<longrightarrow>
        mt_session (hb_meters h1 ! k) \<in> set (us_sessions (state_of h1 (mt_state (hb_meters h1 ! k))))"
      using olds by simp
    then have c6: "\<forall>k < length (hb_meters h1). \<not> mt_closed (hb_meters h1 ! k) \<longrightarrow>
        mt_session (hb_meters h1 ! k) \<in> set (us_sessions (state_of h2 (mt_state (hb_meters h1 ! k))))"
      by (meson st(6) subsetD)
    show ?thesis
      unfolding hub_inv_def fst_conv snd_conv owed h2(1-3) st(1-4)
      by (intro conjI c5 c6 c9) (use olds in simp_all)
  qed
  let ?h3 = "fst (check_begin i h2)"
  have inv3: "hub_inv opts (?h3, g)" using begin_spec(1)[OF inv2, of i] i h2 by simp
  have st3: "us_sessions (state_of ?h3 i) = us_sessions ?st" "us_ledger (state_of ?h3 i)" "length (hb_states ?h3) = length (hb_states h1)"
    "hb_meters ?h3 = hb_meters h"
    using i ms h2 by (auto simp: check_begin_def Let_def)
  let ?h4 = "?h3\<lparr>hb_meters := hb_meters ?h3 @ [\<lparr>mt_state = i, mt_session = s,
      mt_hosts = rev (remdups (rev (List.map normalizeBoundHost hs))), mt_requests = rs, mt_closed = False\<rparr>]\<rparr>"
  have "hub_inv opts (?h4, g)"
    by (rule inv_add_meter[OF inv3]) (use st3 i assms(2) in \<open>auto simp: list_all_length\<close>)
  moreover have "fst (forSession True s u hs rs h) = ?h4"
    by (cases "check_begin i h2") (simp add: forSession_def h1 h2_def[symmetric] Let_def)
  ultimately show ?thesis by simp
qed

lemma hub_inv_step:
  assumes "hub_inv opts w" "hub_legal op w"
  shows "hub_inv opts (hub_step opts op w)"
proof -
  obtain h g where w: "w = (h, g)" by (cases w)
  show ?thesis
  proof (cases op)
    case (HForSession l s u hs rs)
    then show ?thesis using assms w inv_forSession by auto
  next
    case (HCheckEnd now i seq a)
    then show ?thesis using assms w hub_inv_apply(1) by simp
  next
    case (HRecordEnd now i seq a)
    then show ?thesis using assms w hub_inv_apply(2) by simp
  next
    case (HAdmit now k)
    let ?i = "mt_state (hb_meters h ! k)"
    let ?h = "fst (refreshIfStale opts now ?i h)"
    have k: "k < length (hb_meters h)" using assms(2) w HAdmit by simp
    have i: "?i < length (hb_states h)" "us_ledger (state_of h ?i)"
      using inv_meter assms(1) w k by auto
    have inv: "hub_inv opts (?h, g)" using begin_spec(3)[of opts h g ?i] assms(1) w i by simp
    show ?thesis
      using assms(1) w HAdmit i inv k inv_take[OF inv, of k ?i]
      by (auto simp: meter_admit_def Let_def split: prod.splits option.splits)
  next
    case (HSettle k s)
    let ?i = "mt_state (hb_meters h ! k)"
    let ?h = "put_state ?i ((state_of h ?i)\<lparr>us_inFlight := us_inFlight (state_of h ?i) - 1\<rparr>) h"
    have k: "k < length (hb_meters h)" "0 < g k" using assms(2) w HSettle by auto
    have inv: "hub_inv opts (?h, g(k := g k - 1))" using inv_release[of opts h g k] assms(1) w k by simp
    have i: "?i < length (hb_states ?h)" using inv_meter assms(1) w k by simp
    show ?thesis
      using HSettle w begin_spec(2)[OF inv i] hub_inv_evict[OF inv i] inv
      by (auto simp: meter_settle_def Let_def)
  next
    case (HClose k)
    then show ?thesis using assms w inv_close by simp
  qed
qed

lemma hub_run_inv: "hub_inv opts w \<Longrightarrow> hub_run opts ops w = Some w' \<Longrightarrow> hub_inv opts w'"
proof (induction ops arbitrary: w)
  case (Cons op ops)
  then have "hub_legal op w" "hub_run opts ops (hub_step opts op w) = Some w'" by (auto split: if_splits)
  then show ?case using Cons hub_inv_step by blast
qed simp

lemma owed_by_current:
  assumes "hub_inv opts w"
  shows "owed_by w u = (case js_get (hb_users (fst w)) u of None \<Rightarrow> 0 | Some i \<Rightarrow> owed_on w i)"
proof -
  obtain h g where w: "w = (h, g)" by (cases w)
  let ?n = "length (hb_meters h)"
  let ?st = "\<lambda>k. mt_state (hb_meters h ! k)"
  have zero: "g k = 0" if "k < ?n" "us_userId (state_of h (?st k)) = u" "js_get (hb_users h) u \<noteq> Some (?st k)" for k
  proof -
    have "?st k < length (hb_states h)" using inv_meter assms w that(1) by auto
    then have "us_inFlight (state_of h (?st k)) = 0" "owed_on w (?st k) = us_inFlight (state_of h (?st k))"
      using assms that(2,3) w unfolding hub_inv_def by auto
    then have "(\<Sum>j < ?n. if ?st j = ?st k then g j else 0) = 0" unfolding owed_on_def w fst_conv snd_conv by simp
    then have "\<forall>j \<in> {..< ?n}. (if ?st j = ?st k then g j else 0) = 0" by (subst (asm) sum_eq_0_iff) simp_all
    then have "(if ?st k = ?st k then g k else 0) = 0" using that(1) by (metis lessThan_iff)
    then show ?thesis by simp
  qed
  have user: "us_userId (state_of h i) = u" if "js_get (hb_users h) u = Some i" for i
    using assms that w by (simp add: hub_inv_def)
  show ?thesis
  proof (cases "js_get (hb_users h) u")
    case None
    then have "owed_by w u = 0" unfolding owed_by_def w fst_conv snd_conv using zero by (intro sum.neutral) auto
    then show ?thesis using None w by simp
  next
    case (Some i)
    have "owed_by w u = owed_on w i"
      unfolding owed_by_def owed_on_def w fst_conv snd_conv using zero user[OF Some] Some by (intro sum.cong) auto
    then show ?thesis using Some w by simp
  qed
qed

text \<open>What the hub shows for a user is what the user's meters owe.\<close>

lemma hub_peek_owed:
  assumes inv: "hub_inv opts w"
  shows "owed_by w u \<le> ho_maxInFlight opts \<and>
    owed_by w u = (case hub_peek u (fst w) of None \<Rightarrow> 0 | Some (inFlight, blocked) \<Rightarrow> inFlight)"
  proof (cases "js_get (hb_users (fst w)) u")
    case None
    then show ?thesis by (simp add: owed_by_current[OF inv] hub_peek_def)
  next
    case (Some i)
    then have "owed_on w i = us_inFlight (state_of (fst w) i)" "us_inFlight (state_of (fst w) i) \<le> ho_maxInFlight opts"
      using inv unfolding hub_inv_def by auto
    then show ?thesis using Some by (simp add: owed_by_current[OF inv] hub_peek_def)
  qed

section \<open>The meter as its tunnels see it\<close>

text \<open>
  The promise of \<^verbatim>\<open>packages/credential-proxy/src/provider-usage.ts\<close>: an \<open>ok\<close> answer of
  \<open>admit\<close> reserves a slot, a refusal reserves nothing, and \<open>settle\<close> gives one slot back. What
  the other meters owe (\<open>others\<close>) stays.
\<close>

locale provider_meter =
  fixes admit :: "'m \<Rightarrow> admit_result \<times> 'm" and settle :: "settlement \<Rightarrow> 'm \<Rightarrow> 'm"
    and owed :: "'m \<Rightarrow> nat" and ok :: "'m \<Rightarrow> bool" and others :: "'m \<Rightarrow> 'o"
  assumes ok_admit: "ok m \<Longrightarrow> ok (snd (admit m))"
    and ok_settle: "ok m \<Longrightarrow> 0 < owed m \<Longrightarrow> ok (settle s m)"
    and owed_admit: "ok m \<Longrightarrow> owed (snd (admit m)) = (if fst (admit m) = AdmitOk then Suc (owed m) else owed m)"
    and owed_settle: "ok m \<Longrightarrow> 0 < owed m \<Longrightarrow> owed (settle s m) = owed m - 1"
    and others_admit: "others (snd (admit m)) = others m"
    and others_settle: "others (settle s m) = others m"

definition hub_admit :: "hub_options \<Rightarrow> nat \<Rightarrow> nat \<Rightarrow> metered_world \<Rightarrow> admit_result \<times> metered_world" where
  "hub_admit opts now k w = (fst (meter_admit opts now k (fst w)), hub_step opts (HAdmit now k) w)"

definition hub_settle :: "hub_options \<Rightarrow> nat \<Rightarrow> settlement \<Rightarrow> metered_world \<Rightarrow> metered_world" where
  "hub_settle opts k s w = hub_step opts (HSettle k s) w"


lemma calls_keep_meters [simp]:
  "hb_meters (maybeEvict i h) = hb_meters h" "hb_meters (fst (record_begin i s h)) = hb_meters h"
  "hb_meters (fst (check_begin i h)) = hb_meters h" "hb_meters (fst (refreshIfStale opts now i h)) = hb_meters h"
  by (auto simp: maybeEvict_def record_begin_def check_begin_def refreshIfStale_def Let_def)

lemma meter_ops_keep_meters [simp]:
  "hb_meters (fst (snd (meter_admit opts now k h))) = hb_meters h" "hb_meters (fst (meter_settle k s h)) = hb_meters h"
  by (cases "refreshIfStale opts now (mt_state (hb_meters h ! k)) h")
    (use calls_keep_meters(4)[of opts now "mt_state (hb_meters h ! k)" h] in
      \<open>auto simp: meter_admit_def meter_settle_def Let_def split: option.split\<close>)

lemma admit_cases: "snd (hub_admit opts now k w) =
  (fst (snd (meter_admit opts now k (fst w))),
   if fst (hub_admit opts now k w) = AdmitOk then (snd w)(k := Suc (snd w k)) else snd w)"
  by (cases w) (auto simp: hub_admit_def split: prod.split admit_result.split)

lemma settle_eq: "hub_settle opts k s w = (fst (meter_settle k s (fst w)), (snd w)(k := snd w k - 1))"
  by (cases w) (simp add: hub_settle_def)

interpretation hub_meter: provider_meter "hub_admit opts now k" "hub_settle opts k" "\<lambda>w. snd w k"
  "\<lambda>w. hub_inv opts w \<and> k < length (hb_meters (fst w))" "\<lambda>w. ((snd w)(k := 0), List.map mt_session (hb_meters (fst w)))"
  for opts now k
proof
  fix w :: metered_world and s
  assume ok: "hub_inv opts w \<and> k < length (hb_meters (fst w))"
  have legal: "hub_legal (HAdmit now k) w" using ok by (cases w) simp
  show "hub_inv opts (snd (hub_admit opts now k w)) \<and> k < length (hb_meters (fst (snd (hub_admit opts now k w))))"
    using hub_inv_step[OF _ legal, of opts] ok admit_cases[of opts now k w] by (simp add: hub_admit_def)
  assume "0 < snd w k"
  then have legal: "hub_legal (HSettle k s) w" using ok by (cases w) simp
  show "hub_inv opts (hub_settle opts k s w) \<and> k < length (hb_meters (fst (hub_settle opts k s w)))"
    using hub_inv_step[OF _ legal, of opts] ok settle_eq[of opts k s w] by (simp add: hub_settle_def)
qed (simp_all add: admit_cases settle_eq)

text \<open>Why a ledger is asked for: a call let through while there was none took no slot, but its end gives one
  back. Here a user's first session opens without a ledger and has a call out; a second opens when there is
  one, takes a slot for its own call, and the end of the first call frees it.\<close>

theorem uncounted_call_frees_a_slot:
  "let step = (\<lambda>q w. hub_step DEFAULT_HUB_OPTIONS q w);
       before = fold step [HForSession False ''s'' ''u'' [] [], HAdmit 0 0, HForSession True ''t'' ''u'' [] [],
         HCheckEnd 0 0 1 (Some NotBlocked), HAdmit 0 1] (new_hub, \<lambda>_. 0);
       after = step (HSettle 0 \<lparr>pc_billable = False, pc_model = None, pc_usage = None, pc_requestBytes = None, pc_partial = None\<rparr>) before
   in map_option fst (hub_peek ''u'' (fst before)) = Some 1 \<and> snd before 1 = 1 \<and>
      map_option fst (hub_peek ''u'' (fst after)) = Some 0 \<and> snd after 1 = 1"
  by code_simp

text \<open>The cap on calls in flight is per user: with a ledger present, whatever sessions a user opens
  and closes, in whatever order the ledger answers, and however states are evicted and made anew,
  the calls the user's meters admitted and have not settled are never more than
  \<^verbatim>\<open>maxInFlight\<close>, and the count the hub shows for the user is exactly their number.\<close>

theorem in_flight_cap_is_per_user:
  assumes "hub_run opts ops (new_hub, \<lambda>_. 0) = Some w"
  shows "owed_by w u \<le> ho_maxInFlight opts \<and>
    owed_by w u = (case hub_peek u (fst w) of None \<Rightarrow> 0 | Some (inFlight, blocked) \<Rightarrow> inFlight)"
  by (rule hub_peek_owed[OF hub_run_inv[OF hub_inv_new assms]])

lemma in_flight_cap_is_per_user_witness:
  "\<exists>w. hub_run \<lparr>ho_maxInFlight = 1, ho_refreshMs = 15, ho_probeMs = 5\<rparr>
      [HForSession True ''s1'' ''u'' [] [], HForSession True ''s2'' ''u'' [] [], HCheckEnd 0 0 1 (Some NotBlocked), HAdmit 1 0, HAdmit 1 1]
      (new_hub, \<lambda>_. 0) = Some w \<and> owed_by w ''u'' = 1"
proof -
  let ?opts = "\<lparr>ho_maxInFlight = 1, ho_refreshMs = 15, ho_probeMs = 5\<rparr>"
  let ?ops = "[HForSession True ''s1'' ''u'' [] [], HForSession True ''s2'' ''u'' [] [], HCheckEnd 0 0 1 (Some NotBlocked), HAdmit 1 0, HAdmit 1 1]"
  have "hub_run ?opts ?ops (new_hub, \<lambda>_. 0) \<noteq> None" by code_simp
  then obtain w where w: "hub_run ?opts ?ops (new_hub, \<lambda>_. 0) = Some w" by blast
  have "map_option (\<lambda>w. hub_peek ''u'' (fst w)) (hub_run ?opts ?ops (new_hub, \<lambda>_. 0)) = Some (Some (1, None))" by code_simp
  then show ?thesis using w in_flight_cap_is_per_user[OF w, of "''u''"] by auto
qed

end
