(* ===== verification/Metered_Tunnel.thy ===== *)
theory Metered_Tunnel
  imports Response_Tap Provider_Meter
begin

text \<open>
  The request side and the response side of a metered tunnel, after
  \<^verbatim>\<open>packages/credential-proxy/src/metered-tunnel.ts\<close>. The meter is an argument: what
  \<^verbatim>\<open>admit\<close> and \<^verbatim>\<open>settle\<close> do to its state, and its list of allowed requests. A tunnel is the
  policy that the request framer asks for every head (Request_Framer) and the listener of a response tap
  (Response_Tap). Nothing the tunnel calls throws in the model, so its empty \<^verbatim>\<open>catch\<close>
  blocks are not there; the messages of refusals are not modelled.
\<close>

section \<open>Allowed requests\<close>

text \<open>\<^verbatim>\<open>/^[A-Za-z0-9][A-Za-z0-9._:-]{0,127}$/\<close>\<close>

definition WILDCARD_SEGMENT :: "bytes \<Rightarrow> bool" where
  "WILDCARD_SEGMENT s \<longleftrightarrow>
     s \<noteq> [] \<and> is_alnum (hd s) \<and> length s \<le> 128 \<and> list_all (\<lambda>c. is_alnum c \<or> c \<in> set ''._:-'') (tl s)"

definition pathOf :: "bytes \<Rightarrow> bytes" where
  "pathOf target = takeWhile (\<lambda>c. c \<notin> set ''?#'') target"

definition pattern_allows :: "bytes \<Rightarrow> bytes \<Rightarrow> string \<Rightarrow> bool" where
  "pattern_allows meth path pat =
     (case index_of (CHR '' '') pat of
        None \<Rightarrow> False
      | Some space \<Rightarrow>
          if take space pat \<noteq> meth then False
          else let allowed = drop (space + 1) pat in
            if suffix ''/*'' allowed then
              let pre = butlast allowed in prefix pre path \<and> WILDCARD_SEGMENT (drop (length pre) path)
            else allowed = path)"

definition requestAllowed :: "bytes \<Rightarrow> bytes \<Rightarrow> string list \<Rightarrow> bool" where
  "requestAllowed meth target patterns \<longleftrightarrow>
     prefix ''/'' target \<and> list_ex (pattern_allows meth (pathOf target)) patterns"

definition MAX_OUTSTANDING :: nat where
  "MAX_OUTSTANDING = 256"

section \<open>The tunnel\<close>

record outstanding =
  od_method :: bytes
  od_path :: bytes
  od_admitted :: bool
  od_requestBytes :: "nat option"

record tunnel =
  tu_outstanding :: "outstanding list"
  tu_tap :: "usage_scanner tap"
  tu_ended :: bool

definition new_tunnel :: tunnel where
  "new_tunnel = \<lparr>tu_outstanding = [], tu_tap = new_tap, tu_ended = False\<rparr>"

definition ENCODED_EXPANSION :: nat where
  "ENCODED_EXPANSION = 4"

definition partialOf :: "scan_result tap_response \<Rightarrow> response_meta \<Rightarrow> nat \<times> bool" where
  "partialOf r meta =
     (if tr_encoded r then (rm_bodyBytes meta * ENCODED_EXPANSION, False) else (rm_bodyBytes meta, rm_streamed meta))"

definition isFree :: "outstanding \<Rightarrow> bool" where
  "isFree a \<longleftrightarrow> od_method a = ''GET'' \<or> suffix ''/count_tokens'' (od_path a)"

definition usage_of :: "scan_result tap_response \<Rightarrow> measured_usage option" where
  "usage_of r = Option.bind (tr_scanned r) sr_usage"

text \<open>What \<^verbatim>\<open>settle\<close> hands to the meter; the response comes with its size.\<close>

definition settlement_of :: "outstanding \<Rightarrow> (scan_result tap_response \<times> response_meta) option \<Rightarrow> settlement" where
  "settlement_of a answer =
     (if isFree a \<or> (case answer of Some (r, meta) \<Rightarrow> tr_status r \<ge> 400 | None \<Rightarrow> False)
      then \<lparr>pc_billable = False, pc_model = None, pc_usage = None, pc_requestBytes = od_requestBytes a, pc_partial = None\<rparr>
      else \<lparr>pc_billable = True,
        pc_model = Option.bind answer (\<lambda>(r, meta). Option.bind (tr_scanned r) sr_model),
        pc_usage = Option.bind answer (\<lambda>(r, meta). usage_of r),
        pc_requestBytes = od_requestBytes a,
        pc_partial = Option.bind answer (\<lambda>(r, meta).
          if \<not> tr_complete r \<or> usage_of r = None then Some (partialOf r meta) else None)\<rparr>)"

definition answered ::
    "(settlement \<Rightarrow> 'm \<Rightarrow> 'm) \<Rightarrow> scan_result tap_response \<Rightarrow> response_meta \<Rightarrow> outstanding list \<times> 'm \<Rightarrow> outstanding list \<times> 'm" where
  "answered settle r meta s =
     (case s of
        ([], m) \<Rightarrow> ([], m)
      | (a # rest, m) \<Rightarrow> (rest, if od_admitted a then settle (settlement_of a (Some (r, meta))) m else m))"

text \<open>The listener of the constructor: the first outstanding request, and \<^verbatim>\<open>answered\<close>.\<close>

definition tunnel_client :: "(settlement \<Rightarrow> 'm \<Rightarrow> 'm) \<Rightarrow> (scan_result, outstanding list \<times> 'm) tap_client" where
  "tunnel_client settle =
     \<lparr>tc_peek = (\<lambda>s. case fst s of [] \<Rightarrow> None | a # _ \<Rightarrow> Some (od_method a)), tc_onResponse = answered settle\<rparr>"

definition onRequestHead :: "('m \<Rightarrow> admit_result \<times> 'm) \<Rightarrow> string list \<Rightarrow> (tunnel \<times> 'm) policy" where
  "onRequestHead admit requests s info =
     (case s of (t, m) \<Rightarrow>
        if tu_ended t then ((t, m), Deny 429 ''busy'')
        else let path = pathOf (rh_target info);
            spliceable = (rh_version info = ''HTTP/1.1'' \<and> \<not> rh_folded info \<and>
              requestAllowed (rh_method info) (rh_target info) requests);
            waiting = (\<lambda>b. \<lparr>od_method = rh_method info, od_path = path, od_admitted = b,
              od_requestBytes = rh_contentLength info\<rparr>)
          in if length (tu_outstanding t) \<ge> MAX_OUTSTANDING then ((t, m), Deny 429 ''busy'')
             else if \<not> spliceable then
               ((t\<lparr>tu_outstanding := tu_outstanding t @ [waiting False]\<rparr>, m), Plain)
             else (case admit m of
                 (AdmitRefused reason, m) \<Rightarrow> ((t, m), Deny 429 reason)
               | (AdmitOk, m) \<Rightarrow> ((t\<lparr>tu_outstanding := tu_outstanding t @ [waiting True]\<rparr>, m), Splice)))"

definition onResponseBytes :: "(settlement \<Rightarrow> 'm \<Rightarrow> 'm) \<Rightarrow> bytes \<Rightarrow> tunnel \<times> 'm \<Rightarrow> tunnel \<times> 'm" where
  "onResponseBytes settle chunk s =
     (case s of (t, m) \<Rightarrow>
        if tu_ended t then (t, m)
        else (case tap_push usage_ops (tunnel_client settle) chunk (tu_tap t, tu_outstanding t, m) of
          (tap, waiting, m) \<Rightarrow> (t\<lparr>tu_tap := tap, tu_outstanding := waiting\<rparr>, m)))"

definition tunnel_end :: "(settlement \<Rightarrow> 'm \<Rightarrow> 'm) \<Rightarrow> tunnel \<times> 'm \<Rightarrow> tunnel \<times> 'm" where
  "tunnel_end settle s =
     (case s of (t, m) \<Rightarrow>
        if tu_ended t then (t, m)
        else (case tap_end usage_ops (tunnel_client settle) (tu_tap t, tu_outstanding t, m) of
          (tap, waiting, m) \<Rightarrow>
            (\<lparr>tu_outstanding = [], tu_tap = tap, tu_ended = True\<rparr>,
             fold (\<lambda>a m. if od_admitted a then settle (settlement_of a None) m else m) waiting m)))"

section \<open>What is spliced is listed\<close>

lemma WILDCARD_SEGMENT_chars:
  "WILDCARD_SEGMENT s \<Longrightarrow> CHR ''/'' \<notin> set s \<and> CHR ''%'' \<notin> set s \<and> hd s \<noteq> CHR ''.''"
proof -
  have "\<not> is_alnum (CHR ''/'') \<and> \<not> is_alnum (CHR ''%'') \<and> \<not> is_alnum (CHR ''.'')" by code_simp
  then show "WILDCARD_SEGMENT s \<Longrightarrow> ?thesis"
    by (cases s) (auto simp: WILDCARD_SEGMENT_def list_all_iff)
qed

lemma pattern_allows_iff:
  "pattern_allows meth path pat \<longleftrightarrow>
    (\<exists>allowed. pat = meth @ '' '' @ allowed \<and> CHR '' '' \<notin> set meth \<and>
      (\<not> suffix ''/*'' allowed \<and> path = allowed \<or>
       (\<exists>dir seg. allowed = dir @ ''/*'' \<and> path = dir @ ''/'' @ seg \<and> WILDCARD_SEGMENT seg)))"
proof (cases "index_of (CHR '' '') pat")
  case None
  then have "CHR '' '' \<notin> set pat" by (simp add: index_of_None)
  then show ?thesis using None by (auto simp: pattern_allows_def)
next
  case (Some i)
  let ?allowed = "drop (Suc i) pat"
  have pat: "pat = take i pat @ '' '' @ ?allowed" "CHR '' '' \<notin> set (take i pat)"
    using index_of_split[OF Some] index_of_Some[OF Some] by simp_all
  have unique: "meth = take i pat \<and> allowed = ?allowed" if "pat = meth @ '' '' @ allowed" "CHR '' '' \<notin> set meth" for allowed
  proof -
    have "index_of (CHR '' '') pat = Some (length meth)" using that by (simp add: index_of_append)
    then have "i = length meth" using Some by simp
    then show ?thesis using that(1) by simp
  qed
  have wild: "(prefix (butlast al) path \<and> WILDCARD_SEGMENT (drop (length (butlast al)) path)) \<longleftrightarrow>
      (\<exists>dir seg. al = dir @ ''/*'' \<and> path = dir @ ''/'' @ seg \<and> WILDCARD_SEGMENT seg)" if "suffix ''/*'' al" for al
  proof -
    obtain dir where al: "al = dir @ ''/*''" using \<open>suffix ''/*'' al\<close> by (auto simp: suffix_def)
    then have "butlast al = dir @ ''/''" by (simp add: butlast_append)
    then show ?thesis using al by (auto simp: prefix_def)
  qed
  have "pattern_allows meth path pat \<longleftrightarrow> take i pat = meth \<and>
      (if suffix ''/*'' ?allowed then prefix (butlast ?allowed) path \<and> WILDCARD_SEGMENT (drop (length (butlast ?allowed)) path)
       else ?allowed = path)"
    by (simp add: pattern_allows_def Some)
  also have "\<dots> \<longleftrightarrow> take i pat = meth \<and> (\<not> suffix ''/*'' ?allowed \<and> path = ?allowed \<or>
      (\<exists>dir seg. ?allowed = dir @ ''/*'' \<and> path = dir @ ''/'' @ seg \<and> WILDCARD_SEGMENT seg))"
    using wild[of ?allowed] by (auto simp: suffix_def)
  also have "\<dots> \<longleftrightarrow> (\<exists>allowed. pat = meth @ '' '' @ allowed \<and> CHR '' '' \<notin> set meth \<and>
      (\<not> suffix ''/*'' allowed \<and> path = allowed \<or>
       (\<exists>dir seg. allowed = dir @ ''/*'' \<and> path = dir @ ''/'' @ seg \<and> WILDCARD_SEGMENT seg)))"
    using pat unique by metis
  finally show ?thesis .
qed

lemma onRequestHead_Splice:
  "onRequestHead admit requests (t, m) info = (s', Splice) \<Longrightarrow>
    rh_version info = ''HTTP/1.1'' \<and> \<not> rh_folded info \<and> fst (admit m) = AdmitOk \<and>
    requestAllowed (rh_method info) (rh_target info) requests"
  by (auto simp: onRequestHead_def Let_def split: if_splits prod.splits admit_result.splits)

text \<open>C24. The key goes only into an unfolded HTTP/1.1 request that the gate admitted and that is on the
  session's list, read without normalisation: its path is a listed path, or a listed directory and one
  more segment that cannot climb (no slash, no escape, no leading dot).\<close>

theorem spliced_request_is_listed:
  assumes "onRequestHead admit requests (t, m) info = (s', Splice)"
  shows "rh_version info = ''HTTP/1.1'' \<and> \<not> rh_folded info \<and> fst (admit m) = AdmitOk \<and>
    (\<exists>allowed. rh_method info @ '' '' @ allowed \<in> set requests \<and> CHR '' '' \<notin> set (rh_method info) \<and>
      (pathOf (rh_target info) = allowed \<or>
       (\<exists>dir seg. allowed = dir @ ''/*'' \<and> pathOf (rh_target info) = dir @ ''/'' @ seg \<and> seg \<noteq> [] \<and>
          CHR ''/'' \<notin> set seg \<and> CHR ''%'' \<notin> set seg \<and> hd seg \<noteq> CHR ''.'')))"
proof -
  have "requestAllowed (rh_method info) (rh_target info) requests" using onRequestHead_Splice[OF assms] by blast
  then obtain pat where "pat \<in> set requests" "pattern_allows (rh_method info) (pathOf (rh_target info)) pat"
    by (auto simp: requestAllowed_def list_ex_iff)
  moreover have "seg \<noteq> []" if "WILDCARD_SEGMENT seg" for seg using that by (simp add: WILDCARD_SEGMENT_def)
  ultimately show ?thesis
    using onRequestHead_Splice[OF assms] WILDCARD_SEGMENT_chars unfolding pattern_allows_iff by blast
qed

lemma spliced_request_is_listed_witness:
  "\<exists>dir seg. ''/v1/models/*'' = dir @ ''/*'' \<and> pathOf ''/v1/models/claude-x?beta=1'' = dir @ ''/'' @ seg \<and> hd seg \<noteq> CHR ''.''"
proof -
  let ?info = "\<lparr>rh_method = ''GET'', rh_target = ''/v1/models/claude-x?beta=1'', rh_version = ''HTTP/1.1'',
    rh_contentLength = Some 0, rh_folded = False\<rparr>"
  let ?run = "onRequestHead (\<lambda>n. (AdmitOk, Suc n)) [''GET /v1/models/*''] (new_tunnel, 0) ?info"
  have "snd ?run = Splice" by code_simp
  then have "?run = (fst ?run, Splice)" by (metis prod.collapse)
  from spliced_request_is_listed[OF this]
  obtain allowed where "''GET'' @ '' '' @ allowed \<in> set [''GET /v1/models/*'']"
    "pathOf ''/v1/models/claude-x?beta=1'' = allowed \<or>
     (\<exists>dir seg. allowed = dir @ ''/*'' \<and> pathOf ''/v1/models/claude-x?beta=1'' = dir @ ''/'' @ seg \<and> hd seg \<noteq> CHR ''.'')"
    by auto
  moreover have "pathOf ''/v1/models/claude-x?beta=1'' = ''/v1/models/claude-x''" by code_simp
  ultimately show ?thesis by auto
qed

section \<open>Every admitted call is settled once\<close>

definition slots :: "outstanding list \<Rightarrow> nat" where
  "slots waiting = length [a \<leftarrow> waiting. od_admitted a]"

lemma slots_simps [simp]:
  "slots [] = 0" "slots (a # as) = (if od_admitted a then Suc (slots as) else slots as)" "slots (as @ bs) = slots as + slots bs"
  by (simp_all add: slots_def)

text \<open>The meter holds one slot for each admitted request that waits, beside \<open>base\<close> others.\<close>

definition balanced :: "('m \<Rightarrow> nat) \<Rightarrow> ('m \<Rightarrow> bool) \<Rightarrow> ('m \<Rightarrow> 'o) \<Rightarrow> nat \<Rightarrow> 'o \<Rightarrow> outstanding list \<times> 'm \<Rightarrow> bool" where
  "balanced owed ok others base rest s \<longleftrightarrow>
     ok (snd s) \<and> owed (snd s) = base + slots (fst s) \<and> others (snd s) = rest"

context provider_meter
begin

abbreviation even_books :: "nat \<Rightarrow> 'o \<Rightarrow> outstanding list \<times> 'm \<Rightarrow> bool" where
  "even_books \<equiv> balanced owed ok others"

lemma answered_balanced: "even_books base rest s \<Longrightarrow> even_books base rest (answered settle r meta s)"
  by (auto simp: balanced_def answered_def ok_settle owed_settle others_settle split: prod.split list.split)

lemma reports_balanced: "reports_keep (even_books base rest) (tunnel_client settle)"
  by (simp add: reports_keep_def tunnel_client_def answered_balanced)

lemma head_balanced:
  "even_books base rest (tu_outstanding t, m) \<Longrightarrow>
    case fst (onRequestHead admit requests (t, m) info) of (t', m') \<Rightarrow>
      even_books base rest (tu_outstanding t', m') \<and> (tu_ended t' \<longleftrightarrow> tu_ended t) \<and> (tu_ended t \<longrightarrow> t' = t)"
  using ok_admit[of m] owed_admit[of m] others_admit[of m]
  by (auto simp: balanced_def onRequestHead_def Let_def split: prod.splits admit_result.splits)

lemma response_balanced:
  "even_books base rest (tu_outstanding t, m) \<Longrightarrow>
    case onResponseBytes settle chunk (t, m) of (t', m') \<Rightarrow>
      even_books base rest (tu_outstanding t', m') \<and> (tu_ended t' \<longleftrightarrow> tu_ended t) \<and> (tu_ended t \<longrightarrow> t' = t)"
  using keep_run[OF reports_balanced, of base rest "(tu_outstanding t, m)" usage_ops "tu_tap t" chunk]
  by (auto simp: onResponseBytes_def tap_push_run split: prod.split)

lemma rest_balanced:
  "even_books base rest (waiting, m) \<Longrightarrow>
    even_books base rest ([], fold (\<lambda>a m. if od_admitted a then settle (settlement_of a None) m else m) waiting m)"
  by (induction waiting arbitrary: m) (auto simp: balanced_def ok_settle owed_settle others_settle)

lemma tap_end_keeps: "reports_keep P cl \<Longrightarrow> P q \<Longrightarrow> P (snd (tap_end ops cl (t, q)))"
  by (simp add: tap_end_def Let_def keep_report)

lemma end_balanced:
  assumes "even_books base rest (tu_outstanding t, m)" "tu_ended t \<longrightarrow> tu_outstanding t = []"
  shows "case tunnel_end settle (t, m) of (t', m') \<Rightarrow>
    even_books base rest (tu_outstanding t', m') \<and> tu_ended t' \<and> tu_outstanding t' = []"
  using assms tap_end_keeps[OF reports_balanced assms(1), of usage_ops "tu_tap t"] rest_balanced
  by (auto simp: tunnel_end_def split: prod.split)

end


section \<open>Each answer settles its own request\<close>

definition no_head :: "outstanding list \<times> 'm \<Rightarrow> bool" where
  "no_head s \<longleftrightarrow> list_all (\<lambda>a. lower (od_method a) \<noteq> ''head'') (fst s)"

lemma no_head_kept: "reports_keep no_head (tunnel_client settle)"
  by (auto simp: reports_keep_def no_head_def tunnel_client_def answered_def split: list.split)

lemma no_head_peek: "no_head s \<Longrightarrow> \<not> peekIsHead (tunnel_client settle) s"
  by (cases "fst s") (simp_all add: no_head_def peekIsHead_def tunnel_client_def)

lemma responses_run:
  "tu_ended t = False \<Longrightarrow>
    fold (onResponseBytes settle) cs (t, m) =
    (case fold (tap_push usage_ops (tunnel_client settle)) cs (tu_tap t, tu_outstanding t, m) of
       (tap, waiting, m) \<Rightarrow> (t\<lparr>tu_tap := tap, tu_outstanding := waiting\<rparr>, m))"
proof (induction cs arbitrary: t m)
  case (Cons c cs)
  obtain tap waiting m' where step: "tap_push usage_ops (tunnel_client settle) c (tu_tap t, tu_outstanding t, m) = (tap, waiting, m')"
    by (metis surj_pair)
  then have "onResponseBytes settle c (t, m) = (t\<lparr>tu_tap := tap, tu_outstanding := waiting\<rparr>, m')"
    using Cons.prems by (simp add: onResponseBytes_def)
  then show ?case using Cons.IH[of "t\<lparr>tu_tap := tap, tu_outstanding := waiting\<rparr>" m'] Cons.prems step
    by (simp split: prod.split)
qed simp

lemma answers_run:
  "length rs \<le> length waiting \<Longrightarrow>
    fold (\<lambda>r s. case wire_report scan_body r of (resp, meta) \<Rightarrow> answered settle resp meta s) rs (waiting, m) =
    (drop (length rs) waiting,
     fold (\<lambda>(a, r) m. if od_admitted a then settle (settlement_of a (Some (wire_report scan_body r))) m else m) (zip waiting rs) m)"
proof (induction rs arbitrary: waiting m)
  case (Cons r rs)
  then obtain a as where "waiting = a # as" by (cases waiting) auto
  then show ?case using Cons by (auto simp: answered_def split: prod.split)
qed simp

text \<open>C23. Answers and requests pair up in order. Let a tunnel that has not ended stand between two responses,
  with no HEAD request among its waiting ones, and let no more responses come than requests wait. The
  responses come back whole, cut into buffers anywhere, and each is of the kind \<open>wire_ok\<close> describes: its
  head is complete and within the cap, its status is neither below 200 nor 204 or 304, and its body is
  counted with the right \<^verbatim>\<open>Content-Length\<close> or chunked with plain lower-case
  hexadecimal sizes, without extensions and trailers; and no
  counter or model entry of its body is longer than the scanner carries over (\<open>scannable\<close>). Then they
  settle the oldest waiting requests one by one, each admitted one with what its own response says, and
  the others with nothing; the requests without an answer go on waiting.\<close>

theorem each_answer_settles_its_request:
  assumes "tu_ended t = False" "tu_tap t = new_tap" "no_head (tu_outstanding t, m)"
    and "length rs \<le> length (tu_outstanding t)" "list_all wire_ok rs" "list_all (\<lambda>r. scannable (wire_payload (wr_body r))) rs"
    and "concat cs = concat (List.map wire_bytes rs)"
    and "fold (onResponseBytes settle) cs (t, m) = (t', m')"
  shows "tu_outstanding t' = drop (length rs) (tu_outstanding t) \<and>
    m' = fold (\<lambda>(a, r) m. if od_admitted a then settle (settlement_of a (Some (wire_report scan_body r))) m else m)
      (zip (tu_outstanding t) rs) m"
proof -
  have "snd (fold (tap_push usage_ops (tunnel_client settle)) cs (new_tap, tu_outstanding t, m)) =
      fold (\<lambda>r q. case wire_report scan_body r of (resp, meta) \<Rightarrow> tc_onResponse (tunnel_client settle) resp meta q) rs (tu_outstanding t, m)"
    using tap_responses[OF assms(5,6) no_head_kept no_head_peek assms(3) assms(7)] by simp
  also have "\<dots> = (drop (length rs) (tu_outstanding t),
      fold (\<lambda>(a, r) m. if od_admitted a then settle (settlement_of a (Some (wire_report scan_body r))) m else m)
        (zip (tu_outstanding t) rs) m)"
    using answers_run[OF assms(4)] by (simp add: tunnel_client_def)
  finally show ?thesis
    using assms(8) unfolding responses_run[OF assms(1)] assms(2) by (auto split: prod.splits)
qed

lemma each_answer_settles_its_request_witness:
  "let a = \<lparr>od_method = ''POST'', od_path = ''/v1/messages'', od_admitted = True, od_requestBytes = Some 9\<rparr>;
       b = \<lparr>od_method = ''POST'', od_path = ''/v1/messages'', od_admitted = True, od_requestBytes = None\<rparr>;
       bytes = wire_bytes demo_counted @ wire_bytes demo_chunked;
       run = fold (onResponseBytes (\<lambda>s log. log @ [s])) [take 40 bytes, drop 40 bytes]
         (new_tunnel\<lparr>tu_outstanding := [a, b, b]\<rparr>, [])
   in tu_outstanding (fst run) = [b] \<and> List.map pc_billable (snd run) = [True, False] \<and>
      List.map (map_option mu_outputTokens \<circ> pc_usage) (snd run) = [Some 12, None]"
proof -
  define a where "a = \<lparr>od_method = ''POST'', od_path = ''/v1/messages'', od_admitted = True, od_requestBytes = Some 9\<rparr>"
  define b where "b = \<lparr>od_method = ''POST'', od_path = ''/v1/messages'', od_admitted = True, od_requestBytes = None\<rparr>"
  define bs where "bs = wire_bytes demo_counted @ wire_bytes demo_chunked"
  let ?t = "new_tunnel\<lparr>tu_outstanding := [a, b, b]\<rparr>"
  let ?rs = "[demo_counted, demo_chunked]"
  obtain t' m' where run: "fold (onResponseBytes (\<lambda>s log. log @ [s])) [take 40 bs, drop 40 bs] (?t, []) = (t', m')"
    by (metis surj_pair)
  have ok: "list_all wire_ok ?rs" by code_simp
  have fit: "list_all (\<lambda>r. scannable (wire_payload (wr_body r))) ?rs" by code_simp
  have heads: "no_head (tu_outstanding ?t, [])" unfolding a_def b_def by code_simp
  have cut: "concat [take 40 bs, drop 40 bs] = concat (List.map wire_bytes ?rs)"
    by (simp only: concat.simps append_Nil2 append_take_drop_id list.map bs_def)
  have got: "tu_outstanding t' = drop (length ?rs) (tu_outstanding ?t) \<and>
      m' = fold (\<lambda>(a, r) m. if od_admitted a then m @ [settlement_of a (Some (wire_report scan_body r))] else m)
        (zip (tu_outstanding ?t) ?rs) []"
    by (rule each_answer_settles_its_request[OF _ _ heads _ ok fit cut run]) (simp_all add: new_tunnel_def)
  have "List.map pc_billable [settlement_of a (Some (wire_report scan_body demo_counted)),
      settlement_of b (Some (wire_report scan_body demo_chunked))] = [True, False]"
    "List.map (map_option mu_outputTokens \<circ> pc_usage) [settlement_of a (Some (wire_report scan_body demo_counted)),
      settlement_of b (Some (wire_report scan_body demo_chunked))] = [Some 12, None]"
    unfolding a_def b_def by code_simp+
  then show ?thesis
    using got run unfolding a_def[symmetric] b_def[symmetric] bs_def[symmetric] Let_def by (simp add: a_def b_def new_tunnel_def)
qed
end
