(* ===== verification/Metered_Proxy.thy ===== *)
theory Metered_Proxy
  imports Metered_Tunnel
begin

text \<open>
  The metered traffic of one proxy as a whole: client bytes go through a request framer whose policy is
  the tunnel (\<^verbatim>\<open>request-framer.ts\<close>, \<^verbatim>\<open>metered-tunnel.ts\<close>), server bytes through the tunnel's tap
  (\<^verbatim>\<open>response-tap.ts\<close>), and all tunnels of a user share that user's state in the hub
  (\<^verbatim>\<open>provider-meter.ts\<close>). The order of events is arbitrary within \<open>proxy_legal\<close>. The wiring is that of
  \<^verbatim>\<open>handleMITMConnect\<close> in \<^verbatim>\<open>packages/credential-proxy/src/listener.ts\<close>: the
  \<^verbatim>\<open>data\<close> handlers of the two sockets, and \<^verbatim>\<open>cleanup\<close>; the scan of raw chunks for canaries,
  the audit entries and the sockets themselves are not modelled.
\<close>

section \<open>Connections\<close>

record conn =
  cn_meter :: nat
  cn_framer :: framer
  cn_tunnel :: tunnel

record proxy_world =
  pw_meters :: metered_world
  pw_conns :: "conn list"

definition new_world :: proxy_world where
  "new_world = \<lparr>pw_meters = (new_hub, \<lambda>_. 0), pw_conns = []\<rparr>"

definition metered_options :: "hub_options \<Rightarrow> nat \<Rightarrow> nat \<Rightarrow> hub \<Rightarrow> (tunnel \<times> metered_world) framer_options" where
  "metered_options opts now k h =
     \<lparr>fo_maxHead = DEFAULT_MAX_HEAD,
      fo_metered = Some (onRequestHead (hub_admit opts now k) (mt_requests (hb_meters h ! k)))\<rparr>"

text \<open>The handlers of a connection: client bytes, server bytes, \<^verbatim>\<open>cleanup\<close>.\<close>

definition client_data ::
    "hub_options \<Rightarrow> nat \<Rightarrow> replacer \<Rightarrow> js_text list \<Rightarrow> bytes \<Rightarrow> conn \<Rightarrow> metered_world \<Rightarrow> conn \<times> metered_world" where
  "client_data opts now rep tokens chunk c w =
     (case framer_process (metered_options opts now (cn_meter c) (fst w)) rep tokens chunk (cn_framer c, cn_tunnel c, w) of
        (fr, (t, w), _) \<Rightarrow> (c\<lparr>cn_framer := fr, cn_tunnel := t\<rparr>, w))"

definition server_data :: "hub_options \<Rightarrow> bytes \<Rightarrow> conn \<Rightarrow> metered_world \<Rightarrow> conn \<times> metered_world" where
  "server_data opts chunk c w =
     (case onResponseBytes (hub_settle opts (cn_meter c)) chunk (cn_tunnel c, w) of (t, w) \<Rightarrow> (c\<lparr>cn_tunnel := t\<rparr>, w))"

definition cleanup :: "hub_options \<Rightarrow> conn \<Rightarrow> metered_world \<Rightarrow> conn \<times> metered_world" where
  "cleanup opts c w =
     (case tunnel_end (hub_settle opts (cn_meter c)) (cn_tunnel c, w) of (t, w) \<Rightarrow> (c\<lparr>cn_tunnel := t\<rparr>, w))"

text \<open>What can happen: the hub's own events, a new tunnel on a meter, and the handlers.\<close>

datatype conn_event = ClientData nat replacer "js_text list" bytes | ServerData bytes | Cleanup

datatype proxy_event = OnHub hub_op | OnConnect nat | OnConn nat conn_event

fun conn_step :: "hub_options \<Rightarrow> conn_event \<Rightarrow> conn \<Rightarrow> metered_world \<Rightarrow> conn \<times> metered_world" where
  "conn_step opts (ClientData now rep tokens chunk) c w = client_data opts now rep tokens chunk c w"
| "conn_step opts (ServerData chunk) c w = server_data opts chunk c w"
| "conn_step opts Cleanup c w = cleanup opts c w"

fun proxy_step :: "hub_options \<Rightarrow> proxy_event \<Rightarrow> proxy_world \<Rightarrow> proxy_world" where
  "proxy_step opts (OnHub hop) w = w\<lparr>pw_meters := hub_step opts hop (pw_meters w)\<rparr>"
| "proxy_step opts (OnConnect k) w =
     w\<lparr>pw_conns := pw_conns w @ [\<lparr>cn_meter = k, cn_framer = new_framer, cn_tunnel = new_tunnel\<rparr>]\<rparr>"
| "proxy_step opts (OnConn j ev) w =
     (case conn_step opts ev (pw_conns w ! j) (pw_meters w) of
        (c, m) \<Rightarrow> \<lparr>pw_meters = m, pw_conns = (pw_conns w)[j := c]\<rparr>)"

fun not_metering :: "hub_op \<Rightarrow> bool" where
  "not_metering (HAdmit _ _) = False"
| "not_metering (HSettle _ _) = False"
| "not_metering _ = True"

text \<open>Slots are taken and given back by the tunnels only; a meter and a connection are those there are; and the
  hub's callers keep to \<open>hub_legal\<close>: a ledger is present when a session opens, and the session's meter of
  before is closed.\<close>

fun proxy_legal :: "proxy_event \<Rightarrow> proxy_world \<Rightarrow> bool" where
  "proxy_legal (OnHub hop) w = (not_metering hop \<and> hub_legal hop (pw_meters w))"
| "proxy_legal (OnConnect k) w = (k < length (hb_meters (fst (pw_meters w))))"
| "proxy_legal (OnConn j ev) w = (j < length (pw_conns w))"

fun proxy_run :: "hub_options \<Rightarrow> proxy_event list \<Rightarrow> proxy_world \<Rightarrow> proxy_world option" where
  "proxy_run opts [] w = Some w"
| "proxy_run opts (e # es) w = (if proxy_legal e w then proxy_run opts es (proxy_step opts e w) else None)"

section \<open>The framer keeps what its policy keeps\<close>

primrec policy_after :: "'p round \<Rightarrow> 'p" where
  "policy_after (Again st p out injected rest) = p"
| "policy_after (Return st p r) = p"

definition policy_keeps :: "('p \<Rightarrow> bool) \<Rightarrow> 'p policy option \<Rightarrow> bool" where
  "policy_keeps P metered \<longleftrightarrow> (\<forall>pol p info. metered = Some pol \<and> P p \<longrightarrow> P (fst (pol p info)))"

lemma decide_keeps:
  assumes "policy_keeps P metered" "P p"
  shows "P (fst (decide_head metered rep tokens head p))"
proof (cases metered)
  case (Some pol)
  then have "P (fst (pol p info))" for info using assms by (simp add: policy_keeps_def)
  then have "P p'" if "pol p info = (p', v)" for info p' v using that by (metis fst_conv)
  then show ?thesis using assms(2) Some
    by (auto simp: decide_head_def split: sum.splits prod.splits option.splits request_verdict.splits)
qed (simp add: decide_head_def assms)

lemma round_keeps:
  assumes "policy_keeps P (fo_metered opts)" "P p"
  shows "P (policy_after (framer_round opts rep tokens st p out injected working))"
proof -
  have "P (policy_after (head_round opts rep tokens st p out injected buf))" for buf
  proof (cases "find_sub HEAD_END buf")
    case None
    then show ?thesis using assms(2) by (simp add: head_round_def split: sum.split)
  next
    case (Some i)
    obtain p' o' where d: "decide_head (fo_metered opts) rep tokens (take (i + 4) buf) p = (p', o')" by (metis surj_pair)
    then have "P p'" using decide_keeps[OF assms, of rep tokens "take (i + 4) buf"] by simp
    then show ?thesis using Some d by (simp add: head_round_def Let_def split: head_outcome.split)
  qed
  then show ?thesis using assms(2) by (simp add: framer_round_def body_round_def Let_def split: phase.split)
qed

lemma framer_keeps:
  "policy_keeps P (fo_metered opts) \<Longrightarrow> P p \<Longrightarrow> P (fst (snd (framer_loop opts rep tokens st p out injected working)))"
proof (induction opts rep tokens st p out injected working rule: framer_loop.induct)
  case (1 opts rep tokens st p out injected working)
  have next_ok: "P (policy_after (framer_round opts rep tokens st p out injected working))"
    using round_keeps[OF 1(2,3)] .
  show ?case
  proof (cases "framer_round opts rep tokens st p out injected working")
    case (Again st' p' out' injected' working')
    then have "P p'" using next_ok by simp
    from 1(1)[OF Again 1(2) this] show ?thesis using Again by (subst framer_loop.simps) simp
  next
    case (Return st' p' r)
    then show ?thesis using next_ok by (subst framer_loop.simps) simp
  qed
qed

section \<open>No slot is lost\<close>

definition waiting_calls :: "(nat \<Rightarrow> bool) \<Rightarrow> conn list \<Rightarrow> nat" where
  "waiting_calls Q cs = (\<Sum>c \<leftarrow> cs. if Q (cn_meter c) then slots (tu_outstanding (cn_tunnel c)) else 0)"

lemma waiting_calls_simps [simp]:
  "waiting_calls Q [] = 0"
  "waiting_calls Q (c # cs) = (if Q (cn_meter c) then slots (tu_outstanding (cn_tunnel c)) else 0) + waiting_calls Q cs"
  "waiting_calls Q (cs @ ds) = waiting_calls Q cs + waiting_calls Q ds"
  by (simp_all add: waiting_calls_def)

lemma waiting_calls_update:
  assumes "j < length cs" "cn_meter c = cn_meter (cs ! j)"
  shows "waiting_calls Q (cs[j := c]) + (if Q (cn_meter c) then slots (tu_outstanding (cn_tunnel (cs ! j))) else 0) =
    waiting_calls Q cs + (if Q (cn_meter c) then slots (tu_outstanding (cn_tunnel c)) else 0)"
  using assms
proof (induction cs arbitrary: j)
  case (Cons d ds)
  show ?case
  proof (cases j)
    case (Suc i)
    then show ?thesis using Cons.IH[of i] Cons.prems by (auto split: if_splits)
  qed (use Cons in simp)
qed simp

lemma sum_by_meter:
  "list_all (\<lambda>c. cn_meter c < n) cs \<Longrightarrow>
    (\<Sum>k < n. if Q k then waiting_calls (\<lambda>i. i = k) cs else 0) = waiting_calls Q cs"
proof (induction cs)
  case Nil
  then show ?case by (simp add: sum.neutral)
next
  case (Cons c cs)
  let ?s = "slots (tu_outstanding (cn_tunnel c))"
  have "(\<Sum>k < n. if Q k then waiting_calls (\<lambda>i. i = k) (c # cs) else 0) =
      (\<Sum>k < n. (if k = cn_meter c then (if Q k then ?s else 0) else 0) + (if Q k then waiting_calls (\<lambda>i. i = k) cs else 0))"
    by (rule sum.cong) auto
  also have "\<dots> = (if Q (cn_meter c) then ?s else 0) + waiting_calls Q cs"
    using Cons by (simp add: sum.distrib)
  finally show ?case by simp
qed

definition conn_ok :: "metered_world \<Rightarrow> conn \<Rightarrow> bool" where
  "conn_ok w c \<longleftrightarrow> cn_meter c < length (hb_meters (fst w)) \<and>
     (tu_ended (cn_tunnel c) \<longrightarrow> tu_outstanding (cn_tunnel c) = [])"

definition world_inv :: "hub_options \<Rightarrow> proxy_world \<Rightarrow> bool" where
  "world_inv opts w \<longleftrightarrow>
     hub_inv opts (pw_meters w) \<and> list_all (conn_ok (pw_meters w)) (pw_conns w) \<and>
     (\<forall>k. snd (pw_meters w) k = waiting_calls (\<lambda>i. i = k) (pw_conns w))"

text \<open>The books of one connection: what \<open>balanced\<close> says of its tunnel and the hub.\<close>

definition conn_books :: "hub_options \<Rightarrow> nat \<Rightarrow> nat \<Rightarrow> (nat \<Rightarrow> nat) \<times> string list \<Rightarrow> conn \<Rightarrow> metered_world \<Rightarrow> bool" where
  "conn_books opts k base rest c w \<longleftrightarrow>
     cn_meter c = k \<and> (tu_ended (cn_tunnel c) \<longrightarrow> tu_outstanding (cn_tunnel c) = []) \<and>
     balanced (\<lambda>w. snd w k) (\<lambda>w. hub_inv opts w \<and> k < length (hb_meters (fst w)))
       (\<lambda>w. ((snd w)(k := 0), List.map mt_session (hb_meters (fst w)))) base rest (tu_outstanding (cn_tunnel c), w)"

lemma client_books:
  assumes "conn_books opts k base rest c w"
  shows "case client_data opts now rep tokens chunk c w of (c', w') \<Rightarrow> conn_books opts k base rest c' w'"
proof -
  let ?opts = "metered_options opts now (cn_meter c) (fst w)"
  let ?P = "\<lambda>(t, w). conn_books opts k base rest (c\<lparr>cn_tunnel := t\<rparr>) w"
  have k: "cn_meter c = k" using assms by (simp add: conn_books_def)
  have "policy_keeps ?P (fo_metered ?opts)"
    unfolding policy_keeps_def metered_options_def k
  proof (intro allI impI, elim conjE)
    fix pol p info
    assume pol: "fo_metered \<lparr>fo_maxHead = DEFAULT_MAX_HEAD,
        fo_metered = Some (onRequestHead (hub_admit opts now k) (mt_requests (hb_meters (fst w) ! k)))\<rparr> = Some pol" and p: "?P p"
    obtain t m where tm: "p = (t, m)" by (cases p)
    have pol: "pol = onRequestHead (hub_admit opts now k) (mt_requests (hb_meters (fst w) ! k))" using pol by simp
    from p show "?P (fst (pol p info))"
      using hub_meter.head_balanced[where t = t and m = m and opts = opts and now = now and k = k and base = base and rest = rest
          and requests = "mt_requests (hb_meters (fst w) ! k)" and info = info]
      unfolding tm pol conn_books_def by (auto split: prod.splits)
  qed
  moreover have "?P (cn_tunnel c, w)" using assms by (simp add: conn_books_def)
  ultimately have "?P (fst (snd (framer_process ?opts rep tokens chunk (cn_framer c, cn_tunnel c, w))))"
    unfolding framer_process_def fst_conv snd_conv by (rule framer_keeps)
  then show ?thesis by (auto simp: client_data_def conn_books_def split: prod.splits)
qed

lemma server_books:
  assumes "conn_books opts k base rest c w"
  shows "case server_data opts chunk c w of (c', w') \<Rightarrow> conn_books opts k base rest c' w'"
  using assms hub_meter.response_balanced[where t = "cn_tunnel c" and m = w and opts = opts and k = k and base = base and rest = rest
      and chunk = chunk]
  by (auto simp: server_data_def conn_books_def split: prod.splits)

lemma cleanup_books:
  assumes "conn_books opts k base rest c w"
  shows "case cleanup opts c w of (c', w') \<Rightarrow> conn_books opts k base rest c' w'"
  using assms hub_meter.end_balanced[where t = "cn_tunnel c" and m = w and opts = opts and k = k and base = base and rest = rest]
  by (auto simp: cleanup_def conn_books_def split: prod.splits)

lemma conn_step_books:
  "conn_books opts k base rest c w \<Longrightarrow> case conn_step opts ev c w of (c', w') \<Rightarrow> conn_books opts k base rest c' w'"
  by (cases ev) (use client_books server_books cleanup_books in simp_all)


lemma conn_step_inv:
  assumes inv: "world_inv opts w" and j: "j < length (pw_conns w)"
  shows "world_inv opts (proxy_step opts (OnConn j ev) w)"
proof -
  let ?c = "pw_conns w ! j"
  let ?m = "pw_meters w"
  let ?k = "cn_meter ?c"
  let ?waiting = "\<lambda>c. slots (tu_outstanding (cn_tunnel c))"
  define base where "base = snd ?m ?k - ?waiting ?c"
  define rest where "rest = ((snd ?m)(?k := 0), List.map mt_session (hb_meters (fst ?m)))"
  obtain c' m' where step: "conn_step opts ev ?c ?m = (c', m')" by (metis surj_pair)
  have all: "list_all (conn_ok ?m) (pw_conns w)" using inv by (simp add: world_inv_def)
  then have c: "conn_ok ?m ?c" using j by (simp add: list_all_length)
  have "?waiting ?c \<le> waiting_calls (\<lambda>i. i = ?k) (pw_conns w)"
    using waiting_calls_update[OF j, of "?c\<lparr>cn_tunnel := new_tunnel\<rparr>" "\<lambda>i. i = ?k"] by (simp add: new_tunnel_def)
  then have "snd ?m ?k = base + ?waiting ?c" using inv by (simp add: base_def world_inv_def)
  then have "conn_books opts ?k base rest ?c ?m"
    using inv c by (simp add: conn_books_def balanced_def rest_def conn_ok_def world_inv_def)
  then have after: "conn_books opts ?k base rest c' m'" using conn_step_books[of opts ?k base rest ?c ?m ev] by (simp add: step)
  then have "snd m' ?k = base + ?waiting c'" "(snd m')(?k := 0) = (snd ?m)(?k := 0)"
    by (simp_all add: conn_books_def balanced_def rest_def)
  then have owed: "snd m' = (snd ?m)(?k := base + ?waiting c')" by (metis fun_upd_triv fun_upd_upd)
  have len: "length (hb_meters (fst m')) = length (hb_meters (fst ?m))" and hub: "hub_inv opts m'"
    and c': "cn_meter c' = ?k" "tu_ended (cn_tunnel c') \<longrightarrow> tu_outstanding (cn_tunnel c') = []"
    using after by (auto simp: conn_books_def balanced_def rest_def dest: map_eq_imp_length_eq)
  have "list_all (conn_ok m') ((pw_conns w)[j := c'])"
    unfolding list_all_iff
  proof
    fix d
    assume "d \<in> set ((pw_conns w)[j := c'])"
    then have "d = c' \<or> d \<in> set (pw_conns w)" using set_update_subset_insert by fastforce
    then show "conn_ok m' d" using all c c' len by (auto simp: conn_ok_def list_all_iff)
  qed
  moreover have "snd m' k = waiting_calls (\<lambda>i. i = k) ((pw_conns w)[j := c'])" for k
    using waiting_calls_update[OF j c'(1), of "\<lambda>i. i = k"] inv \<open>snd ?m ?k = base + ?waiting ?c\<close> c'(1)
    by (cases "k = ?k") (auto simp: owed world_inv_def)
  ultimately show ?thesis using hub step by (simp add: world_inv_def)
qed

lemma hub_step_quiet:
  assumes "not_metering hop"
  shows "snd (hub_step opts hop w) = snd w \<and> length (hb_meters (fst w)) \<le> length (hb_meters (fst (hub_step opts hop w)))"
proof -
  obtain h g where w: "w = (h, g)" by (cases w)
  have meters: "hb_meters (snd (stateFor u h)) = hb_meters h" for u
    by (simp add: stateFor_def Let_def split: option.split)
  have "length (hb_meters h) \<le> length (hb_meters (fst (forSession l s u hs rs h)))" for l s u hs rs
    using meters[of u] by (auto simp: forSession_def check_begin_def Let_def split: prod.splits)
  then show ?thesis using assms w
    by (cases hop) (simp_all add: check_end_def record_end_def meter_close_def Let_def)
qed

lemma world_inv_step:
  assumes "world_inv opts w" "proxy_legal e w"
  shows "world_inv opts (proxy_step opts e w)"
proof (cases e)
  case (OnHub hop)
  have "list_all (conn_ok (hub_step opts hop (pw_meters w))) (pw_conns w)"
    using assms OnHub hub_step_quiet[of hop opts "pw_meters w"] by (auto simp: world_inv_def conn_ok_def list_all_iff)
  then show ?thesis
    using assms OnHub hub_inv_step[of opts "pw_meters w" hop] hub_step_quiet[of hop opts "pw_meters w"]
    by (simp add: world_inv_def)
next
  case (OnConnect k)
  then show ?thesis using assms by (simp add: world_inv_def conn_ok_def new_tunnel_def)
next
  case (OnConn j ev)
  then show ?thesis using assms conn_step_inv by simp
qed

lemma world_inv_run: "world_inv opts w \<Longrightarrow> proxy_run opts es w = Some w' \<Longrightarrow> world_inv opts w'"
proof (induction es arbitrary: w)
  case (Cons e es)
  then have "proxy_legal e w" "proxy_run opts es (proxy_step opts e w) = Some w'" by (auto split: if_splits)
  then show ?case using Cons world_inv_step by blast
qed simp

lemma world_inv_new: "world_inv opts new_world"
  by (simp add: world_inv_def new_world_def hub_inv_new)

definition user_of_meter :: "hub \<Rightarrow> nat \<Rightarrow> string" where
  "user_of_meter h k = us_userId (state_of h (mt_state (hb_meters h ! k)))"

lemma owed_by_waiting:
  assumes "world_inv opts w"
  shows "owed_by (pw_meters w) u = waiting_calls (\<lambda>k. user_of_meter (fst (pw_meters w)) k = u) (pw_conns w)"
proof -
  have "list_all (\<lambda>c. cn_meter c < length (hb_meters (fst (pw_meters w)))) (pw_conns w)"
    using assms by (auto simp: world_inv_def conn_ok_def list_all_iff)
  moreover have "snd (pw_meters w) = (\<lambda>k. waiting_calls (\<lambda>i. i = k) (pw_conns w))"
    using assms by (simp add: world_inv_def fun_eq_iff)
  ultimately show ?thesis
    using sum_by_meter[of "length (hb_meters (fst (pw_meters w)))" "pw_conns w" "\<lambda>k. user_of_meter (fst (pw_meters w)) k = u"]
    unfolding owed_by_def user_of_meter_def by presburger
qed

lemma waiting_calls_ended:
  "list_all (conn_ok m) cs \<Longrightarrow> waiting_calls Q [c \<leftarrow> cs. \<not> tu_ended (cn_tunnel c)] = waiting_calls Q cs"
  by (induction cs) (auto simp: conn_ok_def)

text \<open>C22. No slot is lost and none is made, in the courses \<open>proxy_run\<close> takes: every session is opened while a
  ledger is present, and only after the meter it had before was closed; each meter is closed once; each
  answer of the ledger answers a call that was made. The plugin keeps to the second as long as its opens of
  one session do not overlap; without a ledger calls pass uncounted and the counts do not mean anything
  (\<open>uncounted_call_frees_a_slot\<close>). In such a course, whatever bytes clients and servers send and in
  whatever order the connections, the hub and the ledger otherwise move, the calls in flight that the hub
  counts for a user are exactly the admitted requests waiting on that user's tunnels that have not ended,
  and never more than the cap. So once the tunnels have ended, nothing is held.\<close>

theorem calls_in_flight_are_waiting_requests:
  assumes "proxy_run opts es new_world = Some w"
  shows "(case hub_peek u (fst (pw_meters w)) of None \<Rightarrow> 0 | Some (inFlight, blocked) \<Rightarrow> inFlight) =
      waiting_calls (\<lambda>k. user_of_meter (fst (pw_meters w)) k = u) [c \<leftarrow> pw_conns w. \<not> tu_ended (cn_tunnel c)] \<and>
    waiting_calls (\<lambda>k. user_of_meter (fst (pw_meters w)) k = u) (pw_conns w) \<le> ho_maxInFlight opts"
proof -
  have inv: "world_inv opts w" using world_inv_run[OF world_inv_new assms] .
  then have hub: "hub_inv opts (pw_meters w)" and conns: "list_all (conn_ok (pw_meters w)) (pw_conns w)"
    by (simp_all add: world_inv_def)
  show ?thesis
    using hub_peek_owed[OF hub, of u] owed_by_waiting[OF inv, of u] waiting_calls_ended[OF conns] by simp
qed


definition demo_request :: bytes where
  "demo_request = head_bytes [''POST /v1/messages HTTP/1.1'', ''content-length: 2'']"

definition demo_events :: "proxy_event list" where
  "demo_events =
     [OnHub (HForSession True ''s'' ''u'' [''api''] [''POST /v1/messages'']), OnHub (HCheckEnd 0 0 1 (Some NotBlocked)),
      OnConnect 0, OnConn 0 (ClientData 1 NOOP_REPLACER [] demo_request),
      OnConn 0 (ClientData 2 NOOP_REPLACER [] (''{}'' @ demo_request)), OnConn 0 (ServerData (wire_bytes demo_counted))]"

lemma calls_in_flight_are_waiting_requests_witness:
  "\<exists>w. proxy_run DEFAULT_HUB_OPTIONS demo_events new_world = Some w \<and>
     (case hub_peek ''u'' (fst (pw_meters w)) of None \<Rightarrow> 0 | Some (inFlight, blocked) \<Rightarrow> inFlight) = 1"
proof -
  let ?run = "proxy_run DEFAULT_HUB_OPTIONS demo_events new_world"
  have ends: "map_option (\<lambda>w. waiting_calls (\<lambda>k. user_of_meter (fst (pw_meters w)) k = ''u'')
      [c \<leftarrow> pw_conns w. \<not> tu_ended (cn_tunnel c)]) ?run = Some 1" by code_simp
  then obtain w where w: "?run = Some w" by (cases ?run) auto
  then show ?thesis using ends calls_in_flight_are_waiting_requests[OF w, of "''u''"] by simp
qed

end
