(* ===== verification/Http_Router.thy ===== *)
theory Http_Router
  imports Js_Text "HOL-Library.Product_Lexorder"
begin

text \<open>
  The route table of the HTTP server, after \<^verbatim>\<open>packages/http-server/src/router.ts\<close>: exact routes,
  patterns with \<^verbatim>\<open>:param\<close> segments, and splats that end in \<^verbatim>\<open>*\<close>. A route path and a
  request path are texts of single bytes (a URL's path is ASCII); the values of parameters are code
  points. The function that \<^verbatim>\<open>register\<close> returns is a numbered closure of the router's state, and
  its number also names the pattern entry it made, which the code finds again by identity. Messages of
  errors are not modelled.
\<close>

section \<open>Percent decoding\<close>

text \<open>\<^verbatim>\<open>decodeURIComponent\<close>: the escaped bytes must be UTF-8, otherwise it throws (\<open>None\<close>).\<close>

function uri_decode :: "utf8_pending option \<Rightarrow> string \<Rightarrow> js_text option" where
  "uri_decode pend [] = (if pend = None then Some [] else None)"
| "uri_decode pend (c # s) =
     (if c \<noteq> CHR ''%'' then (if pend = None then map_option ((#) (of_char c)) (uri_decode None s) else None)
      else if length s < 2 \<or> \<not> is_hex_any (s ! 0) \<or> \<not> is_hex_any (s ! 1) then None
      else let b = hex_value (s ! 0) * 16 + hex_value (s ! 1); rest = drop 2 s in
        (case pend of
           None \<Rightarrow>
             (case utf8_start b of
                Emit p \<Rightarrow> map_option ((#) p) (uri_decode None rest)
              | Need n p lo hi \<Rightarrow> uri_decode (Some (n, p, lo, hi)) rest
              | Bad \<Rightarrow> None)
         | Some (n, p, lo, hi) \<Rightarrow>
             if b < lo \<or> hi < b then None
             else (case n of
                 0 \<Rightarrow> map_option ((#) (p * 64 + (b - 0x80))) (uri_decode None rest)
               | Suc m \<Rightarrow> uri_decode (Some (m, p * 64 + (b - 0x80), 0x80, 0xBF)) rest)))"
  by pat_completeness auto
termination by (relation "measure (length \<circ> snd)") auto

definition decodePathSegment :: "string \<Rightarrow> js_text" where
  "decodePathSegment raw = (case uri_decode None raw of Some t \<Rightarrow> t | None \<Rightarrow> ascii raw)"

section \<open>Patterns\<close>

datatype segment = Literal string | Param string | Splat

datatype route_error = SplatNotFinal | EmptyParam | InvalidParam | DuplicateParam | DuplicateRoute

definition splitPathSegments :: "string \<Rightarrow> string list" where
  "splitPathSegments path = drop 1 (split_text ''/'' path)"

text \<open>\<^verbatim>\<open>/^[A-Za-z_][A-Za-z0-9_]*$/\<close>\<close>

definition param_name :: "string \<Rightarrow> bool" where
  "param_name s \<longleftrightarrow> s \<noteq> [] \<and> list_all is_word s \<and> \<not> is_digit (hd s)"

fun compile_segments :: "string list \<Rightarrow> string list \<Rightarrow> route_error + segment list" where
  "compile_segments seen [] = Inr []"
| "compile_segments seen (s # ss) =
     (if s = ''*'' then
        (if ss \<noteq> [] then Inl SplatNotFinal else Inr [Splat])
      else if starts_with '':'' s then
        (let name = drop 1 s in
         if name = [] then Inl EmptyParam
         else if \<not> param_name name then Inl InvalidParam
         else if name \<in> set seen then Inl DuplicateParam
         else (case compile_segments (name # seen) ss of Inl e \<Rightarrow> Inl e | Inr r \<Rightarrow> Inr (Param name # r)))
      else (case compile_segments seen ss of Inl e \<Rightarrow> Inl e | Inr r \<Rightarrow> Inr (Literal s # r)))"

definition compilePathPattern :: "string \<Rightarrow> route_error + segment list option" where
  "compilePathPattern path =
     (let hasSplat = (path = ''/*'' \<or> suffix ''/*'' path \<or> has_sub ''/*/'' path) in
      if CHR '':'' \<notin> set path \<and> \<not> hasSplat then Inr None
      else (case compile_segments [] (splitPathSegments path) of Inl e \<Rightarrow> Inl e | Inr r \<Rightarrow> Inr (Some r)))"

definition isSplatPattern :: "segment list \<Rightarrow> bool" where
  "isSplatPattern segs \<longleftrightarrow> segs \<noteq> [] \<and> last segs = Splat"

definition literalCount :: "segment list \<Rightarrow> nat" where
  "literalCount segs = length [s \<leftarrow> segs. case s of Literal _ \<Rightarrow> True | _ \<Rightarrow> False]"

definition isMoreSpecificSplat :: "segment list \<Rightarrow> segment list \<Rightarrow> bool" where
  "isMoreSpecificSplat a b =
     (let aFixed = length a - 1; bFixed = length b - 1 in
      if aFixed \<noteq> bFixed then aFixed > bFixed else literalCount a > literalCount b)"

text \<open>\<^verbatim>\<open>params[name] = value\<close>: a string assigned to \<^verbatim>\<open>__proto__\<close> is ignored.\<close>

type_synonym params = "(string, js_text) jsmap"

definition param_set :: "string \<Rightarrow> js_text \<Rightarrow> params \<Rightarrow> params" where
  "param_set name v ps = (if name = ''__proto__'' then ps else js_set name v ps)"

fun match_fixed :: "segment list \<Rightarrow> string list \<Rightarrow> params \<Rightarrow> (params \<times> string list) option" where
  "match_fixed [] req ps = Some (ps, req)"
| "match_fixed (seg # segs) [] ps = None"
| "match_fixed (seg # segs) (got # req) ps =
     (case seg of
        Literal l \<Rightarrow> if l \<noteq> got then None else match_fixed segs req ps
      | Param name \<Rightarrow> if got = [] then None else match_fixed segs req (param_set name (decodePathSegment got) ps)
      | Splat \<Rightarrow> if got = [] then None else match_fixed segs req (param_set ''*'' (decodePathSegment got) ps))"

definition matchPattern :: "segment list \<Rightarrow> string list \<Rightarrow> params option" where
  "matchPattern segs req =
     (let hasSplat = isSplatPattern segs in
      if hasSplat \<and> length req < length segs - 1 then None
      else if \<not> hasSplat \<and> length segs \<noteq> length req then None
      else (case match_fixed (if hasSplat then butlast segs else segs) req [] of
          None \<Rightarrow> None
        | Some (ps, rest) \<Rightarrow> Some (if hasSplat then js_set ''*'' (ascii (join_with ''/'' rest)) ps else ps)))"

section \<open>The table\<close>

datatype http_method = GET | POST | PUT | PATCH | DELETE

record 'h exact_route =
  er_method :: http_method
  er_path :: string
  er_handler :: 'h
  er_bypassCsrf :: bool
  er_maxBodyBytes :: "nat option"

record 'h pattern_route =
  pr_id :: nat
  pr_method :: http_method
  pr_pattern :: string
  pr_segments :: "segment list"
  pr_handler :: 'h
  pr_bypassCsrf :: bool
  pr_maxBodyBytes :: "nat option"

record 'h match_result =
  mr_handler :: 'h
  mr_route :: string
  mr_params :: params
  mr_bypassCsrf :: bool
  mr_maxBodyBytes :: "nat option"

datatype unregister_closure = UnregExact http_method string | UnregPattern http_method nat

text \<open>\<open>rt_closures\<close> holds the closures handed out, each with its \<^verbatim>\<open>unregistered\<close> flag. The
  key \<^verbatim>\<open>`${method} ${path}`\<close> is the pair: no method has a blank.\<close>

record 'h router =
  rt_exact :: "(http_method \<times> string, 'h exact_route) jsmap"
  rt_patterns :: "(http_method, 'h pattern_route list) jsmap"
  rt_methods :: "(string, http_method list) jsmap"
  rt_closures :: "(unregister_closure \<times> bool) list"

definition new_router :: "'h router" where
  "new_router = \<lparr>rt_exact = [], rt_patterns = [], rt_methods = [], rt_closures = []\<rparr>"

definition methods_of :: "'h router \<Rightarrow> string \<Rightarrow> http_method list" where
  "methods_of r path = (case js_get (rt_methods r) path of None \<Rightarrow> [] | Some ms \<Rightarrow> ms)"

definition patterns_of :: "'h router \<Rightarrow> http_method \<Rightarrow> 'h pattern_route list" where
  "patterns_of r m = (case js_get (rt_patterns r) m of None \<Rightarrow> [] | Some es \<Rightarrow> es)"

definition registerExact ::
    "http_method \<Rightarrow> string \<Rightarrow> 'h \<Rightarrow> bool \<Rightarrow> nat option \<Rightarrow> 'h router \<Rightarrow> (route_error + nat) \<times> 'h router" where
  "registerExact m path handler bypass cap r =
     (if js_get (rt_exact r) (m, path) \<noteq> None then (Inl DuplicateRoute, r)
      else (Inr (length (rt_closures r)),
        r\<lparr>rt_exact := js_set (m, path) \<lparr>er_method = m, er_path = path, er_handler = handler,
              er_bypassCsrf = bypass, er_maxBodyBytes = cap\<rparr> (rt_exact r),
          rt_methods := js_set path (let ms = methods_of r path in if m \<in> set ms then ms else ms @ [m]) (rt_methods r),
          rt_closures := rt_closures r @ [(UnregExact m path, False)]\<rparr>))"

definition registerPattern ::
    "http_method \<Rightarrow> string \<Rightarrow> segment list \<Rightarrow> 'h \<Rightarrow> bool \<Rightarrow> nat option \<Rightarrow> 'h router \<Rightarrow> (route_error + nat) \<times> 'h router" where
  "registerPattern m pat segs handler bypass cap r =
     (let es = patterns_of r m; r = r\<lparr>rt_patterns := js_set m es (rt_patterns r)\<rparr> in
      if list_ex (\<lambda>e. pr_pattern e = pat) es then (Inl DuplicateRoute, r)
      else let k = length (rt_closures r) in
        (Inr k,
         r\<lparr>rt_patterns := js_set m (es @ [\<lparr>pr_id = k, pr_method = m, pr_pattern = pat, pr_segments = segs,
              pr_handler = handler, pr_bypassCsrf = bypass, pr_maxBodyBytes = cap\<rparr>]) (rt_patterns r),
           rt_closures := rt_closures r @ [(UnregPattern m k, False)]\<rparr>))"

definition register_route ::
    "http_method \<Rightarrow> string \<Rightarrow> 'h \<Rightarrow> bool \<Rightarrow> nat option \<Rightarrow> 'h router \<Rightarrow> (route_error + nat) \<times> 'h router" where
  "register_route m path handler bypass cap r =
     (case compilePathPattern path of
        Inl e \<Rightarrow> (Inl e, r)
      | Inr None \<Rightarrow> registerExact m path handler bypass cap r
      | Inr (Some segs) \<Rightarrow> registerPattern m path segs handler bypass cap r)"

text \<open>Calling the closure number \<open>k\<close>.\<close>

definition drop_exact :: "http_method \<Rightarrow> string \<Rightarrow> 'h router \<Rightarrow> 'h router" where
  "drop_exact m path r =
     r\<lparr>rt_exact := js_delete (m, path) (rt_exact r),
       rt_methods :=
         (case js_get (rt_methods r) path of
            None \<Rightarrow> rt_methods r
          | Some ms \<Rightarrow>
              let ms = [x \<leftarrow> ms. x \<noteq> m] in
              if ms = [] then js_delete path (rt_methods r) else js_set path ms (rt_methods r))\<rparr>"

definition drop_pattern :: "http_method \<Rightarrow> nat \<Rightarrow> 'h router \<Rightarrow> 'h router" where
  "drop_pattern m k r =
     (case js_get (rt_patterns r) m of
        None \<Rightarrow> r
      | Some es \<Rightarrow>
          let es = (case index_of k (List.map pr_id es) of None \<Rightarrow> es | Some i \<Rightarrow> take i es @ drop (Suc i) es) in
          r\<lparr>rt_patterns := (if es = [] then js_delete m (rt_patterns r) else js_set m es (rt_patterns r))\<rparr>)"

definition unregister_route :: "nat \<Rightarrow> 'h router \<Rightarrow> 'h router" where
  "unregister_route k r =
     (case rt_closures r ! k of
        (c, True) \<Rightarrow> r
      | (c, False) \<Rightarrow>
          let r = r\<lparr>rt_closures := (rt_closures r)[k := (c, True)]\<rparr> in
          (case c of UnregExact m path \<Rightarrow> drop_exact m path r | UnregPattern m i \<Rightarrow> drop_pattern m i r))"

definition pattern_result :: "'h pattern_route \<Rightarrow> params \<Rightarrow> 'h match_result" where
  "pattern_result e ps =
     \<lparr>mr_handler = pr_handler e, mr_route = pr_pattern e, mr_params = ps,
      mr_bypassCsrf = pr_bypassCsrf e, mr_maxBodyBytes = pr_maxBodyBytes e\<rparr>"

fun first_param_route :: "'h pattern_route list \<Rightarrow> string list \<Rightarrow> 'h match_result option" where
  "first_param_route [] req = None"
| "first_param_route (e # es) req =
     (if isSplatPattern (pr_segments e) then first_param_route es req
      else case matchPattern (pr_segments e) req of
          None \<Rightarrow> first_param_route es req
        | Some ps \<Rightarrow> Some (pattern_result e ps))"

fun best_splat ::
    "'h pattern_route list \<Rightarrow> string list \<Rightarrow> ('h pattern_route \<times> params) option \<Rightarrow> ('h pattern_route \<times> params) option" where
  "best_splat [] req best = best"
| "best_splat (e # es) req best =
     (if \<not> isSplatPattern (pr_segments e) then best_splat es req best
      else case matchPattern (pr_segments e) req of
          None \<Rightarrow> best_splat es req best
        | Some ps \<Rightarrow>
            best_splat es req
              (case best of
                 None \<Rightarrow> Some (e, ps)
               | Some (b, bp) \<Rightarrow> if isMoreSpecificSplat (pr_segments e) (pr_segments b) then Some (e, ps) else best))"

definition match_route :: "http_method \<Rightarrow> string \<Rightarrow> 'h router \<Rightarrow> 'h match_result option" where
  "match_route m path r =
     (case js_get (rt_exact r) (m, path) of
        Some e \<Rightarrow> Some \<lparr>mr_handler = er_handler e, mr_route = er_path e, mr_params = [],
            mr_bypassCsrf = er_bypassCsrf e, mr_maxBodyBytes = er_maxBodyBytes e\<rparr>
      | None \<Rightarrow>
          (case js_get (rt_patterns r) m of
             None \<Rightarrow> None
           | Some es \<Rightarrow>
               let req = splitPathSegments path in
               (case first_param_route es req of
                  Some res \<Rightarrow> Some res
                | None \<Rightarrow> map_option (\<lambda>(e, ps). pattern_result e ps) (best_splat es req None))))"

definition methodsFor :: "string \<Rightarrow> 'h router \<Rightarrow> http_method set" where
  "methodsFor path r =
     set (methods_of r path) \<union>
     set [m. (m, es) \<leftarrow> rt_patterns r, list_ex (\<lambda>e. matchPattern (pr_segments e) (splitPathSegments path) \<noteq> None) es]"

section \<open>The first of the greatest\<close>

definition first_max :: "('a \<Rightarrow> 'b::linorder) \<Rightarrow> 'a list \<Rightarrow> 'a option" where
  "first_max f xs = List.find (\<lambda>x. list_all (\<lambda>y. f y \<le> f x) xs) xs"

fun keep_best :: "('a \<Rightarrow> 'b::linorder) \<Rightarrow> 'a list \<Rightarrow> 'a option \<Rightarrow> 'a option" where
  "keep_best f [] best = best"
| "keep_best f (x # xs) best =
     keep_best f xs (case best of None \<Rightarrow> Some x | Some b \<Rightarrow> if f x > f b then Some x else best)"

lemma find_cong': "(\<And>x. x \<in> set xs \<Longrightarrow> P x = Q x) \<Longrightarrow> List.find P xs = List.find Q xs"
  by (induction xs) auto

lemma find_mem: "List.find P xs = Some x \<Longrightarrow> x \<in> set xs"
  unfolding find_Some_iff by (metis nth_mem)

lemma first_max_drop: "f b < f x \<Longrightarrow> first_max f (b # x # xs) = first_max f (x # xs)"
proof -
  assume less: "f b < f x"
  define P where "P = (\<lambda>z. list_all (\<lambda>y. f y \<le> f z) (x # xs))"
  have "(\<lambda>z. list_all (\<lambda>y. f y \<le> f z) (b # x # xs)) = P" using less by (auto simp: P_def fun_eq_iff)
  moreover have "\<not> P b" using less by (auto simp: P_def)
  ultimately show ?thesis unfolding first_max_def P_def[symmetric] by simp
qed

lemma first_max_skip: "\<not> f b < f x \<Longrightarrow> first_max f (b # x # xs) = first_max f (b # xs)"
proof -
  assume le: "\<not> f b < f x"
  define P where "P = (\<lambda>z. list_all (\<lambda>y. f y \<le> f z) (b # xs))"
  have max: "(\<lambda>z. list_all (\<lambda>y. f y \<le> f z) (b # x # xs)) = P" using le by (auto simp: P_def fun_eq_iff)
  have "P b" if "P x" using that le by (auto simp: P_def list_all_iff intro: order_trans)
  then show ?thesis unfolding first_max_def max P_def[symmetric] by auto
qed

lemma keep_best_Some: "keep_best f xs (Some b) = first_max f (b # xs)"
proof (induction xs arbitrary: b)
  case Nil
  then show ?case by (simp add: first_max_def)
next
  case (Cons x xs)
  then show ?case by (cases "f b < f x") (simp_all add: first_max_drop first_max_skip)
qed

lemma keep_best_first_max: "keep_best f xs None = first_max f xs"
  by (cases xs) (simp_all add: keep_best_Some first_max_def[of f "[]"])

lemma first_max_Some: "first_max f xs = Some x \<Longrightarrow> x \<in> set xs \<and> (\<forall>y \<in> set xs. f y \<le> f x)"
  unfolding first_max_def find_Some_iff list_all_iff by (metis nth_mem)

lemma first_max_None: "first_max f xs = None \<longleftrightarrow> xs = []"
proof
  assume none: "first_max f xs = None"
  show "xs = []"
  proof (rule ccontr)
    assume "xs \<noteq> []"
    then obtain x where "x \<in> set xs" "f x = Max (f ` set xs)" by (metis (no_types, lifting) Max_in finite_imageI finite_set image_iff image_is_empty set_empty)
    then have "list_all (\<lambda>y. f y \<le> f x) xs" by (simp add: list_all_iff)
    then show False using none \<open>x \<in> set xs\<close> by (auto simp: first_max_def find_None_iff)
  qed
qed (simp add: first_max_def)

section \<open>The abstract table: a list of live routes\<close>

record 'h live_route =
  lr_id :: nat
  lr_method :: http_method
  lr_path :: string
  lr_segments :: "segment list option"
  lr_handler :: 'h
  lr_bypassCsrf :: bool
  lr_maxBodyBytes :: "nat option"

definition accepts :: "http_method \<Rightarrow> string \<Rightarrow> 'h live_route \<Rightarrow> params option" where
  "accepts m path l =
     (if lr_method l \<noteq> m then None
      else case lr_segments l of
          None \<Rightarrow> if lr_path l = path then Some [] else None
        | Some segs \<Rightarrow> matchPattern segs (splitPathSegments path))"

text \<open>Exact before pattern before splat; of splats the longer prefix, then the more literal one.\<close>

definition rank :: "'h live_route \<Rightarrow> nat \<times> nat \<times> nat" where
  "rank l =
     (case lr_segments l of
        None \<Rightarrow> (2, 0, 0)
      | Some segs \<Rightarrow> if isSplatPattern segs then (0, length segs - 1, literalCount segs) else (1, 0, 0))"

definition route_result :: "http_method \<Rightarrow> string \<Rightarrow> 'h live_route \<Rightarrow> 'h match_result" where
  "route_result m path l =
     \<lparr>mr_handler = lr_handler l, mr_route = lr_path l, mr_params = the (accepts m path l),
      mr_bypassCsrf = lr_bypassCsrf l, mr_maxBodyBytes = lr_maxBodyBytes l\<rparr>"

definition most_specific :: "http_method \<Rightarrow> string \<Rightarrow> 'h live_route list \<Rightarrow> 'h match_result option" where
  "most_specific m path ls = map_option (route_result m path) (first_max rank [l \<leftarrow> ls. accepts m path l \<noteq> None])"

definition exact_of :: "'h live_route \<Rightarrow> 'h exact_route" where
  "exact_of l = \<lparr>er_method = lr_method l, er_path = lr_path l, er_handler = lr_handler l,
     er_bypassCsrf = lr_bypassCsrf l, er_maxBodyBytes = lr_maxBodyBytes l\<rparr>"

definition pattern_of :: "'h live_route \<Rightarrow> 'h pattern_route" where
  "pattern_of l = \<lparr>pr_id = lr_id l, pr_method = lr_method l, pr_pattern = lr_path l, pr_segments = the (lr_segments l),
     pr_handler = lr_handler l, pr_bypassCsrf = lr_bypassCsrf l, pr_maxBodyBytes = lr_maxBodyBytes l\<rparr>"

definition closure_of :: "'h live_route \<Rightarrow> unregister_closure" where
  "closure_of l = (if lr_segments l = None then UnregExact (lr_method l) (lr_path l) else UnregPattern (lr_method l) (lr_id l))"

abbreviation pattern_lives :: "http_method \<Rightarrow> 'h live_route list \<Rightarrow> 'h live_route list" where
  "pattern_lives m ls \<equiv> [l \<leftarrow> ls. lr_method l = m \<and> lr_segments l \<noteq> None]"

text \<open>How the table of the code stands for a list of live routes.\<close>

definition table_rel :: "'h router \<Rightarrow> 'h live_route list \<Rightarrow> bool" where
  "table_rel r ls \<longleftrightarrow>
     (\<forall>m p. js_get (rt_exact r) (m, p) =
        map_option exact_of (List.find (\<lambda>l. lr_method l = m \<and> lr_path l = p \<and> lr_segments l = None) ls)) \<and>
     js_wf (rt_patterns r) \<and> (\<forall>m. patterns_of r m = List.map pattern_of (pattern_lives m ls)) \<and>
     (\<forall>p. set (methods_of r p) = lr_method ` {l \<in> set ls. lr_path l = p \<and> lr_segments l = None})"

definition lives_ok :: "(unregister_closure \<times> bool) list \<Rightarrow> 'h live_route list \<Rightarrow> bool" where
  "lives_ok cs ls \<longleftrightarrow>
     distinct (List.map (\<lambda>l. (lr_method l, lr_path l)) ls) \<and> distinct (List.map lr_id ls) \<and>
     list_all (\<lambda>l. compilePathPattern (lr_path l) = Inr (lr_segments l) \<and>
       lr_id l < length cs \<and> cs ! lr_id l = (closure_of l, False)) ls \<and>
     (\<forall>k < length cs. \<not> snd (cs ! k) \<longrightarrow> k \<in> lr_id ` set ls)"

lemmas table_parts = table_rel_def lives_ok_def

subsection \<open>Matching\<close>

lemma first_param_find:
  "first_param_route (List.map pattern_of ps) req =
    map_option (\<lambda>l. pattern_result (pattern_of l) (the (matchPattern (the (lr_segments l)) req)))
      (List.find (\<lambda>l. \<not> isSplatPattern (the (lr_segments l)) \<and> matchPattern (the (lr_segments l)) req \<noteq> None) ps)"
  by (induction ps) (auto simp: pattern_of_def)

lemma best_splat_keep:
  "best_splat (List.map pattern_of ps) req (map_option (\<lambda>l. (pattern_of l, the (matchPattern (the (lr_segments l)) req))) best) =
    map_option (\<lambda>l. (pattern_of l, the (matchPattern (the (lr_segments l)) req)))
      (keep_best (\<lambda>l. (length (the (lr_segments l)) - 1, literalCount (the (lr_segments l))))
        [l \<leftarrow> ps. isSplatPattern (the (lr_segments l)) \<and> matchPattern (the (lr_segments l)) req \<noteq> None] best)"
proof (induction ps arbitrary: best)
  case (Cons p ps)
  have sel: "pr_segments (pattern_of l) = the (lr_segments l)" for l :: "'a live_route" by (simp add: pattern_of_def)
  show ?case
  proof (cases "isSplatPattern (the (lr_segments p)) \<and> matchPattern (the (lr_segments p)) req \<noteq> None")
    case True
    then obtain v where v: "matchPattern (the (lr_segments p)) req = Some v" by auto
    show ?thesis
    proof (cases best)
      case None
      then show ?thesis using True v Cons.IH[of "Some p"] by (simp add: sel)
    next
      case (Some b)
      then show ?thesis using True v Cons.IH[of "Some p"] Cons.IH[of "Some b"]
        by (auto simp: sel isMoreSpecificSplat_def Let_def less_prod_def')
    qed
  next
    case False
    then show ?thesis using Cons.IH[of best] by (auto simp: sel)
  qed
qed simp

lemma match_route_spec:
  assumes rel: "table_rel r ls" and dist: "distinct (List.map (\<lambda>l. (lr_method l, lr_path l)) ls)"
  shows "match_route m path r = most_specific m path ls"
proof -
  let ?ok = "\<lambda>l. accepts m path l \<noteq> None"
  let ?cs = "filter ?ok ls"
  let ?exact = "\<lambda>l. lr_method l = m \<and> lr_path l = path \<and> lr_segments l = None"
  let ?req = "splitPathSegments path"
  show ?thesis
  proof (cases "List.find ?exact ls")
    case (Some l)
    then have l: "l \<in> set ls" "?exact l" by (auto simp: find_Some_iff)
    have top: "rank l' \<le> rank l" for l' :: "'a live_route"
      using l by (auto simp: rank_def less_eq_prod_def split: option.split)
    have only: "l' = l" if "l' \<in> set ls" "?ok l'" "rank l \<le> rank l'" for l'
    proof -
      have "lr_segments l' = None"
        using that(3) l by (auto simp: rank_def less_eq_prod_def split: option.splits if_splits)
      then have "lr_method l' = lr_method l \<and> lr_path l' = lr_path l" using that(2) l by (auto simp: accepts_def split: if_splits)
      then show ?thesis using dist that(1) l(1) by (auto simp: distinct_map inj_on_def)
    qed
    have ok: "l \<in> set ?cs" using l by (simp add: accepts_def)
    have "first_max rank ?cs \<noteq> None" using ok unfolding first_max_None by (metis empty_iff list.set(1))
    then obtain l' where l': "first_max rank ?cs = Some l'" by blast
    have "l' \<in> set ?cs" "rank l \<le> rank l'" using first_max_Some[OF l'] ok by blast+
    then have "l' = l" using only by auto
    then show ?thesis using rel Some l l'
      by (simp add: match_route_def most_specific_def table_rel_def route_result_def exact_of_def accepts_def)
  next
    case None
    define ps where "ps = pattern_lives m ls"
    let ?m = "\<lambda>l. matchPattern (the (lr_segments l)) ?req"
    have none: "js_get (rt_exact r) (m, path) = None" using rel None by (simp add: table_rel_def)
    have es: "patterns_of r m = List.map pattern_of ps" using rel by (simp add: table_rel_def ps_def)
    have cs: "?cs = [l \<leftarrow> ps. ?m l \<noteq> None]"
      using None by (auto simp: ps_def accepts_def find_None_iff filter_filter intro!: filter_cong split: option.split)
    have res: "pattern_result (pattern_of l) (the (?m l)) = route_result m path l" if "l \<in> set ps" for l
      using that by (auto simp: ps_def pattern_result_def pattern_of_def route_result_def accepts_def)
    have found: "map_option (\<lambda>l. pattern_result (pattern_of l) (the (?m l))) (List.find P ps) = map_option (route_result m path) (List.find P ps)" for P
    proof (cases "List.find P ps")
      case (Some l)
      then have "l \<in> set ps" by (rule find_mem)
      from res[OF this] show ?thesis unfolding Some by simp
    qed simp
    have unfolded: "match_route m path r =
        (case first_param_route (List.map pattern_of ps) ?req of
           Some x \<Rightarrow> Some x
         | None \<Rightarrow> map_option (\<lambda>(e, ps). pattern_result e ps) (best_splat (List.map pattern_of ps) ?req None))"
    proof (cases "js_get (rt_patterns r) m")
      case None
      then have empty: "patterns_of r m = []" by (simp add: patterns_of_def)
      show ?thesis using none None unfolding es[symmetric] empty match_route_def by simp
    next
      case (Some a)
      then have list: "patterns_of r m = a" by (simp add: patterns_of_def)
      show ?thesis using none Some unfolding es[symmetric] list match_route_def Let_def by simp
    qed
    have rk: "rank l = (if isSplatPattern (the (lr_segments l)) then (0, length (the (lr_segments l)) - 1, literalCount (the (lr_segments l))) else (1, 0, 0))"
      if "l \<in> set ?cs" for l using that unfolding cs by (auto simp: ps_def rank_def)
    show ?thesis
    proof (cases "list_ex (\<lambda>l. \<not> isSplatPattern (the (lr_segments l))) ?cs")
      case True
      then have max: "list_all (\<lambda>l'. rank l' \<le> rank l) ?cs \<longleftrightarrow> \<not> isSplatPattern (the (lr_segments l))" if "l \<in> set ?cs" for l
        using that rk by (auto simp: list_all_iff list_ex_iff less_eq_prod_def)
      have "first_max rank ?cs = List.find (\<lambda>l. \<not> isSplatPattern (the (lr_segments l))) ?cs"
        unfolding first_max_def using max by (rule find_cong')
      also have "\<dots> = List.find (\<lambda>l. \<not> isSplatPattern (the (lr_segments l)) \<and> ?m l \<noteq> None) ps"
        unfolding cs by (induction ps) auto
      finally have "map_option (route_result m path) (first_max rank ?cs) = first_param_route (List.map pattern_of ps) ?req"
        unfolding first_param_find found by simp
      moreover have "first_max rank ?cs \<noteq> None" using True first_max_None[of rank ?cs] by auto
      ultimately show ?thesis unfolding unfolded most_specific_def by (auto split: option.split)
    next
      case False
      then have splat: "isSplatPattern (the (lr_segments l))" if "l \<in> set ?cs" for l using that by (auto simp: list_ex_iff)
      then have "List.find (\<lambda>l. \<not> isSplatPattern (the (lr_segments l)) \<and> ?m l \<noteq> None) ps = None"
        unfolding cs by (auto simp: find_None_iff)
      then have no_param: "first_param_route (List.map pattern_of ps) ?req = None" unfolding first_param_find by simp
      have same: "[l \<leftarrow> ps. isSplatPattern (the (lr_segments l)) \<and> ?m l \<noteq> None] = ?cs"
        unfolding cs by (rule filter_cong) (use splat[unfolded cs] in auto)
      have "first_max (\<lambda>l. (length (the (lr_segments l)) - 1, literalCount (the (lr_segments l)))) ?cs = first_max rank ?cs"
        unfolding first_max_def by (rule find_cong') (use splat rk in \<open>auto simp: list_all_iff less_eq_prod_def\<close>)
      then have best: "best_splat (List.map pattern_of ps) ?req None =
          map_option (\<lambda>l. (pattern_of l, the (?m l))) (first_max rank ?cs)"
        using best_splat_keep[of ps ?req None] unfolding same keep_best_first_max by simp
      have "l \<in> set ps" if "first_max rank ?cs = Some l" for l
        using first_max_Some[OF that] unfolding cs by simp
      then show ?thesis unfolding unfolded most_specific_def no_param best using res
        by (cases "first_max rank ?cs") auto
    qed
  qed
qed


section \<open>Runs\<close>

datatype 'h route_op =
    RegisterOp http_method string 'h bool "nat option"
  | UnregisterOp nat
  | MatchOp http_method string
  | MethodsOp string

datatype 'h route_answer =
    Registered "route_error + nat"
  | Unregistered
  | Matched "'h match_result option"
  | Methods "http_method set"

text \<open>A closure that was never handed out cannot be called.\<close>

fun router_step :: "'h route_op \<Rightarrow> 'h router \<Rightarrow> 'h route_answer \<times> 'h router" where
  "router_step (RegisterOp m path handler bypass cap) r =
     (case register_route m path handler bypass cap r of (res, r) \<Rightarrow> (Registered res, r))"
| "router_step (UnregisterOp k) r = (Unregistered, if k < length (rt_closures r) then unregister_route k r else r)"
| "router_step (MatchOp m path) r = (Matched (match_route m path r), r)"
| "router_step (MethodsOp path) r = (Methods (methodsFor path r), r)"

text \<open>The same on a list of live routes and the number of closures handed out.\<close>

fun list_step :: "'h route_op \<Rightarrow> nat \<times> 'h live_route list \<Rightarrow> 'h route_answer \<times> nat \<times> 'h live_route list" where
  "list_step (RegisterOp m path handler bypass cap) (n, ls) =
     (case compilePathPattern path of
        Inl e \<Rightarrow> (Registered (Inl e), n, ls)
      | Inr segs \<Rightarrow>
          if list_ex (\<lambda>l. lr_method l = m \<and> lr_path l = path) ls then (Registered (Inl DuplicateRoute), n, ls)
          else (Registered (Inr n), Suc n,
            ls @ [\<lparr>lr_id = n, lr_method = m, lr_path = path, lr_segments = segs, lr_handler = handler,
              lr_bypassCsrf = bypass, lr_maxBodyBytes = cap\<rparr>]))"
| "list_step (UnregisterOp k) (n, ls) = (Unregistered, n, [l \<leftarrow> ls. lr_id l \<noteq> k])"
| "list_step (MatchOp m path) (n, ls) = (Matched (most_specific m path ls), n, ls)"
| "list_step (MethodsOp path) (n, ls) =
     (Methods (lr_method ` set [l \<leftarrow> ls. accepts (lr_method l) path l \<noteq> None]), n, ls)"

lemma find_append: "List.find P (xs @ ys) = (case List.find P xs of None \<Rightarrow> List.find P ys | Some x \<Rightarrow> Some x)"
  by (induction xs) auto

lemma find_filter: "List.find P (filter Q xs) = List.find (\<lambda>x. Q x \<and> P x) xs"
  by (induction xs) auto

lemma same_path:
  "lives_ok cs ls \<Longrightarrow> l \<in> set ls \<Longrightarrow> compilePathPattern (lr_path l) = Inr segs \<Longrightarrow> lr_segments l = segs"
  by (auto simp: lives_ok_def list_all_iff)

lemma exact_taken:
  assumes "table_rel r ls" "lives_ok (rt_closures r) ls" "compilePathPattern path = Inr None"
  shows "js_get (rt_exact r) (m, path) \<noteq> None \<longleftrightarrow> list_ex (\<lambda>l. lr_method l = m \<and> lr_path l = path) ls"
  using assms same_path[OF assms(2)] by (auto simp: table_rel_def find_None_iff list_ex_iff)

lemma pattern_taken:
  assumes "table_rel r ls" "lives_ok (rt_closures r) ls" "compilePathPattern path = Inr (Some segs)"
  shows "list_ex (\<lambda>e. pr_pattern e = path) (patterns_of r m) \<longleftrightarrow> list_ex (\<lambda>l. lr_method l = m \<and> lr_path l = path) ls"
  using assms same_path[OF assms(2)] by (fastforce simp: table_rel_def list_ex_iff pattern_of_def)

lemma lives_ok_add:
  assumes "lives_ok cs ls" "\<not> list_ex (\<lambda>l. lr_method l = m \<and> lr_path l = path) ls" "compilePathPattern path = Inr segs"
    and l: "l = \<lparr>lr_id = length cs, lr_method = m, lr_path = path, lr_segments = segs, lr_handler = h, lr_bypassCsrf = b, lr_maxBodyBytes = c\<rparr>"
  shows "lives_ok (cs @ [(closure_of l, False)]) (ls @ [l])"
proof -
  have fresh: "lr_id x < length cs" if "x \<in> set ls" for x using assms(1) that by (auto simp: lives_ok_def list_all_iff)
  have "lr_id l \<notin> lr_id ` set ls" using fresh l by force
  then have "distinct (List.map (\<lambda>l. (lr_method l, lr_path l)) (ls @ [l]))" "distinct (List.map lr_id (ls @ [l]))"
    using assms by (auto simp: lives_ok_def list_ex_iff)
  moreover have "list_all (\<lambda>x. compilePathPattern (lr_path x) = Inr (lr_segments x) \<and>
      lr_id x < length (cs @ [(closure_of l, False)]) \<and> (cs @ [(closure_of l, False)]) ! lr_id x = (closure_of x, False)) (ls @ [l])"
    using assms(1,3) l fresh by (auto simp: lives_ok_def list_all_iff nth_append intro: less_SucI)
  moreover have "k \<in> lr_id ` set (ls @ [l])" if "k < length (cs @ [(closure_of l, False)])" "\<not> snd ((cs @ [(closure_of l, False)]) ! k)" for k
  proof (cases "k < length cs")
    case True
    then have "k \<in> lr_id ` set ls" using assms(1) that(2) by (simp add: lives_ok_def nth_append)
    then show ?thesis by auto
  qed (use that(1) l in auto)
  ultimately show ?thesis by (simp add: lives_ok_def)
qed

lemma register_sim:
  assumes rel: "table_rel r ls" and ok: "lives_ok (rt_closures r) ls"
    and list: "list_step (RegisterOp m path h b c) (length (rt_closures r), ls) = (a, n, ls')"
    and table: "router_step (RegisterOp m path h b c) r = (a', r')"
  shows "a' = a \<and> n = length (rt_closures r') \<and> table_rel r' ls' \<and> lives_ok (rt_closures r') ls'"
proof (cases "compilePathPattern path")
  case (Inl e)
  then show ?thesis using list table rel ok by (auto simp: register_route_def)
next
  case (Inr segs)
  define l where "l = \<lparr>lr_id = length (rt_closures r), lr_method = m, lr_path = path, lr_segments = segs,
    lr_handler = h, lr_bypassCsrf = b, lr_maxBodyBytes = c\<rparr>"
  show ?thesis
  proof (cases "list_ex (\<lambda>l. lr_method l = m \<and> lr_path l = path) ls")
    case True
    have "a = Registered (Inl DuplicateRoute)" "n = length (rt_closures r)" "ls' = ls" using list Inr True by auto
    moreover have "a' = Registered (Inl DuplicateRoute) \<and> table_rel r' ls \<and> rt_closures r' = rt_closures r"
    proof (cases segs)
      case None
      then show ?thesis using table Inr exact_taken[OF rel ok, of path m] True rel
        by (auto simp: register_route_def registerExact_def)
    next
      case (Some ss)
      have taken: "list_ex (\<lambda>e. pr_pattern e = path) (patterns_of r m)"
        using pattern_taken[OF rel ok, of path ss m] Inr Some True by simp
      have r': "r' = r\<lparr>rt_patterns := js_set m (patterns_of r m) (rt_patterns r)\<rparr>" and "a' = Registered (Inl DuplicateRoute)"
        using table Inr Some taken by (auto simp: register_route_def registerPattern_def Let_def)
      moreover have "patterns_of r' = patterns_of r" unfolding r' by (auto simp: patterns_of_def fun_eq_iff)
      moreover have "methods_of r' = methods_of r" unfolding r' by (auto simp: methods_of_def fun_eq_iff)
      ultimately show ?thesis using rel by (auto simp: table_rel_def r' js_map_wf)
    qed
    ultimately show ?thesis using ok by simp
  next
    case False
    have new: "a = Registered (Inr (length (rt_closures r)))" "n = Suc (length (rt_closures r))" "ls' = ls @ [l]"
      using list Inr False by (auto simp: l_def)
    have ok': "lives_ok (rt_closures r @ [(closure_of l, False)]) (ls @ [l])"
      using lives_ok_add[OF ok False Inr l_def] .
    have none: "List.find (\<lambda>l. lr_method l = m \<and> lr_path l = path \<and> lr_segments l = None) ls = None"
      using False by (auto simp: find_None_iff list_ex_iff)
    show ?thesis
    proof (cases segs)
      case None
      have free: "js_get (rt_exact r) (m, path) = None" using exact_taken[OF rel ok, of path m] Inr None False by simp
      have r': "r' = snd (registerExact m path h b c r)" and a': "a' = fst (router_step (RegisterOp m path h b c) r)"
        using table Inr None by (auto simp: register_route_def split: prod.splits)
      have "a' = a" using a' new Inr None free by (simp add: register_route_def registerExact_def)
      moreover have "rt_closures r' = rt_closures r @ [(closure_of l, False)]"
        unfolding r' using free None by (simp add: registerExact_def closure_of_def l_def)
      moreover have "table_rel r' (ls @ [l])"
        unfolding table_rel_def
      proof (intro conjI allI)
        show "js_get (rt_exact r') (m', p') = map_option exact_of
            (List.find (\<lambda>l. lr_method l = m' \<and> lr_path l = p' \<and> lr_segments l = None) (ls @ [l]))" for m' p'
          using rel free none None unfolding r'
          by (auto simp: registerExact_def table_rel_def find_append l_def exact_of_def split: option.split)
        show "js_wf (rt_patterns r')" "patterns_of r' m' = List.map pattern_of (pattern_lives m' (ls @ [l]))" for m'
          using rel free None unfolding r' by (auto simp: registerExact_def table_rel_def patterns_of_def l_def)
        show "set (methods_of r' p') = lr_method ` {x \<in> set (ls @ [l]). lr_path x = p' \<and> lr_segments x = None}" for p'
        proof -
          have "set (methods_of r' p') = (if p' = path then insert m (set (methods_of r p')) else set (methods_of r p'))"
            unfolding r' using free by (auto simp: registerExact_def methods_of_def Let_def)
          moreover have "{x \<in> set (ls @ [l]). lr_path x = p' \<and> lr_segments x = None} =
              (if p' = path then insert l {x \<in> set ls. lr_path x = p' \<and> lr_segments x = None}
               else {x \<in> set ls. lr_path x = p' \<and> lr_segments x = None})"
            using None by (auto simp: l_def)
          moreover have "lr_method l = m" by (simp add: l_def)
          ultimately show ?thesis using rel by (simp add: table_rel_def)
        qed
      qed
      ultimately show ?thesis using new ok' by simp
    next
      case (Some ss)
      have free: "\<not> list_ex (\<lambda>e. pr_pattern e = path) (patterns_of r m)"
        using pattern_taken[OF rel ok, of path ss m] Inr Some False by simp
      have r': "r' = snd (registerPattern m path ss h b c r)" and a': "a' = fst (router_step (RegisterOp m path h b c) r)"
        using table Inr Some by (auto simp: register_route_def split: prod.splits)
      have "a' = a" using a' new Inr Some free by (simp add: register_route_def registerPattern_def Let_def)
      moreover have "rt_closures r' = rt_closures r @ [(closure_of l, False)]"
        unfolding r' using free Some by (simp add: registerPattern_def closure_of_def l_def Let_def)
      moreover have "table_rel r' (ls @ [l])"
      proof -
        have pats: "patterns_of r' m' = (if m' = m then patterns_of r m @ [pattern_of l] else patterns_of r m')" for m'
          unfolding r' using free Some by (simp add: registerPattern_def patterns_of_def Let_def pattern_of_def l_def)
        have "rt_exact r' = rt_exact r" "methods_of r' = methods_of r" "js_wf (rt_patterns r')"
          unfolding r' using free rel by (auto simp: registerPattern_def Let_def methods_of_def fun_eq_iff table_rel_def js_map_wf)
        then show ?thesis using rel Some pats by (auto simp: table_rel_def find_append l_def split: option.split)
      qed
      ultimately show ?thesis using new ok' by simp
    qed
  qed
qed


lemma remove_at_index:
  "distinct (List.map f es) \<Longrightarrow>
    (case index_of k (List.map f es) of None \<Rightarrow> es | Some i \<Rightarrow> take i es @ drop (Suc i) es) = [e \<leftarrow> es. f e \<noteq> k]"
proof (induction es)
  case (Cons e es)
  have "[x \<leftarrow> es. f x \<noteq> k] = es" if "k \<notin> f ` set es" using that by (auto intro: filter_True)
  then show ?case using Cons by (auto split: option.splits)
qed simp

lemma lives_ok_remove:
  assumes ok: "lives_ok cs ls" and k: "k < length cs"
  shows "lives_ok (cs[k := (fst (cs ! k), True)]) [l \<leftarrow> ls. lr_id l \<noteq> k]"
proof -
  have "distinct (List.map f [l \<leftarrow> ls. lr_id l \<noteq> k])" if "distinct (List.map f ls)" for f :: "'a live_route \<Rightarrow> 'b"
    using that by (rule distinct_map_filter)
  moreover have "j \<in> lr_id ` set [l \<leftarrow> ls. lr_id l \<noteq> k]"
    if "j < length cs" "\<not> snd (cs[k := (fst (cs ! k), True)] ! j)" for j
  proof -
    have "j \<noteq> k" using that k by auto
    then have "j \<in> lr_id ` set ls" using ok that by (simp add: lives_ok_def)
    then show ?thesis using \<open>j \<noteq> k\<close> by auto
  qed
  ultimately show ?thesis using ok by (auto simp: lives_ok_def list_all_iff distinct_map_filter)
qed

lemma drop_exact_rel:
  assumes rel: "table_rel r ls" and ok: "lives_ok cs ls" and l: "l \<in> set ls" "lr_segments l = None"
  shows "table_rel (drop_exact (lr_method l) (lr_path l) r) [x \<leftarrow> ls. lr_id x \<noteq> lr_id l]"
proof -
  let ?r = "drop_exact (lr_method l) (lr_path l) r"
  let ?ls = "[x \<leftarrow> ls. lr_id x \<noteq> lr_id l]"
  have key: "x = l" if "x \<in> set ls" "lr_method x = lr_method l" "lr_path x = lr_path l" for x
    using ok that l(1) by (auto simp: lives_ok_def distinct_map inj_on_def)
  have ident: "x = l" if "x \<in> set ls" "lr_id x = lr_id l" for x
    using ok that l(1) by (auto simp: lives_ok_def distinct_map inj_on_def)
  have find: "List.find (\<lambda>x. lr_method x = m \<and> lr_path x = p \<and> lr_segments x = None) ?ls =
      (if m = lr_method l \<and> p = lr_path l then None else List.find (\<lambda>x. lr_method x = m \<and> lr_path x = p \<and> lr_segments x = None) ls)" for m p
  proof (cases "m = lr_method l \<and> p = lr_path l")
    case True
    have "List.find (\<lambda>x. lr_method x = m \<and> lr_path x = p \<and> lr_segments x = None) ?ls = None"
      using True key unfolding find_None_iff by fastforce
    then show ?thesis using True by simp
  next
    case False
    have "List.find (\<lambda>x. lr_id x \<noteq> lr_id l \<and> lr_method x = m \<and> lr_path x = p \<and> lr_segments x = None) ls =
        List.find (\<lambda>x. lr_method x = m \<and> lr_path x = p \<and> lr_segments x = None) ls"
      by (rule find_cong') (use False ident in blast)
    then show ?thesis unfolding find_filter using False by (simp only: if_False)
  qed
  have pats: "pattern_lives m ?ls = pattern_lives m ls" for m
    unfolding filter_filter by (rule filter_cong) (use ident l(2) in metis)+
  have methods: "set (methods_of ?r p) = (if p = lr_path l then set (methods_of r p) - {lr_method l} else set (methods_of r p))" for p
    by (cases "js_get (rt_methods r) (lr_path l)") (auto simp: drop_exact_def methods_of_def Let_def filter_empty_conv)
  have image: "lr_method ` {x \<in> set ?ls. lr_path x = p \<and> lr_segments x = None} =
      (if p = lr_path l then lr_method ` {x \<in> set ls. lr_path x = p \<and> lr_segments x = None} - {lr_method l}
       else lr_method ` {x \<in> set ls. lr_path x = p \<and> lr_segments x = None})" for p
    using key ident by auto
  have same: "rt_patterns ?r = rt_patterns r" "patterns_of ?r = patterns_of r"
    by (simp_all add: drop_exact_def patterns_of_def fun_eq_iff)
  have exact: "js_get (rt_exact ?r) (m, p) = (if m = lr_method l \<and> p = lr_path l then None else js_get (rt_exact r) (m, p))" for m p
    by (simp add: drop_exact_def)
  show ?thesis using rel unfolding table_rel_def find pats methods image same exact by auto
qed

lemma drop_pattern_rel:
  assumes rel: "table_rel r ls" and ok: "lives_ok cs ls" and l: "l \<in> set ls" "lr_segments l \<noteq> None"
  shows "table_rel (drop_pattern (lr_method l) (lr_id l) r) [x \<leftarrow> ls. lr_id x \<noteq> lr_id l]"
proof -
  let ?m = "lr_method l"
  let ?r = "drop_pattern ?m (lr_id l) r"
  let ?ls = "[x \<leftarrow> ls. lr_id x \<noteq> lr_id l]"
  have ident: "x = l" if "x \<in> set ls" "lr_id x = lr_id l" for x
    using ok that l(1) by (auto simp: lives_ok_def distinct_map inj_on_def)
  have es: "patterns_of r ?m = List.map pattern_of (pattern_lives ?m ls)" using rel by (simp add: table_rel_def)
  moreover have "l \<in> set (pattern_lives ?m ls)" using l by simp
  then have "pattern_lives ?m ls \<noteq> []" by (rule length_pos_if_in_set[THEN iffD1[OF length_greater_0_conv]])
  ultimately have "patterns_of r ?m \<noteq> []" by simp
  then obtain raw where raw: "js_get (rt_patterns r) ?m = Some raw" "raw = List.map pattern_of (pattern_lives ?m ls)"
    using es by (auto simp: patterns_of_def split: option.splits)
  have ids: "List.map pr_id raw = List.map lr_id (pattern_lives ?m ls)" by (simp add: raw(2) pattern_of_def)
  have "distinct (List.map pr_id raw)" unfolding ids using ok by (simp add: lives_ok_def distinct_map_filter)
  from remove_at_index[OF this, of "lr_id l"] have cut:
    "(case index_of (lr_id l) (List.map pr_id raw) of None \<Rightarrow> raw | Some i \<Rightarrow> take i raw @ drop (Suc i) raw) = [e \<leftarrow> raw. pr_id e \<noteq> lr_id l]" .
  have kept: "[e \<leftarrow> raw. pr_id e \<noteq> lr_id l] = List.map pattern_of (pattern_lives ?m ?ls)"
    unfolding raw(2) filter_map filter_filter by (intro arg_cong[where f = "List.map pattern_of"] filter_cong) (auto simp: pattern_of_def)
  have r': "?r = r\<lparr>rt_patterns := (if [e \<leftarrow> raw. pr_id e \<noteq> lr_id l] = [] then js_delete ?m (rt_patterns r)
      else js_set ?m [e \<leftarrow> raw. pr_id e \<noteq> lr_id l] (rt_patterns r))\<rparr>"
    unfolding drop_pattern_def raw(1) option.case Let_def cut ..
  have "patterns_of ?r m = (if m = ?m then [e \<leftarrow> raw. pr_id e \<noteq> lr_id l] else patterns_of r m)" for m
    unfolding r' by (simp add: patterns_of_def)
  moreover have "pattern_lives m ?ls = pattern_lives m ls" if "m \<noteq> ?m" for m
    unfolding filter_filter by (rule filter_cong) (use ident that in auto)
  ultimately have pats: "patterns_of ?r m = List.map pattern_of (pattern_lives m ?ls)" for m
    using rel kept by (simp add: table_rel_def)
  have find: "List.find (\<lambda>x. lr_method x = m \<and> lr_path x = p \<and> lr_segments x = None) ?ls =
      List.find (\<lambda>x. lr_method x = m \<and> lr_path x = p \<and> lr_segments x = None) ls" for m p
    unfolding find_filter by (rule find_cong') (use ident l(2) in metis)
  have image: "{x \<in> set ?ls. lr_path x = p \<and> lr_segments x = None} = {x \<in> set ls. lr_path x = p \<and> lr_segments x = None}" for p
    using ident l(2) by fastforce
  have "js_wf (rt_patterns ?r)" using rel unfolding r' by (simp add: table_rel_def js_map_wf)
  moreover have "rt_exact ?r = rt_exact r" "methods_of ?r = methods_of r" unfolding r' by (simp_all add: methods_of_def fun_eq_iff)
  ultimately show ?thesis using rel unfolding table_rel_def find image pats by simp
qed

lemma unregister_sim:
  assumes rel: "table_rel r ls" and ok: "lives_ok (rt_closures r) ls" and k: "k < length (rt_closures r)"
  shows "table_rel (unregister_route k r) [l \<leftarrow> ls. lr_id l \<noteq> k] \<and>
    lives_ok (rt_closures (unregister_route k r)) [l \<leftarrow> ls. lr_id l \<noteq> k] \<and>
    length (rt_closures (unregister_route k r)) = length (rt_closures r)"
proof (cases "snd (rt_closures r ! k)")
  case True
  then have "unregister_route k r = r" by (cases "rt_closures r ! k") (auto simp: unregister_route_def)
  moreover have "[l \<leftarrow> ls. lr_id l \<noteq> k] = ls"
    by (rule filter_True) (use ok True in \<open>auto simp: lives_ok_def list_all_iff\<close>)
  ultimately show ?thesis using rel ok by simp
next
  case False
  then obtain l where l: "l \<in> set ls" "lr_id l = k" using ok k by (auto simp: lives_ok_def)
  then have c: "rt_closures r ! k = (closure_of l, False)" using ok by (auto simp: lives_ok_def list_all_iff)
  define r1 where "r1 = r\<lparr>rt_closures := (rt_closures r)[k := (closure_of l, True)]\<rparr>"
  have rel1: "table_rel r1 ls" using rel by (simp add: r1_def table_rel_def patterns_of_def methods_of_def)
  have ok1: "lives_ok (rt_closures r1) [l \<leftarrow> ls. lr_id l \<noteq> k]" using lives_ok_remove[OF ok k] by (simp add: r1_def c)
  have un: "unregister_route k r = (case closure_of l of UnregExact m path \<Rightarrow> drop_exact m path r1 | UnregPattern m i \<Rightarrow> drop_pattern m i r1)"
    unfolding unregister_route_def c r1_def Let_def prod.case bool.case ..
  have keep: "rt_closures (drop_exact m p x) = rt_closures x" "rt_closures (drop_pattern m i x) = rt_closures x" for m p i and x :: "'a router"
    by (simp_all add: drop_exact_def drop_pattern_def Let_def split: option.split)
  have len: "length (rt_closures r1) = length (rt_closures r)" by (simp add: r1_def)
  show ?thesis
  proof (cases "lr_segments l = None")
    case True
    then have c: "closure_of l = UnregExact (lr_method l) (lr_path l)" by (simp add: closure_of_def)
    show ?thesis using drop_exact_rel[OF rel1 ok l(1) True] ok1 l(2) len unfolding un c unregister_closure.case keep by simp
  next
    case False
    then have c: "closure_of l = UnregPattern (lr_method l) k" using l(2) by (simp add: closure_of_def)
    show ?thesis using drop_pattern_rel[OF rel1 ok l(1) False] ok1 l(2) len unfolding un c unregister_closure.case keep by simp
  qed
qed

lemma methodsFor_spec:
  assumes rel: "table_rel r ls"
  shows "methodsFor path r = lr_method ` set [l \<leftarrow> ls. accepts (lr_method l) path l \<noteq> None]"
proof -
  let ?hits = "\<lambda>es. list_ex (\<lambda>e. matchPattern (pr_segments e) (splitPathSegments path) \<noteq> None) es"
  have "m \<in> set [m. (m, es) \<leftarrow> rt_patterns r, ?hits es] \<longleftrightarrow> ?hits (patterns_of r m)" for m
  proof -
    have "(m, es) \<in> set (rt_patterns r) \<longleftrightarrow> js_get (rt_patterns r) m = Some es" for es
      using rel js_get_wf_mem[of "rt_patterns r" m es] by (simp add: table_rel_def)
    then show ?thesis by (force simp: patterns_of_def split: option.splits)
  qed
  moreover have "?hits (patterns_of r m) \<longleftrightarrow> (\<exists>l \<in> set ls. lr_method l = m \<and> lr_segments l \<noteq> None \<and> accepts m path l \<noteq> None)" for m
    using rel by (auto simp: table_rel_def list_ex_iff pattern_of_def accepts_def)
  moreover have "m \<in> set (methods_of r path) \<longleftrightarrow> (\<exists>l \<in> set ls. lr_method l = m \<and> lr_segments l = None \<and> accepts m path l \<noteq> None)" for m
    using rel by (auto simp: table_rel_def accepts_def split: if_splits)
  ultimately have each: "m \<in> methodsFor path r \<longleftrightarrow> (\<exists>l \<in> set ls. lr_method l = m \<and> accepts m path l \<noteq> None)" for m
    unfolding methodsFor_def Un_iff by metis
  show ?thesis unfolding set_eq_iff each by auto
qed

definition router_rel :: "'h router \<Rightarrow> nat \<times> 'h live_route list \<Rightarrow> bool" where
  "router_rel r s \<longleftrightarrow> fst s = length (rt_closures r) \<and> table_rel r (snd s) \<and> lives_ok (rt_closures r) (snd s)"

lemma router_rel_new: "router_rel new_router (0, [])"
  by (simp add: router_rel_def table_parts new_router_def patterns_of_def methods_of_def)

lemma router_step_sim:
  assumes "router_rel r s"
  shows "fst (router_step q r) = fst (list_step q s) \<and> router_rel (snd (router_step q r)) (snd (list_step q s))"
proof -
  obtain ls where s: "s = (length (rt_closures r), ls)" "table_rel r ls" "lives_ok (rt_closures r) ls"
    using assms by (cases s) (auto simp: router_rel_def)
  show ?thesis
  proof (cases q)
    case (RegisterOp m path h b c)
    obtain a n ls' where l: "list_step (RegisterOp m path h b c) (length (rt_closures r), ls) = (a, n, ls')" by (metis surj_pair)
    obtain a' r' where t: "router_step (RegisterOp m path h b c) r = (a', r')" by (metis surj_pair)
    show ?thesis using register_sim[OF s(2,3) l t] unfolding RegisterOp s(1) l t by (simp add: router_rel_def)
  next
    case (UnregisterOp k)
    show ?thesis
    proof (cases "k < length (rt_closures r)")
      case True
      then show ?thesis using unregister_sim[OF s(2,3) True] by (simp add: UnregisterOp s(1) router_rel_def)
    next
      case False
      then have "[l \<leftarrow> ls. lr_id l \<noteq> k] = ls" by (intro filter_True) (use s(3) in \<open>auto simp: lives_ok_def list_all_iff\<close>)
      then show ?thesis using False s by (simp add: UnregisterOp router_rel_def)
    qed
  next
    case (MatchOp m path)
    then show ?thesis using s match_route_spec[OF s(2)] by (simp add: router_rel_def lives_ok_def)
  next
    case (MethodsOp path)
    then show ?thesis using s methodsFor_spec[OF s(2)] by (simp add: router_rel_def)
  qed
qed

text \<open>C27. The route table behaves as the plain list of the routes that are registered and not yet
  unregistered: registering fails exactly for a bad pattern or a path the method already has, a closure
  removes its own route and no other, however often it is called, and a request goes to the most
  specific route that accepts it (exact, then pattern, then the splat with the longest and then most
  literal prefix), whatever the order of registration, which only settles ties.\<close>

theorem router_is_the_list_of_live_routes: "answers router_step qs new_router = answers list_step qs (0, [])"
  by (rule answers_sim[where R = router_rel, OF router_rel_new]) (rule router_step_sim)

definition router_after :: "'h route_op list \<Rightarrow> 'h router" where
  "router_after qs = fold (\<lambda>q r. snd (router_step q r)) qs new_router"

lemma router_after_rel: "\<exists>s. router_rel (router_after qs) s"
proof -
  have "\<exists>s. router_rel (fold (\<lambda>q r. snd (router_step q r)) qs r) s" if "router_rel r s" for r :: "'a router" and s
    using that
  proof (induction qs arbitrary: r s)
    case (Cons q qs)
    have "router_rel (snd (router_step q r)) (snd (list_step q s))" using router_step_sim[OF Cons.prems] by blast
    from Cons.IH[OF this] show ?case by simp
  qed auto
  then show ?thesis unfolding router_after_def using router_rel_new by blast
qed

text \<open>The answer to a path without a route for its method is right: the methods that a 405 lists are
  exactly those for which the path would be routed, so that an empty list (404) means no route at all.\<close>

theorem listed_methods_are_routable: "m \<in> methodsFor path (router_after qs) \<longleftrightarrow> match_route m path (router_after qs) \<noteq> None"
proof -
  obtain s where "router_rel (router_after qs) s" using router_after_rel by blast
  then obtain ls where ls: "table_rel (router_after qs) ls" "lives_ok (rt_closures (router_after qs)) ls"
    by (auto simp: router_rel_def)
  have "most_specific m path ls \<noteq> None \<longleftrightarrow> (\<exists>l \<in> set ls. accepts m path l \<noteq> None)"
    by (simp add: most_specific_def first_max_None filter_empty_conv)
  also have "\<dots> \<longleftrightarrow> m \<in> lr_method ` set [l \<leftarrow> ls. accepts (lr_method l) path l \<noteq> None]"
    by (auto simp: accepts_def split: if_splits)
  finally show ?thesis using match_route_spec[OF ls(1)] ls(2) methodsFor_spec[OF ls(1)] by (simp add: lives_ok_def)
qed

end
