(* ===== verification/Http_Guard.thy ===== *)
theory Http_Guard
  imports Hook_Bus Js_Value Http_Router
begin

text \<open>
  The way of a request to its handler, after \<^verbatim>\<open>packages/http-server/src/csrf.ts\<close> and
  \<^verbatim>\<open>handle\<close>, \<^verbatim>\<open>deriveSecure\<close> and the route registration of
  \<^verbatim>\<open>packages/http-server/src/plugin.ts\<close>. The request event is fired on the hook bus of
  \<^theory_text>\<open>Hook_Bus\<close> and the route is looked up in the table of \<^theory_text>\<open>Http_Router\<close>, which is a
  part \<open>routes w\<close> of the world the subscribers act on. URL parsing is not modelled: the path is
  given. The texts of errors are not modelled where nothing depends on them.
\<close>

section \<open>The cross-site guard\<close>

definition STATE_CHANGING_METHODS :: "http_method set" where
  "STATE_CHANGING_METHODS = {POST, PUT, PATCH, DELETE}"

definition BYPASS_HEADER :: string where
  "BYPASS_HEADER = ''x-requested-with''"

definition BYPASS_VALUE :: string where
  "BYPASS_VALUE = ''ax-admin''"

datatype csrf_reason = OriginMissing | OriginMismatch

fun csrf_reason_text :: "csrf_reason \<Rightarrow> string" where
  "csrf_reason_text OriginMissing = ''csrf-failed:origin-missing''"
| "csrf_reason_text OriginMismatch = ''csrf-failed:origin-mismatch''"

type_synonym headers = "(string, string) jsmap"

definition evaluateCsrf :: "http_method \<Rightarrow> headers \<Rightarrow> string list \<Rightarrow> csrf_reason option" where
  "evaluateCsrf m hs allowedOrigins =
     (if m \<notin> STATE_CHANGING_METHODS then None
      else if js_get hs BYPASS_HEADER = Some BYPASS_VALUE then None
      else case js_get hs ''origin'' of
          None \<Rightarrow> Some OriginMissing
        | Some origin \<Rightarrow>
            if origin = [] then Some OriginMissing
            else if origin \<in> set allowedOrigins then None
            else Some OriginMismatch)"

record http_request_event =
  rq_method :: http_method
  rq_path :: string
  rq_headers :: headers

text \<open>The predicate the plugin passes to the subscriber.\<close>

definition isBypassed :: "'h router \<Rightarrow> http_method \<Rightarrow> string \<Rightarrow> bool" where
  "isBypassed r m path \<longleftrightarrow> (case match_route m path r of None \<Rightarrow> False | Some mr \<Rightarrow> mr_bypassCsrf mr)"

definition createCsrfSubscriber ::
    "string list \<Rightarrow> (http_method \<Rightarrow> string \<Rightarrow> bool) \<Rightarrow> http_request_event \<Rightarrow> http_request_event sub_result" where
  "createCsrfSubscriber allowedOrigins bypassed ev =
     (if bypassed (rq_method ev) (rq_path ev) then Payload ev
      else case evaluateCsrf (rq_method ev) (rq_headers ev) allowedOrigins of
          None \<Rightarrow> Payload ev
        | Some r \<Rightarrow> Veto \<lparr>rj_reason = csrf_reason_text r, rj_source = Some ''@ax/http-server/csrf'',
            rj_code = None, rj_hold = None\<rparr>)"

text \<open>The guard as a handler of the bus: it settles at once and changes nothing.\<close>

definition csrf_handler ::
    "string list \<Rightarrow> ('w \<Rightarrow> 'r router) \<Rightarrow> 'b \<Rightarrow> 'w \<Rightarrow> http_request_event \<Rightarrow> 'b \<times> 'w \<times> http_request_event sub_result run" where
  "csrf_handler allowedOrigins routes b w ev =
     (b, w, \<lparr>run_at = Some 0, run_end = Resolved (createCsrfSubscriber allowedOrigins (isBypassed (routes w)) ev)\<rparr>)"

definition guard_passes :: "string list \<Rightarrow> 'r router \<Rightarrow> http_request_event \<Rightarrow> bool" where
  "guard_passes allowedOrigins r ev \<longleftrightarrow>
     isBypassed r (rq_method ev) (rq_path ev) \<or> evaluateCsrf (rq_method ev) (rq_headers ev) allowedOrigins = None"

section \<open>Dispatch\<close>

fun method_name :: "http_method \<Rightarrow> string" where
  "method_name GET = ''GET''"
| "method_name POST = ''POST''"
| "method_name PUT = ''PUT''"
| "method_name PATCH = ''PATCH''"
| "method_name DELETE = ''DELETE''"

definition HTTP_METHODS :: "http_method list" where
  "HTTP_METHODS = [GET, POST, PUT, PATCH, DELETE]"

definition upper_char :: "char \<Rightarrow> char" where
  "upper_char c = (if is_lower c then char_of (of_char c - 32 :: nat) else c)"

text \<open>\<^verbatim>\<open>(req.method ?? 'GET').toUpperCase()\<close>, when it is one of the methods.\<close>

definition request_method :: "string option \<Rightarrow> http_method option" where
  "request_method raw =
     (let name = List.map upper_char (nullish raw ''GET'') in
      List.find (\<lambda>m. method_name m = name) HTTP_METHODS)"

definition lowercaseHeaders :: "(string \<times> string list) list \<Rightarrow> headers" where
  "lowercaseHeaders raw =
     fold (\<lambda>(k, vs) out. let k = List.map lower_char k in
        if k = ''__proto__'' then out else js_set k (join_with '', '' vs) out) raw []"

datatype ('h) dispatched =
    Finish nat string "string option"
  | RunHandler http_method "'h match_result"
  | RequestHangs
  | RequestFails plugin_error

text \<open>The \<^verbatim>\<open>Allow\<close> header: the names in the order of \<^verbatim>\<open>sort()\<close>.\<close>

definition allow_header :: "http_method set \<Rightarrow> string" where
  "allow_header ms = join_with '', '' (sort (List.map method_name [m \<leftarrow> HTTP_METHODS. m \<in> ms]))"

definition find_handler :: "http_method \<Rightarrow> string \<Rightarrow> 'h router \<Rightarrow> 'h dispatched" where
  "find_handler m path r =
     (case match_route m path r of
        Some mr \<Rightarrow> RunHandler m mr
      | None \<Rightarrow>
          (let otherMethods = methodsFor path r in
           if otherMethods \<noteq> {} then Finish 405 ''method-not-allowed'' (Some (allow_header otherMethods))
           else Finish 404 ''not-found'' None))"

definition dispatch ::
    "('h, 'o, 'w, http_request_event) sub_behaviour \<Rightarrow> ('w \<Rightarrow> 'r router) \<Rightarrow> ('h, 'o) hook_bus \<Rightarrow> 'w \<Rightarrow>
       string option \<Rightarrow> string \<Rightarrow> headers \<Rightarrow> 'r dispatched \<times> ('h, 'o) hook_bus \<times> 'w" where
  "dispatch sem routes b w rawMethod path hs =
     (case request_method rawMethod of
        None \<Rightarrow> (Finish 405 ''method-not-allowed'' None, b, w)
      | Some m \<Rightarrow>
          (case fire sem ''http:request'' None b w \<lparr>rq_method = m, rq_path = path, rq_headers = hs\<rparr> of
             (Vetoed rj, b', w', lg) \<Rightarrow>
               (Finish (if starts_with ''csrf'' (rj_reason rj) then 403 else 400) (rj_reason rj) None, b', w')
           | (FireThrew e, b', w', lg) \<Rightarrow> (RequestFails e, b', w')
           | (FireHangs p, b', w', lg) \<Rightarrow> (RequestHangs, b', w')
           | (Fired ev, b', w', lg) \<Rightarrow> (find_handler m path (routes w'), b', w')))"

definition deriveSecure :: "bool \<Rightarrow> bool \<Rightarrow> headers \<Rightarrow> bool" where
  "deriveSecure encrypted trustProxy hs =
     (if encrypted then True
      else if \<not> trustProxy then False
      else case js_get hs ''x-forwarded-proto'' of
          None \<Rightarrow> False
        | Some xfp \<Rightarrow> List.map lower_char (trim (hd (split_text '','' xfp))) = ''https'')"

section \<open>Registering a route\<close>

record 'h register_input =
  ri_method :: string
  ri_path :: jsval
  ri_handler :: "'h option"
  ri_bypassCsrf :: jsval
  ri_maxBodyBytes :: jsval

definition http_err :: "string \<Rightarrow> plugin_error" where
  "http_err c = plugin_err c ''@ax/http-server''"

text \<open>The cap, when it is a positive integer.\<close>

definition body_cap :: "jsval \<Rightarrow> plugin_error + nat option" where
  "body_cap v =
     (if v = JUndef then Inr None
      else case as_nonneg_int v of
          Some (Suc n) \<Rightarrow> Inr (Some (Suc n))
        | _ \<Rightarrow> Inl (http_err ''invalid-payload''))"

definition route_input :: "'h register_input \<Rightarrow> plugin_error + http_method \<times> string \<times> 'h \<times> bool \<times> nat option" where
  "route_input i =
     andThen (orThrow (List.find (\<lambda>m. method_name m = ri_method i) HTTP_METHODS) (http_err ''invalid-payload'')) (\<lambda>m.
     andThen (orThrow (as_string (ri_path i)) (http_err ''invalid-payload'')) (\<lambda>path.
     andThen (check (path \<noteq> [] \<and> starts_with ''/'' path) (http_err ''invalid-payload'')) (\<lambda>_.
     andThen (orThrow (ri_handler i) (http_err ''invalid-payload'')) (\<lambda>h.
     andThen (body_cap (ri_maxBodyBytes i)) (\<lambda>cap.
       Inr (m, path, h, ri_bypassCsrf i = JBool True, cap))))))"

definition http_register_route :: "'h register_input \<Rightarrow> 'h router \<Rightarrow> (plugin_error + nat) \<times> 'h router" where
  "http_register_route i r =
     (case route_input i of
        Inl e \<Rightarrow> (Inl e, r)
      | Inr (m, path, h, bypass, cap) \<Rightarrow>
          (case register_route m path h bypass cap r of
             (Inl _, r') \<Rightarrow> (Inl (http_err ''duplicate-route''), r')
           | (Inr k, r') \<Rightarrow> (Inr k, r')))"

section \<open>What the guard ensures\<close>

lemma evaluateCsrf_None:
  "evaluateCsrf m hs allowed = None \<longleftrightarrow>
     m = GET \<or> js_get hs BYPASS_HEADER = Some BYPASS_VALUE \<or>
     (\<exists>origin. js_get hs ''origin'' = Some origin \<and> origin \<noteq> [] \<and> origin \<in> set allowed)"
  by (cases m) (auto simp: evaluateCsrf_def STATE_CHANGING_METHODS_def split: option.splits)

lemma csrf_handler_passes:
  "guard_passes allowed (routes w) ev \<Longrightarrow>
     csrf_handler allowed routes b w ev = (b, w, \<lparr>run_at = Some 0, run_end = Resolved (Payload ev)\<rparr>)"
  by (auto simp: csrf_handler_def createCsrfSubscriber_def guard_passes_def)

lemma csrf_handler_refuses:
  assumes "\<not> guard_passes allowed (routes w) ev"
  shows "\<exists>r. csrf_handler allowed routes b w ev = (b, w, \<lparr>run_at = Some 0, run_end = Resolved (Veto
      \<lparr>rj_reason = csrf_reason_text r, rj_source = Some ''@ax/http-server/csrf'', rj_code = None, rj_hold = None\<rparr>)\<rparr>)"
  using assms by (auto simp: csrf_handler_def createCsrfSubscriber_def guard_passes_def)

text \<open>A subscriber that does not replace the event it is given.\<close>

definition leaves_event :: "('h, 'o, 'w, http_request_event) sub_behaviour \<Rightarrow> http_request_event \<Rightarrow> 'h subscriber \<Rightarrow> bool" where
  "leaves_event sem ev s \<longleftrightarrow>
     (\<forall>b w q. run_end (snd (snd (sem (sub_handler s) b w ev))) = Resolved (Payload q) \<longrightarrow> q = ev)"

lemma fire_subs_leaves:
  assumes "list_all (leaves_event sem ev) ss" "fire_subs sem hook PosInf ss b w ev = (Fired q, b', w', lg)"
  shows "q = ev"
  using assms
proof (induction ss arbitrary: b w lg)
  case (Cons s ss)
  obtain b1 w1 r where sem: "sem (sub_handler s) b w ev = (b1, w1, r)" by (metis prod_cases3)
  have keep: "run_end r = Resolved (Payload p) \<Longrightarrow> p = ev" for p
    using Cons.prems(1) sem by (simp add: leaves_event_def) (metis snd_conv)
  obtain lg' where "fire_subs sem hook PosInf ss b1 w1 ev = (Fired q, b', w', lg')"
    using Cons.prems(2) keep
    by (auto simp: sem sub_outcome_of_def unbounded_outcome_def add_log_def Let_def split: fire_splits)
  then show ?case using Cons.IH Cons.prems(1) by simp
qed simp

lemma unbounded_resolved:
  "sub_outcome_of hook p warn PosInf \<lparr>run_at = Some 0, run_end = Resolved v\<rparr> =
     (Settled v, watchStall ''hook_subscriber'' hook p warn (Some 0))"
  by (simp add: sub_outcome_of_def unbounded_outcome_def)

lemma guarded_fire:
  assumes subs: "subs_of b ''http:request'' = pre @ g # post"
    and guard: "\<And>b w e. sem (sub_handler g) b w e = csrf_handler allowed routes b w e"
    and keep: "list_all (leaves_event sem ev) pre"
    and fired: "fire sem ''http:request'' None b w ev = (Fired q, b', w', lg)"
  shows "\<exists>b1 w1 lg1. fire_subs sem ''http:request'' PosInf pre b w ev = (Fired ev, b1, w1, lg1) \<and>
    guard_passes allowed (routes w1) ev"
proof -
  have all: "fire_subs sem ''http:request'' PosInf (pre @ g # post) b w ev = (Fired q, b', w', lg)"
    using fired by (simp add: fire_def isValidTimeoutMs_def subs)
  then obtain p b1 w1 lg1 where first: "fire_subs sem ''http:request'' PosInf pre b w ev = (Fired p, b1, w1, lg1)"
    unfolding fire_subs_append by (auto split: prod.splits fire_result.splits)
  have p: "p = ev" using fire_subs_leaves[OF keep first] .
  have "guard_passes allowed (routes w1) ev"
  proof (rule ccontr)
    assume "\<not> guard_passes allowed (routes w1) ev"
    from csrf_handler_refuses[of allowed routes w1, OF this, of b1] show False
      using all by (auto simp: fire_subs_append first p guard unbounded_resolved add_log_def)
  qed
  then show ?thesis using first p by blast
qed

lemma dispatch_runs:
  assumes "dispatch sem routes b w raw path hs = (RunHandler m mr, b', w')"
  obtains q lg where "request_method raw = Some m" "match_route m path (routes w') = Some mr"
    "fire sem ''http:request'' None b w \<lparr>rq_method = m, rq_path = path, rq_headers = hs\<rparr> = (Fired q, b', w', lg)"
  using assms by (auto simp: dispatch_def find_handler_def Let_def split: option.splits prod.splits fire_result.splits if_splits)

text \<open>C15. A request reaches a handler only when the guard let it pass: when no subscriber before the
  guard replaces the event, a handler that runs serves a GET, a request with the custom header, a
  request from an allowed origin, or a path whose route (in the table as the guard saw it) opted out;
  and the handler is the one the table has for the request itself after all subscribers ran.\<close>

theorem guarded_dispatch:
  assumes subs: "subs_of b ''http:request'' = pre @ g # post"
    and guard: "\<And>b w e. sem (sub_handler g) b w e = csrf_handler allowed routes b w e"
    and keep: "list_all (leaves_event sem \<lparr>rq_method = m, rq_path = path, rq_headers = hs\<rparr>) pre"
    and run: "dispatch sem routes b w raw path hs = (RunHandler m mr, b', w')"
  shows "\<exists>b1 w1 lg. fire_subs sem ''http:request'' PosInf pre b w \<lparr>rq_method = m, rq_path = path, rq_headers = hs\<rparr>
        = (Fired \<lparr>rq_method = m, rq_path = path, rq_headers = hs\<rparr>, b1, w1, lg) \<and>
      match_route m path (routes w') = Some mr \<and>
      (m = GET \<or> js_get hs ''x-requested-with'' = Some ''ax-admin'' \<or>
       (\<exists>origin \<in> set allowed. js_get hs ''origin'' = Some origin \<and> origin \<noteq> []) \<or>
       (\<exists>mr1. match_route m path (routes w1) = Some mr1 \<and> mr_bypassCsrf mr1))"
proof -
  obtain q lg where found: "match_route m path (routes w') = Some mr"
    and fired: "fire sem ''http:request'' None b w \<lparr>rq_method = m, rq_path = path, rq_headers = hs\<rparr> = (Fired q, b', w', lg)"
    using dispatch_runs[OF run] by blast
  obtain b1 w1 lg1 where first: "fire_subs sem ''http:request'' PosInf pre b w \<lparr>rq_method = m, rq_path = path, rq_headers = hs\<rparr>
        = (Fired \<lparr>rq_method = m, rq_path = path, rq_headers = hs\<rparr>, b1, w1, lg1)"
    and passes: "guard_passes allowed (routes w1) \<lparr>rq_method = m, rq_path = path, rq_headers = hs\<rparr>"
    using guarded_fire[OF subs guard keep fired] by blast
  from passes have "m = GET \<or> js_get hs ''x-requested-with'' = Some ''ax-admin'' \<or>
       (\<exists>origin \<in> set allowed. js_get hs ''origin'' = Some origin \<and> origin \<noteq> []) \<or>
       (\<exists>mr1. match_route m path (routes w1) = Some mr1 \<and> mr_bypassCsrf mr1)"
    by (auto simp: guard_passes_def evaluateCsrf_None isBypassed_def BYPASS_HEADER_def BYPASS_VALUE_def split: option.splits)
  with first found show ?thesis by blast
qed

text \<open>A bus with the guard, and before it a subscriber that adds the custom header to every event.\<close>

datatype demo_sub = GuardSub | RewriteSub

definition demo_route_table :: "nat router" where
  "demo_route_table = snd (register_route POST ''/save'' 7 False None new_router)"

fun demo_http_sem :: "(demo_sub, unit, nat router, http_request_event) sub_behaviour" where
  "demo_http_sem GuardSub b w ev = csrf_handler [''https://ours''] (\<lambda>w. w) b w ev"
| "demo_http_sem RewriteSub b w ev =
     (b, w, \<lparr>run_at = Some 0, run_end = Resolved (Payload (ev\<lparr>rq_headers := js_set BYPASS_HEADER BYPASS_VALUE (rq_headers ev)\<rparr>))\<rparr>)"

definition demo_http_bus :: "demo_sub list \<Rightarrow> (demo_sub, unit) hook_bus" where
  "demo_http_bus hs = \<lparr>services = [],
     subscribers = [(''http:request'', List.map (\<lambda>h. \<lparr>sub_plugin = ''p'', sub_handler = h, sub_priority = 0\<rparr>) hs)],
     default_timeout = Fin 1000, stall_warn = Fin 1000\<rparr>"

lemma demo_route_found: "match_route POST ''/save'' demo_route_table =
    Some \<lparr>mr_handler = 7, mr_route = ''/save'', mr_params = [], mr_bypassCsrf = False, mr_maxBodyBytes = None\<rparr>"
  by code_simp

lemma demo_post: "request_method (Some ''post'') = Some POST"
  by code_simp

lemma demo_not_bypassed: "\<not> isBypassed demo_route_table POST ''/save''"
  by (simp add: isBypassed_def demo_route_found)

lemmas demo_guard_simps = dispatch_def demo_post fire_def isValidTimeoutMs_def demo_http_bus_def
  sub_outcome_of_def unbounded_outcome_def add_log_def csrf_handler_def createCsrfSubscriber_def
  evaluateCsrf_def STATE_CHANGING_METHODS_def BYPASS_HEADER_def BYPASS_VALUE_def demo_not_bypassed
  find_handler_def demo_route_found

lemma guarded_dispatch_witness:
  "\<exists>mr. dispatch demo_http_sem (\<lambda>w. w) (demo_http_bus [GuardSub]) demo_route_table (Some ''post'') ''/save'' [(''origin'', ''https://ours'')]
      = (RunHandler POST mr, demo_http_bus [GuardSub], demo_route_table) \<and> match_route POST ''/save'' demo_route_table = Some mr"
proof -
  let ?mr = "\<lparr>mr_handler = 7, mr_route = ''/save'', mr_params = [], mr_bypassCsrf = False, mr_maxBodyBytes = None\<rparr>"
  let ?g = "\<lparr>sub_plugin = ''p'', sub_handler = GuardSub, sub_priority = 0\<rparr>"
  have subs: "subs_of (demo_http_bus [GuardSub]) ''http:request'' = [] @ ?g # []" by (simp add: demo_http_bus_def)
  have guard: "demo_http_sem (sub_handler ?g) b w e = csrf_handler [''https://ours''] (\<lambda>w. w) b w e" for b w e by simp
  have keep: "list_all (leaves_event demo_http_sem \<lparr>rq_method = POST, rq_path = ''/save'', rq_headers = [(''origin'', ''https://ours'')]\<rparr>) []"
    by simp
  have run: "dispatch demo_http_sem (\<lambda>w. w) (demo_http_bus [GuardSub]) demo_route_table (Some ''post'') ''/save'' [(''origin'', ''https://ours'')]
      = (RunHandler POST ?mr, demo_http_bus [GuardSub], demo_route_table)"
    by (simp add: demo_guard_simps)
  from guarded_dispatch[OF subs guard keep run] run show ?thesis by blast
qed

text \<open>What a subscriber returns reaches the guard: with a subscriber before it that replaces the
  headers, a request from a foreign origin, refused without that subscriber, is served, although the
  dispatch itself goes by the request as it came.\<close>

theorem earlier_subscriber_opens_the_guard:
  "fst (dispatch demo_http_sem (\<lambda>w. w) (demo_http_bus [GuardSub]) demo_route_table (Some ''post'') ''/save'' [(''origin'', ''https://evil'')])
     = Finish 403 ''csrf-failed:origin-mismatch'' None \<and>
   fst (dispatch demo_http_sem (\<lambda>w. w) (demo_http_bus [RewriteSub, GuardSub]) demo_route_table (Some ''post'') ''/save'' [(''origin'', ''https://evil'')])
     = RunHandler POST \<lparr>mr_handler = 7, mr_route = ''/save'', mr_params = [], mr_bypassCsrf = False, mr_maxBodyBytes = None\<rparr>"
  by (simp_all add: demo_guard_simps attribute_veto_def starts_with_def)

end
