(* ===== verification/Http_Body.thy ===== *)
theory Http_Body
  imports Js_Text
begin

text \<open>
  Receiving: the capped reading of a request body, after \<^verbatim>\<open>packages/http-server/src/body.ts\<close>, and
  the admission of requests (the listener's life, the gate and the report of dropped requests), after
  \<^verbatim>\<open>createHttpServerPlugin\<close> of \<^verbatim>\<open>packages/http-server/src/plugin.ts\<close>. The events of the
  request stream and of the listener come as lists.
\<close>

section \<open>Numbers in header fields\<close>

text \<open>\<^verbatim>\<open>Number(s)\<close>: blanks around it are dropped, the empty text is 0; otherwise a decimal literal with an
  optional sign, fraction and exponent, \<^verbatim>\<open>Infinity\<close>, or an unsigned literal in base 16, 8 or 2. A
  literal that rounds beyond the largest double is infinite. Below that the value is exact: only a
  fraction so close above the cap that it rounds to the cap is told apart from it here and not there.\<close>

text \<open>Halfway between the largest double and \<^verbatim>\<open>2 ** 1024\<close>, where rounding begins to overflow.\<close>

definition DOUBLE_OVERFLOW :: rat where
  "DOUBLE_OVERFLOW = 2 ^ 1024 - 2 ^ 970"

fun overflow :: "jsnum \<Rightarrow> jsnum" where
  "overflow (Fin q) = (if DOUBLE_OVERFLOW \<le> q then PosInf else if q \<le> - DOUBLE_OVERFLOW then NegInf else Fin q)"
| "overflow v = v"

definition all_digits :: "string \<Rightarrow> bool" where
  "all_digits s \<longleftrightarrow> s \<noteq> [] \<and> list_all is_digit s"

definition plain_decimal :: "string \<Rightarrow> rat option" where
  "plain_decimal s =
     (case index_of CHR ''.'' s of
        None \<Rightarrow> if all_digits s then Some (of_nat (radix_value 10 s)) else None
      | Some i \<Rightarrow>
          (let a = take i s; b = drop (Suc i) s in
           if a @ b \<noteq> [] \<and> list_all is_digit (a @ b)
           then Some (of_nat (radix_value 10 (a @ b)) / 10 ^ length b) else None))"

definition exponent_value :: "string \<Rightarrow> rat option" where
  "exponent_value s =
     (let (neg, d) = (case s of c # t \<Rightarrow> if c = CHR ''-'' then (True, t) else if c = CHR ''+'' then (False, t) else (False, s)
        | [] \<Rightarrow> (False, s)) in
      if all_digits d then Some (if neg then 1 / 10 ^ radix_value 10 d else 10 ^ radix_value 10 d) else None)"

definition unsigned_number :: "string \<Rightarrow> jsnum" where
  "unsigned_number s =
     (if s = ''Infinity'' then PosInf
      else let e = (case index_of CHR ''e'' s of Some i \<Rightarrow> Some i | None \<Rightarrow> index_of CHR ''E'' s) in
        case e of
          None \<Rightarrow> (case plain_decimal s of Some q \<Rightarrow> Fin q | None \<Rightarrow> NaN)
        | Some i \<Rightarrow>
            (case (plain_decimal (take i s), exponent_value (drop (Suc i) s)) of
               (Some q, Some x) \<Rightarrow> Fin (q * x)
             | _ \<Rightarrow> NaN))"

definition digit_of_base :: "nat \<Rightarrow> char \<Rightarrow> bool" where
  "digit_of_base b c \<longleftrightarrow> is_hex_any c \<and> hex_value c < b"

definition base_literal :: "nat \<Rightarrow> string \<Rightarrow> jsnum" where
  "base_literal b d = (if d \<noteq> [] \<and> list_all (digit_of_base b) d then Fin (of_nat (radix_value b d)) else NaN)"

fun js_neg :: "jsnum \<Rightarrow> jsnum" where
  "js_neg (Fin q) = Fin (- q)"
| "js_neg PosInf = NegInf"
| "js_neg NegInf = PosInf"
| "js_neg NaN = NaN"

definition js_literal :: "string \<Rightarrow> jsnum" where
  "js_literal text =
     (case trim text of
        [] \<Rightarrow> Fin 0
      | c # t \<Rightarrow>
          if c = CHR ''-'' then js_neg (unsigned_number t)
          else if c = CHR ''+'' then unsigned_number t
          else (case t of
              x # d \<Rightarrow>
                if c = CHR ''0'' \<and> lower_char x = CHR ''x'' then base_literal 16 d
                else if c = CHR ''0'' \<and> lower_char x = CHR ''o'' then base_literal 8 d
                else if c = CHR ''0'' \<and> lower_char x = CHR ''b'' then base_literal 2 d
                else unsigned_number (c # t)
            | [] \<Rightarrow> unsigned_number (c # t)))"

definition js_number :: "string \<Rightarrow> jsnum" where
  "js_number text = overflow (js_literal text)"

fun js_greater :: "jsnum \<Rightarrow> nat \<Rightarrow> bool" where
  "js_greater (Fin q) n \<longleftrightarrow> of_nat n < q"
| "js_greater _ n \<longleftrightarrow> False"

section \<open>The body\<close>

record request_stream =
  rs_errored :: "string option"
  rs_readableEnded :: bool
  rs_destroyed :: bool
  rs_contentLength :: "string option"

datatype body_event = Data bytes | StreamError string | StreamEnd | StreamClose

datatype body_result =
    Body bytes
  | BodyTooLarge
  | StreamFailed string
  | AlreadyEnded
  | AlreadyDestroyed
  | ClosedEarly

definition bodyGoneError :: "request_stream \<Rightarrow> body_result option" where
  "bodyGoneError rs =
     (case rs_errored rs of
        Some e \<Rightarrow> Some (StreamFailed e)
      | None \<Rightarrow>
          if rs_readableEnded rs then Some AlreadyEnded
          else if rs_destroyed rs then Some AlreadyDestroyed
          else None)"

text \<open>The length the request declares is above the cap.\<close>

definition declared_too_large :: "nat \<Rightarrow> request_stream \<Rightarrow> bool" where
  "declared_too_large maxBytes rs \<longleftrightarrow>
     (case rs_contentLength rs of
        None \<Rightarrow> False
      | Some cl \<Rightarrow> cl \<noteq> [] \<and> js_is_finite (js_number cl) \<and> js_greater (js_number cl) maxBytes)"

record body_reader =
  br_chunks :: "bytes list"
  br_total :: nat
  br_result :: "body_result option"
  br_onData :: bool

definition new_reader :: body_reader where
  "new_reader = \<lparr>br_chunks = [], br_total = 0, br_result = None, br_onData = True\<rparr>"

definition body_settle :: "body_result \<Rightarrow> body_reader \<Rightarrow> body_reader" where
  "body_settle x r = (if br_result r = None then r\<lparr>br_result := Some x\<rparr> else r)"

fun on_body_event :: "nat \<Rightarrow> body_event \<Rightarrow> body_reader \<Rightarrow> body_reader" where
  "on_body_event maxBytes (Data chunk) r =
     (if \<not> br_onData r \<or> br_result r \<noteq> None then r
      else let r = r\<lparr>br_total := br_total r + length chunk\<rparr> in
        if br_total r > maxBytes then body_settle BodyTooLarge (r\<lparr>br_chunks := [], br_onData := False\<rparr>)
        else r\<lparr>br_chunks := br_chunks r @ [chunk]\<rparr>)"
| "on_body_event maxBytes (StreamError e) r = body_settle (StreamFailed e) r"
| "on_body_event maxBytes StreamEnd r = body_settle (Body (concat (br_chunks r))) r"
| "on_body_event maxBytes StreamClose r = body_settle ClosedEarly r"

text \<open>\<open>None\<close>: the promise is still open after these events.\<close>

definition readBodyCapped :: "request_stream \<Rightarrow> nat \<Rightarrow> body_event list \<Rightarrow> body_result option" where
  "readBodyCapped rs maxBytes evs =
     (case bodyGoneError rs of
        Some e \<Rightarrow> Some e
      | None \<Rightarrow>
          if declared_too_large maxBytes rs then Some BodyTooLarge
          else br_result (fold (on_body_event maxBytes) evs new_reader))"

subsection \<open>The result from the whole list of events\<close>

fun is_data :: "body_event \<Rightarrow> bool" where
  "is_data (Data _) = True"
| "is_data _ = False"

fun data_of :: "body_event \<Rightarrow> bytes" where
  "data_of (Data b) = b"
| "data_of _ = []"

definition received :: "body_event list \<Rightarrow> bytes" where
  "received evs = concat (List.map data_of (takeWhile is_data evs))"

fun ending :: "bytes \<Rightarrow> body_event list \<Rightarrow> body_result option" where
  "ending b [] = None"
| "ending b (StreamEnd # _) = Some (Body b)"
| "ending b (StreamError e # _) = Some (StreamFailed e)"
| "ending b (StreamClose # _) = Some ClosedEarly"
| "ending b (Data _ # evs) = ending b evs"

lemma settled_stays: "br_result r = Some x \<Longrightarrow> br_result (fold (on_body_event n) evs r) = Some x"
proof (induction evs arbitrary: r)
  case (Cons e evs)
  have "br_result (on_body_event n e r) = Some x" using Cons.prems by (cases e) (simp_all add: body_settle_def)
  then show ?case using Cons.IH by simp
qed simp

lemma reader_result:
  assumes "br_result r = None" "br_onData r" "br_total r = length (concat (br_chunks r))" "br_total r \<le> n"
  shows "br_result (fold (on_body_event n) evs r) =
    (let b = concat (br_chunks r) @ received evs in if length b > n then Some BodyTooLarge else ending b evs)"
  using assms
proof (induction evs arbitrary: r)
  case (Cons e evs)
  show ?case
  proof (cases e)
    case (Data c)
    show ?thesis
    proof (cases "br_total r + length c > n")
      case True
      then show ?thesis using Cons.prems settled_stays[of "body_settle BodyTooLarge (r\<lparr>br_total := br_total r + length c, br_chunks := [], br_onData := False\<rparr>)"]
        by (simp add: Data body_settle_def Let_def received_def)
    next
      case False
      then show ?thesis using Cons.IH[of "r\<lparr>br_total := br_total r + length c, br_chunks := br_chunks r @ [c]\<rparr>"] Cons.prems
        by (simp add: Data Let_def received_def)
    qed
  qed (use Cons.prems settled_stays in \<open>simp_all add: body_settle_def received_def Let_def\<close>)
qed (simp add: received_def)

text \<open>C31. What the reader answers: the first reason why the stream is already gone; else a refusal when the
  declared length or the bytes that come before the end exceed the cap; else what ends the stream,
  and then exactly the bytes that came, in order. Later events change nothing, and the reader
  waits only while the stream is neither over its cap nor over.\<close>

theorem body_is_what_came_before_the_end:
  "readBodyCapped rs maxBytes evs =
     (case bodyGoneError rs of
        Some e \<Rightarrow> Some e
      | None \<Rightarrow>
          if declared_too_large maxBytes rs \<or> length (received evs) > maxBytes then Some BodyTooLarge
          else ending (received evs) evs)"
proof -
  have "br_result (fold (on_body_event maxBytes) evs new_reader) =
      (if length (received evs) > maxBytes then Some BodyTooLarge else ending (received evs) evs)"
    by (subst reader_result) (simp_all add: new_reader_def)
  then show ?thesis by (simp add: readBodyCapped_def split: option.split)
qed

section \<open>Admission\<close>

text \<open>The listening socket: created by \<^verbatim>\<open>init\<close>, opened by \<^verbatim>\<open>startAdmission\<close>, closed by the first
  stop; \<open>ad_closing\<close> is the promise of the close, with whether it settled.\<close>

record admission =
  ad_server :: bool
  ad_listening :: bool
  ad_admitting :: bool
  ad_closing :: "bool option"
  ad_dropped :: nat
  ad_ending :: bool

definition new_admission :: admission where
  "new_admission = \<lparr>ad_server = False, ad_listening = False, ad_admitting = False, ad_closing = None, ad_dropped = 0, ad_ending = False\<rparr>"

datatype admission_op = ServerInit | StartAdmission bool | StopAdmission | Shutdown | ServerClosed | ShutdownResumes | Request

datatype admission_output = NotInitialized | ListenFailed | Listens | Stopped | Reported nat | Handled | Refused

definition reportDropped :: "admission \<Rightarrow> admission_output list \<times> admission" where
  "reportDropped a = (if ad_dropped a = 0 then ([], a) else ([Reported (ad_dropped a)], a\<lparr>ad_dropped := 0\<rparr>))"

definition stopAdmitting :: "admission \<Rightarrow> admission_output list \<times> admission" where
  "stopAdmitting a =
     (let a = a\<lparr>ad_admitting := False\<rparr> in
      if \<not> ad_server a \<or> \<not> ad_listening a then ([], a)
      else ([Stopped], a\<lparr>ad_listening := False, ad_closing := Some False\<rparr>))"

definition end_shutdown :: "admission \<Rightarrow> admission_output list \<times> admission" where
  "end_shutdown a = reportDropped (a\<lparr>ad_server := False, ad_ending := False\<rparr>)"

text \<open>\<open>StartAdmission ok\<close>: whether the port could be bound. A listener that listens already refuses.
  \<open>ShutdownResumes\<close>: the code after the await of the close.\<close>

fun admission_step :: "admission_op \<Rightarrow> admission \<Rightarrow> admission_output list \<times> admission" where
  "admission_step ServerInit a = ([], a\<lparr>ad_server := True\<rparr>)"
| "admission_step (StartAdmission ok) a =
     (if \<not> ad_server a then ([NotInitialized], a)
      else if ad_listening a \<or> \<not> ok then ([ListenFailed], a)
      else ([Listens], a\<lparr>ad_listening := True, ad_admitting := True\<rparr>))"
| "admission_step StopAdmission a = stopAdmitting a"
| "admission_step Shutdown a =
     (let (o1, a1) = stopAdmitting a; (o2, a2) = reportDropped a1 in
      if ad_closing a2 = Some False then (o1 @ o2, a2\<lparr>ad_ending := True\<rparr>)
      else (let (o3, a3) = end_shutdown a2 in (o1 @ o2 @ o3, a3)))"
| "admission_step ServerClosed a =
     ([], if ad_closing a = Some False then a\<lparr>ad_closing := Some True\<rparr> else a)"
| "admission_step ShutdownResumes a =
     (if ad_ending a \<and> ad_closing a \<noteq> Some False then end_shutdown a else ([], a))"
| "admission_step Request a =
     (if ad_admitting a then ([Handled], a) else ([Refused], a\<lparr>ad_dropped := ad_dropped a + 1\<rparr>))"

fun admission_run :: "admission_op list \<Rightarrow> admission \<Rightarrow> admission_output list \<times> admission" where
  "admission_run [] a = ([], a)"
| "admission_run (x # xs) a =
     (let (o1, a1) = admission_step x a; (o2, a2) = admission_run xs a1 in (o1 @ o2, a2))"

fun reported_of :: "admission_output \<Rightarrow> nat" where
  "reported_of (Reported n) = n"
| "reported_of _ = 0"

definition accounted :: "admission_output list \<Rightarrow> nat" where
  "accounted os = sum_list (List.map reported_of os)"

definition refused :: "admission_output list \<Rightarrow> nat" where
  "refused os = length [x \<leftarrow> os. x = Refused]"

lemma accounting_simps [simp]:
  "accounted [] = 0" "accounted (x # xs) = reported_of x + accounted xs" "accounted (xs @ ys) = accounted xs + accounted ys"
  "refused [] = 0" "refused (x # xs) = (if x = Refused then Suc (refused xs) else refused xs)" "refused (xs @ ys) = refused xs + refused ys"
  by (simp_all add: accounted_def refused_def)

lemma reportDropped_accounts:
  "reportDropped a = (os, a') \<Longrightarrow> accounted os + ad_dropped a' = ad_dropped a \<and> refused os = 0 \<and> ad_dropped a' = 0 \<and>
     ad_closing a' = ad_closing a \<and> ad_admitting a' = ad_admitting a \<and> ad_listening a' = ad_listening a"
  by (auto simp: reportDropped_def split: if_splits)

lemma stopAdmitting_accounts:
  "stopAdmitting a = (os, a') \<Longrightarrow> accounted os = 0 \<and> refused os = 0 \<and> ad_dropped a' = ad_dropped a \<and> \<not> ad_admitting a'"
  by (auto simp: stopAdmitting_def Let_def split: if_splits)

lemma end_shutdown_accounts:
  "end_shutdown a = (os, a') \<Longrightarrow> accounted os + ad_dropped a' = ad_dropped a \<and> refused os = 0 \<and> ad_admitting a' = ad_admitting a"
  by (auto simp: end_shutdown_def dest: reportDropped_accounts)

lemma admission_step_accounts:
  assumes "admission_step x a = (os, a')"
  shows "accounted os + ad_dropped a' = ad_dropped a + refused os"
proof (cases x)
  case Shutdown
  obtain o1 a1 o2 a2 where s: "stopAdmitting a = (o1, a1)" "reportDropped a1 = (o2, a2)" by (metis surj_pair)
  obtain o3 a3 where e: "end_shutdown a2 = (o3, a3)" by (metis surj_pair)
  show ?thesis using assms stopAdmitting_accounts[OF s(1)] reportDropped_accounts[OF s(2)] end_shutdown_accounts[OF e]
    by (auto simp: Shutdown s e split: if_splits)
next
  case ShutdownResumes
  then show ?thesis using assms end_shutdown_accounts[of a os a'] by (auto split: if_splits)
qed (use assms stopAdmitting_accounts in \<open>auto split: if_splits\<close>)

text \<open>Every request the gate refused is reported once, or still counted for the next report: over
  any course of start, stops, shutdowns, closes and requests, the reports add up to the refusals.\<close>

theorem refused_requests_are_reported:
  "admission_run xs new_admission = (os, a) \<Longrightarrow> accounted os + ad_dropped a = refused os"
proof -
  have "admission_run xs a0 = (os, a) \<Longrightarrow> accounted os + ad_dropped a = ad_dropped a0 + refused os" for a0
  proof (induction xs arbitrary: a0 os)
    case (Cons x xs)
    obtain o1 a1 o2 where s: "admission_step x a0 = (o1, a1)" and r: "admission_run xs a1 = (o2, a)" and os: "os = o1 @ o2"
      using Cons.prems by (auto split: prod.splits)
    show ?case using admission_step_accounts[OF s] Cons.IH[OF r] by (simp add: os)
  qed simp
  from this[of new_admission] show "admission_run xs new_admission = (os, a) \<Longrightarrow> accounted os + ad_dropped a = refused os"
    by (simp add: new_admission_def)
qed

lemma refused_requests_are_reported_witness:
  "\<exists>a. admission_run [ServerInit, Request, StartAdmission True, Request, StopAdmission, Request, Shutdown, Request, ServerClosed, ShutdownResumes] new_admission
      = ([Refused, Listens, Handled, Stopped, Refused, Reported 2, Refused, Reported 1], a) \<and> (2::nat) + 1 + ad_dropped a = 3"
proof -
  have "\<exists>a. admission_run [ServerInit, Request, StartAdmission True, Request, StopAdmission, Request, Shutdown, Request, ServerClosed, ShutdownResumes] new_admission
      = ([Refused, Listens, Handled, Stopped, Refused, Reported 2, Refused, Reported 1], a)"
    by (simp add: new_admission_def stopAdmitting_def reportDropped_def end_shutdown_def)
  then obtain a where run: "admission_run [ServerInit, Request, StartAdmission True, Request, StopAdmission, Request, Shutdown, Request, ServerClosed, ShutdownResumes] new_admission
      = ([Refused, Listens, Handled, Stopped, Refused, Reported 2, Refused, Reported 1], a)" ..
  from refused_requests_are_reported[OF run] run show ?thesis by simp
qed

end
