(* ===== verification/Http_Cookies.thy ===== *)
theory Http_Cookies
  imports Js_Text
begin

text \<open>
  Signed cookies of the HTTP server, after \<^verbatim>\<open>packages/http-server/src/cookies.ts\<close> and the cookie
  parts of \<^verbatim>\<open>packages/http-server/src/plugin.ts\<close>: the wire form, its verification, the
  \<^verbatim>\<open>Set-Cookie\<close> header and the reading of a \<^verbatim>\<open>Cookie\<close> header. The MAC
  (\<^verbatim>\<open>createHmac\<close> of \<^verbatim>\<open>node:crypto\<close>) is an argument; where a property needs it, that
  its results have 32 bytes is a hypothesis. A \<^verbatim>\<open>Date\<close> is given by its
  \<^verbatim>\<open>toUTCString()\<close>; \<^verbatim>\<open>maxAge\<close> is printed as JavaScript does below \<open>10 ^ 21\<close>. The parsing
  of the key from the environment is not modelled.
\<close>

section \<open>base64url\<close>

definition to_url :: "char \<Rightarrow> char" where
  "to_url c = (if c = CHR ''+'' then CHR ''-'' else if c = CHR ''/'' then CHR ''_'' else c)"

definition from_url :: "char \<Rightarrow> char" where
  "from_url c = (if c = CHR ''-'' then CHR ''+'' else if c = CHR ''_'' then CHR ''/'' else c)"

definition is_url_char :: "char \<Rightarrow> bool" where
  "is_url_char c \<longleftrightarrow> is_alnum c \<or> c \<in> {CHR ''-'', CHR ''_''}"

definition b64urlEncode :: "bytes \<Rightarrow> string" where
  "b64urlEncode bs = List.map to_url (takeWhile (\<lambda>c. c \<noteq> CHR ''='') (b64_encode bs))"

definition b64urlDecode :: "string \<Rightarrow> bytes option" where
  "b64urlDecode s = (if list_all is_url_char s then Some (b64_decode (List.map from_url s)) else None)"

section \<open>Signing and verifying\<close>

definition PLUGIN_NAME :: string where
  "PLUGIN_NAME = ''@ax/http-server''"

definition KEY_LEN :: nat where
  "KEY_LEN = 32"

definition HMAC_B64URL_LEN :: nat where
  "HMAC_B64URL_LEN = 43"

definition MAX_COOKIE_VALUE_BYTES :: nat where
  "MAX_COOKIE_VALUE_BYTES = 4 * 1024"

type_synonym mac = "bytes \<Rightarrow> bytes \<Rightarrow> bytes"

definition signCookieValue :: "mac \<Rightarrow> bytes \<Rightarrow> js_text \<Rightarrow> plugin_error + string" where
  "signCookieValue hmac key v =
     (if length key \<noteq> KEY_LEN then Inl (plugin_err ''invalid-cookie-key'' PLUGIN_NAME)
      else let payload = utf8_encode v in
        if length payload > MAX_COOKIE_VALUE_BYTES then Inl (plugin_err ''invalid-payload'' PLUGIN_NAME)
        else Inr (b64urlEncode payload @ ''.'' @ b64urlEncode (hmac key payload)))"

definition last_index_of :: "char \<Rightarrow> string \<Rightarrow> nat option" where
  "last_index_of c s = map_option (\<lambda>i. length s - 1 - i) (index_of c (rev s))"

definition verifyCookieValue :: "mac \<Rightarrow> bytes \<Rightarrow> string \<Rightarrow> plugin_error + js_text option" where
  "verifyCookieValue hmac key wire =
     (if length key \<noteq> KEY_LEN then Inl (plugin_err ''invalid-cookie-key'' PLUGIN_NAME)
      else Inr
       (if wire = [] then None
        else case last_index_of CHR ''.'' wire of
          None \<Rightarrow> None
        | Some dot \<Rightarrow>
            if dot = length wire - 1 then None
            else let payloadPart = take dot wire; sigPart = drop (dot + 1) wire in
              if length sigPart \<noteq> HMAC_B64URL_LEN then None
              else (case (b64urlDecode payloadPart, b64urlDecode sigPart) of
                  (Some payload, Some sig) \<Rightarrow>
                    if length sig \<noteq> 32 then None
                    else if length (hmac key payload) \<noteq> length sig then None
                    else if hmac key payload \<noteq> sig then None
                    else Some (utf8_decode payload)
                | _ \<Rightarrow> None)))"

section \<open>Headers\<close>

datatype same_site = SsLax | SsStrict | SsNone

record cookie_options =
  co_maxAge :: "jsnum option"
  co_expires :: "string option"
  co_path :: "string option"
  co_domain :: "string option"
  co_secure :: "bool option"
  co_sameSite :: "same_site option"

fun same_site_text :: "same_site \<Rightarrow> string" where
  "same_site_text SsLax = ''Lax''"
| "same_site_text SsStrict = ''Strict''"
| "same_site_text SsNone = ''None''"

text \<open>An integer as a template literal prints it.\<close>

fun decimal :: "nat \<Rightarrow> string" where
  "decimal n = (if n < 10 then [char_of (48 + n)] else decimal (n div 10) @ [char_of (48 + n mod 10)])"

declare decimal.simps [simp del]

definition int_text :: "int \<Rightarrow> string" where
  "int_text i = (if i < 0 then ''-'' @ decimal (nat (- i)) else decimal (nat i))"

definition cookie_name_char :: "char \<Rightarrow> bool" where
  "cookie_name_char c \<longleftrightarrow> is_alnum c \<or> c \<in> set ''!#$%&*+-.^_`|~'' \<or> c = CHR 0x27"

definition cookie_path_char :: "char \<Rightarrow> bool" where
  "cookie_path_char c \<longleftrightarrow> is_alnum c \<or> c \<in> set ''._~/-%''"

definition cookie_domain_char :: "char \<Rightarrow> bool" where
  "cookie_domain_char c \<longleftrightarrow> is_alnum c \<or> c \<in> set ''.-''"

definition validateCookieName :: "string \<Rightarrow> bool" where
  "validateCookieName name \<longleftrightarrow> name \<noteq> [] \<and> list_all cookie_name_char name"

definition validateCookiePath :: "string \<Rightarrow> bool" where
  "validateCookiePath path \<longleftrightarrow> path \<noteq> [] \<and> hd path = CHR ''/'' \<and> list_all cookie_path_char (tl path)"

definition validateCookieDomain :: "string \<Rightarrow> bool" where
  "validateCookieDomain d \<longleftrightarrow> d \<noteq> [] \<and> list_all cookie_domain_char d"

definition nullish_or :: "'a option \<Rightarrow> 'a \<Rightarrow> 'a" where
  "nullish_or x d = (case x of None \<Rightarrow> d | Some v \<Rightarrow> v)"

definition secure_parts :: "cookie_options \<Rightarrow> bool \<Rightarrow> string list" where
  "secure_parts opts isSecure =
     (let sameSite = nullish_or (co_sameSite opts) SsLax in
      [''SameSite='' @ same_site_text sameSite] @
      (if nullish_or (co_secure opts) (isSecure \<or> sameSite = SsNone) then [''Secure''] else []))"

definition cookie_scope :: "string \<Rightarrow> cookie_options \<Rightarrow> plugin_error + string list" where
  "cookie_scope name opts =
     (let path = nullish_or (co_path opts) ''/''; invalid = Inl (plugin_err ''invalid-payload'' PLUGIN_NAME) in
      if \<not> validateCookieName name then invalid
      else if \<not> validateCookiePath path then invalid
      else case co_domain opts of
          None \<Rightarrow> Inr [''Path='' @ path]
        | Some d \<Rightarrow> if \<not> validateCookieDomain d then invalid else Inr [''Path='' @ path, ''Domain='' @ d])"

definition set_cookie_parts :: "string \<Rightarrow> string \<Rightarrow> cookie_options \<Rightarrow> bool \<Rightarrow> plugin_error + string list" where
  "set_cookie_parts name signedValue opts isSecure =
     (case cookie_scope name opts of
        Inl e \<Rightarrow> Inl e
      | Inr scope \<Rightarrow>
          (let start = [name @ ''='' @ signedValue] @ scope;
               ending = (case co_expires opts of None \<Rightarrow> [] | Some d \<Rightarrow> [''Expires='' @ d]) @
                 [''HttpOnly''] @ secure_parts opts isSecure
           in case co_maxAge opts of
                None \<Rightarrow> Inr (start @ ending)
              | Some (Fin q) \<Rightarrow>
                  if q \<noteq> of_int \<lfloor>q\<rfloor> then Inl (plugin_err ''invalid-payload'' PLUGIN_NAME)
                  else Inr (start @ [''Max-Age='' @ int_text \<lfloor>q\<rfloor>] @ ending)
              | Some _ \<Rightarrow> Inl (plugin_err ''invalid-payload'' PLUGIN_NAME)))"

definition buildSetCookieHeader :: "string \<Rightarrow> string \<Rightarrow> cookie_options \<Rightarrow> bool \<Rightarrow> plugin_error + string" where
  "buildSetCookieHeader name signedValue opts isSecure =
     map_sum id (join_with ''; '') (set_cookie_parts name signedValue opts isSecure)"

definition clear_cookie_parts :: "string \<Rightarrow> cookie_options \<Rightarrow> bool \<Rightarrow> plugin_error + string list" where
  "clear_cookie_parts name opts isSecure =
     (case cookie_scope name opts of
        Inl e \<Rightarrow> Inl e
      | Inr scope \<Rightarrow>
          Inr ([name @ ''=''] @ scope @ [''Max-Age=0'', ''Expires=Thu, 01 Jan 1970 00:00:00 GMT'', ''HttpOnly''] @
            secure_parts opts isSecure))"

definition buildClearCookieHeader :: "string \<Rightarrow> cookie_options \<Rightarrow> bool \<Rightarrow> plugin_error + string" where
  "buildClearCookieHeader name opts isSecure = map_sum id (join_with ''; '') (clear_cookie_parts name opts isSecure)"

text \<open>\<^verbatim>\<open>setSignedCookie\<close>: the header it adds.\<close>

definition setSignedCookie :: "mac \<Rightarrow> bytes \<Rightarrow> string \<Rightarrow> js_text \<Rightarrow> cookie_options \<Rightarrow> bool \<Rightarrow> plugin_error + string" where
  "setSignedCookie hmac key name v opts isSecure =
     (case signCookieValue hmac key v of
        Inl e \<Rightarrow> Inl e
      | Inr wire \<Rightarrow> buildSetCookieHeader name wire opts isSecure)"

definition cookie_part :: "string \<Rightarrow> (string \<times> string) option" where
  "cookie_part part =
     (let trimmed = trim part in
      if trimmed = [] then None
      else case index_of CHR ''='' trimmed of
          None \<Rightarrow> None
        | Some eq \<Rightarrow>
            let name = trim (take eq trimmed); v = trim (drop (Suc eq) trimmed) in
            if name = [] then None else Some (name, v))"

text \<open>\<^verbatim>\<open>name in out\<close> also holds for what \<^verbatim>\<open>out\<close> inherits.\<close>

definition add_cookie :: "string \<Rightarrow> (string, string) jsmap \<Rightarrow> (string, string) jsmap" where
  "add_cookie part out =
     (case cookie_part part of
        None \<Rightarrow> out
      | Some (name, v) \<Rightarrow>
          if name \<in> set OBJECT_PROTOTYPE_NAMES \<or> js_get out name \<noteq> None then out else js_set name v out)"

definition parseCookieHeader :: "string option \<Rightarrow> (string, string) jsmap" where
  "parseCookieHeader header =
     (case header of
        None \<Rightarrow> []
      | Some h \<Rightarrow> if h = [] then [] else fold add_cookie (split_text '';'' h) [])"

text \<open>\<^verbatim>\<open>signedCookie\<close>; an inherited member that is no text is no cookie either.\<close>

definition signedCookie :: "mac \<Rightarrow> bytes \<Rightarrow> (string, string) jsmap \<Rightarrow> string \<Rightarrow> plugin_error + js_text option" where
  "signedCookie hmac key cookies name =
     (case js_get cookies name of
        None \<Rightarrow> Inr None
      | Some raw \<Rightarrow> verifyCookieValue hmac key raw)"

section \<open>The wire form\<close>

lemma from_to_url: "is_b64 c \<Longrightarrow> from_url (to_url c) = c"
proof -
  have "\<not> is_alnum CHR ''-''" "\<not> is_alnum CHR ''_''" by code_simp+
  then show "is_b64 c \<Longrightarrow> ?thesis" by (auto simp: is_b64_def to_url_def from_url_def)
qed

lemma to_url_chars: "is_b64 c \<Longrightarrow> c \<noteq> CHR ''='' \<Longrightarrow> is_url_char (to_url c)"
  by (auto simp: is_b64_def to_url_def is_url_char_def)

lemma b64urlEncode_chars: "list_all is_url_char (b64urlEncode bs)"
  unfolding b64urlEncode_def list_all_iff by (auto dest!: set_takeWhileD intro!: to_url_chars b64_encode_chars)

lemma b64url_roundtrip: "b64urlDecode (b64urlEncode bs) = Some bs"
proof -
  have "List.map from_url (b64urlEncode bs) = takeWhile (\<lambda>c. c \<noteq> CHR ''='') (b64_encode bs)"
    unfolding b64urlEncode_def by (auto simp: from_to_url b64_encode_chars dest!: set_takeWhileD intro!: map_idI)
  moreover have "b64_decode (takeWhile (\<lambda>c. c \<noteq> CHR ''='') s) = b64_decode s" for s by (simp add: b64_decode_def)
  ultimately show ?thesis by (simp add: b64urlDecode_def b64urlEncode_chars b64_roundtrip)
qed

lemma b64_digits_length:
  "\<forall>n \<in> set ns. n < 256 \<Longrightarrow> length (takeWhile (\<lambda>c. c \<noteq> CHR ''='') (b64_digits ns)) = (4 * length ns + 2) div 3"
  by (induction ns rule: b64_digits.induct) simp_all

lemma b64urlEncode_length: "length (b64urlEncode bs) = (4 * length bs + 2) div 3"
  using b64_digits_length[of "List.map of_char bs"] by (simp add: b64urlEncode_def b64_encode_def)

lemma no_dot: "list_all is_url_char s \<Longrightarrow> CHR ''.'' \<notin> set s"
proof -
  have "\<not> is_url_char CHR ''.''" by code_simp
  then show "list_all is_url_char s \<Longrightarrow> ?thesis" by (auto simp: list_all_iff)
qed

lemma last_dot: "CHR ''.'' \<notin> set s \<Longrightarrow> last_index_of CHR ''.'' (p @ ''.'' @ s) = Some (length p)"
  using index_of_append[of "CHR ''.''" "rev s" "rev p"] by (simp add: last_index_of_def)

text \<open>What verification accepts, spelled out on the two parts.\<close>

lemma verify_parts:
  assumes "length key = KEY_LEN" "length sigPart = HMAC_B64URL_LEN" "CHR ''.'' \<notin> set sigPart"
  shows "verifyCookieValue hmac key (payloadPart @ ''.'' @ sigPart) =
    Inr (case (b64urlDecode payloadPart, b64urlDecode sigPart) of
        (Some payload, Some sig) \<Rightarrow> if length sig = 32 \<and> hmac key payload = sig then Some (utf8_decode payload) else None
      | _ \<Rightarrow> None)"
proof -
  have "sigPart \<noteq> []" using assms(2) by (auto simp: HMAC_B64URL_LEN_def)
  then show ?thesis using assms last_dot[OF assms(3), of payloadPart]
    by (auto simp: verifyCookieValue_def HMAC_B64URL_LEN_def Let_def split: option.split)
qed

lemma signed_wire:
  assumes "signCookieValue hmac key v = Inr wire"
  shows "length key = KEY_LEN" "wire = b64urlEncode (utf8_encode v) @ ''.'' @ b64urlEncode (hmac key (utf8_encode v))"
  using assms by (auto simp: signCookieValue_def Let_def split: if_splits)

lemma verify_signed:
  assumes mac: "\<And>k p. length (hmac k p) = 32" and sign: "signCookieValue hmac key v = Inr wire"
  shows "verifyCookieValue hmac key wire = Inr (Some (utf8_decode (utf8_encode v)))"
  unfolding signed_wire(2)[OF sign]
  by (subst verify_parts[OF signed_wire(1)[OF sign]])
    (simp_all add: b64urlEncode_length mac HMAC_B64URL_LEN_def no_dot b64urlEncode_chars b64url_roundtrip)

subsection \<open>The spare bits of the last character\<close>

lemma b64_char_pad: "n < 64 \<Longrightarrow> CHR ''='' \<noteq> b64_char n"
  using b64_char_simps(2)[of n] by metis

lemma spare_bits:
  "\<forall>n \<in> set ns. n < 256 \<Longrightarrow> length ns mod 3 = 2 \<Longrightarrow>
    \<exists>pre n. n < 16 \<and> takeWhile (\<lambda>c. c \<noteq> CHR ''='') (b64_digits ns) = pre @ [b64_char (4 * n)] \<and>
      CHR ''='' \<notin> set pre \<and> list_all is_b64 pre \<and> b64_bytes (List.map b64_value (pre @ [b64_char (4 * n + 1)])) = ns"
proof (induction ns rule: b64_digits.induct)
  case (1 a b c r)
  then obtain pre n where ih: "n < 16" "takeWhile (\<lambda>c. c \<noteq> CHR ''='') (b64_digits r) = pre @ [b64_char (4 * n)]"
    "CHR ''='' \<notin> set pre" "list_all is_b64 pre" "b64_bytes (List.map b64_value (pre @ [b64_char (4 * n + 1)])) = r"
    by auto
  let ?q = "[b64_char (a div 4), b64_char (a mod 4 * 16 + b div 16), b64_char (b mod 16 * 4 + c div 64), b64_char (c mod 64)]"
  have "takeWhile (\<lambda>c. c \<noteq> CHR ''='') (b64_digits (a # b # c # r)) = (?q @ pre) @ [b64_char (4 * n)]"
    using 1(2) ih(2) by simp
  moreover have "b64_bytes (List.map b64_value ((?q @ pre) @ [b64_char (4 * n + 1)])) = a # b # c # r"
    using 1(2) ih(5) by (simp add: div_mult_mod_eq)
  moreover have "CHR ''='' \<notin> set (?q @ pre)" "list_all is_b64 (?q @ pre)" using 1(2) ih(3,4) by (simp_all add: b64_char_pad)
  ultimately show ?case using ih(1) by blast
next
  case (2 a b)
  let ?pre = "[b64_char (a div 4), b64_char (a mod 4 * 16 + b div 16)]"
  have "b mod 16 < 16" by simp
  moreover have "takeWhile (\<lambda>c. c \<noteq> CHR ''='') (b64_digits [a, b]) = ?pre @ [b64_char (4 * (b mod 16))]"
    using 2(1) by (simp add: mult.commute[of 4 "b mod 16"])
  moreover have "b64_bytes (List.map b64_value (?pre @ [b64_char (4 * (b mod 16) + 1)])) = [a, b]"
  proof -
    have "4 * (b mod 16) + 1 < 64" "(4 * (b mod 16) + 1) div 4 = b mod 16" by simp_all
    then show ?thesis using 2(1) by (simp add: div_mult_mod_eq del: One_nat_def)
  qed
  ultimately show ?case using 2(1) by (intro exI[of _ ?pre] exI[of _ "b mod 16"]) (simp add: b64_char_pad)
qed simp_all


text \<open>A verified cookie is not bound to one text: the last character of the signature carries two bits
  that decoding drops, so a wire form with that character changed is accepted like the one that was
  signed, although verification is described as refusing any tampering.\<close>

theorem changed_last_character_still_verifies:
  assumes mac: "\<And>k p. length (hmac k p) = 32" and sign: "signCookieValue hmac key v = Inr wire"
  shows "\<exists>wire'. wire' \<noteq> wire \<and> butlast wire' = butlast wire \<and>
    verifyCookieValue hmac key wire' = Inr (Some (utf8_decode (utf8_encode v)))"
proof -
  let ?payload = "utf8_encode v"
  let ?sig = "hmac key ?payload"
  obtain pre n where p: "n < 16" "takeWhile (\<lambda>c. c \<noteq> CHR ''='') (b64_encode ?sig) = pre @ [b64_char (4 * n)]"
    "CHR ''='' \<notin> set pre" "list_all is_b64 pre" "b64_bytes (List.map b64_value (pre @ [b64_char (4 * n + 1)])) = List.map of_char ?sig"
    using spare_bits[of "List.map of_char ?sig"] mac[of key ?payload] unfolding b64_encode_def by auto
  let ?u = "List.map to_url pre"
  let ?s = "?u @ [to_url (b64_char (4 * n))]" and ?t = "?u @ [to_url (b64_char (4 * n + 1))]"
  have small: "4 * n < 64" "4 * n + 1 < 64" using p(1) by auto
  have enc: "b64urlEncode ?sig = ?s" by (simp add: b64urlEncode_def p(2))
  have each: "is_url_char (to_url x)" if "x \<in> set pre" for x
    using to_url_chars[of x] p(3,4) that by (metis list_all_iff)
  then have url: "list_all is_url_char ?t"
    using to_url_chars[OF b64_char_simps(3)[OF small(2)] b64_char_simps(2)[OF small(2)]] by (simp add: list_all_iff)
  have undone: "List.map from_url ?t = pre @ [b64_char (4 * n + 1)]"
    using p(4) b64_char_simps(3)[OF small(2)] by (auto simp: from_to_url list_all_iff intro!: map_idI)
  have "CHR ''='' \<notin> set (pre @ [b64_char (4 * n + 1)])" using p(3) b64_char_pad[OF small(2)] by simp
  then have "takeWhile (\<lambda>c. c \<noteq> CHR ''='') (pre @ [b64_char (4 * n + 1)]) = pre @ [b64_char (4 * n + 1)]"
    by (intro takeWhile_eq_all_conv[THEN iffD2]) metis
  then have "b64urlDecode ?t = Some (List.map char_of (List.map (of_char :: char \<Rightarrow> nat) ?sig))"
    using url undone p(5) by (simp add: b64urlDecode_def b64_decode_def)
  then have dec: "b64urlDecode ?t = Some ?sig" by (simp add: comp_def)
  have len: "length ?t = HMAC_B64URL_LEN"
    using b64urlEncode_length[of ?sig] mac[of key ?payload] unfolding enc by (simp add: HMAC_B64URL_LEN_def)
  have "b64_char (4 * n + 1) \<noteq> b64_char (4 * n)"
    using b64_char_simps(1)[OF small(1)] b64_char_simps(1)[OF small(2)] by (metis Suc_eq_plus1 n_not_Suc_n)
  then have "to_url (b64_char (4 * n + 1)) \<noteq> to_url (b64_char (4 * n))"
    using from_to_url b64_char_simps(3)[OF small(1)] b64_char_simps(3)[OF small(2)] by metis
  then have "b64urlEncode ?payload @ ''.'' @ ?t \<noteq> wire" "butlast (b64urlEncode ?payload @ ''.'' @ ?t) = butlast wire"
    unfolding signed_wire(2)[OF sign] enc by (simp_all add: butlast_append)
  moreover have "verifyCookieValue hmac key (b64urlEncode ?payload @ ''.'' @ ?t) = Inr (Some (utf8_decode ?payload))"
    using verify_parts[OF signed_wire(1)[OF sign] len no_dot[OF url]] dec mac by (simp add: b64url_roundtrip)
  ultimately show ?thesis by blast
qed

lemma changed_last_character_still_verifies_witness:
  "\<exists>wire wire'. signCookieValue (\<lambda>k p. replicate 32 CHR ''a'') (replicate 32 CHR ''k'') (ascii ''v'') = Inr wire \<and> wire' \<noteq> wire \<and>
    butlast wire' = butlast wire \<and>
    verifyCookieValue (\<lambda>k p. replicate 32 CHR ''a'') (replicate 32 CHR ''k'') wire' = Inr (Some (ascii ''v''))"
proof -
  let ?mac = "\<lambda>k p. replicate 32 CHR ''a''" and ?key = "replicate 32 CHR ''k''"
  have mac: "length (?mac k p) = 32" for k p by simp
  have v: "utf8_decode (utf8_encode (ascii ''v'')) = ascii ''v''" by code_simp
  have sign: "signCookieValue ?mac ?key (ascii ''v'') = Inr ''dg.YWFhYWFhYWFhYWFhYWFhYWFhYWFhYWFhYWFhYWFhYWE''" by code_simp
  from changed_last_character_still_verifies[of ?mac ?key, OF mac sign] show ?thesis unfolding v using sign by blast
qed

section \<open>Headers are read back\<close>

lemma find_sub_first: "c \<notin> set x \<Longrightarrow> find_sub (c # p) (x @ (c # p) @ rest) = Some (length x)"
proof (induction x)
  case Nil
  then show ?case using find_sub_prefix[of "c # p" rest] by simp
qed auto

lemma split_join: "list_all (\<lambda>x. c \<notin> set x) xs \<Longrightarrow> xs \<noteq> [] \<Longrightarrow> split_text (c # p) (join_with (c # p) xs) = xs"
proof (induction xs)
  case (Cons x xs)
  show ?case
  proof (cases "xs = []")
    case True
    have "\<not> has_sub (c # p) x" using Cons.prems by (auto simp: has_sub_iff)
    then show ?thesis using True by (simp add: split_text_none)
  next
    case False
    have "find_sub (c # p) (x @ (c # p) @ join_with (c # p) xs) = Some (length x)"
      using Cons.prems by (intro find_sub_first) simp
    then show ?thesis using Cons False
      by (simp add: join_with_Cons split_text_some)
  qed
qed simp

lemma decimal_chars: "c \<in> set (decimal n) \<Longrightarrow> is_digit c"
proof (induction n rule: decimal.induct)
  case (1 n)
  have dig: "is_digit (char_of (48 + m))" if "m < 10" for m :: nat
  proof -
    have "\<forall>m \<in> set [0..<10]. is_digit (char_of (48 + m :: nat))" by code_simp
    then show ?thesis using that by simp
  qed
  show ?case using 1 dig[of n] dig[of "n mod 10"] by (subst (asm) (2) decimal.simps) (auto split: if_splits)
qed

lemma no_semicolon:
  "\<not> is_alnum CHR '';''" "\<not> is_digit CHR '';''" "\<not> cookie_name_char CHR '';''" "\<not> cookie_path_char CHR '';''"
  "\<not> cookie_domain_char CHR '';''" "\<not> is_url_char CHR '';''"
  by code_simp+

lemma scope_clean: "cookie_scope name opts = Inr scope \<Longrightarrow> list_all (\<lambda>x. CHR '';'' \<notin> set x) scope \<and> list_all cookie_name_char name \<and> name \<noteq> []"
proof -
  assume s: "cookie_scope name opts = Inr scope"
  have "CHR '';'' \<notin> set x" if "validateCookiePath x" for x
    using that no_semicolon(4) by (cases x) (auto simp: validateCookiePath_def list_all_iff)
  moreover have "CHR '';'' \<notin> set x" if "validateCookieDomain x" for x
    using that no_semicolon(5) by (auto simp: validateCookieDomain_def list_all_iff)
  ultimately show ?thesis using s
    by (auto simp: cookie_scope_def Let_def validateCookieName_def split: if_splits option.splits)
qed

lemma secure_parts_clean: "list_all (\<lambda>x. CHR '';'' \<notin> set x) (secure_parts opts b)"
  by (cases "nullish_or (co_sameSite opts) SsLax") (simp_all add: secure_parts_def Let_def)

lemma parts_clean:
  assumes "set_cookie_parts name w opts b = Inr parts" "CHR '';'' \<notin> set w" "\<And>d. co_expires opts = Some d \<Longrightarrow> CHR '';'' \<notin> set d"
  shows "list_all (\<lambda>x. CHR '';'' \<notin> set x) parts \<and> parts \<noteq> [] \<and> hd parts = name @ ''='' @ w"
proof -
  obtain scope where scope: "cookie_scope name opts = Inr scope"
    using assms(1) by (auto simp: set_cookie_parts_def split: sum.splits)
  have name: "CHR '';'' \<notin> set name" using scope_clean[OF scope] no_semicolon(3) by (auto simp: list_all_iff)
  have int: "CHR '';'' \<notin> set (int_text i)" for i
    using decimal_chars no_semicolon(2) by (auto simp: int_text_def)
  show ?thesis
    using assms scope scope_clean[OF scope] secure_parts_clean name int
    by (auto simp: set_cookie_parts_def Let_def split: option.splits jsnum.splits if_splits)
qed


lemma set_cookie_header_parts:
  assumes "buildSetCookieHeader name w opts b = Inr h" "CHR '';'' \<notin> set w" "\<And>d. co_expires opts = Some d \<Longrightarrow> CHR '';'' \<notin> set d"
  shows "set_cookie_parts name w opts b = Inr (split_text ''; '' h) \<and> hd (split_text ''; '' h) = name @ ''='' @ w"
proof -
  obtain parts where parts: "set_cookie_parts name w opts b = Inr parts" "h = join_with ''; '' parts"
    using assms(1) by (cases "set_cookie_parts name w opts b") (auto simp: buildSetCookieHeader_def)
  then show ?thesis using parts_clean[OF parts(1) assms(2,3)] split_join[of "CHR '';''" parts "'' ''"] by simp
qed

text \<open>No attribute can be smuggled in: splitting the header at its separators gives back exactly the
  attributes it was built from, first the cookie itself, whatever name, path and domain were asked for.\<close>

theorem set_cookie_header_is_its_attributes:
  assumes "buildSetCookieHeader name w opts b = Inr h" "CHR '';'' \<notin> set w" "\<And>d. co_expires opts = Some d \<Longrightarrow> CHR '';'' \<notin> set d"
  shows "set_cookie_parts name w opts b = Inr (split_text ''; '' h) \<and> hd (split_text ''; '' h) = name @ ''='' @ w"
  by (rule set_cookie_header_parts[OF assms])

lemma set_cookie_header_is_its_attributes_witness:
  "hd (split_text ''; '' ''sid=v; Path=/a; HttpOnly; SameSite=Lax; Secure'') = ''sid=v''"
proof -
  let ?opts = "\<lparr>co_maxAge = None, co_expires = None, co_path = Some ''/a'', co_domain = None, co_secure = None, co_sameSite = None\<rparr>"
  have "buildSetCookieHeader ''sid'' ''v'' ?opts True = Inr ''sid=v; Path=/a; HttpOnly; SameSite=Lax; Secure''" by code_simp
  from set_cookie_header_is_its_attributes[OF this] show ?thesis by simp
qed

subsection \<open>From the response to the next request\<close>

lemma space_codes: "is_space c \<Longrightarrow> c \<in> set [char_of (9::nat), char_of (10::nat), char_of (11::nat), char_of (12::nat),
    char_of (13::nat), char_of (32::nat), char_of (160::nat)]"
proof -
  assume "is_space c"
  then have "(of_char c :: nat) \<in> {9, 10, 11, 12, 13, 32, 160}" by (simp add: is_space_def)
  then have "char_of (of_char c :: nat) \<in> char_of ` {9, 10, 11, 12, 13, 32, 160 :: nat}" by (rule imageI)
  then show ?thesis by (simp only: char_of_char image_insert image_empty list.set)
qed

lemma no_space: "cookie_name_char c \<Longrightarrow> \<not> is_space c" "is_url_char c \<Longrightarrow> \<not> is_space c"
proof -
  have "list_all (\<lambda>c. \<not> cookie_name_char c \<and> \<not> is_url_char c) [char_of (9::nat), char_of (10::nat), char_of (11::nat),
      char_of (12::nat), char_of (13::nat), char_of (32::nat), char_of (160::nat)]" by code_simp
  then show "cookie_name_char c \<Longrightarrow> \<not> is_space c" "is_url_char c \<Longrightarrow> \<not> is_space c"
    using space_codes[of c] by (auto simp: list_all_iff)
qed

lemma trim_id: "s \<noteq> [] \<Longrightarrow> \<not> is_space (hd s) \<Longrightarrow> \<not> is_space (last s) \<Longrightarrow> trim s = s"
proof -
  assume s: "s \<noteq> []" "\<not> is_space (hd s)" "\<not> is_space (last s)"
  have start: "dropWhile is_space s = s" using s(1,2) by (cases s) auto
  have "dropWhile is_space (rev s) = rev s"
    using s(1,3) by (cases "rev s") (auto simp: last_rev[symmetric] hd_rev)
  then show ?thesis by (simp add: trim_def start)
qed

lemma cookie_part_space: "cookie_part (CHR '' '' # x) = cookie_part x"
proof -
  have "is_space CHR '' ''" by code_simp
  then have "trim (CHR '' '' # x) = trim x" by (simp add: trim_def)
  then show ?thesis by (simp add: cookie_part_def)
qed

lemma cookie_part_pair:
  assumes "list_all cookie_name_char name" "name \<noteq> []" "v \<noteq> []" "\<not> is_space (hd v)" "\<not> is_space (last v)"
  shows "cookie_part (name @ ''='' @ v) = Some (name, v)"
proof -
  have name: "\<not> is_space (hd name)" "\<not> is_space (last name)"
    using assms(1,2) no_space(1) by (auto simp: list_all_iff)
  have "\<not> cookie_name_char CHR ''=''" by code_simp
  then have eq: "CHR ''='' \<notin> set name" using assms(1) by (auto simp: list_all_iff)
  have whole: "trim (name @ ''='' @ v) = name @ ''='' @ v"
    using assms(2-5) name by (intro trim_id) simp_all
  have "index_of CHR ''='' (name @ ''='' @ v) = Some (length name)" using index_of_append[OF eq, of v] by simp
  then show ?thesis using whole trim_id[OF assms(2) name] trim_id[OF assms(3-5)] assms(2)
    by (simp add: cookie_part_def)
qed

lemma join_blank: "join_with (c # '' '') (x # xs) = join_with [c] (x # List.map ((#) CHR '' '') xs)"
proof (induction xs arbitrary: x)
  case (Cons y ys)
  show ?case using Cons.IH[of y] by (cases ys) simp_all
qed simp

lemma fold_spaced: "fold add_cookie (List.map ((#) CHR '' '') xs) out = fold add_cookie xs out"
  by (induction xs arbitrary: out) (simp_all add: add_cookie_def cookie_part_space)

lemma parse_joined:
  assumes "list_all (\<lambda>x. CHR '';'' \<notin> set x) xs" "xs \<noteq> []" "join_with ''; '' xs \<noteq> []"
  shows "parseCookieHeader (Some (join_with ''; '' xs)) = fold add_cookie xs []"
proof -
  obtain x ys where xs: "xs = x # ys" using assms(2) by (cases xs) auto
  have "split_text '';'' (join_with ''; '' xs) = x # List.map ((#) CHR '' '') ys"
    using split_join[of "CHR '';''" "x # List.map ((#) CHR '' '') ys" "[]"] assms(1)
    unfolding xs join_blank by (simp add: list.pred_map comp_def)
  then show ?thesis using assms(3) by (simp add: parseCookieHeader_def xs fold_spaced)
qed

lemma fold_absent:
  "list_all (\<lambda>p. map_option fst (cookie_part p) \<noteq> Some name) ps \<Longrightarrow> js_get out name = None \<Longrightarrow> js_get (fold add_cookie ps out) name = None"
  by (induction ps arbitrary: out) (auto simp: add_cookie_def split: option.split)

lemma fold_present: "js_get out name = Some v \<Longrightarrow> js_get (fold add_cookie ps out) name = Some v"
  by (induction ps arbitrary: out) (auto simp: add_cookie_def split: option.split)

text \<open>C28. A signed cookie comes back: when a browser returns the pair of the \<^verbatim>\<open>Set-Cookie\<close> header among
  other cookies, none of which has the name before it, the handler reads the value that was set, for
  every value without lone surrogates, provided the name is not one that every object inherits (a
  cookie of such a name can be set and is never read).\<close>

theorem signed_cookie_roundtrip:
  assumes mac: "\<And>k p. length (hmac k p) = 32"
    and set: "setSignedCookie hmac key name v opts b = Inr h" "list_all is_scalar_value v"
    and expires: "\<And>d. co_expires opts = Some d \<Longrightarrow> CHR '';'' \<notin> set d"
    and name: "name \<notin> set OBJECT_PROTOTYPE_NAMES"
    and others: "list_all (\<lambda>p. CHR '';'' \<notin> set p) (before @ after)"
      "list_all (\<lambda>p. map_option fst (cookie_part p) \<noteq> Some name) before"
  shows "signedCookie hmac key
      (parseCookieHeader (Some (join_with ''; '' (before @ [hd (split_text ''; '' h)] @ after)))) name = Inr (Some v)"
proof -
  obtain w where sign: "signCookieValue hmac key v = Inr w" and build: "buildSetCookieHeader name w opts b = Inr h"
    using set(1) by (auto simp: setSignedCookie_def split: sum.splits)
  let ?sig = "b64urlEncode (hmac key (utf8_encode v))" and ?payload = "b64urlEncode (utf8_encode v)"
  have w: "w = ?payload @ ''.'' @ ?sig" using signed_wire(2)[OF sign] .
  have "length ?sig = 43" by (simp add: b64urlEncode_length mac)
  then have sig: "?sig \<noteq> []" by auto
  have "\<not> is_space CHR ''.''" by code_simp
  moreover have url: "list_all (\<lambda>c. is_url_char c \<or> c = CHR ''.'') w"
    using b64urlEncode_chars[of "utf8_encode v"] b64urlEncode_chars[of "hmac key (utf8_encode v)"]
    by (auto simp: w list_all_iff)
  moreover have ne: "w \<noteq> []" by (simp add: w)
  moreover have "hd w \<in> set w" "last w \<in> set w" using ne by (rule hd_in_set, rule last_in_set)
  ultimately have sp: "\<not> is_space (hd w)" "\<not> is_space (last w)"
    using no_space(2) unfolding list_all_iff by metis+
  have semi: "CHR '';'' \<notin> set w" using url no_semicolon(6) by (auto simp: list_all_iff)
  have head: "hd (split_text ''; '' h) = name @ ''='' @ w" and parts: "set_cookie_parts name w opts b = Inr (split_text ''; '' h)"
    using set_cookie_header_parts[OF build semi expires] by blast+
  obtain scope where "cookie_scope name opts = Inr scope" using parts by (auto simp: set_cookie_parts_def split: sum.splits)
  then have nm: "list_all cookie_name_char name" "name \<noteq> []" using scope_clean by blast+
  have pair: "cookie_part (name @ ''='' @ w) = Some (name, w)" using cookie_part_pair[OF nm ne sp] .
  let ?xs = "before @ [name @ ''='' @ w] @ after"
  have clean: "list_all (\<lambda>x. CHR '';'' \<notin> set x) ?xs"
    using others(1) semi nm(1) no_semicolon(3) by (auto simp: list_all_iff)
  have "join_with ''; '' ?xs \<noteq> []"
    by (cases before) (auto simp: join_with_Cons nm(2) intro: list.exhaust[of after])
  from parse_joined[OF clean _ this]
  have "js_get (parseCookieHeader (Some (join_with ''; '' ?xs))) name = Some w"
    using fold_absent[OF others(2), of "[]"] pair name
    by (simp add: add_cookie_def fold_present)
  then show ?thesis using verify_signed[OF mac sign] utf8_roundtrip[OF set(2)] by (simp add: head signedCookie_def)
qed

lemma signed_cookie_roundtrip_witness:
  "\<exists>h. setSignedCookie (\<lambda>k p. replicate 32 CHR ''a'') (replicate 32 CHR ''k'') ''sid'' (ascii ''v'')
      \<lparr>co_maxAge = Some (Fin 60), co_expires = None, co_path = None, co_domain = None, co_secure = None, co_sameSite = None\<rparr> True = Inr h \<and>
    signedCookie (\<lambda>k p. replicate 32 CHR ''a'') (replicate 32 CHR ''k'')
      (parseCookieHeader (Some (join_with ''; '' ([''a=b''] @ [hd (split_text ''; '' h)] @ [''c=d''])))) ''sid'' = Inr (Some (ascii ''v''))"
proof -
  let ?mac = "\<lambda>k p. replicate 32 CHR ''a''" and ?key = "replicate 32 CHR ''k''"
  let ?opts = "\<lparr>co_maxAge = Some (Fin 60), co_expires = None, co_path = None, co_domain = None, co_secure = None, co_sameSite = None\<rparr>"
  let ?h = "''sid=dg.YWFhYWFhYWFhYWFhYWFhYWFhYWFhYWFhYWFhYWFhYWE; Path=/; Max-Age=60; HttpOnly; SameSite=Lax; Secure''"
  have mac: "length (?mac k p) = 32" for k p by simp
  have set: "setSignedCookie ?mac ?key ''sid'' (ascii ''v'') ?opts True = Inr ?h" by code_simp
  have v: "list_all is_scalar_value (ascii ''v'')" by (simp add: ascii_def is_scalar_value_def is_surrogate_def)
  have date: "CHR '';'' \<notin> set d" if "co_expires ?opts = Some d" for d using that by simp
  have name: "''sid'' \<notin> set OBJECT_PROTOTYPE_NAMES" by code_simp
  have others: "list_all (\<lambda>p. CHR '';'' \<notin> set p) ([''a=b''] @ [''c=d''])"
    "list_all (\<lambda>p. map_option fst (cookie_part p) \<noteq> Some ''sid'') [''a=b'']" by code_simp+
  from signed_cookie_roundtrip[of ?mac, OF mac set v date name others] show ?thesis using set by blast
qed

end
