(* ===== verification/Http_Response.thy ===== *)
theory Http_Response
  imports Http_Guard Http_Cookies
begin

text \<open>
  Answering a request, after \<^verbatim>\<open>ResponseWriter\<close> and the second half of \<^verbatim>\<open>handle\<close> in
  \<^verbatim>\<open>packages/http-server/src/plugin.ts\<close>. The handler is not code of the server: a run of it is the
  list of calls it makes on its response and how it ends, and every such list is a possible run. The
  socket is what has been written to it (\<open>wire\<close>); \<open>nodeAccepts\<close> tells which heads Node's
  \<^verbatim>\<open>writeHead\<close> takes. What the client and the source of a sized body do during
  \<^verbatim>\<open>bodyStream\<close> comes as a script with the instants, in milliseconds, of the awaited events.
  A handler is taken to await each \<^verbatim>\<open>bodyStream\<close> it starts and to pass arguments of the declared
  types. The \<^verbatim>\<open>JSON.stringify\<close> of a handler's value is not modelled, its result is given; that of the
  server's own \<^verbatim>\<open>{ error }\<close> is written out.
\<close>

section \<open>The socket\<close>

record wire =
  wi_head :: "(nat \<times> headers \<times> string list) option"
  wi_body :: bytes
  wi_ended :: bool
  wi_destroyed :: bool

definition new_wire :: wire where
  "new_wire = \<lparr>wi_head = None, wi_body = [], wi_ended = False, wi_destroyed = False\<rparr>"

text \<open>\<^verbatim>\<open>res.write(b)\<close> and \<^verbatim>\<open>res.end(b)\<close>: the head goes out first, Node's own when none was written; after
  the end or a destroy nothing more is sent.\<close>

definition implicit_head :: "wire \<Rightarrow> wire" where
  "implicit_head wi = (if wi_head wi = None then wi\<lparr>wi_head := Some (200, [], [])\<rparr> else wi)"

definition wire_write :: "bytes \<Rightarrow> wire \<Rightarrow> wire" where
  "wire_write b wi =
     (if wi_ended wi \<or> wi_destroyed wi then wi
      else let wi = implicit_head wi in wi\<lparr>wi_body := wi_body wi @ b\<rparr>)"

definition wire_end :: "bytes \<Rightarrow> wire \<Rightarrow> wire" where
  "wire_end b wi = (if wi_ended wi then wi else (wire_write b wi)\<lparr>wi_ended := True\<rparr>)"

section \<open>The writer\<close>

text \<open>\<open>wr_stream\<close>: the \<^verbatim>\<open>closed\<close> flag of an opened stream; \<open>wr_callbacks\<close>: its close callbacks that
  wait, \<open>wr_fired\<close>: those that ran.\<close>

record writer =
  wr_finished :: bool
  wr_streaming :: bool
  wr_incomplete :: bool
  wr_statusCode :: nat
  wr_headers :: headers
  wr_setCookies :: "string list"
  wr_stream :: "bool option"
  wr_callbacks :: "nat list"
  wr_fired :: "nat list"
  wr_wire :: wire

definition new_writer :: writer where
  "new_writer = \<lparr>wr_finished = False, wr_streaming = False, wr_incomplete = False, wr_statusCode = 200, wr_headers = [],
     wr_setCookies = [], wr_stream = None, wr_callbacks = [], wr_fired = [], wr_wire = new_wire\<rparr>"

type_synonym head_check = "nat \<Rightarrow> headers \<Rightarrow> string list \<Rightarrow> bool"

definition header_default :: "string \<Rightarrow> string \<Rightarrow> writer \<Rightarrow> writer" where
  "header_default k v w = (if js_get (wr_headers w) k = None then w\<lparr>wr_headers := js_set k v (wr_headers w)\<rparr> else w)"

text \<open>\<open>None\<close>: \<^verbatim>\<open>writeHead\<close> throws.\<close>

definition writeHead :: "head_check \<Rightarrow> writer \<Rightarrow> writer option" where
  "writeHead nodeAccepts w =
     (if wi_head (wr_wire w) \<noteq> None \<or> \<not> nodeAccepts (wr_statusCode w) (wr_headers w) (wr_setCookies w) then None
      else Some (w\<lparr>wr_wire := (wr_wire w)\<lparr>wi_head := Some (wr_statusCode w, wr_headers w, wr_setCookies w)\<rparr>\<rparr>))"

datatype op_result = Returns | Throws | Waits

definition head_and_end :: "head_check \<Rightarrow> bytes \<Rightarrow> writer \<Rightarrow> op_result \<times> writer" where
  "head_and_end nodeAccepts b w =
     (case writeHead nodeAccepts w of
        None \<Rightarrow> (Throws, w)
      | Some w \<Rightarrow> (Returns, w\<lparr>wr_wire := wire_end b (wr_wire w)\<rparr>))"

definition flush :: "head_check \<Rightarrow> string \<Rightarrow> bytes \<Rightarrow> writer \<Rightarrow> op_result \<times> writer" where
  "flush nodeAccepts contentType body w = head_and_end nodeAccepts body (header_default ''content-type'' contentType w)"

definition flushBytes :: "head_check \<Rightarrow> string \<Rightarrow> bytes \<Rightarrow> writer \<Rightarrow> op_result \<times> writer" where
  "flushBytes nodeAccepts contentType body w =
     (let w = header_default ''content-type'' contentType w in
      head_and_end nodeAccepts body (w\<lparr>wr_headers := js_set ''content-length'' (decimal (length body)) (wr_headers w)\<rparr>))"

definition flushEmpty :: "head_check \<Rightarrow> writer \<Rightarrow> op_result \<times> writer" where
  "flushEmpty nodeAccepts w = head_and_end nodeAccepts [] w"

subsection \<open>Streams\<close>

definition fireOnClose :: "writer \<Rightarrow> writer" where
  "fireOnClose w = w\<lparr>wr_fired := wr_fired w @ wr_callbacks w, wr_callbacks := []\<rparr>"

definition onSocketClose :: "writer \<Rightarrow> writer" where
  "onSocketClose w = (if wr_stream w = Some False then fireOnClose (w\<lparr>wr_stream := Some True\<rparr>) else w)"

definition openStream :: "head_check \<Rightarrow> string option \<Rightarrow> writer \<Rightarrow> op_result \<times> writer" where
  "openStream nodeAccepts contentType w =
     (let w = w\<lparr>wr_finished := True, wr_streaming := True\<rparr>;
          w = header_default ''content-type'' (nullish contentType ''text/event-stream; charset=utf-8'') w;
          w = header_default ''x-accel-buffering'' ''no'' w;
          w = header_default ''cache-control'' ''no-cache, no-transform'' w
      in case writeHead nodeAccepts w of
           None \<Rightarrow> (Throws, w)
         | Some w \<Rightarrow> (Returns, w\<lparr>wr_stream := Some False\<rparr>))"

text \<open>\<open>fails\<close>: \<^verbatim>\<open>res.write\<close> throws.\<close>

definition stream_write :: "bytes \<Rightarrow> bool \<Rightarrow> writer \<Rightarrow> writer" where
  "stream_write chunk fails w =
     (if wr_stream w \<noteq> Some False then w
      else if fails then onSocketClose w
      else w\<lparr>wr_wire := wire_write chunk (wr_wire w)\<rparr>)"

definition stream_close :: "writer \<Rightarrow> writer" where
  "stream_close w =
     (if wr_stream w \<noteq> Some False then w
      else fireOnClose (w\<lparr>wr_stream := Some True, wr_wire := wire_end [] (wr_wire w)\<rparr>))"

text \<open>A callback registered after the close runs at once, as a microtask.\<close>

definition stream_onClose :: "nat \<Rightarrow> writer \<Rightarrow> writer" where
  "stream_onClose h w =
     (case wr_stream w of
        None \<Rightarrow> w
      | Some True \<Rightarrow> w\<lparr>wr_fired := wr_fired w @ [h]\<rparr>
      | Some False \<Rightarrow> w\<lparr>wr_callbacks := wr_callbacks w @ [h]\<rparr>)"

text \<open>The socket closes under the response: its one \<^verbatim>\<open>close\<close> event, which a stream opened later
  does not see.\<close>

definition socket_closes :: "writer \<Rightarrow> writer" where
  "socket_closes w =
     (if wi_destroyed (wr_wire w) then w
      else onSocketClose (w\<lparr>wr_wire := (wr_wire w)\<lparr>wi_destroyed := True\<rparr>\<rparr>))"

section \<open>Bodies of known length\<close>

datatype body_failure = ClientGone | ClientStalled | SourceFailed | LengthMismatch | OtherFailure

definition BODY_STREAM_IDLE_TIMEOUT_MS :: rat where
  "BODY_STREAM_IDLE_TIMEOUT_MS = 60000"

definition MAX_TIMER_DELAY_MS :: rat where
  "MAX_TIMER_DELAY_MS = 2147483647"

definition resolveBodyStreamIdleTimeout :: "jsnum option \<Rightarrow> rat option" where
  "resolveBodyStreamIdleTimeout opt =
     (case opt of
        None \<Rightarrow> Some BODY_STREAM_IDLE_TIMEOUT_MS
      | Some v \<Rightarrow>
          (case js_safe_integer v of
             None \<Rightarrow> None
           | Some i \<Rightarrow> if of_int i < (1 :: rat) \<or> of_int i > MAX_TIMER_DELAY_MS then None else Some (of_int i)))"

text \<open>Waiting for room after a full write, with the instants of the next \<^verbatim>\<open>drain\<close> and
  \<^verbatim>\<open>close\<close>. \<open>True\<close>: the client stalled.\<close>

record room_wait =
  rm_destroyed :: bool
  rm_drain :: "rat option"
  rm_close :: "rat option"

definition earlier :: "rat option \<Rightarrow> rat option \<Rightarrow> rat option" where
  "earlier a b = (case (a, b) of (None, _) \<Rightarrow> b | (_, None) \<Rightarrow> a | (Some x, Some y) \<Rightarrow> Some (min x y))"

definition drainOrStall :: "rat \<Rightarrow> room_wait \<Rightarrow> bool" where
  "drainOrStall idle r \<longleftrightarrow> \<not> rm_destroyed r \<and> beyond (earlier (rm_drain r) (rm_close r)) (Fin idle)"

text \<open>\<^verbatim>\<open>awaitClient\<close>: whether \<^verbatim>\<open>start\<close> ran to its end, and the failure; \<open>cw_done\<close> is the call of
  \<^verbatim>\<open>done\<close> and whether with an error.\<close>

record client_wait =
  cw_destroyed :: bool
  cw_throws :: bool
  cw_done :: "(rat \<times> bool) option"
  cw_close :: "rat option"

definition awaitClient :: "rat \<Rightarrow> client_wait \<Rightarrow> bool \<times> body_failure option" where
  "awaitClient idle c =
     (if cw_destroyed c then (False, Some ClientGone)
      else if cw_throws c then (False, Some OtherFailure)
      else (True,
        if beyond (earlier (map_option fst (cw_done c)) (cw_close c)) (Fin idle) then Some ClientStalled
        else case cw_done c of
            None \<Rightarrow> Some ClientGone
          | Some (t, err) \<Rightarrow>
              if (case cw_close c of None \<Rightarrow> False | Some x \<Rightarrow> x < t) then Some ClientGone
              else if err then Some ClientGone else None))"

text \<open>One turn of the pump: whether the client is gone before the pull and after it, what the source
  gives, and the wait when the socket is full. \<open>BadStep\<close>: the pull gives \<^verbatim>\<open>null\<close> or \<^verbatim>\<open>undefined\<close>, so
  that reading its \<^verbatim>\<open>done\<close> throws.\<close>

datatype source_step = Chunk bytes | NotBytes | BadStep | SourceThrows | SourceDone

record pull =
  pl_gone_before :: bool
  pl_step :: source_step
  pl_gone_after :: bool
  pl_full :: "room_wait option"

text \<open>\<open>se_no_iterator\<close>: asking the source for its iterator throws, as a locked
  \<^verbatim>\<open>ReadableStream\<close> does; \<open>se_release_waits\<close>: the iterator's \<^verbatim>\<open>return()\<close> never settles.\<close>

record sized_env =
  se_no_iterator :: bool
  se_pulls :: "pull list"
  se_gone_end :: bool
  se_last :: client_wait
  se_finish :: client_wait
  se_release_waits :: bool

datatype pump_result = PumpFails body_failure | PumpDone nat "bytes option" | PumpWaits

definition writeHeadOnce :: "head_check \<Rightarrow> writer \<Rightarrow> writer option" where
  "writeHeadOnce nodeAccepts w = (if wi_head (wr_wire w) \<noteq> None then Some w else writeHead nodeAccepts w)"

definition pump_write ::
    "head_check \<Rightarrow> rat \<Rightarrow> bytes \<Rightarrow> room_wait option \<Rightarrow> writer \<Rightarrow> body_failure option \<times> writer" where
  "pump_write nodeAccepts idle chunk full w =
     (case writeHeadOnce nodeAccepts w of
        None \<Rightarrow> (Some OtherFailure, w)
      | Some w \<Rightarrow>
          (if (case full of None \<Rightarrow> False | Some r \<Rightarrow> drainOrStall idle r) then Some ClientStalled else None,
           w\<lparr>wr_wire := wire_write chunk (wr_wire w)\<rparr>))"

fun pump ::
    "head_check \<Rightarrow> rat \<Rightarrow> nat \<Rightarrow> pull list \<Rightarrow> nat \<Rightarrow> bytes option \<Rightarrow> writer \<Rightarrow> pump_result \<times> writer" where
  "pump nodeAccepts idle contentLength [] accepted held w = (PumpWaits, w)"
| "pump nodeAccepts idle contentLength (p # ps) accepted held w =
     (if pl_gone_before p then (PumpFails ClientGone, w)
      else case pl_step p of
          SourceThrows \<Rightarrow> (PumpFails SourceFailed, w)
        | BadStep \<Rightarrow> (PumpFails OtherFailure, w)
        | SourceDone \<Rightarrow> (PumpDone accepted held, w)
        | NotBytes \<Rightarrow> (PumpFails (if pl_gone_after p then ClientGone else SourceFailed), w)
        | Chunk chunk \<Rightarrow>
            if pl_gone_after p then (PumpFails ClientGone, w)
            else if chunk = [] then pump nodeAccepts idle contentLength ps accepted held w
            else if accepted + length chunk > contentLength then (PumpFails LengthMismatch, w)
            else if accepted + length chunk = contentLength then
              pump nodeAccepts idle contentLength ps (accepted + length chunk) (Some chunk) w
            else (case pump_write nodeAccepts idle chunk (pl_full p) w of
                (Some f, w) \<Rightarrow> (PumpFails f, w)
              | (None, w) \<Rightarrow> pump nodeAccepts idle contentLength ps (accepted + length chunk) held w))"

definition cut_body :: "body_failure \<Rightarrow> writer \<Rightarrow> body_failure option \<times> writer" where
  "cut_body f w = (Some f, w\<lparr>wr_incomplete := True, wr_wire := (wr_wire w)\<lparr>wi_destroyed := True\<rparr>\<rparr>)"

definition endAndAwaitFinish ::
    "rat \<Rightarrow> bytes option \<Rightarrow> sized_env \<Rightarrow> writer \<Rightarrow> body_failure option \<times> writer" where
  "endAndAwaitFinish idle last_chunk env w =
     (let (f, w) = (case last_chunk of
            None \<Rightarrow> (None, w)
          | Some b \<Rightarrow>
              (let (started, f) = awaitClient idle (se_last env) in
               (f, if started then w\<lparr>wr_wire := wire_write b (wr_wire w)\<rparr> else w)))
      in case f of
           Some f \<Rightarrow> (Some f, w)
         | None \<Rightarrow>
             (let (started, f) = awaitClient idle (se_finish env) in
              (f, if started then w\<lparr>wr_wire := wire_end [] (wr_wire w)\<rparr> else w)))"

text \<open>The end of the \<^verbatim>\<open>try\<close> block, after the source is done.\<close>

definition finish_body ::
    "head_check \<Rightarrow> rat \<Rightarrow> nat \<Rightarrow> sized_env \<Rightarrow> nat \<Rightarrow> bytes option \<Rightarrow> writer \<Rightarrow> body_failure option \<times> writer" where
  "finish_body nodeAccepts idle contentLength env accepted held w =
     (if accepted \<noteq> contentLength then cut_body LengthMismatch w
      else if se_gone_end env then cut_body ClientGone w
      else case writeHeadOnce nodeAccepts w of
          None \<Rightarrow> cut_body OtherFailure w
        | Some w \<Rightarrow>
            (case endAndAwaitFinish idle held env w of
               (Some f, w) \<Rightarrow> cut_body f w
             | (None, w) \<Rightarrow> (None, w)))"

text \<open>How \<^verbatim>\<open>bodyStream\<close> ends: it resolves; it rejects after a cut; it cut the body and waits for ever on
  the source's \<^verbatim>\<open>return()\<close>; it waits for ever on the source; it rejects before the \<^verbatim>\<open>try\<close>, for want of an
  iterator.\<close>

datatype sized_result =
    BodySent
  | BodyCut body_failure
  | BodyReleasing body_failure
  | BodyWaits
  | BodyNoIterator

definition sized_end :: "sized_env \<Rightarrow> body_failure option \<Rightarrow> sized_result" where
  "sized_end env f =
     (case f of None \<Rightarrow> BodySent | Some f \<Rightarrow> if se_release_waits env then BodyReleasing f else BodyCut f)"

definition sized_headers :: "nat \<Rightarrow> writer \<Rightarrow> writer" where
  "sized_headers contentLength w =
     header_default ''content-type'' ''application/octet-stream''
       (w\<lparr>wr_headers := js_set ''content-length'' (decimal contentLength) (wr_headers w)\<rparr>)"

definition sendSizedBody :: "head_check \<Rightarrow> rat \<Rightarrow> nat \<Rightarrow> sized_env \<Rightarrow> writer \<Rightarrow> sized_result \<times> writer" where
  "sendSizedBody nodeAccepts idle contentLength env w =
     (let w = sized_headers contentLength w in
      if se_no_iterator env then (BodyNoIterator, w)
      else case pump nodeAccepts idle contentLength (se_pulls env) 0 None w of
           (PumpWaits, w) \<Rightarrow> (BodyWaits, w)
         | (PumpFails f, w) \<Rightarrow> map_prod (sized_end env) id (cut_body f w)
         | (PumpDone accepted held, w) \<Rightarrow>
             map_prod (sized_end env) id (finish_body nodeAccepts idle contentLength env accepted held w))"

section \<open>The calls of a handler\<close>

datatype writer_op =
    WStatus jsnum
  | WHeader string string
  | WText js_text
  | WJson "js_text option"
  | WBody "bytes option" "string option"
  | WEnd
  | WRedirect string "jsnum option"
  | WStream "string option"
  | WBodyStream jsval bool sized_env
  | WSetSignedCookie string js_text cookie_options
  | WClearCookie string cookie_options
  | WStreamWrite bytes bool
  | WStreamClose
  | WStreamOnClose nat
  | WSocketCloses

text \<open>\<open>WJson None\<close>: \<^verbatim>\<open>JSON.stringify\<close> throws; \<open>WBody None\<close>: not a buffer; the flag of \<open>WBodyStream\<close>: the
  source is an async iterable. \<open>isSecure\<close>, the key and the MAC are those of the request's writer.\<close>

record writer_env =
  we_accepts :: head_check
  we_idle :: rat
  we_hmac :: mac
  we_key :: bytes
  we_isSecure :: bool

definition add_cookie_header :: "plugin_error + string \<Rightarrow> writer \<Rightarrow> op_result \<times> writer" where
  "add_cookie_header h w =
     (case h of Inl _ \<Rightarrow> (Throws, w) | Inr line \<Rightarrow> (Returns, w\<lparr>wr_setCookies := wr_setCookies w @ [line]\<rparr>))"

definition finishing :: "writer \<Rightarrow> writer" where
  "finishing w = w\<lparr>wr_finished := True\<rparr>"

definition int_in :: "nat \<Rightarrow> nat \<Rightarrow> jsnum \<Rightarrow> nat option" where
  "int_in lo hi v = (case as_nonneg_int (JNum v) of None \<Rightarrow> None | Some n \<Rightarrow> if n < lo \<or> hi < n then None else Some n)"

definition body_length :: "jsval \<Rightarrow> nat option" where
  "body_length v = (case as_nonneg_int v of None \<Rightarrow> None | Some n \<Rightarrow> if int n > MAX_SAFE_INTEGER then None else Some n)"

text \<open>The calls of the response adapter, all refused once the response is finished.\<close>

fun adapter_op :: "writer_env \<Rightarrow> writer_op \<Rightarrow> writer \<Rightarrow> op_result \<times> writer" where
  "adapter_op en (WStatus n) w =
     (case int_in 100 599 n of None \<Rightarrow> (Throws, w) | Some c \<Rightarrow> (Returns, w\<lparr>wr_statusCode := c\<rparr>))"
| "adapter_op en (WHeader name v) w =
     (Returns, w\<lparr>wr_headers := js_set (List.map lower_char name) v (wr_headers w)\<rparr>)"
| "adapter_op en (WText s) w = flush (we_accepts en) ''text/plain; charset=utf-8'' (utf8_encode s) (finishing w)"
| "adapter_op en (WJson v) w =
     (case v of
        None \<Rightarrow> (Throws, w)
      | Some body \<Rightarrow> flush (we_accepts en) ''application/json; charset=utf-8'' (utf8_encode body) (finishing w))"
| "adapter_op en (WBody buf contentType) w =
     (case buf of
        None \<Rightarrow> (Throws, w)
      | Some b \<Rightarrow> flushBytes (we_accepts en) (nullish contentType ''application/octet-stream'') b (finishing w))"
| "adapter_op en WEnd w = flushEmpty (we_accepts en) (finishing w)"
| "adapter_op en (WRedirect url status) w =
     (case int_in 300 399 (nullish status (Fin 302)) of
        None \<Rightarrow> (Throws, w)
      | Some c \<Rightarrow>
          flushEmpty (we_accepts en)
            (finishing (w\<lparr>wr_statusCode := c, wr_headers := js_set ''location'' url (wr_headers w)\<rparr>)))"
| "adapter_op en (WStream contentType) w = openStream (we_accepts en) contentType w"
| "adapter_op en (WBodyStream contentLength iterable env) w =
     (case body_length contentLength of
        None \<Rightarrow> (Throws, w)
      | Some n \<Rightarrow>
          if \<not> iterable then (Throws, w)
          else (case sendSizedBody (we_accepts en) (we_idle en) n env (finishing w) of
              (BodySent, w) \<Rightarrow> (Returns, w)
            | (BodyCut f, w) \<Rightarrow> (Throws, w)
            | (BodyNoIterator, w) \<Rightarrow> (Throws, w)
            | (BodyReleasing f, w) \<Rightarrow> (Waits, w)
            | (BodyWaits, w) \<Rightarrow> (Waits, w)))"
| "adapter_op en (WSetSignedCookie name v opts) w =
     add_cookie_header (setSignedCookie (we_hmac en) (we_key en) name v opts (we_isSecure en)) w"
| "adapter_op en (WClearCookie name opts) w = add_cookie_header (buildClearCookieHeader name opts (we_isSecure en)) w"
| "adapter_op en op w = (Returns, w)"

fun writer_step :: "writer_env \<Rightarrow> writer_op \<Rightarrow> writer \<Rightarrow> op_result \<times> writer" where
  "writer_step en (WStreamWrite chunk fails) w = (Returns, stream_write chunk fails w)"
| "writer_step en WStreamClose w = (Returns, stream_close w)"
| "writer_step en (WStreamOnClose h) w = (Returns, stream_onClose h w)"
| "writer_step en WSocketCloses w = (Returns, socket_closes w)"
| "writer_step en op w = (if wr_finished w then (Throws, w) else adapter_op en op w)"

text \<open>A run of the handler; \<open>True\<close>: it waits for ever on one of its calls.\<close>

fun writer_run :: "writer_env \<Rightarrow> writer_op list \<Rightarrow> writer \<Rightarrow> bool \<times> writer" where
  "writer_run en [] w = (False, w)"
| "writer_run en (x # xs) w =
     (case writer_step en x w of
        (Waits, w) \<Rightarrow> (True, w)
      | (_, w) \<Rightarrow> writer_run en xs w)"

section \<open>After the handler\<close>

text \<open>\<^verbatim>\<open>JSON.stringify({ error })\<close> of a text: quotes, backslashes, control characters and lone
  surrogates are escaped.\<close>

definition hex4 :: "nat \<Rightarrow> js_text" where
  "hex4 n = List.map (\<lambda>k. ascii ''0123456789abcdef'' ! (n div 16 ^ k mod 16)) [3, 2, 1, 0]"

definition json_char :: "nat \<Rightarrow> js_text" where
  "json_char c =
     (if c = 34 \<or> c = 92 then [92, c]
      else if c = 8 then ascii [char_of (92 :: nat), CHR ''b'']
      else if c = 9 then ascii [char_of (92 :: nat), CHR ''t'']
      else if c = 10 then ascii [char_of (92 :: nat), CHR ''n'']
      else if c = 12 then ascii [char_of (92 :: nat), CHR ''f'']
      else if c = 13 then ascii [char_of (92 :: nat), CHR ''r'']
      else if c < 32 \<or> is_surrogate c then ascii [char_of (92 :: nat), CHR ''u''] @ hex4 c
      else [c])"

definition json_quote :: "js_text \<Rightarrow> js_text" where
  "json_quote t = [34] @ concat (List.map json_char t) @ [34]"

definition json_error :: "js_text \<Rightarrow> js_text" where
  "json_error reason = ascii ''{\"error\":'' @ json_quote reason @ ascii ''}''"

text \<open>How the handler ends; a rejection with its \<^verbatim>\<open>reason\<close>.\<close>

datatype handler_end = HandlerReturned | HandlerRejected js_text | HandlerFailed

text \<open>\<^verbatim>\<open>http:response-sent\<close>: status and \<^verbatim>\<open>incomplete\<close>; at once, or when the socket closes.\<close>

datatype response_report = ReportNow nat bool | ReportOnClose nat | HandleThrows

text \<open>\<open>res.writeHead(500, ...)\<close> and \<open>res.end(text)\<close>, when no head was sent.\<close>

definition internal_error :: "string \<Rightarrow> writer \<Rightarrow> writer" where
  "internal_error body w =
     (let wi = wr_wire w in
      w\<lparr>wr_wire :=
        (if wi_head wi = None
         then wire_end body (wi\<lparr>wi_head := Some (500, [(''content-type'', ''application/json; charset=utf-8'')], [])\<rparr>)
         else wire_end [] wi)\<rparr>)"

definition report_response :: "nat \<Rightarrow> writer \<Rightarrow> response_report \<times> writer" where
  "report_response finalStatus w =
     (if wr_streaming w then
        (if wi_ended (wr_wire w) \<or> wi_destroyed (wr_wire w) then (ReportNow finalStatus False, w)
         else (ReportOnClose finalStatus, w))
      else if \<not> wr_finished w then
        (ReportNow 500 (wr_incomplete w),
         (internal_error ''{\"error\":\"handler-did-not-respond\"}'' w)\<lparr>wr_finished := True\<rparr>)
      else (ReportNow finalStatus (wr_incomplete w), w))"

definition end_socket :: "writer \<Rightarrow> writer" where
  "end_socket w = w\<lparr>wr_wire := wire_end [] (wr_wire w)\<rparr>"

definition after_handler :: "writer_env \<Rightarrow> handler_end \<Rightarrow> writer \<Rightarrow> response_report \<times> writer" where
  "after_handler en e w =
     (case e of
        HandlerReturned \<Rightarrow> report_response (wr_statusCode w) w
      | HandlerRejected reason \<Rightarrow>
          if wr_streaming w then report_response (wr_statusCode w) (end_socket w)
          else if \<not> wr_finished w then
            (case adapter_op en (WJson (Some (json_error reason))) (w\<lparr>wr_statusCode := 400\<rparr>) of
               (Returns, w) \<Rightarrow> report_response 400 w
             | (_, w) \<Rightarrow> (HandleThrows, w))
          else report_response 200 w
      | HandlerFailed \<Rightarrow>
          if wr_streaming w then report_response (wr_statusCode w) (end_socket w)
          else if \<not> wr_finished w then
            report_response 500 ((internal_error ''{\"error\":\"internal\"}'' w)\<lparr>wr_finished := True\<rparr>)
          else report_response 200 w)"

text \<open>The server's own catch around \<^verbatim>\<open>handle\<close>. A handler whose promise never settles after its calls has the
  end \<open>None\<close>.\<close>

definition serve_handler :: "writer_env \<Rightarrow> writer_op list \<Rightarrow> handler_end option \<Rightarrow> response_report option \<times> writer" where
  "serve_handler en ops hend =
     (case (writer_run en ops new_writer, hend) of
        ((False, w), Some e) \<Rightarrow>
          (case after_handler en e w of
             (HandleThrows, w) \<Rightarrow> (Some HandleThrows, internal_error ''{\"error\":\"internal\"}'' w)
           | (r, w) \<Rightarrow> (Some r, w))
      | ((_, w), _) \<Rightarrow> (None, w))"

section \<open>A body of known length is whole or cut\<close>

fun chunk_of :: "source_step \<Rightarrow> bytes" where
  "chunk_of (Chunk b) = b"
| "chunk_of _ = []"

fun is_chunk :: "source_step \<Rightarrow> bool" where
  "is_chunk (Chunk _) = True"
| "is_chunk _ = False"

text \<open>The bytes the source yields before it ends or fails.\<close>

definition source_bytes :: "pull list \<Rightarrow> bytes" where
  "source_bytes ps = concat (List.map chunk_of (takeWhile is_chunk (List.map pl_step ps)))"

lemma source_bytes_Cons: "source_bytes (p # ps) = (if is_chunk (pl_step p) then chunk_of (pl_step p) @ source_bytes ps else [])"
  by (simp add: source_bytes_def)

text \<open>What has been sent can not be taken for the whole body.\<close>

definition short_of :: "nat \<Rightarrow> bytes \<Rightarrow> wire \<Rightarrow> bool" where
  "short_of n s wi \<longleftrightarrow> prefix (wi_body wi) s \<and> (wi_head wi = None \<or> length (wi_body wi) < n) \<and> \<not> wi_ended wi \<and> \<not> wi_destroyed wi"

definition head_of :: "writer \<Rightarrow> nat \<times> headers \<times> string list" where
  "head_of w = (wr_statusCode w, wr_headers w, wr_setCookies w)"

definition pump_inv :: "nat \<Rightarrow> bytes \<Rightarrow> nat \<Rightarrow> bytes option \<Rightarrow> writer \<Rightarrow> bool" where
  "pump_inv n s accepted held w \<longleftrightarrow>
     accepted = length s \<and> accepted \<le> n \<and>
     (case held of
        None \<Rightarrow> wi_body (wr_wire w) = s \<and> (accepted < n \<or> n = 0)
      | Some c \<Rightarrow> c \<noteq> [] \<and> accepted = n \<and> wi_body (wr_wire w) @ c = s) \<and>
     \<not> wi_ended (wr_wire w) \<and> \<not> wi_destroyed (wr_wire w) \<and>
     (wi_head (wr_wire w) = None \<or> wi_head (wr_wire w) = Some (head_of w) \<and> n \<noteq> 0)"

definition same_writer :: "writer \<Rightarrow> writer \<Rightarrow> bool" where
  "same_writer w w' \<longleftrightarrow> w' = w\<lparr>wr_wire := wr_wire w'\<rparr>"

lemma same_writer_refl [simp]: "same_writer w w"
  by (simp add: same_writer_def)

lemma same_writer_trans: "same_writer u v \<Longrightarrow> same_writer v w \<Longrightarrow> same_writer u w"
  unfolding same_writer_def by (cases u; cases v; cases w) simp

lemma same_writer_wire [simp]: "same_writer w (w\<lparr>wr_wire := x\<rparr>)"
  by (simp add: same_writer_def)

lemma same_writer_head: "same_writer w w' \<Longrightarrow> head_of w' = head_of w"
  unfolding same_writer_def head_of_def by (cases w; cases w') simp

lemma pump_inv_short: "pump_inv n s accepted held w \<Longrightarrow> short_of n (s @ t) (wr_wire w)"
  by (auto simp: pump_inv_def short_of_def split: option.splits)

lemma writeHeadOnce_Some:
  "writeHeadOnce nodeAccepts w = Some w1 \<Longrightarrow> same_writer w w1 \<and> wi_body (wr_wire w1) = wi_body (wr_wire w) \<and>
     wi_ended (wr_wire w1) = wi_ended (wr_wire w) \<and> wi_destroyed (wr_wire w1) = wi_destroyed (wr_wire w) \<and>
     wi_head (wr_wire w1) = Some (case wi_head (wr_wire w) of None \<Rightarrow> head_of w | Some h \<Rightarrow> h)"
  by (cases "wi_head (wr_wire w)") (auto simp: writeHeadOnce_def writeHead_def head_of_def split: if_splits)

lemma pump_write_cases:
  assumes inv: "pump_inv n s accepted None w" and fits: "chunk \<noteq> []" "length s + length chunk < n"
    and step: "pump_write nodeAccepts idle chunk full w = (f, w1)"
  shows "same_writer w w1 \<and> (case f of
      None \<Rightarrow> pump_inv n (s @ chunk) (accepted + length chunk) None w1
    | Some _ \<Rightarrow> short_of n (s @ chunk @ t) (wr_wire w1))"
proof (cases "writeHeadOnce nodeAccepts w")
  case None
  then have "w1 = w" "f = Some OtherFailure" using step by (simp_all add: pump_write_def)
  then show ?thesis using pump_inv_short[OF inv] by simp
next
  case (Some u)
  note head = writeHeadOnce_Some[OF Some]
  have w1: "w1 = u\<lparr>wr_wire := wire_write chunk (wr_wire u)\<rparr>"
    and f: "f = (if (case full of None \<Rightarrow> False | Some r \<Rightarrow> drainOrStall idle r) then Some ClientStalled else None)"
    using step by (auto simp: pump_write_def Some)
  have same: "same_writer w w1" using head same_writer_trans[of w u w1] by (simp add: w1)
  have "pump_inv n (s @ chunk) (accepted + length chunk) None w1"
    using inv fits head same_writer_head[OF same]
    by (auto simp: pump_inv_def w1 wire_write_def implicit_head_def Let_def split: option.splits)
  then show ?thesis using same pump_inv_short[of n "s @ chunk" _ None w1 t] by (simp add: f)
qed

lemma pump_correct:
  assumes "pump_inv n s accepted held w" "pump nodeAccepts idle n ps accepted held w = (r, w')"
  shows "same_writer w w' \<and> (case r of
      PumpDone a h \<Rightarrow> pump_inv n (s @ source_bytes ps) a h w'
    | _ \<Rightarrow> short_of n (s @ source_bytes ps) (wr_wire w'))"
  using assms
proof (induction nodeAccepts idle n ps accepted held w arbitrary: s rule: pump.induct)
  case (1 nodeAccepts idle n accepted held w)
  then show ?case using pump_inv_short[OF 1(1)] by auto
next
  case (2 nodeAccepts idle n p ps accepted held w)
  note short = pump_inv_short[OF "2.prems"(1)]
  have len: "accepted = length s" "accepted \<le> n" using "2.prems"(1) by (simp_all add: pump_inv_def)
  show ?case
  proof (cases "\<not> pl_gone_before p \<and> \<not> pl_gone_after p \<and> (\<exists>c. pl_step p = Chunk c \<and> accepted + length c \<le> n)")
    case False
    then show ?thesis using "2.prems" short short[of "[]"] len(2) by (auto simp: source_bytes_Cons split: source_step.splits if_splits)
  next
    case True
    then obtain c where c: "\<not> pl_gone_before p" "\<not> pl_gone_after p" "pl_step p = Chunk c" "accepted + length c \<le> n" by blast
    have src: "source_bytes (p # ps) = c @ source_bytes ps" using c(3) by (simp add: source_bytes_Cons)
    have "same_writer w w' \<and> (case r of
        PumpDone a h \<Rightarrow> pump_inv n (s @ c @ source_bytes ps) a h w'
      | _ \<Rightarrow> short_of n (s @ c @ source_bytes ps) (wr_wire w'))"
    proof (cases "c = []")
      case True
      then show ?thesis using "2.IH"(1)[OF _ c(3) _ True "2.prems"(1)] "2.prems"(2) c True by (simp cong: pump_result.case_cong)
    next
      case nonempty: False
      show ?thesis
      proof (cases "accepted + length c = n")
        case True
        have held: "held = None" using "2.prems"(1) nonempty True by (auto simp: pump_inv_def split: option.splits)
        then have "pump_inv n (s @ c) (accepted + length c) (Some c) w"
          using "2.prems"(1) nonempty True by (auto simp: pump_inv_def)
        from "2.IH"(2)[OF _ c(3) _ _ _ True this] show ?thesis
          using "2.prems"(2) c nonempty True unfolding append_assoc by simp
      next
        case False
        then have less: "accepted + length c < n" using c(4) by simp
        have held: "held = None" using "2.prems"(1) less by (auto simp: pump_inv_def split: option.splits)
        obtain f w1 where written: "pump_write nodeAccepts idle c (pl_full p) w = (f, w1)" by fastforce
        note wrote = pump_write_cases[OF "2.prems"(1)[unfolded held] nonempty _ written, of "source_bytes ps"]
        show ?thesis
        proof (cases f)
          case (Some x)
          then show ?thesis using "2.prems"(2) c nonempty less wrote written len by auto
        next
          case None
          have inv: "pump_inv n (s @ c) (accepted + length c) held w1" using wrote less len None held by simp
          have "pump nodeAccepts idle n ps (accepted + length c) held w1 = (r, w')"
            using "2.prems"(2) c nonempty less written None by simp
          from "2.IH"(3)[OF _ c(3) _ _ _ _ written[symmetric] _ inv this]
          have "same_writer w1 w' \<and> (case r of
              PumpDone a h \<Rightarrow> pump_inv n (s @ c @ source_bytes ps) a h w'
            | _ \<Rightarrow> short_of n (s @ c @ source_bytes ps) (wr_wire w'))"
            using c nonempty less None unfolding append_assoc by simp
          then show ?thesis using wrote less len None same_writer_trans[of w w1 w'] by auto
        qed
      qed
    qed
    then show ?thesis unfolding src .
  qed
qed

lemma wire_end_nil: "\<not> wi_ended wi \<Longrightarrow> wi_head wi \<noteq> None \<Longrightarrow> wire_end [] wi = wi\<lparr>wi_ended := True\<rparr>"
  by (cases wi) (auto simp: wire_end_def wire_write_def implicit_head_def Let_def)

text \<open>The last stage: what is sent afterwards, and whether the response was ended.\<close>

lemma endAndAwaitFinish_correct:
  assumes wire: "\<not> wi_ended (wr_wire w)" "\<not> wi_destroyed (wr_wire w)" "wi_head (wr_wire w) = Some h"
    and step: "endAndAwaitFinish idle held env w = (f, w')"
  shows "same_writer w w' \<and> \<not> wi_destroyed (wr_wire w') \<and> wi_head (wr_wire w') = Some h \<and>
    (wi_body (wr_wire w') = wi_body (wr_wire w) \<or> wi_body (wr_wire w') = wi_body (wr_wire w) @ nullish held []) \<and>
    (wi_ended (wr_wire w') \<longrightarrow> wi_body (wr_wire w') = wi_body (wr_wire w) @ nullish held []) \<and>
    (f = None \<longrightarrow> wi_ended (wr_wire w')) \<and> f \<notin> {Some SourceFailed, Some LengthMismatch}"
proof -
  have kinds: "awaitClient idle c = (st, f) \<Longrightarrow> f \<notin> {Some SourceFailed, Some LengthMismatch} \<and> (f = None \<longrightarrow> st)" for c st f
    by (auto simp: awaitClient_def split: if_splits option.splits)
  obtain f1 w1 where first: "(case held of None \<Rightarrow> (None, w)
      | Some b \<Rightarrow> (let (started, f) = awaitClient idle (se_last env) in
          (f, if started then w\<lparr>wr_wire := wire_write b (wr_wire w)\<rparr> else w))) = (f1, w1)" by fastforce
  have w1: "same_writer w w1" "\<not> wi_ended (wr_wire w1)" "\<not> wi_destroyed (wr_wire w1)" "wi_head (wr_wire w1) = Some h"
      "wi_body (wr_wire w1) = wi_body (wr_wire w) \<or> wi_body (wr_wire w1) = wi_body (wr_wire w) @ nullish held []"
      "f1 = None \<Longrightarrow> wi_body (wr_wire w1) = wi_body (wr_wire w) @ nullish held []"
      "f1 \<notin> {Some SourceFailed, Some LengthMismatch}"
    using first wire kinds[of "se_last env"]
    by (auto simp: wire_write_def implicit_head_def Let_def split: option.splits prod.splits if_splits)
  show ?thesis
  proof (cases f1)
    case (Some x)
    then have "f = Some x" "w' = w1" using step first by (simp_all add: endAndAwaitFinish_def)
    then show ?thesis using w1 Some by simp
  next
    case None
    obtain st g where last: "awaitClient idle (se_finish env) = (st, g)" by fastforce
    have w': "f = g" "w' = (if st then w1\<lparr>wr_wire := (wr_wire w1)\<lparr>wi_ended := True\<rparr>\<rparr> else w1)"
      using step first None last w1 by (auto simp: endAndAwaitFinish_def wire_end_nil split: if_splits)
    have "same_writer w w'" using w1(1) same_writer_trans[of w w1 w'] by (simp add: w'(2))
    then show ?thesis using w1 None kinds[OF last] w' by auto
  qed
qed

lemma finish_body_correct:
  assumes inv: "pump_inv n s accepted held w" and step: "finish_body nodeAccepts idle n env accepted held w = (f, w')"
  shows "(f = None \<longrightarrow> wr_wire w' = \<lparr>wi_head = Some (head_of w), wi_body = s, wi_ended = True, wi_destroyed = False\<rparr> \<and>
      length s = n \<and> same_writer w w') \<and>
    (\<forall>x. f = Some x \<longrightarrow> wi_destroyed (wr_wire w') \<and> wr_incomplete w' \<and> prefix (wi_body (wr_wire w')) s \<and>
      (wi_ended (wr_wire w') \<longrightarrow> wi_body (wr_wire w') = s) \<and>
      (x \<in> {SourceFailed, LengthMismatch} \<longrightarrow>
        \<not> wi_ended (wr_wire w') \<and> (wi_head (wr_wire w') = None \<or> length (wi_body (wr_wire w')) < n)))"
proof -
  have early: ?thesis if "(f, w') = cut_body x w" for x
    using that pump_inv_short[OF inv, of "[]"] by (simp add: cut_body_def short_of_def)
  show ?thesis
  proof (cases "accepted \<noteq> n \<or> se_gone_end env \<or> writeHeadOnce nodeAccepts w = None")
    case True
    then have "\<exists>x. (f, w') = cut_body x w" using step unfolding finish_body_def by (auto split: if_splits dest: sym)
    then show ?thesis using early by blast
  next
    case False
    then obtain u where all: "accepted = n" "\<not> se_gone_end env" and u: "writeHeadOnce nodeAccepts w = Some u" by auto
    note head = writeHeadOnce_Some[OF u]
    have wire: "\<not> wi_ended (wr_wire u)" "\<not> wi_destroyed (wr_wire u)" "wi_head (wr_wire u) = Some (head_of w)"
      using inv head by (auto simp: pump_inv_def split: option.splits)
    obtain g v where fin: "endAndAwaitFinish idle held env u = (g, v)" by fastforce
    note last = endAndAwaitFinish_correct[OF wire fin]
    have whole: "wi_body (wr_wire u) @ nullish held [] = s" "prefix (wi_body (wr_wire u)) s" "length s = n"
      using inv head all by (auto simp: pump_inv_def split: option.splits)
    have same: "same_writer w v" using head last same_writer_trans[of w u v] by blast
    show ?thesis
    proof (cases g)
      case None
      then have "f = None" "w' = v" using step all u fin by (simp_all add: finish_body_def)
      then show ?thesis using last whole same None by (cases "wr_wire v") simp
    next
      case (Some x)
      then have "(f, w') = cut_body x v" using step all u fin by (simp add: finish_body_def)
      then show ?thesis using last whole Some by (auto simp: cut_body_def)
    qed
  qed
qed

text \<open>What a cut leaves behind.\<close>

definition visibly_cut :: "nat \<Rightarrow> bytes \<Rightarrow> body_failure \<Rightarrow> writer \<Rightarrow> bool" where
  "visibly_cut n s f w \<longleftrightarrow>
     wi_destroyed (wr_wire w) \<and> wr_incomplete w \<and> prefix (wi_body (wr_wire w)) s \<and>
     (wi_ended (wr_wire w) \<longrightarrow> wi_body (wr_wire w) = s) \<and>
     (f \<in> {SourceFailed, LengthMismatch} \<longrightarrow>
       \<not> wi_ended (wr_wire w) \<and> (wi_head (wr_wire w) = None \<or> length (wi_body (wr_wire w)) < n))"

lemma sized_headers_sel [simp]:
  "wr_wire (sized_headers n w) = wr_wire w" "wr_statusCode (sized_headers n w) = wr_statusCode w"
  "wr_setCookies (sized_headers n w) = wr_setCookies w" "wr_incomplete (sized_headers n w) = wr_incomplete w"
  "js_get (wr_headers (sized_headers n w)) ''content-length'' = Some (decimal n)"
  by (simp_all add: sized_headers_def header_default_def)

lemma sized_end_iff [simp]:
  "sized_end env f = BodySent \<longleftrightarrow> f = None" "sized_end env f = BodyCut g \<longleftrightarrow> f = Some g \<and> \<not> se_release_waits env"
  "sized_end env f = BodyReleasing g \<longleftrightarrow> f = Some g \<and> se_release_waits env" "sized_end env f \<noteq> BodyWaits"
  "sized_end env f \<noteq> BodyNoIterator"
  by (auto simp: sized_end_def split: option.splits)

text \<open>C14. A body of known length arrives whole or is visibly cut, provided its source gives an iterator.
  When \<^verbatim>\<open>bodyStream\<close> succeeds, the client was sent exactly the bytes of the source, as many as
  \<^verbatim>\<open>Content-Length\<close> says, and the response was ended. When it fails after it has the iterator, and also
  while it waits on the \<^verbatim>\<open>return()\<close> of a source it has given up, the connection is destroyed, the
  response counts as incomplete, what was sent is a beginning of the source's bytes, and if the source was
  at fault (it threw, gave something that is not bytes, was too long or too short) the response was not
  ended and fewer bytes went out than promised, or not even the head. While the source has not said that
  it is done, the last chunk is held back. The exception is a source whose \<^verbatim>\<open>[Symbol.asyncIterator]()\<close>
  throws: then, and only then, the call fails with nothing sent, the connection not destroyed and the
  response not marked incomplete.\<close>

theorem sized_body_is_whole_or_cut:
  assumes fresh: "wr_wire w = new_wire" and run: "sendSizedBody nodeAccepts idle n env w = (r, w')"
  shows "(case r of
      BodySent \<Rightarrow> (\<exists>hs. wr_wire w' = \<lparr>wi_head = Some (wr_statusCode w, hs, wr_setCookies w),
            wi_body = source_bytes (se_pulls env), wi_ended = True, wi_destroyed = False\<rparr> \<and>
          js_get hs ''content-length'' = Some (decimal n) \<and> length (source_bytes (se_pulls env)) = n)
    | BodyCut f \<Rightarrow> visibly_cut n (source_bytes (se_pulls env)) f w' \<and> \<not> se_release_waits env
    | BodyReleasing f \<Rightarrow> visibly_cut n (source_bytes (se_pulls env)) f w' \<and> se_release_waits env
    | BodyWaits \<Rightarrow> \<not> wi_ended (wr_wire w') \<and> \<not> wi_destroyed (wr_wire w') \<and>
        prefix (wi_body (wr_wire w')) (source_bytes (se_pulls env)) \<and>
        (wi_head (wr_wire w') = None \<or> length (wi_body (wr_wire w')) < n)
    | BodyNoIterator \<Rightarrow> wr_wire w' = new_wire \<and> wr_incomplete w' = wr_incomplete w) \<and>
    (r = BodyNoIterator \<longleftrightarrow> se_no_iterator env)"
proof (cases "se_no_iterator env")
  case True
  then have "r = BodyNoIterator" "w' = sized_headers n w" using run by (simp_all add: sendSizedBody_def)
  then show ?thesis using True fresh by simp
next
  case False
  obtain pr v where pump: "pump nodeAccepts idle n (se_pulls env) 0 None (sized_headers n w) = (pr, v)" by fastforce
  have "pump_inv n [] 0 None (sized_headers n w)" by (auto simp: pump_inv_def fresh new_wire_def)
  note pumped = pump_correct[OF this pump, simplified]
  have head: "head_of v = (wr_statusCode w, wr_headers (sized_headers n w), wr_setCookies w)"
    using pumped same_writer_head[of "sized_headers n w" v] by (simp add: head_of_def)
  note send = run[unfolded sendSizedBody_def Let_def pump]
  show ?thesis
  proof (cases pr)
    case (PumpDone a h)
    obtain f x where fin: "finish_body nodeAccepts idle n env a h v = (f, x)" by fastforce
    have "pump_inv n (source_bytes (se_pulls env)) a h v" using pumped by (simp add: PumpDone)
    note last = finish_body_correct[OF this fin]
    have "r = sized_end env f" "w' = x" using send False by (simp_all add: PumpDone fin)
    then show ?thesis using last False by (cases f) (auto simp: head sized_end_def visibly_cut_def)
  qed (use send False pumped in \<open>auto simp: cut_body_def short_of_def visibly_cut_def sized_end_def split: if_splits\<close>)
qed

definition demo_pulls :: "pull list" where
  "demo_pulls = [\<lparr>pl_gone_before = False, pl_step = Chunk ''ab'', pl_gone_after = False,
       pl_full = Some \<lparr>rm_destroyed = False, rm_drain = Some 5, rm_close = None\<rparr>\<rparr>,
     \<lparr>pl_gone_before = False, pl_step = Chunk ''c'', pl_gone_after = False, pl_full = None\<rparr>,
     \<lparr>pl_gone_before = False, pl_step = SourceDone, pl_gone_after = False, pl_full = None\<rparr>]"

definition demo_sized_env :: sized_env where
  "demo_sized_env = \<lparr>se_no_iterator = False, se_pulls = demo_pulls, se_gone_end = False,
     se_last = \<lparr>cw_destroyed = False, cw_throws = False, cw_done = Some (1, False), cw_close = None\<rparr>,
     se_finish = \<lparr>cw_destroyed = False, cw_throws = False, cw_done = Some (2, False), cw_close = None\<rparr>,
     se_release_waits = False\<rparr>"

lemmas demo_sized_simps = sendSizedBody_def sized_headers_def sized_end_def demo_sized_env_def demo_pulls_def header_default_def new_writer_def new_wire_def
  pump_write_def writeHeadOnce_def writeHead_def drainOrStall_def earlier_def timer_ms_def TIMEOUT_MAX_def wire_write_def
  implicit_head_def finish_body_def endAndAwaitFinish_def awaitClient_def wire_end_def

lemma sized_body_is_whole_or_cut_witness:
  "\<exists>w' hs. sendSizedBody (\<lambda>s h c. True) 100 3 demo_sized_env new_writer = (BodySent, w') \<and>
     wr_wire w' = \<lparr>wi_head = Some (200, hs, []), wi_body = ''abc'', wi_ended = True, wi_destroyed = False\<rparr> \<and>
     js_get hs ''content-length'' = Some (decimal 3)"
proof -
  have fresh: "wr_wire new_writer = new_wire" "wr_statusCode new_writer = 200" "wr_setCookies new_writer = []"
    by (simp_all add: new_writer_def)
  have src: "source_bytes (se_pulls demo_sized_env) = ''abc''"
    by (simp add: source_bytes_def demo_sized_env_def demo_pulls_def)
  obtain w' where run: "sendSizedBody (\<lambda>s h c. True) 100 3 demo_sized_env new_writer = (BodySent, w')"
    by (simp add: demo_sized_simps)
  from sized_body_is_whole_or_cut[OF fresh(1) run] run show ?thesis by (simp add: fresh src)
qed

section \<open>Every request is answered\<close>

text \<open>The writer's state between the calls of a handler.\<close>

definition writer_inv :: "writer \<Rightarrow> bool" where
  "writer_inv w \<longleftrightarrow>
     (wr_streaming w \<longrightarrow> wr_finished w) \<and> (wr_stream w \<noteq> None \<longrightarrow> wr_streaming w \<and> wi_head (wr_wire w) \<noteq> None) \<and>
     (if wr_finished w then (\<forall>h. wi_head (wr_wire w) = Some h \<longrightarrow> fst h = wr_statusCode w)
      else wi_head (wr_wire w) = None \<and> \<not> wi_ended (wr_wire w))"

definition answered_inv :: "writer \<Rightarrow> bool" where
  "answered_inv w \<longleftrightarrow> writer_inv w \<and>
     (wr_finished w \<and> \<not> wr_streaming w \<longrightarrow> wi_ended (wr_wire w) \<or> wi_destroyed (wr_wire w)) \<and>
     (wr_streaming w \<longrightarrow> wi_head (wr_wire w) \<noteq> None)"

lemma wire_write_sel [simp]:
  "wi_ended (wire_write b wi) = wi_ended wi" "wi_destroyed (wire_write b wi) = wi_destroyed wi"
  "wi_head wi = Some h \<Longrightarrow> wi_head (wire_write b wi) = Some h"
  by (auto simp: wire_write_def implicit_head_def Let_def)

lemma wire_end_sel [simp]:
  "wi_ended (wire_end b wi)" "wi_destroyed (wire_end b wi) = wi_destroyed wi"
  "wi_head wi = Some h \<Longrightarrow> wi_head (wire_end b wi) = Some h"
  by (auto simp: wire_end_def)

lemma header_default_sel [simp]:
  "wr_finished (header_default k v w) = wr_finished w" "wr_streaming (header_default k v w) = wr_streaming w"
  "wr_stream (header_default k v w) = wr_stream w" "wr_wire (header_default k v w) = wr_wire w"
  "wr_statusCode (header_default k v w) = wr_statusCode w" "wr_callbacks (header_default k v w) = wr_callbacks w"
  "wr_fired (header_default k v w) = wr_fired w"
  by (simp_all add: header_default_def)

text \<open>A call that writes the head and ends: afterwards the head has the status, or it was refused.\<close>

lemma head_and_end_cases:
  assumes "head_and_end nodeAccepts b w = (r, w')" "wi_head (wr_wire w) = None"
  obtains "r = Throws" "w' = w" "\<not> nodeAccepts (wr_statusCode w) (wr_headers w) (wr_setCookies w)"
  | "r = Returns" "same_writer w w'" "wi_ended (wr_wire w')" "wi_head (wr_wire w') = Some (head_of w)"
  using assms by (auto simp: head_and_end_def writeHead_def head_of_def split: if_splits option.splits)

definition head_status :: "writer \<Rightarrow> bool" where
  "head_status w \<longleftrightarrow> (\<forall>h. wi_head (wr_wire w) = Some h \<longrightarrow> fst h = wr_statusCode w)"

lemma pump_keeps:
  "pump nodeAccepts idle n ps accepted held w = (r, w') \<Longrightarrow> same_writer w w' \<and> (head_status w \<longrightarrow> head_status w')"
proof (induction nodeAccepts idle n ps accepted held w rule: pump.induct)
  case (2 nodeAccepts idle n p ps accepted held w)
  have keeps: "same_writer w v \<and> (head_status w \<longrightarrow> head_status v)"
    if "pump_write nodeAccepts idle c full w = (f, v)" for c full f v
  proof (cases "writeHeadOnce nodeAccepts w")
    case None
    then show ?thesis using that by (simp add: pump_write_def)
  next
    case (Some u)
    note head = writeHeadOnce_Some[OF Some]
    have v: "v = u\<lparr>wr_wire := wire_write c (wr_wire u)\<rparr>" using that by (simp add: pump_write_def Some)
    then have "same_writer w v" using head same_writer_trans[of w u v] by simp
    moreover have "wi_head (wr_wire v) = wi_head (wr_wire u)" "wr_statusCode v = wr_statusCode w"
      using head same_writer_head[of w v] \<open>same_writer w v\<close> by (auto simp: v head_of_def split: option.splits)
    ultimately show ?thesis using head by (auto simp: head_status_def head_of_def split: option.splits)
  qed
  show ?case
  proof (cases "pl_step p")
    case (Chunk c)
    obtain f v where v: "pump_write nodeAccepts idle c (pl_full p) w = (f, v)" by fastforce
    show ?thesis using "2.prems" "2.IH"(1)[OF _ Chunk] "2.IH"(2)[OF _ Chunk] "2.IH"(3)[OF _ Chunk _ _ _ _ v[symmetric]] keeps[OF v]
        same_writer_trans[of w v w']
      by (auto simp: Chunk v split: if_splits option.splits)
  qed (use "2.prems" in \<open>auto split: if_splits\<close>)
qed simp

text \<open>\<^verbatim>\<open>bodyStream\<close> changes the headers, the socket and the \<^verbatim>\<open>incomplete\<close> flag only.\<close>

definition body_keeps :: "writer \<Rightarrow> writer \<Rightarrow> bool" where
  "body_keeps w w' \<longleftrightarrow> wr_finished w' = wr_finished w \<and> wr_streaming w' = wr_streaming w \<and> wr_stream w' = wr_stream w \<and>
     wr_statusCode w' = wr_statusCode w \<and> wr_callbacks w' = wr_callbacks w \<and> wr_fired w' = wr_fired w \<and>
     (head_status w \<longrightarrow> head_status w')"

lemma same_writer_keeps: "same_writer w w' \<Longrightarrow> head_status w \<longrightarrow> head_status w' \<Longrightarrow> body_keeps w w'"
  unfolding same_writer_def body_keeps_def by (cases w; cases w') simp

lemma cut_body_keeps: "cut_body f w = (g, w') \<Longrightarrow> body_keeps w w' \<and> wi_destroyed (wr_wire w') \<and> g = Some f"
  by (auto simp: cut_body_def body_keeps_def head_status_def)

lemma body_keeps_trans: "body_keeps u v \<Longrightarrow> body_keeps v w \<Longrightarrow> body_keeps u w"
  unfolding body_keeps_def by metis

lemma endAndAwaitFinish_keeps:
  assumes "wi_head (wr_wire w) = Some h" "endAndAwaitFinish idle held env w = (f, w')"
  shows "body_keeps w w' \<and> (f = None \<longrightarrow> wi_ended (wr_wire w'))"
proof -
  have kinds: "awaitClient idle c = (st, None) \<Longrightarrow> st" for c st
    by (auto simp: awaitClient_def split: if_splits option.splits)
  show ?thesis using assms kinds[of "se_finish env"]
    by (auto simp: endAndAwaitFinish_def body_keeps_def head_status_def split: option.splits prod.splits if_splits)
qed

lemma sendSizedBody_keeps:
  assumes run: "sendSizedBody nodeAccepts idle n env w = (r, w')"
  shows "body_keeps w w' \<and> (r = BodySent \<longrightarrow> wi_ended (wr_wire w')) \<and>
    ((\<exists>f. r = BodyCut f \<or> r = BodyReleasing f) \<longrightarrow> wi_destroyed (wr_wire w')) \<and> (r = BodyNoIterator \<longrightarrow> se_no_iterator env)"
proof (cases "se_no_iterator env")
  case True
  then have "r = BodyNoIterator" "w' = sized_headers n w" using run by (simp_all add: sendSizedBody_def)
  then show ?thesis using True by (simp add: body_keeps_def head_status_def sized_headers_def)
next
  case False
  define u where "u = sized_headers n w"
  have u: "body_keeps w u" by (simp add: u_def body_keeps_def head_status_def sized_headers_def)
  obtain pr v where pump: "pump nodeAccepts idle n (se_pulls env) 0 None u = (pr, v)" by fastforce
  have v: "body_keeps w v" using pump_keeps[OF pump] same_writer_keeps body_keeps_trans[OF u] by blast
  have fin: "body_keeps v x \<and> (f = None \<longrightarrow> wi_ended (wr_wire x)) \<and> (f \<noteq> None \<longrightarrow> wi_destroyed (wr_wire x))"
    if "finish_body nodeAccepts idle n env a h v = (f, x)" for a h f x
  proof (cases "a \<noteq> n \<or> se_gone_end env \<or> writeHeadOnce nodeAccepts v = None")
    case True
    then have "\<exists>y. cut_body y v = (f, x)" using that unfolding finish_body_def by (auto split: if_splits)
    then show ?thesis using cut_body_keeps by blast
  next
    case False
    then obtain y where y: "writeHeadOnce nodeAccepts v = Some y" by auto
    note head = writeHeadOnce_Some[OF y]
    have keep: "body_keeps v y" using head same_writer_head[of v y]
      by (intro same_writer_keeps) (auto simp: head_status_def head_of_def split: option.splits)
    obtain g z where z: "endAndAwaitFinish idle h env y = (g, z)" by fastforce
    obtain hd where "wi_head (wr_wire y) = Some hd" using head by simp
    note ends = endAndAwaitFinish_keeps[OF this z]
    then have vz: "body_keeps v z" using body_keeps_trans[OF keep] by simp
    show ?thesis
    proof (cases g)
      case None
      then show ?thesis using that False y z ends vz by (simp add: finish_body_def)
    next
      case (Some e)
      then have "cut_body e z = (f, x)" using that False y z by (simp add: finish_body_def)
      from cut_body_keeps[OF this] show ?thesis using body_keeps_trans[OF vz] by simp
    qed
  qed
  note send = run[unfolded sendSizedBody_def Let_def u_def[symmetric] pump]
  show ?thesis
  proof (cases pr)
    case (PumpDone a h)
    obtain f x where x: "finish_body nodeAccepts idle n env a h v = (f, x)" by fastforce
    then have "r = sized_end env f" "w' = x" using send False by (simp_all add: PumpDone)
    then show ?thesis using fin[OF x] body_keeps_trans[OF v] False by auto
  next
    case (PumpFails f)
    then have "cut_body f v = (Some f, w')" "r = sized_end env (Some f)" using send False by (auto simp: cut_body_def)
    then show ?thesis using cut_body_keeps body_keeps_trans[OF v] False by (metis sized_end_iff(1,5) option.distinct(1))
  qed (use send v False in simp)
qed

lemma writer_inv_head: "writer_inv w \<Longrightarrow> head_status w"
  by (auto simp: writer_inv_def head_status_def split: if_splits)

text \<open>A response that a terminator has just claimed.\<close>

definition claimed :: "writer \<Rightarrow> bool" where
  "claimed w \<longleftrightarrow> wi_head (wr_wire w) = None \<and> wr_finished w \<and> \<not> wr_streaming w \<and> wr_stream w = None"

definition settles :: "head_check \<Rightarrow> op_result \<Rightarrow> writer \<Rightarrow> bool" where
  "settles nodeAccepts r w \<longleftrightarrow> writer_inv w \<and> r \<noteq> Waits \<and> ((\<forall>s h c. nodeAccepts s h c) \<longrightarrow> answered_inv w)"

lemma claimed_simps [simp]:
  "claimed (header_default k v w) = claimed w" "claimed (w\<lparr>wr_headers := hs\<rparr>) = claimed w"
  "claimed (w\<lparr>wr_statusCode := n\<rparr>) = claimed w"
  by (simp_all add: claimed_def)

lemma claimed_finishing:
  assumes "writer_inv w" "\<not> wr_finished w"
  shows "claimed (finishing w)" "claimed (finishing (w\<lparr>wr_statusCode := n, wr_headers := hs\<rparr>))"
  using assms by (auto simp: claimed_def finishing_def writer_inv_def)

lemma head_and_end_settles:
  assumes step: "head_and_end nodeAccepts b u = (r, w')" and u: "claimed u"
  shows "settles nodeAccepts r w'"
proof -
  have none: "wi_head (wr_wire u) = None" using u by (simp add: claimed_def)
  from step none show ?thesis
  proof (cases rule: head_and_end_cases)
    case 1
    then show ?thesis using u by (auto simp: settles_def writer_inv_def claimed_def)
  next
    case 2
    have "wr_finished w' \<and> \<not> wr_streaming w' \<and> wr_stream w' = None \<and> wr_statusCode w' = wr_statusCode u"
      using 2(2) u unfolding same_writer_def claimed_def by (cases u; cases w') simp
    then show ?thesis using 2 by (simp add: settles_def writer_inv_def answered_inv_def head_of_def)
  qed
qed

lemma flush_settles:
  "flush nodeAccepts ct b u = (r, w') \<Longrightarrow> claimed u \<Longrightarrow> settles nodeAccepts r w'"
  "flushBytes nodeAccepts ct b u = (r, w') \<Longrightarrow> claimed u \<Longrightarrow> settles nodeAccepts r w'"
  "flushEmpty nodeAccepts u = (r, w') \<Longrightarrow> claimed u \<Longrightarrow> settles nodeAccepts r w'"
  unfolding flush_def flushBytes_def flushEmpty_def Let_def by (erule head_and_end_settles, simp)+

lemma openStream_settles:
  assumes step: "openStream nodeAccepts ct w = (r, w')" and w: "writer_inv w" "\<not> wr_finished w"
  shows "settles nodeAccepts r w'"
proof -
  define u where "u = header_default ''cache-control'' ''no-cache, no-transform'' (header_default ''x-accel-buffering'' ''no''
    (header_default ''content-type'' (nullish ct ''text/event-stream; charset=utf-8'') (w\<lparr>wr_finished := True, wr_streaming := True\<rparr>)))"
  have u: "wi_head (wr_wire u) = None" "wr_finished u" "wr_streaming u" "wr_stream u = None"
    using w by (auto simp: u_def writer_inv_def)
  have "openStream nodeAccepts ct w = (case writeHead nodeAccepts u of None \<Rightarrow> (Throws, u) | Some w \<Rightarrow> (Returns, w\<lparr>wr_stream := Some False\<rparr>))"
    unfolding openStream_def Let_def u_def ..
  then show ?thesis using step u
    by (auto simp: settles_def writer_inv_def answered_inv_def writeHead_def split: option.splits if_splits)
qed

lemma sized_settles:
  assumes send: "sendSizedBody nodeAccepts idle n env u = (q, x)" and u: "claimed u"
  shows "writer_inv x \<and> (q \<noteq> BodyWaits \<and> \<not> se_no_iterator env \<longrightarrow> answered_inv x)"
proof -
  note keep = sendSizedBody_keeps[OF send]
  have "head_status u" using u by (simp add: claimed_def head_status_def)
  then have x: "head_status x" "wr_finished x" "\<not> wr_streaming x" "wr_stream x = None"
    using keep u by (auto simp: body_keeps_def claimed_def)
  then have "writer_inv x" by (simp add: writer_inv_def head_status_def)
  then show ?thesis using x keep by (cases q) (auto simp: answered_inv_def)
qed

lemma unfinished_inv:
  "\<not> wr_finished w \<Longrightarrow> writer_inv w \<longleftrightarrow> \<not> wr_streaming w \<and> wr_stream w = None \<and> wi_head (wr_wire w) = None \<and> \<not> wi_ended (wr_wire w)"
  "\<not> wr_finished w \<Longrightarrow> answered_inv w \<longleftrightarrow> writer_inv w"
  by (auto simp: writer_inv_def answered_inv_def)

lemma unfinished_settles:
  assumes "writer_inv w" "\<not> wr_finished w"
  shows "settles a Throws w" "settles a Returns (w\<lparr>wr_statusCode := n\<rparr>)" "settles a Returns (w\<lparr>wr_headers := hs\<rparr>)"
    "settles a Returns (w\<lparr>wr_setCookies := cs\<rparr>)" "settles a Returns w"
  using assms by (simp_all add: settles_def unfinished_inv)

text \<open>The call is no \<^verbatim>\<open>bodyStream\<close> of a source that gives no iterator.\<close>

fun source_opens :: "writer_op \<Rightarrow> bool" where
  "source_opens (WBodyStream contentLength iterable env) \<longleftrightarrow> \<not> se_no_iterator env"
| "source_opens _ \<longleftrightarrow> True"

lemma adapter_op_inv:
  assumes inv: "writer_inv w" "\<not> wr_finished w" and step: "adapter_op en op w = (r, w')"
  shows "writer_inv w' \<and> (r \<noteq> Waits \<and> source_opens op \<longrightarrow> settles (we_accepts en) r w')"
proof -
  note basic = unfinished_settles[OF inv]
  note claim = claimed_finishing[OF inv]
  have done_if: ?thesis if "settles (we_accepts en) r w'" using that by (simp add: settles_def)
  show ?thesis
  proof (cases op)
    case (WBodyStream l it env)
    show ?thesis
    proof (cases "body_length l = None \<or> \<not> it")
      case True
      then show ?thesis using step basic(1) by (auto simp: WBodyStream settles_def split: option.splits)
    next
      case False
      then obtain n where n: "body_length l = Some n" "it" by auto
      obtain q x where send: "sendSizedBody (we_accepts en) (we_idle en) n env (finishing w) = (q, x)" by fastforce
      show ?thesis using sized_settles[OF send claim(1)] step
        by (cases q) (auto simp: WBodyStream n send settles_def)
    qed
  next
    case (WText s)
    then show ?thesis using step flush_settles(1)[OF _ claim(1)] done_if by simp
  next
    case (WJson v)
    then show ?thesis using step flush_settles(1)[OF _ claim(1)] done_if basic by (auto split: option.splits)
  next
    case (WBody b ct)
    then show ?thesis using step flush_settles(2)[OF _ claim(1)] done_if basic by (auto split: option.splits)
  next
    case WEnd
    then show ?thesis using step flush_settles(3)[OF _ claim(1)] done_if by simp
  next
    case (WRedirect url st)
    then show ?thesis using step flush_settles(3)[OF _ claim(2)] done_if basic by (auto split: option.splits)
  next
    case (WStream ct)
    then show ?thesis using step openStream_settles[OF _ inv] done_if by simp
  qed (use step done_if basic in \<open>auto simp: add_cookie_header_def split: option.splits sum.splits\<close>)
qed

text \<open>The stream's own calls and the close of the socket.\<close>

lemma stream_ops_inv:
  assumes "writer_inv w"
  shows "writer_inv (stream_write c f w)" "writer_inv (stream_close w)" "writer_inv (stream_onClose h w)" "writer_inv (socket_closes w)"
  using assms
  by (auto simp: stream_write_def stream_close_def stream_onClose_def socket_closes_def onSocketClose_def fireOnClose_def
      writer_inv_def split: option.splits bool.splits if_splits)

lemma stream_ops_answered:
  assumes "answered_inv w"
  shows "answered_inv (stream_write c f w)" "answered_inv (stream_close w)" "answered_inv (stream_onClose h w)" "answered_inv (socket_closes w)"
  using assms stream_ops_inv[of w]
  by (auto simp: stream_write_def stream_close_def stream_onClose_def socket_closes_def onSocketClose_def fireOnClose_def
      answered_inv_def split: option.splits bool.splits if_splits)

lemma writer_step_inv:
  assumes inv: "writer_inv w" and step: "writer_step en op w = (r, w')"
  shows "writer_inv w' \<and> (r \<noteq> Waits \<and> source_opens op \<and> answered_inv w \<and> (\<forall>s h c. we_accepts en s h c) \<longrightarrow> answered_inv w')"
proof (cases "wr_finished w")
  case True
  then show ?thesis using step inv stream_ops_inv[OF inv] stream_ops_answered[of w] by (cases op) auto
next
  case False
  then show ?thesis using step stream_ops_inv[OF inv] stream_ops_answered[of w] adapter_op_inv[OF inv False, of en op r w']
    by (cases op) (auto simp: settles_def)
qed

lemma writer_run_inv:
  assumes "writer_inv w" "writer_run en ops w = (b, w')"
  shows "writer_inv w' \<and> (\<not> b \<and> list_all source_opens ops \<and> answered_inv w \<and> (\<forall>s h c. we_accepts en s h c) \<longrightarrow> answered_inv w')"
  using assms
proof (induction ops arbitrary: w)
  case (Cons x xs)
  obtain r u where step: "writer_step en x w = (r, u)" by fastforce
  note one = writer_step_inv[OF Cons.prems(1) step]
  then show ?case using Cons.IH[of u] Cons.prems(2) by (cases r) (auto simp: step)
qed simp

lemma new_writer_inv: "writer_inv new_writer" "answered_inv new_writer"
  by (simp_all add: writer_inv_def answered_inv_def new_writer_def new_wire_def)

lemma internal_error_sel [simp]:
  "wi_ended (wr_wire (internal_error b w))" "wr_finished (internal_error b w) = wr_finished w"
  "wr_streaming (internal_error b w) = wr_streaming w"
  by (simp_all add: internal_error_def Let_def)

lemma end_socket_sel [simp]:
  "wi_ended (wr_wire (end_socket w))" "wr_streaming (end_socket w) = wr_streaming w"
  by (simp_all add: end_socket_def)

lemma report_response_answers:
  assumes "answered_inv w" "report_response st w = (r, w')"
  shows "(\<exists>st inc. r = ReportNow st inc) \<and> (wi_ended (wr_wire w') \<or> wi_destroyed (wr_wire w')) \<or>
    (\<exists>st. r = ReportOnClose st) \<and> wr_streaming w' \<and> wi_head (wr_wire w') \<noteq> None"
  using assms by (auto simp: report_response_def answered_inv_def split: if_splits)

lemma report_ended:
  "report_response st w = (r, w') \<Longrightarrow> wi_ended (wr_wire w) \<Longrightarrow> (\<exists>st inc. r = ReportNow st inc) \<and> wi_ended (wr_wire w')"
  by (auto simp: report_response_def split: if_splits)

lemma after_handler_answers:
  assumes inv: "answered_inv w" and ok: "\<forall>s h c. we_accepts en s h c" and step: "after_handler en e w = (r, w')"
  shows "(\<exists>st inc. r = ReportNow st inc) \<and> (wi_ended (wr_wire w') \<or> wi_destroyed (wr_wire w')) \<or>
    (\<exists>st. r = ReportOnClose st) \<and> wr_streaming w' \<and> wi_head (wr_wire w') \<noteq> None"
proof -
  note report = report_response_answers[OF inv, of _ r w'] report_ended[of _ _ r w']
  have winv: "writer_inv w" using inv by (simp add: answered_inv_def)
  show ?thesis
  proof (cases e)
    case (HandlerRejected reason)
    show ?thesis
    proof (cases "wr_streaming w \<or> wr_finished w")
      case True
      then show ?thesis using step report by (auto simp: HandlerRejected after_handler_def split: if_splits)
    next
      case False
      then have "writer_inv (w\<lparr>wr_statusCode := 400\<rparr>)" "\<not> wr_finished (w\<lparr>wr_statusCode := 400\<rparr>)"
        using winv by (simp_all add: unfinished_inv)
      note claim = claimed_finishing(1)[OF this]
      obtain q u where q: "adapter_op en (WJson (Some (json_error reason))) (w\<lparr>wr_statusCode := 400\<rparr>) = (q, u)" by fastforce
      then have "head_and_end (we_accepts en) (utf8_encode (json_error reason))
          (header_default ''content-type'' ''application/json; charset=utf-8'' (finishing (w\<lparr>wr_statusCode := 400\<rparr>))) = (q, u)"
        by (simp add: flush_def)
      then have "q = Returns" "answered_inv u"
        using flush_settles(1)[OF _ claim] q ok by (auto simp: settles_def head_and_end_def writeHead_def claimed_def
            split: option.splits if_splits) (use claim in \<open>auto simp: claimed_def\<close>)
      then show ?thesis using step q False report_response_answers[of u 400 r w']
        by (simp add: HandlerRejected after_handler_def)
    qed
  qed (use step report in \<open>auto simp: after_handler_def split: if_splits\<close>)
qed

lemma every_handler_answered:
  assumes heads: "\<And>s h c. we_accepts en s h c" and sources: "list_all source_opens ops"
    and run: "serve_handler en ops e = (Some r, w)"
  shows "(\<exists>st inc. r = ReportNow st inc) \<and> (wi_ended (wr_wire w) \<or> wi_destroyed (wr_wire w)) \<or>
    (\<exists>st. r = ReportOnClose st) \<and> wr_streaming w \<and> wi_head (wr_wire w) \<noteq> None"
proof -
  obtain u q x i where u: "writer_run en ops new_writer = (False, u)" and q: "after_handler en i u = (q, x)"
    and r: "r = q" "q = HandleThrows \<or> w = x"
    using run by (auto simp: serve_handler_def split: prod.splits bool.splits option.splits response_report.splits)
  have ok: "\<forall>s h c. we_accepts en s h c" using heads by blast
  have "answered_inv u" using writer_run_inv[OF new_writer_inv(1) u] new_writer_inv ok sources by blast
  from after_handler_answers[OF this ok q] show ?thesis using r by auto
qed

text \<open>Every handler run that ends is answered, when Node takes every head and every source of a sized body gives
  its iterator: the response has been ended or its connection destroyed when \<^verbatim>\<open>http:response-sent\<close>
  fires, or it is a stream whose head is out and whose report waits for the close of the socket. This holds
  for every sequence of calls, refused ones included, and however the handler ends.\<close>

theorem every_handler_run_is_answered:
  assumes heads: "\<And>s h c. we_accepts en s h c" and sources: "list_all source_opens ops"
    and run: "serve_handler en ops e = (Some r, w)"
  shows "(\<exists>st inc. r = ReportNow st inc) \<and> (wi_ended (wr_wire w) \<or> wi_destroyed (wr_wire w)) \<or>
    (\<exists>st. r = ReportOnClose st) \<and> wr_streaming w \<and> wi_head (wr_wire w) \<noteq> None"
  using every_handler_answered[OF heads sources run] .

definition demo_writer_env :: "head_check \<Rightarrow> writer_env" where
  "demo_writer_env chk = \<lparr>we_accepts = chk, we_idle = 60000, we_hmac = (\<lambda>k p. replicate 32 CHR ''a''),
     we_key = replicate 32 CHR ''k'', we_isSecure = True\<rparr>"

lemmas demo_writer_simps = serve_handler_def demo_writer_env_def new_writer_def new_wire_def int_in_def flush_def
  header_default_def finishing_def head_and_end_def writeHead_def wire_end_def wire_write_def implicit_head_def after_handler_def
  report_response_def as_nonneg_int.simps

lemma every_handler_run_is_answered_witness:
  "\<exists>w. serve_handler (demo_writer_env (\<lambda>s h c. True)) [WText (ascii ''a''), WText (ascii ''b'')] (Some HandlerReturned)
      = (Some (ReportNow 200 False), w) \<and> (wi_ended (wr_wire w) \<or> wi_destroyed (wr_wire w))"
proof -
  obtain w where run: "serve_handler (demo_writer_env (\<lambda>s h c. True)) [WText (ascii ''a''), WText (ascii ''b'')] (Some HandlerReturned)
      = (Some (ReportNow 200 False), w)"
    by (simp add: demo_writer_simps)
  have heads: "we_accepts (demo_writer_env (\<lambda>s h c. True)) s h c" for s h c by (simp add: demo_writer_env_def)
  from every_handler_run_is_answered[OF heads _ run] run show ?thesis by simp
qed

subsection \<open>An answer that never leaves\<close>

text \<open>The calls that answer with a head at once, when their arguments are good.\<close>

fun answers_with_head :: "writer_op \<Rightarrow> bool" where
  "answers_with_head (WText s) \<longleftrightarrow> True"
| "answers_with_head (WJson v) \<longleftrightarrow> v \<noteq> None"
| "answers_with_head (WBody b contentType) \<longleftrightarrow> b \<noteq> None"
| "answers_with_head WEnd \<longleftrightarrow> True"
| "answers_with_head (WRedirect url status) \<longleftrightarrow> int_in 300 399 (nullish status (Fin 302)) \<noteq> None"
| "answers_with_head _ \<longleftrightarrow> False"

text \<open>A valid \<^verbatim>\<open>bodyStream\<close> of a source that gives no iterator.\<close>

fun lacks_iterator :: "writer_op \<Rightarrow> bool" where
  "lacks_iterator (WBodyStream contentLength iterable env) \<longleftrightarrow> body_length contentLength \<noteq> None \<and> iterable \<and> se_no_iterator env"
| "lacks_iterator _ \<longleftrightarrow> False"

text \<open>The header was set and Node takes no head that has it.\<close>

definition refused_header :: "head_check \<Rightarrow> string \<times> string \<Rightarrow> writer \<Rightarrow> bool" where
  "refused_header nodeAccepts h w \<longleftrightarrow>
     h \<in> set (wr_headers w) \<and> fst h \<notin> {''content-length'', ''location''} \<and> (\<forall>s hs cs. h \<in> set hs \<longrightarrow> \<not> nodeAccepts s hs cs)"

definition unsent :: "writer \<Rightarrow> writer \<Rightarrow> bool" where
  "unsent w u \<longleftrightarrow> wr_finished u \<and> \<not> wr_streaming u \<and> wr_stream u = None \<and> wr_wire u = wr_wire w"

lemma js_set_keeps: "(k, v) \<in> set m \<Longrightarrow> k \<noteq> j \<Longrightarrow> (k, v) \<in> set (js_set j x m)"
  by (induction m) auto

lemma header_default_keeps: "h \<in> set (wr_headers w) \<Longrightarrow> h \<in> set (wr_headers (header_default k v w))"
proof -
  assume h: "h \<in> set (wr_headers w)"
  have "js_get m k = None \<Longrightarrow> h \<in> set m \<Longrightarrow> h \<in> set (js_set k v m)" for m
    by (induction m) (auto split: if_splits)
  then show ?thesis using h by (simp add: header_default_def)
qed

lemma refused_head:
  assumes "h \<in> set (wr_headers u)" "\<forall>s hs cs. h \<in> set hs \<longrightarrow> \<not> nodeAccepts s hs cs"
  shows "head_and_end nodeAccepts b u = (Throws, u)"
  using assms by (auto simp: head_and_end_def writeHead_def)

lemma refused_answer:
  assumes refused: "refused_header (we_accepts en) h w" and op: "answers_with_head op"
    and w: "writer_inv w" "\<not> wr_finished w"
  shows "\<exists>u. writer_step en op w = (Throws, u) \<and> unsent w u"
proof -
  have h: "h \<in> set (wr_headers w)" "fst h \<noteq> ''content-length''" "fst h \<noteq> ''location''"
    and no: "\<forall>s hs cs. h \<in> set hs \<longrightarrow> \<not> we_accepts en s hs cs"
    using refused by (auto simp: refused_header_def)
  have kept: "h \<in> set (js_set k x m)" if "h \<in> set m" "fst h \<noteq> k" for k x m
    using js_set_keeps[of "fst h" "snd h" m k x] that by simp
  have claimed: "unsent w (finishing w)" "unsent w (header_default k v (finishing w))"
    "unsent w ((header_default k v (finishing w))\<lparr>wr_headers := hs\<rparr>)"
    "unsent w (finishing (w\<lparr>wr_statusCode := c, wr_headers := hs\<rparr>))" for k v c hs
    using w by (auto simp: unsent_def finishing_def unfinished_inv)
  have flushed: "flush (we_accepts en) ct b (finishing w) = (Throws, header_default ''content-type'' ct (finishing w))"
    "flushEmpty (we_accepts en) (finishing w) = (Throws, finishing w)" for ct b
    using h(1) no by (auto simp: flush_def flushEmpty_def finishing_def intro!: refused_head header_default_keeps)
  show ?thesis
  proof (cases op)
    case (WBody b ct)
    let ?u = "header_default ''content-type'' (nullish ct ''application/octet-stream'') (finishing w)"
    obtain x where b: "b = Some x" using op by (cases b) (simp_all add: WBody)
    have "h \<in> set (wr_headers ?u)" using h(1) by (simp add: header_default_keeps finishing_def)
    then have "head_and_end (we_accepts en) x
        (?u\<lparr>wr_headers := js_set ''content-length'' (decimal (length x)) (wr_headers ?u)\<rparr>)
      = (Throws, ?u\<lparr>wr_headers := js_set ''content-length'' (decimal (length x)) (wr_headers ?u)\<rparr>)"
      using kept h(2) no by (intro refused_head) auto
    then show ?thesis using w(2) claimed(3) by (simp add: WBody b flushBytes_def Let_def)
  next
    case (WRedirect url st)
    obtain c where c: "int_in 300 399 (nullish st (Fin 302)) = Some c" using op by (auto simp: WRedirect)
    let ?u = "finishing (w\<lparr>wr_statusCode := c, wr_headers := js_set ''location'' url (wr_headers w)\<rparr>)"
    have "head_and_end (we_accepts en) [] ?u = (Throws, ?u)"
      using kept[OF h(1,3)] no by (intro refused_head) (auto simp: finishing_def)
    then show ?thesis using w(2) claimed(4) by (simp add: WRedirect c flushEmpty_def)
  qed (use op w(2) flushed claimed in auto)
qed

lemma lacking_iterator:
  assumes op: "lacks_iterator op" and w: "writer_inv w" "\<not> wr_finished w"
  shows "\<exists>u. writer_step en op w = (Throws, u) \<and> unsent w u"
proof (cases op)
  case (WBodyStream l it env)
  then obtain n where "body_length l = Some n" "it" "se_no_iterator env" using op by auto
  then show ?thesis using w
    by (auto simp: WBodyStream sendSizedBody_def unsent_def finishing_def unfinished_inv sized_headers_def)
qed (use op in auto)

text \<open>Nothing a handler calls afterwards brings the answer back; only the client can still leave.\<close>

lemma unsent_stays:
  assumes "unsent w u"
  shows "writer_run en ops u =
    (False, if WSocketCloses \<in> set ops then u\<lparr>wr_wire := (wr_wire u)\<lparr>wi_destroyed := True\<rparr>\<rparr> else u)"
  using assms
proof (induction ops arbitrary: u w)
  case (Cons x xs)
  have fin: "wr_finished u" "wr_stream u = None" using Cons.prems by (simp_all add: unsent_def)
  show ?case
  proof (cases x)
    case WSocketCloses
    let ?u = "u\<lparr>wr_wire := (wr_wire u)\<lparr>wi_destroyed := True\<rparr>\<rparr>"
    have "socket_closes u = ?u" using fin by (cases u; cases "wr_wire u") (simp add: socket_closes_def onSocketClose_def)
    moreover have "unsent ?u ?u" using Cons.prems by (simp add: unsent_def)
    ultimately show ?thesis using Cons.IH[of ?u ?u] by (simp add: WSocketCloses)
  qed (use fin Cons.IH[OF Cons.prems] in \<open>simp_all add: stream_write_def stream_close_def stream_onClose_def\<close>)
qed simp

lemma writer_run_append:
  "writer_run en (xs @ ys) w = (case writer_run en xs w of (True, u) \<Rightarrow> (True, u) | (False, u) \<Rightarrow> writer_run en ys u)"
  by (induction xs arbitrary: w) (auto split: prod.splits op_result.splits)

text \<open>C40. An answer that fails to leave is taken for sent. Let a handler, after any calls that did not finish the
  response, answer while a header is set that Node refuses in every head, or hand \<^verbatim>\<open>bodyStream\<close> a
  source that gives no iterator. Then, whatever it calls afterwards and however it ends, nothing is ever
  sent: no head is out, the response is not ended, and its connection is destroyed only if the client
  closed it; yet the request counts as done, and its report gives the status of the response (when the
  handler returned) or 200 (when it failed or was rejected).\<close>

theorem refused_header_leaves_the_client_waiting:
  assumes before: "writer_run en ops new_writer = (False, w)" "\<not> wr_finished w"
    and op: "answers_with_head op \<and> refused_header (we_accepts en) h w \<or> lacks_iterator op"
  shows "\<exists>st u. serve_handler en (ops @ op # later) (Some e) = (Some (ReportNow st (wr_incomplete u)), u) \<and>
    wi_head (wr_wire u) = None \<and> \<not> wi_ended (wr_wire u) \<and>
    (wi_destroyed (wr_wire u) \<longleftrightarrow> wi_destroyed (wr_wire w) \<or> WSocketCloses \<in> set later) \<and>
    st = (if e = HandlerReturned then wr_statusCode u else 200)"
proof -
  have inv: "writer_inv w" using writer_run_inv[OF new_writer_inv(1) before(1)] by blast
  then obtain u where u: "writer_step en op w = (Throws, u)" "unsent w u"
    using op refused_answer[OF _ _ inv before(2)] lacking_iterator[OF _ inv before(2)] by blast
  define v where "v = (if WSocketCloses \<in> set later then u\<lparr>wr_wire := (wr_wire u)\<lparr>wi_destroyed := True\<rparr>\<rparr> else u)"
  have run: "writer_run en (ops @ op # later) new_writer = (False, v)"
    using unsent_stays[OF u(2)] by (simp add: writer_run_append before(1) u(1) v_def)
  have v: "wr_finished v" "\<not> wr_streaming v" using u(2) by (auto simp: v_def unsent_def)
  have wire: "wi_head (wr_wire v) = None" "\<not> wi_ended (wr_wire v)"
    "wi_destroyed (wr_wire v) \<longleftrightarrow> wi_destroyed (wr_wire w) \<or> WSocketCloses \<in> set later"
    using u(2) inv before(2) by (auto simp: v_def unsent_def unfinished_inv)
  have "after_handler en e v = (ReportNow (if e = HandlerReturned then wr_statusCode v else 200) (wr_incomplete v), v)"
    using v by (cases e) (simp_all add: after_handler_def report_response_def)
  then show ?thesis using run wire by (auto simp: serve_handler_def)
qed

text \<open>A check that refuses header values with a line feed, as Node does.\<close>

definition no_line_feeds :: head_check where
  "no_line_feeds s hs cs \<longleftrightarrow> list_all (\<lambda>(k, v). char_of (10 :: nat) \<notin> set v) hs"

lemma refused_header_leaves_the_client_waiting_witness:
  "\<exists>st u. serve_handler (demo_writer_env no_line_feeds)
      ([WHeader ''x-name'' [char_of (10 :: nat)]] @ WText (ascii ''ok'') # [WJson (Some [])]) (Some HandlerFailed)
    = (Some (ReportNow st (wr_incomplete u)), u) \<and> wi_head (wr_wire u) = None \<and> \<not> wi_ended (wr_wire u) \<and>
      \<not> wi_destroyed (wr_wire u) \<and> st = 200"
proof -
  let ?h = "(''x-name'', [char_of (10 :: nat)])"
  obtain w where run: "writer_run (demo_writer_env no_line_feeds) [WHeader ''x-name'' [char_of (10 :: nat)]] new_writer = (False, w)"
    and w: "\<not> wr_finished w" "wr_headers w = [?h]" "\<not> wi_destroyed (wr_wire w)"
  proof -
    have "List.map lower_char ''x-name'' = ''x-name''" by code_simp
    then show ?thesis using that by (simp add: new_writer_def new_wire_def del: list.map)
  qed
  have "refused_header (we_accepts (demo_writer_env no_line_feeds)) ?h w"
    by (force simp: refused_header_def w(2) demo_writer_env_def no_line_feeds_def list_all_iff)
  then have "answers_with_head (WText (ascii ''ok'')) \<and> refused_header (we_accepts (demo_writer_env no_line_feeds)) ?h w
      \<or> lacks_iterator (WText (ascii ''ok''))" by simp
  from refused_header_leaves_the_client_waiting[OF run w(1) this, of "[WJson (Some [])]" HandlerFailed]
  show ?thesis using w(3) by auto
qed

subsection \<open>What is reported\<close>

text \<open>When the handler returns, the status of the report is the status of the head that was sent, if one
  was: 500 when the handler gave no answer, else the status it set last before it finished.\<close>

theorem reported_status_is_the_sent_one:
  assumes run: "serve_handler en ops (Some HandlerReturned) = (Some r, w)" and sent: "wi_head (wr_wire w) = Some h"
    and report: "r = ReportNow st inc \<or> r = ReportOnClose st"
  shows "fst h = st"
proof -
  obtain u where u: "writer_run en ops new_writer = (False, u)" and q: "report_response (wr_statusCode u) u = (r, w)"
    using run report by (auto simp: serve_handler_def after_handler_def split: prod.splits bool.splits response_report.splits)
  have inv: "writer_inv u" using writer_run_inv[OF new_writer_inv(1) u] by blast
  have status: "wi_head (wr_wire u) = Some h \<Longrightarrow> fst h = wr_statusCode u"
    using writer_inv_head[OF inv] by (simp add: head_status_def)
  show ?thesis
  proof (cases "wr_streaming u \<or> wr_finished u")
    case True
    then have "w = u" "(\<exists>x. r = ReportNow (wr_statusCode u) x) \<or> r = ReportOnClose (wr_statusCode u)"
      using q by (auto simp: report_response_def split: if_splits)
    then show ?thesis using status sent report by auto
  next
    case False
    then have "w = (internal_error ''{\"error\":\"handler-did-not-respond\"}'' u)\<lparr>wr_finished := True\<rparr>" "r = ReportNow 500 (wr_incomplete u)"
      using q by (auto simp: report_response_def)
    then show ?thesis using sent report inv False
      by (auto simp: internal_error_def unfinished_inv wire_end_def wire_write_def implicit_head_def Let_def split: if_splits)
  qed
qed

lemma reported_status_is_the_sent_one_witness:
  "\<exists>w h. serve_handler (demo_writer_env (\<lambda>s h c. True)) [WStatus (Fin 404), WText (ascii ''a'')] (Some HandlerReturned)
      = (Some (ReportNow 404 False), w) \<and> wi_head (wr_wire w) = Some h \<and> fst h = 404"
proof -
  obtain w h where run: "serve_handler (demo_writer_env (\<lambda>s h c. True)) [WStatus (Fin 404), WText (ascii ''a'')] (Some HandlerReturned)
      = (Some (ReportNow 404 False), w)" and h: "wi_head (wr_wire w) = Some h"
    by (simp add: demo_writer_simps)
  have "fst h = 404" using reported_status_is_the_sent_one[OF run h, of 404 False] by simp
  then show ?thesis using run h by blast
qed

text \<open>A handler that fails after it answered is reported with the status 200, whatever was sent.\<close>

theorem late_failure_is_reported_as_200:
  assumes "writer_run en ops new_writer = (False, w)" "wr_finished w" "\<not> wr_streaming w" "e \<noteq> HandlerReturned"
  shows "serve_handler en ops (Some e) = (Some (ReportNow 200 (wr_incomplete w)), w)"
  using assms by (cases e) (simp_all add: serve_handler_def after_handler_def report_response_def)

lemma late_failure_is_reported_as_200_witness:
  "\<exists>w h. serve_handler (demo_writer_env (\<lambda>s h c. True)) [WStatus (Fin 404), WText (ascii ''a'')] (Some HandlerFailed)
      = (Some (ReportNow 200 False), w) \<and> wi_head (wr_wire w) = Some h \<and> fst h = 404"
proof -
  obtain w h where run: "writer_run (demo_writer_env (\<lambda>s h c. True)) [WStatus (Fin 404), WText (ascii ''a'')] new_writer = (False, w)"
    and w: "wr_finished w" "\<not> wr_streaming w" "wi_head (wr_wire w) = Some h" "fst h = 404" "\<not> wr_incomplete w"
    by (simp add: demo_writer_simps)
  have "serve_handler (demo_writer_env (\<lambda>s h c. True)) [WStatus (Fin 404), WText (ascii ''a'')] (Some HandlerFailed)
      = (Some (ReportNow 200 (wr_incomplete w)), w)"
    using late_failure_is_reported_as_200[OF run w(1,2), of HandlerFailed] by simp
  then show ?thesis using w(3-5) by metis
qed

subsection \<open>Close callbacks\<close>

text \<open>The callbacks a run registers on its stream, in order.\<close>

fun registered :: "writer_env \<Rightarrow> writer_op list \<Rightarrow> writer \<Rightarrow> nat list" where
  "registered en [] w = []"
| "registered en (x # xs) w =
     (let (r, u) = writer_step en x w; now = (case x of WStreamOnClose h \<Rightarrow> if wr_stream w = None then [] else [h] | _ \<Rightarrow> [])
      in if r = Waits then now else now @ registered en xs u)"

definition callbacks_inv :: "nat list \<Rightarrow> writer \<Rightarrow> bool" where
  "callbacks_inv hs w \<longleftrightarrow> wr_fired w @ wr_callbacks w = hs \<and> (wr_stream w \<noteq> Some False \<longrightarrow> wr_callbacks w = [])"

lemma head_and_end_stream:
  "head_and_end a b w = (r, w') \<Longrightarrow> wr_stream w' = wr_stream w \<and> wr_callbacks w' = wr_callbacks w \<and> wr_fired w' = wr_fired w"
  by (auto simp: head_and_end_def writeHead_def split: option.splits if_splits)

lemma adapter_op_callbacks:
  assumes step: "adapter_op en op w = (r, w')" and inv: "callbacks_inv hs w" "wr_stream w = None"
  shows "callbacks_inv hs w'"
proof (cases op)
  case (WBodyStream l it env)
  show ?thesis
  proof (cases "body_length l = None \<or> \<not> it")
    case False
    then obtain n where n: "body_length l = Some n" "it" by auto
    obtain q x where send: "sendSizedBody (we_accepts en) (we_idle en) n env (finishing w) = (q, x)" by fastforce
    have "wr_stream x = wr_stream w" "wr_callbacks x = wr_callbacks w" "wr_fired x = wr_fired w"
      using sendSizedBody_keeps[OF send] by (simp_all add: body_keeps_def finishing_def)
    moreover have "w' = x" using step n send by (cases q) (simp_all add: WBodyStream)
    ultimately show ?thesis using inv by (auto simp: callbacks_inv_def)
  qed (use step inv in \<open>auto simp: WBodyStream split: option.splits\<close>)
next
  case (WStream ct)
  then show ?thesis using step inv
    by (auto simp: openStream_def Let_def writeHead_def callbacks_inv_def split: option.splits if_splits)
qed (use step inv in \<open>auto simp: flush_def flushBytes_def flushEmpty_def finishing_def add_cookie_header_def callbacks_inv_def Let_def
    dest!: head_and_end_stream split: option.splits sum.splits\<close>)

lemma stream_ops_callbacks:
  assumes "callbacks_inv hs w"
  shows "callbacks_inv hs (stream_write c f w)" "callbacks_inv hs (stream_close w)" "callbacks_inv hs (socket_closes w)"
    "callbacks_inv (if wr_stream w = None then hs else hs @ [h]) (stream_onClose h w)"
  using assms
  by (auto simp: callbacks_inv_def stream_write_def stream_close_def socket_closes_def onSocketClose_def fireOnClose_def
      stream_onClose_def split: option.splits bool.splits)

lemma writer_run_callbacks:
  assumes "writer_inv w" "callbacks_inv hs w" "writer_run en ops w = (b, w')"
  shows "callbacks_inv (hs @ registered en ops w) w'"
  using assms
proof (induction ops arbitrary: w hs)
  case (Cons x xs)
  obtain r u where step: "writer_step en x w = (r, u)" by fastforce
  define now where "now = (case x of WStreamOnClose h \<Rightarrow> if wr_stream w = None then [] else [h] | _ \<Rightarrow> [])"
  have u: "callbacks_inv (hs @ now) u"
  proof (cases "wr_finished w")
    case True
    then show ?thesis using step stream_ops_callbacks[OF Cons.prems(2)] Cons.prems(2)
      by (cases x) (auto simp: now_def split: if_splits)
  next
    case False
    then have "wr_stream w = None" using Cons.prems(1) by (simp add: unfinished_inv)
    then show ?thesis using step stream_ops_callbacks[OF Cons.prems(2)] adapter_op_callbacks[OF _ Cons.prems(2), of en x r u] False
      by (cases x) (auto simp: now_def)
  qed
  have inv: "writer_inv u" using writer_step_inv[OF Cons.prems(1) step] by blast
  show ?case
  proof (cases "r = Waits")
    case True
    then show ?thesis using u Cons.prems(3) by (simp add: step now_def)
  next
    case False
    then have "writer_run en xs u = (b, w')" using Cons.prems(3) by (cases r) (simp_all add: step)
    from Cons.IH[OF inv u this] show ?thesis using False by (simp add: step now_def)
  qed
qed simp

text \<open>Close callbacks run in the order of their registration, each at most once, and none is left
  waiting once the stream is closed by either side.\<close>

theorem close_callbacks_run_once:
  assumes "writer_run en ops new_writer = (b, w)"
  shows "\<exists>waiting. registered en ops new_writer = wr_fired w @ waiting \<and> (wr_stream w = Some True \<longrightarrow> waiting = [])"
proof -
  have "callbacks_inv [] new_writer" by (simp add: callbacks_inv_def new_writer_def)
  from writer_run_callbacks[OF new_writer_inv(1) this assms] show ?thesis
    by (intro exI[of _ "wr_callbacks w"]) (simp add: callbacks_inv_def)
qed

lemma close_callbacks_run_once_witness:
  "\<exists>(w :: writer) waiting. registered (demo_writer_env (\<lambda>s h c. True)) [WStream None, WStreamOnClose 1, WStreamOnClose 2, WSocketCloses, WStreamOnClose 3] new_writer
      = [1, 2, 3] \<and> [1, 2, 3] = wr_fired w @ waiting"
proof -
  let ?en = "demo_writer_env (\<lambda>s h c. True)" and ?ops = "[WStream None, WStreamOnClose 1, WStreamOnClose 2, WSocketCloses, WStreamOnClose 3]"
  obtain s where s: "writer_step ?en (WStream None) new_writer = (Returns, s)"
    and open_stream: "wr_stream s = Some False"
    by (simp add: demo_writer_simps openStream_def)
  have reg: "registered ?en ?ops new_writer = [1, 2, 3]"
  proof -
    have on: "registered ?en (WStreamOnClose h # xs) u = h # registered ?en xs (stream_onClose h u)" if "wr_stream u \<noteq> None" for h xs u
      using that by simp
    have closes: "registered ?en (WSocketCloses # xs) u = registered ?en xs (socket_closes u)" for xs u by simp
    have kept: "wr_stream u \<noteq> None \<Longrightarrow> wr_stream (stream_onClose h u) \<noteq> None" "wr_stream u \<noteq> None \<Longrightarrow> wr_stream (socket_closes u) \<noteq> None" for h u
      by (auto simp: stream_onClose_def socket_closes_def onSocketClose_def fireOnClose_def split: option.splits bool.splits)
    have "registered ?en (WStream None # xs) new_writer = registered ?en xs s" for xs
      unfolding registered.simps(2) s by simp
    moreover have n: "wr_stream s \<noteq> None" using open_stream by simp
    ultimately show ?thesis
      by (simp only: on[OF n] on[OF kept(1)[OF n]] closes on[OF kept(2)[OF kept(1)[OF kept(1)[OF n]]]] registered.simps(1))
  qed
  obtain b w where run: "writer_run ?en ?ops new_writer = (b, w)" by (rule prod.exhaust)
  obtain waiting where "registered ?en ?ops new_writer = wr_fired w @ waiting" using close_callbacks_run_once[OF run] by blast
  then have "[1, 2, 3] = wr_fired w @ waiting" unfolding reg .
  then show ?thesis using reg by blast
qed

text \<open>A stream opened after the client went away is never told: the socket's close came before the
  stream listened for it, and a later event does not come.\<close>

theorem stream_after_disconnect_is_never_closed:
  "\<exists>w. writer_run (demo_writer_env (\<lambda>s h c. True)) ([WSocketCloses, WStream None, WStreamOnClose 1] @ replicate n WSocketCloses) new_writer
      = (False, w) \<and> wi_destroyed (wr_wire w) \<and> wr_stream w = Some False \<and> wr_fired w = []"
proof -
  have same: "writer_run en (replicate n WSocketCloses) u = (False, u)" if "wi_destroyed (wr_wire u)" for u en
    using that by (induction n) (simp_all add: socket_closes_def)
  show ?thesis
    by (simp add: same demo_writer_simps openStream_def stream_onClose_def socket_closes_def onSocketClose_def)
qed

end
