(* ===== verification/Http_Server.thy ===== *)
theory Http_Server
  imports Http_Guard Http_Body Http_Response
begin

text \<open>
  A request from its first byte to its report: \<^verbatim>\<open>handle\<close> of
  \<^verbatim>\<open>packages/http-server/src/plugin.ts\<close>, composed of the dispatch of \<^theory_text>\<open>Http_Guard\<close>, the body
  of \<^theory_text>\<open>Http_Body\<close> and the response of \<^theory_text>\<open>Http_Response\<close>. A handler is a function from what it is
  given to its run: the calls it makes on its response and how it ends, \<open>None\<close> when its promise never
  settles.
\<close>

section \<open>The whole request\<close>
















section \<open>Answers\<close>












end
