(* ===== verification/Usage_Store.thy ===== *)
theory Usage_Store
  imports Ax_Prelude
begin

text \<open>
  The usage ledger, after \<^verbatim>\<open>packages/usage-limits/src/store.ts\<close>: spend and turns per user and
  minute, the turns that were admitted and settled, suspensions and per-user limits. A table is an
  association list with the columns of its primary key; one statement or transaction is atomic (the
  code takes an advisory lock per user, so only the fleet total of \<^verbatim>\<open>admit\<close> could differ between
  users). Times are milliseconds. Amounts are the whole numbers the service passes; the tokens of a
  bucket and the admin listing \<^verbatim>\<open>summary\<close> are not modelled, no limit depends on them.
\<close>

section \<open>Tables\<close>

definition MINUTE_MS :: int where
  "MINUTE_MS = 60000"

definition HOUR_MS :: int where
  "HOUR_MS = 60 * MINUTE_MS"

definition DAY_MS :: int where
  "DAY_MS = 24 * HOUR_MS"

definition PROVIDER_CEILING_MULTIPLE :: rat where
  "PROVIDER_CEILING_MULTIPLE = 2"

definition PRUNE_RETENTION_MS :: int where
  "PRUNE_RETENTION_MS = 8 * 24 * 60 * 60 * 1000"

definition floorToMinute :: "int \<Rightarrow> int" where
  "floorToMinute ms = ms div MINUTE_MS * MINUTE_MS"

record bucket =
  bk_turns :: nat
  bk_cost :: nat
  bk_provider :: nat
  bk_helper :: nat

record turn_row =
  tu_admitted_at :: int
  tu_settled :: bool

record suspension =
  su_at :: int
  su_by :: string
  su_note :: "string option"

record user_limits =
  ul_dailySpendUsd :: "rat option"
  ul_turnsPerHour :: "nat option"

record 'b usage_tables =
  ut_buckets :: 'b
  ut_turns :: "(string \<times> string, turn_row) jsmap"
  ut_suspensions :: "(string, suspension) jsmap"
  ut_userLimits :: "(string, user_limits) jsmap"

type_synonym buckets = "(string \<times> int, bucket) jsmap"

type_synonym usage_db = "buckets usage_tables"

record usage_limits =
  lm_dailySpendUsd :: rat
  lm_fleetDailySpendUsd :: rat
  lm_turnsPerHour :: nat
  lm_assumedTurnCostUsd :: rat

text \<open>\<^verbatim>\<open>Math.round(usd * 1_000_000)\<close>.\<close>

definition micros :: "rat \<Rightarrow> int" where
  "micros usd = \<lfloor>usd * 1000000 + 1/2\<rfloor>"

section \<open>Buckets\<close>

definition bucket_add :: "bucket \<Rightarrow> bucket \<Rightarrow> bucket" where
  "bucket_add a b = \<lparr>bk_turns = bk_turns a + bk_turns b, bk_cost = bk_cost a + bk_cost b,
     bk_provider = bk_provider a + bk_provider b, bk_helper = bk_helper a + bk_helper b\<rparr>"

definition addToBucket :: "string \<Rightarrow> int \<Rightarrow> bucket \<Rightarrow> buckets \<Rightarrow> buckets" where
  "addToBucket u now delta bs =
     (let k = (u, floorToMinute now) in
      js_set k (case js_get bs k of None \<Rightarrow> delta | Some b \<Rightarrow> bucket_add b delta) bs)"

definition turn_delta :: bucket where
  "turn_delta = \<lparr>bk_turns = 1, bk_cost = 0, bk_provider = 0, bk_helper = 0\<rparr>"

definition cost_delta :: "nat \<Rightarrow> bucket" where
  "cost_delta n = \<lparr>bk_turns = 0, bk_cost = n, bk_provider = 0, bk_helper = 0\<rparr>"

definition provider_delta :: "nat \<Rightarrow> bucket" where
  "provider_delta n = \<lparr>bk_turns = 0, bk_cost = 0, bk_provider = n, bk_helper = 0\<rparr>"

definition helper_delta :: "nat \<Rightarrow> bucket" where
  "helper_delta n = \<lparr>bk_turns = 0, bk_cost = 0, bk_provider = 0, bk_helper = n\<rparr>"

text \<open>\<^verbatim>\<open>SUM(column) ... WHERE user_id = u AND bucket_start >= start\<close>.\<close>

definition sum_since :: "(bucket \<Rightarrow> nat) \<Rightarrow> string \<Rightarrow> int \<Rightarrow> buckets \<Rightarrow> nat" where
  "sum_since f u start bs = sum_list [f b. ((v, s), b) \<leftarrow> bs, v = u \<and> start \<le> s]"

definition users_since :: "int \<Rightarrow> buckets \<Rightarrow> string list" where
  "users_since start bs = remdups [v. ((v, s), b) \<leftarrow> bs, start \<le> s]"

text \<open>\<^verbatim>\<open>SPEND_MICROS_SQL\<close>: the larger of what the runner reported and what the proxy measured, and the
  helper calls on top.\<close>

definition SPEND_MICROS :: "((bucket \<Rightarrow> nat) \<Rightarrow> nat) \<Rightarrow> nat" where
  "SPEND_MICROS tally = max (tally bk_cost) (tally bk_provider) + tally bk_helper"

definition user_spend :: "string \<Rightarrow> int \<Rightarrow> buckets \<Rightarrow> nat" where
  "user_spend u start bs = SPEND_MICROS (\<lambda>f. sum_since f u start bs)"

definition fleetSpend :: "int \<Rightarrow> buckets \<Rightarrow> nat" where
  "fleetSpend now bs =
     (let start = floorToMinute (now - DAY_MS) in
      sum_list (List.map (\<lambda>u. user_spend u start bs) (users_since start bs)))"

section \<open>Operations\<close>

datatype refusal = UsageSuspended | UsageLimitDaily | UsageLimitRate | UsageLimitFleet

text \<open>The checks of \<^verbatim>\<open>admit\<close> in their order; and those of \<^verbatim>\<open>providerStatus\<close>.\<close>

definition admit_check :: "usage_limits \<Rightarrow> bool \<Rightarrow> nat \<Rightarrow> nat \<Rightarrow> nat \<Rightarrow> refusal option" where
  "admit_check lm suspended spend turnsHour fleet =
     (if suspended then Some UsageSuspended
      else if int spend \<ge> micros (lm_dailySpendUsd lm) then Some UsageLimitDaily
      else if turnsHour \<ge> lm_turnsPerHour lm then Some UsageLimitRate
      else if int fleet \<ge> micros (lm_fleetDailySpendUsd lm) then Some UsageLimitFleet
      else None)"

definition provider_check :: "usage_limits \<Rightarrow> bool \<Rightarrow> nat \<Rightarrow> nat \<Rightarrow> refusal option" where
  "provider_check lm suspended spend fleet =
     (if suspended then Some UsageSuspended
      else if int spend \<ge> micros (lm_dailySpendUsd lm * PROVIDER_CEILING_MULTIPLE) then Some UsageLimitDaily
      else if int fleet \<ge> micros (lm_fleetDailySpendUsd lm) then Some UsageLimitFleet
      else None)"

definition getSuspension :: "string \<Rightarrow> 'b usage_tables \<Rightarrow> suspension option" where
  "getSuspension u db = js_get (ut_suspensions db) u"

definition admit_turn :: "string \<Rightarrow> usage_limits \<Rightarrow> int \<Rightarrow> string option \<Rightarrow> usage_db \<Rightarrow> refusal option \<times> usage_db" where
  "admit_turn u lm now reqId db =
     (case admit_check lm (getSuspension u db \<noteq> None) (user_spend u (floorToMinute (now - DAY_MS)) (ut_buckets db))
            (sum_since bk_turns u (floorToMinute (now - HOUR_MS)) (ut_buckets db)) (fleetSpend now (ut_buckets db)) of
        Some r \<Rightarrow> (Some r, db)
      | None \<Rightarrow>
          if (case reqId of None \<Rightarrow> False | Some r \<Rightarrow> js_get (ut_turns db) (u, r) \<noteq> None) then (None, db)
          else (None, db\<lparr>ut_buckets := addToBucket u now turn_delta (ut_buckets db),
            ut_turns := (case reqId of None \<Rightarrow> ut_turns db
              | Some r \<Rightarrow> js_set (u, r) \<lparr>tu_admitted_at = now, tu_settled = False\<rparr> (ut_turns db))\<rparr>))"

text \<open>\<^verbatim>\<open>settleTurn\<close> up to the claim: the turns afterwards, and whether this call claimed the turn.\<close>

definition claim_turn :: "string \<Rightarrow> string \<Rightarrow> int \<Rightarrow> bool \<Rightarrow> (string \<times> string, turn_row) jsmap \<Rightarrow> bool \<times> (string \<times> string, turn_row) jsmap" where
  "claim_turn u r now allowUnadmitted ts =
     (let ts = (if allowUnadmitted \<and> js_get ts (u, r) = None
                then js_set (u, r) \<lparr>tu_admitted_at = now, tu_settled = False\<rparr> ts else ts)
      in case js_get ts (u, r) of
           None \<Rightarrow> (False, ts)
         | Some t \<Rightarrow> if tu_settled t then (False, ts) else (True, js_set (u, r) (t\<lparr>tu_settled := True\<rparr>) ts))"

definition settleTurn :: "string \<Rightarrow> string \<Rightarrow> nat \<Rightarrow> int \<Rightarrow> bool \<Rightarrow> usage_db \<Rightarrow> usage_db" where
  "settleTurn u r cost now allowUnadmitted db =
     (let (claimed, ts) = claim_turn u r now allowUnadmitted (ut_turns db); db = db\<lparr>ut_turns := ts\<rparr> in
      if claimed then db\<lparr>ut_buckets := addToBucket u now (cost_delta cost) (ut_buckets db)\<rparr> else db)"

definition recordHelper :: "string \<Rightarrow> nat \<Rightarrow> int \<Rightarrow> usage_db \<Rightarrow> usage_db" where
  "recordHelper u cost now db = db\<lparr>ut_buckets := addToBucket u now (helper_delta cost) (ut_buckets db)\<rparr>"

definition recordProvider :: "string \<Rightarrow> nat \<Rightarrow> int \<Rightarrow> usage_db \<Rightarrow> usage_db" where
  "recordProvider u cost now db = db\<lparr>ut_buckets := addToBucket u now (provider_delta cost) (ut_buckets db)\<rparr>"

definition providerStatus :: "string \<Rightarrow> usage_limits \<Rightarrow> int \<Rightarrow> usage_db \<Rightarrow> refusal option" where
  "providerStatus u lm now db =
     provider_check lm (getSuspension u db \<noteq> None) (user_spend u (floorToMinute (now - DAY_MS)) (ut_buckets db))
       (fleetSpend now (ut_buckets db))"

record user_summary =
  sm_spendMicros :: nat
  sm_turnsLastHour :: nat
  sm_turnsLast24h :: nat
  sm_suspended :: "suspension option"

definition userSummary :: "string \<Rightarrow> int \<Rightarrow> usage_db \<Rightarrow> user_summary" where
  "userSummary u now db =
     (let day = floorToMinute (now - DAY_MS) in
      \<lparr>sm_spendMicros = user_spend u day (ut_buckets db),
       sm_turnsLastHour = sum_since bk_turns u (max day (floorToMinute (now - HOUR_MS))) (ut_buckets db),
       sm_turnsLast24h = sum_since bk_turns u day (ut_buckets db),
       sm_suspended = getSuspension u db\<rparr>)"

definition suspend_user :: "string \<Rightarrow> string \<Rightarrow> string option \<Rightarrow> int \<Rightarrow> 'b usage_tables \<Rightarrow> 'b usage_tables" where
  "suspend_user u by_user note_text now db =
     db\<lparr>ut_suspensions := js_set u \<lparr>su_at = now, su_by = by_user, su_note = note_text\<rparr> (ut_suspensions db)\<rparr>"

definition resume_user :: "string \<Rightarrow> 'b usage_tables \<Rightarrow> 'b usage_tables" where
  "resume_user u db = db\<lparr>ut_suspensions := js_delete u (ut_suspensions db)\<rparr>"

definition setUserLimits :: "string \<Rightarrow> user_limits option \<Rightarrow> 'b usage_tables \<Rightarrow> 'b usage_tables" where
  "setUserLimits u overrides db =
     db\<lparr>ut_userLimits := (case overrides of None \<Rightarrow> js_delete u (ut_userLimits db) | Some l \<Rightarrow> js_set u l (ut_userLimits db))\<rparr>"

definition getUserLimits :: "string \<Rightarrow> 'b usage_tables \<Rightarrow> user_limits option" where
  "getUserLimits u db = js_get (ut_userLimits db) u"

definition prune_turns :: "int \<Rightarrow> (string \<times> string, turn_row) jsmap \<Rightarrow> (string \<times> string, turn_row) jsmap" where
  "prune_turns olderThan ts = [(k, t) \<leftarrow> ts. olderThan \<le> tu_admitted_at t]"

definition prune_store :: "int \<Rightarrow> usage_db \<Rightarrow> usage_db" where
  "prune_store olderThan db =
     db\<lparr>ut_turns := prune_turns olderThan (ut_turns db), ut_buckets := [((u, s), b) \<leftarrow> ut_buckets db. olderThan \<le> s]\<rparr>"

text \<open>The sweep of the plugin.\<close>

definition prune_usage :: "int \<Rightarrow> usage_db \<Rightarrow> usage_db" where
  "prune_usage now db = prune_store (now - PRUNE_RETENTION_MS) db"

definition empty_usage :: "'b \<Rightarrow> 'b usage_tables" where
  "empty_usage b = \<lparr>ut_buckets = b, ut_turns = [], ut_suspensions = [], ut_userLimits = []\<rparr>"

section \<open>The buckets as a log\<close>

text \<open>
  The contract of the buckets: they answer like the list of everything that was added, with its time,
  for the windows the code asks for, which start at full minutes.
\<close>

type_synonym usage_log = "(string \<times> int \<times> bucket) list"

definition log_sum :: "(bucket \<Rightarrow> nat) \<Rightarrow> string \<Rightarrow> int \<Rightarrow> usage_log \<Rightarrow> nat" where
  "log_sum f u start lg = sum_list [f d. (v, t, d) \<leftarrow> lg, v = u \<and> start \<le> floorToMinute t]"

definition log_users :: "int \<Rightarrow> usage_log \<Rightarrow> string list" where
  "log_users start lg = remdups [v. (v, t, d) \<leftarrow> lg, start \<le> floorToMinute t]"

definition log_spend :: "string \<Rightarrow> int \<Rightarrow> usage_log \<Rightarrow> nat" where
  "log_spend u start lg = max (log_sum bk_cost u start lg) (log_sum bk_provider u start lg) + log_sum bk_helper u start lg"

definition log_fleet :: "int \<Rightarrow> usage_log \<Rightarrow> nat" where
  "log_fleet now lg =
     (let start = floorToMinute (now - DAY_MS) in sum_list (List.map (\<lambda>u. log_spend u start lg) (log_users start lg)))"

locale usage_meter =
  fixes add :: "string \<Rightarrow> int \<Rightarrow> bucket \<Rightarrow> 'b \<Rightarrow> 'b"
    and drop_before :: "int \<Rightarrow> 'b \<Rightarrow> 'b"
    and none :: 'b
    and tally :: "(bucket \<Rightarrow> nat) \<Rightarrow> string \<Rightarrow> int \<Rightarrow> 'b \<Rightarrow> nat"
    and users :: "int \<Rightarrow> 'b \<Rightarrow> string list"
    and fields :: "(bucket \<Rightarrow> nat) set"
    and valid :: "'b \<Rightarrow> bool"
  assumes valid_none: "valid none"
    and valid_add: "valid b \<Longrightarrow> valid (add u t d b)"
    and valid_drop: "valid b \<Longrightarrow> valid (drop_before c b)"
    and tally_none: "tally f u s none = 0"
    and tally_add: "valid b \<Longrightarrow> f \<in> fields \<Longrightarrow>
      tally f u s (add v t d b) = tally f u s b + (if v = u \<and> s \<le> floorToMinute t then f d else 0)"
    and tally_drop: "tally f u s (drop_before c b) = tally f u (max s c) b"
    and users_distinct: "distinct (users s b)"
    and users_none: "users s none = []"
    and users_add: "set (users s (add v t d b)) = (if s \<le> floorToMinute t then {v} else {}) \<union> set (users s b)"
    and users_drop: "set (users s (drop_before c b)) = set (users (max s c) b)"
begin

text \<open>The same history gives the same answers as the log.\<close>

definition agrees :: "'b \<Rightarrow> usage_log \<Rightarrow> bool" where
  "agrees b lg \<longleftrightarrow> valid b \<and> (\<forall>f \<in> fields. \<forall>u s. tally f u s b = log_sum f u s lg) \<and>
     (\<forall>s. set (users s b) = set (log_users s lg))"

lemma agrees_none: "agrees none []"
  by (simp add: agrees_def valid_none tally_none users_none log_sum_def log_users_def)

lemma agrees_add: "agrees b lg \<Longrightarrow> agrees (add v t d b) (lg @ [(v, t, d)])"
  by (auto simp: agrees_def valid_add tally_add users_add log_sum_def log_users_def split: if_splits)

lemma agrees_drop: "agrees b lg \<Longrightarrow> agrees (drop_before c b) [e \<leftarrow> lg. c \<le> floorToMinute (fst (snd e))]"
proof -
  assume b: "agrees b lg"
  have "log_sum f u s [e \<leftarrow> lg. c \<le> floorToMinute (fst (snd e))] = log_sum f u (max s c) lg" for f u s
    by (induction lg) (auto simp: log_sum_def)
  moreover have "set (log_users s [e \<leftarrow> lg. c \<le> floorToMinute (fst (snd e))]) = set (log_users (max s c) lg)" for s
    by (auto simp: log_users_def)
  ultimately show ?thesis using b by (simp add: agrees_def valid_drop tally_drop users_drop)
qed

lemma agrees_spend:
  assumes "agrees b lg" "{bk_cost, bk_provider, bk_helper} \<subseteq> fields"
  shows "SPEND_MICROS (\<lambda>f. tally f u s b) = log_spend u s lg"
  using assms by (simp add: agrees_def SPEND_MICROS_def log_spend_def)

lemma agrees_fleet:
  assumes "agrees b lg" "{bk_cost, bk_provider, bk_helper} \<subseteq> fields"
  shows "sum_list (List.map (\<lambda>u. SPEND_MICROS (\<lambda>f. tally f u s b)) (users s b)) =
    sum_list (List.map (\<lambda>u. log_spend u s lg) (log_users s lg))"
proof -
  have "set (users s b) = set (log_users s lg)" using assms(1) by (simp add: agrees_def)
  moreover have "distinct (log_users s lg)" by (simp add: log_users_def)
  ultimately show ?thesis
    by (simp add: agrees_spend[OF assms] sum_list_distinct_conv_sum_set users_distinct)
qed

end

lemma sum_since_upd:
  assumes "distinct (List.map fst bs)"
  shows "sum_since f u s (js_set (v, t) b bs) + (if v = u \<and> s \<le> t then (case js_get bs (v, t) of None \<Rightarrow> 0 | Some x \<Rightarrow> f x) else 0)
    = sum_since f u s bs + (if v = u \<and> s \<le> t then f b else 0)"
  using assms
proof (induction bs)
  case (Cons x bs)
  obtain k y where x: "x = (k, y)" by fastforce
  show ?case
  proof (cases "k = (v, t)")
    case True
    have "map_of bs (v, t) = None" using Cons.prems by (auto simp: x True map_of_eq_None_iff)
    then show ?thesis by (auto simp: x True sum_since_def)
  next
    case False
    then show ?thesis using Cons.IH Cons.prems by (auto simp: x sum_since_def split: prod.splits option.splits)
  qed
qed (auto simp: sum_since_def)

interpretation um: usage_meter addToBucket "\<lambda>c bs. [((u, s), b) \<leftarrow> bs. c \<le> s]" "[]" sum_since users_since
    "{bk_turns, bk_cost, bk_provider, bk_helper}" js_wf
proof (unfold_locales, goal_cases)
  case (2 b u t d)
  then show ?case by (auto simp: addToBucket_def Let_def js_keys_set map_of_eq_None_iff)
next
  case (3 b c)
  then show ?case by (auto simp: distinct_map filter_map intro: inj_on_subset)
next
  case (5 b f u s v t d)
  have add: "f (bucket_add x y) = f x + f y" for x y using 5(2) by (auto simp: bucket_add_def)
  show ?case using sum_since_upd[of b f u s v "floorToMinute t" "case js_get b (v, floorToMinute t) of None \<Rightarrow> d | Some x \<Rightarrow> bucket_add x d"] 5(1)
    by (auto simp: addToBucket_def Let_def add split: option.splits if_splits)
next
  case (6 f u s c b)
  show ?case by (induction b) (auto simp: sum_since_def)
next
  case (9 s v t d b)
  have "set (users_since s b') = {u. \<exists>m. s \<le> m \<and> js_get b' (u, m) \<noteq> None}" for b'
    by (auto simp: users_since_def map_of_eq_None_iff image_iff) (metis fst_conv)+
  moreover have "js_get (addToBucket v t d b) (u, m) \<noteq> None \<longleftrightarrow> u = v \<and> m = floorToMinute t \<or> js_get b (u, m) \<noteq> None" for u m
    by (auto simp: addToBucket_def Let_def)
  ultimately show ?case by (simp only:) auto
next
  case (10 s c b)
  show ?case by (auto simp: users_since_def)
qed (simp_all add: sum_since_def users_since_def)

section \<open>The store as a log\<close>

text \<open>
  The contract of the whole store, written without its tables: the log of what was charged, what is known
  of a turn (when it was admitted and whether it was charged), who is suspended and whose limits differ.
\<close>

record usage_history =
  hy_log :: usage_log
  hy_turns :: "string \<times> string \<Rightarrow> (int \<times> bool) option"
  hy_suspended :: "string \<Rightarrow> suspension option"
  hy_limits :: "string \<Rightarrow> user_limits option"

definition no_history :: usage_history where
  "no_history = \<lparr>hy_log = [], hy_turns = Map.empty, hy_suspended = Map.empty, hy_limits = Map.empty\<rparr>"

text \<open>A turn, a settled cost, a call the proxy measured, a helper's call.\<close>

definition charge :: "string \<Rightarrow> int \<Rightarrow> nat \<Rightarrow> nat \<Rightarrow> nat \<Rightarrow> nat \<Rightarrow> usage_history \<Rightarrow> usage_history" where
  "charge u t turns cost provider helper h =
     h\<lparr>hy_log := hy_log h @ [(u, t, \<lparr>bk_turns = turns, bk_cost = cost, bk_provider = provider, bk_helper = helper\<rparr>)]\<rparr>"

text \<open>The first reason that applies.\<close>

fun first_reason :: "(bool \<times> refusal) list \<Rightarrow> refusal option" where
  "first_reason [] = None"
| "first_reason ((applies, r) # rs) = (if applies then Some r else first_reason rs)"

definition log_over :: "string \<Rightarrow> rat \<Rightarrow> int \<Rightarrow> usage_history \<Rightarrow> bool" where
  "log_over u usd now h \<longleftrightarrow> micros usd \<le> int (log_spend u (floorToMinute (now - DAY_MS)) (hy_log h))"

definition log_fleet_over :: "rat \<Rightarrow> int \<Rightarrow> usage_history \<Rightarrow> bool" where
  "log_fleet_over usd now h \<longleftrightarrow> micros usd \<le> int (log_fleet now (hy_log h))"

definition log_admit :: "string \<Rightarrow> usage_limits \<Rightarrow> int \<Rightarrow> string option \<Rightarrow> usage_history \<Rightarrow> refusal option \<times> usage_history" where
  "log_admit u lm now reqId h =
     (case first_reason
         [(hy_suspended h u \<noteq> None, UsageSuspended),
          (log_over u (lm_dailySpendUsd lm) now h, UsageLimitDaily),
          (lm_turnsPerHour lm \<le> log_sum bk_turns u (floorToMinute (now - HOUR_MS)) (hy_log h), UsageLimitRate),
          (log_fleet_over (lm_fleetDailySpendUsd lm) now h, UsageLimitFleet)] of
        Some r \<Rightarrow> (Some r, h)
      | None \<Rightarrow>
          (case reqId of
             None \<Rightarrow> (None, charge u now 1 0 0 0 h)
           | Some r \<Rightarrow>
               if hy_turns h (u, r) \<noteq> None then (None, h)
               else (None, charge u now 1 0 0 0 (h\<lparr>hy_turns := (hy_turns h)((u, r) \<mapsto> (now, False))\<rparr>))))"

definition log_status :: "string \<Rightarrow> usage_limits \<Rightarrow> int \<Rightarrow> usage_history \<Rightarrow> refusal option" where
  "log_status u lm now h =
     first_reason
       [(hy_suspended h u \<noteq> None, UsageSuspended),
        (log_over u (2 * lm_dailySpendUsd lm) now h, UsageLimitDaily),
        (log_fleet_over (lm_fleetDailySpendUsd lm) now h, UsageLimitFleet)]"

text \<open>A settlement is charged when its turn is known and not charged yet, or is unknown and needs no
  admission.\<close>

definition log_settle :: "string \<Rightarrow> string \<Rightarrow> nat \<Rightarrow> int \<Rightarrow> bool \<Rightarrow> usage_history \<Rightarrow> usage_history" where
  "log_settle u r cost now allowUnadmitted h =
     (let charged_at = (\<lambda>t. charge u now 0 cost 0 0 (h\<lparr>hy_turns := (hy_turns h)((u, r) \<mapsto> (t, True))\<rparr>)) in
      case hy_turns h (u, r) of
        Some (t, False) \<Rightarrow> charged_at t
      | Some (t, True) \<Rightarrow> h
      | None \<Rightarrow> if allowUnadmitted then charged_at now else h)"

definition log_forget :: "int \<Rightarrow> usage_history \<Rightarrow> usage_history" where
  "log_forget cutoff h =
     h\<lparr>hy_log := [e \<leftarrow> hy_log h. cutoff \<le> floorToMinute (fst (snd e))],
       hy_turns := (\<lambda>k. case hy_turns h k of Some (t, c) \<Rightarrow> if cutoff \<le> t then Some (t, c) else None | None \<Rightarrow> None)\<rparr>"

datatype usage_op =
    AdmitOp string usage_limits int "string option"
  | SettleOp string string nat int bool
  | HelperOp string nat int
  | ProviderOp string nat int
  | SuspendOp string string "string option" int
  | ResumeOp string
  | SetLimitsOp string "user_limits option"
  | PruneOp int
  | StatusOp string usage_limits int
  | SummaryOp string int
  | LimitsOp string

datatype usage_answer = Decision "refusal option" | Summary user_summary | Overrides "user_limits option" | Done

fun usage_step :: "usage_op \<Rightarrow> usage_db \<Rightarrow> usage_answer \<times> usage_db" where
  "usage_step (AdmitOp u lm now r) db = (case admit_turn u lm now r db of (d, db) \<Rightarrow> (Decision d, db))"
| "usage_step (SettleOp u r cost now allow) db = (Done, settleTurn u r cost now allow db)"
| "usage_step (HelperOp u cost now) db = (Done, recordHelper u cost now db)"
| "usage_step (ProviderOp u cost now) db = (Done, recordProvider u cost now db)"
| "usage_step (SuspendOp u b note_text now) db = (Done, suspend_user u b note_text now db)"
| "usage_step (ResumeOp u) db = (Done, resume_user u db)"
| "usage_step (SetLimitsOp u l) db = (Done, setUserLimits u l db)"
| "usage_step (PruneOp now) db = (Done, prune_usage now db)"
| "usage_step (StatusOp u lm now) db = (Decision (providerStatus u lm now db), db)"
| "usage_step (SummaryOp u now) db = (Summary (userSummary u now db), db)"
| "usage_step (LimitsOp u) db = (Overrides (getUserLimits u db), db)"

fun history_step :: "usage_op \<Rightarrow> usage_history \<Rightarrow> usage_answer \<times> usage_history" where
  "history_step (AdmitOp u lm now r) h = (case log_admit u lm now r h of (d, h) \<Rightarrow> (Decision d, h))"
| "history_step (SettleOp u r cost now allow) h = (Done, log_settle u r cost now allow h)"
| "history_step (HelperOp u cost now) h = (Done, charge u now 0 0 0 cost h)"
| "history_step (ProviderOp u cost now) h = (Done, charge u now 0 0 cost 0 h)"
| "history_step (SuspendOp u b note_text now) h =
     (Done, h\<lparr>hy_suspended := (hy_suspended h)(u \<mapsto> \<lparr>su_at = now, su_by = b, su_note = note_text\<rparr>)\<rparr>)"
| "history_step (ResumeOp u) h = (Done, h\<lparr>hy_suspended := (hy_suspended h)(u := None)\<rparr>)"
| "history_step (SetLimitsOp u l) h = (Done, h\<lparr>hy_limits := (hy_limits h)(u := l)\<rparr>)"
| "history_step (PruneOp now) h = (Done, log_forget (now - PRUNE_RETENTION_MS) h)"
| "history_step (StatusOp u lm now) h = (Decision (log_status u lm now h), h)"
| "history_step (SummaryOp u now) h =
     (let day = floorToMinute (now - DAY_MS) in
      (Summary \<lparr>sm_spendMicros = log_spend u day (hy_log h),
         sm_turnsLastHour = log_sum bk_turns u (max day (floorToMinute (now - HOUR_MS))) (hy_log h),
         sm_turnsLast24h = log_sum bk_turns u day (hy_log h), sm_suspended = hy_suspended h u\<rparr>, h))"
| "history_step (LimitsOp u) h = (Overrides (hy_limits h u), h)"

definition turn_known :: "turn_row \<Rightarrow> int \<times> bool" where
  "turn_known t = (tu_admitted_at t, tu_settled t)"

definition history_rel :: "usage_db \<Rightarrow> usage_history \<Rightarrow> bool" where
  "history_rel db h \<longleftrightarrow> um.agrees (ut_buckets db) (hy_log h) \<and> js_wf (ut_turns db) \<and>
     (\<forall>k. hy_turns h k = map_option turn_known (js_get (ut_turns db) k)) \<and>
     (\<forall>u. hy_suspended h u = js_get (ut_suspensions db) u) \<and> (\<forall>u. hy_limits h u = js_get (ut_userLimits db) u)"

lemma history_queries:
  assumes "um.agrees bs lg"
  shows "user_spend u s bs = log_spend u s lg" "fleetSpend now bs = log_fleet now lg"
    "sum_since bk_turns u s bs = log_sum bk_turns u s lg"
  using um.agrees_spend[OF assms, of u s] um.agrees_fleet[OF assms, of "floorToMinute (now - DAY_MS)"] assms
  by (simp_all add: user_spend_def fleetSpend_def log_fleet_def Let_def um.agrees_def)

lemma js_get_filter:
  assumes "js_wf m"
  shows "js_get [(k, v) \<leftarrow> m. P v] k = (case js_get m k of Some v \<Rightarrow> if P v then Some v else None | None \<Rightarrow> None)"
  using assms
proof (induction m)
  case (Cons x m)
  have "js_get m (fst x) = None" "js_get [(k, v) \<leftarrow> m. P v] (fst x) = None"
    using Cons.prems by (auto simp: map_of_eq_None_iff)
  then show ?case using Cons by (cases x) (auto split: option.splits)
qed simp

lemma first_reason_checks:
  "admit_check lm susp spend turns fleet = first_reason
     [(susp, UsageSuspended), (micros (lm_dailySpendUsd lm) \<le> int spend, UsageLimitDaily),
      (lm_turnsPerHour lm \<le> turns, UsageLimitRate), (micros (lm_fleetDailySpendUsd lm) \<le> int fleet, UsageLimitFleet)]"
  "provider_check lm susp spend fleet = first_reason
     [(susp, UsageSuspended), (micros (2 * lm_dailySpendUsd lm) \<le> int spend, UsageLimitDaily),
      (micros (lm_fleetDailySpendUsd lm) \<le> int fleet, UsageLimitFleet)]"
  by (simp_all add: admit_check_def provider_check_def PROVIDER_CEILING_MULTIPLE_def mult.commute)

lemma history_rel_turns:
  assumes rel: "history_rel db h" and claim: "claim_turn u r now allow (ut_turns db) = (c, ts)"
  shows "js_wf ts \<and>
    (\<forall>k. map_option turn_known (js_get ts k) = hy_turns (log_settle u r cost now allow h) k) \<and>
    hy_log (log_settle u r cost now allow h) =
      hy_log h @ (if c then [(u, now, \<lparr>bk_turns = 0, bk_cost = cost, bk_provider = 0, bk_helper = 0\<rparr>)] else [])"
proof -
  have wf: "js_wf (ut_turns db)" using rel by (simp add: history_rel_def)
  have known: "hy_turns h k = map_option turn_known (js_get (ut_turns db) k)" for k
    using rel unfolding history_rel_def by blast
  have set_wf: "js_wf (js_set k v m)" if "js_wf m" for k :: "string \<times> string" and v :: turn_row and m
    using that by (rule js_map_wf)
  show ?thesis
  proof (cases "js_get (ut_turns db) (u, r)")
    case None
    then show ?thesis using claim known[of "(u, r)"] known wf set_wf
      by (auto simp: claim_turn_def log_settle_def charge_def turn_known_def Let_def split: if_splits)
  next
    case (Some t)
    then show ?thesis using claim known[of "(u, r)"] known wf set_wf
      by (cases "tu_settled t") (auto simp: claim_turn_def log_settle_def charge_def turn_known_def Let_def)
  qed
qed

lemma usage_step_sim:
  assumes "history_rel db h"
  shows "fst (usage_step q db) = fst (history_step q h) \<and> history_rel (snd (usage_step q db)) (snd (history_step q h))"
proof -
  have same: "um.agrees (ut_buckets db) (hy_log h)" "js_wf (ut_turns db)"
    "\<And>k. hy_turns h k = map_option turn_known (js_get (ut_turns db) k)"
    "\<And>u. hy_suspended h u = js_get (ut_suspensions db) u" "\<And>u. hy_limits h u = js_get (ut_userLimits db) u"
    using assms unfolding history_rel_def by blast+
  note ask = history_queries[OF same(1)]
  note add = um.agrees_add[OF same(1)]
  show ?thesis
  proof (cases q)
    case (AdmitOp u lm now r)
    have checks: "admit_check lm (getSuspension u db \<noteq> None) (user_spend u (floorToMinute (now - DAY_MS)) (ut_buckets db))
        (sum_since bk_turns u (floorToMinute (now - HOUR_MS)) (ut_buckets db)) (fleetSpend now (ut_buckets db)) =
      first_reason [(hy_suspended h u \<noteq> None, UsageSuspended), (log_over u (lm_dailySpendUsd lm) now h, UsageLimitDaily),
          (lm_turnsPerHour lm \<le> log_sum bk_turns u (floorToMinute (now - HOUR_MS)) (hy_log h), UsageLimitRate),
          (log_fleet_over (lm_fleetDailySpendUsd lm) now h, UsageLimitFleet)]"
      by (simp add: first_reason_checks ask getSuspension_def same(4) log_over_def log_fleet_over_def)
    show ?thesis unfolding AdmitOp usage_step.simps history_step.simps admit_turn_def log_admit_def checks
      using same add[of u now turn_delta] js_map_wf(1)[OF same(2)]
      by (auto simp: history_rel_def charge_def turn_delta_def turn_known_def split: option.split)
  next
    case (SettleOp u r cost now allow)
    obtain c ts where ct: "claim_turn u r now allow (ut_turns db) = (c, ts)" by (rule prod.exhaust)
    have rest: "hy_suspended (log_settle u r cost now allow h) = hy_suspended h"
      "hy_limits (log_settle u r cost now allow h) = hy_limits h"
      by (auto simp: log_settle_def charge_def Let_def split: option.splits bool.splits)
    show ?thesis using history_rel_turns[OF assms ct, of cost] same add[of u now "cost_delta cost"]
      by (simp add: SettleOp settleTurn_def ct Let_def history_rel_def rest cost_delta_def)
  next
    case (PruneOp now)
    have "js_wf [(k, t) \<leftarrow> ut_turns db. P t]" for P using same(2) by (induction "ut_turns db" arbitrary: db) (auto simp: distinct_map filter_map intro: inj_on_subset)
    then show ?thesis using same um.agrees_drop[OF same(1), of "now - PRUNE_RETENTION_MS"] js_get_filter[OF same(2)]
      by (simp add: PruneOp prune_usage_def prune_store_def prune_turns_def history_rel_def log_forget_def turn_known_def split: option.splits)
  next
    case (StatusOp u lm now)
    then show ?thesis using assms
      by (simp add: providerStatus_def log_status_def first_reason_checks ask getSuspension_def same(4) log_over_def log_fleet_over_def)
  qed (use same add in \<open>simp_all add: recordHelper_def recordProvider_def suspend_user_def resume_user_def setUserLimits_def
      getUserLimits_def getSuspension_def userSummary_def ask history_rel_def Let_def charge_def helper_delta_def provider_delta_def
      split: option.split\<close>)
qed

text \<open>C18. The ledger's tables answer every course of admissions, settlements, records, suspensions, limits and
  prunes like a plain history that has no tables. The spend and the turns of a window are those of the log's
  entries whose minute lies in it, the fleet's spend is the sum of the users' spends, and a refusal gives the
  first reason that applies. An admission adds one turn, unless its request is known already. A settlement is
  charged when its turn is known and was not charged before, or is unknown and needs no admission; a turn
  that was charged is never charged again, until the sweep forgets it with its admission.\<close>

theorem usage_store_is_a_log: "answers usage_step qs (empty_usage []) = answers history_step qs no_history"
proof (rule answers_sim[where R = history_rel])
  show "history_rel (empty_usage []) no_history" by (simp add: history_rel_def empty_usage_def no_history_def um.agrees_none)
qed (rule usage_step_sim)

section \<open>Turns\<close>

text \<open>The settlements a run asks for, in order: the turn, its cost and its time.\<close>

fun settlement :: "usage_op \<Rightarrow> ((string \<times> string) \<times> nat \<times> int) list" where
  "settlement (SettleOp u r cost now allow) = [((u, r), cost, now)]"
| "settlement _ = []"

text \<open>What a list of charges comes to for a user since a time.\<close>

definition charged_since :: "string \<Rightarrow> int \<Rightarrow> ((string \<times> string) \<times> nat \<times> int) list \<Rightarrow> nat" where
  "charged_since u s cs = sum_list [cost. ((v, r), cost, now) \<leftarrow> cs, v = u \<and> s \<le> floorToMinute now]"

definition usage_run :: "usage_op list \<Rightarrow> usage_db \<Rightarrow> usage_db" where
  "usage_run qs db = fold (\<lambda>q db. snd (usage_step q db)) qs db"

lemma usage_run_append: "usage_run (as @ bs) db = usage_run bs (usage_run as db)" "usage_run [q] db = snd (usage_step q db)"
  by (simp_all add: usage_run_def)

definition settled_turn :: "usage_db \<Rightarrow> string \<times> string \<Rightarrow> bool" where
  "settled_turn db k \<longleftrightarrow> (case js_get (ut_turns db) k of None \<Rightarrow> False | Some t \<Rightarrow> tu_settled t)"

lemma claim_turn_settles:
  assumes "claim_turn u r now allow ts = (c, ts')"
  shows "(case js_get ts' k of None \<Rightarrow> False | Some t \<Rightarrow> tu_settled t) \<longleftrightarrow>
      (case js_get ts k of None \<Rightarrow> False | Some t \<Rightarrow> tu_settled t) \<or> (c \<and> k = (u, r))"
    and "c \<Longrightarrow> \<not> (case js_get ts (u, r) of None \<Rightarrow> False | Some t \<Rightarrow> tu_settled t)"
    and "allow \<or> js_get ts (u, r) \<noteq> None \<Longrightarrow> c \<or> (case js_get ts (u, r) of None \<Rightarrow> False | Some t \<Rightarrow> tu_settled t)"
  using assms by (auto simp: claim_turn_def Let_def split: option.splits if_splits)

fun is_prune :: "usage_op \<Rightarrow> bool" where
  "is_prune (PruneOp now) = True"
| "is_prune _ = False"

text \<open>The charges so far are those of the settled turns, and the buckets hold nothing else.\<close>

definition charges_inv :: "((string \<times> string) \<times> nat \<times> int) list \<Rightarrow> usage_db \<Rightarrow> bool" where
  "charges_inv cs db \<longleftrightarrow> distinct (List.map fst cs) \<and> (\<forall>k. k \<in> fst ` set cs \<longleftrightarrow> settled_turn db k) \<and> js_wf (ut_buckets db) \<and>
     (\<forall>u s. sum_since bk_cost u s (ut_buckets db) = charged_since u s cs)"

lemma charges_inv_other:
  assumes inv: "charges_inv cs db" and d: "bk_cost d = 0" and turns: "\<And>k. settled_turn db' k = settled_turn db k"
    and buckets: "ut_buckets db' = addToBucket v t d (ut_buckets db)"
  shows "charges_inv cs db'"
  using inv um.tally_add[of "ut_buckets db" bk_cost _ _ v t d] um.valid_add[of "ut_buckets db" v t d] d
  by (simp add: charges_inv_def turns buckets)

lemma charges_inv_same:
  "charges_inv cs db \<Longrightarrow> ut_turns db' = ut_turns db \<Longrightarrow> ut_buckets db' = ut_buckets db \<Longrightarrow> charges_inv cs db'"
  by (simp add: charges_inv_def settled_turn_def)

lemma charges_inv_step:
  assumes inv: "charges_inv cs db" and np: "\<not> is_prune q"
  shows "\<exists>new. (new = [] \<or> new = settlement q) \<and> charges_inv (cs @ new) (snd (usage_step q db))"
proof (cases q)
  case (SettleOp u r cost now allow)
  obtain c ts where ct: "claim_turn u r now allow (ut_turns db) = (c, ts)" by (rule prod.exhaust)
  note claim = claim_turn_settles[OF ct]
  have wf: "js_wf (ut_buckets db)" using inv by (simp add: charges_inv_def)
  let ?db = "settleTurn u r cost now allow db"
  have settled: "settled_turn ?db k \<longleftrightarrow> settled_turn db k \<or> (c \<and> k = (u, r))" for k
    using claim(1)[of k] by (auto simp: settleTurn_def ct Let_def settled_turn_def)
  show ?thesis
  proof (cases c)
    case True
    have fresh: "(u, r) \<notin> fst ` set cs" using claim(2)[OF True] inv by (simp add: charges_inv_def settled_turn_def)
    have "charges_inv (cs @ [((u, r), cost, now)]) ?db"
      unfolding charges_inv_def
    proof (intro conjI allI)
      show "distinct (List.map fst (cs @ [((u, r), cost, now)]))" using inv fresh by (simp add: charges_inv_def)
      show "k \<in> fst ` set (cs @ [((u, r), cost, now)]) \<longleftrightarrow> settled_turn ?db k" for k
        using inv settled[of k] True unfolding charges_inv_def by (cases k) auto
      have buckets: "ut_buckets ?db = addToBucket u now (cost_delta cost) (ut_buckets db)"
        using True by (simp add: settleTurn_def ct Let_def)
      show "js_wf (ut_buckets ?db)" using um.valid_add[OF wf] by (simp add: buckets)
      show "sum_since bk_cost v s (ut_buckets ?db) = charged_since v s (cs @ [((u, r), cost, now)])" for v s
      proof -
        have "sum_since bk_cost v s (ut_buckets db) = charged_since v s cs" using inv by (simp add: charges_inv_def)
        moreover have "bk_cost (cost_delta cost) = cost" by (simp add: cost_delta_def)
        ultimately show ?thesis using um.tally_add[OF wf, of bk_cost v s u now "cost_delta cost"]
          by (auto simp: buckets charged_since_def)
      qed
    qed
    then show ?thesis by (auto simp: SettleOp)
  next
    case False
    then have "charges_inv cs ?db" using inv settled by (simp add: charges_inv_def settleTurn_def ct Let_def)
    then show ?thesis by (auto simp: SettleOp)
  qed
next
  case (AdmitOp u lm now r)
  have turns: "settled_turn (snd (admit_turn u lm now r db)) k = settled_turn db k" for k
    by (auto simp: admit_turn_def settled_turn_def split: option.splits)
  have "charges_inv cs (snd (admit_turn u lm now r db))"
  proof (cases "ut_buckets (snd (admit_turn u lm now r db)) = ut_buckets db")
    case True
    then show ?thesis using inv by (simp add: charges_inv_def turns)
  next
    case False
    then have "ut_buckets (snd (admit_turn u lm now r db)) = addToBucket u now turn_delta (ut_buckets db)"
      by (auto simp: admit_turn_def split: option.splits if_splits)
    from charges_inv_other[OF inv _ turns this] show ?thesis by (simp add: turn_delta_def)
  qed
  then show ?thesis by (cases "admit_turn u lm now r db") (auto simp: AdmitOp)
next
  case (HelperOp u cost now)
  have "charges_inv cs (recordHelper u cost now db)"
    by (rule charges_inv_other[OF inv]) (simp_all add: recordHelper_def helper_delta_def settled_turn_def)
  then show ?thesis by (auto simp: HelperOp)
next
  case (ProviderOp u cost now)
  have "charges_inv cs (recordProvider u cost now db)"
    by (rule charges_inv_other[OF inv]) (simp_all add: recordProvider_def provider_delta_def settled_turn_def)
  then show ?thesis by (auto simp: ProviderOp)
qed (use np in \<open>auto intro!: exI[of _ "[]"] charges_inv_same[OF inv] simp: suspend_user_def resume_user_def setUserLimits_def\<close>)

lemma charges_inv_run:
  assumes "charges_inv cs db" "list_all (\<lambda>q. \<not> is_prune q) qs"
  shows "\<exists>new. subseq new (concat (List.map settlement qs)) \<and> charges_inv (cs @ new) (usage_run qs db)"
  using assms
proof (induction qs arbitrary: cs db)
  case Nil
  then show ?case by (auto simp: usage_run_def)
next
  case (Cons q qs)
  obtain a where a: "a = [] \<or> a = settlement q" "charges_inv (cs @ a) (snd (usage_step q db))"
    using charges_inv_step[OF Cons.prems(1)] Cons.prems(2) by auto
  obtain b where b: "subseq b (concat (List.map settlement qs))" "charges_inv ((cs @ a) @ b) (usage_run qs (snd (usage_step q db)))"
    using Cons.IH[OF a(2)] Cons.prems(2) by auto
  have "subseq (a @ b) (concat (List.map settlement (q # qs)))"
    using a(1) b(1) by (auto intro: list_emb_append_mono list_emb_append2)
  then show ?case using b(2) by (intro exI[of _ "a @ b"]) (simp add: usage_run_def)
qed

lemma settled_turn_stays:
  assumes "settled_turn db k" "list_all (\<lambda>q. \<not> is_prune q) qs"
  shows "settled_turn (usage_run qs db) k"
  using assms
proof (induction qs arbitrary: db)
  case (Cons q qs)
  have "settled_turn (snd (usage_step q db)) k"
  proof (cases q)
    case (SettleOp u r cost now allow)
    obtain c ts where ct: "claim_turn u r now allow (ut_turns db) = (c, ts)" by (rule prod.exhaust)
    show ?thesis using claim_turn_settles(1)[OF ct, of k] Cons.prems(1)
      by (auto simp: SettleOp settleTurn_def ct Let_def settled_turn_def)
  next
    case (AdmitOp u lm now r)
    have "settled_turn (snd (admit_turn u lm now r db)) k" using Cons.prems(1)
      by (auto simp: admit_turn_def settled_turn_def split: option.splits)
    then show ?thesis by (cases "admit_turn u lm now r db") (simp add: AdmitOp)
  qed (use Cons.prems in \<open>auto simp: recordHelper_def recordProvider_def suspend_user_def resume_user_def setUserLimits_def settled_turn_def\<close>)
  then show ?case using Cons by (simp add: usage_run_def)
qed (simp add: usage_run_def)

text \<open>C20. A turn is charged at most once, however often its end, its failure or its replay is reported, and no
  settlement that may be charged is lost, as long as the retention sweep does not forget it. In any course
  without a sweep there are charges, taken in order from the settlements and each for another turn, such
  that the settled cost in the buckets of every user and window is exactly theirs; and every settlement of
  a turn that was admitted before, or that needs no admission, has its turn among them.\<close>

theorem turn_is_charged_once:
  assumes "list_all (\<lambda>q. \<not> is_prune q) qs"
  shows "\<exists>cs. subseq cs (concat (List.map settlement qs)) \<and> distinct (List.map fst cs) \<and>
    (\<forall>u s. sum_since bk_cost u s (ut_buckets (usage_run qs (empty_usage []))) = charged_since u s cs) \<and>
    (\<forall>xs u r cost now allow ys. qs = xs @ SettleOp u r cost now allow # ys \<and>
      (allow \<or> js_get (ut_turns (usage_run xs (empty_usage []))) (u, r) \<noteq> None) \<longrightarrow> (u, r) \<in> fst ` set cs)"
proof -
  have "charges_inv [] (empty_usage [])"
    by (simp add: charges_inv_def settled_turn_def empty_usage_def sum_since_def charged_since_def)
  then obtain cs where cs: "subseq cs (concat (List.map settlement qs))" "charges_inv cs (usage_run qs (empty_usage []))"
    using charges_inv_run[OF _ assms] by fastforce
  have "(u, r) \<in> fst ` set cs"
    if qs: "qs = xs @ SettleOp u r cost now allow # ys"
      and may: "allow \<or> js_get (ut_turns (usage_run xs (empty_usage []))) (u, r) \<noteq> None" for xs u r cost now allow ys
  proof -
    let ?db = "usage_run xs (empty_usage [])"
    obtain c ts where ct: "claim_turn u r now allow (ut_turns ?db) = (c, ts)" by (rule prod.exhaust)
    have "settled_turn (settleTurn u r cost now allow ?db) (u, r)"
      using claim_turn_settles(1)[OF ct, of "(u, r)"] claim_turn_settles(3)[OF ct may]
      by (auto simp: settleTurn_def ct Let_def settled_turn_def)
    then have "settled_turn (usage_run ys (settleTurn u r cost now allow ?db)) (u, r)"
      using settled_turn_stays assms by (auto simp: qs)
    then have "settled_turn (usage_run qs (empty_usage [])) (u, r)" by (simp add: qs usage_run_def)
    then show ?thesis using cs(2) by (simp add: charges_inv_def)
  qed
  moreover have "distinct (List.map fst cs)"
    "sum_since bk_cost u s (ut_buckets (usage_run qs (empty_usage []))) = charged_since u s cs" for u s
    using cs(2) by (simp_all add: charges_inv_def)
  ultimately show ?thesis using cs(1) by blast
qed

lemma turn_is_charged_once_witness:
  "\<exists>cs. subseq cs [((''u'', ''r''), 10, 5), ((''u'', ''r''), 20, 6)] \<and> distinct (List.map fst cs) \<and> (''u'', ''r'') \<in> fst ` set cs \<and>
    sum_since bk_cost ''u'' 0 (ut_buckets (usage_run [SettleOp ''u'' ''r'' 10 5 True, SettleOp ''u'' ''r'' 20 6 True] (empty_usage [])))
      = charged_since ''u'' 0 cs"
proof -
  let ?qs = "[SettleOp ''u'' ''r'' 10 5 True, SettleOp ''u'' ''r'' 20 6 True]"
  have np: "list_all (\<lambda>q. \<not> is_prune q) ?qs" by simp
  obtain cs where cs: "subseq cs (concat (List.map settlement ?qs))" "distinct (List.map fst cs)"
    and sums: "\<forall>u s. sum_since bk_cost u s (ut_buckets (usage_run ?qs (empty_usage []))) = charged_since u s cs"
    and all: "\<forall>xs u r cost now allow ys. ?qs = xs @ SettleOp u r cost now allow # ys \<and>
      (allow \<or> js_get (ut_turns (usage_run xs (empty_usage []))) (u, r) \<noteq> None) \<longrightarrow> (u, r) \<in> fst ` set cs"
    using turn_is_charged_once[OF np] by (elim exE conjE)
  have "(''u'', ''r'') \<in> fst ` set cs"
    using all[rule_format, of "[]" "''u''" "''r''" 10 5 True "[SettleOp ''u'' ''r'' 20 6 True]"] by simp
  moreover have "subseq cs [((''u'', ''r''), 10, 5), ((''u'', ''r''), 20, 6)]" using cs(1) by simp
  ultimately show ?thesis using cs(2) sums by blast
qed

subsection \<open>The hourly limit\<close>

text \<open>The admissions that count, with their times.\<close>

fun counted :: "usage_op list \<Rightarrow> usage_db \<Rightarrow> (string \<times> int) list" where
  "counted [] db = []"
| "counted (q # qs) db =
     (case q of
        AdmitOp u lm now r \<Rightarrow>
          if fst (admit_turn u lm now r db) = None \<and> (case r of None \<Rightarrow> True | Some x \<Rightarrow> js_get (ut_turns db) (u, x) = None)
          then [(u, now)] else []
      | _ \<Rightarrow> []) @ counted qs (snd (usage_step q db))"

fun clock_of :: "usage_op \<Rightarrow> int list" where
  "clock_of (AdmitOp u lm now r) = [now]"
| "clock_of (PruneOp now) = [now]"
| "clock_of q = []"

fun hourly_limit :: "string \<Rightarrow> nat \<Rightarrow> usage_op \<Rightarrow> bool" where
  "hourly_limit u n (AdmitOp v lm now r) \<longleftrightarrow> v \<noteq> u \<or> lm_turnsPerHour lm \<le> n"
| "hourly_limit u n q \<longleftrightarrow> True"

lemma floor_minute:
  "floorToMinute t \<le> t" "t < floorToMinute t + MINUTE_MS" "s \<le> t \<Longrightarrow> floorToMinute s \<le> floorToMinute t"
proof -
  show "floorToMinute t \<le> t" "t < floorToMinute t + MINUTE_MS" by (simp_all add: floorToMinute_def MINUTE_MS_def)
  show "s \<le> t \<Longrightarrow> floorToMinute s \<le> floorToMinute t" by (simp add: floorToMinute_def MINUTE_MS_def zdiv_mono1)
qed

text \<open>\<open>done_turns\<close> are the admissions so far, \<open>last_time\<close> the time of the last one.\<close>

definition rate_inv :: "string \<Rightarrow> nat \<Rightarrow> int \<Rightarrow> (string \<times> int) list \<Rightarrow> usage_db \<Rightarrow> bool" where
  "rate_inv u n last_time done_turns db \<longleftrightarrow>
     js_wf (ut_buckets db) \<and> (\<forall>(v, t) \<in> set done_turns. t \<le> last_time) \<and>
     (\<forall>s \<ge> last_time - PRUNE_RETENTION_MS.
        sum_since bk_turns u s (ut_buckets db) = length [t. (v, t) \<leftarrow> done_turns, v = u \<and> s \<le> floorToMinute t]) \<and>
     (\<forall>s. length [t. (v, t) \<leftarrow> done_turns, v = u \<and> s \<le> t \<and> t \<le> s + HOUR_MS] \<le> n)"

lemma rate_inv_later: "rate_inv u n a dn db \<Longrightarrow> a \<le> b \<Longrightarrow> rate_inv u n b dn db"
  by (force simp: rate_inv_def)

lemma rate_inv_other:
  assumes inv: "rate_inv u n a dn db" and other: "v \<noteq> u \<or> bk_turns d = 0"
  shows "rate_inv u n a dn (db\<lparr>ut_buckets := addToBucket v t d (ut_buckets db)\<rparr>)"
  using inv other um.tally_add[of "ut_buckets db" bk_turns u _ v t d] um.valid_add[of "ut_buckets db" v t d]
  by (auto simp: rate_inv_def)

lemma rate_inv_turn:
  assumes inv: "rate_inv u n a dn db" and time: "a \<le> now"
    and room: "sum_since bk_turns u (floorToMinute (now - HOUR_MS)) (ut_buckets db) < n"
  shows "rate_inv u n now (dn @ [(u, now)]) (db\<lparr>ut_buckets := addToBucket u now turn_delta (ut_buckets db)\<rparr>)"
proof -
  have inv: "rate_inv u n now dn db" using rate_inv_later[OF inv time] .
  then have wf: "js_wf (ut_buckets db)" and past: "\<forall>(v, t) \<in> set dn. t \<le> now"
    and sums: "\<And>s. s \<ge> now - PRUNE_RETENTION_MS \<Longrightarrow>
        sum_since bk_turns u s (ut_buckets db) = length [t. (v, t) \<leftarrow> dn, v = u \<and> s \<le> floorToMinute t]"
    and windows: "\<And>s. length [t. (v, t) \<leftarrow> dn, v = u \<and> s \<le> t \<and> t \<le> s + HOUR_MS] \<le> n"
    by (auto simp: rate_inv_def)
  have "length [t. (v, t) \<leftarrow> dn @ [(u, now)], v = u \<and> s \<le> t \<and> t \<le> s + HOUR_MS] \<le> n" for s
  proof (cases "s \<le> now \<and> now \<le> s + HOUR_MS")
    case True
    have sub: "length [t. (v, t) \<leftarrow> xs, v = u \<and> P t] \<le> length [t. (v, t) \<leftarrow> xs, v = u \<and> Q t]"
      if "\<And>t. P t \<Longrightarrow> Q t" for P Q :: "int \<Rightarrow> bool" and xs :: "(string \<times> int) list"
      using that by (induction xs) auto
    have "s \<le> t \<Longrightarrow> floorToMinute (now - HOUR_MS) \<le> floorToMinute t" for t
      using True by (intro floor_minute(3)) simp
    then have "length [t. (v, t) \<leftarrow> dn, v = u \<and> s \<le> t \<and> t \<le> s + HOUR_MS] \<le>
        length [t. (v, t) \<leftarrow> dn, v = u \<and> floorToMinute (now - HOUR_MS) \<le> floorToMinute t]"
      by (intro sub) simp
    also have "\<dots> < n"
      using room sums[of "floorToMinute (now - HOUR_MS)"] floor_minute(2)[of "now - HOUR_MS"]
      by (simp add: HOUR_MS_def MINUTE_MS_def PRUNE_RETENTION_MS_def)
    finally show ?thesis using True by simp
  next
    case False
    then show ?thesis using windows[of s] by auto
  qed
  moreover have "sum_since bk_turns u s (addToBucket u now turn_delta (ut_buckets db)) =
      length [t. (v, t) \<leftarrow> dn @ [(u, now)], v = u \<and> s \<le> floorToMinute t]" if "s \<ge> now - PRUNE_RETENTION_MS" for s
    using um.tally_add[OF wf, of bk_turns u s u now turn_delta] sums[OF that] by (simp add: turn_delta_def)
  ultimately show ?thesis using wf past um.valid_add[OF wf] by (auto simp: rate_inv_def)
qed

lemma rate_inv_prune:
  assumes "rate_inv u n a dn db" "a \<le> now"
  shows "rate_inv u n now dn (prune_usage now db)"
  using rate_inv_later[OF assms] um.valid_drop[of "ut_buckets db"] um.tally_drop[of bk_turns u _ "now - PRUNE_RETENTION_MS" "ut_buckets db"]
  by (auto simp: rate_inv_def prune_usage_def prune_store_def max_def)

lemma rate_inv_step:
  assumes inv: "rate_inv u n a dn db" and time: "sorted (a # clock_of q)" and limit: "hourly_limit u n q"
  shows "rate_inv u n (last (a # clock_of q)) (dn @ counted [q] db) (snd (usage_step q db))"
proof (cases q)
  case (AdmitOp v lm now r)
  have same: "ut_buckets e = ut_buckets e' \<Longrightarrow> rate_inv w m t x e = rate_inv w m t x e'" for w m t x e e' by (simp add: rate_inv_def)
  have time: "a \<le> now" using time by (simp add: AdmitOp)
  have later: "rate_inv u n now dn db" using rate_inv_later[OF inv time] .
  show ?thesis
  proof (cases "fst (admit_turn v lm now r db) = None \<and> (case r of None \<Rightarrow> True | Some x \<Rightarrow> js_get (ut_turns db) (v, x) = None)")
    case False
    then have "snd (admit_turn v lm now r db) = db" by (auto simp: admit_turn_def split: option.splits if_splits)
    then show ?thesis using later False by (auto simp: AdmitOp split: prod.split)
  next
    case True
    let ?add = "db\<lparr>ut_buckets := addToBucket v now turn_delta (ut_buckets db)\<rparr>"
    have added: "ut_buckets (snd (admit_turn v lm now r db)) = ut_buckets ?add"
      using True by (auto simp: admit_turn_def split: option.splits if_splits)
    have room: "sum_since bk_turns v (floorToMinute (now - HOUR_MS)) (ut_buckets db) < lm_turnsPerHour lm"
      using True by (auto simp: admit_turn_def admit_check_def split: if_splits option.splits)
    have "rate_inv u n now (dn @ [(v, now)]) ?add"
    proof (cases "v = u")
      case True
      then show ?thesis using rate_inv_turn[OF inv time] room limit by (simp add: AdmitOp)
    next
      case False
      then show ?thesis using rate_inv_other[OF later, of v turn_delta now] by (auto simp: rate_inv_def)
    qed
    then have "rate_inv u n now (dn @ [(v, now)]) (snd (admit_turn v lm now r db))" using same[OF added] by simp
    then show ?thesis using True by (cases "admit_turn v lm now r db") (auto simp: AdmitOp)
  qed
next
  case (SettleOp v r cost now allow)
  obtain c ts where ct: "claim_turn v r now allow (ut_turns db) = (c, ts)" by (rule prod.exhaust)
  have "rate_inv u n a dn (db\<lparr>ut_turns := ts\<rparr>)" using inv by (simp add: rate_inv_def)
  moreover have "bk_turns (cost_delta cost) = 0" by (simp add: cost_delta_def)
  ultimately show ?thesis using rate_inv_other[of u n a dn "db\<lparr>ut_turns := ts\<rparr>" v "cost_delta cost" now]
    by (simp add: SettleOp settleTurn_def ct Let_def)
next
  case (PruneOp now)
  then show ?thesis using rate_inv_prune[OF inv] time by simp
qed (use inv rate_inv_other[OF inv] in \<open>simp_all add: recordHelper_def recordProvider_def helper_delta_def provider_delta_def
    suspend_user_def resume_user_def setUserLimits_def rate_inv_def\<close>)

text \<open>C19. No user is let into more turns than the hourly limit within any hour, at any time and over any course
  of operations, sweeps included, while the clock does not run backwards.\<close>

theorem hourly_limit_holds:
  assumes clock: "sorted (concat (List.map clock_of qs))" and limit: "list_all (hourly_limit u n) qs"
  shows "length [t. (v, t) \<leftarrow> counted qs (empty_usage []), v = u \<and> s \<le> t \<and> t \<le> s + HOUR_MS] \<le> n"
proof -
  define a0 where "a0 = (case concat (List.map clock_of qs) of [] \<Rightarrow> 0 | t # ts \<Rightarrow> t)"
  have "\<exists>b db'. rate_inv u n b (dn @ counted qs db) db'"
    if "rate_inv u n a dn db" "sorted (a # concat (List.map clock_of qs))" for a dn db
    using that limit
  proof (induction qs arbitrary: a dn db)
    case (Cons q qs)
    have s: "sorted (a # clock_of q)" "sorted (last (a # clock_of q) # concat (List.map clock_of qs))"
      using Cons.prems(2) by (auto simp: sorted_append split: if_splits)
    have "counted (q # qs) db = counted [q] db @ counted qs (snd (usage_step q db))" by simp
    then show ?case using Cons.IH[OF rate_inv_step[OF Cons.prems(1) s(1)] s(2)] Cons.prems(3)
      by (simp del: counted.simps)
  qed auto
  moreover have "rate_inv u n a0 [] (empty_usage [])"
    by (simp add: rate_inv_def empty_usage_def sum_since_def HOUR_MS_def)
  moreover have "sorted (a0 # concat (List.map clock_of qs))"
    using clock by (cases "concat (List.map clock_of qs)") (simp_all only: a0_def list.case sorted2 sorted1, simp)
  ultimately obtain b db' where "rate_inv u n b ([] @ counted qs (empty_usage [])) db'" by blast
  then show ?thesis by (simp add: rate_inv_def)
qed

lemma hourly_limit_holds_witness:
  "length [t. (v, t) \<leftarrow> counted [AdmitOp ''u'' \<lparr>lm_dailySpendUsd = 5, lm_fleetDailySpendUsd = 100, lm_turnsPerHour = 1, lm_assumedTurnCostUsd = 1/4\<rparr> 90000 (Some ''r''),
       AdmitOp ''u'' \<lparr>lm_dailySpendUsd = 5, lm_fleetDailySpendUsd = 100, lm_turnsPerHour = 1, lm_assumedTurnCostUsd = 1/4\<rparr> 100000 None]
      (empty_usage []), v = ''u'' \<and> 80000 \<le> t \<and> t \<le> 80000 + HOUR_MS] \<le> 1"
  by (rule hourly_limit_holds) simp_all

subsection \<open>The two gates\<close>

text \<open>Whoever the proxy's gate stops, by a suspension, twice the daily limit or the fleet's limit, gets no new
  turn either, and the refused turn leaves no trace.\<close>

theorem locked_key_means_no_new_turn:
  assumes "providerStatus u lm now db \<noteq> None" "0 \<le> lm_dailySpendUsd lm"
  shows "fst (admit_turn u lm now r db) \<noteq> None \<and> snd (admit_turn u lm now r db) = db"
proof -
  have "micros (lm_dailySpendUsd lm) \<le> micros (lm_dailySpendUsd lm * PROVIDER_CEILING_MULTIPLE)"
    unfolding micros_def PROVIDER_CEILING_MULTIPLE_def using assms(2) by (intro floor_mono) simp
  then have "admit_check lm (getSuspension u db \<noteq> None) (user_spend u (floorToMinute (now - DAY_MS)) (ut_buckets db))
      (sum_since bk_turns u (floorToMinute (now - HOUR_MS)) (ut_buckets db)) (fleetSpend now (ut_buckets db)) \<noteq> None"
    using assms(1) by (auto simp: providerStatus_def provider_check_def admit_check_def split: if_splits)
  then show ?thesis by (auto simp: admit_turn_def split: option.split)
qed

lemma locked_key_means_no_new_turn_witness:
  "providerStatus ''u'' \<lparr>lm_dailySpendUsd = 5, lm_fleetDailySpendUsd = 100, lm_turnsPerHour = 60, lm_assumedTurnCostUsd = 1/4\<rparr> 7
     (suspend_user ''u'' ''admin'' None 3 (empty_usage [])) = Some UsageSuspended \<and>
   fst (admit_turn ''u'' \<lparr>lm_dailySpendUsd = 5, lm_fleetDailySpendUsd = 100, lm_turnsPerHour = 60, lm_assumedTurnCostUsd = 1/4\<rparr> 7 (Some ''r'')
     (suspend_user ''u'' ''admin'' None 3 (empty_usage []))) \<noteq> None \<and>
   snd (admit_turn ''u'' \<lparr>lm_dailySpendUsd = 5, lm_fleetDailySpendUsd = 100, lm_turnsPerHour = 60, lm_assumedTurnCostUsd = 1/4\<rparr> 7 (Some ''r'')
     (suspend_user ''u'' ''admin'' None 3 (empty_usage []))) = suspend_user ''u'' ''admin'' None 3 (empty_usage [])"
proof (rule conjI)
  show stop: "providerStatus ''u'' \<lparr>lm_dailySpendUsd = 5, lm_fleetDailySpendUsd = 100, lm_turnsPerHour = 60, lm_assumedTurnCostUsd = 1/4\<rparr> 7
     (suspend_user ''u'' ''admin'' None 3 (empty_usage [])) = Some UsageSuspended"
    by (simp add: providerStatus_def provider_check_def getSuspension_def suspend_user_def empty_usage_def)
  show "fst (admit_turn ''u'' \<lparr>lm_dailySpendUsd = 5, lm_fleetDailySpendUsd = 100, lm_turnsPerHour = 60, lm_assumedTurnCostUsd = 1/4\<rparr> 7 (Some ''r'')
     (suspend_user ''u'' ''admin'' None 3 (empty_usage []))) \<noteq> None \<and>
   snd (admit_turn ''u'' \<lparr>lm_dailySpendUsd = 5, lm_fleetDailySpendUsd = 100, lm_turnsPerHour = 60, lm_assumedTurnCostUsd = 1/4\<rparr> 7 (Some ''r'')
     (suspend_user ''u'' ''admin'' None 3 (empty_usage []))) = suspend_user ''u'' ''admin'' None 3 (empty_usage [])"
    by (rule locked_key_means_no_new_turn) (simp_all only: stop, simp_all)
qed

subsection \<open>What the host measured always counts\<close>

text \<open>The cost an operation puts on a user's account for the proxy's calls and the helper's, when its time lies
  in the window.\<close>

fun host_measured :: "string \<Rightarrow> int \<Rightarrow> usage_op \<Rightarrow> nat" where
  "host_measured u start (ProviderOp v cost now) = (if v = u \<and> start \<le> floorToMinute now then cost else 0)"
| "host_measured u start (HelperOp v cost now) = (if v = u \<and> start \<le> floorToMinute now then cost else 0)"
| "host_measured u start _ = 0"

fun keeps_window :: "int \<Rightarrow> usage_op \<Rightarrow> bool" where
  "keeps_window start (PruneOp now) \<longleftrightarrow> now - PRUNE_RETENTION_MS \<le> start"
| "keeps_window start _ \<longleftrightarrow> True"

definition host_sum :: "string \<Rightarrow> int \<Rightarrow> buckets \<Rightarrow> nat" where
  "host_sum u start bs = sum_since bk_provider u start bs + sum_since bk_helper u start bs"

lemma host_sum_add:
  assumes "js_wf bs"
  shows "host_sum u start (addToBucket v now d bs) =
    host_sum u start bs + (if v = u \<and> start \<le> floorToMinute now then bk_provider d + bk_helper d else 0)"
  using um.tally_add[OF assms, of bk_provider u start v now d] um.tally_add[OF assms, of bk_helper u start v now d]
  by (simp add: host_sum_def)

lemma host_sum_step:
  assumes wf: "js_wf (ut_buckets db)" and keep: "keeps_window start q"
  shows "js_wf (ut_buckets (snd (usage_step q db))) \<and>
    host_sum u start (ut_buckets (snd (usage_step q db))) = host_sum u start (ut_buckets db) + host_measured u start q"
proof (cases q)
  case (AdmitOp v lm now r)
  then show ?thesis using wf um.valid_add[OF wf] host_sum_add[OF wf, of u start v now turn_delta]
    by (auto simp: admit_turn_def turn_delta_def split: option.split)
next
  case (SettleOp v r cost now allow)
  then show ?thesis using wf um.valid_add[OF wf] host_sum_add[OF wf, of u start v now "cost_delta cost"]
    by (auto simp: settleTurn_def cost_delta_def Let_def split: prod.split)
next
  case (PruneOp now)
  have "max start (now - PRUNE_RETENTION_MS) = start" using keep by (simp add: PruneOp)
  then show ?thesis using um.valid_drop[OF wf, of "now - PRUNE_RETENTION_MS"]
      um.tally_drop[of bk_provider u start "now - PRUNE_RETENTION_MS" "ut_buckets db"]
      um.tally_drop[of bk_helper u start "now - PRUNE_RETENTION_MS" "ut_buckets db"]
    by (simp add: PruneOp prune_usage_def prune_store_def host_sum_def)
next
  case (HelperOp v cost now)
  then show ?thesis using wf um.valid_add[OF wf] host_sum_add[OF wf, of u start v now "helper_delta cost"]
    by (simp add: recordHelper_def helper_delta_def)
next
  case (ProviderOp v cost now)
  then show ?thesis using wf um.valid_add[OF wf] host_sum_add[OF wf, of u start v now "provider_delta cost"]
    by (simp add: recordProvider_def provider_delta_def)
qed (use wf in \<open>simp_all add: suspend_user_def resume_user_def setUserLimits_def\<close>)

text \<open>Whatever turns the sandbox reports, settles or leaves unreported: the spend of a user that the gates see
  in a window is at least what the proxy measured and the host's helpers used in it.\<close>

theorem host_measurements_always_count:
  assumes "list_all (keeps_window start) qs"
  shows "sum_list (List.map (host_measured u start) qs) \<le>
    user_spend u start (ut_buckets (fold (\<lambda>q db. snd (usage_step q db)) qs (empty_usage [])))"
proof -
  have "js_wf (ut_buckets db) \<Longrightarrow>
      host_sum u start (ut_buckets (fold (\<lambda>q db. snd (usage_step q db)) qs db)) =
        host_sum u start (ut_buckets db) + sum_list (List.map (host_measured u start) qs)" for db
    using assms
  proof (induction qs arbitrary: db)
    case (Cons q qs)
    have keep: "keeps_window start q" using Cons.prems(2) by simp
    show ?case using Cons.IH[of "snd (usage_step q db)"] host_sum_step[OF Cons.prems(1) keep, of u] Cons.prems(2) by simp
  qed simp
  from this[of "empty_usage []"] show ?thesis
    by (simp add: empty_usage_def host_sum_def sum_since_def user_spend_def SPEND_MICROS_def)
qed

lemma host_measurements_always_count_witness:
  "(7 :: nat) \<le> user_spend ''u'' 0 (ut_buckets (fold (\<lambda>q db. snd (usage_step q db))
     [ProviderOp ''u'' 4 60000, SettleOp ''u'' ''r'' 0 61000 True, HelperOp ''u'' 3 62000, PruneOp 63000] (empty_usage [])))"
  using host_measurements_always_count[of 0
      "[ProviderOp ''u'' 4 60000, SettleOp ''u'' ''r'' 0 61000 True, HelperOp ''u'' 3 62000, PruneOp 63000]" "''u''"]
  by (simp add: PRUNE_RETENTION_MS_def floorToMinute_def MINUTE_MS_def)

text \<open>The proxy's gate also answers with the fleet's limit.\<close>

theorem provider_gate_knows_the_fleet:
  "providerStatus ''u'' \<lparr>lm_dailySpendUsd = 5, lm_fleetDailySpendUsd = 1, lm_turnsPerHour = 60, lm_assumedTurnCostUsd = 1/4\<rparr> 120000
     (recordProvider ''v'' 1000000 60000 (empty_usage [])) = Some UsageLimitFleet"
  by (simp add: providerStatus_def provider_check_def recordProvider_def getSuspension_def empty_usage_def user_spend_def SPEND_MICROS_def
      addToBucket_def provider_delta_def sum_since_def fleetSpend_def users_since_def micros_def PROVIDER_CEILING_MULTIPLE_def
      floorToMinute_def MINUTE_MS_def DAY_MS_def HOUR_MS_def)

end
