(* ===== verification/Usage_Limits.thy ===== *)
theory Usage_Limits
  imports Usage_Store Js_Value Js_Text
begin

text \<open>
  The settings of the ledger: the limits an admin may change, after
  \<^verbatim>\<open>packages/usage-limits/src/config.ts\<close>, and the prices, after \<^verbatim>\<open>pricing.ts\<close>. The storage hooks are
  answers given from outside (\<open>None\<close>: the call threw), \<^verbatim>\<open>JSON.parse\<close> and \<^verbatim>\<open>JSON.stringify\<close> are
  arguments, and a zod schema is a function into an option. Log lines are left out.
\<close>

section \<open>The limits\<close>

definition DEFAULT_LIMITS :: usage_limits where
  "DEFAULT_LIMITS = \<lparr>lm_dailySpendUsd = 5, lm_fleetDailySpendUsd = 100, lm_turnsPerHour = 60, lm_assumedTurnCostUsd = 1/4\<rparr>"

text \<open>\<^verbatim>\<open>z.number().finite().min(lo).max(hi)\<close> and \<^verbatim>\<open>z.number().int().min(lo).max(hi)\<close>.\<close>

fun number_between :: "rat \<Rightarrow> rat \<Rightarrow> jsval \<Rightarrow> rat option" where
  "number_between lo hi (JNum (Fin q)) = (if lo \<le> q \<and> q \<le> hi then Some q else None)"
| "number_between lo hi _ = None"

fun whole_between :: "nat \<Rightarrow> nat \<Rightarrow> jsval \<Rightarrow> nat option" where
  "whole_between lo hi (JNum (Fin q)) = (if q \<in> \<int> \<and> of_nat lo \<le> q \<and> q \<le> of_nat hi then Some (nat \<lfloor>q\<rfloor>) else None)"
| "whole_between lo hi _ = None"

definition dailySpend_schema :: "jsval \<Rightarrow> rat option" where
  "dailySpend_schema = number_between (1/100) 10000"

definition fleetSpend_schema :: "jsval \<Rightarrow> rat option" where
  "fleetSpend_schema = number_between (1/100) 1000000"

definition turnsPerHour_schema :: "jsval \<Rightarrow> nat option" where
  "turnsPerHour_schema = whole_between 1 100000"

definition assumedCost_schema :: "jsval \<Rightarrow> rat option" where
  "assumedCost_schema = number_between 0 100"

definition field_or :: "(jsval \<Rightarrow> 'a option) \<Rightarrow> 'a \<Rightarrow> jsval \<Rightarrow> 'a" where
  "field_or schema dflt v = (case schema v of None \<Rightarrow> dflt | Some x \<Rightarrow> x)"

text \<open>\<^verbatim>\<open>parseStored\<close>: field by field, a missing or invalid field is the default.\<close>

definition parseStored :: "(bytes \<Rightarrow> jsval option) \<Rightarrow> bytes option \<Rightarrow> usage_limits" where
  "parseStored json_parse stored =
     (case stored of
        None \<Rightarrow> DEFAULT_LIMITS
      | Some b \<Rightarrow>
          (case json_parse b of
             Some (JObj fs) \<Rightarrow>
               \<lparr>lm_dailySpendUsd = field_or dailySpend_schema (lm_dailySpendUsd DEFAULT_LIMITS) (js_field (JObj fs) ''dailySpendUsd''),
                lm_fleetDailySpendUsd = field_or fleetSpend_schema (lm_fleetDailySpendUsd DEFAULT_LIMITS) (js_field (JObj fs) ''fleetDailySpendUsd''),
                lm_turnsPerHour = field_or turnsPerHour_schema (lm_turnsPerHour DEFAULT_LIMITS) (js_field (JObj fs) ''turnsPerHour''),
                lm_assumedTurnCostUsd = field_or assumedCost_schema (lm_assumedTurnCostUsd DEFAULT_LIMITS) (js_field (JObj fs) ''assumedTurnCostUsd'')\<rparr>
           | _ \<Rightarrow> DEFAULT_LIMITS))"

text \<open>The cache of one host, with the time it was filled.\<close>

type_synonym limits_cache = "(usage_limits \<times> int) option"

definition readFresh :: "(bytes \<Rightarrow> jsval option) \<Rightarrow> bytes option option \<Rightarrow> int \<Rightarrow> limits_cache \<Rightarrow> usage_limits option \<times> limits_cache" where
  "readFresh json_parse answer now cached =
     (case answer of
        None \<Rightarrow> (None, cached)
      | Some stored \<Rightarrow> let l = parseStored json_parse stored in (Some l, Some (l, now)))"

definition limits_get :: "(bytes \<Rightarrow> jsval option) \<Rightarrow> int \<Rightarrow> bytes option option \<Rightarrow> int \<Rightarrow> limits_cache \<Rightarrow> usage_limits option \<times> limits_cache" where
  "limits_get json_parse ttlMs answer now cached =
     (case cached of
        Some (l, at_time) \<Rightarrow> if now - at_time < ttlMs then (Some l, cached) else readFresh json_parse answer now cached
      | None \<Rightarrow> readFresh json_parse answer now cached)"

text \<open>What a caller of \<^verbatim>\<open>set\<close> passes; \<open>JUndef\<close> for a field that is left alone.\<close>

record limits_patch =
  pt_dailySpendUsd :: jsval
  pt_fleetDailySpendUsd :: jsval
  pt_turnsPerHour :: jsval
  pt_assumedTurnCostUsd :: jsval

definition UsageLimitsSchema :: "limits_patch \<Rightarrow> usage_limits option" where
  "UsageLimitsSchema m =
     (case (dailySpend_schema (pt_dailySpendUsd m), fleetSpend_schema (pt_fleetDailySpendUsd m),
            turnsPerHour_schema (pt_turnsPerHour m), assumedCost_schema (pt_assumedTurnCostUsd m)) of
        (Some d, Some f, Some t, Some a) \<Rightarrow>
          Some \<lparr>lm_dailySpendUsd = d, lm_fleetDailySpendUsd = f, lm_turnsPerHour = t, lm_assumedTurnCostUsd = a\<rparr>
      | _ \<Rightarrow> None)"

definition merge_field :: "jsval \<Rightarrow> jsval \<Rightarrow> jsval" where
  "merge_field v current = (if v = JUndef then current else v)"

definition merge_limits :: "limits_patch \<Rightarrow> usage_limits \<Rightarrow> limits_patch" where
  "merge_limits p l =
     \<lparr>pt_dailySpendUsd = merge_field (pt_dailySpendUsd p) (JNum (Fin (lm_dailySpendUsd l))),
      pt_fleetDailySpendUsd = merge_field (pt_fleetDailySpendUsd p) (JNum (Fin (lm_fleetDailySpendUsd l))),
      pt_turnsPerHour = merge_field (pt_turnsPerHour p) (JNum (Fin (of_nat (lm_turnsPerHour l)))),
      pt_assumedTurnCostUsd = merge_field (pt_assumedTurnCostUsd p) (JNum (Fin (lm_assumedTurnCostUsd l)))\<rparr>"

datatype limits_saved = LimitsSaved usage_limits | InvalidLimits | StorageFailed

text \<open>\<^verbatim>\<open>set\<close>: its result, what it wrote, and the cache. \<open>written\<close> tells whether \<^verbatim>\<open>storage:set\<close> came back.\<close>

definition limits_set ::
    "(bytes \<Rightarrow> jsval option) \<Rightarrow> (usage_limits \<Rightarrow> bytes) \<Rightarrow> limits_patch \<Rightarrow> bytes option option \<Rightarrow> bool \<Rightarrow> int \<Rightarrow> limits_cache \<Rightarrow>
     limits_saved \<times> bytes option \<times> limits_cache" where
  "limits_set json_parse json_stringify patch answer written now cached =
     (case readFresh json_parse answer now cached of
        (None, cached) \<Rightarrow> (StorageFailed, None, cached)
      | (Some current, cached) \<Rightarrow>
          (case UsageLimitsSchema (merge_limits patch current) of
             None \<Rightarrow> (InvalidLimits, None, cached)
           | Some l \<Rightarrow>
               if written then (LimitsSaved l, Some (json_stringify l), Some (l, now))
               else (StorageFailed, Some (json_stringify l), cached)))"

subsection \<open>Always within their bounds\<close>

definition limits_ok :: "usage_limits \<Rightarrow> bool" where
  "limits_ok l \<longleftrightarrow> 1/100 \<le> lm_dailySpendUsd l \<and> lm_dailySpendUsd l \<le> 10000 \<and>
     1/100 \<le> lm_fleetDailySpendUsd l \<and> lm_fleetDailySpendUsd l \<le> 1000000 \<and>
     1 \<le> lm_turnsPerHour l \<and> lm_turnsPerHour l \<le> 100000 \<and> 0 \<le> lm_assumedTurnCostUsd l \<and> lm_assumedTurnCostUsd l \<le> 100"

named_theorems limits_schemas

lemma number_between_Some [limits_schemas]: "number_between lo hi v = Some q \<longleftrightarrow> v = JNum (Fin q) \<and> lo \<le> q \<and> q \<le> hi"
  by (induction lo hi v rule: number_between.induct) auto

lemma whole_between_Some [limits_schemas]:
  "whole_between lo hi v = Some n \<longleftrightarrow> v = JNum (Fin (of_nat n)) \<and> lo \<le> n \<and> n \<le> hi"
proof (induction lo hi v rule: whole_between.induct)
  case (1 lo hi q)
  show ?case
  proof (cases "q \<in> \<int>")
    case True
    then obtain k where k: "q = of_int k" by (rule Ints_cases)
    have "of_nat n = (of_int (int n) :: rat)" for n by simp
    then have le: "of_nat n \<le> (of_int k :: rat) \<longleftrightarrow> int n \<le> k" "(of_int k :: rat) \<le> of_nat n \<longleftrightarrow> k \<le> int n"
      "(of_int k :: rat) = of_nat n \<longleftrightarrow> k = int n" for n
      by (simp_all only: of_int_le_iff of_int_eq_iff)
    show ?thesis by (auto simp: k le)
  qed auto
qed simp_all

lemma field_or_cases: "(\<And>x. schema v = Some x \<Longrightarrow> P x) \<Longrightarrow> P dflt \<Longrightarrow> P (field_or schema dflt v)"
  by (simp add: field_or_def split: option.split)

lemma parseStored_ok: "limits_ok (parseStored json_parse stored)"
proof -
  note defs = dailySpend_schema_def fleetSpend_schema_def turnsPerHour_schema_def assumedCost_schema_def limits_schemas
  have "1/100 \<le> field_or dailySpend_schema 5 v \<and> field_or dailySpend_schema 5 v \<le> 10000" for v
    by (rule field_or_cases) (simp_all add: defs)
  moreover have "1/100 \<le> field_or fleetSpend_schema 100 v \<and> field_or fleetSpend_schema 100 v \<le> 1000000" for v
    by (rule field_or_cases) (simp_all add: defs)
  moreover have "1 \<le> field_or turnsPerHour_schema 60 v \<and> field_or turnsPerHour_schema 60 v \<le> 100000" for v
    by (rule field_or_cases) (simp_all add: defs)
  moreover have "0 \<le> field_or assumedCost_schema (1/4) v \<and> field_or assumedCost_schema (1/4) v \<le> 100" for v
    by (rule field_or_cases) (simp_all add: defs)
  ultimately show ?thesis by (simp add: parseStored_def limits_ok_def DEFAULT_LIMITS_def split: option.split jsval.split)
qed

lemma UsageLimitsSchema_ok: "UsageLimitsSchema m = Some l \<Longrightarrow> limits_ok l"
  by (auto simp: UsageLimitsSchema_def limits_ok_def dailySpend_schema_def fleetSpend_schema_def turnsPerHour_schema_def
      assumedCost_schema_def limits_schemas split: option.splits)

datatype limits_op = LGet "bytes option option" int | LSet limits_patch "bytes option option" bool int

fun limits_step :: "(bytes \<Rightarrow> jsval option) \<Rightarrow> (usage_limits \<Rightarrow> bytes) \<Rightarrow> int \<Rightarrow> limits_op \<Rightarrow> limits_cache \<Rightarrow> usage_limits option \<times> limits_cache" where
  "limits_step json_parse json_stringify ttlMs (LGet answer now) cached = limits_get json_parse ttlMs answer now cached"
| "limits_step json_parse json_stringify ttlMs (LSet patch answer written now) cached =
     (case limits_set json_parse json_stringify patch answer written now cached of
        (LimitsSaved l, bs, cached) \<Rightarrow> (Some l, cached) | (_, bs, cached) \<Rightarrow> (None, cached))"

lemma limits_step_ok:
  assumes "pred_option (\<lambda>(l, t). limits_ok l) cached"
  shows "pred_option limits_ok (fst (limits_step json_parse json_stringify ttlMs q cached)) \<and>
    pred_option (\<lambda>(l, t). limits_ok l) (snd (limits_step json_parse json_stringify ttlMs q cached))"
  using assms
  by (cases q)
    (auto simp: limits_get_def limits_set_def readFresh_def Let_def parseStored_ok UsageLimitsSchema_ok split: option.split prod.split)

text \<open>C29. Whatever the storage holds, and whoever reads and writes the limits in whatever order: every limit
  that is handed out lies within its bounds, so a broken setting never switches the limits off.\<close>

theorem limits_stay_in_bounds:
  "list_all (pred_option limits_ok) (answers (limits_step json_parse json_stringify ttlMs) qs None)"
proof -
  have "list_all (pred_option limits_ok) (answers (limits_step json_parse json_stringify ttlMs) qs cached)"
    if "pred_option (\<lambda>(l, t). limits_ok l) cached" for cached
    using that
  proof (induction qs arbitrary: cached)
    case (Cons q qs)
    obtain a c where "limits_step json_parse json_stringify ttlMs q cached = (a, c)" by (rule prod.exhaust)
    then show ?case using limits_step_ok[OF Cons.prems, of json_parse json_stringify ttlMs q] Cons.IH[of c] by simp
  qed simp
  then show ?thesis by simp
qed

text \<open>The limits as JSON.\<close>

definition json_of_limits :: "usage_limits \<Rightarrow> jsval" where
  "json_of_limits l = JObj [(''dailySpendUsd'', JNum (Fin (lm_dailySpendUsd l))), (''fleetDailySpendUsd'', JNum (Fin (lm_fleetDailySpendUsd l))),
     (''turnsPerHour'', JNum (Fin (of_nat (lm_turnsPerHour l)))), (''assumedTurnCostUsd'', JNum (Fin (lm_assumedTurnCostUsd l)))]"

text \<open>What one host saved, every host reads from the storage, field by field and without a default, when
  \<^verbatim>\<open>JSON.parse\<close> undoes \<^verbatim>\<open>JSON.stringify\<close>.\<close>

theorem saved_limits_are_read_back:
  assumes json: "json_parse (json_stringify l) = Some (json_of_limits l)"
    and saved: "limits_set json_parse json_stringify patch answer written now cached = (LimitsSaved l, bs, cached')"
  shows "bs \<noteq> None \<and> fst (limits_get json_parse ttlMs (Some bs) later None) = Some l"
proof -
  have bs: "bs = Some (json_stringify l)" and "\<exists>m. UsageLimitsSchema m = Some l"
    using saved by (auto simp: limits_set_def split: option.splits prod.splits if_splits)
  then have "limits_ok l" using UsageLimitsSchema_ok by blast
  then have "parseStored json_parse bs = l"
    by (simp add: bs json parseStored_def json_of_limits_def field_or_def limits_ok_def dailySpend_schema_def fleetSpend_schema_def
        turnsPerHour_schema_def assumedCost_schema_def)
  then show ?thesis by (simp add: bs limits_get_def readFresh_def)
qed

definition demo_patch :: limits_patch where
  "demo_patch = \<lparr>pt_dailySpendUsd = JNum (Fin 20), pt_fleetDailySpendUsd = JUndef, pt_turnsPerHour = JNum (Fin 3), pt_assumedTurnCostUsd = JUndef\<rparr>"

definition demo_limits :: usage_limits where
  "demo_limits = \<lparr>lm_dailySpendUsd = 20, lm_fleetDailySpendUsd = 100, lm_turnsPerHour = 3, lm_assumedTurnCostUsd = 1/4\<rparr>"

lemma saved_limits_are_read_back_witness:
  "limits_set (\<lambda>b. Some (json_of_limits demo_limits)) (\<lambda>l. ''saved'') demo_patch (Some None) True 7 None
     = (LimitsSaved demo_limits, Some ''saved'', Some (demo_limits, 7)) \<and>
   Some ''saved'' \<noteq> None \<and> fst (limits_get (\<lambda>b. Some (json_of_limits demo_limits)) 15000 (Some (Some ''saved'')) 20 None) = Some demo_limits"
proof (rule conjI)
  show saved: "limits_set (\<lambda>b. Some (json_of_limits demo_limits)) (\<lambda>l. ''saved'') demo_patch (Some None) True 7 None
     = (LimitsSaved demo_limits, Some ''saved'', Some (demo_limits, 7))"
    by (simp add: limits_set_def readFresh_def parseStored_def DEFAULT_LIMITS_def UsageLimitsSchema_def merge_limits_def merge_field_def
        Let_def demo_patch_def demo_limits_def dailySpend_schema_def fleetSpend_schema_def turnsPerHour_schema_def assumedCost_schema_def)
  show "Some ''saved'' \<noteq> None \<and> fst (limits_get (\<lambda>b. Some (json_of_limits demo_limits)) 15000 (Some (Some ''saved'')) 20 None) = Some demo_limits"
    by (rule saved_limits_are_read_back[OF _ saved]) simp
qed

section \<open>Prices\<close>

text \<open>Rates in hundredths of a micro-dollar per token.\<close>

record rate =
  rt_in :: nat
  rt_out :: nat
  rt_cacheRead :: nat
  rt_cacheWrite :: nat

definition OPUS :: rate where
  "OPUS = \<lparr>rt_in = 1500, rt_out = 7500, rt_cacheRead = 150, rt_cacheWrite = 1875\<rparr>"

definition SONNET :: rate where
  "SONNET = \<lparr>rt_in = 300, rt_out = 1500, rt_cacheRead = 30, rt_cacheWrite = 375\<rparr>"

definition HAIKU :: rate where
  "HAIKU = \<lparr>rt_in = 100, rt_out = 500, rt_cacheRead = 10, rt_cacheWrite = 125\<rparr>"

record model_price =
  mp_model :: string
  mp_inputUsd :: rat
  mp_outputUsd :: rat
  mp_cacheReadUsd :: rat
  mp_cacheWriteUsd :: rat

text \<open>\<^verbatim>\<open>replace(/^(?:(?:openrouter|anthropic)\/)+/, '')\<close>.\<close>

function strip_provider :: "string \<Rightarrow> string" where
  "strip_provider m =
     (if starts_with ''openrouter/'' m then strip_provider (drop 11 m)
      else if starts_with ''anthropic/'' m then strip_provider (drop 10 m)
      else m)"
  by auto
termination
proof (relation "measure length")
  have "starts_with (c # p) m \<Longrightarrow> 0 < length m" for c and p m :: string
    by (cases m) (auto simp: starts_with_def)
  note ne = this[of "CHR ''o''" "''penrouter/''"] this[of "CHR ''a''" "''nthropic/''"]
  show "starts_with ''openrouter/'' m \<Longrightarrow> (drop 11 m, m) \<in> measure length"
    "\<not> starts_with ''openrouter/'' m \<Longrightarrow> starts_with ''anthropic/'' m \<Longrightarrow> (drop 10 m, m) \<in> measure length" for m
    using ne[of m] by simp_all
qed simp

declare strip_provider.simps [simp del]

definition priceModelId :: "string \<Rightarrow> string" where
  "priceModelId model = strip_provider (List.map lower_char model)"

text \<open>\<^verbatim>\<open>z.number().finite().min(0).max(10_000).multipleOf(0.01)\<close>.\<close>

definition Price :: "jsval \<Rightarrow> rat option" where
  "Price v = (case number_between 0 10000 v of None \<Rightarrow> None | Some q \<Rightarrow> if q * 100 \<in> \<int> then Some q else None)"

definition model_name_chars :: "string \<Rightarrow> bool" where
  "model_name_chars s \<longleftrightarrow> s \<noteq> [] \<and> is_alnum (hd s) \<and> list_all (\<lambda>c. is_alnum c \<or> c \<in> set ''/_.:@+-'') (tl s)"

definition MODEL_PRICE_FIELDS :: "string list" where
  "MODEL_PRICE_FIELDS = [''model'', ''inputUsdPerMillion'', ''outputUsdPerMillion'', ''cacheReadUsdPerMillion'', ''cacheWriteUsdPerMillion'']"

fun ModelPriceSchema :: "jsval \<Rightarrow> model_price option" where
  "ModelPriceSchema (JObj fs) =
     (if \<not> list_all (\<lambda>(k, v). k \<in> set MODEL_PRICE_FIELDS) fs then None
      else (case (as_string (js_field (JObj fs) ''model''), Price (js_field (JObj fs) ''inputUsdPerMillion''),
               Price (js_field (JObj fs) ''outputUsdPerMillion''), Price (js_field (JObj fs) ''cacheReadUsdPerMillion''),
               Price (js_field (JObj fs) ''cacheWriteUsdPerMillion'')) of
             (Some m, Some a, Some b, Some c, Some d) \<Rightarrow>
               (let m = trim m in
                if length m < 1 \<or> length m > 200 \<or> \<not> model_name_chars m then None
                else Some \<lparr>mp_model = m, mp_inputUsd = a, mp_outputUsd = b, mp_cacheReadUsd = c, mp_cacheWriteUsd = d\<rparr>)
           | _ \<Rightarrow> None))"
| "ModelPriceSchema _ = None"

fun PricesSchema :: "jsval \<Rightarrow> model_price list option" where
  "PricesSchema (JArr vs) =
     (if length vs > 100 \<or> \<not> list_all (\<lambda>v. ModelPriceSchema v \<noteq> None) vs then None
      else let ps = List.map (the \<circ> ModelPriceSchema) vs in
        if distinct (List.map (priceModelId \<circ> mp_model) ps) then Some ps else None)"
| "PricesSchema _ = None"

text \<open>\<^verbatim>\<open>get\<close> of the price store: \<open>None\<close> when the storage call threw.\<close>

definition prices_get :: "(bytes \<Rightarrow> jsval option) \<Rightarrow> bytes option option \<Rightarrow> model_price list option" where
  "prices_get json_parse answer =
     (case answer of
        None \<Rightarrow> None
      | Some None \<Rightarrow> Some []
      | Some (Some b) \<Rightarrow>
          (case json_parse b of None \<Rightarrow> Some []
           | Some v \<Rightarrow> (case PricesSchema v of None \<Rightarrow> Some [] | Some ps \<Rightarrow> Some ps)))"

definition hundredfold :: "rat \<Rightarrow> nat" where
  "hundredfold usd = nat \<lfloor>usd * 100 + 1/2\<rfloor>"

definition rateFor :: "string option \<Rightarrow> model_price list \<Rightarrow> rate" where
  "rateFor model prices =
     (case model of
        None \<Rightarrow> OPUS
      | Some name \<Rightarrow>
          (case List.find (\<lambda>p. priceModelId (mp_model p) = priceModelId name) prices of
             Some c \<Rightarrow> \<lparr>rt_in = hundredfold (mp_inputUsd c), rt_out = hundredfold (mp_outputUsd c),
               rt_cacheRead = hundredfold (mp_cacheReadUsd c), rt_cacheWrite = hundredfold (mp_cacheWriteUsd c)\<rparr>
           | None \<Rightarrow>
               let m = List.map lower_char name in
               if \<not> has_sub ''claude'' m then OPUS
               else if has_sub ''haiku'' m then HAIKU
               else if has_sub ''sonnet'' m then SONNET
               else OPUS))"

record token_usage =
  tk_inputTokens :: jsval
  tk_outputTokens :: jsval
  tk_cacheReadTokens :: jsval
  tk_cacheWriteTokens :: jsval

fun tokens :: "jsval \<Rightarrow> nat" where
  "tokens (JNum (Fin q)) = (if q \<le> 0 then 0 else nat \<lceil>q\<rceil>)"
| "tokens _ = 0"

definition costMicros :: "string option \<Rightarrow> token_usage \<Rightarrow> model_price list \<Rightarrow> nat" where
  "costMicros model usage prices =
     (let r = rateFor model prices;
          hundredths = tokens (tk_inputTokens usage) * rt_in r + tokens (tk_outputTokens usage) * rt_out r +
            tokens (tk_cacheReadTokens usage) * rt_cacheRead r + tokens (tk_cacheWriteTokens usage) * rt_cacheWrite r
      in nat \<lceil>of_nat hundredths / (100 :: rat)\<rceil>)"

subsection \<open>Unknown is never cheap\<close>

definition rate_le :: "rate \<Rightarrow> rate \<Rightarrow> bool" where
  "rate_le r s \<longleftrightarrow> rt_in r \<le> rt_in s \<and> rt_out r \<le> rt_out s \<and> rt_cacheRead r \<le> rt_cacheRead s \<and> rt_cacheWrite r \<le> rt_cacheWrite s"

lemma rateFor_built_in: "rate_le (rateFor model []) OPUS \<and> rate_le HAIKU (rateFor model [])"
  by (auto simp: rateFor_def Let_def rate_le_def OPUS_def HAIKU_def SONNET_def split: option.split)

definition usage_le :: "token_usage \<Rightarrow> token_usage \<Rightarrow> bool" where
  "usage_le u v \<longleftrightarrow> tokens (tk_inputTokens u) \<le> tokens (tk_inputTokens v) \<and> tokens (tk_outputTokens u) \<le> tokens (tk_outputTokens v) \<and>
     tokens (tk_cacheReadTokens u) \<le> tokens (tk_cacheReadTokens v) \<and> tokens (tk_cacheWriteTokens u) \<le> tokens (tk_cacheWriteTokens v)"

lemma costMicros_mono:
  assumes "rate_le (rateFor m ps) (rateFor n qs)" "usage_le u v"
  shows "costMicros m u ps \<le> costMicros n v qs"
proof -
  have up: "x \<le> y \<Longrightarrow> nat \<lceil>of_nat x / (100 :: rat)\<rceil> \<le> nat \<lceil>of_nat y / (100 :: rat)\<rceil>" for x y :: nat
    by (intro nat_mono ceiling_mono divide_right_mono) simp_all
  have "tokens (tk_inputTokens u) * rt_in (rateFor m ps) + tokens (tk_outputTokens u) * rt_out (rateFor m ps) +
      tokens (tk_cacheReadTokens u) * rt_cacheRead (rateFor m ps) + tokens (tk_cacheWriteTokens u) * rt_cacheWrite (rateFor m ps)
    \<le> tokens (tk_inputTokens v) * rt_in (rateFor n qs) + tokens (tk_outputTokens v) * rt_out (rateFor n qs) +
      tokens (tk_cacheReadTokens v) * rt_cacheRead (rateFor n qs) + tokens (tk_cacheWriteTokens v) * rt_cacheWrite (rateFor n qs)"
    using assms by (intro add_mono mult_mono) (simp_all add: rate_le_def usage_le_def)
  then show ?thesis unfolding costMicros_def Let_def by (rule up)
qed

end
