(* ===== verification/Usage_Service.thy ===== *)
theory Usage_Service
  imports Usage_Limits
begin

text \<open>
  The gate and the meters over the ledger, after \<^verbatim>\<open>packages/usage-limits/src/service.ts\<close>, and the status
  an admin sees, after \<^verbatim>\<open>routes.ts\<close>. Payloads are untyped values. Each call of the store, the
  limits or the prices may fail: the environment says which do; a write may also fail after it took effect.
  Log lines and token columns are left out.
\<close>

section \<open>Payloads\<close>

definition MAX_TOKENS :: nat where
  "MAX_TOKENS = 1000000000"

fun TokenCount :: "jsval \<Rightarrow> nat option" where
  "TokenCount (JNum (Fin q)) = (if q \<in> \<int> then Some (min MAX_TOKENS (nat (max 0 \<lfloor>q\<rfloor>))) else None)"
| "TokenCount _ = None"

text \<open>\<^verbatim>\<open>TokenCount.optional()\<close>, and \<^verbatim>\<open>z.string().max(200).optional().catch(undefined)\<close>.\<close>

definition optional_count :: "jsval \<Rightarrow> nat option option" where
  "optional_count v = (if v = JUndef then Some None else map_option Some (TokenCount v))"

definition model_name :: "jsval \<Rightarrow> string option" where
  "model_name v = (case as_string v of None \<Rightarrow> None | Some s \<Rightarrow> if length s \<le> 200 then Some s else None)"

record turn_usage =
  tu_model :: "string option"
  tu_input :: "nat option"
  tu_output :: "nat option"
  tu_cacheRead :: "nat option"
  tu_cacheWrite :: "nat option"

fun TurnUsageSchema :: "jsval \<Rightarrow> turn_usage option" where
  "TurnUsageSchema (JObj fs) =
     (case (optional_count (js_field (JObj fs) ''inputTokens''), optional_count (js_field (JObj fs) ''outputTokens''),
            optional_count (js_field (JObj fs) ''cacheReadTokens''), optional_count (js_field (JObj fs) ''cacheWriteTokens'')) of
        (Some a, Some b, Some c, Some d) \<Rightarrow>
          Some \<lparr>tu_model = model_name (js_field (JObj fs) ''model''), tu_input = a, tu_output = b, tu_cacheRead = c, tu_cacheWrite = d\<rparr>
      | _ \<Rightarrow> None)"
| "TurnUsageSchema _ = None"

definition counts :: "nat \<Rightarrow> nat \<Rightarrow> nat \<Rightarrow> nat \<Rightarrow> token_usage" where
  "counts a b c d = \<lparr>tk_inputTokens = JNum (Fin (of_nat a)), tk_outputTokens = JNum (Fin (of_nat b)),
     tk_cacheReadTokens = JNum (Fin (of_nat c)), tk_cacheWriteTokens = JNum (Fin (of_nat d))\<rparr>"

fun LlmUsageSchema :: "jsval \<Rightarrow> (string option \<times> nat \<times> nat) option" where
  "LlmUsageSchema (JObj fs) =
     (case js_field (JObj fs) ''usage'' of
        JObj us \<Rightarrow>
          (case (TokenCount (js_field (JObj us) ''inputTokens''), TokenCount (js_field (JObj us) ''outputTokens'')) of
             (Some a, Some b) \<Rightarrow> Some (model_name (js_field (JObj fs) ''model''), a, b)
           | _ \<Rightarrow> None)
      | _ \<Rightarrow> None)"
| "LlmUsageSchema _ = None"

text \<open>\<^verbatim>\<open>z.number().finite().nonnegative()\<close>.\<close>

fun nonneg_number :: "jsval \<Rightarrow> rat option" where
  "nonneg_number (JNum (Fin q)) = (if 0 \<le> q then Some q else None)"
| "nonneg_number _ = None"

fun nullable_number :: "jsval \<Rightarrow> rat option option" where
  "nullable_number JNull = Some None"
| "nullable_number v = map_option Some (nonneg_number v)"

text \<open>What is left of \<^verbatim>\<open>partial\<close>: the bytes and whether they were streamed.\<close>

fun partial_field :: "jsval \<Rightarrow> (rat \<times> bool) option" where
  "partial_field (JObj fs) =
     (case (nonneg_number (js_field (JObj fs) ''bytes''), as_bool (js_field (JObj fs) ''streamed'')) of
        (Some n, Some s) \<Rightarrow> Some (n, s) | _ \<Rightarrow> None)"
| "partial_field _ = None"

fun provider_counts :: "jsval \<Rightarrow> (nat \<times> nat \<times> nat \<times> nat) option option" where
  "provider_counts JNull = Some None"
| "provider_counts (JObj us) =
     (case (TokenCount (js_field (JObj us) ''inputTokens''), TokenCount (js_field (JObj us) ''outputTokens''),
            TokenCount (js_field (JObj us) ''cacheReadTokens''), TokenCount (js_field (JObj us) ''cacheWriteTokens'')) of
        (Some a, Some b, Some c, Some d) \<Rightarrow> Some (Some (a, b, c, d)) | _ \<Rightarrow> None)"
| "provider_counts _ = None"

record provider_report =
  pv_model :: "string option"
  pv_usage :: "(nat \<times> nat \<times> nat \<times> nat) option"
  pv_requestBytes :: "rat option"
  pv_partial :: "(rat \<times> bool) option"

fun ProviderRecordSchema :: "jsval \<Rightarrow> provider_report option" where
  "ProviderRecordSchema (JObj fs) =
     (case (provider_counts (js_field (JObj fs) ''usage''), nullable_number (js_field (JObj fs) ''requestBytes'')) of
        (Some u, Some n) \<Rightarrow>
          Some \<lparr>pv_model = model_name (js_field (JObj fs) ''model''), pv_usage = u, pv_requestBytes = n,
            pv_partial = partial_field (js_field (JObj fs) ''partial'')\<rparr>
      | _ \<Rightarrow> None)"
| "ProviderRecordSchema _ = None"

section \<open>What a response costs\<close>

definition UNMEASURED_INPUT_TOKENS_UNKNOWN_SIZE :: nat where
  "UNMEASURED_INPUT_TOKENS_UNKNOWN_SIZE = 200000"

definition UNMEASURED_OUTPUT_TOKENS :: nat where
  "UNMEASURED_OUTPUT_TOKENS = 4096"

definition UNMEASURED_BYTES_PER_TOKEN :: rat where
  "UNMEASURED_BYTES_PER_TOKEN = 3"

definition PARTIAL_STREAMED_BYTES_PER_TOKEN :: rat where
  "PARTIAL_STREAMED_BYTES_PER_TOKEN = 8"

definition PARTIAL_OTHER_BYTES_PER_TOKEN :: rat where
  "PARTIAL_OTHER_BYTES_PER_TOKEN = 3"

definition partialOutputFloor :: "(rat \<times> bool) option \<Rightarrow> nat" where
  "partialOutputFloor part =
     (case part of
        None \<Rightarrow> 0
      | Some (n, streamed) \<Rightarrow>
          let perToken = (if streamed then PARTIAL_STREAMED_BYTES_PER_TOKEN else PARTIAL_OTHER_BYTES_PER_TOKEN)
          in min MAX_TOKENS (nat \<lceil>n / perToken\<rceil>))"

definition unmeasuredCostMicros :: "rat option \<Rightarrow> (rat \<times> bool) option \<Rightarrow> nat" where
  "unmeasuredCostMicros requestBytes part =
     (let inputTokens = (case requestBytes of None \<Rightarrow> UNMEASURED_INPUT_TOKENS_UNKNOWN_SIZE
            | Some n \<Rightarrow> min MAX_TOKENS (nat \<lceil>n / UNMEASURED_BYTES_PER_TOKEN\<rceil>));
          outputTokens = max UNMEASURED_OUTPUT_TOKENS (partialOutputFloor part)
      in costMicros None (counts inputTokens outputTokens 0 0) [])"

text \<open>The cost of a proxy report; \<open>None\<close> when the prices could not be read.\<close>

definition provider_cost :: "jsval \<Rightarrow> model_price list option \<Rightarrow> nat option" where
  "provider_cost payload prices =
     (case ProviderRecordSchema payload of
        None \<Rightarrow> Some (unmeasuredCostMicros None None)
      | Some p \<Rightarrow>
          (case pv_usage p of
             None \<Rightarrow> Some (unmeasuredCostMicros (pv_requestBytes p) (pv_partial p))
           | Some (a, b, c, d) \<Rightarrow>
               map_option (costMicros (pv_model p) (counts a (max b (partialOutputFloor (pv_partial p))) c d)) prices))"

definition assumed_micros :: "usage_limits \<Rightarrow> nat" where
  "assumed_micros l = nat \<lceil>lm_assumedTurnCostUsd l * 1000000\<rceil>"

section \<open>The service\<close>

record usage_ctx =
  cx_userId :: jsval
  cx_reqId :: string

datatype fate = Works | Breaks | BreaksLate

text \<open>What happens around one call: the clock when it starts and later, what the limits and the prices
  answer (\<open>None\<close>: they threw), and which calls of the store work.\<close>

record usage_env =
  en_now :: int
  en_later :: int
  en_limits :: "usage_limits option"
  en_prices :: "model_price list option"
  en_overrides_ok :: bool
  en_status_ok :: bool
  en_fleet_ok :: bool
  en_write :: fate

definition attempt :: "fate \<Rightarrow> (usage_db \<Rightarrow> 'a \<times> usage_db) \<Rightarrow> usage_db \<Rightarrow> 'a option \<times> usage_db" where
  "attempt f op db =
     (case f of
        Works \<Rightarrow> (Some (fst (op db)), snd (op db))
      | Breaks \<Rightarrow> (None, db)
      | BreaksLate \<Rightarrow> (None, snd (op db)))"

definition hasUser :: "usage_ctx \<Rightarrow> string option" where
  "hasUser ctx = (case as_string (cx_userId ctx) of None \<Rightarrow> None | Some u \<Rightarrow> if length u > 0 then Some u else None)"

definition overlay :: "usage_limits \<Rightarrow> user_limits option \<Rightarrow> usage_limits" where
  "overlay l overrides =
     (case overrides of
        None \<Rightarrow> l
      | Some x \<Rightarrow> l\<lparr>lm_dailySpendUsd := (case ul_dailySpendUsd x of None \<Rightarrow> lm_dailySpendUsd l | Some d \<Rightarrow> d),
           lm_turnsPerHour := (case ul_turnsPerHour x of None \<Rightarrow> lm_turnsPerHour l | Some n \<Rightarrow> n)\<rparr>)"

definition effectiveLimits :: "usage_env \<Rightarrow> string \<Rightarrow> usage_db \<Rightarrow> usage_limits option" where
  "effectiveLimits env u db =
     (case en_limits env of
        None \<Rightarrow> None
      | Some l \<Rightarrow> if en_overrides_ok env then Some (overlay l (getUserLimits u db)) else None)"

datatype service_reason = Refused refusal | CheckUnavailable

text \<open>An answer \<open>None\<close> is \<^verbatim>\<open>ok: true\<close> and \<^verbatim>\<open>blocked: false\<close>.\<close>

definition admitTurn :: "usage_env \<Rightarrow> usage_ctx \<Rightarrow> usage_db \<Rightarrow> service_reason option \<times> usage_db" where
  "admitTurn env ctx db =
     (case hasUser ctx of
        None \<Rightarrow> (Some CheckUnavailable, db)
      | Some u \<Rightarrow>
          (case effectiveLimits env u db of
             None \<Rightarrow> (Some CheckUnavailable, db)
           | Some lm \<Rightarrow>
               (case attempt (en_write env) (admit_turn u lm (en_now env) (Some (cx_reqId ctx))) db of
                  (None, db) \<Rightarrow> (Some CheckUnavailable, db)
                | (Some r, db) \<Rightarrow> (map_option Refused r, db))))"

definition checkUsage :: "usage_env \<Rightarrow> usage_ctx \<Rightarrow> usage_db \<Rightarrow> service_reason option" where
  "checkUsage env ctx db =
     (case hasUser ctx of
        None \<Rightarrow> Some CheckUnavailable
      | Some u \<Rightarrow>
          (case effectiveLimits env u db of
             None \<Rightarrow> Some CheckUnavailable
           | Some lm \<Rightarrow>
               if \<not> en_status_ok env then Some CheckUnavailable
               else let user = userSummary u (en_now env) db in
                 if sm_suspended user \<noteq> None then Some (Refused UsageSuspended)
                 else if \<not> en_fleet_ok env then Some CheckUnavailable
                 else if int (fleetSpend (en_later env) (ut_buckets db)) \<ge> micros (lm_fleetDailySpendUsd lm) then Some (Refused UsageLimitFleet)
                 else if int (sm_spendMicros user) \<ge> micros (lm_dailySpendUsd lm) then Some (Refused UsageLimitDaily)
                 else None))"

definition service_status :: "usage_env \<Rightarrow> usage_ctx \<Rightarrow> usage_db \<Rightarrow> service_reason option" where
  "service_status env ctx db =
     (case hasUser ctx of
        None \<Rightarrow> Some CheckUnavailable
      | Some u \<Rightarrow>
          (case effectiveLimits env u db of
             None \<Rightarrow> Some CheckUnavailable
           | Some lm \<Rightarrow>
               if \<not> en_status_ok env then Some CheckUnavailable
               else map_option Refused (providerStatus u lm (en_later env) db)))"

definition providerRecord :: "usage_env \<Rightarrow> usage_ctx \<Rightarrow> jsval \<Rightarrow> usage_db \<Rightarrow> service_reason option \<times> usage_db" where
  "providerRecord env ctx payload db =
     (case hasUser ctx of
        None \<Rightarrow> (Some CheckUnavailable, db)
      | Some u \<Rightarrow>
          (case provider_cost payload (en_prices env) of
             None \<Rightarrow> (Some CheckUnavailable, db)
           | Some cost \<Rightarrow>
               (case attempt (en_write env) (\<lambda>db. ((), recordProvider u cost (en_now env) db)) db of
                  (None, db) \<Rightarrow> (Some CheckUnavailable, db)
                | (Some _, db) \<Rightarrow> (service_status env ctx db, db))))"

text \<open>\<^verbatim>\<open>typeof p.reqId === 'string' ? p.reqId : ctx.reqId\<close>.\<close>

definition request_of :: "usage_ctx \<Rightarrow> jsval \<Rightarrow> string" where
  "request_of ctx payload = (case as_string (js_field payload ''reqId'') of None \<Rightarrow> cx_reqId ctx | Some r \<Rightarrow> r)"

definition recordAbnormalEnd :: "usage_env \<Rightarrow> usage_ctx \<Rightarrow> jsval \<Rightarrow> usage_db \<Rightarrow> usage_db" where
  "recordAbnormalEnd env ctx payload db =
     (case hasUser ctx of
        None \<Rightarrow> db
      | Some u \<Rightarrow>
          if \<not> is_object payload then db
          else let outcome = js_field payload ''outcome'' in
            if outcome \<noteq> JUndef \<and> js_field outcome ''kind'' \<noteq> JStr ''terminated'' then db
            else (case en_limits env of
                None \<Rightarrow> db
              | Some l \<Rightarrow> snd (attempt (en_write env)
                  (\<lambda>db. ((), settleTurn u (request_of ctx payload) (assumed_micros l) (en_now env) False db)) db)))"

definition turn_cost :: "usage_env \<Rightarrow> jsval \<Rightarrow> nat option" where
  "turn_cost env usage =
     (case (if usage = JUndef \<or> usage = JNull then None else TurnUsageSchema usage) of
        None \<Rightarrow> map_option assumed_micros (en_limits env)
      | Some u \<Rightarrow>
          if tu_input u = None \<and> tu_output u = None \<and> tu_cacheRead u = None \<and> tu_cacheWrite u = None
          then map_option assumed_micros (en_limits env)
          else let count = case_option 0 id in
            map_option (costMicros (tu_model u)
              (counts (count (tu_input u)) (count (tu_output u)) (count (tu_cacheRead u)) (count (tu_cacheWrite u)))) (en_prices env))"

definition recordTurnEnd :: "usage_env \<Rightarrow> usage_ctx \<Rightarrow> jsval \<Rightarrow> usage_db \<Rightarrow> usage_db" where
  "recordTurnEnd env ctx payload db =
     (if \<not> is_object payload then db
      else if js_field payload ''role'' \<noteq> JStr ''assistant'' then db
      else (case hasUser ctx of
          None \<Rightarrow> db
        | Some u \<Rightarrow>
            (case turn_cost env (js_field payload ''usage'') of
               None \<Rightarrow> db
             | Some cost \<Rightarrow> snd (attempt (en_write env)
                 (\<lambda>db. ((), settleTurn u (request_of ctx payload) cost (en_now env) True db)) db))))"

definition recordLlmUsage :: "usage_env \<Rightarrow> usage_ctx \<Rightarrow> jsval \<Rightarrow> usage_db \<Rightarrow> usage_db" where
  "recordLlmUsage env ctx event db =
     (case hasUser ctx of
        None \<Rightarrow> db
      | Some u \<Rightarrow>
          (case LlmUsageSchema event of
             None \<Rightarrow> db
           | Some (m, a, b) \<Rightarrow>
               (case en_prices env of
                  None \<Rightarrow> db
                | Some prices \<Rightarrow> snd (attempt (en_write env)
                    (\<lambda>db. ((), recordHelper u (costMicros m (counts a b 0 0) prices) (en_now env) db)) db))))"

section \<open>Properties\<close>

lemma attempt_Some: "attempt f op db = (Some x, db') \<longleftrightarrow> f = Works \<and> op db = (x, db')"
  by (cases f) (auto simp: attempt_def prod_eq_iff)

subsection \<open>The gates fail closed\<close>

definition demo_env :: usage_env where
  "demo_env = \<lparr>en_now = 60000, en_later = 60005, en_limits = Some DEFAULT_LIMITS, en_prices = Some [], en_overrides_ok = True,
     en_status_ok = True, en_fleet_ok = True, en_write = Works\<rparr>"

definition demo_ctx :: usage_ctx where
  "demo_ctx = \<lparr>cx_userId = JStr ''u'', cx_reqId = ''r''\<rparr>"

lemmas demo_usage_simps = demo_env_def demo_ctx_def hasUser_def effectiveLimits_def overlay_def getUserLimits_def empty_usage_def
  DEFAULT_LIMITS_def

text \<open>A turn starts only when the caller is known, the limits and the user's own limits could be read, and
  the ledger admitted it under them; whatever fails, the turn is refused.\<close>

theorem admitted_turns_passed_the_ledger:
  assumes "admitTurn env ctx db = (None, db')"
  shows "\<exists>u l. hasUser ctx = Some u \<and> en_limits env = Some l \<and> en_overrides_ok env \<and> en_write env = Works \<and>
    admit_turn u (overlay l (getUserLimits u db)) (en_now env) (Some (cx_reqId ctx)) db = (None, db')"
  using assms by (auto simp: admitTurn_def effectiveLimits_def attempt_Some split: option.splits prod.splits if_splits)

lemma admitted_turns_passed_the_ledger_witness:
  "\<exists>db' u l. admitTurn demo_env demo_ctx (empty_usage []) = (None, db') \<and>
     hasUser demo_ctx = Some u \<and> en_limits demo_env = Some l \<and> en_overrides_ok demo_env \<and> en_write demo_env = Works \<and>
     admit_turn u (overlay l (getUserLimits u (empty_usage [] :: usage_db))) (en_now demo_env) (Some (cx_reqId demo_ctx)) (empty_usage []) = (None, db')"
proof -
  obtain r db' where run: "admitTurn demo_env demo_ctx (empty_usage []) = (r, db')" by (rule prod.exhaust)
  then have "r = None"
    by (auto simp: admitTurn_def demo_usage_simps attempt_def admit_turn_def admit_check_def getSuspension_def user_spend_def
        SPEND_MICROS_def sum_since_def fleetSpend_def users_since_def micros_def)
  with run have run: "admitTurn demo_env demo_ctx (empty_usage []) = (None, db')" by (simp only:)
  show ?thesis by (rule exI[of _ db']) (use run admitted_turns_passed_the_ledger[OF run] in \<open>simp only: simp_thms ex_simps\<close>)
qed

text \<open>C17. After a call through the proxy the user's key stays unlocked only when the call was charged to the
  ledger, and the ledger, with that charge in it, does not block the user.\<close>

theorem unlocked_key_was_charged:
  assumes "providerRecord env ctx payload db = (None, db')"
  shows "\<exists>u l cost. hasUser ctx = Some u \<and> en_limits env = Some l \<and> provider_cost payload (en_prices env) = Some cost \<and>
    db' = recordProvider u cost (en_now env) db \<and> providerStatus u (overlay l (getUserLimits u db')) (en_later env) db' = None"
  using assms by (auto simp: providerRecord_def service_status_def effectiveLimits_def attempt_Some split: option.splits prod.splits if_splits)

lemma unlocked_key_was_charged_witness:
  "\<exists>db' u l cost. providerRecord demo_env demo_ctx JNull (empty_usage []) = (None, db') \<and>
     hasUser demo_ctx = Some u \<and> en_limits demo_env = Some l \<and> provider_cost JNull (en_prices demo_env) = Some cost \<and>
     db' = recordProvider u cost (en_now demo_env) (empty_usage []) \<and>
     providerStatus u (overlay l (getUserLimits u db')) (en_later demo_env) db' = None"
proof -
  obtain r db' where run: "providerRecord demo_env demo_ctx JNull (empty_usage []) = (r, db')" by (rule prod.exhaust)
  then have "r = None"
    by (auto simp: providerRecord_def service_status_def demo_usage_simps attempt_def provider_cost_def unmeasuredCostMicros_def
        partialOutputFloor_def counts_def costMicros_def rateFor_def OPUS_def UNMEASURED_INPUT_TOKENS_UNKNOWN_SIZE_def
        UNMEASURED_OUTPUT_TOKENS_def recordProvider_def addToBucket_def provider_delta_def providerStatus_def provider_check_def
        getSuspension_def user_spend_def SPEND_MICROS_def sum_since_def fleetSpend_def users_since_def micros_def
        PROVIDER_CEILING_MULTIPLE_def floorToMinute_def MINUTE_MS_def HOUR_MS_def DAY_MS_def)
  with run have run: "providerRecord demo_env demo_ctx JNull (empty_usage []) = (None, db')" by (simp only:)
  show ?thesis by (rule exI[of _ db']) (use run unlocked_key_was_charged[OF run] in \<open>simp only: simp_thms ex_simps\<close>)
qed

subsection \<open>Unknown is never cheap\<close>

lemma tokens_count [simp]: "tokens (JNum (Fin (of_nat n))) = n"
  by simp

lemma usage_le_counts: "usage_le (counts a b c d) (counts a' b' c' d') \<longleftrightarrow> a \<le> a' \<and> b \<le> b' \<and> c \<le> c' \<and> d \<le> d'"
  by (simp add: usage_le_def counts_def del: tokens.simps)

lemma rate_le_refl [simp]: "rate_le r r"
  by (simp add: rate_le_def)

text \<open>The same report without its mark of an early end; and without the name of its model.\<close>

definition unmarked :: "jsval \<Rightarrow> jsval \<Rightarrow> bool" where
  "unmarked v w \<longleftrightarrow> ProviderRecordSchema w \<noteq> None \<and>
     ProviderRecordSchema v = map_option (\<lambda>p. p\<lparr>pv_partial := None\<rparr>) (ProviderRecordSchema w)"

definition unnamed :: "jsval \<Rightarrow> jsval \<Rightarrow> bool" where
  "unnamed v w \<longleftrightarrow> ProviderRecordSchema v \<noteq> None \<and>
     ProviderRecordSchema w = map_option (\<lambda>p. p\<lparr>pv_model := None\<rparr>) (ProviderRecordSchema v)"

lemma unread_cost:
  "unmeasuredCostMicros n None \<le> unmeasuredCostMicros n part" "307200 \<le> unmeasuredCostMicros n part"
  "unmeasuredCostMicros None None = 3307200"
proof -
  show "unmeasuredCostMicros n None \<le> unmeasuredCostMicros n part"
    unfolding unmeasuredCostMicros_def Let_def by (rule costMicros_mono) (simp_all add: usage_le_counts partialOutputFloor_def)
  have "costMicros None (counts 0 4096 0 0) [] \<le> unmeasuredCostMicros n part"
    unfolding unmeasuredCostMicros_def Let_def by (rule costMicros_mono) (simp_all add: usage_le_counts UNMEASURED_OUTPUT_TOKENS_def)
  moreover have "costMicros None (counts 0 4096 0 0) [] = 307200"
    by (simp add: costMicros_def rateFor_def OPUS_def counts_def)
  ultimately show "307200 \<le> unmeasuredCostMicros n part" by simp
  show "unmeasuredCostMicros None None = 3307200"
    by (simp add: unmeasuredCostMicros_def partialOutputFloor_def costMicros_def rateFor_def OPUS_def counts_def
        UNMEASURED_INPUT_TOKENS_UNKNOWN_SIZE_def UNMEASURED_OUTPUT_TOKENS_def)
qed

lemma provider_cost_measured:
  assumes "ProviderRecordSchema v = Some p" "pv_usage p = Some (a, b, c, d)"
  shows "provider_cost v prices =
    map_option (costMicros (pv_model p) (counts a (max b (partialOutputFloor (pv_partial p))) c d)) prices"
  using assms by (simp add: provider_cost_def)

lemma provider_cost_unread:
  assumes "ProviderRecordSchema v = Some p" "pv_usage p = None"
  shows "provider_cost v prices = Some (unmeasuredCostMicros (pv_requestBytes p) (pv_partial p))"
  using assms by (simp add: provider_cost_def)

lemma unmarked_costs_no_more:
  assumes "unmarked v w" "provider_cost v prices = Some n" "provider_cost w prices = Some k"
  shows "n \<le> k"
proof -
  obtain q where q: "ProviderRecordSchema w = Some q" "ProviderRecordSchema v = Some (q\<lparr>pv_partial := None\<rparr>)"
    using assms(1) by (auto simp: unmarked_def)
  show ?thesis
  proof (cases "pv_usage q")
    case None
    then show ?thesis using assms(2,3) unread_cost(1)[of "pv_requestBytes q" "pv_partial q"]
        provider_cost_unread[OF q(1)] provider_cost_unread[OF q(2)] by simp
  next
    case (Some u)
    then obtain a b c d where u: "pv_usage q = Some (a, b, c, d)" by (cases u) auto
    then have "provider_cost v prices = map_option (costMicros (pv_model q) (counts a (max b (partialOutputFloor None)) c d)) prices"
      "provider_cost w prices = map_option (costMicros (pv_model q) (counts a (max b (partialOutputFloor (pv_partial q))) c d)) prices"
      using provider_cost_measured[OF q(1) u] provider_cost_measured[OF q(2), of a b c d] by simp_all
    then show ?thesis using assms(2,3) by (cases prices) (auto intro!: costMicros_mono simp: usage_le_counts partialOutputFloor_def)
  qed
qed

lemma unnamed_costs_no_less:
  assumes "unnamed v w" "provider_cost v (Some []) = Some n" "provider_cost w (Some []) = Some k"
  shows "n \<le> k"
proof -
  obtain p where p: "ProviderRecordSchema v = Some p" "ProviderRecordSchema w = Some (p\<lparr>pv_model := None\<rparr>)"
    using assms(1) by (auto simp: unnamed_def)
  show ?thesis
  proof (cases "pv_usage p")
    case None
    then show ?thesis using assms(2,3) p provider_cost_unread by simp
  next
    case (Some u)
    then obtain a b c d where u: "pv_usage p = Some (a, b, c, d)" by (cases u) auto
    have "costMicros m x [] \<le> costMicros None x []" for m x
      using rateFor_built_in[of m] by (intro costMicros_mono) (simp_all add: usage_le_def rateFor_def)
    then show ?thesis using assms(2,3) u provider_cost_measured[OF p(1) u] provider_cost_measured[OF p(2), of a b c d] by auto
  qed
qed

text \<open>C30. What the proxy could not measure is never cheap. A report that cannot be read costs the flat guess. A
  readable report of a response nobody could read costs at least 4096 output tokens of the dearest model. A
  measured response costs at least what was counted, and one that ended early also at least an output token
  for every 8 bytes that arrived streamed, or every 3 that arrived otherwise, up to the cap on a count. A
  report of a response that ended early never costs less than the same report without that mark, and with
  the built-in prices naming the model never costs more than leaving it out.\<close>

theorem unknown_is_never_cheap:
  "(ProviderRecordSchema v = None \<longrightarrow> provider_cost v prices = Some 3307200) \<and>
   (\<forall>p. ProviderRecordSchema v = Some p \<and> pv_usage p = None \<longrightarrow> (\<exists>n. provider_cost v prices = Some n \<and> 307200 \<le> n)) \<and>
   (\<forall>p a b c d ps. ProviderRecordSchema v = Some p \<and> pv_usage p = Some (a, b, c, d) \<and> prices = Some ps \<longrightarrow>
      (\<exists>n. provider_cost v prices = Some n \<and> costMicros (pv_model p) (counts a b c d) ps \<le> n \<and>
        (\<forall>arrived streamed. pv_partial p = Some (arrived, streamed) \<longrightarrow>
          costMicros (pv_model p)
            (counts a (min MAX_TOKENS (nat \<lceil>arrived / (if streamed then 8 else 3)\<rceil>)) c d) ps \<le> n))) \<and>
   (\<forall>w n k. unmarked v w \<and> provider_cost v prices = Some n \<and> provider_cost w prices = Some k \<longrightarrow> n \<le> k) \<and>
   (\<forall>w n k. unnamed v w \<and> provider_cost v (Some []) = Some n \<and> provider_cost w (Some []) = Some k \<longrightarrow> n \<le> k)"
proof (intro conjI allI impI)
  show "ProviderRecordSchema v = None \<Longrightarrow> provider_cost v prices = Some 3307200"
    by (simp add: provider_cost_def unread_cost(3))
next
  fix p assume "ProviderRecordSchema v = Some p \<and> pv_usage p = None"
  then show "\<exists>n. provider_cost v prices = Some n \<and> 307200 \<le> n" using provider_cost_unread unread_cost(2) by blast
next
  fix p a b c d ps
  assume p: "ProviderRecordSchema v = Some p \<and> pv_usage p = Some (a, b, c, d) \<and> prices = Some ps"
  let ?n = "costMicros (pv_model p) (counts a (max b (partialOutputFloor (pv_partial p))) c d) ps"
  have "provider_cost v prices = Some ?n" using p provider_cost_measured[of v p a b c d prices] by simp
  moreover have "costMicros (pv_model p) (counts a b c d) ps \<le> ?n" by (rule costMicros_mono) (simp_all add: usage_le_counts)
  moreover have "costMicros (pv_model p) (counts a (min MAX_TOKENS (nat \<lceil>arrived / (if streamed then 8 else 3)\<rceil>)) c d) ps \<le> ?n"
    if "pv_partial p = Some (arrived, streamed)" for arrived streamed
  proof -
    have "partialOutputFloor (pv_partial p) = min MAX_TOKENS (nat \<lceil>arrived / (if streamed then 8 else 3)\<rceil>)"
      by (simp add: that partialOutputFloor_def PARTIAL_STREAMED_BYTES_PER_TOKEN_def PARTIAL_OTHER_BYTES_PER_TOKEN_def)
    then show ?thesis by (intro costMicros_mono) (simp_all add: usage_le_counts)
  qed
  ultimately show "\<exists>n. provider_cost v prices = Some n \<and> costMicros (pv_model p) (counts a b c d) ps \<le> n \<and>
      (\<forall>arrived streamed. pv_partial p = Some (arrived, streamed) \<longrightarrow>
        costMicros (pv_model p) (counts a (min MAX_TOKENS (nat \<lceil>arrived / (if streamed then 8 else 3)\<rceil>)) c d) ps \<le> n)"
    by blast
qed (use unmarked_costs_no_more unnamed_costs_no_less in blast)+

text \<open>A report of 800 streamed bytes with 3 tokens counted.\<close>

definition demo_report :: jsval where
  "demo_report = JObj [(''model'', JStr ''claude''),
     (''usage'', JObj [(''inputTokens'', JNum (Fin 5)), (''outputTokens'', JNum (Fin 3)),
        (''cacheReadTokens'', JNum (Fin 0)), (''cacheWriteTokens'', JNum (Fin 0))]),
     (''requestBytes'', JNull), (''partial'', JObj [(''bytes'', JNum (Fin 800)), (''streamed'', JBool True)])]"

lemma unknown_is_never_cheap_witness:
  "\<exists>n. provider_cost demo_report (Some []) = Some n \<and> costMicros (Some ''claude'') (counts 5 3 0 0) [] \<le> n \<and>
     costMicros (Some ''claude'') (counts 5 100 0 0) [] \<le> n"
proof -
  let ?p = "\<lparr>pv_model = Some ''claude'', pv_usage = Some (5, 3, 0, 0), pv_requestBytes = None, pv_partial = Some (800, True)\<rparr>"
  have p: "ProviderRecordSchema demo_report = Some ?p"
    by (simp add: demo_report_def model_name_def MAX_TOKENS_def)
  have hundred: "min MAX_TOKENS (nat \<lceil>(800 :: rat) / (if True then 8 else 3)\<rceil>) = 100" by (simp add: MAX_TOKENS_def)
  obtain n where n: "provider_cost demo_report (Some []) = Some n" "costMicros (Some ''claude'') (counts 5 3 0 0) [] \<le> n"
    and floor: "\<forall>arrived streamed. pv_partial ?p = Some (arrived, streamed) \<longrightarrow>
      costMicros (Some ''claude'') (counts 5 (min MAX_TOKENS (nat \<lceil>arrived / (if streamed then 8 else 3)\<rceil>)) 0 0) [] \<le> n"
    using unknown_is_never_cheap[of demo_report "Some []"] p by auto
  have "costMicros (Some ''claude'') (counts 5 100 0 0) [] \<le> n"
    using floor[rule_format, of 800 True] unfolding hundred by simp
  then show ?thesis using n by blast
qed

subsection \<open>The kill switch\<close>

datatype service_op =
    AdmitCall usage_env usage_ctx
  | RecordCall usage_env usage_ctx jsval
  | AbnormalCall usage_env usage_ctx jsval
  | TurnEndCall usage_env usage_ctx jsval
  | LlmCall usage_env usage_ctx jsval

fun service_step :: "service_op \<Rightarrow> usage_db \<Rightarrow> usage_db" where
  "service_step (AdmitCall env ctx) db = snd (admitTurn env ctx db)"
| "service_step (RecordCall env ctx payload) db = snd (providerRecord env ctx payload db)"
| "service_step (AbnormalCall env ctx payload) db = recordAbnormalEnd env ctx payload db"
| "service_step (TurnEndCall env ctx payload) db = recordTurnEnd env ctx payload db"
| "service_step (LlmCall env ctx payload) db = recordLlmUsage env ctx payload db"

lemma attempt_keeps: "(\<And>db. g (snd (op db)) = g db) \<Longrightarrow> g (snd (attempt f op db)) = g db"
  by (cases f) (simp_all add: attempt_def)

lemma service_keeps_suspensions: "ut_suspensions (service_step q db) = ut_suspensions db"
proof -
  have admit: "ut_suspensions (snd (admit_turn u lm now r db)) = ut_suspensions db" for u lm now r and db :: usage_db
    by (auto simp: admit_turn_def split: option.split)
  have settle: "ut_suspensions (settleTurn u r cost now allow db) = ut_suspensions db" for u r cost now allow db
    by (simp add: settleTurn_def Let_def split: prod.split)
  note keeps = attempt_keeps[where g = ut_suspensions]
  have k1: "ut_suspensions (snd (attempt f (admit_turn u lm now r) db)) = ut_suspensions db" for f u lm now r db
    by (rule keeps) (rule admit)
  have k2: "ut_suspensions (snd (attempt f (\<lambda>db. ((), settleTurn u r cost now allow db)) db)) = ut_suspensions db" for f u r cost now allow db
    by (rule keeps) (simp add: settle)
  have k3: "ut_suspensions (snd (attempt f (\<lambda>db. ((), recordProvider u cost now db)) db)) = ut_suspensions db" for f u cost now db
    by (rule keeps) (simp add: recordProvider_def)
  have k4: "ut_suspensions (snd (attempt f (\<lambda>db. ((), recordHelper u cost now db)) db)) = ut_suspensions db" for f u cost now db
    by (rule keeps) (simp add: recordHelper_def)
  show ?thesis
  proof (cases q)
    case (AdmitCall env ctx)
    then show ?thesis using k1 by (auto simp: admitTurn_def split: option.split prod.split) (metis snd_conv)+
  next
    case (RecordCall env ctx payload)
    then show ?thesis using k3 by (auto simp: providerRecord_def split: option.split prod.split) (metis snd_conv)+
  qed (simp_all add: recordAbnormalEnd_def recordTurnEnd_def recordLlmUsage_def Let_def k2 k4 split: option.split prod.split)
qed

lemma suspension_remains: "getSuspension u (fold service_step qs (suspend_user u admin note_text now db0)) \<noteq> None"
proof -
  have "ut_suspensions (fold service_step qs db) = ut_suspensions db" for db
    by (induction qs arbitrary: db) (simp_all add: service_keeps_suspensions)
  then show ?thesis by (simp add: getSuspension_def suspend_user_def)
qed

lemma suspended_gates:
  assumes "hasUser ctx = Some u" "getSuspension u db \<noteq> None"
  shows "fst (admitTurn env ctx db) \<noteq> None" "checkUsage env ctx db \<noteq> None" "service_status env ctx db \<noteq> None"
    "fst (providerRecord env ctx payload db) \<noteq> None"
proof -
  have status: "service_status env ctx db \<noteq> None" if "getSuspension u db \<noteq> None" for db
    using assms(1) that by (auto simp: service_status_def providerStatus_def provider_check_def split: option.split)
  show "service_status env ctx db \<noteq> None" using status[OF assms(2)] .
  show "fst (admitTurn env ctx db) \<noteq> None"
    using assms by (auto simp: admitTurn_def attempt_def admit_turn_def admit_check_def split: option.split prod.split fate.split)
  show "checkUsage env ctx db \<noteq> None"
    using assms by (auto simp: checkUsage_def userSummary_def Let_def split: option.split)
  have "getSuspension u (recordProvider v cost t db) = getSuspension u db" for v cost t db
    by (simp add: getSuspension_def recordProvider_def)
  then show "fst (providerRecord env ctx payload db) \<noteq> None" using assms status
    by (auto simp: providerRecord_def attempt_def split: option.split prod.split fate.split)
qed

text \<open>Once a user is suspended, no course of turns, reports and calls of anybody lets the user in again:
  every gate refuses every later call of the user, whatever works or fails around it.\<close>

theorem suspended_user_stays_out:
  assumes "hasUser ctx = Some u"
  shows "let db = fold service_step qs (suspend_user u admin note_text now db0) in
    fst (admitTurn env ctx db) \<noteq> None \<and> checkUsage env ctx db \<noteq> None \<and> service_status env ctx db \<noteq> None \<and>
    fst (providerRecord env ctx payload db) \<noteq> None"
  unfolding Let_def by (intro conjI suspended_gates[OF assms suspension_remains])

lemma suspended_user_stays_out_witness:
  "let db = fold service_step [TurnEndCall demo_env demo_ctx (JObj [(''role'', JStr ''assistant'')]), AdmitCall demo_env demo_ctx]
       (suspend_user ''u'' ''admin'' None 7 (empty_usage [])) in
    fst (admitTurn demo_env demo_ctx db) \<noteq> None \<and> checkUsage demo_env demo_ctx db \<noteq> None \<and> service_status demo_env demo_ctx db \<noteq> None \<and>
    fst (providerRecord demo_env demo_ctx JNull db) \<noteq> None"
  by (rule suspended_user_stays_out) (simp add: demo_usage_simps)

subsection \<open>The status an admin sees\<close>

datatype usage_status = StatusOk | NearLimit | AtLimit | Suspended

definition NEAR_LIMIT_RATIO :: rat where
  "NEAR_LIMIT_RATIO = 4/5"

definition deriveStatus :: "user_summary \<Rightarrow> usage_limits \<Rightarrow> usage_status" where
  "deriveStatus u l =
     (if sm_suspended u \<noteq> None then Suspended
      else let spendRatio = of_nat (sm_spendMicros u) / (lm_dailySpendUsd l * 1000000);
               rateRatio = of_nat (sm_turnsLastHour u) / of_nat (lm_turnsPerHour l)
        in if spendRatio \<ge> 1 \<or> rateRatio \<ge> 1 then AtLimit
           else if spendRatio \<ge> NEAR_LIMIT_RATIO \<or> rateRatio \<ge> NEAR_LIMIT_RATIO then NearLimit
           else StatusOk)"

text \<open>A user who is shown as suspended or at the limit is refused the next turn, and one who is
  refused for the suspension or the rate is not shown as fine.\<close>

theorem shown_status_is_enforced:
  assumes "limits_ok lm"
  shows "(deriveStatus (userSummary u now db) lm \<in> {Suspended, AtLimit} \<longrightarrow> fst (admit_turn u lm now r db) \<noteq> None) \<and>
    (fst (admit_turn u lm now r db) \<in> {Some UsageSuspended, Some UsageLimitRate} \<longrightarrow>
      deriveStatus (userSummary u now db) lm \<in> {Suspended, AtLimit})"
proof -
  define day hour where "day = floorToMinute (now - DAY_MS)" and "hour = floorToMinute (now - HOUR_MS)"
  have window: "max day hour = hour"
    unfolding day_def hour_def by (rule max_absorb2) (rule floor_minute(3), simp add: DAY_MS_def HOUR_MS_def MINUTE_MS_def)
  define spend turns fleet where "spend = user_spend u day (ut_buckets db)" and "turns = sum_since bk_turns u hour (ut_buckets db)"
    and "fleet = fleetSpend now (ut_buckets db)"
  have admit: "fst (admit_turn u lm now r db) = admit_check lm (getSuspension u db \<noteq> None) spend turns fleet"
    by (simp add: admit_turn_def spend_def turns_def fleet_def day_def hour_def split: option.split)
  have sum: "sm_suspended (userSummary u now db) = getSuspension u db" "sm_spendMicros (userSummary u now db) = spend"
    "sm_turnsLastHour (userSummary u now db) = turns"
    using window by (simp_all add: userSummary_def Let_def spend_def turns_def day_def hour_def)
  have pos: "0 < lm_dailySpendUsd lm" "0 < lm_turnsPerHour lm" using assms by (auto simp: limits_ok_def)
  have "of_nat spend / (lm_dailySpendUsd lm * 1000000) \<ge> 1 \<longleftrightarrow> of_nat spend \<ge> lm_dailySpendUsd lm * 1000000"
    using pos by (simp add: le_divide_eq)
  moreover have "of_nat spend \<ge> lm_dailySpendUsd lm * 1000000 \<Longrightarrow> int spend \<ge> micros (lm_dailySpendUsd lm)"
    unfolding micros_def by (simp add: floor_le_iff)
  moreover have "(of_nat turns / of_nat (lm_turnsPerHour lm) :: rat) \<ge> 1 \<longleftrightarrow> turns \<ge> lm_turnsPerHour lm"
    using pos by (simp add: le_divide_eq)
  ultimately show ?thesis unfolding admit
    by (auto simp: deriveStatus_def sum admit_check_def Let_def)
qed

lemma shown_status_is_enforced_witness:
  "deriveStatus (userSummary ''u'' 60000 (suspend_user ''u'' ''admin'' None 7 (empty_usage []))) DEFAULT_LIMITS = Suspended \<and>
   fst (admit_turn ''u'' DEFAULT_LIMITS 60000 None (suspend_user ''u'' ''admin'' None 7 (empty_usage []))) \<noteq> None"
proof -
  have ok: "limits_ok DEFAULT_LIMITS" by (simp add: limits_ok_def DEFAULT_LIMITS_def)
  have "deriveStatus (userSummary ''u'' 60000 (suspend_user ''u'' ''admin'' None 7 (empty_usage []))) DEFAULT_LIMITS = Suspended"
    by (simp add: deriveStatus_def userSummary_def getSuspension_def suspend_user_def Let_def)
  then show ?thesis using shown_status_is_enforced[OF ok, of "''u''" 60000 "suspend_user ''u'' ''admin'' None 7 (empty_usage [])" None] by simp
qed

end
