(* ===== verification/Metered_Usage.thy ===== *)
theory Metered_Usage
  imports Metered_Proxy Usage_Service
begin

text \<open>
  The ledger behind the proxy: the hub of \<open>Provider_Meter\<close> asks \<^verbatim>\<open>usage:provider-status\<close> and
  \<^verbatim>\<open>usage:provider-record\<close> and gets the service's verdict, as \<^verbatim>\<open>usage-limits/src/plugin.ts\<close> registers them.
\<close>

fun reason_text :: "service_reason \<Rightarrow> string" where
  "reason_text (Refused UsageSuspended) = ''usage-suspended''"
| "reason_text (Refused UsageLimitDaily) = ''usage-limit-daily''"
| "reason_text (Refused UsageLimitRate) = ''usage-limit-rate''"
| "reason_text (Refused UsageLimitFleet) = ''usage-limit-fleet''"
| "reason_text CheckUnavailable = ''usage-check-unavailable''"

definition verdict_of :: "service_reason option \<Rightarrow> usage_verdict" where
  "verdict_of r = (case r of None \<Rightarrow> NotBlocked | Some x \<Rightarrow> BlockedFor (reason_text x))"

lemma maybeEvict_keeps: "hb_states (maybeEvict i h) = hb_states h" "hb_meters (maybeEvict i h) = hb_meters h"
  by (simp_all add: maybeEvict_def Let_def)

lemma blocked_meter_refuses:
  assumes "us_blocked (state_of h (mt_state (hb_meters h ! k))) \<noteq> None" "us_ledger (state_of h (mt_state (hb_meters h ! k)))"
    "mt_state (hb_meters h ! k) < length (hb_states h)"
  shows "\<exists>reason. fst (meter_admit opts now k h) = AdmitRefused reason"
  using assms
  by (auto simp: meter_admit_def refreshIfStale_def check_begin_def Let_def state_of_def put_state_def split: option.split)

text \<open>A verdict that is not older than the last one and blocks takes the key from every session of the user.\<close>

lemma blocking_verdict_refuses:
  assumes i: "mt_state (hb_meters h ! k) = i" "i < length (hb_states h)" "us_ledger (state_of h i)"
    and newer: "us_appliedSeq (state_of h i) \<le> seq" and blocks: "answer \<noteq> Some NotBlocked"
  shows "\<exists>reason. fst (meter_admit opts later k (record_end now i seq answer h)) = AdmitRefused reason"
    "\<exists>reason. fst (meter_admit opts later k (check_end now i seq answer h)) = AdmitRefused reason"
proof -
  have applied: "us_blocked (apply_verdict now seq answer (state_of h i)) \<noteq> None" "us_ledger (apply_verdict now seq answer (state_of h i))"
    using newer blocks i(3) by (auto simp: apply_verdict_def split: option.split usage_verdict.split)
  show "\<exists>reason. fst (meter_admit opts later k (record_end now i seq answer h)) = AdmitRefused reason"
    by (rule blocked_meter_refuses) (use applied i in \<open>simp_all add: record_end_def maybeEvict_keeps state_of_def put_state_def\<close>)
  show "\<exists>reason. fst (meter_admit opts later k (check_end now i seq answer h)) = AdmitRefused reason"
    by (rule blocked_meter_refuses) (use applied i in \<open>simp_all add: check_end_def maybeEvict_keeps state_of_def put_state_def\<close>)
qed

text \<open>C16. The kill switch reaches the proxy: after a suspension, and whatever turns and calls followed, the first
  answer of the ledger that the hub applies, to a status check or to a recorded call, takes the operator's key
  from every session of the user: the next request through any of its meters is refused.\<close>

theorem kill_switch_reaches_the_proxy:
  assumes user: "hasUser ctx = Some u"
    and hub: "mt_state (hb_meters h ! k) = i" "i < length (hb_states h)" "us_ledger (state_of h i)"
    and newer: "us_appliedSeq (state_of h i) \<le> seq"
  shows "let db = fold service_step qs (suspend_user u admin note_text since db0) in
    (\<exists>reason. fst (meter_admit opts later k (record_end now i seq (Some (verdict_of (fst (providerRecord env ctx payload db)))) h))
      = AdmitRefused reason) \<and>
    (\<exists>reason. fst (meter_admit opts later k (check_end now i seq (Some (verdict_of (service_status env ctx db))) h)) = AdmitRefused reason)"
proof -
  define db where "db = fold service_step qs (suspend_user u admin note_text since db0)"
  have out: "getSuspension u db \<noteq> None" unfolding db_def by (rule suspension_remains)
  have block: "r \<noteq> None \<Longrightarrow> Some (verdict_of r) \<noteq> Some NotBlocked" for r by (auto simp: verdict_of_def)
  show ?thesis unfolding db_def[symmetric] Let_def
    by (intro conjI blocking_verdict_refuses(1)[OF hub newer block[OF suspended_gates(4)[OF user out]]]
      blocking_verdict_refuses(2)[OF hub newer block[OF suspended_gates(3)[OF user out]]])
qed

lemma kill_switch_reaches_the_proxy_witness:
  "\<exists>reason. fst (meter_admit DEFAULT_HUB_OPTIONS 9 0
     (record_end 8 0 1 (Some (verdict_of (fst (providerRecord demo_env demo_ctx JNull (suspend_user ''u'' ''admin'' None 7 (empty_usage []))))))
       (fst (forSession True ''s'' ''u'' [''api''] [] new_hub)))) = AdmitRefused reason"
proof -
  have user: "hasUser demo_ctx = Some ''u''" by (simp add: demo_usage_simps)
  let ?h = "fst (forSession True ''s'' ''u'' [''api''] [] new_hub)"
  have hub: "mt_state (hb_meters ?h ! 0) = 0" "0 < length (hb_states ?h)" "us_ledger (state_of ?h 0)" "us_appliedSeq (state_of ?h 0) \<le> 1"
    by (simp_all add: forSession_def stateFor_def new_hub_def new_user_state_def check_begin_def state_of_def put_state_def Let_def)
  show ?thesis
    using kill_switch_reaches_the_proxy[OF user hub, where qs = "[]" and admin = "''admin''" and note_text = None and since = 7
        and ?db0.0 = "empty_usage []" and env = demo_env and payload = JNull and opts = DEFAULT_HUB_OPTIONS and later = 9 and now = 8]
    by (simp only: Let_def fold_Nil id_apply)
qed

end
