(* ===== verification/Blob_Refs.thy ===== *)
theory Blob_Refs
  imports Js_Value "HOL-Library.List_Lexorder" "HOL-Library.Char_ord"
begin

text \<open>
  Who still references a blob, after \<^verbatim>\<open>packages/core/src/blob-collect-refs.ts\<close>: the holder's side, which
  appends one answer to the payload of \<^verbatim>\<open>blob:collect-refs\<close>, and the caller's side, which reads all answers
  and takes nothing it cannot read for an answer. Payloads are untyped values; strings are compared by
  code unit, as JavaScript does.
\<close>

definition BLOB_COLLECT_REFS_MAX_CANDIDATES :: nat where
  "BLOB_COLLECT_REFS_MAX_CANDIDATES = 1000"

definition MAX_HOLDER_NAME :: nat where
  "MAX_HOLDER_NAME = 200"

definition isBlobSha256 :: "string \<Rightarrow> bool" where
  "isBlobSha256 s \<longleftrightarrow> length s = 64 \<and> list_all is_hex s"

section \<open>The holder's side\<close>

definition parseBlobCandidates :: "jsval \<Rightarrow> string list option" where
  "parseBlobCandidates v =
     (case v of
        JArr vs \<Rightarrow>
          if length vs > BLOB_COLLECT_REFS_MAX_CANDIDATES then None
          else if list_all (\<lambda>x. case as_string x of None \<Rightarrow> False | Some s \<Rightarrow> isBlobSha256 s) vs
               then Some (List.map (the \<circ> as_string) vs) else None
      | _ \<Rightarrow> None)"

text \<open>One reference found by the lookup, merged into what was found before; \<open>None\<close> is \<^verbatim>\<open>return out(failed)\<close>.\<close>

definition merge_ref :: "string list \<Rightarrow> jsval \<Rightarrow> (string, string list) jsmap \<Rightarrow> (string, string list) jsmap option" where
  "merge_ref wanted ref merged =
     (if \<not> is_object ref then None
      else case as_string (js_field ref ''sha256'') of
        None \<Rightarrow> Some merged
      | Some sha \<Rightarrow>
          if sha \<notin> set wanted then Some merged
          else (case js_field ref ''userIds'' of
              JArr us \<Rightarrow>
                if list_all (\<lambda>u. as_string u \<noteq> None) us
                then Some (js_set sha
                  (fold (\<lambda>u seen. if length u > 0 \<and> u \<notin> set seen then seen @ [u] else seen) (List.map (the \<circ> as_string) us)
                    (case js_get merged sha of None \<Rightarrow> [] | Some seen \<Rightarrow> seen)) merged)
                else None
            | _ \<Rightarrow> None))"

fun merge_refs :: "string list \<Rightarrow> jsval list \<Rightarrow> (string, string list) jsmap \<Rightarrow> (string, string list) jsmap option" where
  "merge_refs wanted [] merged = Some merged"
| "merge_refs wanted (r # rs) merged = (case merge_ref wanted r merged of None \<Rightarrow> None | Some m \<Rightarrow> merge_refs wanted rs m)"

definition answer_value :: "string \<Rightarrow> bool \<Rightarrow> jsval list \<Rightarrow> jsval" where
  "answer_value holder ok refs = JObj [(''holder'', JStr holder), (''ok'', JBool ok), (''refs'', JArr refs)]"

definition ref_value :: "string \<times> string list \<Rightarrow> jsval" where
  "ref_value = (\<lambda>(sha, users). JObj [(''sha256'', JStr sha), (''userIds'', JArr (List.map JStr (sort users)))])"

text \<open>The own answer of a holder.\<close>

definition holder_answer :: "jsval \<Rightarrow> string \<Rightarrow> (string list \<Rightarrow> jsval option) \<Rightarrow> jsval" where
  "holder_answer candidates holder lookup =
     (case parseBlobCandidates candidates of
        None \<Rightarrow> answer_value holder False []
      | Some [] \<Rightarrow> answer_value holder True []
      | Some cs \<Rightarrow>
          (case lookup cs of
             Some (JArr found) \<Rightarrow>
               (case merge_refs cs found [] of
                  None \<Rightarrow> answer_value holder False []
                | Some merged \<Rightarrow> answer_value holder True (List.map ref_value merged))
           | _ \<Rightarrow> answer_value holder False []))"

definition arr_items :: "jsval \<Rightarrow> jsval list" where
  "arr_items v = (case v of JArr vs \<Rightarrow> vs | _ \<Rightarrow> [])"

fun object_fields :: "jsval \<Rightarrow> (string \<times> jsval) list" where
  "object_fields (JObj fs) = fs"
| "object_fields _ = []"

definition answerBlobCollectRefs :: "jsval \<Rightarrow> string \<Rightarrow> (string list \<Rightarrow> jsval option) \<Rightarrow> jsval" where
  "answerBlobCollectRefs payload holder lookup =
     JObj (js_set ''answers'' (JArr (arr_items (js_field payload ''answers'') @ [holder_answer (js_field payload ''candidates'') holder lookup]))
       (js_set ''candidates'' (JArr (arr_items (js_field payload ''candidates''))) (object_fields payload)))"

section \<open>The caller's side\<close>

record blob_holding =
  bh_userIds :: "string list"
  bh_unattributed :: bool

record refs_outcome =
  ro_answered :: "string list"
  ro_failed :: "string list"
  ro_malformed :: nat
  ro_held :: "(string, blob_holding) jsmap"

text \<open>A reference that can be read: its sha and its users.\<close>

definition read_ref :: "jsval \<Rightarrow> (string \<times> string list) option" where
  "read_ref v =
     (if \<not> is_object v then None
      else case as_string (js_field v ''sha256'') of
        None \<Rightarrow> None
      | Some sha \<Rightarrow> if isBlobSha256 sha then map_option (Pair sha) (as_string_list (js_field v ''userIds'')) else None)"

definition take_ref :: "string list \<Rightarrow> string \<times> string list \<Rightarrow> (string, blob_holding) jsmap \<Rightarrow> (string, blob_holding) jsmap" where
  "take_ref wanted r held =
     (let (sha, us) = r in
      if sha \<notin> set wanted then held
      else let h = (case js_get held sha of None \<Rightarrow> \<lparr>bh_userIds = [], bh_unattributed = False\<rparr> | Some h \<Rightarrow> h);
               users = [u \<leftarrow> us. length u > 0]
           in js_set sha \<lparr>bh_userIds = fold (\<lambda>u seen. if u \<in> set seen then seen else seen @ [u]) users (bh_userIds h),
                bh_unattributed = (bh_unattributed h \<or> users = [])\<rparr> held)"

definition add_name :: "string \<Rightarrow> string list \<Rightarrow> string list" where
  "add_name x xs = (if x \<in> set xs then xs else xs @ [x])"

text \<open>One answer.\<close>

definition read_answer :: "string list \<Rightarrow> jsval \<Rightarrow> refs_outcome \<Rightarrow> refs_outcome" where
  "read_answer wanted raw out =
     (case as_string (js_field raw ''holder'') of
        None \<Rightarrow> out\<lparr>ro_malformed := Suc (ro_malformed out)\<rparr>
      | Some holder \<Rightarrow>
          if length holder = 0 \<or> length holder > MAX_HOLDER_NAME then out\<lparr>ro_malformed := Suc (ro_malformed out)\<rparr>
          else let out = out\<lparr>ro_answered := add_name holder (ro_answered out)\<rparr>;
                   failed = out\<lparr>ro_failed := add_name holder (ro_failed out)\<rparr>
            in (case (js_field raw ''ok'', js_field raw ''refs'') of
                  (JBool True, JArr refs) \<Rightarrow>
                    if list_all (\<lambda>r. read_ref r \<noteq> None) refs
                    then out\<lparr>ro_held := fold (take_ref wanted) (List.map (the \<circ> read_ref) refs) (ro_held out)\<rparr>
                    else failed
                | _ \<Rightarrow> failed))"

definition no_answers :: refs_outcome where
  "no_answers = \<lparr>ro_answered = [], ro_failed = [], ro_malformed = 0, ro_held = []\<rparr>"

definition readBlobCollectRefsAnswers :: "jsval \<Rightarrow> string list \<Rightarrow> refs_outcome" where
  "readBlobCollectRefsAnswers payload candidates =
     (case js_field payload ''answers'' of
        JArr given \<Rightarrow>
          let out = fold (read_answer candidates) given no_answers in out\<lparr>ro_failed := sort (ro_failed out)\<rparr>
      | _ \<Rightarrow> no_answers\<lparr>ro_malformed := 1\<rparr>)"

section \<open>A whole round\<close>

text \<open>The payload of the caller, and what it is after every holder answered.\<close>

definition collect_payload :: "string list \<Rightarrow> jsval" where
  "collect_payload cs = JObj [(''candidates'', JArr (List.map JStr cs)), (''answers'', JArr [])]"

definition collected :: "(string \<times> (string list \<Rightarrow> jsval option)) list \<Rightarrow> string list \<Rightarrow> jsval" where
  "collected hs cs = fold (\<lambda>(n, l) p. answerBlobCollectRefs p n l) hs (collect_payload cs)"

definition askable :: "string list \<Rightarrow> bool" where
  "askable cs \<longleftrightarrow> length cs \<le> BLOB_COLLECT_REFS_MAX_CANDIDATES \<and> list_all isBlobSha256 cs"

definition holder_name :: "string \<Rightarrow> bool" where
  "holder_name n \<longleftrightarrow> 0 < length n \<and> length n \<le> MAX_HOLDER_NAME"

text \<open>The lookup of a holder found a reference to the blob.\<close>

definition finds :: "(string list \<Rightarrow> jsval option) \<Rightarrow> string list \<Rightarrow> string \<Rightarrow> bool" where
  "finds l cs sha \<longleftrightarrow> (case l cs of Some (JArr found) \<Rightarrow> (\<exists>r \<in> set found. js_field r ''sha256'' = JStr sha) | _ \<Rightarrow> False)"

lemma parse_candidates: "askable cs \<Longrightarrow> parseBlobCandidates (JArr (List.map JStr cs)) = Some cs"
  by (auto simp: askable_def parseBlobCandidates_def list_all_iff comp_def)

lemma collected_fields:
  assumes "js_field p ''candidates'' = JArr c" "js_field p ''answers'' = JArr a"
  shows "js_field (fold (\<lambda>(n, l) p. answerBlobCollectRefs p n l) hs p) ''answers'' =
      JArr (a @ List.map (\<lambda>(n, l). holder_answer (JArr c) n l) hs)"
  using assms
proof (induction hs arbitrary: p a)
  case (Cons h hs)
  obtain n l where h: "h = (n, l)" by (cases h)
  have "js_field (answerBlobCollectRefs p n l) ''candidates'' = JArr c"
    "js_field (answerBlobCollectRefs p n l) ''answers'' = JArr (a @ [holder_answer (JArr c) n l])"
    using Cons.prems by (simp_all add: answerBlobCollectRefs_def arr_items_def)
  from Cons.IH[OF this] show ?case by (simp add: h)
qed simp

lemma merge_refs_keys:
  assumes "merge_refs cs found m = Some m'"
  shows "js_get m' sha \<noteq> None \<longleftrightarrow> js_get m sha \<noteq> None \<or> sha \<in> set cs \<and> (\<exists>r \<in> set found. js_field r ''sha256'' = JStr sha)"
  using assms
proof (induction cs found m rule: merge_refs.induct)
  case (2 cs r rs m)
  then obtain m1 where m1: "merge_ref cs r m = Some m1" "merge_refs cs rs m1 = Some m'" by (auto split: option.splits)
  have "js_get m1 sha \<noteq> None \<longleftrightarrow> js_get m sha \<noteq> None \<or> sha \<in> set cs \<and> js_field r ''sha256'' = JStr sha"
    using m1(1) by (auto simp: merge_ref_def split: if_splits option.splits jsval.splits)
  then show ?case using 2(1)[OF m1] by auto
qed auto

lemma read_ref_value: "isBlobSha256 sha \<Longrightarrow> read_ref (ref_value (sha, us)) = Some (sha, sort us)"
  by (simp add: read_ref_def ref_value_def del: as_string_list.simps)

lemma take_ref_keys:
  "js_get (fold (take_ref cs) rs held) sha \<noteq> None \<longleftrightarrow> js_get held sha \<noteq> None \<or> sha \<in> set cs \<and> sha \<in> fst ` set rs"
  by (induction rs arbitrary: held) (auto simp: take_ref_def Let_def split: prod.splits)

lemma read_answer_value:
  assumes "holder_name n"
  shows "read_answer cs (answer_value n ok refs) out =
    (let out = out\<lparr>ro_answered := add_name n (ro_answered out)\<rparr> in
     if ok \<and> list_all (\<lambda>r. read_ref r \<noteq> None) refs
     then out\<lparr>ro_held := fold (take_ref cs) (List.map (the \<circ> read_ref) refs) (ro_held out)\<rparr>
     else out\<lparr>ro_failed := add_name n (ro_failed out)\<rparr>)"
  using assms by (cases ok) (simp_all add: read_answer_def answer_value_def holder_name_def Let_def)

text \<open>What one holder's answer does to the outcome.\<close>

definition answer_effect :: "string list \<Rightarrow> string \<Rightarrow> (string list \<Rightarrow> jsval option) \<Rightarrow> refs_outcome \<Rightarrow> refs_outcome \<Rightarrow> bool" where
  "answer_effect cs n l out out' \<longleftrightarrow>
     set (ro_answered out') = insert n (set (ro_answered out)) \<and> ro_malformed out' = ro_malformed out \<and>
     (set (ro_failed out') = insert n (set (ro_failed out)) \<or>
      ro_failed out' = ro_failed out \<and> (\<exists>found. l cs = Some (JArr found)) \<and>
        (\<forall>sha. js_get (ro_held out') sha \<noteq> None \<longleftrightarrow> js_get (ro_held out) sha \<noteq> None \<or> sha \<in> set cs \<and> finds l cs sha))"

lemma holder_answer_effect:
  assumes cs: "askable cs" "cs \<noteq> []" and n: "holder_name n"
  shows "answer_effect cs n l out (read_answer cs (holder_answer (JArr (List.map JStr cs)) n l) out)"
proof -
  have names: "set (add_name x xs) = insert x (set xs)" for x :: string and xs by (auto simp: add_name_def)
  have failed: "answer_effect cs n l out (read_answer cs (answer_value n False []) out)"
    by (simp add: read_answer_value[OF n] answer_effect_def Let_def names)
  obtain c cs' where cons: "cs = c # cs'" using cs(2) by (cases cs) auto
  have parsed: "parseBlobCandidates (JArr (List.map JStr cs)) = Some cs" using parse_candidates[OF cs(1)] .
  show ?thesis
  proof (cases "\<exists>found merged. l cs = Some (JArr found) \<and> merge_refs cs found [] = Some merged")
    case False
    then have "holder_answer (JArr (List.map JStr cs)) n l = answer_value n False []"
      unfolding holder_answer_def parsed by (auto simp: cons split: option.splits jsval.splits)
    then show ?thesis using failed by simp
  next
    case True
    then obtain found merged where l: "l cs = Some (JArr found)" and m: "merge_refs cs found [] = Some merged" by blast
    have ans: "holder_answer (JArr (List.map JStr cs)) n l = answer_value n True (List.map ref_value merged)"
      unfolding holder_answer_def parsed using l m by (simp add: cons)
    have keys: "js_get merged sha \<noteq> None \<longleftrightarrow> sha \<in> set cs \<and> finds l cs sha" for sha
      using merge_refs_keys[OF m, of sha] by (simp add: finds_def l)
    have mem: "sha \<in> fst ` set merged \<longleftrightarrow> js_get merged sha \<noteq> None" for sha
      by (auto simp: map_of_eq_None_iff)
    have valid: "isBlobSha256 sha" if "(sha, us) \<in> set merged" for sha us
    proof -
      have "sha \<in> set cs" using keys[of sha] mem[of sha] that by force
      then show ?thesis using cs(1) by (simp add: askable_def list_all_iff)
    qed
    have read: "read_ref (ref_value x) = Some (fst x, sort (snd x))" if "x \<in> set merged" for x
    proof -
      obtain sha us where x: "x = (sha, us)" by (cases x)
      then show ?thesis using read_ref_value[OF valid[of sha us], of us] that by simp
    qed
    then have all: "list_all (\<lambda>r. read_ref r \<noteq> None) (List.map ref_value merged)" by (simp add: list_all_iff)
    define rs where "rs = List.map (the \<circ> read_ref) (List.map ref_value merged)"
    have "fst ` set rs = fst ` set merged" using read by (force simp: rs_def image_iff)
    then have held: "js_get (fold (take_ref cs) rs (ro_held out)) sha \<noteq> None \<longleftrightarrow>
        js_get (ro_held out) sha \<noteq> None \<or> sha \<in> set cs \<and> finds l cs sha" for sha
      using take_ref_keys[of cs rs "ro_held out" sha] mem[of sha] keys[of sha] by blast
    have "read_answer cs (answer_value n True (List.map ref_value merged)) out =
        out\<lparr>ro_answered := add_name n (ro_answered out), ro_held := fold (take_ref cs) rs (ro_held out)\<rparr>"
      by (simp only: read_answer_value[OF n] all Let_def rs_def) simp
    then show ?thesis unfolding ans answer_effect_def using held l names by simp
  qed
qed

text \<open>Reading on forgets nothing; and what a holder found is held when the outcome shows no failure.\<close>

lemma read_answer_cases:
  obtains (malformed) "read_answer cs a out = out\<lparr>ro_malformed := Suc (ro_malformed out)\<rparr>"
    | (failed) h where "js_field a ''holder'' = JStr h"
        "read_answer cs a out = out\<lparr>ro_answered := add_name h (ro_answered out), ro_failed := add_name h (ro_failed out)\<rparr>"
    | (held) h rs where "js_field a ''holder'' = JStr h"
        "read_answer cs a out = out\<lparr>ro_answered := add_name h (ro_answered out), ro_held := fold (take_ref cs) rs (ro_held out)\<rparr>"
proof (cases "js_field a ''holder''")
  case (JStr h)
  show ?thesis
  proof (cases "length h = 0 \<or> length h > MAX_HOLDER_NAME")
    case True
    then show ?thesis using malformed by (simp add: read_answer_def JStr)
  next
    case False
    then have h: "h \<noteq> []" "\<not> MAX_HOLDER_NAME < length h" by simp_all
    show ?thesis
    proof (cases "\<exists>refs. js_field a ''ok'' = JBool True \<and> js_field a ''refs'' = JArr refs \<and> list_all (\<lambda>r. read_ref r \<noteq> None) refs")
      case True
      then obtain refs where r: "js_field a ''ok'' = JBool True" "js_field a ''refs'' = JArr refs" "list_all (\<lambda>r. read_ref r \<noteq> None) refs"
        by blast
      have "read_answer cs a out = out\<lparr>ro_answered := add_name h (ro_answered out),
          ro_held := fold (take_ref cs) (List.map (the \<circ> read_ref) refs) (ro_held out)\<rparr>"
        using h r(3) by (simp add: read_answer_def JStr r(1,2) Let_def)
      then show ?thesis by (rule held[OF JStr])
    next
      case False
      have "read_answer cs a out = out\<lparr>ro_answered := add_name h (ro_answered out), ro_failed := add_name h (ro_failed out)\<rparr>"
      proof (cases "js_field a ''ok'' = JBool True \<and> (\<exists>refs. js_field a ''refs'' = JArr refs)")
        case True
        then obtain refs where r: "js_field a ''ok'' = JBool True" "js_field a ''refs'' = JArr refs" by blast
        then have "\<not> list_all (\<lambda>r. read_ref r \<noteq> None) refs" using False by blast
        then show ?thesis using h by (simp only: read_answer_def JStr r as_string.simps option.case Let_def) simp
      next
        case no_refs: False
        show ?thesis
        proof (cases "js_field a ''ok''")
          case (JBool b)
          then show ?thesis using h no_refs
            by (cases b; cases "js_field a ''refs''") (simp_all add: read_answer_def JStr Let_def)
        qed (use h in \<open>simp_all add: read_answer_def JStr Let_def\<close>)
      qed
      then show ?thesis by (rule failed[OF JStr])
    qed
  qed
qed (use malformed in \<open>simp_all add: read_answer_def\<close>)

lemma read_answer_grows:
  "set (ro_failed out) \<subseteq> set (ro_failed (read_answer cs a out))" "ro_malformed out \<le> ro_malformed (read_answer cs a out)"
  "js_get (ro_held out) sha \<noteq> None \<Longrightarrow> js_get (ro_held (read_answer cs a out)) sha \<noteq> None"
  "set (ro_answered (read_answer cs a out)) \<subseteq> set (ro_answered out) \<union> {h. js_field a ''holder'' = JStr h}"
proof -
  have names: "set (add_name x xs) = insert x (set xs)" for x :: string and xs by (auto simp: add_name_def)
  have held: "js_get (ro_held out) sha \<noteq> None \<Longrightarrow> js_get (fold (take_ref cs) rs (ro_held out)) sha \<noteq> None" for rs
    using take_ref_keys[of cs rs "ro_held out" sha] by blast
  show "set (ro_failed out) \<subseteq> set (ro_failed (read_answer cs a out))"
    by (cases rule: read_answer_cases[of cs a out]) (auto simp: names)
  show "ro_malformed out \<le> ro_malformed (read_answer cs a out)" by (cases rule: read_answer_cases[of cs a out]) simp_all
  show "set (ro_answered (read_answer cs a out)) \<subseteq> set (ro_answered out) \<union> {h. js_field a ''holder'' = JStr h}"
    by (cases rule: read_answer_cases[of cs a out]) (auto simp: names)
  show "js_get (ro_held (read_answer cs a out)) sha \<noteq> None" if "js_get (ro_held out) sha \<noteq> None"
    by (cases rule: read_answer_cases[of cs a out]) (use held[OF that] that in simp_all)
qed

lemma read_answers_grow:
  "set (ro_failed out) \<subseteq> set (ro_failed (fold (read_answer cs) as out))" "ro_malformed out \<le> ro_malformed (fold (read_answer cs) as out)"
  "js_get (ro_held out) sha \<noteq> None \<Longrightarrow> js_get (ro_held (fold (read_answer cs) as out)) sha \<noteq> None"
  "set (ro_answered (fold (read_answer cs) as out)) \<subseteq> set (ro_answered out) \<union> {h. \<exists>a \<in> set as. js_field a ''holder'' = JStr h}"
proof (induction as arbitrary: out)
  case (Cons a as)
  { case 1 show ?case using Cons.IH(1)[of "read_answer cs a out"] read_answer_grows(1)[of out cs a] by auto }
  { case 2 show ?case using Cons.IH(2)[of "read_answer cs a out"] read_answer_grows(2)[of out cs a] by auto }
  { case 3 then show ?case using Cons.IH(3)[of "read_answer cs a out"] read_answer_grows(3)[of out sha cs a] by auto }
  { case 4 show ?case using Cons.IH(4)[of "read_answer cs a out"] read_answer_grows(4)[of cs a out] by auto }
qed auto

lemma found_is_held_or_failed:
  assumes "sha \<in> set cs" "finds l cs sha"
  shows "let out' = read_answer cs (holder_answer (JArr (List.map JStr cs)) n l) out in
    ro_malformed out' \<noteq> 0 \<or> ro_failed out' \<noteq> [] \<or> js_get (ro_held out') sha \<noteq> None"
proof -
  have holder: "js_field (holder_answer c n l) ''holder'' = JStr n" for c
    by (simp add: holder_answer_def answer_value_def split: option.split list.split jsval.split)
  have names: "set (add_name x xs) = insert x (set xs)" for x :: string and xs by (auto simp: add_name_def)
  show ?thesis
  proof (cases "holder_name n")
    case False
    then show ?thesis unfolding read_answer_def holder as_string.simps option.case holder_name_def Let_def by auto
  next
    case n: True
    show ?thesis
    proof (cases "askable cs")
      case True
      moreover have "cs \<noteq> []" using assms(1) by auto
      ultimately have "answer_effect cs n l out (read_answer cs (holder_answer (JArr (List.map JStr cs)) n l) out)"
        using holder_answer_effect n by blast
      then show ?thesis using assms unfolding answer_effect_def Let_def by (metis empty_iff empty_set insertI1)
    next
      case False
      then have "parseBlobCandidates (JArr (List.map JStr cs)) = None"
        by (auto simp: parseBlobCandidates_def askable_def list_all_iff)
      then have "holder_answer (JArr (List.map JStr cs)) n l = answer_value n False []" by (simp add: holder_answer_def)
      then have "n \<in> set (ro_failed (read_answer cs (holder_answer (JArr (List.map JStr cs)) n l) out))"
        by (simp add: read_answer_value[OF n] names)
      then show ?thesis by (auto simp: Let_def)
    qed
  qed
qed

lemma found_is_held:
  assumes "sha \<in> set cs" "finds l cs sha" "holder_answer (JArr (List.map JStr cs)) n l \<in> set as"
    and "ro_malformed (fold (read_answer cs) as out) = 0" "ro_failed (fold (read_answer cs) as out) = []"
  shows "js_get (ro_held (fold (read_answer cs) as out)) sha \<noteq> None"
proof -
  obtain as1 as2 where as: "as = as1 @ holder_answer (JArr (List.map JStr cs)) n l # as2" using assms(3) by (meson split_list)
  define out1 where "out1 = read_answer cs (holder_answer (JArr (List.map JStr cs)) n l) (fold (read_answer cs) as1 out)"
  have rest: "fold (read_answer cs) as out = fold (read_answer cs) as2 out1" by (simp add: as out1_def)
  have "ro_malformed out1 = 0" "ro_failed out1 = []"
    using assms(4,5) read_answers_grow(2)[of out1 cs as2] read_answers_grow(1)[of out1 cs as2]
    unfolding rest by auto
  then have "js_get (ro_held out1) sha \<noteq> None"
    using found_is_held_or_failed[OF assms(1,2), of n "fold (read_answer cs) as1 out"] by (simp add: out1_def Let_def)
  then show ?thesis unfolding rest by (rule read_answers_grow(3))
qed

text \<open>After a round in which only holders with proper names answer, everybody who was asked is known to have
  answered, nothing is malformed, a holder whose lookup failed is named as failed, and, when none is
  named, a candidate counts as held exactly when some holder's lookup found a reference to it.\<close>

theorem a_round_finds_what_the_holders_found:
  assumes cs: "askable cs" "cs \<noteq> []" and names: "list_all (\<lambda>(n, l). holder_name n) hs"
  shows "let out = readBlobCollectRefsAnswers (collected hs cs) cs in
    set (ro_answered out) = fst ` set hs \<and> ro_malformed out = 0 \<and>
    (ro_failed out = [] \<longrightarrow> (\<forall>sha. js_get (ro_held out) sha \<noteq> None \<longleftrightarrow> sha \<in> set cs \<and> (\<exists>(n, l) \<in> set hs. finds l cs sha))) \<and>
    (\<forall>(n, l) \<in> set hs. (\<nexists>found. l cs = Some (JArr found)) \<longrightarrow> n \<in> set (ro_failed out))"
proof -
  define asks where "asks = List.map (\<lambda>(n, l). holder_answer (JArr (List.map JStr cs)) n l) hs"
  have fold: "set (ro_answered (fold (read_answer cs) (List.map (\<lambda>(n, l). holder_answer (JArr (List.map JStr cs)) n l) hs) out)) =
        set (ro_answered out) \<union> fst ` set hs \<and>
      ro_malformed (fold (read_answer cs) (List.map (\<lambda>(n, l). holder_answer (JArr (List.map JStr cs)) n l) hs) out) = ro_malformed out \<and>
      set (ro_failed out) \<subseteq> set (ro_failed (fold (read_answer cs) (List.map (\<lambda>(n, l). holder_answer (JArr (List.map JStr cs)) n l) hs) out)) \<and>
      (ro_failed (fold (read_answer cs) (List.map (\<lambda>(n, l). holder_answer (JArr (List.map JStr cs)) n l) hs) out) = [] \<longrightarrow>
        (\<forall>sha. js_get (ro_held (fold (read_answer cs) (List.map (\<lambda>(n, l). holder_answer (JArr (List.map JStr cs)) n l) hs) out)) sha \<noteq> None
          \<longleftrightarrow> js_get (ro_held out) sha \<noteq> None \<or> sha \<in> set cs \<and> (\<exists>(n, l) \<in> set hs. finds l cs sha))) \<and>
      (\<forall>(n, l) \<in> set hs. (\<nexists>found. l cs = Some (JArr found)) \<longrightarrow>
        n \<in> set (ro_failed (fold (read_answer cs) (List.map (\<lambda>(n, l). holder_answer (JArr (List.map JStr cs)) n l) hs) out)))" for out
    using names
  proof (induction hs arbitrary: out)
    case (Cons h hs)
    obtain n l where h: "h = (n, l)" by (cases h)
    define out1 where "out1 = read_answer cs (holder_answer (JArr (List.map JStr cs)) n l) out"
    define rest where "rest = fold (read_answer cs) (List.map (\<lambda>(n, l). holder_answer (JArr (List.map JStr cs)) n l) hs) out1"
    have step: "answer_effect cs n l out out1"
      unfolding out1_def using Cons.prems by (intro holder_answer_effect[OF cs]) (simp add: h)
    have ih: "set (ro_answered rest) = set (ro_answered out1) \<union> fst ` set hs" "ro_malformed rest = ro_malformed out1"
      "set (ro_failed out1) \<subseteq> set (ro_failed rest)"
      "ro_failed rest = [] \<longrightarrow> (\<forall>sha. js_get (ro_held rest) sha \<noteq> None \<longleftrightarrow>
          js_get (ro_held out1) sha \<noteq> None \<or> sha \<in> set cs \<and> (\<exists>(n, l) \<in> set hs. finds l cs sha))"
      "\<forall>(n, l) \<in> set hs. (\<nexists>found. l cs = Some (JArr found)) \<longrightarrow> n \<in> set (ro_failed rest)"
      using Cons.IH[of out1] Cons.prems unfolding rest_def by simp_all
    have eq: "fold (read_answer cs) (List.map (\<lambda>(n, l). holder_answer (JArr (List.map JStr cs)) n l) (h # hs)) out = rest"
      by (simp add: rest_def out1_def h)
    show ?case unfolding eq using step ih by (auto simp: answer_effect_def h)
  qed auto
  have payload: "js_field (collected hs cs) ''answers'' = JArr asks"
    using collected_fields[of "collect_payload cs" "List.map JStr cs" "[]" hs] unfolding collected_def asks_def
    by (simp add: collect_payload_def)
  define out where "out = fold (read_answer cs) asks no_answers"
  have read: "readBlobCollectRefsAnswers (collected hs cs) cs = out\<lparr>ro_failed := sort (ro_failed out)\<rparr>"
    by (simp add: readBlobCollectRefsAnswers_def payload out_def Let_def)
  have "sort (ro_failed out) = [] \<longleftrightarrow> ro_failed out = []" by (metis set_empty set_sort)
  moreover have "ro_answered no_answers = []" "ro_malformed no_answers = 0" "ro_held no_answers = []" by (simp_all add: no_answers_def)
  ultimately show ?thesis unfolding Let_def read
    using fold[of no_answers, folded asks_def, folded out_def] by simp
qed

definition demo_sha :: string where
  "demo_sha = replicate 64 CHR ''a''"

lemma demo_sha_ok: "isBlobSha256 demo_sha"
  by (simp add: isBlobSha256_def demo_sha_def is_hex_def list_all_iff)

lemma a_round_finds_what_the_holders_found_witness:
  "let out = readBlobCollectRefsAnswers (collected
       [(''skills'', \<lambda>cs. Some (JArr [JObj [(''sha256'', JStr demo_sha), (''userIds'', JArr [JStr ''u''])]])), (''notes'', \<lambda>cs. None)]
       [demo_sha]) [demo_sha] in
     set (ro_answered out) = {''skills'', ''notes''} \<and> ''notes'' \<in> set (ro_failed out)"
  using a_round_finds_what_the_holders_found[of "[demo_sha]"
      "[(''skills'', \<lambda>cs. Some (JArr [JObj [(''sha256'', JStr demo_sha), (''userIds'', JArr [JStr ''u''])]])), (''notes'', \<lambda>cs. None)]"]
  by (simp add: askable_def demo_sha_ok BLOB_COLLECT_REFS_MAX_CANDIDATES_def holder_name_def MAX_HOLDER_NAME_def Let_def)

end
