(* ===== verification/Blob_Store.thy ===== *)
theory Blob_Store
  imports Blob_Refs Js_Text
begin

text \<open>
  The content-addressed store on a file system, after \<^verbatim>\<open>packages/blob-store-fs/src/store.ts\<close>. A file system
  is an association list of paths, a path the list of its names; directories exist where a file lies below
  them, so \<^verbatim>\<open>mkdir\<close> changes nothing and \<^verbatim>\<open>ENOENT\<close> is the only error. The digest is an argument. One call is
  atomic: the temporary file of \<^verbatim>\<open>put\<close> is written and renamed in one step.
\<close>

section \<open>Files\<close>

type_synonym fs_path = "string list"

type_synonym fs = "(fs_path, bytes) jsmap"

text \<open>\<^verbatim>\<open>fs.rename\<close>; \<open>None\<close> is \<^verbatim>\<open>ENOENT\<close>.\<close>

definition fs_rename :: "fs_path \<Rightarrow> fs_path \<Rightarrow> fs \<Rightarrow> fs option" where
  "fs_rename p q f = (case js_get f p of None \<Rightarrow> None | Some b \<Rightarrow> Some (js_set q b (js_delete p f)))"

text \<open>\<^verbatim>\<open>readdir\<close> with file types: the names below a directory, and whether each is a file.\<close>

fun entry_below :: "fs_path \<Rightarrow> fs_path \<Rightarrow> (string \<times> bool) option" where
  "entry_below [] [] = None"
| "entry_below [] [n] = Some (n, True)"
| "entry_below [] (n # m # ns) = Some (n, False)"
| "entry_below (d # ds) [] = None"
| "entry_below (d # ds) (n # ns) = (if d = n then entry_below ds ns else None)"

definition readdir :: "fs \<Rightarrow> fs_path \<Rightarrow> (string \<times> bool) list" where
  "readdir f dir = remdups (List.map_filter (entry_below dir) (js_keys f))"

section \<open>Paths\<close>

definition RETIRED_DIR :: string where
  "RETIRED_DIR = ''.retired''"

definition LIST_MAX_LIMIT :: nat where
  "LIST_MAX_LIMIT = 1000"

definition SHARD_REGEX :: "string \<Rightarrow> bool" where
  "SHARD_REGEX s \<longleftrightarrow> length s = 2 \<and> list_all is_hex s"

definition blobPath :: "fs_path \<Rightarrow> string \<Rightarrow> fs_path" where
  "blobPath base sha = base @ [take 2 sha, take 2 (drop 2 sha), sha]"

definition retiredPath :: "fs_path \<Rightarrow> string \<Rightarrow> fs_path" where
  "retiredPath base sha = blobPath (base @ [RETIRED_DIR]) sha"

definition BLOB_PLUGIN :: string where
  "BLOB_PLUGIN = ''@ax/blob-store-fs''"

definition assertValidSha :: "string \<Rightarrow> plugin_error + unit" where
  "assertValidSha sha = check (isBlobSha256 sha) (plugin_err ''invalid-payload'' BLOB_PLUGIN)"

section \<open>Operations\<close>

definition blob_put :: "(bytes \<Rightarrow> string) \<Rightarrow> fs_path \<Rightarrow> bytes \<Rightarrow> fs \<Rightarrow> (string \<times> nat) \<times> fs" where
  "blob_put digest base b f =
     (let sha = digest b in
      case js_get f (blobPath base sha) of
        Some stored \<Rightarrow> ((sha, length stored), f)
      | None \<Rightarrow> ((sha, length b), js_set (blobPath base sha) b f))"

definition blob_restore :: "fs_path \<Rightarrow> string \<Rightarrow> fs \<Rightarrow> fs" where
  "blob_restore base sha f = (case fs_rename (retiredPath base sha) (blobPath base sha) f of None \<Rightarrow> f | Some g \<Rightarrow> g)"

text \<open>\<^verbatim>\<open>get\<close>: the bytes, or \<open>None\<close> for \<^verbatim>\<open>{ found: false }\<close>.\<close>

definition blob_get :: "(bytes \<Rightarrow> string) \<Rightarrow> fs_path \<Rightarrow> string \<Rightarrow> fs \<Rightarrow> (plugin_error + bytes option) \<times> fs" where
  "blob_get digest base sha f =
     (case assertValidSha sha of
        Inl e \<Rightarrow> (Inl e, f)
      | Inr _ \<Rightarrow>
          let f = (if js_get f (blobPath base sha) = None then blob_restore base sha f else f) in
          (case js_get f (blobPath base sha) of
             None \<Rightarrow> (Inr None, f)
           | Some b \<Rightarrow> if digest b \<noteq> sha then (Inl (plugin_err ''corrupt'' BLOB_PLUGIN), f) else (Inr (Some b), f)))"

text \<open>\<^verbatim>\<open>stat\<close>, with \<^verbatim>\<open>restore\<close> true or false: the size.\<close>

definition blob_stat :: "fs_path \<Rightarrow> string \<Rightarrow> bool \<Rightarrow> fs \<Rightarrow> (plugin_error + nat option) \<times> fs" where
  "blob_stat base sha restore f =
     (case assertValidSha sha of
        Inl e \<Rightarrow> (Inl e, f)
      | Inr _ \<Rightarrow>
          (case js_get f (blobPath base sha) of
             Some b \<Rightarrow> (Inr (Some (length b)), f)
           | None \<Rightarrow>
               if \<not> restore then (Inr (map_option length (js_get f (retiredPath base sha))), f)
               else let f = blob_restore base sha f in (Inr (map_option length (js_get f (blobPath base sha))), f)))"

definition blob_retire :: "fs_path \<Rightarrow> string \<Rightarrow> fs \<Rightarrow> (plugin_error + unit) \<times> fs" where
  "blob_retire base sha f =
     (case assertValidSha sha of
        Inl e \<Rightarrow> (Inl e, f)
      | Inr _ \<Rightarrow> (Inr (), case fs_rename (blobPath base sha) (retiredPath base sha) f of None \<Rightarrow> f | Some g \<Rightarrow> g))"

definition blob_purge :: "fs_path \<Rightarrow> string \<Rightarrow> fs \<Rightarrow> (plugin_error + unit) \<times> fs" where
  "blob_purge base sha f =
     (case assertValidSha sha of
        Inl e \<Rightarrow> (Inl e, f)
      | Inr _ \<Rightarrow> (Inr (), js_delete (retiredPath base sha) f))"

subsection \<open>Listing\<close>

definition shardDirs :: "fs \<Rightarrow> fs_path \<Rightarrow> string list" where
  "shardDirs f dir = sort [n. (n, file) \<leftarrow> readdir f dir, \<not> file \<and> SHARD_REGEX n]"

text \<open>The blobs of one shard after the cursor.\<close>

definition shard_blobs :: "fs \<Rightarrow> fs_path \<Rightarrow> string option \<Rightarrow> string \<Rightarrow> string \<Rightarrow> string list" where
  "shard_blobs f base after aa bb =
     sort [n. (n, file) \<leftarrow> readdir f (base @ [aa, bb]), file \<and> isBlobSha256 n \<and> starts_with (aa @ bb) n \<and>
             (case after of None \<Rightarrow> True | Some a \<Rightarrow> n > a)]"

definition shards :: "fs \<Rightarrow> fs_path \<Rightarrow> string option \<Rightarrow> (string \<times> string) list" where
  "shards f base after =
     [(aa, bb). aa \<leftarrow> [aa \<leftarrow> shardDirs f base. \<not> (case after of None \<Rightarrow> False | Some a \<Rightarrow> aa < take 2 a)],
                bb \<leftarrow> [bb \<leftarrow> shardDirs f (base @ [aa]). \<not> (case after of None \<Rightarrow> False | Some a \<Rightarrow> take 2 a = aa \<and> bb < take 2 (drop 2 a))]]"

text \<open>The loop that fills a page: \<^verbatim>\<open>next\<close> is there when the page is full.\<close>

fun fill_page :: "nat \<Rightarrow> (string \<times> nat) list \<Rightarrow> (string \<times> nat) list \<Rightarrow> (string \<times> nat) list \<times> string option" where
  "fill_page limit items [] = (items, None)"
| "fill_page limit items (x # xs) =
     (let items = items @ [x] in if length items = limit then (items, Some (fst x)) else fill_page limit items xs)"

definition list_base :: "fs_path \<Rightarrow> bool \<Rightarrow> fs_path" where
  "list_base base retired = (if retired then base @ [RETIRED_DIR] else base)"

definition blob_list :: "fs_path \<Rightarrow> bool \<Rightarrow> string option \<Rightarrow> nat \<Rightarrow> fs \<Rightarrow> plugin_error + ((string \<times> nat) list \<times> string option)" where
  "blob_list base retired after limit f =
     (if limit < 1 \<or> limit > LIST_MAX_LIMIT \<or> (case after of None \<Rightarrow> False | Some a \<Rightarrow> \<not> isBlobSha256 a)
      then Inl (plugin_err ''invalid-payload'' BLOB_PLUGIN)
      else let dir = list_base base retired in
        Inr (fill_page limit []
          [(sha, n). (aa, bb) \<leftarrow> shards f dir after, sha \<leftarrow> shard_blobs f dir after aa bb,
             n \<leftarrow> (case js_get f (dir @ [aa, bb, sha]) of None \<Rightarrow> [] | Some b \<Rightarrow> [length b])]))"

section \<open>Two copies per blob\<close>

definition live_copy :: "fs_path \<Rightarrow> fs \<Rightarrow> string \<Rightarrow> bytes option" where
  "live_copy base f sha = js_get f (blobPath base sha)"

definition retired_copy :: "fs_path \<Rightarrow> fs \<Rightarrow> string \<Rightarrow> bytes option" where
  "retired_copy base f sha = js_get f (retiredPath base sha)"

lemma blobPath_eq [simp]: "blobPath base sha = blobPath base sha' \<longleftrightarrow> sha = sha'"
  by (auto simp: blobPath_def)

lemma retiredPath_eq [simp]: "retiredPath base sha = retiredPath base sha' \<longleftrightarrow> sha = sha'"
  by (simp add: retiredPath_def)

lemma paths_apart [simp]: "blobPath base sha \<noteq> retiredPath base sha'" "retiredPath base sha' \<noteq> blobPath base sha"
  by (auto simp: blobPath_def retiredPath_def dest: arg_cong[where f = length])

text \<open>What each operation does to the copies.\<close>

lemma put_copies:
  "live_copy base (snd (blob_put digest base b f)) =
     (live_copy base f)(digest b := Some (case live_copy base f (digest b) of None \<Rightarrow> b | Some c \<Rightarrow> c))"
  "retired_copy base (snd (blob_put digest base b f)) = retired_copy base f"
  by (auto simp: blob_put_def live_copy_def retired_copy_def Let_def fun_eq_iff split: option.split)

lemma restore_copies:
  "live_copy base (blob_restore base sha f) =
     (if retired_copy base f sha = None then live_copy base f else (live_copy base f)(sha := retired_copy base f sha))"
  "retired_copy base (blob_restore base sha f) = (retired_copy base f)(sha := None)"
  by (auto simp: blob_restore_def fs_rename_def live_copy_def retired_copy_def fun_eq_iff split: option.split)

lemma retire_copies:
  assumes "isBlobSha256 sha"
  shows "live_copy base (snd (blob_retire base sha f)) = (live_copy base f)(sha := None)"
    "retired_copy base (snd (blob_retire base sha f)) =
      (if live_copy base f sha = None then retired_copy base f else (retired_copy base f)(sha := live_copy base f sha))"
  using assms
  by (auto simp: blob_retire_def assertValidSha_def check_def fs_rename_def live_copy_def retired_copy_def fun_eq_iff split: option.split)

lemma purge_copies:
  assumes "isBlobSha256 sha"
  shows "live_copy base (snd (blob_purge base sha f)) = live_copy base f"
    "retired_copy base (snd (blob_purge base sha f)) = (retired_copy base f)(sha := None)"
  using assms by (auto simp: blob_purge_def assertValidSha_def check_def live_copy_def retired_copy_def fun_eq_iff)

section \<open>What was stored can be read\<close>

datatype blob_op = BPut bytes | BGet string | BStat string bool | BRetire string | BPurge string

fun blob_step :: "(bytes \<Rightarrow> string) \<Rightarrow> fs_path \<Rightarrow> blob_op \<Rightarrow> fs \<Rightarrow> fs" where
  "blob_step digest base (BPut b) f = snd (blob_put digest base b f)"
| "blob_step digest base (BGet sha) f = snd (blob_get digest base sha f)"
| "blob_step digest base (BStat sha restore) f = snd (blob_stat base sha restore f)"
| "blob_step digest base (BRetire sha) f = snd (blob_retire base sha f)"
| "blob_step digest base (BPurge sha) f = snd (blob_purge base sha f)"

text \<open>Every file has the digest of its name.\<close>

definition content_ok :: "(bytes \<Rightarrow> string) \<Rightarrow> fs_path \<Rightarrow> fs \<Rightarrow> bool" where
  "content_ok digest base f \<longleftrightarrow> (\<forall>sha b. live_copy base f sha = Some b \<or> retired_copy base f sha = Some b \<longrightarrow> digest b = sha)"

definition has_copy :: "fs_path \<Rightarrow> fs \<Rightarrow> string \<Rightarrow> bool" where
  "has_copy base f sha \<longleftrightarrow> live_copy base f sha \<noteq> None \<or> retired_copy base f sha \<noteq> None"

lemma get_state: "snd (blob_get digest base sha f) =
    (if isBlobSha256 sha \<and> live_copy base f sha = None then blob_restore base sha f else f)"
  by (auto simp: blob_get_def assertValidSha_def check_def live_copy_def Let_def split: option.split)

lemma stat_state: "snd (blob_stat base sha restore f) =
    (if isBlobSha256 sha \<and> live_copy base f sha = None \<and> restore then blob_restore base sha f else f)"
  by (auto simp: blob_stat_def assertValidSha_def check_def live_copy_def Let_def split: option.split)

lemma invalid_sha_state:
  assumes "\<not> isBlobSha256 sha"
  shows "snd (blob_retire base sha f) = f" "snd (blob_purge base sha f) = f"
  using assms by (simp_all add: blob_retire_def blob_purge_def assertValidSha_def check_def)

lemma restore_keeps:
  "content_ok digest base f \<Longrightarrow> content_ok digest base (blob_restore base sha f)"
  "has_copy base (blob_restore base sha f) sha' \<longleftrightarrow> has_copy base f sha'"
  by (auto simp: content_ok_def has_copy_def restore_copies split: if_splits)

lemma blob_step_keeps:
  "content_ok digest base f \<Longrightarrow> content_ok digest base (blob_step digest base q f)"
  "q \<noteq> BPurge sha \<Longrightarrow> has_copy base f sha \<Longrightarrow> has_copy base (blob_step digest base q f) sha"
proof -
  show "content_ok digest base (blob_step digest base q f)" if ok: "content_ok digest base f"
  proof (cases q)
    case (BPut b)
    show ?thesis using ok by (auto simp: BPut content_ok_def put_copies split: if_splits option.splits)
  next
    case (BRetire s)
    then show ?thesis using ok by (cases "isBlobSha256 s") (auto simp: content_ok_def retire_copies invalid_sha_state split: if_splits)
  next
    case (BPurge s)
    then show ?thesis using ok by (cases "isBlobSha256 s") (auto simp: content_ok_def purge_copies invalid_sha_state split: if_splits)
  qed (simp_all add: get_state stat_state ok restore_keeps)
  show "has_copy base (blob_step digest base q f) sha" if "q \<noteq> BPurge sha" "has_copy base f sha"
  proof (cases q)
    case (BPut b)
    show ?thesis using that by (auto simp: BPut has_copy_def put_copies)
  next
    case (BRetire s)
    then show ?thesis using that by (cases "isBlobSha256 s") (auto simp: has_copy_def retire_copies invalid_sha_state)
  next
    case (BPurge s)
    then show ?thesis using that by (cases "isBlobSha256 s") (auto simp: has_copy_def purge_copies invalid_sha_state)
  qed (simp_all add: get_state stat_state that restore_keeps)
qed

lemma blob_run_keeps:
  "content_ok digest base f \<Longrightarrow> content_ok digest base (fold (blob_step digest base) qs f)"
  "list_all (\<lambda>q. q \<noteq> BPurge sha) qs \<Longrightarrow> has_copy base f sha \<Longrightarrow> has_copy base (fold (blob_step digest base) qs f) sha"
  by (induction qs arbitrary: f) (simp_all add: blob_step_keeps)

lemma get_reads_copy:
  assumes "isBlobSha256 sha" "has_copy base f sha" "content_ok digest base f"
  shows "\<exists>b. digest b = sha \<and> fst (blob_get digest base sha f) = Inr (Some b)"
proof -
  define g where "g = (if live_copy base f sha = None then blob_restore base sha f else f)"
  have "content_ok digest base g" using assms(3) by (simp add: g_def restore_keeps)
  moreover obtain b where b: "live_copy base g sha = Some b"
    using assms(2) by (cases "live_copy base f sha") (auto simp: g_def has_copy_def restore_copies)
  ultimately have "digest b = sha" by (auto simp: content_ok_def)
  then show ?thesis using assms(1) b
    by (auto simp: blob_get_def assertValidSha_def check_def Let_def g_def live_copy_def split: if_splits)
qed

text \<open>C11. Bytes that were put can be read back, with their digest, after any operations on any blobs, retires
  included, as long as nobody purges this blob; and then they are never reported as corrupt.\<close>

theorem stored_bytes_are_read_back:
  assumes "isBlobSha256 (digest b)" "list_all (\<lambda>q. q \<noteq> BPurge (digest b)) qs"
  shows "\<exists>c. digest c = digest b \<and>
    fst (blob_get digest base (digest b) (fold (blob_step digest base) (before @ BPut b # qs) [])) = Inr (Some c)"
proof -
  have "content_ok digest base []" by (simp add: content_ok_def live_copy_def retired_copy_def)
  then have ok: "content_ok digest base (fold (blob_step digest base) (before @ BPut b # qs) [])" by (rule blob_run_keeps)
  have "has_copy base (blob_step digest base (BPut b) f) (digest b)" for f by (simp add: has_copy_def put_copies)
  then have "has_copy base (fold (blob_step digest base) (before @ BPut b # qs) []) (digest b)"
    using blob_run_keeps(2)[OF assms(2)] by simp
  from get_reads_copy[OF assms(1) this ok] show ?thesis .
qed

lemma stored_bytes_are_read_back_witness:
  "\<exists>c. demo_sha = demo_sha \<and>
    fst (blob_get (\<lambda>b. demo_sha) [''blobs''] demo_sha
      (fold (blob_step (\<lambda>b. demo_sha) [''blobs'']) ([BPurge demo_sha] @ BPut ''x'' # [BRetire demo_sha, BStat demo_sha False]) [])) = Inr (Some c)"
  by (rule stored_bytes_are_read_back[where digest = "\<lambda>b. demo_sha" and b = "''x''"]) (simp_all add: demo_sha_ok)

section \<open>Pages\<close>

lemma less_append: "length xs = length ys \<Longrightarrow> xs < ys \<Longrightarrow> xs @ u < ys @ (v :: string)"
  by (induction xs ys rule: list_induct2) auto

lemma less_prefix: "a @ x < a @ y \<longleftrightarrow> x < (y :: string)"
  by (induction a) auto

lemma entry_below_file: "entry_below dir p = Some (n, True) \<longleftrightarrow> p = dir @ [n]"
  by (induction dir p rule: entry_below.induct) auto

lemma entry_below_dir: "entry_below dir p = Some (n, False) \<longleftrightarrow> (\<exists>m ns. p = dir @ n # m # ns)"
  by (induction dir p rule: entry_below.induct) auto

lemma readdir_iff: "x \<in> set (readdir f dir) \<longleftrightarrow> (\<exists>p. js_get f p \<noteq> None \<and> entry_below dir p = Some x)"
  by (auto simp: readdir_def map_filter_def map_of_eq_None_iff image_iff)

lemma strict_sort_names:
  assumes "distinct xs" "\<And>x. x \<in> set xs \<Longrightarrow> P x \<Longrightarrow> snd x = k"
  shows "sorted_wrt (<) (sort (List.map fst (filter P xs)) :: string list)"
proof -
  have "inj_on fst (set (filter P xs))" using assms(2) by (auto simp: inj_on_def prod_eq_iff)
  then have "distinct (List.map fst (filter P xs))" using assms(1) by (simp add: distinct_map)
  then show ?thesis by (simp add: strict_sorted_iff)
qed

lemma sorted_wrt_concat:
  assumes "sorted_wrt (\<lambda>x y. \<forall>a \<in> set (g x). \<forall>b \<in> set (g y). R a b) xs" "\<And>x. x \<in> set xs \<Longrightarrow> sorted_wrt R (g x)"
  shows "sorted_wrt R (concat (List.map g xs))"
  using assms by (induction xs) (auto simp: sorted_wrt_append)

lemma comprehension_filter: "[n. (n, file) \<leftarrow> xs, P n file] = List.map fst (filter (\<lambda>(n, file). P n file) xs)"
  by (induction xs) auto

lemma readdir_entries:
  "(n, True) \<in> set (readdir f dir) \<longleftrightarrow> js_get f (dir @ [n]) \<noteq> None"
  "(n, False) \<in> set (readdir f dir) \<longleftrightarrow> (\<exists>m ns. js_get f (dir @ n # m # ns) \<noteq> None)"
  unfolding readdir_iff entry_below_file entry_below_dir by auto

lemma names_mem: "n \<in> set (sort (List.map fst (filter (\<lambda>(n, file). P n file) xs))) \<longleftrightarrow> (\<exists>file. (n, file) \<in> set xs \<and> P n file)"
  by force

lemma shardDirs_props:
  "sorted_wrt (<) (shardDirs f dir)"
  "n \<in> set (shardDirs f dir) \<longleftrightarrow> SHARD_REGEX n \<and> (\<exists>m ns. js_get f (dir @ n # m # ns) \<noteq> None)"
proof -
  show "sorted_wrt (<) (shardDirs f dir)"
    unfolding shardDirs_def comprehension_filter by (rule strict_sort_names[where k = False]) (auto simp: readdir_def)
  have "n \<in> set (shardDirs f dir) \<longleftrightarrow> SHARD_REGEX n \<and> (n, False) \<in> set (readdir f dir)"
    unfolding shardDirs_def comprehension_filter names_mem by auto
  then show "n \<in> set (shardDirs f dir) \<longleftrightarrow> SHARD_REGEX n \<and> (\<exists>m ns. js_get f (dir @ n # m # ns) \<noteq> None)"
    unfolding readdir_entries .
qed

definition past :: "string option \<Rightarrow> string \<Rightarrow> bool" where
  "past after n \<longleftrightarrow> (case after of None \<Rightarrow> True | Some a \<Rightarrow> a < n)"

lemma shard_blobs_props:
  "sorted_wrt (<) (shard_blobs f base after aa bb)"
  "n \<in> set (shard_blobs f base after aa bb) \<longleftrightarrow>
     isBlobSha256 n \<and> starts_with (aa @ bb) n \<and> past after n \<and> js_get f (base @ [aa, bb, n]) \<noteq> None"
proof -
  show "sorted_wrt (<) (shard_blobs f base after aa bb)"
    unfolding shard_blobs_def comprehension_filter by (rule strict_sort_names[where k = True]) (auto simp: readdir_def)
  have "n \<in> set (shard_blobs f base after aa bb) \<longleftrightarrow>
     isBlobSha256 n \<and> starts_with (aa @ bb) n \<and> past after n \<and> (n, True) \<in> set (readdir f (base @ [aa, bb]))"
    unfolding shard_blobs_def comprehension_filter past_def names_mem by auto
  then show "n \<in> set (shard_blobs f base after aa bb) \<longleftrightarrow>
     isBlobSha256 n \<and> starts_with (aa @ bb) n \<and> past after n \<and> js_get f (base @ [aa, bb, n]) \<noteq> None"
    unfolding readdir_entries by simp
qed

definition shard_before :: "string \<times> string \<Rightarrow> string \<times> string \<Rightarrow> bool" where
  "shard_before x y \<longleftrightarrow> fst x < fst y \<or> fst x = fst y \<and> snd x < snd y"

lemma shards_mem:
  "x \<in> set (shards f dir after) \<longleftrightarrow> fst x \<in> set (shardDirs f dir) \<and> snd x \<in> set (shardDirs f (dir @ [fst x])) \<and>
     (case after of None \<Rightarrow> True | Some a \<Rightarrow> \<not> fst x < take 2 a \<and> \<not> (take 2 a = fst x \<and> snd x < take 2 (drop 2 a)))"
  by (cases after; cases x) (auto simp: shards_def simp del: not_less)

lemma sorted_pairs: "sorted_wrt (<) bs \<Longrightarrow> sorted_wrt shard_before (List.map (Pair aa) bs)"
  by (simp add: sorted_wrt_map shard_before_def)

lemma shards_sorted: "sorted_wrt shard_before (shards f dir after)"
  unfolding shards_def
proof (rule sorted_wrt_concat, goal_cases)
  case 1
  have "sorted_wrt (<) [aa \<leftarrow> shardDirs f dir. \<not> (case after of None \<Rightarrow> False | Some a \<Rightarrow> aa < take 2 a)]"
    by (rule sorted_wrt_filter[OF shardDirs_props(1)])
  then show ?case by (rule sorted_wrt_mono_rel[rotated]) (auto simp: shard_before_def)
next
  case (2 x)
  show ?case by (rule sorted_pairs) (rule sorted_wrt_filter[OF shardDirs_props(1)])
qed

lemma shards_regex: "x \<in> set (shards f dir after) \<Longrightarrow> SHARD_REGEX (fst x) \<and> SHARD_REGEX (snd x)"
  by (simp add: shards_mem shardDirs_props)

definition listed :: "fs \<Rightarrow> fs_path \<Rightarrow> string option \<Rightarrow> string list" where
  "listed f dir after = concat (List.map (\<lambda>x. shard_blobs f dir after (fst x) (snd x)) (shards f dir after))"

lemma shard_before_blobs:
  assumes "shard_before x y" "SHARD_REGEX (fst x)" "SHARD_REGEX (snd x)" "SHARD_REGEX (fst y)" "SHARD_REGEX (snd y)"
    and "starts_with (fst x @ snd x) a" "starts_with (fst y @ snd y) b"
  shows "a < b"
proof -
  have "fst x @ snd x < fst y @ snd y"
    using assms(1-5) by (auto simp: shard_before_def SHARD_REGEX_def less_prefix intro: less_append)
  moreover have "length (fst x @ snd x) = length (fst y @ snd y)" using assms(2-5) by (simp add: SHARD_REGEX_def)
  moreover obtain u v where "a = (fst x @ snd x) @ u" "b = (fst y @ snd y) @ v"
    using starts_with_drop[OF assms(6)] starts_with_drop[OF assms(7)] by blast
  ultimately show ?thesis using less_append[of "fst x @ snd x" "fst y @ snd y" u v] by simp
qed

lemma listed_sorted: "sorted_wrt (<) (listed f dir after)"
  unfolding listed_def
proof (rule sorted_wrt_concat)
  show "sorted_wrt (\<lambda>x y. \<forall>a \<in> set (shard_blobs f dir after (fst x) (snd x)).
      \<forall>b \<in> set (shard_blobs f dir after (fst y) (snd y)). a < b) (shards f dir after)"
    by (rule sorted_wrt_mono_rel[OF _ shards_sorted]) (auto dest: shards_regex intro: shard_before_blobs simp: shard_blobs_props)
qed (rule shard_blobs_props)

text \<open>Every copy lies in a shard that the walk reads, and in no other.\<close>

lemma sha_shards:
  assumes "isBlobSha256 sha"
  shows "SHARD_REGEX (take 2 sha)" "SHARD_REGEX (take 2 (drop 2 sha))" "starts_with (take 2 sha @ take 2 (drop 2 sha)) sha"
proof -
  have hex: "length sha = 64" "list_all is_hex sha" using assms by (simp_all add: isBlobSha256_def)
  then show "SHARD_REGEX (take 2 sha)" "SHARD_REGEX (take 2 (drop 2 sha))"
    by (auto simp: SHARD_REGEX_def list_all_iff dest: in_set_takeD in_set_dropD)
  have "take 2 sha @ take 2 (drop 2 sha) = take 4 sha" by (simp add: take_add[symmetric])
  then show "starts_with (take 2 sha @ take 2 (drop 2 sha)) sha" using hex by (simp add: starts_with_def)
qed

lemma starts_with_shards:
  assumes "starts_with (aa @ bb) sha" "SHARD_REGEX aa" "SHARD_REGEX bb"
  shows "take 2 sha = aa \<and> take 2 (drop 2 sha) = bb"
proof -
  obtain r where "sha = (aa @ bb) @ r" using starts_with_drop[OF assms(1)] by blast
  then show ?thesis using assms(2,3) by (simp add: SHARD_REGEX_def)
qed

lemma cursor_shard:
  assumes "isBlobSha256 a" "isBlobSha256 n" "a < n"
  shows "\<not> take 2 n < take 2 a \<and> \<not> (take 2 a = take 2 n \<and> take 2 (drop 2 n) < take 2 (drop 2 a))"
proof (intro conjI notI)
  have len: "length a = 64" "length n = 64" using assms(1,2) by (simp_all add: isBlobSha256_def)
  have parts: "x = take 2 x @ take 2 (drop 2 x) @ drop 4 x" for x :: string
  proof -
    have "take 4 x = take 2 x @ take 2 (drop 2 x)" using take_add[of 2 2 x] by simp
    then show ?thesis using append_take_drop_id[of 4 x] by simp
  qed
  assume "take 2 n < take 2 a"
  then have "take 2 n @ take 2 (drop 2 n) @ drop 4 n < take 2 a @ take 2 (drop 2 a) @ drop 4 a"
    using len by (intro less_append) simp_all
  then show False using parts[of n] parts[of a] assms(3) by auto
next
  have len: "length a = 64" "length n = 64" using assms(1,2) by (simp_all add: isBlobSha256_def)
  have parts: "x = take 2 x @ take 2 (drop 2 x) @ drop 4 x" for x :: string
  proof -
    have "take 4 x = take 2 x @ take 2 (drop 2 x)" using take_add[of 2 2 x] by simp
    then show ?thesis using append_take_drop_id[of 4 x] by simp
  qed
  assume eq: "take 2 a = take 2 n \<and> take 2 (drop 2 n) < take 2 (drop 2 a)"
  then have "take 2 (drop 2 n) @ drop 4 n < take 2 (drop 2 a) @ drop 4 a"
    using len by (intro less_append) simp_all
  then have "take 2 n @ take 2 (drop 2 n) @ drop 4 n < take 2 n @ take 2 (drop 2 a) @ drop 4 a" by (simp add: less_prefix)
  then show False using parts[of n] parts[of a] assms(3) eq by auto
qed

lemma listed_mem:
  assumes "case after of None \<Rightarrow> True | Some a \<Rightarrow> isBlobSha256 a"
  shows "n \<in> set (listed f dir after) \<longleftrightarrow> isBlobSha256 n \<and> past after n \<and> js_get f (blobPath dir n) \<noteq> None"
proof
  assume "n \<in> set (listed f dir after)"
  then obtain x where x: "x \<in> set (shards f dir after)" "n \<in> set (shard_blobs f dir after (fst x) (snd x))"
    by (auto simp: listed_def)
  then have n: "isBlobSha256 n" "starts_with (fst x @ snd x) n" "past after n" "js_get f (dir @ [fst x, snd x, n]) \<noteq> None"
    by (simp_all add: shard_blobs_props)
  with starts_with_shards[OF n(2)] shards_regex[OF x(1)] show "isBlobSha256 n \<and> past after n \<and> js_get f (blobPath dir n) \<noteq> None"
    by (simp add: blobPath_def)
next
  assume n: "isBlobSha256 n \<and> past after n \<and> js_get f (blobPath dir n) \<noteq> None"
  define aa bb where "aa = take 2 n" and "bb = take 2 (drop 2 n)"
  have there: "js_get f (dir @ [aa, bb, n]) \<noteq> None" using n by (simp add: blobPath_def aa_def bb_def)
  have shard: "SHARD_REGEX aa" "SHARD_REGEX bb" "starts_with (aa @ bb) n" using sha_shards n by (simp_all add: aa_def bb_def)
  have "aa \<in> set (shardDirs f dir)" "bb \<in> set (shardDirs f (dir @ [aa]))"
    unfolding shardDirs_props using shard there by auto
  moreover have "case after of None \<Rightarrow> True | Some a \<Rightarrow> \<not> aa < take 2 a \<and> \<not> (take 2 a = aa \<and> bb < take 2 (drop 2 a))"
    using cursor_shard n assms by (cases after) (auto simp: past_def aa_def bb_def)
  ultimately have "(aa, bb) \<in> set (shards f dir after)" by (simp only: shards_mem fst_conv snd_conv simp_thms)
  moreover have "n \<in> set (shard_blobs f dir after aa bb)" using n shard there by (simp add: shard_blobs_props)
  ultimately show "n \<in> set (listed f dir after)" unfolding listed_def by force
qed

lemma fill_page_take:
  assumes "0 < limit" "length items < limit"
  shows "fill_page limit items xs =
    (items @ take (limit - length items) xs, if limit - length items \<le> length xs then Some (fst (xs ! (limit - length items - 1))) else None)"
  using assms
proof (induction limit items xs rule: fill_page.induct)
  case (2 limit items x xs)
  show ?case
  proof (cases "Suc (length items) = limit")
    case True
    then have "limit - length items = 1" by simp
    then show ?thesis using True by (simp add: Let_def)
  next
    case False
    have "limit - length items = Suc (limit - length (items @ [x]))" "0 < limit - length (items @ [x])" using False 2(3) by simp_all
    then show ?thesis using 2(1)[OF refl] 2(2,3) False by (simp add: Let_def nth_Cons')
  qed
qed simp

lemma page_entries:
  "[(sha, n). (aa, bb) \<leftarrow> shards f dir after, sha \<leftarrow> shard_blobs f dir after aa bb,
      n \<leftarrow> (case js_get f (dir @ [aa, bb, sha]) of None \<Rightarrow> [] | Some b \<Rightarrow> [length b])] =
   List.map (\<lambda>sha. (sha, length (the (js_get f (blobPath dir sha))))) (listed f dir after)"
proof -
  have entry: "(case js_get f (dir @ [aa, bb, sha]) of None \<Rightarrow> [] | Some b \<Rightarrow> [length b]) = [length (the (js_get f (blobPath dir sha)))]"
    if "(aa, bb) \<in> set (shards f dir after)" "sha \<in> set (shard_blobs f dir after aa bb)" for aa bb sha
  proof -
    have n: "starts_with (aa @ bb) sha" "js_get f (dir @ [aa, bb, sha]) \<noteq> None" using that(2) by (simp_all add: shard_blobs_props)
    have "blobPath dir sha = dir @ [aa, bb, sha]"
      using starts_with_shards[OF n(1)] shards_regex[OF that(1)] by (simp add: blobPath_def)
    then show ?thesis using n(2) by auto
  qed
  have inner: "concat (List.map (\<lambda>sha. List.map (Pair sha) (case js_get f (dir @ [fst x, snd x, sha]) of None \<Rightarrow> [] | Some b \<Rightarrow> [length b]))
        (shard_blobs f dir after (fst x) (snd x)))
      = List.map (\<lambda>sha. (sha, length (the (js_get f (blobPath dir sha))))) (shard_blobs f dir after (fst x) (snd x))"
    if "x \<in> set (shards f dir after)" for x
  proof -
    have "concat (List.map (\<lambda>sha. List.map (Pair sha) (case js_get f (dir @ [fst x, snd x, sha]) of None \<Rightarrow> [] | Some b \<Rightarrow> [length b])) shas)
        = List.map (\<lambda>sha. (sha, length (the (js_get f (blobPath dir sha))))) shas"
      if "set shas \<subseteq> set (shard_blobs f dir after (fst x) (snd x))" for shas
      using that
    proof (induction shas)
      case (Cons sha shas)
      then show ?case using entry[of "fst x" "snd x" sha] \<open>x \<in> set (shards f dir after)\<close> by simp
    qed simp
    then show ?thesis by blast
  qed
  have "concat (List.map (\<lambda>x. concat (List.map (\<lambda>sha. List.map (Pair sha)
        (case js_get f (dir @ [fst x, snd x, sha]) of None \<Rightarrow> [] | Some b \<Rightarrow> [length b])) (shard_blobs f dir after (fst x) (snd x)))) (shards f dir after))
      = concat (List.map (\<lambda>x. List.map (\<lambda>sha. (sha, length (the (js_get f (blobPath dir sha))))) (shard_blobs f dir after (fst x) (snd x))) (shards f dir after))"
    by (rule arg_cong[where f = concat], rule List.map_cong[OF refl], rule inner)
  then show ?thesis by (simp add: listed_def map_concat comp_def case_prod_unfold)
qed

text \<open>The copy in one of the two namespaces.\<close>

definition copy_in :: "fs_path \<Rightarrow> bool \<Rightarrow> fs \<Rightarrow> string \<Rightarrow> bytes option" where
  "copy_in base retired f = (if retired then retired_copy base f else live_copy base f)"

text \<open>C10. A page has the blobs of its namespace after the cursor, each once, in ascending order, with their
  sizes; it has as many as fit, and the next cursor exactly when it is full. Paging on visits every blob.\<close>

theorem pages_are_the_sorted_blobs:
  assumes limit: "1 \<le> limit" "limit \<le> LIST_MAX_LIMIT" and after: "case after of None \<Rightarrow> True | Some a \<Rightarrow> isBlobSha256 a"
  shows "let shas = sorted_list_of_set {sha. isBlobSha256 sha \<and> past after sha \<and> copy_in base retired f sha \<noteq> None} in
    blob_list base retired after limit f =
      Inr (take limit (List.map (\<lambda>sha. (sha, length (the (copy_in base retired f sha)))) shas),
        if limit \<le> length shas then Some (shas ! (limit - 1)) else None)"
proof -
  define dir where "dir = list_base base retired"
  have copy: "copy_in base retired f sha = js_get f (blobPath dir sha)" for sha
    by (simp add: copy_in_def dir_def list_base_def live_copy_def retired_copy_def retiredPath_def)
  have set: "set (listed f dir after) = {sha. isBlobSha256 sha \<and> past after sha \<and> copy_in base retired f sha \<noteq> None}"
    using listed_mem[OF after, of _ f dir] by (auto simp: copy)
  have shas: "sorted_list_of_set {sha. isBlobSha256 sha \<and> past after sha \<and> copy_in base retired f sha \<noteq> None} = listed f dir after"
    unfolding set[symmetric] using listed_sorted[of f dir after] by (simp add: strict_sorted_iff sorted_list_of_set.idem_if_sorted_distinct)
  have "\<not> (limit < 1 \<or> limit > LIST_MAX_LIMIT \<or> (case after of None \<Rightarrow> False | Some a \<Rightarrow> \<not> isBlobSha256 a))"
    using limit after by (auto split: option.splits)
  then have "blob_list base retired after limit f =
      Inr (fill_page limit [] (List.map (\<lambda>sha. (sha, length (the (copy_in base retired f sha)))) (listed f dir after)))"
    by (simp only: blob_list_def page_entries dir_def[symmetric] copy Let_def if_False)
  then show ?thesis unfolding Let_def shas using limit(1) by (simp add: fill_page_take take_map)
qed

lemma pages_are_the_sorted_blobs_witness:
  "let shas = sorted_list_of_set {sha. isBlobSha256 sha \<and> past (Some demo_sha) sha \<and> copy_in [''blobs''] True [] sha \<noteq> None} in
    blob_list [''blobs''] True (Some demo_sha) 7 [] =
      Inr (take 7 (List.map (\<lambda>sha. (sha, length (the (copy_in [''blobs''] True [] sha)))) shas),
        if 7 \<le> length shas then Some (shas ! (7 - 1)) else None)"
  by (rule pages_are_the_sorted_blobs) (simp_all add: LIST_MAX_LIMIT_def demo_sha_ok)

end
