(* ===== verification/Blob_Gc.thy ===== *)
theory Blob_Gc
  imports Blob_Refs Js_Text
begin

text \<open>
  The garbage collector of blobs, after \<^verbatim>\<open>packages/blob-gc/src\<close>: its tables (\<^verbatim>\<open>store.ts\<close>), its settings
  (\<^verbatim>\<open>config.ts\<close>) and the sweep (\<^verbatim>\<open>service.ts\<close>). Everything outside the sweep (the clock, the blob hooks,
  the holders, the storage) is an environment; each of its calls may change the whole world, so puts and
  reads of others can happen wherever the code waits for the bus. Each statement on the tables may fail,
  before or after it took effect. The sweep keeps a log of what it asked and moved. Its loops take fuel.
\<close>

section \<open>Tables\<close>

datatype blob_state = Live | RetiredState

record gc_row =
  gr_size :: nat
  gr_lastPut :: int
  gr_state :: blob_state
  gr_retiredAt :: "int option"

record gc_db =
  gd_blobs :: "(string, gc_row) jsmap"
  gd_roster :: "string list"

definition live_row :: "nat \<Rightarrow> int \<Rightarrow> gc_row" where
  "live_row n t = \<lparr>gr_size = n, gr_lastPut = t, gr_state = Live, gr_retiredAt = None\<rparr>"

definition recordPut :: "string \<Rightarrow> nat \<Rightarrow> int \<Rightarrow> gc_db \<Rightarrow> gc_db" where
  "recordPut sha n t db = db\<lparr>gd_blobs := js_set sha
     (live_row n (case js_get (gd_blobs db) sha of None \<Rightarrow> t | Some r \<Rightarrow> max (gr_lastPut r) t)) (gd_blobs db)\<rparr>"

text \<open>\<^verbatim>\<open>INSERT ... ON CONFLICT DO NOTHING\<close>, with the number of rows it inserted.\<close>

fun insert_unseen :: "(nat \<Rightarrow> gc_row) \<Rightarrow> (string \<times> nat) list \<Rightarrow> gc_db \<Rightarrow> nat \<times> gc_db" where
  "insert_unseen row [] db = (0, db)"
| "insert_unseen row ((sha, n) # items) db =
     (if js_get (gd_blobs db) sha = None
      then (let (k, db) = insert_unseen row items (db\<lparr>gd_blobs := js_set sha (row n) (gd_blobs db)\<rparr>) in (Suc k, db))
      else insert_unseen row items db)"

definition discover_live :: "(string \<times> nat) list \<Rightarrow> int \<Rightarrow> gc_db \<Rightarrow> nat \<times> gc_db" where
  "discover_live items t = insert_unseen (\<lambda>n. live_row n t) items"

definition discoverRetired :: "(string \<times> nat) list \<Rightarrow> int \<Rightarrow> gc_db \<Rightarrow> nat \<times> gc_db" where
  "discoverRetired items t =
     insert_unseen (\<lambda>n. \<lparr>gr_size = n, gr_lastPut = t, gr_state = RetiredState, gr_retiredAt = Some t\<rparr>) items"

text \<open>\<^verbatim>\<open>UPDATE ... SET f WHERE P\<close>.\<close>

definition update_rows :: "(string \<Rightarrow> gc_row \<Rightarrow> bool) \<Rightarrow> (gc_row \<Rightarrow> gc_row) \<Rightarrow> gc_db \<Rightarrow> gc_db" where
  "update_rows P f db = db\<lparr>gd_blobs := List.map (\<lambda>(sha, r). (sha, if P sha r then f r else r)) (gd_blobs db)\<rparr>"

definition rows_where :: "(string \<Rightarrow> gc_row \<Rightarrow> bool) \<Rightarrow> gc_db \<Rightarrow> string list" where
  "rows_where P db = sort [sha. (sha, r) \<leftarrow> gd_blobs db, P sha r]"

definition live_again :: "int \<Rightarrow> gc_row \<Rightarrow> gc_row" where
  "live_again t r = r\<lparr>gr_state := Live, gr_retiredAt := None, gr_lastPut := max (gr_lastPut r) t\<rparr>"

definition reviveListed :: "string list \<Rightarrow> int \<Rightarrow> gc_db \<Rightarrow> string list \<times> gc_db" where
  "reviveListed shas t db =
     (let P = (\<lambda>sha r. sha \<in> set shas \<and> gr_state r = RetiredState) in (rows_where P db, update_rows P (live_again t) db))"

definition claimLive :: "string list \<Rightarrow> int \<Rightarrow> gc_db \<Rightarrow> string list \<times> gc_db" where
  "claimLive shas t db =
     (let P = (\<lambda>sha r. sha \<in> set shas \<and> gr_state r = Live) in
      (rows_where P db, update_rows P (\<lambda>r. r\<lparr>gr_lastPut := max (gr_lastPut r) t\<rparr>) db))"

definition retirable :: "int \<Rightarrow> gc_row \<Rightarrow> bool" where
  "retirable cutoff r \<longleftrightarrow> gr_state r = Live \<and> gr_lastPut r < cutoff"

definition due :: "int \<Rightarrow> gc_row \<Rightarrow> bool" where
  "due cutoff r \<longleftrightarrow> gr_state r = RetiredState \<and> (case gr_retiredAt r of None \<Rightarrow> False | Some t \<Rightarrow> t < cutoff)"

text \<open>\<^verbatim>\<open>candidates\<close> and \<^verbatim>\<open>purgeDue\<close>: a page of rows, by sha.\<close>

definition page_of :: "(gc_row \<Rightarrow> bool) \<Rightarrow> string option \<Rightarrow> nat \<Rightarrow> gc_db \<Rightarrow> (string \<times> nat) list" where
  "page_of P after limit db =
     take limit (sort_key fst [(sha, gr_size r). (sha, r) \<leftarrow> gd_blobs db, P r \<and> (case after of None \<Rightarrow> True | Some a \<Rightarrow> sha > a)])"

definition markRetired :: "string \<Rightarrow> int \<Rightarrow> int \<Rightarrow> gc_db \<Rightarrow> bool \<times> gc_db" where
  "markRetired sha cutoff t db =
     (case js_get (gd_blobs db) sha of
        Some r \<Rightarrow>
          if retirable cutoff r
          then (True, db\<lparr>gd_blobs := js_set sha (r\<lparr>gr_state := RetiredState, gr_retiredAt := Some t\<rparr>) (gd_blobs db)\<rparr>)
          else (False, db)
      | None \<Rightarrow> (False, db))"

definition unmarkRetired :: "string \<Rightarrow> int \<Rightarrow> gc_db \<Rightarrow> gc_db" where
  "unmarkRetired sha t =
     update_rows (\<lambda>s r. s = sha \<and> gr_state r = RetiredState \<and> gr_retiredAt r = Some t) (\<lambda>r. r\<lparr>gr_state := Live, gr_retiredAt := None\<rparr>)"

definition markRestored :: "string \<Rightarrow> int \<Rightarrow> gc_db \<Rightarrow> gc_db" where
  "markRestored sha t = update_rows (\<lambda>s r. s = sha \<and> gr_state r = RetiredState) (live_again t)"

definition deletePurged :: "string \<Rightarrow> int \<Rightarrow> gc_db \<Rightarrow> bool \<times> gc_db" where
  "deletePurged sha cutoff db =
     (case js_get (gd_blobs db) sha of
        Some r \<Rightarrow> if due cutoff r then (True, db\<lparr>gd_blobs := js_delete sha (gd_blobs db)\<rparr>) else (False, db)
      | None \<Rightarrow> (False, db))"

definition touchRoster :: "string list \<Rightarrow> gc_db \<Rightarrow> gc_db" where
  "touchRoster names db = db\<lparr>gd_roster := fold add_name names (gd_roster db)\<rparr>"

definition forgetHolder :: "string \<Rightarrow> gc_db \<Rightarrow> bool \<times> gc_db" where
  "forgetHolder holder db = (holder \<in> set (gd_roster db), db\<lparr>gd_roster := [h \<leftarrow> gd_roster db. h \<noteq> holder]\<rparr>)"

section \<open>Settings\<close>

datatype gc_mode = Report | Enforce

record gc_settings =
  st_mode :: gc_mode
  st_graceMs :: int
  st_retentionMs :: int

definition DEFAULT_SETTINGS :: gc_settings where
  "DEFAULT_SETTINGS = \<lparr>st_mode = Report, st_graceMs = 86400000, st_retentionMs = 604800000\<rparr>"

fun mode_schema :: "jsval \<Rightarrow> gc_mode option" where
  "mode_schema (JStr s) = (if s = ''report'' then Some Report else if s = ''enforce'' then Some Enforce else None)"
| "mode_schema _ = None"

fun int_between :: "int \<Rightarrow> int \<Rightarrow> jsval \<Rightarrow> int option" where
  "int_between lo hi (JNum (Fin q)) = (if q \<in> \<int> \<and> of_int lo \<le> q \<and> q \<le> of_int hi then Some \<lfloor>q\<rfloor> else None)"
| "int_between lo hi _ = None"

definition grace_schema :: "jsval \<Rightarrow> int option" where
  "grace_schema = int_between 3600000 2592000000"

definition retention_schema :: "jsval \<Rightarrow> int option" where
  "retention_schema = int_between 86400000 7776000000"

definition or_default :: "'a option \<Rightarrow> 'a \<Rightarrow> 'a" where
  "or_default v dflt = (case v of None \<Rightarrow> dflt | Some x \<Rightarrow> x)"

definition parse_settings :: "(bytes \<Rightarrow> jsval option) \<Rightarrow> bytes option \<Rightarrow> gc_settings" where
  "parse_settings json_parse stored =
     (case stored of
        None \<Rightarrow> DEFAULT_SETTINGS
      | Some b \<Rightarrow>
          (case json_parse b of
             Some (JObj fs) \<Rightarrow>
               \<lparr>st_mode = or_default (mode_schema (js_field (JObj fs) ''mode'')) (st_mode DEFAULT_SETTINGS),
                st_graceMs = or_default (grace_schema (js_field (JObj fs) ''graceMs'')) (st_graceMs DEFAULT_SETTINGS),
                st_retentionMs = or_default (retention_schema (js_field (JObj fs) ''retentionMs'')) (st_retentionMs DEFAULT_SETTINGS)\<rparr>
           | _ \<Rightarrow> DEFAULT_SETTINGS))"

section \<open>The world of a sweep\<close>

datatype gc_event =
    Asked "string list" "string list" "jsval option"
  | StatAsked string bool "jsval option"
  | Moved string gc_row int
  | Purged string

record 'w gc_world =
  gw_db :: gc_db
  gw_ext :: 'w
  gw_log :: "gc_event list"

datatype statement = Runs | Fails | RunsAndFails

record gc_report =
  rp_at :: int
  rp_mode :: gc_mode
  rp_discovered :: nat
  rp_candidates :: nat
  rp_held :: nat
  rp_wouldRetire :: nat
  rp_wouldRetireBytes :: nat
  rp_retired :: nat
  rp_restored :: nat
  rp_purged :: nat
  rp_bytesPurged :: nat
  rp_perHolder :: "(string, nat) jsmap"

text \<open>The calls out of the sweep: the clock, whether the next statement works, the settings, the hooks with
  what they return (\<open>None\<close> or \<open>False\<close>: they threw; for the ask: it was vetoed), and the advisory lock.\<close>

record 'w gc_env =
  ev_now :: "'w \<Rightarrow> int \<times> 'w"
  ev_statement :: "'w \<Rightarrow> statement \<times> 'w"
  ev_settings :: "gc_db \<times> 'w \<Rightarrow> gc_settings option \<times> gc_db \<times> 'w"
  ev_list :: "bool \<Rightarrow> string option \<Rightarrow> gc_db \<times> 'w \<Rightarrow> jsval option \<times> gc_db \<times> 'w"
  ev_stat :: "string \<Rightarrow> bool \<Rightarrow> gc_db \<times> 'w \<Rightarrow> jsval option \<times> gc_db \<times> 'w"
  ev_retire :: "string \<Rightarrow> gc_db \<times> 'w \<Rightarrow> bool \<times> gc_db \<times> 'w"
  ev_purge :: "string \<Rightarrow> gc_db \<times> 'w \<Rightarrow> bool \<times> gc_db \<times> 'w"
  ev_ask :: "string list \<Rightarrow> gc_db \<times> 'w \<Rightarrow> jsval option \<times> gc_db \<times> 'w"
  ev_save :: "gc_report \<Rightarrow> gc_db \<times> 'w \<Rightarrow> bool \<times> gc_db \<times> 'w"

text \<open>A step ends with a value, throws, or runs out of fuel.\<close>

datatype 'a gc_result = Ret 'a | Thrown | Unfinished

type_synonym ('w, 'a) gcm = "'w gc_world \<Rightarrow> 'a gc_result \<times> 'w gc_world"

definition ret :: "'a \<Rightarrow> ('w, 'a) gcm" where
  "ret x w = (Ret x, w)"

definition throw :: "('w, 'a) gcm" where
  "throw w = (Thrown, w)"

definition and_then :: "('w, 'a) gcm \<Rightarrow> ('a \<Rightarrow> ('w, 'b) gcm) \<Rightarrow> ('w, 'b) gcm" where
  "and_then m k w = (case m w of (Ret x, w) \<Rightarrow> k x w | (Thrown, w) \<Rightarrow> (Thrown, w) | (Unfinished, w) \<Rightarrow> (Unfinished, w))"

definition add_log :: "gc_event \<Rightarrow> ('w, unit) gcm" where
  "add_log e w = (Ret (), w\<lparr>gw_log := gw_log w @ [e]\<rparr>)"

definition now_at :: "'w gc_env \<Rightarrow> ('w, int) gcm" where
  "now_at env w = (case ev_now env (gw_ext w) of (t, x) \<Rightarrow> (Ret t, w\<lparr>gw_ext := x\<rparr>))"

definition statement :: "'w gc_env \<Rightarrow> (gc_db \<Rightarrow> 'a \<times> gc_db) \<Rightarrow> ('w, 'a) gcm" where
  "statement env f w =
     (case ev_statement env (gw_ext w) of
        (Runs, x) \<Rightarrow> (Ret (fst (f (gw_db w))), w\<lparr>gw_ext := x, gw_db := snd (f (gw_db w))\<rparr>)
      | (Fails, x) \<Rightarrow> (Thrown, w\<lparr>gw_ext := x\<rparr>)
      | (RunsAndFails, x) \<Rightarrow> (Thrown, w\<lparr>gw_ext := x, gw_db := snd (f (gw_db w))\<rparr>))"

text \<open>A store operation that sends no statement when its list is empty.\<close>

definition statement_unless :: "bool \<Rightarrow> 'a \<Rightarrow> 'w gc_env \<Rightarrow> (gc_db \<Rightarrow> 'a \<times> gc_db) \<Rightarrow> ('w, 'a) gcm" where
  "statement_unless b v env f = (if b then ret v else statement env f)"

definition bus_call :: "(gc_db \<times> 'w \<Rightarrow> 'a \<times> gc_db \<times> 'w) \<Rightarrow> ('w, 'a) gcm" where
  "bus_call f w = (case f (gw_db w, gw_ext w) of (r, d, x) \<Rightarrow> (Ret r, w\<lparr>gw_db := d, gw_ext := x\<rparr>))"

fun or_throw :: "'a option \<Rightarrow> ('w, 'a) gcm" where
  "or_throw None = throw"
| "or_throw (Some x) = ret x"

definition stat_call :: "'w gc_env \<Rightarrow> string \<Rightarrow> bool \<Rightarrow> ('w, jsval) gcm" where
  "stat_call env sha restore =
     and_then (bus_call (ev_stat env sha restore)) (\<lambda>r. and_then (add_log (StatAsked sha restore r)) (\<lambda>_. or_throw r))"

definition purge_call :: "'w gc_env \<Rightarrow> string \<Rightarrow> ('w, unit) gcm" where
  "purge_call env sha =
     and_then (add_log (Purged sha)) (\<lambda>_. and_then (bus_call (ev_purge env sha)) (\<lambda>done_ok. if done_ok then ret () else throw))"

text \<open>\<^verbatim>\<open>v !== null && typeof v === 'object' && v.found === false\<close>.\<close>

definition says_missing :: "jsval \<Rightarrow> bool" where
  "says_missing v \<longleftrightarrow> is_object v \<and> js_field v ''found'' = JBool False"

section \<open>Listing\<close>

definition LIST_PAGE_LIMIT :: nat where
  "LIST_PAGE_LIMIT = 1000"

fun isSize :: "jsval \<Rightarrow> nat option" where
  "isSize (JNum (Fin q)) = (if q \<in> \<int> \<and> 0 \<le> q \<and> q \<le> 9007199254740991 then Some (nat \<lfloor>q\<rfloor>) else None)"
| "isSize _ = None"

fun read_items :: "string option \<Rightarrow> jsval list \<Rightarrow> (string \<times> nat) list option" where
  "read_items prev [] = Some []"
| "read_items prev (it # its) =
     (if \<not> is_object it then None
      else case (as_string (js_field it ''sha256''), isSize (js_field it ''size'')) of
        (Some sha, Some n) \<Rightarrow>
          if \<not> isBlobSha256 sha then None
          else if (case prev of None \<Rightarrow> False | Some l \<Rightarrow> sha \<le> l) then None
          else map_option (Cons (sha, n)) (read_items (Some sha) its)
      | _ \<Rightarrow> None)"

definition readListPage :: "jsval \<Rightarrow> string option \<Rightarrow> ((string \<times> nat) list \<times> string option) option" where
  "readListPage raw after =
     (case js_field raw ''items'' of
        JArr its \<Rightarrow>
          (case read_items after its of
             None \<Rightarrow> None
           | Some items \<Rightarrow>
               (case js_field raw ''next'' of
                  JUndef \<Rightarrow> Some (items, None)
                | JStr n \<Rightarrow>
                    if \<not> isBlobSha256 n \<or> (case after of None \<Rightarrow> False | Some a \<Rightarrow> n \<le> a) then None else Some (items, Some n)
                | _ \<Rightarrow> None))
      | _ \<Rightarrow> None)"

definition repairLive :: "'w gc_env \<Rightarrow> string list \<Rightarrow> string list \<Rightarrow> ('w, string list) gcm" where
  "repairLive env shas repaired =
     and_then (now_at env) (\<lambda>t. and_then (statement_unless (shas = []) [] env (reviveListed shas t)) (\<lambda>flipped. ret (fold add_name flipped repaired)))"

fun repair_each :: "'w gc_env \<Rightarrow> string list \<Rightarrow> string list \<Rightarrow> ('w, string list) gcm" where
  "repair_each env [] repaired = ret repaired"
| "repair_each env (sha # shas) repaired =
     and_then (stat_call env sha True) (\<lambda>stat.
       if \<not> is_object stat \<or> js_field stat ''found'' = JBool False then repair_each env shas repaired
       else and_then (purge_call env sha) (\<lambda>_. repair_each env shas (add_name sha repaired)))"

definition repairRetired :: "'w gc_env \<Rightarrow> string list \<Rightarrow> string list \<Rightarrow> ('w, string list) gcm" where
  "repairRetired env shas repaired =
     and_then (now_at env) (\<lambda>t. and_then (statement_unless (shas = []) [] env (claimLive shas t)) (\<lambda>claimed. repair_each env claimed repaired))"

text \<open>\<open>repair\<close> is \<open>None\<close> in report mode, else the shas repaired so far.\<close>

fun discover :: "nat \<Rightarrow> 'w gc_env \<Rightarrow> bool \<Rightarrow> string option \<Rightarrow> nat \<Rightarrow> string list option \<Rightarrow> ('w, nat \<times> string list option) gcm" where
  "discover 0 env retired after found repair = (\<lambda>w. (Unfinished, w))"
| "discover (Suc fuel) env retired after found repair =
     and_then (bus_call (ev_list env retired after)) (\<lambda>raw. and_then (or_throw raw) (\<lambda>raw.
     and_then (or_throw (readListPage raw after)) (\<lambda>(items, next_page). and_then (now_at env) (\<lambda>t.
     and_then (statement_unless (items = []) 0 env (if retired then discoverRetired items t else discover_live items t)) (\<lambda>k.
     and_then (case repair of
         None \<Rightarrow> ret None
       | Some rep \<Rightarrow> and_then (if retired then repairRetired env (List.map fst items) rep else repairLive env (List.map fst items) rep)
           (\<lambda>rep. ret (Some rep))) (\<lambda>repair.
     (case next_page of
        None \<Rightarrow> ret (found + k, repair)
      | Some n \<Rightarrow> discover fuel env retired (Some n) (found + k) repair)))))))"

section \<open>Asking the holders\<close>

definition refs_of :: "jsval \<Rightarrow> jsval list" where
  "refs_of v = (case js_field v ''refs'' of JArr rs \<Rightarrow> rs | _ \<Rightarrow> [])"

definition count_answer :: "string list \<Rightarrow> jsval \<Rightarrow> (string, nat) jsmap \<Rightarrow> (string, nat) jsmap" where
  "count_answer wanted a m =
     (let holder = (case js_field a ''holder'' of JStr h \<Rightarrow> h | _ \<Rightarrow> []);
          shas = remdups [sha. r \<leftarrow> refs_of a, Some sha \<leftarrow> [as_string (js_field r ''sha256'')], sha \<in> set wanted]
      in js_set holder (or_default (js_get m holder) 0 + length shas) m)"

definition trusted :: "string list \<Rightarrow> refs_outcome \<Rightarrow> bool" where
  "trusted roster out \<longleftrightarrow> list_all (\<lambda>h. h \<in> set (ro_answered out)) roster \<and> ro_failed out = [] \<and> ro_malformed out = 0"

definition askHolders :: "'w gc_env \<Rightarrow> string list \<Rightarrow> bool \<Rightarrow> ('w, (string list \<times> (string, nat) jsmap) option) gcm" where
  "askHolders env candidates requireAnswer =
     and_then (statement env (\<lambda>db. (sort (gd_roster db), db))) (\<lambda>roster.
     and_then (bus_call (ev_ask env candidates)) (\<lambda>fired.
     and_then (add_log (Asked roster candidates fired)) (\<lambda>_.
     (case fired of
        None \<Rightarrow> ret None
      | Some payload \<Rightarrow>
          (let out = readBlobCollectRefsAnswers payload candidates in
           and_then (if ro_answered out = [] then ret () else statement env (\<lambda>db. ((), touchRoster (ro_answered out) db))) (\<lambda>_.
           if \<not> trusted roster out then ret None
           else if requireAnswer \<and> ro_answered out = [] then ret None
           else ret (Some (js_keys (ro_held out), fold (count_answer candidates) (arr_items (js_field payload ''answers'')) []))))))))"

section \<open>The sweep\<close>

record gc_counts =
  ct_discovered :: nat
  ct_candidates :: nat
  ct_held :: nat
  ct_wouldRetire :: nat
  ct_wouldRetireBytes :: nat
  ct_retired :: nat
  ct_restored :: nat
  ct_purged :: nat
  ct_bytesPurged :: nat

text \<open>The log keeps the row as it was before the flip, and the cutoff.\<close>

definition retireOne :: "'w gc_env \<Rightarrow> string \<Rightarrow> int \<Rightarrow> ('w, bool) gcm" where
  "retireOne env sha cutoff =
     and_then (now_at env) (\<lambda>t.
     and_then (statement env (\<lambda>db. let (ok, db') = markRetired sha cutoff t db in ((ok, js_get (gd_blobs db) sha), db'))) (\<lambda>(ok, row).
     if \<not> ok then ret False
     else and_then (case row of None \<Rightarrow> ret () | Some r \<Rightarrow> add_log (Moved sha r cutoff)) (\<lambda>_.
       and_then (bus_call (ev_retire env sha)) (\<lambda>moved.
       if moved then ret True
       else (\<lambda>w. (case statement env (\<lambda>db. ((), unmarkRetired sha t db)) w of (_, w) \<Rightarrow> (Thrown, w)))))))"

fun retire_each :: "'w gc_env \<Rightarrow> bool \<Rightarrow> int \<Rightarrow> string list \<Rightarrow> (string \<times> nat) list \<Rightarrow> gc_counts \<Rightarrow> ('w, gc_counts) gcm" where
  "retire_each env enforce cutoff held [] c = ret c"
| "retire_each env enforce cutoff held ((sha, n) # batch) c =
     (if sha \<in> set held then retire_each env enforce cutoff held batch (c\<lparr>ct_held := Suc (ct_held c)\<rparr>)
      else let c = c\<lparr>ct_wouldRetire := Suc (ct_wouldRetire c), ct_wouldRetireBytes := ct_wouldRetireBytes c + n\<rparr> in
        if \<not> enforce then retire_each env enforce cutoff held batch c
        else and_then (retireOne env sha cutoff) (\<lambda>ok.
          retire_each env enforce cutoff held batch (if ok then c\<lparr>ct_retired := Suc (ct_retired c)\<rparr> else c)))"

definition add_counts :: "(string, nat) jsmap \<Rightarrow> (string, nat) jsmap \<Rightarrow> (string, nat) jsmap" where
  "add_counts new m = fold (\<lambda>(h, k) m. js_set h (or_default (js_get m h) 0 + k) m) new m"

text \<open>\<open>None\<close>: the sweep is aborted.\<close>

fun retire_pass :: "nat \<Rightarrow> 'w gc_env \<Rightarrow> bool \<Rightarrow> int \<Rightarrow> string option \<Rightarrow> gc_counts \<times> (string, nat) jsmap \<Rightarrow>
    ('w, (gc_counts \<times> (string, nat) jsmap) option) gcm" where
  "retire_pass 0 env enforce cutoff after acc = (\<lambda>w. (Unfinished, w))"
| "retire_pass (Suc fuel) env enforce cutoff after (c, perHolder) =
     and_then (statement env (\<lambda>db. (page_of (retirable cutoff) after BLOB_COLLECT_REFS_MAX_CANDIDATES db, db))) (\<lambda>batch.
     if batch = [] \<and> after \<noteq> None then ret (Some (c, perHolder))
     else and_then (askHolders env (List.map fst batch) (enforce \<and> batch \<noteq> [])) (\<lambda>answer.
       (case answer of
          None \<Rightarrow> ret None
        | Some (held, per) \<Rightarrow>
            and_then (retire_each env enforce cutoff held batch (c\<lparr>ct_candidates := ct_candidates c + length batch\<rparr>)) (\<lambda>c.
            if length batch < BLOB_COLLECT_REFS_MAX_CANDIDATES then ret (Some (c, add_counts per perHolder))
            else retire_pass fuel env enforce cutoff (Some (fst (last batch))) (c, add_counts per perHolder)))))"

fun purge_each :: "'w gc_env \<Rightarrow> int \<Rightarrow> string list \<Rightarrow> (string \<times> nat) list \<Rightarrow> gc_counts \<Rightarrow> ('w, gc_counts) gcm" where
  "purge_each env cutoff held [] c = ret c"
| "purge_each env cutoff held ((sha, n) # batch) c =
     (if sha \<in> set held
      then and_then (stat_call env sha True) (\<lambda>_. and_then (now_at env) (\<lambda>t.
        and_then (statement env (\<lambda>db. ((), markRestored sha t db))) (\<lambda>_.
        purge_each env cutoff held batch (c\<lparr>ct_restored := Suc (ct_restored c)\<rparr>))))
      else and_then (purge_call env sha) (\<lambda>_. and_then (stat_call env sha False) (\<lambda>left_over.
        if \<not> says_missing left_over
        then and_then (now_at env) (\<lambda>t. and_then (statement env (\<lambda>db. ((), markRestored sha t db))) (\<lambda>_.
          purge_each env cutoff held batch c))
        else and_then (statement env (deletePurged sha cutoff)) (\<lambda>gone.
          purge_each env cutoff held batch
            (if gone then c\<lparr>ct_purged := Suc (ct_purged c), ct_bytesPurged := ct_bytesPurged c + n\<rparr> else c)))))"

fun purge_pass :: "nat \<Rightarrow> 'w gc_env \<Rightarrow> int \<Rightarrow> string option \<Rightarrow> gc_counts \<Rightarrow> ('w, gc_counts option) gcm" where
  "purge_pass 0 env cutoff after c = (\<lambda>w. (Unfinished, w))"
| "purge_pass (Suc fuel) env cutoff after c =
     and_then (statement env (\<lambda>db. (page_of (due cutoff) after BLOB_COLLECT_REFS_MAX_CANDIDATES db, db))) (\<lambda>batch.
     if batch = [] then ret (Some c)
     else and_then (askHolders env (List.map fst batch) True) (\<lambda>answer.
       (case answer of
          None \<Rightarrow> ret None
        | Some (held, per) \<Rightarrow>
            and_then (purge_each env cutoff held batch c) (\<lambda>c.
            if length batch < BLOB_COLLECT_REFS_MAX_CANDIDATES then ret (Some c)
            else purge_pass fuel env cutoff (Some (fst (last batch))) c))))"

datatype sweep_result = Reported gc_report | Aborted | Failed | Skipped

definition make_report :: "int \<Rightarrow> gc_mode \<Rightarrow> gc_counts \<Rightarrow> (string, nat) jsmap \<Rightarrow> gc_report" where
  "make_report t mode c perHolder =
     \<lparr>rp_at = t, rp_mode = mode, rp_discovered = ct_discovered c, rp_candidates = ct_candidates c, rp_held = ct_held c,
      rp_wouldRetire = ct_wouldRetire c, rp_wouldRetireBytes = ct_wouldRetireBytes c, rp_retired = ct_retired c,
      rp_restored = ct_restored c, rp_purged = ct_purged c, rp_bytesPurged = ct_bytesPurged c, rp_perHolder = sort_key fst perHolder\<rparr>"

definition no_counts :: gc_counts where
  "no_counts = \<lparr>ct_discovered = 0, ct_candidates = 0, ct_held = 0, ct_wouldRetire = 0, ct_wouldRetireBytes = 0,
     ct_retired = 0, ct_restored = 0, ct_purged = 0, ct_bytesPurged = 0\<rparr>"

text \<open>The purge pass and the report, after the retire pass.\<close>

definition finish_sweep :: "nat \<Rightarrow> 'w gc_env \<Rightarrow> gc_settings \<Rightarrow> int \<Rightarrow> (gc_counts \<times> (string, nat) jsmap) option \<Rightarrow> ('w, sweep_result) gcm" where
  "finish_sweep fuel env st start retired =
     (case retired of
        None \<Rightarrow> ret Aborted
      | Some (c, perHolder) \<Rightarrow>
          and_then (if st_mode st = Enforce then purge_pass fuel env (start - st_retentionMs st) None c else ret (Some c)) (\<lambda>purged.
          (case purged of
             None \<Rightarrow> ret Aborted
           | Some c \<Rightarrow>
               and_then (now_at env) (\<lambda>t.
               and_then (bus_call (ev_save env (make_report t (st_mode st) c perHolder)))
                 (\<lambda>saved. if saved then ret (Reported (make_report t (st_mode st) c perHolder)) else throw)))))"

definition sweep_passes :: "nat \<Rightarrow> 'w gc_env \<Rightarrow> gc_settings \<Rightarrow> int \<Rightarrow> ('w, sweep_result) gcm" where
  "sweep_passes fuel env st start =
     and_then (discover fuel env False None 0 (if st_mode st = Enforce then Some [] else None)) (\<lambda>(k1, repair).
     and_then (discover fuel env True None 0 repair) (\<lambda>(k2, repair).
     and_then (retire_pass fuel env (st_mode st = Enforce) (start - st_graceMs st) None (no_counts\<lparr>ct_discovered := k1 + k2\<rparr>, []))
       (finish_sweep fuel env st start)))"

definition runSweep :: "nat \<Rightarrow> 'w gc_env \<Rightarrow> ('w, sweep_result) gcm" where
  "runSweep fuel env =
     and_then (bus_call (ev_settings env)) (\<lambda>given. and_then (or_throw given) (\<lambda>st. and_then (now_at env) (sweep_passes fuel env st)))"

text \<open>\<^verbatim>\<open>sweep\<close>: under the lock (\<open>None\<close>: asking for it threw), and it never throws. \<open>None\<close>: out of fuel.\<close>

definition sweep :: "nat \<Rightarrow> 'w gc_env \<Rightarrow> bool option \<Rightarrow> 'w gc_world \<Rightarrow> sweep_result option \<times> 'w gc_world" where
  "sweep fuel env locked w =
     (case locked of
        None \<Rightarrow> (Some Failed, w)
      | Some False \<Rightarrow> (Some Skipped, w)
      | Some True \<Rightarrow>
          (case runSweep fuel env w of
             (Ret r, w) \<Rightarrow> (Some r, w)
           | (Thrown, w) \<Rightarrow> (Some Failed, w)
           | (Unfinished, w) \<Rightarrow> (None, w)))"

text \<open>\<^verbatim>\<open>recordStored\<close>.\<close>

definition recordStored :: "'w gc_env \<Rightarrow> jsval \<Rightarrow> 'w gc_world \<Rightarrow> 'w gc_world" where
  "recordStored env payload w =
     (case (as_string (js_field payload ''sha256''), isSize (js_field payload ''size'')) of
        (Some sha, Some n) \<Rightarrow>
          if isBlobSha256 sha
          then snd (and_then (now_at env) (\<lambda>t. statement env (\<lambda>db. ((), recordPut sha n t db))) w)
          else w
      | _ \<Rightarrow> w)"

section \<open>Reasoning about steps\<close>

text \<open>From \<open>P\<close> the step ends in \<open>Q\<close>, or in \<open>E\<close> when it throws or runs out of fuel.\<close>

definition valid :: "('w gc_world \<Rightarrow> bool) \<Rightarrow> ('w gc_world \<Rightarrow> bool) \<Rightarrow> ('w, 'a) gcm \<Rightarrow> ('a \<Rightarrow> 'w gc_world \<Rightarrow> bool) \<Rightarrow> bool" where
  "valid E P m Q \<longleftrightarrow> (\<forall>w. P w \<longrightarrow> (case m w of (Ret x, w) \<Rightarrow> Q x w | (_, w) \<Rightarrow> E w))"

lemma validI: "(\<And>w. P w \<Longrightarrow> case m w of (Ret x, w) \<Rightarrow> Q x w | (_, w) \<Rightarrow> E w) \<Longrightarrow> valid E P m Q"
  by (simp add: valid_def)

lemma valid_ret: "(\<And>w. P w \<Longrightarrow> Q x w) \<Longrightarrow> valid E P (ret x) Q"
  by (simp add: valid_def ret_def)

lemma valid_throw: "(\<And>w. P w \<Longrightarrow> E w) \<Longrightarrow> valid E P throw Q"
  by (simp add: valid_def throw_def)

lemma valid_stuck: "(\<And>w. P w \<Longrightarrow> E w) \<Longrightarrow> valid E P (\<lambda>w. (Unfinished, w)) Q"
  by (simp add: valid_def)

lemma valid_then:
  assumes "valid E P m R" "\<And>x. valid E (R x) (k x) Q"
  shows "valid E P (and_then m k) Q"
proof (rule validI)
  fix w assume "P w"
  then have m: "case m w of (Ret x, w) \<Rightarrow> R x w | (_, w) \<Rightarrow> E w" using assms(1) by (simp add: valid_def)
  obtain r w' where mw: "m w = (r, w')" by (rule prod.exhaust)
  show "case and_then m k w of (Ret x, w) \<Rightarrow> Q x w | (_, w) \<Rightarrow> E w"
  proof (cases r)
    case (Ret x)
    then have "R x w'" using m by (simp add: mw)
    then have "case k x w' of (Ret x, w) \<Rightarrow> Q x w | (_, w) \<Rightarrow> E w" using assms(2)[of x] by (simp add: valid_def)
    then show ?thesis by (simp add: and_then_def mw Ret)
  qed (use m in \<open>simp_all add: and_then_def mw\<close>)
qed

lemma valid_pre: "valid E P m Q \<Longrightarrow> (\<And>w. P' w \<Longrightarrow> P w) \<Longrightarrow> valid E P' m Q"
  by (simp add: valid_def)

lemma valid_post: "valid E P m Q' \<Longrightarrow> (\<And>x w. Q' x w \<Longrightarrow> Q x w) \<Longrightarrow> valid E P m Q"
  by (fastforce simp: valid_def split: prod.splits gc_result.splits)

lemma valid_assume: "(A \<Longrightarrow> valid E P m Q) \<Longrightarrow> valid E (\<lambda>w. A \<and> P w) m Q"
  by (auto simp: valid_def)

lemma valid_or_throw: "(\<And>x w. v = Some x \<Longrightarrow> P w \<Longrightarrow> Q x w) \<Longrightarrow> (\<And>w. P w \<Longrightarrow> E w) \<Longrightarrow> valid E P (or_throw v) Q"
  by (cases v) (simp_all add: valid_ret valid_throw)

lemma valid_case_prod: "(\<And>a b. valid E P (f a b) Q) \<Longrightarrow> valid E P (case x of (a, b) \<Rightarrow> f a b) Q"
  by (cases x) simp

lemma valid_unless: "valid E P (ret v) Q \<Longrightarrow> valid E P (statement env f) Q \<Longrightarrow> valid E P (statement_unless b v env f) Q"
  by (simp add: statement_unless_def)

text \<open>Steps that leave the log alone.\<close>

lemma silent_steps:
  "gw_log (snd (now_at env w)) = gw_log w" "gw_log (snd (statement env f w)) = gw_log w" "gw_log (snd (bus_call g w)) = gw_log w"
  by (auto simp: now_at_def statement_def bus_call_def split: prod.split statement.split)

lemma valid_silent:
  fixes m :: "('w, 'a) gcm"
  assumes "\<And>w. gw_log (snd (m w)) = gw_log w" "\<And>w :: 'w gc_world. R (gw_log w) \<Longrightarrow> S (gw_log w)"
  shows "valid (\<lambda>w. S (gw_log w)) (\<lambda>w. R (gw_log w)) m (\<lambda>_ w. R (gw_log w))"
proof (rule validI)
  fix w :: "'w gc_world"
  assume "R (gw_log w)"
  then show "case m w of (Ret x, w) \<Rightarrow> R (gw_log w) | (_, w) \<Rightarrow> S (gw_log w)"
    using assms(1)[of w] assms(2)[of w] by (auto split: prod.split gc_result.split)
qed

section \<open>Nothing moves without consent\<close>

definition last_ask :: "gc_event list \<Rightarrow> (string list \<times> string list \<times> jsval option) option" where
  "last_ask l = fold (\<lambda>e r. case e of Asked roster cs fired \<Rightarrow> Some (roster, cs, fired) | _ \<Rightarrow> r) l None"

text \<open>The last ask was about the blob, everybody on the roster answered and so that it could be read, somebody
  answered at all, and nobody holds the blob.\<close>

definition consents :: "gc_event list \<Rightarrow> string \<Rightarrow> bool" where
  "consents l sha \<longleftrightarrow>
     (case last_ask l of
        Some (roster, cs, Some payload) \<Rightarrow>
          (let out = readBlobCollectRefsAnswers payload cs in
           trusted roster out \<and> ro_answered out \<noteq> [] \<and> sha \<in> set cs \<and> js_get (ro_held out) sha = None)
      | _ \<Rightarrow> False)"

text \<open>The event just before is a stat that restored, and it found a copy.\<close>

definition confirmed :: "gc_event list \<Rightarrow> string \<Rightarrow> bool" where
  "confirmed l sha \<longleftrightarrow> l \<noteq> [] \<and>
     (case last l of StatAsked s True (Some v) \<Rightarrow> s = sha \<and> is_object v \<and> js_field v ''found'' \<noteq> JBool False | _ \<Rightarrow> False)"

fun justified_event :: "gc_event list \<Rightarrow> gc_event \<Rightarrow> bool" where
  "justified_event l (Moved sha r cutoff) \<longleftrightarrow> consents l sha \<and> retirable cutoff r"
| "justified_event l (Purged sha) \<longleftrightarrow> consents l sha \<or> confirmed l sha"
| "justified_event l _ \<longleftrightarrow> True"

definition justified :: "gc_event list \<Rightarrow> bool" where
  "justified evs \<longleftrightarrow> (\<forall>l e rest. evs = l @ e # rest \<longrightarrow> justified_event l e)"

lemma justified_Nil: "justified []"
  by (simp add: justified_def)

lemma justified_snoc: "justified (l @ [e]) \<longleftrightarrow> justified l \<and> justified_event l e"
proof
  assume "justified (l @ [e])"
  then show "justified l \<and> justified_event l e" by (auto simp: justified_def)
next
  assume j: "justified l \<and> justified_event l e"
  show "justified (l @ [e])" unfolding justified_def
  proof (intro allI impI)
    fix l1 e1 rest assume eq: "l @ [e] = l1 @ e1 # rest"
    show "justified_event l1 e1"
    proof (cases rest rule: rev_cases)
      case Nil
      then show ?thesis using eq j by simp
    next
      case (snoc rest' x)
      then have "l = l1 @ e1 # rest'" using eq by simp
      then show ?thesis using j by (auto simp: justified_def)
    qed
  qed
qed

lemma last_ask_snoc: "last_ask (l @ [e]) = (case e of Asked roster cs fired \<Rightarrow> Some (roster, cs, fired) | _ \<Rightarrow> last_ask l)"
  by (cases e) (simp_all add: last_ask_def)

text \<open>The blobs of \<open>S\<close> may be moved.\<close>

definition granted :: "string set \<Rightarrow> gc_event list \<Rightarrow> bool" where
  "granted S l \<longleftrightarrow> justified l \<and> (\<forall>sha \<in> S. consents l sha)"

fun is_ask :: "gc_event \<Rightarrow> bool" where
  "is_ask (Asked roster cs fired) = True"
| "is_ask _ = False"

lemma granted_snoc: "\<not> is_ask e \<Longrightarrow> granted S l \<Longrightarrow> justified_event l e \<Longrightarrow> granted S (l @ [e])"
  by (cases e) (simp_all add: granted_def justified_snoc consents_def last_ask_snoc)

abbreviation log_valid :: "(gc_event list \<Rightarrow> bool) \<Rightarrow> ('w, 'a) gcm \<Rightarrow> ('a \<Rightarrow> gc_event list \<Rightarrow> bool) \<Rightarrow> bool" where
  "log_valid R m Q \<equiv> valid (\<lambda>w. justified (gw_log w)) (\<lambda>w. R (gw_log w)) m (\<lambda>x w. Q x (gw_log w))"

lemma granted_silent:
  "log_valid (granted S) (now_at env) (\<lambda>_. granted S)" "log_valid (granted S) (statement env f) (\<lambda>_. granted S)"
  "log_valid (granted S) (bus_call g) (\<lambda>_. granted S)"
  by (rule valid_silent; simp add: silent_steps granted_def)+

lemma granted_unless: "log_valid (granted S) (statement_unless b v env f) (\<lambda>_. granted S)"
  by (rule valid_unless[OF valid_ret granted_silent(2)])

lemma granted_log: "(\<And>l. R l \<Longrightarrow> Q () (l @ [e])) \<Longrightarrow> log_valid R (add_log e) Q"
  by (simp add: valid_def add_log_def)

lemma granted_stat:
  "log_valid (granted S) (stat_call env sha restore)
     (\<lambda>v l. granted S l \<and> (restore \<and> is_object v \<and> js_field v ''found'' \<noteq> JBool False \<longrightarrow> confirmed l sha))"
  unfolding stat_call_def
proof (rule valid_then[OF granted_silent(3)])
  fix r
  show "log_valid (granted S) (and_then (add_log (StatAsked sha restore r)) (\<lambda>_. or_throw r))
     (\<lambda>v l. granted S l \<and> (restore \<and> is_object v \<and> js_field v ''found'' \<noteq> JBool False \<longrightarrow> confirmed l sha))"
  proof (rule valid_then)
    show "log_valid (granted S) (add_log (StatAsked sha restore r))
      (\<lambda>_ l. granted S l \<and> (\<forall>v. r = Some v \<and> restore \<and> is_object v \<and> js_field v ''found'' \<noteq> JBool False \<longrightarrow> confirmed l sha))"
      by (rule granted_log) (auto simp: granted_snoc confirmed_def)
  qed (auto intro!: valid_or_throw simp: granted_def)
qed

lemma granted_purge:
  assumes "\<And>l. R l \<Longrightarrow> granted S l \<and> (consents l sha \<or> confirmed l sha)"
  shows "log_valid R (purge_call env sha) (\<lambda>_. granted S)"
  unfolding purge_call_def
proof (rule valid_then)
  show "log_valid R (add_log (Purged sha)) (\<lambda>_. granted S)" by (rule granted_log) (use assms in \<open>auto simp: granted_snoc\<close>)
  show "log_valid (granted S) (and_then (bus_call (ev_purge env sha)) (\<lambda>done_ok. if done_ok then ret () else throw)) (\<lambda>_. granted S)"
    by (rule valid_then[OF granted_silent(3)]) (auto intro!: valid_ret valid_throw simp: granted_def)
qed

lemma granted_statement: "log_valid (granted S) (statement env f) (\<lambda>x l. granted S l \<and> (\<exists>db. x = fst (f db)))"
  by (rule validI) (auto simp: statement_def granted_def split: prod.split statement.split)

lemma granted_repair_each: "log_valid (granted S) (repair_each env shas repaired) (\<lambda>_. granted S)"
proof (induction shas arbitrary: repaired)
  case (Cons sha shas)
  show ?case unfolding repair_each.simps
  proof (rule valid_then[OF granted_stat])
    fix v
    show "log_valid (\<lambda>l. granted S l \<and> (True \<and> is_object v \<and> js_field v ''found'' \<noteq> JBool False \<longrightarrow> confirmed l sha))
       (if \<not> is_object v \<or> js_field v ''found'' = JBool False then repair_each env shas repaired
        else and_then (purge_call env sha) (\<lambda>_. repair_each env shas (add_name sha repaired))) (\<lambda>_. granted S)"
    proof (cases "\<not> is_object v \<or> js_field v ''found'' = JBool False")
      case True
      then show ?thesis by (auto intro: valid_pre[OF Cons.IH])
    next
      case False
      then show ?thesis by (auto intro!: valid_then[OF granted_purge Cons.IH])
    qed
  qed
qed (simp add: valid_ret)

lemma granted_discover: "log_valid (granted S) (discover fuel env retired after k repair) (\<lambda>_. granted S)"
proof (induction fuel arbitrary: after k repair)
  case 0
  show ?case unfolding discover.simps by (rule valid_stuck) (simp add: granted_def)
next
  case (Suc fuel)
  have repair: "log_valid (granted S)
      (case r of None \<Rightarrow> ret None
       | Some rep \<Rightarrow> and_then (if retired then repairRetired env shas rep else repairLive env shas rep) (\<lambda>rep. ret (Some rep)))
      (\<lambda>_. granted S)" for r shas
    by (auto split: option.split simp: repairRetired_def repairLive_def
        intro!: valid_ret valid_then[OF granted_silent(1)] valid_then[OF granted_unless] granted_repair_each
          valid_then[where R = "\<lambda>_ w. granted S (gw_log w)"])
  show ?case unfolding discover.simps
    by (auto split: option.split prod.split simp: granted_def[symmetric]
        intro!: valid_then[OF granted_silent(3)] valid_then[OF granted_silent(1)] valid_then[OF granted_unless] valid_then[OF repair]
          valid_then[OF valid_or_throw[where Q = "\<lambda>_ w. granted S (gw_log w)"]] valid_ret Suc.IH)
      (simp_all add: granted_def)
qed

definition after_ask :: "string list \<Rightarrow> string list \<Rightarrow> jsval option \<Rightarrow> gc_event list \<Rightarrow> bool" where
  "after_ask roster cs fired l \<longleftrightarrow> justified l \<and> last_ask l = Some (roster, cs, fired)"

lemma held_keys: "sha \<in> set (js_keys m) \<longleftrightarrow> js_get m sha \<noteq> None"
  by (auto simp: map_of_eq_None_iff)

lemma granted_ask:
  fixes env :: "'w gc_env"
  shows "log_valid (granted S) (askHolders env cs requireAnswer)
     (\<lambda>r. granted (case r of None \<Rightarrow> {} | Some (held, per) \<Rightarrow> if requireAnswer then set cs - set held else {}))"
  unfolding askHolders_def
proof (rule valid_then[OF granted_silent(2)], rule valid_then[OF granted_silent(3)])
  fix roster fired
  let ?Q = "\<lambda>r. granted (case r of None \<Rightarrow> {} | Some (held, per :: (string, nat) jsmap) \<Rightarrow> if requireAnswer then set cs - set held else {})"
  have asked: "log_valid (granted S) (add_log (Asked roster cs fired)) (\<lambda>_. after_ask roster cs fired)"
    by (rule granted_log) (simp add: granted_def after_ask_def justified_snoc last_ask_snoc)
  have touch: "log_valid (after_ask roster cs fired) (if b then ret () else statement env f) (\<lambda>_. after_ask roster cs fired)" for b f
    by (cases b) (auto intro!: valid_ret valid_silent simp: silent_steps after_ask_def)
  show "log_valid (granted S) (and_then (add_log (Asked roster cs fired)) (\<lambda>_. case fired of
        None \<Rightarrow> ret None
      | Some payload \<Rightarrow>
          (let out = readBlobCollectRefsAnswers payload cs in
           and_then (if ro_answered out = [] then ret () else statement env (\<lambda>db. ((), touchRoster (ro_answered out) db))) (\<lambda>_.
           if \<not> trusted roster out then ret None
           else if requireAnswer \<and> ro_answered out = [] then ret None
           else ret (Some (js_keys (ro_held out), fold (count_answer cs) (arr_items (js_field payload ''answers'')) [])))))) ?Q"
  proof (rule valid_then[OF asked], cases fired)
    case None
    then show "log_valid (after_ask roster cs fired) (case fired of None \<Rightarrow> ret None
      | Some payload \<Rightarrow>
          (let out = readBlobCollectRefsAnswers payload cs in
           and_then (if ro_answered out = [] then ret () else statement env (\<lambda>db. ((), touchRoster (ro_answered out) db))) (\<lambda>_.
           if \<not> trusted roster out then ret None
           else if requireAnswer \<and> ro_answered out = [] then ret None
           else ret (Some (js_keys (ro_held out), fold (count_answer cs) (arr_items (js_field payload ''answers'')) []))))) ?Q"
      by (simp add: valid_def ret_def after_ask_def granted_def)
  next
    case (Some payload)
    define out where "out = readBlobCollectRefsAnswers payload cs"
    have "log_valid (after_ask roster cs fired)
        (if \<not> trusted roster out then ret None
         else if requireAnswer \<and> ro_answered out = [] then ret None
         else ret (Some (js_keys (ro_held out), per))) ?Q" for per
    proof (cases "\<not> trusted roster out \<or> requireAnswer \<and> ro_answered out = []")
      case True
      then show ?thesis by (auto simp: valid_def ret_def after_ask_def granted_def)
    next
      case False
      have "log_valid (after_ask roster cs fired) (ret (Some (js_keys (ro_held out), per))) ?Q"
      proof (rule valid_ret)
        fix w assume w: "after_ask roster cs fired (gw_log w)"
        have "consents (gw_log w) sha" if "requireAnswer" "sha \<in> set cs - set (js_keys (ro_held out))" for sha
        proof -
          have "js_get (ro_held out) sha = None" using that held_keys[of sha "ro_held out"] by blast
          then show ?thesis using w that False by (simp add: consents_def after_ask_def Some Let_def out_def)
        qed
        then show "?Q (Some (js_keys (ro_held out), per)) (gw_log w)" using w by (auto simp: granted_def after_ask_def)
      qed
      then show ?thesis using False by auto
    qed
    then show "log_valid (after_ask roster cs fired) (case fired of None \<Rightarrow> ret None
      | Some payload \<Rightarrow>
          (let out = readBlobCollectRefsAnswers payload cs in
           and_then (if ro_answered out = [] then ret () else statement env (\<lambda>db. ((), touchRoster (ro_answered out) db))) (\<lambda>_.
           if \<not> trusted roster out then ret None
           else if requireAnswer \<and> ro_answered out = [] then ret None
           else ret (Some (js_keys (ro_held out), fold (count_answer cs) (arr_items (js_field payload ''answers'')) []))))) ?Q"
      unfolding Some option.case Let_def out_def[symmetric] by (intro valid_then[OF touch[unfolded Some]])
  qed
qed

lemma granted_moved: "granted S l \<Longrightarrow> sha \<in> S \<Longrightarrow> retirable cutoff r \<Longrightarrow> granted S (l @ [Moved sha r cutoff])"
  by (rule granted_snoc) (simp_all add: granted_def)

lemma granted_retireOne:
  assumes "sha \<in> S"
  shows "log_valid (granted S) (retireOne env sha cutoff) (\<lambda>_. granted S)"
  unfolding retireOne_def
proof (rule valid_then[OF granted_silent(1)], rule valid_then[OF granted_statement])
  fix t and x :: "bool \<times> gc_row option"
  obtain ok row where x: "x = (ok, row)" by (rule prod.exhaust)
  let ?f = "\<lambda>db. let (ok, db') = markRetired sha cutoff t db in ((ok, js_get (gd_blobs db) sha), db')"
  have undo: "log_valid (granted S) (\<lambda>w. case statement env (\<lambda>db. ((), unmarkRetired sha t db)) w of (_, w) \<Rightarrow> (Thrown, w)) (\<lambda>_. granted S)"
    by (rule validI) (auto simp: statement_def granted_def split: prod.split statement.split)
  have "log_valid (granted S) (and_then (case row of None \<Rightarrow> ret () | Some r \<Rightarrow> add_log (Moved sha r cutoff)) (\<lambda>_.
       and_then (bus_call (ev_retire env sha)) (\<lambda>moved.
       if moved then ret True
       else (\<lambda>w. case statement env (\<lambda>db. ((), unmarkRetired sha t db)) w of (_, w) \<Rightarrow> (Thrown, w))))) (\<lambda>_. granted S)"
    if row: "ok" "\<exists>db. x = fst (?f db)"
  proof (rule valid_then)
    have "case row of None \<Rightarrow> True | Some r \<Rightarrow> retirable cutoff r"
      using row by (auto simp: x markRetired_def Let_def split: prod.splits option.splits if_splits)
    then show "log_valid (granted S) (case row of None \<Rightarrow> ret () | Some r \<Rightarrow> add_log (Moved sha r cutoff)) (\<lambda>_. granted S)"
      using assms by (cases row) (auto intro!: valid_ret granted_log granted_moved)
    show "log_valid (granted S) (and_then (bus_call (ev_retire env sha)) (\<lambda>moved. if moved then ret True
       else (\<lambda>w. case statement env (\<lambda>db. ((), unmarkRetired sha t db)) w of (_, w) \<Rightarrow> (Thrown, w)))) (\<lambda>_. granted S)"
      by (rule valid_then[OF granted_silent(3)]) (auto intro: valid_ret undo)
  qed
  then have "log_valid (\<lambda>l. (ok \<longrightarrow> (\<exists>db. x = fst (?f db))) \<and> granted S l) (if \<not> ok then ret False
     else and_then (case row of None \<Rightarrow> ret () | Some r \<Rightarrow> add_log (Moved sha r cutoff)) (\<lambda>_.
       and_then (bus_call (ev_retire env sha)) (\<lambda>moved.
       if moved then ret True
       else (\<lambda>w. case statement env (\<lambda>db. ((), unmarkRetired sha t db)) w of (_, w) \<Rightarrow> (Thrown, w))))) (\<lambda>_. granted S)"
    by (intro valid_assume) (auto intro: valid_ret)
  then show "log_valid (\<lambda>l. granted S l \<and> (\<exists>db. x = fst (?f db))) (case x of (ok, row) \<Rightarrow> if \<not> ok then ret False
     else and_then (case row of None \<Rightarrow> ret () | Some r \<Rightarrow> add_log (Moved sha r cutoff)) (\<lambda>_.
       and_then (bus_call (ev_retire env sha)) (\<lambda>moved.
       if moved then ret True
       else (\<lambda>w. case statement env (\<lambda>db. ((), unmarkRetired sha t db)) w of (_, w) \<Rightarrow> (Thrown, w))))) (\<lambda>_. granted S)"
    unfolding x prod.case by (rule valid_pre) auto
qed

lemma granted_retire_each:
  assumes "enforce \<longrightarrow> set (List.map fst batch) - set held \<subseteq> S"
  shows "log_valid (granted S) (retire_each env enforce cutoff held batch c) (\<lambda>_. granted S)"
  using assms
proof (induction batch arbitrary: c)
  case (Cons b batch)
  obtain sha n where b: "b = (sha, n)" by (cases b)
  have rest: "enforce \<longrightarrow> set (List.map fst batch) - set held \<subseteq> S" and mem: "enforce \<Longrightarrow> sha \<notin> set held \<Longrightarrow> sha \<in> S"
    using Cons.prems by (auto simp: b)
  have ih: "\<forall>c. log_valid (granted S) (retire_each env enforce cutoff held batch c) (\<lambda>_. granted S)" using Cons.IH[OF rest] by blast
  show ?case unfolding b retire_each.simps Let_def
    using ih mem by (auto intro!: valid_then[OF granted_retireOne] simp del: retire_each.simps)
qed (simp add: valid_ret)

lemma granted_mono: "granted S l \<Longrightarrow> T \<subseteq> S \<Longrightarrow> granted T l"
  by (auto simp: granted_def)

lemma granted_less: "log_valid (granted {}) m (\<lambda>_. granted T) \<Longrightarrow> log_valid (granted S) m (\<lambda>_. granted {})"
  by (erule valid_post[OF valid_pre]) (simp_all add: granted_def)

lemma granted_purge_each:
  assumes "set (List.map fst batch) - set held \<subseteq> S"
  shows "log_valid (granted S) (purge_each env cutoff held batch c) (\<lambda>_. granted S)"
  using assms
proof (induction batch arbitrary: c)
  case (Cons b batch)
  obtain sha n where b: "b = (sha, n)" by (cases b)
  have ih: "\<forall>c. log_valid (granted S) (purge_each env cutoff held batch c) (\<lambda>_. granted S)" using Cons by auto
  have mem: "sha \<notin> set held \<Longrightarrow> sha \<in> S" using Cons.prems by (auto simp: b)
  have purge: "sha \<notin> set held \<Longrightarrow> log_valid (granted S) (purge_call env sha) (\<lambda>_. granted S)"
    using mem by (intro granted_purge) (auto simp: granted_def)
  have stat: "log_valid (granted S) (stat_call env sha restore) (\<lambda>_. granted S)" for restore
    by (rule valid_post[OF granted_stat]) simp
  have restored: "log_valid (granted S) (and_then (now_at env) (\<lambda>t. and_then (statement env (\<lambda>db. ((), markRestored sha t db))) (\<lambda>_.
      purge_each env cutoff held batch c))) (\<lambda>_. granted S)" for c
    using ih by (intro valid_then[OF granted_silent(1)] valid_then[OF granted_silent(2)]) blast
  have gone: "log_valid (granted S) (and_then (statement env f) (\<lambda>gone. purge_each env cutoff held batch (c' gone))) (\<lambda>_. granted S)"
    for f :: "gc_db \<Rightarrow> bool \<times> gc_db" and c'
    using ih by (intro valid_then[OF granted_silent(2)]) blast
  show ?case
  proof (cases "sha \<in> set held")
    case True
    then show ?thesis by (simp add: b) (intro valid_then[OF stat] restored)
  next
    case False
    have "log_valid (granted S) (if \<not> says_missing v
        then and_then (now_at env) (\<lambda>t. and_then (statement env (\<lambda>db. ((), markRestored sha t db))) (\<lambda>_. purge_each env cutoff held batch c))
        else and_then (statement env (deletePurged sha cutoff)) (\<lambda>gone. purge_each env cutoff held batch
            (if gone then c\<lparr>ct_purged := Suc (ct_purged c), ct_bytesPurged := ct_bytesPurged c + n\<rparr> else c))) (\<lambda>_. granted S)" for v
      using restored gone by (cases "says_missing v") simp_all
    then show ?thesis using False by (simp add: b) (intro valid_then[OF purge[OF False]] valid_then[OF stat])
  qed
qed (simp add: valid_ret)

lemma granted_empty: "log_valid (granted {}) m (\<lambda>_. granted S) \<Longrightarrow> log_valid (granted {}) m (\<lambda>_. granted {})"
  by (rule granted_less)

lemma granted_retire_pass: "log_valid (granted {}) (retire_pass fuel env enforce cutoff after acc) (\<lambda>_. granted {})"
proof (induction fuel arbitrary: after acc)
  case 0
  show ?case unfolding retire_pass.simps by (rule valid_stuck) (simp add: granted_def)
next
  case (Suc fuel)
  obtain c perHolder where acc: "acc = (c, perHolder)" by (cases acc)
  have each: "log_valid (granted (if enforce \<and> batch \<noteq> [] then set (List.map fst batch) - set held else {}))
      (retire_each env enforce cutoff held batch c) (\<lambda>_. granted {})" for batch held c
    by (rule valid_post[OF granted_retire_each]) (auto simp: granted_def)
  show ?case unfolding acc retire_pass.simps
  proof (rule valid_then[OF granted_silent(2)])
    fix batch :: "(string \<times> nat) list"
    have "log_valid (granted {}) (and_then (askHolders env (List.map fst batch) (enforce \<and> batch \<noteq> [])) (\<lambda>answer.
       (case answer of
          None \<Rightarrow> ret None
        | Some (held, per) \<Rightarrow>
            and_then (retire_each env enforce cutoff held batch (c\<lparr>ct_candidates := ct_candidates c + length batch\<rparr>)) (\<lambda>c.
            if length batch < BLOB_COLLECT_REFS_MAX_CANDIDATES then ret (Some (c, add_counts per perHolder))
            else retire_pass fuel env enforce cutoff (Some (fst (last batch))) (c, add_counts per perHolder))))) (\<lambda>_. granted {})"
    proof (rule valid_then[OF granted_ask])
      fix answer :: "(string list \<times> (string, nat) jsmap) option"
      show "log_valid (granted (case answer of None \<Rightarrow> {}
           | Some (held, per) \<Rightarrow> if enforce \<and> batch \<noteq> [] then set (List.map fst batch) - set held else {}))
         (case answer of
          None \<Rightarrow> ret None
        | Some (held, per) \<Rightarrow>
            and_then (retire_each env enforce cutoff held batch (c\<lparr>ct_candidates := ct_candidates c + length batch\<rparr>)) (\<lambda>c.
            if length batch < BLOB_COLLECT_REFS_MAX_CANDIDATES then ret (Some (c, add_counts per perHolder))
            else retire_pass fuel env enforce cutoff (Some (fst (last batch))) (c, add_counts per perHolder))) (\<lambda>_. granted {})"
      proof (cases answer)
        case (Some a)
        obtain held per where a: "a = (held, per)" by (cases a)
        show ?thesis unfolding Some a option.case prod.case
          by (rule valid_then[OF each]) (use Suc.IH in \<open>auto intro: valid_ret\<close>)
      qed (simp add: valid_ret)
    qed
    then show "log_valid (granted {}) (if batch = [] \<and> after \<noteq> None then ret (Some (c, perHolder))
      else and_then (askHolders env (List.map fst batch) (enforce \<and> batch \<noteq> [])) (\<lambda>answer.
       (case answer of
          None \<Rightarrow> ret None
        | Some (held, per) \<Rightarrow>
            and_then (retire_each env enforce cutoff held batch (c\<lparr>ct_candidates := ct_candidates c + length batch\<rparr>)) (\<lambda>c.
            if length batch < BLOB_COLLECT_REFS_MAX_CANDIDATES then ret (Some (c, add_counts per perHolder))
            else retire_pass fuel env enforce cutoff (Some (fst (last batch))) (c, add_counts per perHolder))))) (\<lambda>_. granted {})"
      by (auto intro: valid_ret)
  qed
qed

lemma granted_purge_pass: "log_valid (granted {}) (purge_pass fuel env cutoff after c) (\<lambda>_. granted {})"
proof (induction fuel arbitrary: after c)
  case 0
  show ?case unfolding purge_pass.simps by (rule valid_stuck) (simp add: granted_def)
next
  case (Suc fuel)
  have each: "log_valid (granted (set (List.map fst batch) - set held)) (purge_each env cutoff held batch c) (\<lambda>_. granted {})" for batch held c
    by (rule valid_post[OF granted_purge_each]) (auto simp: granted_def)
  show ?case unfolding purge_pass.simps
  proof (rule valid_then[OF granted_silent(2)])
    fix batch :: "(string \<times> nat) list"
    have "log_valid (granted {}) (and_then (askHolders env (List.map fst batch) True) (\<lambda>answer.
       (case answer of
          None \<Rightarrow> ret None
        | Some (held, per) \<Rightarrow>
            and_then (purge_each env cutoff held batch c) (\<lambda>c.
            if length batch < BLOB_COLLECT_REFS_MAX_CANDIDATES then ret (Some c)
            else purge_pass fuel env cutoff (Some (fst (last batch))) c)))) (\<lambda>_. granted {})"
    proof (rule valid_then[OF granted_ask])
      fix answer :: "(string list \<times> (string, nat) jsmap) option"
      show "log_valid (granted (case answer of None \<Rightarrow> {} | Some (held, per) \<Rightarrow> if True then set (List.map fst batch) - set held else {}))
         (case answer of
          None \<Rightarrow> ret None
        | Some (held, per) \<Rightarrow>
            and_then (purge_each env cutoff held batch c) (\<lambda>c.
            if length batch < BLOB_COLLECT_REFS_MAX_CANDIDATES then ret (Some c)
            else purge_pass fuel env cutoff (Some (fst (last batch))) c)) (\<lambda>_. granted {})"
      proof (cases answer)
        case (Some a)
        obtain held per where a: "a = (held, per)" by (cases a)
        show ?thesis unfolding Some a option.case prod.case if_True
          by (rule valid_then[OF each]) (use Suc.IH in \<open>auto intro: valid_ret\<close>)
      qed (simp add: valid_ret)
    qed
    then show "log_valid (granted {}) (if batch = [] then ret (Some c)
      else and_then (askHolders env (List.map fst batch) True) (\<lambda>answer.
       (case answer of
          None \<Rightarrow> ret None
        | Some (held, per) \<Rightarrow>
            and_then (purge_each env cutoff held batch c) (\<lambda>c.
            if length batch < BLOB_COLLECT_REFS_MAX_CANDIDATES then ret (Some c)
            else purge_pass fuel env cutoff (Some (fst (last batch))) c)))) (\<lambda>_. granted {})"
      by (auto intro: valid_ret)
  qed
qed

lemma granted_finish: "log_valid (granted {}) (finish_sweep fuel env st start r) (\<lambda>_. granted {})"
proof (cases r)
  case (Some a)
  obtain c perHolder where a: "a = (c, perHolder)" by (cases a)
  have save: "log_valid (granted {}) (and_then (now_at env) (\<lambda>t. and_then (bus_call (ev_save env (rep t)))
      (\<lambda>saved. if saved then ret (Reported (rep t)) else throw))) (\<lambda>_. granted {})" for rep
    by (rule valid_then[OF granted_silent(1)], rule valid_then[OF granted_silent(3)]) (auto intro!: valid_ret valid_throw simp: granted_def)
  have purge: "log_valid (granted {}) (if st_mode st = Enforce then purge_pass fuel env (start - st_retentionMs st) None c else ret (Some c)) (\<lambda>_. granted {})"
    by (cases "st_mode st") (simp_all add: granted_purge_pass valid_ret)
  show ?thesis unfolding finish_sweep_def Some a option.case prod.case
    by (rule valid_then[OF purge]) (auto intro: valid_ret save split: option.split)
qed (simp add: finish_sweep_def valid_ret)

lemma granted_sweep: "log_valid (granted {}) (runSweep fuel env) (\<lambda>_. granted {})"
proof -
  have settings: "log_valid (granted {}) (or_throw v) (\<lambda>_. granted {})" for v :: "gc_settings option"
    by (rule valid_or_throw) (simp_all add: granted_def)
  have passes: "log_valid (granted {}) (sweep_passes fuel env st start) (\<lambda>_. granted {})" for st start
    unfolding sweep_passes_def
    by (rule valid_then[OF granted_discover], rule valid_case_prod, rule valid_then[OF granted_discover], rule valid_case_prod,
        rule valid_then[OF granted_retire_pass], rule granted_finish)
  show ?thesis unfolding runSweep_def
    by (rule valid_then[OF granted_silent(3)], rule valid_then[OF settings], rule valid_then[OF granted_silent(1)], rule passes)
qed

text \<open>C9. A sweep moves a blob aside or deletes a retired copy only with consent: in the last ask before, about
  this blob, everybody on the roster answered, readably, at least one holder answered at all,
  and none holds it, and a blob that is moved aside was last put before the cutoff when its row flipped;
  or, in a repair, a stat right before found (or restored) the live copy. Whatever fails or runs out.\<close>

theorem nothing_moves_without_consent:
  assumes "justified (gw_log w)"
  shows "justified (gw_log (snd (sweep fuel env locked w)))"
proof -
  obtain r w' where run: "runSweep fuel env w = (r, w')" by (rule prod.exhaust)
  have "case runSweep fuel env w of (Ret x, w) \<Rightarrow> granted {} (gw_log w) | (_, w) \<Rightarrow> justified (gw_log w)"
    using granted_sweep[of fuel env] assms unfolding valid_def by (simp add: granted_def)
  then have "justified (gw_log w')" by (cases r) (simp_all add: run granted_def)
  then show ?thesis using assms
    by (cases r) (auto simp: sweep_def run split: option.split bool.split)
qed

lemma nothing_moves_without_consent_witness:
  "justified (gw_log (snd (sweep 5 \<lparr>ev_now = \<lambda>x. (0, x), ev_statement = \<lambda>x. (Runs, x), ev_settings = \<lambda>st. (Some DEFAULT_SETTINGS, st),
       ev_list = \<lambda>r a st. (Some (JObj [(''items'', JArr [])]), st), ev_stat = \<lambda>s r st. (None, st), ev_retire = \<lambda>s st. (True, st),
       ev_purge = \<lambda>s st. (True, st), ev_ask = \<lambda>cs st. (None, st), ev_save = \<lambda>r st. (True, st)\<rparr> (Some True)
     \<lparr>gw_db = \<lparr>gd_blobs = [], gd_roster = []\<rparr>, gw_ext = (), gw_log = []\<rparr>)))"
  by (rule nothing_moves_without_consent) (simp add: justified_Nil)

section \<open>Report mode\<close>

text \<open>The log grew by asks only.\<close>

definition asks_since :: "gc_event list \<Rightarrow> 'w gc_world \<Rightarrow> bool" where
  "asks_since l0 w \<longleftrightarrow> (\<exists>l. gw_log w = l0 @ l \<and> list_all is_ask l)"

abbreviation only_asks :: "gc_event list \<Rightarrow> ('w, 'a) gcm \<Rightarrow> bool" where
  "only_asks l0 m \<equiv> valid (asks_since l0) (asks_since l0) m (\<lambda>_. asks_since l0)"

lemma only_asks_silent:
  "only_asks l0 (now_at env)" "only_asks l0 (statement env f)" "only_asks l0 (bus_call g)"
  by (rule validI; auto simp: asks_since_def now_at_def statement_def bus_call_def split: prod.split statement.split)+

lemma only_asks_basic: "only_asks l0 (ret x)" "only_asks l0 throw" "only_asks l0 (or_throw v)" "only_asks l0 (\<lambda>w. (Unfinished, w))"
  "only_asks l0 (add_log (Asked roster cs fired))"
proof -
  show "only_asks l0 (add_log (Asked roster cs fired))" by (auto simp: valid_def add_log_def asks_since_def)
  show "only_asks l0 (or_throw v)" by (cases v) (simp_all add: valid_def ret_def throw_def)
qed (simp_all add: valid_def ret_def throw_def)

lemma only_asks_unless: "only_asks l0 (statement_unless b v env f)"
  by (rule valid_unless[OF only_asks_basic(1) only_asks_silent(2)])

lemma only_asks_then: "only_asks l0 m \<Longrightarrow> (\<And>x. only_asks l0 (k x)) \<Longrightarrow> only_asks l0 (and_then m k)"
  by (rule valid_then)

lemmas only_asks_rules = only_asks_silent only_asks_basic only_asks_then valid_case_prod

lemma only_asks_ask: "only_asks l0 (askHolders env cs requireAnswer)"
  unfolding askHolders_def Let_def
proof (rule only_asks_then[OF only_asks_silent(2)], rule only_asks_then[OF only_asks_silent(3)], rule only_asks_then[OF only_asks_basic(5)])
  fix fired
  show "only_asks l0 (case fired of None \<Rightarrow> ret None
      | Some payload \<Rightarrow>
          and_then (if ro_answered (readBlobCollectRefsAnswers payload cs) = [] then ret ()
            else statement env (\<lambda>db. ((), touchRoster (ro_answered (readBlobCollectRefsAnswers payload cs)) db))) (\<lambda>_.
           if \<not> trusted roster (readBlobCollectRefsAnswers payload cs) then ret None
           else if requireAnswer \<and> ro_answered (readBlobCollectRefsAnswers payload cs) = [] then ret None
           else ret (Some (js_keys (ro_held (readBlobCollectRefsAnswers payload cs)),
             fold (count_answer cs) (arr_items (js_field payload ''answers'')) []))))" for roster
    by (cases fired) (auto intro!: only_asks_rules)
qed

lemma only_asks_discover:
  "valid (asks_since l0) (asks_since l0) (discover fuel env retired after k None) (\<lambda>r w. snd r = None \<and> asks_since l0 w)"
proof (induction fuel arbitrary: after k)
  case 0
  show ?case unfolding discover.simps by (rule valid_stuck)
next
  case (Suc fuel)
  have none: "valid (asks_since l0) (asks_since l0) (ret None) (\<lambda>r w. r = None \<and> asks_since l0 w)" by (rule valid_ret) simp
  have onward: "valid (asks_since l0) (\<lambda>w. r = None \<and> asks_since l0 w)
      (case next_page of None \<Rightarrow> ret (k + n, r) | Some a \<Rightarrow> discover fuel env retired (Some a) (k + n) r)
      (\<lambda>r w. snd r = None \<and> asks_since l0 w)" for r next_page n
    using Suc.IH by (intro valid_assume) (cases next_page, auto intro: valid_ret)
  show ?case unfolding discover.simps option.case
    by (rule only_asks_silent(3)[THEN valid_then], rule only_asks_basic(3)[THEN valid_then], rule only_asks_basic(3)[THEN valid_then],
        rule valid_case_prod, rule only_asks_silent(1)[THEN valid_then], rule only_asks_unless[THEN valid_then],
        rule valid_then[OF none], rule onward)
qed

lemma only_asks_retire_each: "only_asks l0 (retire_each env False cutoff held batch c)"
  by (induction batch arbitrary: c) (auto simp: Let_def intro!: only_asks_basic)

lemma only_asks_retire_pass: "only_asks l0 (retire_pass fuel env False cutoff after acc)"
proof (induction fuel arbitrary: after acc)
  case 0
  show ?case unfolding retire_pass.simps by (rule only_asks_basic)
next
  case (Suc fuel)
  obtain c perHolder where acc: "acc = (c, perHolder)" by (cases acc)
  show ?case unfolding acc retire_pass.simps
    by (rule only_asks_then[OF only_asks_silent(2)])
      (auto intro!: only_asks_basic only_asks_then[OF only_asks_ask] only_asks_then[OF only_asks_retire_each] Suc.IH split: option.split)
qed

lemma only_asks_passes:
  assumes "st_mode st = Report"
  shows "only_asks l0 (sweep_passes fuel env st start)"
proof -
  have finish: "only_asks l0 (finish_sweep fuel env st start retired)" for retired
    unfolding finish_sweep_def assms by (auto intro!: only_asks_rules split: option.split)
  have again: "valid (asks_since l0) (\<lambda>w. snd r = None \<and> asks_since l0 w) (discover fuel env True None 0 (snd r))
      (\<lambda>_. asks_since l0)" for r :: "nat \<times> string list option"
  proof (rule valid_assume)
    assume "snd r = None"
    then show "valid (asks_since l0) (asks_since l0) (discover fuel env True None 0 (snd r)) (\<lambda>_. asks_since l0)"
      by (simp only:) (rule valid_post[OF only_asks_discover], simp)
  qed
  have second: "valid (asks_since l0) (\<lambda>w. snd r = None \<and> asks_since l0 w)
      (case r of (k1, repair) \<Rightarrow> and_then (discover fuel env True None 0 repair) (\<lambda>(k2, repair).
         and_then (retire_pass fuel env False (start - st_graceMs st) None (no_counts\<lparr>ct_discovered := k1 + k2\<rparr>, []))
           (finish_sweep fuel env st start))) (\<lambda>_. asks_since l0)" for r
  proof -
    obtain k1 repair where r: "r = (k1, repair)" by (cases r)
    show ?thesis unfolding r prod.case snd_conv
      by (rule valid_then[OF again[of "(k1, repair)", unfolded snd_conv]]) (rule valid_case_prod, rule valid_then[OF only_asks_retire_pass finish])
  qed
  show ?thesis unfolding sweep_passes_def assms
    using second by (simp add: valid_then[OF only_asks_discover])
qed

lemma only_asks_sweep:
  fixes env :: "'w gc_env"
  assumes "\<And>st. pred_option (\<lambda>s. st_mode s = Report) (fst (ev_settings env st))"
  shows "only_asks l0 (runSweep fuel env)"
  unfolding runSweep_def
proof (rule valid_then)
  show "valid (asks_since l0) (asks_since l0) (bus_call (ev_settings env))
      (\<lambda>v w. pred_option (\<lambda>s. st_mode s = Report) v \<and> asks_since l0 w)"
  proof (rule validI)
    fix w :: "'w gc_world"
    assume w: "asks_since l0 w"
    show "case bus_call (ev_settings env) w of (Ret v, w) \<Rightarrow> pred_option (\<lambda>s. st_mode s = Report) v \<and> asks_since l0 w | (_, w) \<Rightarrow> asks_since l0 w"
      using w assms[of "(gw_db w, gw_ext w)"] by (auto simp: bus_call_def asks_since_def split: prod.split)
  qed
  fix given
  show "valid (asks_since l0) (\<lambda>w. pred_option (\<lambda>s. st_mode s = Report) given \<and> asks_since l0 w)
     (and_then (or_throw given) (\<lambda>st. and_then (now_at env) (sweep_passes fuel env st))) (\<lambda>_. asks_since l0)"
  proof (rule valid_assume)
    assume mode: "pred_option (\<lambda>s. st_mode s = Report) given"
    show "valid (asks_since l0) (asks_since l0) (and_then (or_throw given) (\<lambda>st. and_then (now_at env) (sweep_passes fuel env st))) (\<lambda>_. asks_since l0)"
    proof (cases given)
      case None
      then show ?thesis by (simp add: valid_def and_then_def throw_def)
    next
      case (Some st)
      then have "only_asks l0 (and_then (now_at env) (sweep_passes fuel env st))"
        using mode by (intro only_asks_then[OF only_asks_silent(1)] only_asks_passes) simp
      then show ?thesis by (simp add: Some valid_def and_then_def[of "ret st"] ret_def)
    qed
  qed
qed

text \<open>In report mode a sweep asks the holders and counts, and neither moves, restores nor deletes anything.\<close>

theorem report_mode_moves_nothing:
  assumes "\<And>st. pred_option (\<lambda>s. st_mode s = Report) (fst (ev_settings env st))"
  shows "\<exists>l. gw_log (snd (sweep fuel env locked w)) = gw_log w @ l \<and> list_all is_ask l"
proof -
  obtain r w' where run: "runSweep fuel env w = (r, w')" by (rule prod.exhaust)
  have "asks_since (gw_log w) w" by (simp add: asks_since_def)
  then have "asks_since (gw_log w) w'" using only_asks_sweep[OF assms, of "gw_log w" fuel] unfolding valid_def
    by (cases r) (auto simp: run dest!: spec[of _ w])
  then show ?thesis by (cases r) (auto simp: sweep_def run asks_since_def split: option.split bool.split)
qed

lemma report_mode_moves_nothing_witness:
  "\<exists>l. gw_log (snd (sweep 5 \<lparr>ev_now = \<lambda>x. (0, x), ev_statement = \<lambda>x. (Runs, x), ev_settings = \<lambda>st. (Some DEFAULT_SETTINGS, st),
       ev_list = \<lambda>r a st. (Some (JObj [(''items'', JArr [])]), st), ev_stat = \<lambda>s r st. (None, st), ev_retire = \<lambda>s st. (True, st),
       ev_purge = \<lambda>s st. (True, st), ev_ask = \<lambda>cs st. (None, st), ev_save = \<lambda>r st. (True, st)\<rparr> (Some True)
     \<lparr>gw_db = \<lparr>gd_blobs = [], gd_roster = []\<rparr>, gw_ext = (), gw_log = [Purged ''ab'']\<rparr>)) = [Purged ''ab''] @ l \<and> list_all is_ask l"
  by (rule report_mode_moves_nothing[where w = "\<lparr>gw_db = \<lparr>gd_blobs = [], gd_roster = []\<rparr>, gw_ext = (), gw_log = [Purged ''ab'']\<rparr>",
      unfolded gc_world.simps]) (simp add: DEFAULT_SETTINGS_def)

section \<open>Listing ends\<close>

definition finishes :: "('w, 'a) gcm \<Rightarrow> bool" where
  "finishes m \<longleftrightarrow> (\<forall>w. fst (m w) \<noteq> Unfinished)"

lemma finishes_basic: "finishes (ret x)" "finishes (or_throw v)" "finishes (add_log e)" "finishes (bus_call g)"
  "finishes (now_at env)" "finishes (statement env f)"
proof -
  show "finishes (or_throw v)" by (cases v) (simp_all add: finishes_def ret_def throw_def)
qed (simp_all add: finishes_def ret_def add_log_def bus_call_def now_at_def statement_def split: prod.split statement.split)

lemma finishes_unless: "finishes (statement_unless b v env f)"
  by (simp add: statement_unless_def finishes_basic)

lemma finishes_then:
  assumes "finishes m" "\<And>x w w'. m w = (Ret x, w') \<Longrightarrow> finishes (k x)"
  shows "finishes (and_then m k)"
  unfolding finishes_def
proof
  fix w
  obtain r w' where m: "m w = (r, w')" by (rule prod.exhaust)
  have "r \<noteq> Unfinished" using assms(1) m by (metis finishes_def fst_conv)
  then show "fst (and_then m k w) \<noteq> Unfinished" using assms(2)[of w _ w'] m by (cases r) (auto simp: and_then_def finishes_def)
qed

lemma finishes_calls: "finishes (stat_call env s restore)" "finishes (purge_call env s)"
  unfolding stat_call_def purge_call_def
  by (intro finishes_then finishes_basic; simp add: finishes_basic; simp add: finishes_def throw_def)+

lemma finishes_repair_each: "finishes (repair_each env shas repaired)"
  by (induction shas arbitrary: repaired) (auto intro!: finishes_basic finishes_then[OF finishes_calls(1)] finishes_then[OF finishes_calls(2)])

lemma finishes_repair:
  "finishes (case r of None \<Rightarrow> ret None
     | Some rep \<Rightarrow> and_then (if retired then repairRetired env shas rep else repairLive env shas rep) (\<lambda>rep. ret (Some rep)))"
  by (cases r; cases retired)
    (auto simp: repairRetired_def repairLive_def intro!: finishes_then[OF finishes_basic(5)] finishes_then[OF finishes_unless]
      finishes_then finishes_basic finishes_repair_each)

lemma listed_next:
  "readListPage raw after = Some (items, Some n) \<Longrightarrow> isBlobSha256 n \<and> (case after of None \<Rightarrow> True | Some a \<Rightarrow> a < n)"
  by (auto simp: readListPage_def split: jsval.splits option.splits if_splits)

text \<open>The shas a cursor can still move to.\<close>

definition shas_after :: "string option \<Rightarrow> string set" where
  "shas_after after = {sha. isBlobSha256 sha \<and> (case after of None \<Rightarrow> True | Some a \<Rightarrow> a < sha)}"

lemma finite_shas: "finite (shas_after after)"
proof (rule finite_subset)
  show "shas_after after \<subseteq> {s. set s \<subseteq> {c. is_hex c} \<and> length s = 64}"
    by (auto simp: shas_after_def isBlobSha256_def list_all_iff)
  show "finite {s :: string. set s \<subseteq> {c. is_hex c} \<and> length s = 64}" by (rule finite_lists_length_eq) simp
qed

lemma shas_after_next:
  assumes "readListPage raw after = Some (items, Some n)"
  shows "card (shas_after (Some n)) < card (shas_after after)"
proof (rule psubset_card_mono[OF finite_shas])
  have n: "isBlobSha256 n" "case after of None \<Rightarrow> True | Some a \<Rightarrow> a < n" using listed_next[OF assms] by simp_all
  then have "shas_after (Some n) \<subseteq> shas_after after" by (cases after) (auto simp: shas_after_def)
  moreover have "n \<in> shas_after after" "n \<notin> shas_after (Some n)" using n by (auto simp: shas_after_def)
  ultimately show "shas_after (Some n) \<subset> shas_after after" by blast
qed

lemma finishes_discover: "card (shas_after after) < fuel \<Longrightarrow> finishes (discover fuel env retired after k repair)"
proof (induction fuel arbitrary: after k repair)
  case (Suc fuel)
  have onward: "finishes (case next_page of None \<Rightarrow> ret (k', r) | Some n \<Rightarrow> discover fuel env retired (Some n) k' r)"
    if "readListPage raw after = Some (items, next_page)" for raw items next_page k' r
  proof (cases next_page)
    case (Some n)
    then have "card (shas_after (Some n)) < fuel" using shas_after_next[of raw after items n] that Suc.prems by simp
    then show ?thesis using Suc.IH by (simp add: Some)
  qed (simp add: finishes_basic)
  show ?case unfolding discover.simps
  proof (rule finishes_then[OF finishes_basic(4)], rule finishes_then[OF finishes_basic(2)], rule finishes_then[OF finishes_basic(2)])
    fix raw :: jsval and page :: "(string \<times> nat) list \<times> string option" and w w' :: "'a gc_world"
    obtain items next_page where page: "page = (items, next_page)" by (cases page)
    assume "or_throw (readListPage raw after) w = (Ret page, w')"
    then have read: "readListPage raw after = Some (items, next_page)"
      by (cases "readListPage raw after") (simp_all add: throw_def ret_def page)
    show "finishes (case page of (items, next_page) \<Rightarrow> and_then (now_at env) (\<lambda>t.
     and_then (statement_unless (items = []) 0 env (if retired then discoverRetired items t else discover_live items t)) (\<lambda>n.
     and_then (case repair of
         None \<Rightarrow> ret None
       | Some rep \<Rightarrow> and_then (if retired then repairRetired env (List.map fst items) rep else repairLive env (List.map fst items) rep)
           (\<lambda>rep. ret (Some rep))) (\<lambda>repair.
     (case next_page of
        None \<Rightarrow> ret (k + n, repair)
      | Some n' \<Rightarrow> discover fuel env retired (Some n') (k + n) repair)))))"
      unfolding page prod.case
      by (rule finishes_then[OF finishes_basic(5)], rule finishes_then[OF finishes_unless], rule finishes_then[OF finishes_repair],
          rule onward[OF read])
  qed
qed simp

text \<open>C12. The pages of a listing end, whatever the store answers: each cursor is a blob's name past the one
  before, so one more page than there are names is enough.\<close>

theorem listing_always_ends:
  "fst (discover (Suc (card (shas_after None))) env retired None 0 repair w) \<noteq> Unfinished"
  using finishes_discover[of None "Suc (card (shas_after None))" env retired 0 repair] by (simp add: finishes_def)

section \<open>A blob that is kept\<close>

text \<open>The statements of a sweep take no name off the roster.\<close>

lemma insert_unseen_roster: "gd_roster (snd (insert_unseen row items db)) = gd_roster db"
  by (induction row items db rule: insert_unseen.induct) (auto simp: Let_def split: prod.split)

lemma update_rows_roster [simp]: "gd_roster (update_rows P f db) = gd_roster db"
  by (simp add: update_rows_def)

lemma touchRoster_roster: "set (gd_roster (touchRoster names db)) = set (gd_roster db) \<union> set names"
proof -
  have "set (fold add_name names xs) = set xs \<union> set names" for xs
    by (induction names arbitrary: xs) (auto simp: add_name_def)
  then show ?thesis by (simp add: touchRoster_def)
qed

lemma statement_rosters:
  "gd_roster (snd (discover_live items t db)) = gd_roster db" "gd_roster (snd (discoverRetired items t db)) = gd_roster db"
  "gd_roster (snd (reviveListed shas t db)) = gd_roster db" "gd_roster (snd (claimLive shas t db)) = gd_roster db"
  "gd_roster (snd (markRetired s cutoff t db)) = gd_roster db" "gd_roster (unmarkRetired s t db) = gd_roster db"
  "gd_roster (markRestored s t db) = gd_roster db" "gd_roster (snd (deletePurged s cutoff db)) = gd_roster db"
  "gd_roster (recordPut s n t db) = gd_roster db"
  by (simp_all add: discover_live_def discoverRetired_def insert_unseen_roster reviveListed_def claimLive_def markRetired_def
      unmarkRetired_def markRestored_def deletePurged_def recordPut_def Let_def split: option.split)

text \<open>What the sweep relies on when it must not lose the blob \<open>sha\<close> that \<open>holder\<close> references. \<open>keep\<close> is the state in
  which the blob is safe; \<open>live\<close> says that it has a live copy, which a purge does not touch.\<close>

locale safe_backend =
  fixes env :: "'w gc_env"
    and keep live :: "gc_db \<times> 'w \<Rightarrow> bool"
    and holder sha :: string
  assumes on_roster: "keep (db, x) \<Longrightarrow> holder \<in> set (gd_roster db)"
    and rows_free: "keep (db, x) \<Longrightarrow> set (gd_roster db) \<subseteq> set (gd_roster db') \<Longrightarrow> keep (db', x)"
    and clock_keeps: "keep (db, x) \<Longrightarrow> keep (db, snd (ev_now env x))"
    and statement_keeps: "keep (db, x) \<Longrightarrow> keep (db, snd (ev_statement env x))"
    and settings_keep: "keep st \<Longrightarrow> keep (snd (ev_settings env st))"
    and list_keeps: "keep st \<Longrightarrow> keep (snd (ev_list env retired after st))"
    and stat_keeps: "keep st \<Longrightarrow> keep (snd (ev_stat env s restore st))"
    and stat_restores: "keep st \<Longrightarrow> fst (ev_stat env sha True st) = Some v \<Longrightarrow> is_object v \<Longrightarrow>
      js_field v ''found'' \<noteq> JBool False \<Longrightarrow> live (snd (ev_stat env sha True st))"
    and retire_keeps: "keep st \<Longrightarrow> keep (snd (ev_retire env s st))"
    and purge_keeps: "keep st \<Longrightarrow> s = sha \<longrightarrow> live st \<Longrightarrow> keep (snd (ev_purge env s st))"
    and ask_keeps: "keep st \<Longrightarrow> keep (snd (ev_ask env cs st))"
    and ask_heard: "keep st \<Longrightarrow> fst (ev_ask env cs st) = Some payload \<Longrightarrow> sha \<in> set cs \<Longrightarrow> holder \<in> set roster \<Longrightarrow>
      trusted roster (readBlobCollectRefsAnswers payload cs) \<Longrightarrow> js_get (ro_held (readBlobCollectRefsAnswers payload cs)) sha \<noteq> None"
    and save_keeps: "keep st \<Longrightarrow> keep (snd (ev_save env rep st))"
begin

definition safe :: "'w gc_world \<Rightarrow> bool" where
  "safe w \<longleftrightarrow> keep (gw_db w, gw_ext w)"

abbreviation keeps :: "('w, 'a) gcm \<Rightarrow> bool" where
  "keeps m \<equiv> valid safe safe m (\<lambda>_. safe)"

lemma keeps_basic: "keeps (ret x)" "keeps throw" "keeps (or_throw v)" "keeps (\<lambda>w. (Unfinished, w))" "keeps (add_log e)"
proof -
  show "keeps (or_throw v)" by (cases v) (simp_all add: valid_def ret_def throw_def)
qed (simp_all add: valid_def ret_def throw_def add_log_def safe_def)

lemma keeps_now: "keeps (now_at env)"
proof (rule validI)
  fix w assume "safe w"
  then show "case now_at env w of (Ret x, w) \<Rightarrow> safe w | (_, w) \<Rightarrow> safe w"
    using clock_keeps[of "gw_db w" "gw_ext w"] by (auto simp: now_at_def safe_def split: prod.split)
qed

lemma keeps_call: "(\<And>st. keep st \<Longrightarrow> keep (snd (g st))) \<Longrightarrow> keeps (bus_call g)"
proof (rule validI)
  fix w assume g: "\<And>st. keep st \<Longrightarrow> keep (snd (g st))" and "safe w"
  then have "keep (snd (g (gw_db w, gw_ext w)))" by (simp add: safe_def g)
  then show "case bus_call g w of (Ret x, w) \<Rightarrow> safe w | (_, w) \<Rightarrow> safe w" by (auto simp: bus_call_def safe_def split: prod.split)
qed

lemma keeps_statement:
  assumes "\<And>db. set (gd_roster db) \<subseteq> set (gd_roster (snd (f db)))"
  shows "keeps (statement env f)"
proof (rule validI)
  fix w assume "safe w"
  then have "keep (gw_db w, snd (ev_statement env (gw_ext w)))" by (simp add: safe_def statement_keeps)
  then show "case statement env f w of (Ret x, w) \<Rightarrow> safe w | (_, w) \<Rightarrow> safe w"
    using rows_free[OF _ assms] by (auto simp: statement_def safe_def split: prod.split statement.split)
qed

lemma keeps_then: "keeps m \<Longrightarrow> (\<And>x. keeps (k x)) \<Longrightarrow> keeps (and_then m k)"
  by (rule valid_then)

lemma keeps_roster:
  "keeps (statement env (reviveListed shas t))" "keeps (statement env (claimLive shas t))"
  "keeps (statement env (if retired then discoverRetired items t else discover_live items t))"
  "keeps (statement env (\<lambda>db. ((), unmarkRetired s t db)))" "keeps (statement env (\<lambda>db. ((), markRestored s t db)))"
  "keeps (statement env (deletePurged s cutoff))" "keeps (statement env (\<lambda>db. ((), touchRoster names db)))"
  "keeps (statement env (\<lambda>db. (f db, db)))"
  "keeps (statement env (\<lambda>db. let (ok, db') = markRetired s cutoff t db in ((ok, js_get (gd_blobs db) s), db')))"
  by (rule keeps_statement; auto simp: statement_rosters touchRoster_roster Let_def split: prod.split;
      metis statement_rosters(5) snd_conv)+

lemma keeps_unless:
  "keeps (statement_unless b v env (reviveListed shas t))" "keeps (statement_unless b v env (claimLive shas t))"
  "keeps (statement_unless b k env (if retired then discoverRetired items t else discover_live items t))"
  by (rule valid_unless; rule keeps_basic keeps_roster)+

lemma keeps_stat: "valid safe safe (stat_call env s restore)
    (\<lambda>v w. safe w \<and> (s = sha \<and> restore \<and> is_object v \<and> js_field v ''found'' \<noteq> JBool False \<longrightarrow> live (gw_db w, gw_ext w)))"
proof (rule validI)
  fix w assume w: "safe w"
  obtain r d x where call: "ev_stat env s restore (gw_db w, gw_ext w) = (r, d, x)" by (metis prod.exhaust)
  then have "keep (d, x)" using stat_keeps[of "(gw_db w, gw_ext w)" s restore] w by (simp add: safe_def)
  moreover have "live (d, x)" if "s = sha" "restore" "r = Some v" "is_object v" "js_field v ''found'' \<noteq> JBool False" for v
    using stat_restores[of "(gw_db w, gw_ext w)" v] w that call by (simp add: safe_def)
  ultimately show "case stat_call env s restore w of
      (Ret v, w) \<Rightarrow> safe w \<and> (s = sha \<and> restore \<and> is_object v \<and> js_field v ''found'' \<noteq> JBool False \<longrightarrow> live (gw_db w, gw_ext w))
    | (_, w) \<Rightarrow> safe w"
    by (cases r) (auto simp: stat_call_def and_then_def bus_call_def add_log_def call ret_def throw_def safe_def)
qed

lemma keeps_purge:
  assumes "s = sha \<Longrightarrow> L"
  shows "valid safe (\<lambda>w. safe w \<and> (L \<longrightarrow> s = sha \<longrightarrow> live (gw_db w, gw_ext w))) (purge_call env s) (\<lambda>_. safe)"
  unfolding purge_call_def
proof (rule valid_then)
  show "valid safe (\<lambda>w. safe w \<and> (L \<longrightarrow> s = sha \<longrightarrow> live (gw_db w, gw_ext w))) (add_log (Purged s))
      (\<lambda>_ w. safe w \<and> (s = sha \<longrightarrow> live (gw_db w, gw_ext w)))"
    using assms by (simp add: valid_def add_log_def safe_def)
  show "valid safe (\<lambda>w. safe w \<and> (s = sha \<longrightarrow> live (gw_db w, gw_ext w)))
      (and_then (bus_call (ev_purge env s)) (\<lambda>done_ok. if done_ok then ret () else throw)) (\<lambda>_. safe)"
  proof (rule valid_then)
    show "valid safe (\<lambda>w. safe w \<and> (s = sha \<longrightarrow> live (gw_db w, gw_ext w))) (bus_call (ev_purge env s)) (\<lambda>_. safe)"
    proof (rule validI)
      fix w assume "safe w \<and> (s = sha \<longrightarrow> live (gw_db w, gw_ext w))"
      then have "keep (snd (ev_purge env s (gw_db w, gw_ext w)))" by (simp add: safe_def purge_keeps)
      then show "case bus_call (ev_purge env s) w of (Ret x, w) \<Rightarrow> safe w | (_, w) \<Rightarrow> safe w"
        by (auto simp: bus_call_def safe_def split: prod.split)
    qed
  qed (simp add: keeps_basic)
qed

lemma keeps_repair_each: "keeps (repair_each env shas repaired)"
proof (induction shas arbitrary: repaired)
  case (Cons s shas)
  show ?case unfolding repair_each.simps
  proof (rule valid_then[OF keeps_stat])
    fix v
    show "valid safe (\<lambda>w. safe w \<and> (s = sha \<and> True \<and> is_object v \<and> js_field v ''found'' \<noteq> JBool False \<longrightarrow> live (gw_db w, gw_ext w)))
       (if \<not> is_object v \<or> js_field v ''found'' = JBool False then repair_each env shas repaired
        else and_then (purge_call env s) (\<lambda>_. repair_each env shas (add_name s repaired))) (\<lambda>_. safe)"
    proof (cases "\<not> is_object v \<or> js_field v ''found'' = JBool False")
      case True
      then show ?thesis by (auto intro: valid_pre[OF Cons.IH])
    next
      case False
      then show ?thesis by (auto intro!: valid_then[OF valid_pre[OF keeps_purge[of s True]]] Cons.IH)
    qed
  qed
qed (simp add: keeps_basic)

lemma keeps_discover: "keeps (discover fuel env retired after k repair)"
proof (induction fuel arbitrary: after k repair)
  case 0
  show ?case unfolding discover.simps by (rule keeps_basic)
next
  case (Suc fuel)
  have repair: "keeps (case r of None \<Rightarrow> ret None
       | Some rep \<Rightarrow> and_then (if retired then repairRetired env shas rep else repairLive env shas rep) (\<lambda>rep. ret (Some rep)))" for r shas
    by (cases r; cases retired)
      (auto simp: repairRetired_def repairLive_def intro!: keeps_then keeps_now keeps_unless keeps_repair_each keeps_basic)
  show ?case unfolding discover.simps
    by (rule keeps_then[OF keeps_call], rule list_keeps, assumption, rule keeps_then[OF keeps_basic(3)], rule keeps_then[OF keeps_basic(3)],
        rule valid_case_prod, rule keeps_then[OF keeps_now], rule keeps_then[OF keeps_unless(3)], rule keeps_then[OF repair])
      (auto intro: Suc.IH keeps_basic split: option.split)
qed

text \<open>What the ask tells: a batch with the blob is answered by nobody who can be trusted, or the blob is held.\<close>

definition heard :: "string list \<Rightarrow> (string list \<times> (string, nat) jsmap) option \<Rightarrow> bool" where
  "heard cs answer \<longleftrightarrow> (case answer of None \<Rightarrow> True | Some (held, per) \<Rightarrow> sha \<in> set cs \<longrightarrow> sha \<in> set held)"

lemma keeps_roster_read: "valid safe safe (statement env (\<lambda>db. (sort (gd_roster db), db))) (\<lambda>roster w. holder \<in> set roster \<and> safe w)"
proof (rule validI)
  fix w assume w: "safe w"
  then have "keep (gw_db w, snd (ev_statement env (gw_ext w)))" by (simp add: safe_def statement_keeps)
  then show "case statement env (\<lambda>db. (sort (gd_roster db), db)) w of (Ret roster, w) \<Rightarrow> holder \<in> set roster \<and> safe w | (_, w) \<Rightarrow> safe w"
    using on_roster by (auto simp: statement_def safe_def split: prod.split statement.split)
qed

definition can_hear :: "string list \<Rightarrow> string list \<Rightarrow> jsval option \<Rightarrow> bool" where
  "can_hear cs roster fired \<longleftrightarrow> (\<forall>payload. fired = Some payload \<longrightarrow> sha \<in> set cs \<longrightarrow> trusted roster (readBlobCollectRefsAnswers payload cs) \<longrightarrow>
     js_get (ro_held (readBlobCollectRefsAnswers payload cs)) sha \<noteq> None)"

lemma keeps_fire:
  assumes "holder \<in> set roster"
  shows "valid safe safe (bus_call (ev_ask env cs)) (\<lambda>fired w. can_hear cs roster fired \<and> safe w)"
proof (rule validI)
  fix w assume w: "safe w"
  have "keep (snd (ev_ask env cs (gw_db w, gw_ext w)))" using w by (simp add: safe_def ask_keeps)
  moreover have "can_hear cs roster (fst (ev_ask env cs (gw_db w, gw_ext w)))"
    unfolding can_hear_def using ask_heard[OF w[unfolded safe_def] _ _ assms] by blast
  ultimately show "case bus_call (ev_ask env cs) w of (Ret fired, w) \<Rightarrow> can_hear cs roster fired \<and> safe w | (_, w) \<Rightarrow> safe w"
    by (auto simp: bus_call_def safe_def split: prod.split)
qed

lemma keeps_ask: "valid safe safe (askHolders env cs requireAnswer) (\<lambda>answer w. heard cs answer \<and> safe w)"
  unfolding askHolders_def
proof (rule valid_then[OF keeps_roster_read], rule valid_assume, rule valid_then[OF keeps_fire], assumption, rule valid_assume)
  fix roster fired
  assume hear: "can_hear cs roster fired"
  show "valid safe safe (and_then (add_log (Asked roster cs fired)) (\<lambda>_. case fired of
        None \<Rightarrow> ret None
      | Some payload \<Rightarrow>
          (let out = readBlobCollectRefsAnswers payload cs in
           and_then (if ro_answered out = [] then ret () else statement env (\<lambda>db. ((), touchRoster (ro_answered out) db))) (\<lambda>_.
           if \<not> trusted roster out then ret None
           else if requireAnswer \<and> ro_answered out = [] then ret None
           else ret (Some (js_keys (ro_held out), fold (count_answer cs) (arr_items (js_field payload ''answers'')) []))))))
    (\<lambda>answer w. heard cs answer \<and> safe w)"
  proof (rule valid_then[OF keeps_basic(5)], cases fired)
    case None
    have "valid safe safe (ret None) (\<lambda>answer w. heard cs answer \<and> safe w)" by (rule valid_ret) (simp add: heard_def)
    then show "valid safe safe (case fired of
        None \<Rightarrow> ret None
      | Some payload \<Rightarrow>
          (let out = readBlobCollectRefsAnswers payload cs in
           and_then (if ro_answered out = [] then ret () else statement env (\<lambda>db. ((), touchRoster (ro_answered out) db))) (\<lambda>_.
           if \<not> trusted roster out then ret None
           else if requireAnswer \<and> ro_answered out = [] then ret None
           else ret (Some (js_keys (ro_held out), fold (count_answer cs) (arr_items (js_field payload ''answers'')) [])))))
      (\<lambda>answer w. heard cs answer \<and> safe w)" by (simp add: None)
  next
    case (Some payload)
    define out where "out = readBlobCollectRefsAnswers payload cs"
    have touch: "keeps (if b then ret () else statement env (\<lambda>db. ((), touchRoster names db)))" for b names
      by (cases b) (auto intro: keeps_basic keeps_roster)
    have out: "trusted roster out \<Longrightarrow> sha \<in> set cs \<Longrightarrow> sha \<in> set (js_keys (ro_held out))"
      using hear unfolding held_keys out_def can_hear_def Some by blast
    have "valid safe safe
        (if \<not> trusted roster out then ret None
         else if requireAnswer \<and> ro_answered out = [] then ret None
         else ret (Some (js_keys (ro_held out), per))) (\<lambda>answer w. heard cs answer \<and> safe w)" for per
      using out by (auto simp: valid_def ret_def heard_def)
    then show "valid safe safe (case fired of
        None \<Rightarrow> ret None
      | Some payload \<Rightarrow>
          (let out = readBlobCollectRefsAnswers payload cs in
           and_then (if ro_answered out = [] then ret () else statement env (\<lambda>db. ((), touchRoster (ro_answered out) db))) (\<lambda>_.
           if \<not> trusted roster out then ret None
           else if requireAnswer \<and> ro_answered out = [] then ret None
           else ret (Some (js_keys (ro_held out), fold (count_answer cs) (arr_items (js_field payload ''answers'')) [])))))
      (\<lambda>answer w. heard cs answer \<and> safe w)"
      unfolding Some option.case Let_def out_def[symmetric] by (intro valid_then[OF touch])
  qed
qed

lemma keeps_retireOne: "keeps (retireOne env s cutoff)"
proof -
  have undo: "keeps (\<lambda>w. case statement env (\<lambda>db. ((), unmarkRetired s t db)) w of (_, w) \<Rightarrow> (Thrown, w))" for t
  proof (rule validI)
    fix w assume "safe w"
    then have "case statement env (\<lambda>db. ((), unmarkRetired s t db)) w of (Ret x, w) \<Rightarrow> safe w | (_, w) \<Rightarrow> safe w"
      using keeps_roster(4)[of s t] by (simp add: valid_def)
    then show "case case statement env (\<lambda>db. ((), unmarkRetired s t db)) w of (_, w) \<Rightarrow> (Thrown, w) of (Ret x, w) \<Rightarrow> safe w | (_, w) \<Rightarrow> safe w"
      by (auto split: prod.splits gc_result.splits)
  qed
  have retire: "keeps (bus_call (ev_retire env s))" by (rule keeps_call) (rule retire_keeps)
  show ?thesis unfolding retireOne_def
    by (rule keeps_then[OF keeps_now], rule keeps_then[OF keeps_roster(9)], rule valid_case_prod)
      (auto intro!: keeps_then[OF retire] keeps_then keeps_basic undo split: option.split)
qed

lemma keeps_retire_each: "keeps (retire_each env enforce cutoff held batch c)"
  by (induction batch arbitrary: c) (auto simp: Let_def intro!: keeps_basic keeps_then[OF keeps_retireOne])

lemma keeps_retire_pass: "keeps (retire_pass fuel env enforce cutoff after acc)"
proof (induction fuel arbitrary: after acc)
  case 0
  show ?case unfolding retire_pass.simps by (rule keeps_basic)
next
  case (Suc fuel)
  have ask: "keeps (askHolders env cs b)" for cs b by (rule valid_post[OF keeps_ask]) simp
  obtain c perHolder where acc: "acc = (c, perHolder)" by (cases acc)
  show ?case unfolding acc retire_pass.simps
    by (rule keeps_then[OF keeps_roster(8)])
      (auto intro!: keeps_basic keeps_then[OF ask] keeps_then[OF keeps_retire_each] Suc.IH split: option.split)
qed

lemma keeps_purge_each:
  assumes "sha \<in> set (List.map fst batch) \<Longrightarrow> sha \<in> set held"
  shows "keeps (purge_each env cutoff held batch c)"
  using assms
proof (induction batch arbitrary: c)
  case (Cons b batch)
  obtain s n where b: "b = (s, n)" by (cases b)
  have ih: "keeps (purge_each env cutoff held batch c)" for c using Cons by auto
  have stat: "keeps (stat_call env s restore)" for restore by (rule valid_post[OF keeps_stat]) simp
  have purge: "keeps (purge_call env s)" if "s \<notin> set held"
    using that Cons.prems by (intro valid_pre[OF keeps_purge[of s False]]) (auto simp: b)
  have restored: "keeps (and_then (now_at env) (\<lambda>t. and_then (statement env (\<lambda>db. ((), markRestored s t db))) (\<lambda>_.
      purge_each env cutoff held batch c)))" for c
    using ih by (intro keeps_then[OF keeps_now] keeps_then[OF keeps_roster(5)])
  have gone: "keeps (and_then (statement env (deletePurged s cutoff)) (\<lambda>gone. purge_each env cutoff held batch (c' gone)))" for c'
    using ih by (intro keeps_then[OF keeps_roster(6)])
  show ?case
  proof (cases "s \<in> set held")
    case True
    then show ?thesis by (simp add: b) (intro keeps_then[OF stat] restored)
  next
    case False
    have "keeps (if \<not> says_missing v
        then and_then (now_at env) (\<lambda>t. and_then (statement env (\<lambda>db. ((), markRestored s t db))) (\<lambda>_. purge_each env cutoff held batch c))
        else and_then (statement env (deletePurged s cutoff)) (\<lambda>gone. purge_each env cutoff held batch
            (if gone then c\<lparr>ct_purged := Suc (ct_purged c), ct_bytesPurged := ct_bytesPurged c + n\<rparr> else c)))" for v
      using restored gone by (cases "says_missing v") simp_all
    then show ?thesis using False by (simp add: b) (intro keeps_then[OF purge[OF False]] keeps_then[OF stat])
  qed
qed (simp add: keeps_basic)

lemma keeps_purge_pass: "keeps (purge_pass fuel env cutoff after c)"
proof (induction fuel arbitrary: after c)
  case 0
  show ?case unfolding purge_pass.simps by (rule keeps_basic)
next
  case (Suc fuel)
  have each: "keeps (and_then (purge_each env cutoff held batch c) (\<lambda>c.
      if length batch < BLOB_COLLECT_REFS_MAX_CANDIDATES then ret (Some c) else purge_pass fuel env cutoff (Some (fst (last batch))) c))"
    if "heard (List.map fst batch) (Some (held, per))" for batch held per
    using that by (intro keeps_then[OF keeps_purge_each]) (auto simp: heard_def intro: keeps_basic Suc.IH)
  have "keeps (and_then (askHolders env (List.map fst batch) True) (\<lambda>answer.
       (case answer of
          None \<Rightarrow> ret None
        | Some (held, per) \<Rightarrow>
            and_then (purge_each env cutoff held batch c) (\<lambda>c.
            if length batch < BLOB_COLLECT_REFS_MAX_CANDIDATES then ret (Some c)
            else purge_pass fuel env cutoff (Some (fst (last batch))) c))))" for batch
  proof (rule valid_then[OF keeps_ask], rule valid_assume)
    fix answer assume "heard (List.map fst batch) answer"
    then show "keeps (case answer of
          None \<Rightarrow> ret None
        | Some (held, per) \<Rightarrow>
            and_then (purge_each env cutoff held batch c) (\<lambda>c.
            if length batch < BLOB_COLLECT_REFS_MAX_CANDIDATES then ret (Some c)
            else purge_pass fuel env cutoff (Some (fst (last batch))) c))"
      using each by (cases answer) (auto intro: keeps_basic simp del: purge_each.simps)
  qed
  then show ?case unfolding purge_pass.simps
    by (intro keeps_then[OF keeps_roster(8)]) (auto intro: keeps_basic)
qed

lemma keeps_finish: "keeps (finish_sweep fuel env st start r)"
proof (cases r)
  case (Some a)
  obtain c perHolder where a: "a = (c, perHolder)" by (cases a)
  have save: "keeps (and_then (now_at env) (\<lambda>t. and_then (bus_call (ev_save env (rep t)))
      (\<lambda>saved. if saved then ret (Reported (rep t)) else throw)))" for rep
    by (rule keeps_then[OF keeps_now], rule keeps_then[OF keeps_call], rule save_keeps) (auto intro: keeps_basic)
  have purge: "keeps (if st_mode st = Enforce then purge_pass fuel env (start - st_retentionMs st) None c else ret (Some c))"
    by (cases "st_mode st") (simp_all add: keeps_purge_pass keeps_basic)
  show ?thesis unfolding finish_sweep_def Some a option.case prod.case
    by (rule keeps_then[OF purge]) (auto intro: keeps_basic save split: option.split)
qed (simp add: finish_sweep_def keeps_basic)

lemma keeps_sweep: "keeps (runSweep fuel env)"
proof -
  have passes: "keeps (sweep_passes fuel env st start)" for st start
    unfolding sweep_passes_def
    by (rule keeps_then[OF keeps_discover], rule valid_case_prod, rule keeps_then[OF keeps_discover], rule valid_case_prod,
        rule keeps_then[OF keeps_retire_pass], rule keeps_finish)
  show ?thesis unfolding runSweep_def
    by (rule keeps_then[OF keeps_call], rule settings_keep, assumption, rule keeps_then[OF keeps_basic(3)],
        rule keeps_then[OF keeps_now], rule passes)
qed

lemma sweep_keeps: "safe w \<Longrightarrow> safe (snd (sweep fuel env locked w))"
proof -
  assume w: "safe w"
  obtain r w' where run: "runSweep fuel env w = (r, w')" by (rule prod.exhaust)
  have "case runSweep fuel env w of (Ret x, w) \<Rightarrow> safe w | (_, w) \<Rightarrow> safe w"
    using keeps_sweep[of fuel] w by (simp add: valid_def)
  then have "safe w'" by (cases r) (simp_all add: run)
  then show ?thesis using w by (cases r) (auto simp: sweep_def run split: option.split bool.split)
qed

lemma sweeps_keep: "safe w \<Longrightarrow> safe (fold (\<lambda>(fuel, locked) w. snd (sweep fuel env locked w)) runs w)"
  by (induction runs arbitrary: w) (auto simp: sweep_keeps)

end

end
