(* ===== verification/Blob_Safety.thy ===== *)
theory Blob_Safety
  imports Blob_Store Blob_Gc
begin

text \<open>
  The collector of \<^theory_text>\<open>Blob_Gc\<close> over the store of \<^theory_text>\<open>Blob_Store\<close>: the hooks that
  \<^verbatim>\<open>packages/blob-store-fs/src/plugin.ts\<close> registers, the holders that answer with \<^verbatim>\<open>answerBlobCollectRefs\<close>, and
  others who put, read and probe blobs whenever the sweep waits for a call. A hook of the store fails for an
  invalid digest only; other errors of the file system are left out. A blob that a holder on the
  roster references is not lost, however many sweeps run and wherever they fail.
\<close>

section \<open>The hooks of the store\<close>

fun sum_value :: "plugin_error + 'a \<Rightarrow> 'a option" where
  "sum_value (Inl e) = None"
| "sum_value (Inr x) = Some x"

definition stat_hook :: "fs_path \<Rightarrow> string \<Rightarrow> bool \<Rightarrow> fs \<Rightarrow> jsval option \<times> fs" where
  "stat_hook base sha restore f =
     (case blob_stat base sha restore f of (r, f) \<Rightarrow>
       (map_option (\<lambda>found. (case found of
            None \<Rightarrow> JObj [(''found'', JBool False)]
          | Some n \<Rightarrow> JObj [(''size'', JNum (Fin (of_nat n)))])) (sum_value r), f))"

definition list_hook :: "fs_path \<Rightarrow> bool \<Rightarrow> string option \<Rightarrow> nat \<Rightarrow> fs \<Rightarrow> jsval option" where
  "list_hook base retired after limit f =
     map_option (\<lambda>(items, next_page). JObj ((''items'',
         JArr (List.map (\<lambda>(sha, n). JObj [(''sha256'', JStr sha), (''size'', JNum (Fin (of_nat n)))]) items)) #
       (case next_page of None \<Rightarrow> [] | Some n \<Rightarrow> [(''next'', JStr n)])))
     (sum_value (blob_list base retired after limit f))"

definition retire_hook :: "fs_path \<Rightarrow> string \<Rightarrow> fs \<Rightarrow> bool \<times> fs" where
  "retire_hook base sha f = (case blob_retire base sha f of (r, f) \<Rightarrow> (sum_value r \<noteq> None, f))"

definition purge_hook :: "fs_path \<Rightarrow> string \<Rightarrow> fs \<Rightarrow> bool \<times> fs" where
  "purge_hook base sha f = (case blob_purge base sha f of (r, f) \<Rightarrow> (sum_value r \<noteq> None, f))"

section \<open>The world around a sweep\<close>

text \<open>What others do between two steps of the sweep. A put tells the collector, which records it at a time,
  or fails to.\<close>

datatype user_op = UPut bytes "int option" | UGet string | UStat string bool

fun user_step :: "(bytes \<Rightarrow> string) \<Rightarrow> fs_path \<Rightarrow> user_op \<Rightarrow> gc_db \<times> fs \<Rightarrow> gc_db \<times> fs" where
  "user_step digest base (UPut b t) (db, f) =
     (case blob_put digest base b f of ((sha, n), f) \<Rightarrow>
       (case t of Some t \<Rightarrow> if isBlobSha256 sha then recordPut sha n t db else db | None \<Rightarrow> db, f))"
| "user_step digest base (UGet sha) (db, f) = (db, snd (blob_get digest base sha f))"
| "user_step digest base (UStat sha restore) (db, f) = (db, snd (blob_stat base sha restore f))"

text \<open>What happens at each tick: the time, whether a statement works, the settings, what others did since,
  who is asked (\<open>None\<close>: the ask is vetoed), and whether the report is kept.\<close>

record gc_script =
  sc_clock :: "nat \<Rightarrow> int"
  sc_statement :: "nat \<Rightarrow> statement"
  sc_settings :: "nat \<Rightarrow> gc_settings option"
  sc_others :: "nat \<Rightarrow> user_op list"
  sc_holders :: "nat \<Rightarrow> (string \<times> (string list \<Rightarrow> jsval option)) list option"
  sc_save :: "nat \<Rightarrow> bool"

record gc_fs =
  fw_fs :: fs
  fw_tick :: nat

definition fs_call :: "(bytes \<Rightarrow> string) \<Rightarrow> fs_path \<Rightarrow> gc_script \<Rightarrow> (nat \<Rightarrow> fs \<Rightarrow> 'a \<times> fs) \<Rightarrow> gc_db \<times> gc_fs \<Rightarrow> 'a \<times> gc_db \<times> gc_fs" where
  "fs_call digest base sc g st =
     (let n = fw_tick (snd st); (db, f) = fold (user_step digest base) (sc_others sc n) (fst st, fw_fs (snd st)); (r, f) = g n f
      in (r, db, \<lparr>fw_fs = f, fw_tick = Suc n\<rparr>))"

definition fs_env :: "(bytes \<Rightarrow> string) \<Rightarrow> fs_path \<Rightarrow> gc_script \<Rightarrow> gc_fs gc_env" where
  "fs_env digest base sc = \<lparr>
     ev_now = (\<lambda>x. (sc_clock sc (fw_tick x), x\<lparr>fw_tick := Suc (fw_tick x)\<rparr>)),
     ev_statement = (\<lambda>x. (sc_statement sc (fw_tick x), x\<lparr>fw_tick := Suc (fw_tick x)\<rparr>)),
     ev_settings = fs_call digest base sc (\<lambda>n f. (sc_settings sc n, f)),
     ev_list = (\<lambda>retired after. fs_call digest base sc (\<lambda>n f. (list_hook base retired after LIST_PAGE_LIMIT f, f))),
     ev_stat = (\<lambda>sha restore. fs_call digest base sc (\<lambda>n. stat_hook base sha restore)),
     ev_retire = (\<lambda>sha. fs_call digest base sc (\<lambda>n. retire_hook base sha)),
     ev_purge = (\<lambda>sha. fs_call digest base sc (\<lambda>n. purge_hook base sha)),
     ev_ask = (\<lambda>cs. fs_call digest base sc (\<lambda>n f. (map_option (\<lambda>hs. collected hs cs) (sc_holders sc n), f))),
     ev_save = (\<lambda>rep. fs_call digest base sc (\<lambda>n f. (sc_save sc n, f)))\<rparr>"

section \<open>What keeps a blob\<close>

text \<open>Whenever the holder is asked about the blob, its lookup finds a reference. It need not be there to be asked.\<close>

definition references :: "gc_script \<Rightarrow> string \<Rightarrow> string \<Rightarrow> bool" where
  "references sc holder sha \<longleftrightarrow>
     (\<forall>n hs l cs. sc_holders sc n = Some hs \<longrightarrow> (holder, l) \<in> set hs \<longrightarrow> sha \<in> set cs \<longrightarrow> finds l cs sha)"

definition fs_keep :: "(bytes \<Rightarrow> string) \<Rightarrow> fs_path \<Rightarrow> gc_script \<Rightarrow> string \<Rightarrow> string \<Rightarrow> gc_db \<times> gc_fs \<Rightarrow> bool" where
  "fs_keep digest base sc holder sha st \<longleftrightarrow> isBlobSha256 sha \<and> references sc holder sha \<and> holder \<in> set (gd_roster (fst st)) \<and>
     content_ok digest base (fw_fs (snd st)) \<and> has_copy base (fw_fs (snd st)) sha"

definition fs_live :: "fs_path \<Rightarrow> string \<Rightarrow> gc_db \<times> gc_fs \<Rightarrow> bool" where
  "fs_live base sha st \<longleftrightarrow> live_copy base (fw_fs (snd st)) sha \<noteq> None"

text \<open>The part of the state that a call works on.\<close>

definition held_fs :: "(bytes \<Rightarrow> string) \<Rightarrow> fs_path \<Rightarrow> string \<Rightarrow> string \<Rightarrow> gc_db \<times> fs \<Rightarrow> bool" where
  "held_fs digest base holder sha st \<longleftrightarrow> holder \<in> set (gd_roster (fst st)) \<and> content_ok digest base (snd st) \<and> has_copy base (snd st) sha"

fun blob_op_of :: "user_op \<Rightarrow> blob_op" where
  "blob_op_of (UPut b t) = BPut b"
| "blob_op_of (UGet sha) = BGet sha"
| "blob_op_of (UStat sha restore) = BStat sha restore"

lemma user_step_state:
  "snd (user_step digest base q st) = blob_step digest base (blob_op_of q) (snd st)"
  "gd_roster (fst (user_step digest base q st)) = gd_roster (fst st)"
  by (cases q; cases st; simp add: statement_rosters split: prod.split option.split)+

lemma user_step_held:
  assumes "held_fs digest base holder sha st"
  shows "held_fs digest base holder sha (user_step digest base q st)"
proof -
  have "blob_op_of q \<noteq> BPurge sha" by (cases q) simp_all
  then show ?thesis using assms blob_step_keeps by (auto simp: held_fs_def user_step_state)
qed

lemma users_held: "held_fs digest base holder sha st \<Longrightarrow> held_fs digest base holder sha (fold (user_step digest base) qs st)"
  by (induction qs arbitrary: st) (simp_all add: user_step_held)

text \<open>A live copy stays while others put, read and probe.\<close>

lemma user_step_live: "live_copy base (snd st) sha \<noteq> None \<Longrightarrow> live_copy base (snd (user_step digest base q st)) sha \<noteq> None"
  by (cases q) (auto simp: user_step_state put_copies get_state stat_state restore_copies)

lemma users_live:
  "live_copy base (snd st) sha \<noteq> None \<Longrightarrow> live_copy base (snd (fold (user_step digest base) qs st)) sha \<noteq> None"
proof (induction qs arbitrary: st)
  case (Cons q qs)
  then show ?case using user_step_live[of base st sha digest q] by simp
qed simp

lemma fs_call_keeps:
  assumes keep: "fs_keep digest base sc holder sha st"
    and g: "\<And>n f. live_copy base (fw_fs (snd st)) sha \<noteq> None \<longrightarrow> live_copy base f sha \<noteq> None \<Longrightarrow>
      content_ok digest base f \<Longrightarrow> has_copy base f sha \<Longrightarrow> content_ok digest base (snd (g n f)) \<and> has_copy base (snd (g n f)) sha"
  shows "fs_keep digest base sc holder sha (snd (fs_call digest base sc g st))"
proof -
  obtain db f where users: "fold (user_step digest base) (sc_others sc (fw_tick (snd st))) (fst st, fw_fs (snd st)) = (db, f)"
    by (rule prod.exhaust)
  have "held_fs digest base holder sha (fst st, fw_fs (snd st))" using keep by (simp add: fs_keep_def held_fs_def)
  from users_held[OF this, of "sc_others sc (fw_tick (snd st))"] have held: "held_fs digest base holder sha (db, f)" by (simp add: users)
  have "live_copy base (fw_fs (snd st)) sha \<noteq> None \<longrightarrow> live_copy base f sha \<noteq> None"
    using users_live[of base "(fst st, fw_fs (snd st))" sha digest "sc_others sc (fw_tick (snd st))"] by (simp add: users)
  with g held have "content_ok digest base (snd (g (fw_tick (snd st)) f)) \<and> has_copy base (snd (g (fw_tick (snd st)) f)) sha"
    by (simp add: held_fs_def)
  then show ?thesis using keep held by (auto simp: fs_call_def fs_keep_def held_fs_def users Let_def split: prod.split)
qed

lemma hook_states:
  "snd (stat_hook base s restore f) = blob_step digest base (BStat s restore) f"
  "snd (retire_hook base s f) = blob_step digest base (BRetire s) f"
  "snd (purge_hook base s f) = blob_step digest base (BPurge s) f"
  by (simp_all add: stat_hook_def retire_hook_def purge_hook_def split: prod.split)

lemma purge_live: "live_copy base f sha \<noteq> None \<Longrightarrow> has_copy base (snd (blob_purge base s f)) sha"
  by (cases "isBlobSha256 s") (simp_all add: has_copy_def purge_copies invalid_sha_state)

text \<open>A stat that restores and does not say \<open>found: false\<close> leaves a live copy.\<close>

lemma stat_hook_live:
  assumes "isBlobSha256 sha" "fst (stat_hook base sha True f) = Some v" "js_field v ''found'' \<noteq> JBool False"
  shows "live_copy base (snd (stat_hook base sha True f)) sha \<noteq> None"
  using assms by (auto simp: stat_hook_def blob_stat_def assertValidSha_def check_def live_copy_def Let_def split: option.splits prod.splits)

text \<open>The ask of \<open>fs_env\<close>: if the holder is on the roster and the outcome can be trusted, the blob is held.\<close>

lemma collected_heard:
  assumes refs: "\<And>l. (holder, l) \<in> set hs \<Longrightarrow> finds l cs sha" and sha: "sha \<in> set cs" and roster: "holder \<in> set roster"
    and trusted: "trusted roster (readBlobCollectRefsAnswers (collected hs cs) cs)"
  shows "js_get (ro_held (readBlobCollectRefsAnswers (collected hs cs) cs)) sha \<noteq> None"
proof -
  define asks where "asks = List.map (\<lambda>(n, l). holder_answer (JArr (List.map JStr cs)) n l) hs"
  define out where "out = fold (read_answer cs) asks no_answers"
  have "js_field (collected hs cs) ''answers'' = JArr asks"
    using collected_fields[of "collect_payload cs" "List.map JStr cs" "[]" hs] unfolding collected_def asks_def
    by (simp add: collect_payload_def)
  then have read: "readBlobCollectRefsAnswers (collected hs cs) cs = out\<lparr>ro_failed := sort (ro_failed out)\<rparr>"
    by (simp add: readBlobCollectRefsAnswers_def out_def Let_def)
  have "sort (ro_failed out) = [] \<longleftrightarrow> ro_failed out = []" by (metis set_empty set_sort)
  then have clean: "ro_malformed out = 0" "ro_failed out = []" and answered: "holder \<in> set (ro_answered out)"
    using trusted roster by (auto simp: trusted_def read list_all_iff)
  have "set (ro_answered out) \<subseteq> {h. \<exists>a \<in> set asks. js_field a ''holder'' = JStr h}"
    using read_answers_grow(4)[of cs asks no_answers] by (simp add: out_def no_answers_def)
  with answered obtain a where a: "a \<in> set asks" "js_field a ''holder'' = JStr holder" by auto
  have name: "js_field (holder_answer c n l) ''holder'' = JStr n" for c n l
    by (simp add: holder_answer_def answer_value_def split: option.split list.split jsval.split)
  obtain l where l: "(holder, l) \<in> set hs" "holder_answer (JArr (List.map JStr cs)) holder l \<in> set asks"
    using a by (force simp: asks_def name)
  show ?thesis using found_is_held[OF sha refs[OF l(1)] l(2), of no_answers] clean by (simp add: read out_def)
qed

lemma fs_env_safe: "safe_backend (fs_env digest base sc) (fs_keep digest base sc holder sha) (fs_live base sha) holder sha"
proof
  fix db db' :: gc_db and x :: gc_fs
  assume keep: "fs_keep digest base sc holder sha (db, x)"
  then show "holder \<in> set (gd_roster db)" by (simp add: fs_keep_def)
  show "fs_keep digest base sc holder sha (db, snd (ev_now (fs_env digest base sc) x))"
    "fs_keep digest base sc holder sha (db, snd (ev_statement (fs_env digest base sc) x))"
    using keep by (simp_all add: fs_keep_def fs_env_def)
  assume "set (gd_roster db) \<subseteq> set (gd_roster db')"
  then show "fs_keep digest base sc holder sha (db', x)" using keep by (auto simp: fs_keep_def)
next
  fix st :: "gc_db \<times> gc_fs" and retired after s restore cs rep payload roster v
  assume keep: "fs_keep digest base sc holder sha st"
  note calls = fs_call_keeps[OF keep]
  show "fs_keep digest base sc holder sha (snd (ev_settings (fs_env digest base sc) st))"
    "fs_keep digest base sc holder sha (snd (ev_list (fs_env digest base sc) retired after st))"
    "fs_keep digest base sc holder sha (snd (ev_ask (fs_env digest base sc) cs st))"
    "fs_keep digest base sc holder sha (snd (ev_save (fs_env digest base sc) rep st))"
    by (simp_all add: fs_env_def calls)
  show "fs_keep digest base sc holder sha (snd (ev_stat (fs_env digest base sc) s restore st))"
    and "fs_keep digest base sc holder sha (snd (ev_retire (fs_env digest base sc) s st))"
  proof -
    have step: "content_ok digest base (blob_step digest base q f) \<and> has_copy base (blob_step digest base q f) sha"
      if "q \<noteq> BPurge sha" "content_ok digest base f" "has_copy base f sha" for q f
      using that blob_step_keeps by blast
    have "content_ok digest base (snd (stat_hook base s restore f)) \<and> has_copy base (snd (stat_hook base s restore f)) sha"
      "content_ok digest base (snd (retire_hook base s f)) \<and> has_copy base (snd (retire_hook base s f)) sha"
      if "content_ok digest base f" "has_copy base f sha" for f
      unfolding hook_states(1)[where digest = digest] hook_states(2)[where digest = digest] using step that by blast+
    then show "fs_keep digest base sc holder sha (snd (ev_stat (fs_env digest base sc) s restore st))"
      "fs_keep digest base sc holder sha (snd (ev_retire (fs_env digest base sc) s st))"
      by (simp_all add: fs_env_def calls)
  qed
  show "fs_keep digest base sc holder sha (snd (ev_purge (fs_env digest base sc) s st))" if "s = sha \<longrightarrow> fs_live base sha st"
  proof -
    have "has_copy base (snd (purge_hook base s f)) sha"
      if "live_copy base (fw_fs (snd st)) sha \<noteq> None \<longrightarrow> live_copy base f sha \<noteq> None" "has_copy base f sha" for f
    proof (cases "s = sha")
      case True
      then show ?thesis using purge_live[of base f sha s] that \<open>s = sha \<longrightarrow> fs_live base sha st\<close>
        by (simp add: hook_states(3)[where digest = digest] fs_live_def)
    next
      case False
      then show ?thesis using blob_step_keeps(2)[of "BPurge s" sha] that unfolding hook_states(3)[where digest = digest] by blast
    qed
    then show ?thesis unfolding fs_env_def
      by (simp only: gc_env.simps) (rule calls; simp add: hook_states(3)[of base s _ digest] blob_step_keeps(1) del: blob_step.simps)
  qed
  assume sha: "sha \<in> set cs" and fired: "fst (ev_ask (fs_env digest base sc) cs st) = Some payload" and roster: "holder \<in> set roster"
    and trusted: "trusted roster (readBlobCollectRefsAnswers payload cs)"
  obtain hs where hs: "sc_holders sc (fw_tick (snd st)) = Some hs" "payload = collected hs cs"
    using fired by (auto simp: fs_env_def fs_call_def Let_def split: prod.splits)
  have "finds l cs sha" if "(holder, l) \<in> set hs" for l
    using keep sha hs(1) that by (auto simp: fs_keep_def references_def)
  from collected_heard[OF this sha roster] trusted
  show "js_get (ro_held (readBlobCollectRefsAnswers payload cs)) sha \<noteq> None" by (simp add: hs(2))
next
  fix st :: "gc_db \<times> gc_fs" and v
  assume keep: "fs_keep digest base sc holder sha st" and v: "fst (ev_stat (fs_env digest base sc) sha True st) = Some v"
    "js_field v ''found'' \<noteq> JBool False"
  obtain db f where users: "fold (user_step digest base) (sc_others sc (fw_tick (snd st))) (fst st, fw_fs (snd st)) = (db, f)"
    by (rule prod.exhaust)
  obtain r g where hook: "stat_hook base sha True f = (r, g)" by (rule prod.exhaust)
  have call: "ev_stat (fs_env digest base sc) sha True st = (r, db, \<lparr>fw_fs = g, fw_tick = Suc (fw_tick (snd st))\<rparr>)"
    by (simp add: fs_env_def fs_call_def users hook)
  have "isBlobSha256 sha" using keep by (simp add: fs_keep_def)
  from stat_hook_live[OF this, of base f v] v show "fs_live base sha (snd (ev_stat (fs_env digest base sc) sha True st))"
    by (simp add: hook call fs_live_def)
qed

interpretation gc_on_fs: safe_backend "fs_env digest base sc" "fs_keep digest base sc holder sha" "fs_live base sha" holder sha
  for digest base sc holder sha
  by (rule fs_env_safe)

text \<open>C8. A blob that is stored, and that a holder on the roster references whenever it is asked, can be read
  after any number of sweeps, in either mode, with any settings, whatever statement or call fails, whoever
  else answers, is missing or vetoes the ask, and whatever others put, read or probe in between.\<close>

theorem referenced_blob_survives_sweeps:
  assumes "isBlobSha256 sha" "references sc holder sha" "holder \<in> set (gd_roster (gw_db w))"
    and "content_ok digest base (fw_fs (gw_ext w))" "has_copy base (fw_fs (gw_ext w)) sha"
  shows "let w' = fold (\<lambda>(fuel, locked) w. snd (sweep fuel (fs_env digest base sc) locked w)) runs w in
    holder \<in> set (gd_roster (gw_db w')) \<and>
    (\<exists>b. digest b = sha \<and> fst (blob_get digest base sha (fw_fs (gw_ext w'))) = Inr (Some b))"
proof -
  have "gc_on_fs.safe digest base sc holder sha w" using assms by (simp add: gc_on_fs.safe_def fs_keep_def)
  from gc_on_fs.sweeps_keep[OF this, of runs] show ?thesis
    using get_reads_copy by (auto simp: gc_on_fs.safe_def fs_keep_def Let_def)
qed

definition demo_script :: gc_script where
  "demo_script = \<lparr>sc_clock = (\<lambda>n. 0), sc_statement = (\<lambda>n. Runs), sc_settings = (\<lambda>n. Some (DEFAULT_SETTINGS\<lparr>st_mode := Enforce\<rparr>)),
     sc_others = (\<lambda>n. [UStat demo_sha False]), sc_holders = (\<lambda>n. Some [(''skills'', \<lambda>cs. Some (JArr [JObj [(''sha256'', JStr demo_sha)]]))]),
     sc_save = (\<lambda>n. True)\<rparr>"

lemma referenced_blob_survives_sweeps_witness:
  "\<exists>b. fst (blob_get (\<lambda>b. demo_sha) [''blobs''] demo_sha (fw_fs (gw_ext
     (snd (sweep 3 (fs_env (\<lambda>b. demo_sha) [''blobs''] demo_script) (Some True)
       \<lparr>gw_db = \<lparr>gd_blobs = [], gd_roster = [''skills'']\<rparr>,
        gw_ext = \<lparr>fw_fs = blob_step (\<lambda>b. demo_sha) [''blobs''] (BPut ''x'') [], fw_tick = 0\<rparr>, gw_log = []\<rparr>))))) = Inr (Some b)"
proof -
  have "content_ok (\<lambda>b. demo_sha) [''blobs''] (blob_step (\<lambda>b. demo_sha) [''blobs''] (BPut ''x'') [])"
    by (rule blob_step_keeps) (simp add: content_ok_def live_copy_def retired_copy_def)
  moreover have "has_copy [''blobs''] (blob_step (\<lambda>b. demo_sha) [''blobs''] (BPut ''x'') []) demo_sha"
    by (simp add: has_copy_def put_copies)
  moreover have "references demo_script ''skills'' demo_sha" by (simp add: references_def demo_script_def finds_def)
  ultimately show ?thesis
    using referenced_blob_survives_sweeps[where runs = "[(3, Some True)]" and holder = "''skills''" and digest = "\<lambda>b. demo_sha"
        and base = "[''blobs'']" and sha = demo_sha and sc = demo_script
        and w = "\<lparr>gw_db = \<lparr>gd_blobs = [], gd_roster = [''skills'']\<rparr>,
          gw_ext = \<lparr>fw_fs = blob_step (\<lambda>b. demo_sha) [''blobs''] (BPut ''x'') [], fw_tick = 0\<rparr>, gw_log = []\<rparr>"]
    by (auto simp: demo_sha_ok Let_def simp del: blob_step.simps)
qed

end
