(* ===== verification/Spec2Isabelle.thy ===== *)
theory Spec2Isabelle
  imports Hook_Bus Bootstrap Session_Plugin Eventbus Decision_Machine Tool_Rules Egress_Allowlist
    Credential_Registry Connect_Target Egress_Block_Buffer Request_Framer Metered_Proxy
    Http_Server Metered_Usage Blob_Safety
begin

text \<open>
  The core of ax, a plugin host for agents: the kernel, the sessions, the tool policy, the credential proxy,
  the HTTP server, the usage ledger and the blob store with its collector. Paths below are relative to
  \<^verbatim>\<open>packages/\<close>. A theory opens with a text that says which file it follows and what it leaves out; a
  definition has the name of the function it translates, a record or datatype that of the interface.
  The properties stand in the theory of their component, or, when they span several, in the last of them.

  \<^bold>\<open>The parts and how they meet.\<close> Plugins talk over the hook bus and are started in the order of their call
  graph. A session has a token and an inbox of work. A tool call is judged by the tool policy; one that is
  held waits as a decision. Everything the sandbox sends to the network goes through the credential proxy:
  it puts the real credential in place of a placeholder, refuses private addresses, and meters the calls
  to a model provider, asking the usage ledger whether the user may still call. The HTTP server takes the
  requests of the web client, checks them on the bus and hands them to the routes the plugins registered.
  Files are content-addressed blobs; whoever references one answers the collector, which moves aside and
  later deletes what nobody references.

  \<^bold>\<open>Shared.\<close> \<^theory_text>\<open>Ax_Prelude\<close>: JavaScript numbers, \<^verbatim>\<open>Map\<close> and \<^verbatim>\<open>Set\<close> in insertion order (the locale \<^verbatim>\<open>js_map\<close> with its
  interpretation), plugin errors as values of a sum type. \<^theory_text>\<open>Js_Text\<close>: \<^verbatim>\<open>split\<close>, \<^verbatim>\<open>join\<close>, UTF-8 and base64. \<^theory_text>\<open>Js_Value\<close>:
  \<^verbatim>\<open>unknown\<close> payloads and their validators.

  \<^bold>\<open>Kernel\<close> (\<^verbatim>\<open>core/src\<close>). \<^theory_text>\<open>Hook_Bus\<close> (\<^verbatim>\<open>hook-bus.ts\<close>, \<^verbatim>\<open>util/with-timeout.ts\<close>): calls with a deadline, firing with vetoes,
  subscriptions; a bounded fire ends, a veto ends it, a subscriber that only fails makes no difference. \<^theory_text>\<open>Call_Graph\<close> and
  \<^theory_text>\<open>Bootstrap\<close> (\<^verbatim>\<open>bootstrap.ts\<close>, \<^verbatim>\<open>plugin.ts\<close>): the cycle check is exact, initialisation follows the calls, a failed
  boot shuts down what it had started. \<^theory_text>\<open>Blob_Refs\<close> (\<^verbatim>\<open>blob-collect-refs.ts\<close>): both sides of a round of answers.

  \<^bold>\<open>Sessions and events\<close> (\<^verbatim>\<open>session-inmemory/src\<close>, \<^verbatim>\<open>eventbus-inprocess/src\<close>). \<^theory_text>\<open>Session_Store\<close> is a directory of sessions (a
  locale), \<^theory_text>\<open>Session_Inbox\<close> a queue with blocked claims whose every promise is resolved once, \<^theory_text>\<open>Session_Plugin\<close> the
  service hooks over both with their validators. \<^theory_text>\<open>Eventbus\<close>: channels with isolated handlers.

  \<^bold>\<open>Tool policy and decisions\<close> (\<^verbatim>\<open>tool-policy/src\<close>, \<^verbatim>\<open>decisions/src/machine.ts\<close>). \<^theory_text>\<open>Tool_Verdicts\<close> and \<^theory_text>\<open>Tool_Rules\<close>: layers can
  only tighten a verdict; \<^theory_text>\<open>Egress_Allowlist\<close>: the database store and the store in memory implement one
  specification (the locale \<^verbatim>\<open>egress_store\<close>, interpreted twice) and agree. \<^theory_text>\<open>Decision_Machine\<close>: approving,
  dismissing and undoing; nothing is sent twice.

  \<^bold>\<open>Credential proxy\<close> (\<^verbatim>\<open>credential-proxy/src\<close>). \<^theory_text>\<open>Credential_Registry\<close>: a credential is only put into a request to the hosts
  it is bound to. \<^theory_text>\<open>Private_Ip\<close> and \<^theory_text>\<open>Connect_Target\<close>: what may be dialled. \<^theory_text>\<open>Egress_Block_Buffer\<close>: the refused hosts.
  \<^theory_text>\<open>Request_Framer\<close> cuts the byte stream into heads and bodies: how the stream arrives in chunks makes no
  difference, and it refines a reader of whole requests. \<^theory_text>\<open>Usage_Scan\<close> and \<^theory_text>\<open>Response_Tap\<close> read the
  answers in the same way; \<^theory_text>\<open>Metered_Tunnel\<close> pairs answers with requests, \<^theory_text>\<open>Provider_Meter\<close> counts the calls of a
  user, and \<^theory_text>\<open>Metered_Proxy\<close> runs all of them together, in courses where a ledger is present and a session is
  not open twice.

  \<^bold>\<open>HTTP server\<close> (\<^verbatim>\<open>http-server/src\<close>). \<^theory_text>\<open>Http_Router\<close>: the table refines a list of live routes. \<^theory_text>\<open>Http_Cookies\<close>: signed cookies
  and their headers. \<^theory_text>\<open>Http_Guard\<close>: the cross-site guard on the bus before the dispatch. \<^theory_text>\<open>Http_Body\<close>: bodies up to
  a cap. \<^theory_text>\<open>Http_Response\<close>: the response writer, streams and sized bodies. \<^theory_text>\<open>Http_Server\<close> composes them. A
  handler's run is the calls it makes and how it ends, if it ends. A request that does not wait for a
  subscriber, its body, its handler or the source of its answer ends answered, cut off or in an open stream,
  as long as Node takes the heads it is given and every source gives its iterator; where one of these two
  fails, the answer never leaves, and the server takes it for sent.

  \<^bold>\<open>Usage ledger\<close> (\<^verbatim>\<open>usage-limits/src\<close>). \<^theory_text>\<open>Usage_Store\<close> refines a history without tables: a
  log of charges and what is known of each turn, which is charged once; \<^theory_text>\<open>Usage_Limits\<close>: settings in bounds and
  costs from prices; \<^theory_text>\<open>Usage_Service\<close>: the gate, which fails closed, and the meters. \<^theory_text>\<open>Metered_Usage\<close> puts the
  ledger behind the proxy: a suspended user is refused there as well.

  \<^bold>\<open>Blobs\<close> (\<^verbatim>\<open>blob-store-fs/src\<close>, \<^verbatim>\<open>blob-gc/src\<close>). \<^theory_text>\<open>Blob_Store\<close>: bytes that were put can be read until somebody purges them, and
  pages of a listing are the sorted names. \<^theory_text>\<open>Blob_Gc\<close>: the sweep of the collector against an environment that may
  fail and interfere at any call. A sweep moves and deletes only with consent; a listing ends. The locale
  \<^verbatim>\<open>safe_backend\<close> states what a backend and its holders must keep, and proves inside that the sweep loses no
  blob a holder references. \<^theory_text>\<open>Blob_Safety\<close> interprets it on \<^theory_text>\<open>Blob_Store\<close> with holders that answer as \<^theory_text>\<open>Blob_Refs\<close> has
  it.

  \<^bold>\<open>Conventions.\<close> Errors are values; messages and log lines are left out except where something depends on
  them. Code that is not in the repository (random bytes, digests and MACs, JSON and URL parsing, DNS,
  handlers of plugins) is an argument. Asynchrony is explicit: a promise settles at an instant or never, or
  the events come as a list in any order; one database statement is atomic. JavaScript numbers are exact
  rationals with infinities and not-a-number; where the code's doubles round, the theory says so. Strings of
  hosts, paths and headers are lists of bytes, decoded texts lists of code points.

  \<^bold>\<open>Termination.\<close> Functions are structural or have a measure, except the loops of the sweep in \<^theory_text>\<open>Blob_Gc\<close>, which
  read pages from outside and take fuel. One more page than there are names of blobs after the cursor is
  enough for a listing (\<^verbatim>\<open>listing_always_ends\<close>); the other properties of the sweep hold whatever fuel is given,
  also when it runs out, since then the world so far is judged.

  \<^bold>\<open>Not modelled.\<close> The web client and the other plugins with a database, an external process or a network
  behind them (orchestrator, runners, routines, connectors, skills, memory, MCP, sandboxes, credential and
  conversation stores, IPC): their logic is mostly SQL, process handling or third-party protocols, of which a
  faithful model would be mostly parameters. Of the modelled parts: TLS, certificates and sockets of the proxy,
  \<^verbatim>\<open>callJoined\<close> of the bus, the verdict store of the tool policy, the saving of prices and of the collector's
  settings, the admin listings, and the temporary files of the blob store.
\<close>

end
